(* ===== verification/Prelude.thy ===== *)
theory Prelude
  imports Main "HOL-Library.Word" "HOL-Library.Monad_Syntax"
begin

text \<open>
  Shared vocabulary of the development: the machine integer types of the program (a
  \<open>size_t\<close> or pointer is a 64-bit word, an \<open>unsigned int\<close> a 32-bit word, a
  \<open>uint8_t\<close> an 8-bit word), the facts about masks, powers of two and rounding that
  the allocator, the server and the instrumenter share, and the lemma collections the
  component theories add to.
\<close>

unbundle bit_operations_syntax

type_synonym u8 = "8 word"
type_synonym u32 = "32 word"
type_synonym u64 = "64 word"
type_synonym memory = "u64 \<Rightarrow> u64"

named_theorems size_arith \<open>facts that move size computations to the natural numbers\<close>
named_theorems cell_simps \<open>reading a field after writing a field\<close>
named_theorems frame_simps \<open>what an operation leaves unchanged\<close>

subsection \<open>Masks and rounding\<close>

lemma unat_take_bit_word: "unat (take_bit k (a :: 'a::len word)) = unat a mod 2 ^ k"
  by (simp only: unsigned_take_bit_eq) (simp add: take_bit_eq_mod)

lemma unat_drop_bit: "unat (drop_bit k (a :: 'a::len word)) = unat a div 2 ^ k"
  by (simp only: unat_drop_bit_eq) (simp add: drop_bit_eq_div)

lemma unat_less_exp: "unat (a :: 'a::len word) < 2 ^ LENGTH('a)"
  by (rule unsigned_less)

lemma and_not_mask_diff: "a AND NOT (mask k) = a - take_bit k (a :: 'a::len word)"
proof -
  have "a - take_bit k a = a AND NOT (take_bit k a)"
    by (rule disjunctive_diff) (simp add: bit_take_bit_iff)
  also have "\<dots> = a AND NOT (mask k)"
    by (auto simp: bit_eq_iff bit_simps)
  finally show ?thesis by simp
qed

lemma unat_and_not_mask:
  "unat (a AND NOT (mask k) :: 'a::len word) = unat a div 2 ^ k * 2 ^ k"
proof -
  have le: "take_bit k a \<le> a"
    by (simp add: word_le_nat_alt unat_take_bit_word)
  have "unat (a AND NOT (mask k)) = unat a - unat (take_bit k a)"
    by (simp add: and_not_mask_diff unat_sub [OF le])
  also have "\<dots> = unat a - unat a mod 2 ^ k"
    by (simp add: unat_take_bit_word)
  finally show ?thesis by (simp add: minus_mod_eq_div_mult)
qed

lemma unat_and_mask: "unat (a AND mask k :: 'a::len word) = unat a mod 2 ^ k"
  by (simp add: unat_take_bit_word flip: take_bit_eq_mask)

lemma and_mask_eq_0_iff: "(a :: 'a::len word) AND mask k = 0 \<longleftrightarrow> 2 ^ k dvd unat a"
proof -
  have "a AND mask k = 0 \<longleftrightarrow> unat (a AND mask k) = 0"
    by (simp add: unsigned_eq_0_iff)
  then show ?thesis by (simp add: unat_and_mask mod_eq_0_iff_dvd)
qed

definition pow2 :: "'a::len word \<Rightarrow> bool" where
  "pow2 a \<longleftrightarrow> (\<exists>k < LENGTH('a). a = 2 ^ k)"

lemma unat_exp: "k < LENGTH('a) \<Longrightarrow> unat (2 ^ k :: 'a::len word) = 2 ^ k"
proof -
  assume "k < LENGTH('a)"
  then have "(2::nat) ^ k < 2 ^ LENGTH('a)" by (simp add: power_strict_increasing)
  then have "unat (word_of_nat (2 ^ k) :: 'a word) = 2 ^ k"
    by (simp only: unsigned_of_nat) (simp add: take_bit_nat_eq_self)
  then show ?thesis by simp
qed

lemma bit_unat_div: "bit (a :: 'a::len word) j \<longleftrightarrow> odd (unat a div 2 ^ j)"
proof -
  have "bit a j \<longleftrightarrow> bit (unat a) j"
    by (auto simp: bit_unsigned_iff dest: bit_imp_le_length)
  then show ?thesis by (simp add: bit_iff_odd)
qed

lemma nat_top_bit:
  assumes "0 < (n::nat)"
  obtains j where "2 ^ j \<le> n" "n < 2 ^ Suc j"
  using ex_power_ivl1 [of 2 n] assms by auto

lemma pow2_iff: "pow2 (a :: 'a::len word) \<longleftrightarrow> a \<noteq> 0 \<and> a AND (a - 1) = 0"
proof
  assume "pow2 a"
  then obtain k where k: "k < LENGTH('a)" and a: "a = 2 ^ k"
    by (auto simp: pow2_def)
  have "a \<noteq> 0" using unat_exp [OF k] a by (metis power_not_zero unsigned_0 zero_neq_numeral)
  moreover have "a AND (a - 1) = 0"
    unfolding a mask_eq_exp_minus_1 [symmetric]
    by (rule bit_word_eqI) (simp add: bit_and_iff bit_exp_iff bit_mask_iff)
  ultimately show "a \<noteq> 0 \<and> a AND (a - 1) = 0" ..
next
  assume asm: "a \<noteq> 0 \<and> a AND (a - 1) = 0"
  then have pos: "0 < unat a" by (simp add: unat_gt_0)
  then obtain j where j: "2 ^ j \<le> unat a" "unat a < 2 ^ Suc j" by (rule nat_top_bit)
  have jl: "j < LENGTH('a)"
    using j(1) unsigned_less [of a] by (meson le_less_trans nat_power_less_imp_less zero_less_numeral)
  have "unat a = 2 ^ j"
  proof (rule ccontr)
    assume "unat a \<noteq> 2 ^ j"
    with j have "2 ^ j \<le> unat a - 1" "unat a - 1 < 2 ^ Suc j" by auto
    then have "(unat a - 1) div 2 ^ j = 1" "unat a div 2 ^ j = 1"
      using j by (auto intro!: div_nat_eqI)
    moreover have "unat (a - 1) = unat a - 1"
      using asm by (simp add: unat_minus_one)
    ultimately have "bit a j" "bit (a - 1) j" by (simp_all add: bit_unat_div)
    then have "bit (a AND (a - 1)) j" by (simp add: bit_and_iff)
    with asm show False by simp
  qed
  then have "a = 2 ^ j" using unat_exp [OF jl] by (metis word_unat_eq_iff)
  with jl show "pow2 a" by (auto simp: pow2_def)
qed

lemma pow2E:
  assumes "pow2 (a :: 'a::len word)"
  obtains k where "k < LENGTH('a)" "a = 2 ^ k" "unat a = 2 ^ k" "a - 1 = mask k"
  using assms by (auto simp: pow2_def unat_exp mask_eq_exp_minus_1)

text \<open>The idiom \<open>(S + (a - 1)) & ~(a - 1)\<close>: round up to a multiple of a power of two.\<close>

definition round_up :: "'a::len word \<Rightarrow> 'a word \<Rightarrow> 'a word" where
  "round_up a S = (S + (a - 1)) AND NOT (a - 1)"

lemma unat_round_up:
  assumes "pow2 (a :: 'a::len word)" "unat S + (unat a - 1) < 2 ^ LENGTH('a)"
  shows "unat (round_up a S) = (unat S + (unat a - 1)) div unat a * unat a"
proof -
  obtain k where k: "unat a = 2 ^ k" "a - 1 = mask k"
    using assms(1) by (rule pow2E)
  have "a \<noteq> 0" using assms(1) by (simp add: pow2_iff)
  then have "unat (S + (a - 1)) = unat S + (unat a - 1)"
    using assms(2) by (simp add: unat_plus_if' unat_minus_one)
  then show ?thesis
    using unat_and_not_mask [of "S + (a - 1)" k] by (simp add: round_up_def k)
qed

lemma round_up_bounds:
  assumes "pow2 (a :: 'a::len word)" "unat S + (unat a - 1) < 2 ^ LENGTH('a)"
  shows "unat S \<le> unat (round_up a S)" "unat (round_up a S) < unat S + unat a"
    "unat a dvd unat (round_up a S)"
proof -
  have pos: "0 < unat a" using assms(1) by (simp add: pow2_iff unat_gt_0)
  let ?n = "unat S + (unat a - 1)"
  have eq: "unat (round_up a S) = ?n div unat a * unat a"
    by (rule unat_round_up [OF assms])
  have "?n div unat a * unat a + ?n mod unat a = ?n" by simp
  moreover have "?n mod unat a < unat a" using pos by simp
  ultimately show "unat S \<le> unat (round_up a S)" "unat (round_up a S) < unat S + unat a"
    unfolding eq using pos by linarith+
  show "unat a dvd unat (round_up a S)" by (simp add: eq)
qed

lemma round_up_dvd:
  assumes "pow2 (a :: 'a::len word)"
  shows "unat a dvd unat (round_up a S)"
proof -
  obtain k where k: "unat a = 2 ^ k" "a - 1 = mask k" using assms by (rule pow2E)
  show ?thesis by (simp add: round_up_def k unat_and_not_mask)
qed

subsection \<open>Sequencing\<close>

text \<open>
  Code that can end the process is modelled in the option monad: \<open>None\<close> is a call that
  does not return (the code called \<open>abort()\<close>, \<open>exit\<close> or failed an assertion, or a
  loop over corrupted links never ends).
\<close>

lemma bind_Some_iff: "Option.bind x f = Some y \<longleftrightarrow> (\<exists>a. x = Some a \<and> f a = Some y)"
  by (cases x) auto

lemma assert_opt_Some [simp]: "(if b then Some x else None) = Some y \<longleftrightarrow> b \<and> x = y"
  by auto

end
