(* ===== verification/SizeT.thy ===== *)
theory SizeT
  imports Prelude
begin

text \<open>
  The size and alignment layer of \<open>malloc.c\<close> as it is configured for \<open>malloc.o\<close>
  on a 64-bit machine (\<open>-DHAVE_MMAP=0\<close>, no \<open>FOOTERS\<close>, no \<open>DEBUG\<close>, no
  \<open>USE_LOCKS\<close>): the \<open>size_t\<close> constants, \<open>is_aligned\<close> and
  \<open>align_offset\<close>, the chunk size constants, the conversions between chunks and user
  pointers, and the padding of a request to a chunk size.
\<close>

subsection \<open>size_t and alignment constants\<close>

definition SIZE_T_SIZE :: u64 where "SIZE_T_SIZE = 8"
definition SIZE_T_BITSIZE :: u64 where "SIZE_T_BITSIZE = push_bit 3 SIZE_T_SIZE"
definition MAX_SIZE_T :: u64 where "MAX_SIZE_T = NOT 0"
definition HALF_MAX_SIZE_T :: u64 where "HALF_MAX_SIZE_T = MAX_SIZE_T div 2"
definition TWO_SIZE_T_SIZES :: u64 where "TWO_SIZE_T_SIZES = push_bit 1 SIZE_T_SIZE"
definition FOUR_SIZE_T_SIZES :: u64 where "FOUR_SIZE_T_SIZES = push_bit 2 SIZE_T_SIZE"
definition SIX_SIZE_T_SIZES :: u64 where
  "SIX_SIZE_T_SIZES = FOUR_SIZE_T_SIZES + TWO_SIZE_T_SIZES"
definition MALLOC_ALIGNMENT :: u64 where "MALLOC_ALIGNMENT = 2 * 8"
definition CHUNK_ALIGN_MASK :: u64 where "CHUNK_ALIGN_MASK = MALLOC_ALIGNMENT - 1"

definition is_aligned :: "u64 \<Rightarrow> bool" where
  "is_aligned A \<longleftrightarrow> A AND CHUNK_ALIGN_MASK = 0"

definition align_offset :: "u64 \<Rightarrow> u64" where
  "align_offset A =
     (if A AND CHUNK_ALIGN_MASK = 0 then 0
      else (MALLOC_ALIGNMENT - (A AND CHUNK_ALIGN_MASK)) AND CHUNK_ALIGN_MASK)"

subsection \<open>Chunk sizes\<close>

text \<open>\<open>sizeof(mchunk)\<close>: two sizes and two pointers.\<close>

definition MCHUNK_SIZE :: u64 where "MCHUNK_SIZE = 4 * 8"
definition CHUNK_OVERHEAD :: u64 where "CHUNK_OVERHEAD = SIZE_T_SIZE"
definition MMAP_CHUNK_OVERHEAD :: u64 where "MMAP_CHUNK_OVERHEAD = TWO_SIZE_T_SIZES"
definition MMAP_FOOT_PAD :: u64 where "MMAP_FOOT_PAD = FOUR_SIZE_T_SIZES"
definition MIN_CHUNK_SIZE :: u64 where
  "MIN_CHUNK_SIZE = (MCHUNK_SIZE + CHUNK_ALIGN_MASK) AND NOT CHUNK_ALIGN_MASK"

definition chunk2mem :: "u64 \<Rightarrow> u64" where "chunk2mem p = p + TWO_SIZE_T_SIZES"
definition mem2chunk :: "u64 \<Rightarrow> u64" where "mem2chunk mm = mm - TWO_SIZE_T_SIZES"
definition align_as_chunk :: "u64 \<Rightarrow> u64" where
  "align_as_chunk A = A + align_offset (chunk2mem A)"

definition MAX_REQUEST :: u64 where "MAX_REQUEST = push_bit 2 (- MIN_CHUNK_SIZE)"
definition MIN_REQUEST :: u64 where "MIN_REQUEST = MIN_CHUNK_SIZE - CHUNK_OVERHEAD - 1"

definition pad_request :: "u64 \<Rightarrow> u64" where
  "pad_request req = (req + CHUNK_OVERHEAD + CHUNK_ALIGN_MASK) AND NOT CHUNK_ALIGN_MASK"

definition request2size :: "u64 \<Rightarrow> u64" where
  "request2size req = (if req < MIN_REQUEST then MIN_CHUNK_SIZE else pad_request req)"

subsection \<open>Values of the constants\<close>

lemma size_consts [simp]:
  "SIZE_T_SIZE = 8" "SIZE_T_BITSIZE = 64" "TWO_SIZE_T_SIZES = 16" "FOUR_SIZE_T_SIZES = 32"
  "SIX_SIZE_T_SIZES = 48" "MALLOC_ALIGNMENT = 16" "CHUNK_ALIGN_MASK = 15"
  "MCHUNK_SIZE = 32" "CHUNK_OVERHEAD = 8" "MMAP_CHUNK_OVERHEAD = 16" "MMAP_FOOT_PAD = 32"
  "MIN_CHUNK_SIZE = 32" "MIN_REQUEST = 23"
  by (simp_all add: SIZE_T_SIZE_def SIZE_T_BITSIZE_def TWO_SIZE_T_SIZES_def
      FOUR_SIZE_T_SIZES_def SIX_SIZE_T_SIZES_def MALLOC_ALIGNMENT_def CHUNK_ALIGN_MASK_def
      MCHUNK_SIZE_def CHUNK_OVERHEAD_def MMAP_CHUNK_OVERHEAD_def MMAP_FOOT_PAD_def
      MIN_CHUNK_SIZE_def MIN_REQUEST_def push_bit_eq_mult)

lemma max_consts:
  "MAX_SIZE_T = 18446744073709551615" "HALF_MAX_SIZE_T = 9223372036854775807"
  "MAX_REQUEST = 18446744073709551488"
  by (simp_all add: MAX_SIZE_T_def HALF_MAX_SIZE_T_def MAX_REQUEST_def push_bit_eq_mult)

lemma mask4: "(15 :: u64) = mask 4"
  by (simp add: mask_eq_exp_minus_1)

lemma pow2_16: "pow2 (16 :: u64)"
  by (simp add: pow2_iff)

lemma is_aligned_iff [size_arith]: "is_aligned A \<longleftrightarrow> 16 dvd unat A"
  using and_mask_eq_0_iff [of A 4] by (simp add: is_aligned_def mask4)

lemma chunk2mem_mem2chunk [simp]: "mem2chunk (chunk2mem p) = p" "chunk2mem (mem2chunk p) = p"
  by (simp_all add: chunk2mem_def mem2chunk_def)

lemma pad_request_round_up: "pad_request req = round_up 16 (req + 8)"
  by (simp add: pad_request_def round_up_def add.assoc)

lemma dvd_unat_word:
  assumes "d dvd 2 ^ LENGTH('a)"
  shows "d dvd unat (a + b :: 'a::len word) \<longleftrightarrow> d dvd unat a + unat b"
  using assms by (simp add: unat_word_ariths(1) dvd_mod_iff)

lemma is_aligned_add:
  assumes "is_aligned A"
  shows "is_aligned (A + B) \<longleftrightarrow> is_aligned B"
  using assms dvd_unat_word [of 16 A B]
  by (simp add: is_aligned_iff dvd_add_right_iff)

lemma is_aligned_16 [simp]: "is_aligned 16" "is_aligned 32" "is_aligned 0"
  by (simp_all add: is_aligned_def)

lemma is_aligned_chunk2mem [simp]: "is_aligned (chunk2mem p) \<longleftrightarrow> is_aligned p"
  using is_aligned_add [of 16 p] by (simp add: chunk2mem_def add.commute)

lemma is_aligned_round_up: "is_aligned (round_up 16 S)"
  using round_up_dvd [OF pow2_16, of S] by (simp add: is_aligned_iff)

lemma unat_align_offset:
  "unat (align_offset A) = (if 16 dvd unat A then 0 else 16 - unat A mod 16)"
proof -
  let ?m = "unat A mod 16"
  have r: "unat (A AND 15) = ?m" using unat_and_mask [of A 4] by (simp add: mask4)
  have z: "A AND 15 = 0 \<longleftrightarrow> 16 dvd unat A"
    using is_aligned_iff [of A] by (simp add: is_aligned_def)
  show ?thesis
  proof (cases "16 dvd unat A")
    case True
    then show ?thesis by (simp add: align_offset_def z)
  next
    case False
    then have m: "0 < ?m" "?m < 16" by (auto simp: dvd_eq_mod_eq_0)
    have "A AND 15 \<le> 16" by (simp add: word_le_nat_alt r)
    then have "unat (16 - (A AND 15)) = 16 - ?m" by (simp add: unat_sub r)
    then have "unat ((16 - (A AND 15)) AND 15) = (16 - ?m) mod 16"
      using unat_and_mask [of "16 - (A AND 15)" 4] by (simp add: mask4)
    with False m show ?thesis by (simp add: align_offset_def z)
  qed
qed

lemma unat_align_offset_less: "unat (align_offset A) < 16"
  by (auto simp: unat_align_offset dvd_eq_mod_eq_0)

lemma is_aligned_align_offset: "is_aligned (A + align_offset A)"
proof -
  have "16 dvd unat A + unat (align_offset A)"
    by (auto simp: unat_align_offset) presburger
  then show ?thesis using dvd_unat_word [of 16 A "align_offset A"] by (simp add: is_aligned_iff)
qed

lemma align_offset_aligned [simp]: "is_aligned A \<Longrightarrow> align_offset A = 0"
  by (simp add: align_offset_def is_aligned_def)

lemma is_aligned_align_as_chunk: "is_aligned (align_as_chunk A)"
proof -
  have "is_aligned (chunk2mem (align_as_chunk A))"
    using is_aligned_align_offset [of "chunk2mem A"]
    by (simp add: align_as_chunk_def chunk2mem_def add_ac)
  then show ?thesis by simp
qed

subsection \<open>Requests\<close>

lemma unat_pad_request:
  assumes "req < MAX_REQUEST"
  shows "unat (pad_request req) = (unat req + 23) div 16 * 16"
proof -
  have lim: "unat req < 18446744073709551488"
    using assms by (simp add: max_consts word_less_nat_alt)
  then have "unat (req + 8) = unat req + 8" by (simp add: unat_plus_if')
  then show ?thesis
    using lim unat_round_up [OF pow2_16, of "req + 8"] by (simp add: pad_request_round_up)
qed

lemma is_aligned_pad_request: "is_aligned (pad_request req)"
  by (simp add: pad_request_round_up is_aligned_round_up)

lemma is_aligned_request2size: "is_aligned (request2size req)"
  by (simp add: request2size_def is_aligned_pad_request)

lemma unat_request2size:
  assumes "req < MAX_REQUEST"
  shows "unat (request2size req) = max 32 ((unat req + 23) div 16 * 16)"
proof (cases "unat req < 23")
  case True
  then have "(unat req + 23) div 16 \<le> 2" by simp
  then have "(unat req + 23) div 16 * 16 \<le> 32" by simp
  with True show ?thesis by (simp add: request2size_def word_less_nat_alt max_def)
next
  case False
  then have "2 \<le> (unat req + 23) div 16" by simp
  then have "32 \<le> (unat req + 23) div 16 * 16" by simp
  with False show ?thesis
    by (simp add: request2size_def word_less_nat_alt unat_pad_request [OF assms])
qed

text \<open>
  Property C28. The chunk size chosen for a request below \<open>MAX_REQUEST\<close> is the least
  size that is a multiple of 16, at least the minimum chunk size, and leaves room for the
  requested bytes beside the 8-byte overhead; no wrap-around can make it smaller.
\<close>

theorem request2size_least:
  assumes "req < MAX_REQUEST"
  shows "is_aligned (request2size req) \<and> MIN_CHUNK_SIZE \<le> request2size req \<and>
    unat req + unat CHUNK_OVERHEAD \<le> unat (request2size req) \<and>
    (\<forall>n. is_aligned n \<and> MIN_CHUNK_SIZE \<le> n \<and> unat req + unat CHUNK_OVERHEAD \<le> unat n
      \<longrightarrow> request2size req \<le> n)"
proof -
  have r: "unat (request2size req) = max 32 ((unat req + 23) div 16 * 16)"
    by (rule unat_request2size [OF assms])
  have "unat req + 8 \<le> (unat req + 23) div 16 * 16" by presburger
  moreover have "request2size req \<le> n"
    if n: "is_aligned n" "MIN_CHUNK_SIZE \<le> n" "unat req + 8 \<le> unat n" for n
  proof -
    obtain k where k: "unat n = 16 * k" using n(1) by (auto simp: is_aligned_iff)
    with n(3) have "(unat req + 23) div 16 \<le> k" by simp
    with n(2) k show ?thesis by (simp add: word_le_nat_alt r)
  qed
  ultimately show ?thesis
    using is_aligned_request2size [of req] r by (auto simp: word_le_nat_alt)
qed

theorem request2size_least_witness:
  "(100 :: u64) < MAX_REQUEST \<and> request2size 100 = 112 \<and> is_aligned (request2size 100)"
proof -
  have h: "(100 :: u64) < MAX_REQUEST" by (simp add: max_consts)
  have "request2size 100 = 112" by (simp add: request2size_def pad_request_def)
  with h request2size_least [OF h] show ?thesis by blast
qed

end
