(* ===== verification/BinIndex.thy ===== *)
theory BinIndex
  imports SizeT
begin

text \<open>
  Indexing of bins and the operations on bin maps (\<open>malloc.c\<close>, sections "Indexing
  Bins" and "Operations on bin maps"): size classes of the small bins, the tree index in
  its gcc/x86 form and in its portable form, the bit tricks on the 32-bit maps, and what
  they compute. A \<open>bindex_t\<close> and a \<open>binmap_t\<close> are 32-bit words.
\<close>

subsection \<open>Bin constants and small bins\<close>

definition NSMALLBINS :: u32 where "NSMALLBINS = 32"
definition NTREEBINS :: u32 where "NTREEBINS = 32"
definition SMALLBIN_SHIFT :: nat where "SMALLBIN_SHIFT = 3"
definition SMALLBIN_WIDTH :: u64 where "SMALLBIN_WIDTH = push_bit SMALLBIN_SHIFT 1"
definition TREEBIN_SHIFT :: nat where "TREEBIN_SHIFT = 8"
definition MIN_LARGE_SIZE :: u64 where "MIN_LARGE_SIZE = push_bit TREEBIN_SHIFT 1"
definition MAX_SMALL_SIZE :: u64 where "MAX_SMALL_SIZE = MIN_LARGE_SIZE - 1"
definition MAX_SMALL_REQUEST :: u64 where
  "MAX_SMALL_REQUEST = MAX_SMALL_SIZE - CHUNK_ALIGN_MASK - CHUNK_OVERHEAD"

definition is_small :: "u64 \<Rightarrow> bool" where
  "is_small s \<longleftrightarrow> drop_bit SMALLBIN_SHIFT s < ucast NSMALLBINS"
definition small_index :: "u64 \<Rightarrow> u32" where
  "small_index s = ucast (drop_bit SMALLBIN_SHIFT s)"
definition small_index2size :: "u32 \<Rightarrow> u32" where
  "small_index2size i = push_bit SMALLBIN_SHIFT i"

subsection \<open>Tree index\<close>

text \<open>\<open>__builtin_clz\<close> and \<open>__builtin_ctz\<close> count the zero bits above the highest and
  below the lowest set bit of an \<open>unsigned int\<close>; the code never calls them on 0.\<close>

definition builtin_clz :: "u32 \<Rightarrow> nat" where
  "builtin_clz X = length (takeWhile (\<lambda>i. \<not> bit X i) (rev [0..<32]))"
definition builtin_ctz :: "u32 \<Rightarrow> nat" where
  "builtin_ctz X = length (takeWhile (\<lambda>i. \<not> bit X i) [0..<32])"

text \<open>
  The variant gcc selects on x86. \<open>X\<close> is an \<open>unsigned int\<close>, so the shifted size is
  truncated to 32 bits.
\<close>

definition compute_tree_index :: "u64 \<Rightarrow> u32" where
  "compute_tree_index S =
     (let X = (ucast (drop_bit TREEBIN_SHIFT S) :: u32) in
      if X = 0 then 0
      else if X > 0xFFFF then NTREEBINS - 1
      else
        let K = 4 * 8 - 1 - (of_nat (builtin_clz X) :: u32) in
        ucast ((ucast (push_bit 1 K) :: u64) +
               (drop_bit (unat K + (TREEBIN_SHIFT - 1)) S AND 1)))"

text \<open>
  The variant for other compilers; here \<open>X\<close> is a \<open>size_t\<close>. The three
  shift-and-mask steps that find the position of the highest bit of \<open>Y\<close> come first.
\<close>

definition portable_K :: "u32 \<Rightarrow> u32" where
  "portable_K Y =
     (let N = drop_bit 16 (Y - 0x100) AND 8;
          Y = push_bit (unat N) Y;
          K = drop_bit 16 (Y - 0x1000) AND 4;
          N = N + K;
          Y = push_bit (unat K) Y;
          K = drop_bit 16 (Y - 0x4000) AND 2;
          N = N + K;
          Y = push_bit (unat K) Y
      in 14 - N + drop_bit 15 Y)"

definition compute_tree_index_portable :: "u64 \<Rightarrow> u32" where
  "compute_tree_index_portable S =
     (let X = drop_bit TREEBIN_SHIFT S in
      if X = 0 then 0
      else if X > 0xFFFF then NTREEBINS - 1
      else
        let K = portable_K (ucast X)
        in ucast ((ucast (push_bit 1 K) :: u64) +
                  (drop_bit (unat K + (TREEBIN_SHIFT - 1)) S AND 1)))"

definition bit_for_tree_index :: "u32 \<Rightarrow> u64" where
  "bit_for_tree_index i =
     (if i = NTREEBINS - 1 then SIZE_T_BITSIZE - 1
      else ucast (drop_bit 1 i + of_nat TREEBIN_SHIFT - 2))"

definition leftshift_for_tree_index :: "u32 \<Rightarrow> u64" where
  "leftshift_for_tree_index i =
     (if i = NTREEBINS - 1 then 0
      else (SIZE_T_BITSIZE - 1) - ucast (drop_bit 1 i + of_nat TREEBIN_SHIFT - 2))"

definition minsize_for_tree_index :: "u32 \<Rightarrow> u64" where
  "minsize_for_tree_index i =
     push_bit (unat (drop_bit 1 i + of_nat TREEBIN_SHIFT)) 1 OR
     push_bit (unat (drop_bit 1 i + of_nat TREEBIN_SHIFT - 1)) (ucast (i AND 1))"

subsection \<open>Bin maps\<close>

definition idx2bit :: "u32 \<Rightarrow> u32" where "idx2bit i = push_bit (unat i) 1"
definition least_bit :: "u32 \<Rightarrow> u32" where "least_bit x = x AND - x"
definition left_bits :: "u32 \<Rightarrow> u32" where "left_bits x = push_bit 1 x OR - (push_bit 1 x)"
definition same_or_left_bits :: "u32 \<Rightarrow> u32" where "same_or_left_bits x = x OR - x"

definition compute_bit2idx :: "u32 \<Rightarrow> u32" where
  "compute_bit2idx X = of_nat (builtin_ctz X)"

definition compute_bit2idx_portable :: "u32 \<Rightarrow> u32" where
  "compute_bit2idx_portable X =
     (let Y = X - 1;
          K = drop_bit (16 - 4) Y AND 16; N = K; Y = drop_bit (unat K) Y;
          K = drop_bit (8 - 3) Y AND 8; N = N + K; Y = drop_bit (unat K) Y;
          K = drop_bit (4 - 2) Y AND 4; N = N + K; Y = drop_bit (unat K) Y;
          K = drop_bit (2 - 1) Y AND 2; N = N + K; Y = drop_bit (unat K) Y;
          K = drop_bit (1 - 0) Y AND 1; N = N + K; Y = drop_bit (unat K) Y
      in N + Y)"

lemma bin_consts [simp]:
  "NSMALLBINS = 32" "NTREEBINS = 32" "SMALLBIN_SHIFT = 3" "SMALLBIN_WIDTH = 8"
  "TREEBIN_SHIFT = 8" "MIN_LARGE_SIZE = 256" "MAX_SMALL_SIZE = 255" "MAX_SMALL_REQUEST = 232"
  by (simp_all add: NSMALLBINS_def NTREEBINS_def SMALLBIN_SHIFT_def SMALLBIN_WIDTH_def
      TREEBIN_SHIFT_def MIN_LARGE_SIZE_def MAX_SMALL_SIZE_def MAX_SMALL_REQUEST_def
      push_bit_eq_mult)

subsection \<open>Counting zeros\<close>

lemma takeWhile_upt_first:
  assumes "k < n" "P k" "\<And>i. i < k \<Longrightarrow> \<not> P i"
  shows "length (takeWhile (\<lambda>i. \<not> P i) [0..<n]) = k"
proof -
  have "[0..<n] = [0..<k] @ k # [Suc k..<n]"
    using assms(1) by (metis append_Cons append_Nil upt_add_eq_append upt_conv_Cons le0 less_imp_le
        add.commute le_add_diff_inverse2 zero_le)
  moreover have "takeWhile (\<lambda>i. \<not> P i) ([0..<k] @ k # [Suc k..<n]) = [0..<k]"
    using assms(2,3) by (subst takeWhile_append2) auto
  ultimately show ?thesis by simp
qed

lemma builtin_ctz_least:
  assumes "X \<noteq> 0"
  shows "builtin_ctz X < 32" "bit X (builtin_ctz X)" "\<And>i. i < builtin_ctz X \<Longrightarrow> \<not> bit X i"
proof -
  have ex: "\<exists>i. bit X i" using assms by (auto simp: bit_eq_iff)
  define k where "k = (LEAST i. bit X i)"
  have k: "bit X k" unfolding k_def using ex by (rule LeastI_ex)
  have min: "\<not> bit X i" if "i < k" for i using that unfolding k_def by (rule not_less_Least)
  have lt: "k < 32" using bit_imp_le_length [OF k] by simp
  have "builtin_ctz X = k"
    unfolding builtin_ctz_def using takeWhile_upt_first [of k 32 "bit X"] lt k min by blast
  then show "builtin_ctz X < 32" "bit X (builtin_ctz X)"
    "\<And>i. i < builtin_ctz X \<Longrightarrow> \<not> bit X i"
    using lt k min by simp_all
qed

lemma builtin_clz_log:
  assumes "2 ^ j \<le> unat X" "unat X < 2 ^ Suc j"
  shows "builtin_clz X = 31 - j" "j < 32"
proof -
  show j: "j < 32"
    using assms(1) unat_less_exp [of X] power_less_imp_less_exp [of "2::nat" j 32]
    by (simp add: le_less_trans)
  have "unat X div 2 ^ j = 1" using assms by (intro div_nat_eqI) auto
  then have b: "bit X j" by (simp add: bit_unat_div)
  have nb: "\<not> bit X i" if "j < i" for i
  proof -
    have "unat X < 2 ^ i"
      using assms(2) that by (meson Suc_leI less_le_trans one_le_numeral power_increasing)
    then show ?thesis by (simp add: bit_unat_div)
  qed
  have "[0..<32] = [0..<j] @ j # [Suc j..<32]"
    using j by (metis append_Cons append_Nil upt_add_eq_append upt_conv_Cons le0 less_imp_le
        add.commute le_add_diff_inverse2 zero_le)
  then have "rev [0..<32] = rev [Suc j..<32] @ j # rev [0..<j]" by simp
  moreover have "takeWhile (\<lambda>i. \<not> bit X i) (rev [Suc j..<32] @ j # rev [0..<j])
      = rev [Suc j..<32]"
    using b nb by (subst takeWhile_append2) auto
  ultimately show "builtin_clz X = 31 - j" by (simp add: builtin_clz_def)
qed

text \<open>The index on natural numbers, as both variants compute it for sizes below \<open>2^40\<close>.\<close>

lemma drop8: "unat (drop_bit 8 (S :: u64)) = unat S div 256"
  by (simp add: unat_drop_bit)

lemma ucast_X:
  assumes "(S :: u64) < 2 ^ 40"
  shows "unat (ucast (drop_bit 8 S) :: u32) = unat S div 256"
proof -
  have "unat S < 2 ^ 40" using assms by (simp add: word_less_nat_alt)
  then have "unat S div 256 < 2 ^ 32" by auto
  then show ?thesis
    by (simp add: unsigned_ucast_eq unat_take_bit_word drop8 take_bit_nat_eq_self)
qed

lemma tree_index_value:
  assumes "2 ^ j \<le> unat S div 256" "unat S div 256 < 2 ^ Suc j" "j < 16"
  shows "unat (ucast (push_bit 1 (of_nat j :: u32)) + (drop_bit (j + 7) S AND 1) :: u64)
    = 2 * j + unat S div 2 ^ (j + 7) mod 2"
proof -
  have a: "unat (ucast (push_bit 1 (of_nat j :: u32)) :: u64) = 2 * j"
  proof -
    have "push_bit 1 (of_nat j :: u32) = of_nat (2 * j)" by (simp add: push_bit_eq_mult)
    then show ?thesis
      using assms(3) by (simp add: unsigned_ucast_eq unsigned_of_nat take_bit_nat_eq_self del: of_nat_mult)
  qed
  have b: "unat (drop_bit (j + 7) S AND 1) = unat S div 2 ^ (j + 7) mod 2"
    using unat_and_mask [of "drop_bit (j + 7) S" 1]
    by (simp add: unat_drop_bit mask_eq_exp_minus_1)
  have "unat S div 2 ^ (j + 7) mod 2 < 2" by simp
  then have "2 * j + unat S div 2 ^ (j + 7) mod 2 < 40" using assms(3) by linarith
  then have "2 * j + unat S div 2 ^ (j + 7) mod 2 < 2 ^ 64" by simp
  then show ?thesis unfolding unat_plus_if' a b by simp
qed

lemma compute_tree_index_log:
  assumes "S < 2 ^ 40" "2 ^ j \<le> unat S div 256" "unat S div 256 < 2 ^ Suc j" "j < 16"
  shows "unat (compute_tree_index S) = 2 * j + unat S div 2 ^ (j + 7) mod 2"
proof -
  let ?X = "ucast (drop_bit 8 S) :: u32"
  have X: "unat ?X = unat S div 256" by (rule ucast_X [OF assms(1)])
  have "(2::nat) ^ Suc j \<le> 2 ^ 16" using assms(4) by (intro power_increasing) auto
  then have "?X \<noteq> 0" "\<not> 0xFFFF < ?X"
    using assms(2,3) X by (auto simp: word_less_nat_alt simp flip: unat_gt_0)
  moreover have "builtin_clz ?X = 31 - j" using assms(2,3) X by (intro builtin_clz_log) simp_all
  moreover have "31 - (of_nat (31 - j) :: u32) = of_nat j" using assms(4) by (simp add: of_nat_diff)
  moreover have "unat (of_nat j :: u32) = j"
    using assms(4) by (simp add: unsigned_of_nat take_bit_nat_eq_self)
  ultimately have "unat (compute_tree_index S) =
      unat (ucast (ucast (push_bit 1 (of_nat j :: u32)) + (drop_bit (j + 7) S AND 1) :: u64) :: u32)"
    by (simp add: compute_tree_index_def Let_def)
  also have "\<dots> = (2 * j + unat S div 2 ^ (j + 7) mod 2) mod 2 ^ 32"
    unfolding unsigned_ucast_eq tree_index_value [OF assms(2-4)] by (simp add: take_bit_eq_mod)
  also have "\<dots> = 2 * j + unat S div 2 ^ (j + 7) mod 2"
  proof (rule mod_less)
    have "unat S div 2 ^ (j + 7) mod 2 < 2" by simp
    then have "2 * j + unat S div 2 ^ (j + 7) mod 2 < 40" using assms(4) by linarith
    then show "2 * j + unat S div 2 ^ (j + 7) mod 2 < 2 ^ 32" by simp
  qed
  finally show ?thesis .
qed

text \<open>One comparison of the portable variant: \<open>((Y - c) >> 16) & b\<close> is \<open>b\<close> when
  \<open>Y\<close> is below \<open>c\<close> and 0 otherwise.\<close>

lemma borrow_bit:
  assumes "unat (Y :: u32) < 65536" "c \<in> {0x100, 0x1000, 0x4000}" "b \<in> {8, 4, 2 :: u32}"
  shows "drop_bit 16 (Y - c) AND b = (if unat Y < unat c then b else 0)"
proof -
  have c: "unat c \<le> 65536" "0 < unat c" using assms(2) by auto
  show ?thesis
  proof (cases "unat Y < unat c")
    case True
    then have "unat (Y - c) = unat Y + 2 ^ 32 - unat c" by (simp add: unat_sub_if')
    then have "unat (drop_bit 16 (Y - c)) = 65535"
      unfolding unat_drop_bit using True c by (intro div_nat_eqI) auto
    then have "drop_bit 16 (Y - c) = 65535" by (simp add: word_unat_eq_iff)
    with True assms(3) show ?thesis by auto
  next
    case False
    then have "unat (Y - c) = unat Y - unat c" by (simp add: unat_sub word_le_nat_alt)
    then have "unat (drop_bit 16 (Y - c)) = 0" unfolding unat_drop_bit using assms(1) by simp
    then have "drop_bit 16 (Y - c) = 0" by (simp add: word_unat_eq_iff)
    with False show ?thesis by simp
  qed
qed

lemma unat_push_small:
  assumes "unat (Y :: u32) < 65536" "n \<le> 8"
  shows "unat (push_bit n Y) = unat Y * 2 ^ n"
proof -
  have "unat Y * 2 ^ n \<le> 65536 * 2 ^ 8"
    using assms by (intro mult_mono power_increasing) auto
  then have "unat Y * 2 ^ n < 2 ^ 32" by simp
  then show ?thesis
    using assms(2) by (simp add: push_bit_eq_mult unat_word_ariths(2) unat_exp)
qed

lemma portable_step:
  assumes "unat (Y :: u32) < 65536" "c \<in> {0x100, 0x1000, 0x4000}" "b \<in> {8, 4, 2 :: u32}"
   "unat Y < unat c \<Longrightarrow> unat Y * 2 ^ unat b < 65536"
  shows "drop_bit 16 (Y - c) AND b = (if unat Y < unat c then b else 0)"
    "unat (push_bit (unat (drop_bit 16 (Y - c) AND b)) Y) = (if unat Y < unat c then unat Y * 2 ^ unat b else unat Y)"
proof -
  show 1: "drop_bit 16 (Y - c) AND b = (if unat Y < unat c then b else 0)"
    by (rule borrow_bit[OF assms(1-3)])
  have "unat b \<le> 8" using assms(3) by auto
  then show "unat (push_bit (unat (drop_bit 16 (Y - c) AND b)) Y) = (if unat Y < unat c then unat Y * 2 ^ unat b else unat Y)"
    unfolding 1 using unat_push_small[OF assms(1), of "unat b"] by simp
qed

lemma portable_K_log:
  assumes "2 ^ j \<le> unat Y" "unat Y < 2 ^ Suc j" "j < 16"
  shows "portable_K Y = of_nat j"
proof -
  have "(2::nat) ^ Suc j \<le> 2 ^ 16" using assms(3) by (intro power_increasing) auto
  then have Y: "unat Y < 65536" using assms(2) by simp
  define N0 where "N0 = drop_bit 16 (Y - 0x100) AND 8"
  define Y1 where "Y1 = push_bit (unat N0) Y"
  have 1: "N0 = (if unat Y < 256 then 8 else 0)" "unat Y1 = (if unat Y < 256 then unat Y * 256 else unat Y)"
    unfolding Y1_def N0_def using portable_step[of Y "0x100" 8] Y by simp_all
  have Y1: "unat Y1 < 65536" using 1(2) Y by auto
  define K1 where "K1 = drop_bit 16 (Y1 - 0x1000) AND 4"
  define Y2 where "Y2 = push_bit (unat K1) Y1"
  have 2: "K1 = (if unat Y1 < 4096 then 4 else 0)" "unat Y2 = (if unat Y1 < 4096 then unat Y1 * 16 else unat Y1)"
    unfolding Y2_def K1_def using portable_step[of Y1 "0x1000" 4] Y1 by simp_all
  have Y2: "unat Y2 < 65536" using 2(2) Y1 by auto
  define K2 where "K2 = drop_bit 16 (Y2 - 0x4000) AND 2"
  define Y3 where "Y3 = push_bit (unat K2) Y2"
  have 3: "K2 = (if unat Y2 < 16384 then 2 else 0)" "unat Y3 = (if unat Y2 < 16384 then unat Y2 * 4 else unat Y2)"
    unfolding Y3_def K2_def using portable_step[of Y2 "0x4000" 2] Y2 by simp_all
  have d: "unat (drop_bit 15 Y3) = unat Y3 div 32768" by (simp add: unat_drop_bit)
  have K: "portable_K Y = 14 - (N0 + K1 + K2) + drop_bit 15 Y3"
    unfolding portable_K_def Let_def N0_def Y1_def K1_def Y2_def K2_def Y3_def by (rule refl)
  have "unat Y3 < 65536" using 3(2) Y2 by (simp split: if_splits)
  then have "unat Y3 div 32768 < 2" by simp
  then consider "unat Y3 div 32768 = 0" | "unat Y3 div 32768 = 1" by linarith
  then have e: "drop_bit 15 Y3 = (if unat Y3 < 32768 then 0 else 1)" using d
    by cases (auto simp: word_unat_eq_iff div_eq_0_iff)
  have "j = 0 \<or> j = 1 \<or> j = 2 \<or> j = 3 \<or> j = 4 \<or> j = 5 \<or> j = 6 \<or> j = 7 \<or> j = 8 \<or> j = 9
     \<or> j = 10 \<or> j = 11 \<or> j = 12 \<or> j = 13 \<or> j = 14 \<or> j = 15" using assms(3) by presburger
  then show ?thesis unfolding K e 1 2 3
    using assms(1,2)
    by (elim disjE) (simp_all add: 1 2 3)
qed

lemma portable_log:
  assumes "S < 2 ^ 40" "2 ^ j \<le> unat S div 256" "unat S div 256 < 2 ^ Suc j" "j < 16"
  shows "compute_tree_index_portable S = compute_tree_index S"
proof -
  let ?X = "ucast (drop_bit 8 S) :: u32"
  have X: "unat ?X = unat S div 256" by (rule ucast_X [OF assms(1)])
  have "(2::nat) ^ Suc j \<le> 2 ^ 16" using assms(4) by (intro power_increasing) auto
  then have ne: "?X \<noteq> 0" "\<not> 0xFFFF < ?X" "drop_bit 8 S \<noteq> 0" "\<not> 0xFFFF < drop_bit 8 S"
    using assms(2,3) X drop8 [of S] by (auto simp: word_less_nat_alt simp flip: unat_gt_0)
  have "builtin_clz ?X = 31 - j" using assms(2,3) X by (intro builtin_clz_log) simp_all
  moreover have "31 - (of_nat (31 - j) :: u32) = of_nat j" using assms(4) by (simp add: of_nat_diff)
  ultimately have "4 * 8 - 1 - (of_nat (builtin_clz ?X) :: u32) = portable_K ?X"
    using portable_K_log [of j ?X] assms X by simp
  then show ?thesis
    using ne by (simp only: compute_tree_index_def compute_tree_index_portable_def Let_def bin_consts if_False)
qed

lemma compute_tree_index_eq_portable:
  assumes "S < 2 ^ 40"
  shows "compute_tree_index S = compute_tree_index_portable S"
proof -
  have X: "unat (ucast (drop_bit 8 S) :: u32) = unat S div 256" by (rule ucast_X [OF assms])
  consider "unat S div 256 = 0" | "65536 \<le> unat S div 256"
    | j where "2 ^ j \<le> unat S div 256" "unat S div 256 < 2 ^ Suc j" "j < 16"
  proof (cases "unat S div 256 = 0 \<or> 65536 \<le> unat S div 256")
    case False
    then obtain j where "2 ^ j \<le> unat S div 256" "unat S div 256 < 2 ^ Suc j"
      using nat_top_bit [of "unat S div 256"] by auto
    moreover from this False have "(2::nat) ^ j < 2 ^ 16" by simp
    then have "j < 16" by (rule power_less_imp_less_exp [rotated]) simp
    ultimately show thesis using that by blast
  qed (use that in auto)
  then show ?thesis
  proof cases
    case 1
    then have "drop_bit 8 S = 0" "ucast (drop_bit 8 S) = (0::u32)" using X drop8 [of S]
      by (simp_all add: word_unat_eq_iff)
    then show ?thesis
      by (simp add: compute_tree_index_def compute_tree_index_portable_def)
  next
    case 2
    then have "0xFFFF < drop_bit 8 S" "0xFFFF < (ucast (drop_bit 8 S) :: u32)"
      using X drop8 [of S] by (simp_all add: word_less_nat_alt)
    then show ?thesis
      by (auto simp add: compute_tree_index_def compute_tree_index_portable_def Let_def)
  next
    case 3
    then show ?thesis using portable_log [OF assms] by simp
  qed
qed

text \<open>
  Property C37. For chunk sizes below \<open>2^40\<close> (one terabyte) the tree index computed by
  the gcc variant, with \<open>__builtin_clz\<close>, is the one computed by the portable variant,
  with its shift-and-mask search for the highest bit.
\<close>

theorem tree_index_variants_agree:
  "S < 2 ^ 40 \<Longrightarrow> compute_tree_index S = compute_tree_index_portable S"
  by (rule compute_tree_index_eq_portable)

theorem tree_index_variants_agree_witness:
  "(1000 :: u64) < 2 ^ 40 \<and> compute_tree_index 1000 = 3 \<and> compute_tree_index_portable 1000 = 3"
proof -
  have h: "(1000 :: u64) < 2 ^ 40" by simp
  have "compute_tree_index_portable 1000 = 3"
    by (simp add: compute_tree_index_portable_def portable_K_def Let_def)
  with h tree_index_variants_agree [OF h] show ?thesis by simp
qed

end
