(* ===== verification/BinMaps.thy ===== *)
theory BinMaps
  imports BinIndex
begin

text \<open>
  What the index computations of \<open>BinIndex\<close> mean: each tree bin holds exactly the sizes
  from its \<open>minsize_for_tree_index\<close> up to that of the next bin, the shifted size is a
  faithful trie key inside a bin, and the map tricks find the next non-empty bin.
\<close>

subsection \<open>Sizes of a tree bin\<close>

lemma minsize_values:
  "\<forall>i \<in> set [0..<32]. unat (minsize_for_tree_index (of_nat i)) =
     2 ^ (i div 2 + 8) + (i mod 2) * 2 ^ (i div 2 + 7)"
  by (simp add: minsize_for_tree_index_def upt_rec)

lemma unat_minsize:
  assumes "i < 32"
  shows "unat (minsize_for_tree_index (of_nat i)) =
     2 ^ (i div 2 + 8) + (i mod 2) * 2 ^ (i div 2 + 7)"
  using minsize_values assms by simp

subsection \<open>Bits of the maps\<close>

lemma bit_uminus:
  fixes x :: u32
  assumes "x \<noteq> 0"
  shows "bit (- x) i \<longleftrightarrow> i = builtin_ctz x \<or> (builtin_ctz x < i \<and> i < 32 \<and> \<not> bit x i)"
proof -
  define k where "k = builtin_ctz x"
  note k = builtin_ctz_least [OF assms, folded k_def]
  define hi where "hi = NOT x AND NOT (mask (Suc k))"
  have "NOT x = hi OR mask k"
  proof (rule bit_word_eqI)
    fix n :: nat
    assume "n < LENGTH(32)"
    then show "bit (NOT x) n = bit (hi OR mask k) n"
      using k unfolding hi_def
      by (cases n k rule: linorder_cases)
         (simp_all add: bit_or_iff bit_and_iff bit_not_iff bit_mask_iff)
  qed
  also have "\<dots> = hi + mask k"
    unfolding hi_def by (rule disjunctive_add [symmetric]) (auto simp: bit_simps)
  finally have "- x = hi + 2 ^ k"
    by (simp add: minus_eq_not_plus_1 mask_eq_exp_minus_1)
  also have "\<dots> = hi OR 2 ^ k"
    unfolding hi_def by (rule disjunctive_add) (auto simp: bit_simps)
  finally have "bit (- x) i \<longleftrightarrow> bit hi i \<or> (i = k \<and> k < 32)"
    by (auto simp: bit_simps)
  moreover have "bit hi i \<longleftrightarrow> k < i \<and> i < 32 \<and> \<not> bit x i"
    unfolding hi_def by (auto simp: bit_simps)
  ultimately show ?thesis using k(1) unfolding k_def [symmetric] by auto
qed

lemma least_bit_exp:
  assumes "x \<noteq> 0"
  shows "least_bit x = 2 ^ builtin_ctz x"
proof (rule bit_word_eqI)
  fix n :: nat
  assume "n < LENGTH(32)"
  then show "bit (least_bit x) n = bit (2 ^ builtin_ctz x :: u32) n"
    using builtin_ctz_least [OF assms] bit_uminus [OF assms]
    by (auto simp: least_bit_def bit_and_iff bit_exp_iff)
qed

lemma builtin_ctz_exp: "k < 32 \<Longrightarrow> builtin_ctz (2 ^ k) = k"
  unfolding builtin_ctz_def using takeWhile_upt_first [of k 32 "bit (2 ^ k :: u32)"]
  by (simp add: bit_exp_iff)

lemma bit_left_bits_idx2bit:
  assumes "idx < 32"
  shows "bit (left_bits (idx2bit idx)) i \<longleftrightarrow> unat idx < i \<and> i < 32"
proof -
  let ?n = "unat idx"
  have n: "?n < 32" using assms by (simp add: word_less_nat_alt)
  have y: "push_bit 1 (idx2bit idx) = 2 ^ Suc ?n"
    by (simp add: idx2bit_def push_bit_eq_mult)
  show ?thesis
  proof (cases "Suc ?n < 32")
    case True
    then have "bit ((2 :: u32) ^ Suc ?n) (Suc ?n)" by (simp only: bit_exp_iff) simp
    then have "(2 :: u32) ^ Suc ?n \<noteq> 0" by (metis bit_0_eq bot_apply bot_bool_def)
    note U = bit_uminus [OF this, unfolded builtin_ctz_exp [OF True]]
    have E: "bit ((2 :: u32) ^ Suc ?n) k \<longleftrightarrow> k = Suc ?n" for k
      using True unfolding bit_exp_iff by auto
    show ?thesis
      using True unfolding left_bits_def y bit_or_iff U E by linarith
  next
    case False
    have "(2 :: u32) ^ Suc ?n = 0"
      by (rule bit_word_eqI) (use False n in \<open>simp only: bit_exp_iff bit_0_eq\<close>, simp)
    with False show ?thesis unfolding left_bits_def y by auto
  qed
qed

lemma unat_bit2idx: "x \<noteq> 0 \<Longrightarrow> unat (compute_bit2idx (least_bit x)) = builtin_ctz x"
  using builtin_ctz_least [of x]
  by (simp add: compute_bit2idx_def least_bit_exp builtin_ctz_exp unsigned_of_nat take_bit_nat_eq_self)

lemma next_bin_first:
  assumes "idx < 32" "left_bits (idx2bit idx) AND bm \<noteq> 0"
  defines "i \<equiv> compute_bit2idx (least_bit (left_bits (idx2bit idx) AND bm))"
  shows "idx < i \<and> i < 32 \<and> bit bm (unat i) \<and> (\<forall>j. unat idx < j \<and> j < unat i \<longrightarrow> \<not> bit bm j)"
proof -
  let ?x = "left_bits (idx2bit idx) AND bm"
  have i: "unat i = builtin_ctz ?x" unfolding i_def by (rule unat_bit2idx [OF assms(2)])
  show ?thesis
    using builtin_ctz_least [OF assms(2)] unfolding i [symmetric]
    by (auto simp: bit_and_iff bit_left_bits_idx2bit [OF assms(1)] word_less_nat_alt)
qed

text \<open>
  Property C29. The search \<open>compute_bit2idx (least_bit (left_bits (idx2bit idx) & map))\<close>,
  with which \<open>malloc\<close> looks for a larger bin, returns the first non-empty bin above
  \<open>idx\<close>: its bit is set and no bit between is.
\<close>

theorem next_bin_is_next:
  assumes "idx < 32" "left_bits (idx2bit idx) AND bm \<noteq> 0"
  defines "i \<equiv> compute_bit2idx (least_bit (left_bits (idx2bit idx) AND bm))"
  shows "idx < i \<and> i < 32 \<and> bit bm (unat i) \<and> (\<forall>j. unat idx < j \<and> j < unat i \<longrightarrow> \<not> bit bm j)"
  unfolding i_def using assms(1,2) by (rule next_bin_first)

theorem next_bin_is_next_witness:
  "(3 :: u32) < 32 \<and> left_bits (idx2bit 3) AND 0x48 \<noteq> 0 \<and>
    compute_bit2idx (least_bit (left_bits (idx2bit 3) AND 0x48)) = 6"
proof -
  have h: "(3 :: u32) < 32" "left_bits (idx2bit 3) AND 0x48 \<noteq> 0"
    by (simp_all add: left_bits_def idx2bit_def)
  let ?i = "compute_bit2idx (least_bit (left_bits (idx2bit 3) AND 0x48))"
  have i: "3 < ?i" "?i < 32" "bit (0x48 :: u32) (unat ?i)"
    "\<forall>j. unat (3 :: u32) < j \<and> j < unat ?i \<longrightarrow> \<not> bit (0x48 :: u32) j"
    using next_bin_is_next [OF h] by blast+
  have "\<not> 6 < unat ?i" using i(4) by (auto dest: spec [of _ 6])
  moreover have "unat ?i \<noteq> 4" "unat ?i \<noteq> 5" using i(3) by auto
  ultimately have "unat ?i = 6" using i(1) by (simp add: word_less_nat_alt)
  then have "?i = 6" by (simp add: word_unat_eq_iff)
  with h show ?thesis by blast
qed

subsection \<open>Bounds and keys of a tree bin\<close>

lemma tree_index_cases:
  assumes "S < 2 ^ 40" "MIN_LARGE_SIZE \<le> S"
  obtains (last) "65536 \<le> unat S div 256" "compute_tree_index S = 31"
  | (bin) j b where "j < 16" "b < 2" "unat (compute_tree_index S) = 2 * j + b"
      "unat S div 2 ^ (j + 7) = 2 + b"
proof (cases "65536 \<le> unat S div 256")
  case True
  then have "0xFFFF < (ucast (drop_bit 8 S) :: u32)"
    using ucast_X [OF assms(1)] by (simp add: word_less_nat_alt)
  then have "compute_tree_index S = 31" by (auto simp add: compute_tree_index_def Let_def)
  with True show thesis by (rule last)
next
  case False
  have "256 \<le> unat S" using assms(2) by (simp add: word_le_nat_alt)
  then have "0 < unat S div 256" by (simp add: div_greater_zero_iff)
  then obtain j where j: "2 ^ j \<le> unat S div 256" "unat S div 256 < 2 ^ Suc j"
    by (rule nat_top_bit)
  from False j have "(2::nat) ^ j < 2 ^ 16" by simp
  then have j16: "j < 16" by (rule power_less_imp_less_exp [rotated]) simp
  define q where "q = unat S div 2 ^ (j + 7)"
  have "2 ^ j * 256 \<le> unat S" "unat S < 2 ^ Suc j * 256"
    using j by (auto simp: less_eq_div_iff_mult_less_eq div_less_iff_less_mult)
  then have "2 * 2 ^ (j + 7) \<le> unat S" "unat S < 4 * 2 ^ (j + 7)"
    by (simp_all add: power_add)
  then have "2 \<le> q" "q < 4"
    unfolding q_def by (simp_all add: less_eq_div_iff_mult_less_eq div_less_iff_less_mult)
  then have "q = 2 + q mod 2" by presburger
  with compute_tree_index_log [OF assms(1) j j16] j16 show thesis
    by (intro bin [of j "q mod 2"]) (simp_all add: q_def)
qed

lemma minsize_of_index:
  assumes "unat i = 2 * j + b" "b < 2" "j < 16"
  shows "unat (minsize_for_tree_index i) = (2 + b) * 2 ^ (j + 7)"
proof -
  have "minsize_for_tree_index i = minsize_for_tree_index (of_nat (unat i))" by simp
  moreover have "(2 * j + b) div 2 = j" "(2 * j + b) mod 2 = b" using assms(2) by simp_all
  ultimately show ?thesis
    using unat_minsize [of "unat i"] assms by (simp add: power_add algebra_simps)
qed

lemma leftshift_value:
  assumes "unat i = 2 * j + b" "b < 2" "j < 16" "i \<noteq> 31"
  shows "unat (leftshift_for_tree_index i) = 57 - j"
proof -
  have "unat (drop_bit 1 i) = j" using assms by (simp add: unat_drop_bit)
  then have "unat (drop_bit 1 i + 6) = j + 6" using assms(3) by (simp add: unat_plus_if')
  then have u: "unat (ucast (drop_bit 1 i + 6) :: u64) = j + 6"
    using assms(3) by (simp add: unsigned_ucast_eq take_bit_nat_eq_self)
  then have "ucast (drop_bit 1 i + 6) \<le> (63 :: u64)" using assms(3) by (simp add: word_le_nat_alt)
  then have "unat (63 - (ucast (drop_bit 1 i + 6) :: u64)) = 57 - j"
    using u by (simp only: unat_sub) simp
  then show ?thesis using assms(4) by (simp add: leftshift_for_tree_index_def add.commute)
qed

end
