(* ===== verification/MState.thy ===== *)
theory MState
  imports BinMaps
begin

text \<open>
  The state of \<open>malloc.c\<close> and the access to it. Memory is a map from the address of an
  8-byte cell to its contents: all accesses of the allocator are to 8-byte fields at
  8-byte aligned addresses (the two 4-byte fields stored in memory, \<open>index\<close> and
  \<open>sflags\<close>, take the cell they start). The scalar fields of \<open>malloc_state\<close> and
  \<open>malloc_params\<close> are record fields; the arrays \<open>smallbins\<close>, \<open>treebins\<close> and the
  embedded segment \<open>seg\<close>, to which the code takes pointers, live in memory at their
  offsets from the address \<open>m\<close> of the \<open>malloc_state\<close>.
\<close>

subsection \<open>struct malloc_params, struct malloc_state and the machine\<close>

record malloc_params =
  mp_magic :: u64
  page_size :: u64
  granularity :: u64
  mmap_threshold :: u64
  trim_threshold :: u64
  default_mflags :: u32

record malloc_state = malloc_params +
  smallmap :: u32
  treemap :: u32
  dvsize :: u64
  topsize :: u64
  least_addr :: u64
  dv :: u64
  topc :: u64
  trim_check :: u64
  release_checks :: u64
  magic :: u64
  footprint :: u64
  max_footprint :: u64
  footprint_limit :: u64
  mflags :: u32
  extp :: u64
  exts :: u64

text \<open>
  The machine: the two structures, memory, whether \<open>errno\<close> was set to \<open>ENOMEM\<close>, and
  the state \<open>os\<close> of the operating system, whose calls are a parameter of the model:
  \<open>sbrk\<close>, the page size and the clock.
\<close>

record 'w heap = malloc_state +
  mem :: memory
  enomem :: bool
  os :: 'w

record 'w env =
  sbrk :: "u64 \<Rightarrow> 'w \<Rightarrow> u64 \<times> 'w"
  getpagesize :: u64
  time_now :: u64

definition load :: "'w heap \<Rightarrow> u64 \<Rightarrow> u64" where "load s a = mem s a"
definition store :: "u64 \<Rightarrow> u64 \<Rightarrow> 'w heap \<Rightarrow> 'w heap" where
  "store a v s = s\<lparr>mem := (mem s)(a := v)\<rparr>"

definition MFAIL :: u64 where "MFAIL = MAX_SIZE_T"
definition CMFAIL :: u64 where "CMFAIL = MFAIL"

definition CALL_MORECORE :: "'w env \<Rightarrow> u64 \<Rightarrow> 'w heap \<Rightarrow> u64 \<times> 'w heap" where
  "CALL_MORECORE E n s = (let (r, w) = sbrk E n (os s) in (r, s\<lparr>os := w\<rparr>))"

text \<open>With \<open>HAVE_MMAP\<close> 0 the mapping calls are constants that fail.\<close>

definition USE_MMAP_BIT :: u32 where "USE_MMAP_BIT = 0"
definition USE_LOCK_BIT :: u32 where "USE_LOCK_BIT = 0"
definition USE_NONCONTIGUOUS_BIT :: u32 where "USE_NONCONTIGUOUS_BIT = 4"
definition EXTERN_BIT :: u32 where "EXTERN_BIT = 8"
definition CALL_MMAP :: "u64 \<Rightarrow> u64" where "CALL_MMAP n = MFAIL"
definition CALL_DIRECT_MMAP :: "u64 \<Rightarrow> u64" where "CALL_DIRECT_MMAP n = MFAIL"
definition CALL_MUNMAP :: "u64 \<Rightarrow> u64 \<Rightarrow> int" where "CALL_MUNMAP a n = -1"
definition CALL_MREMAP :: "u64 \<Rightarrow> u64 \<Rightarrow> u64 \<Rightarrow> int \<Rightarrow> u64" where
  "CALL_MREMAP a osz nsz mv = MFAIL"
definition MAX_RELEASE_CHECK_RATE :: u64 where "MAX_RELEASE_CHECK_RATE = MAX_SIZE_T"
definition DEFAULT_GRANULARITY :: u64 where "DEFAULT_GRANULARITY = 0"
definition DEFAULT_MMAP_THRESHOLD :: u64 where "DEFAULT_MMAP_THRESHOLD = MAX_SIZE_T"
definition DEFAULT_TRIM_THRESHOLD :: u64 where "DEFAULT_TRIM_THRESHOLD = 2 * 1024 * 1024"

subsection \<open>Fields of chunks, tree chunks and segments\<close>

definition prev_foot :: "'w heap \<Rightarrow> u64 \<Rightarrow> u64" where "prev_foot s p = load s p"
definition head :: "'w heap \<Rightarrow> u64 \<Rightarrow> u64" where "head s p = load s (p + 8)"
definition fd :: "'w heap \<Rightarrow> u64 \<Rightarrow> u64" where "fd s p = load s (p + 16)"
definition bk :: "'w heap \<Rightarrow> u64 \<Rightarrow> u64" where "bk s p = load s (p + 24)"
definition set_prev_foot :: "u64 \<Rightarrow> u64 \<Rightarrow> 'w heap \<Rightarrow> 'w heap" where "set_prev_foot p v = store p v"
definition set_head :: "u64 \<Rightarrow> u64 \<Rightarrow> 'w heap \<Rightarrow> 'w heap" where "set_head p v = store (p + 8) v"
definition set_fd :: "u64 \<Rightarrow> u64 \<Rightarrow> 'w heap \<Rightarrow> 'w heap" where "set_fd p v = store (p + 16) v"
definition set_bk :: "u64 \<Rightarrow> u64 \<Rightarrow> 'w heap \<Rightarrow> 'w heap" where "set_bk p v = store (p + 24) v"

definition child_addr :: "u64 \<Rightarrow> u64 \<Rightarrow> u64" where "child_addr t i = t + 32 + 8 * i"
definition child :: "'w heap \<Rightarrow> u64 \<Rightarrow> u64 \<Rightarrow> u64" where "child s t i = load s (child_addr t i)"
definition parent :: "'w heap \<Rightarrow> u64 \<Rightarrow> u64" where "parent s t = load s (t + 48)"
definition index :: "'w heap \<Rightarrow> u64 \<Rightarrow> u32" where "index s t = ucast (load s (t + 56))"
definition set_child :: "u64 \<Rightarrow> u64 \<Rightarrow> u64 \<Rightarrow> 'w heap \<Rightarrow> 'w heap" where
  "set_child t i v = store (child_addr t i) v"
definition set_parent :: "u64 \<Rightarrow> u64 \<Rightarrow> 'w heap \<Rightarrow> 'w heap" where "set_parent t v = store (t + 48) v"
definition set_index :: "u64 \<Rightarrow> u32 \<Rightarrow> 'w heap \<Rightarrow> 'w heap" where
  "set_index t i = store (t + 56) (ucast i)"

definition leftmost_child :: "'w heap \<Rightarrow> u64 \<Rightarrow> u64" where
  "leftmost_child s t = (if child s t 0 \<noteq> 0 then child s t 0 else child s t 1)"

definition seg_base :: "'w heap \<Rightarrow> u64 \<Rightarrow> u64" where "seg_base s sp = load s sp"
definition seg_size :: "'w heap \<Rightarrow> u64 \<Rightarrow> u64" where "seg_size s sp = load s (sp + 8)"
definition seg_next :: "'w heap \<Rightarrow> u64 \<Rightarrow> u64" where "seg_next s sp = load s (sp + 16)"
definition sflags :: "'w heap \<Rightarrow> u64 \<Rightarrow> u32" where "sflags s sp = ucast (load s (sp + 24))"
definition set_seg_base :: "u64 \<Rightarrow> u64 \<Rightarrow> 'w heap \<Rightarrow> 'w heap" where "set_seg_base sp v = store sp v"
definition set_seg_size :: "u64 \<Rightarrow> u64 \<Rightarrow> 'w heap \<Rightarrow> 'w heap" where "set_seg_size sp v = store (sp + 8) v"
definition set_seg_next :: "u64 \<Rightarrow> u64 \<Rightarrow> 'w heap \<Rightarrow> 'w heap" where "set_seg_next sp v = store (sp + 16) v"
definition set_sflags :: "u64 \<Rightarrow> u32 \<Rightarrow> 'w heap \<Rightarrow> 'w heap" where "set_sflags sp v = store (sp + 24) (ucast v)"

definition SEGMENT_SIZE :: u64 where "SEGMENT_SIZE = 32"

definition is_mmapped_segment :: "'w heap \<Rightarrow> u64 \<Rightarrow> bool" where
  "is_mmapped_segment s sp \<longleftrightarrow> sflags s sp AND USE_MMAP_BIT \<noteq> 0"
definition is_extern_segment :: "'w heap \<Rightarrow> u64 \<Rightarrow> bool" where
  "is_extern_segment s sp \<longleftrightarrow> sflags s sp AND EXTERN_BIT \<noteq> 0"

text \<open>Addresses inside \<open>struct malloc_state\<close> at \<open>m\<close>.\<close>

definition smallbin_at :: "u64 \<Rightarrow> u32 \<Rightarrow> u64" where
  "smallbin_at m i = m + 72 + 8 * ucast (push_bit 1 i)"
definition treebin_at :: "u64 \<Rightarrow> u32 \<Rightarrow> u64" where
  "treebin_at m i = m + 600 + 8 * ucast i"
definition seg_addr :: "u64 \<Rightarrow> u64" where "seg_addr m = m + 888"

subsection \<open>Reading after writing\<close>

lemma load_store [cell_simps]: "load (store a v s) b = (if b = a then v else load s b)"
  by (simp add: load_def store_def)

lemma store_fields [simp]:
  "mp_magic (store a v s) = mp_magic s" "page_size (store a v s) = page_size s"
  "granularity (store a v s) = granularity s" "mmap_threshold (store a v s) = mmap_threshold s"
  "trim_threshold (store a v s) = trim_threshold s"
  "default_mflags (store a v s) = default_mflags s"
  "smallmap (store a v s) = smallmap s" "treemap (store a v s) = treemap s"
  "dvsize (store a v s) = dvsize s" "topsize (store a v s) = topsize s"
  "least_addr (store a v s) = least_addr s" "dv (store a v s) = dv s"
  "topc (store a v s) = topc s" "trim_check (store a v s) = trim_check s"
  "release_checks (store a v s) = release_checks s" "magic (store a v s) = magic s"
  "footprint (store a v s) = footprint s" "max_footprint (store a v s) = max_footprint s"
  "footprint_limit (store a v s) = footprint_limit s" "mflags (store a v s) = mflags s"
  "extp (store a v s) = extp s" "exts (store a v s) = exts s"
  "enomem (store a v s) = enomem s" "os (store a v s) = os s"
  by (simp_all add: store_def)

lemmas set_field_defs = set_prev_foot_def set_head_def set_fd_def set_bk_def set_child_def
  set_parent_def set_index_def set_seg_base_def set_seg_size_def set_seg_next_def set_sflags_def

lemmas get_field_defs = prev_foot_def head_def fd_def bk_def child_def child_addr_def parent_def
  seg_base_def seg_size_def seg_next_def

text \<open>Two cells at different constant offsets from two addresses.\<close>

lemma cell_eq: "(q :: u64) + a = p + b \<longleftrightarrow> q = p + (b - a)"
  by (auto simp: algebra_simps)

lemma link_cells [cell_simps]:
  "fd (set_fd p v s) q = (if q = p then v else fd s q)"
  "fd (set_bk p v s) q = (if q = p + 8 then v else fd s q)"
  "bk (set_fd p v s) q = (if p = q + 8 then v else bk s q)"
  "bk (set_bk p v s) q = (if q = p then v else bk s q)"
  "fd (set_head p v s) q = (if p = q + 8 then v else fd s q)"
  "bk (set_head p v s) q = (if p = q + 16 then v else bk s q)"
  "head (set_fd p v s) q = (if q = p + 8 then v else head s q)"
  "head (set_bk p v s) q = (if q = p + 16 then v else head s q)"
  "head (set_head p v s) q = (if q = p then v else head s q)"
  "head (set_prev_foot p v s) q = (if p = q + 8 then v else head s q)"
  "prev_foot (set_head p v s) q = (if q = p + 8 then v else prev_foot s q)"
  "prev_foot (set_prev_foot p v s) q = (if q = p then v else prev_foot s q)"
  "fd (set_prev_foot p v s) q = (if p = q + 16 then v else fd s q)"
  "bk (set_prev_foot p v s) q = (if p = q + 24 then v else bk s q)"
  by (auto simp: set_field_defs get_field_defs load_store cell_eq algebra_simps)

end
