(* ===== verification/Chunks.thy ===== *)
theory Chunks
  imports MState
begin

text \<open>
  Operations on head and foot fields, the flag and alignment macros over \<open>mparams\<close>, the
  segment searches, the run-time checks and the bin-map updates of \<open>malloc.c\<close>.
  A \<open>CORRUPTION_ERROR_ACTION\<close> or \<open>USAGE_ERROR_ACTION\<close> is \<open>abort()\<close> in this
  configuration (\<open>PROCEED_ON_ERROR\<close> 0), so a call that meets one is \<open>None\<close>.
\<close>

subsection \<open>Head and foot\<close>

definition PINUSE_BIT :: u64 where "PINUSE_BIT = 1"
definition CINUSE_BIT :: u64 where "CINUSE_BIT = 2"
definition FLAG4_BIT :: u64 where "FLAG4_BIT = 4"
definition INUSE_BITS :: u64 where "INUSE_BITS = PINUSE_BIT OR CINUSE_BIT"
definition FLAG_BITS :: u64 where "FLAG_BITS = PINUSE_BIT OR CINUSE_BIT OR FLAG4_BIT"
definition FENCEPOST_HEAD :: u64 where "FENCEPOST_HEAD = INUSE_BITS OR SIZE_T_SIZE"

lemma flag_consts [simp]:
  "PINUSE_BIT = 1" "CINUSE_BIT = 2" "FLAG4_BIT = 4" "INUSE_BITS = 3" "FLAG_BITS = 7"
  "FENCEPOST_HEAD = 11"
  by (simp_all add: PINUSE_BIT_def CINUSE_BIT_def FLAG4_BIT_def INUSE_BITS_def FLAG_BITS_def
      FENCEPOST_HEAD_def)

definition cinuse :: "'w heap \<Rightarrow> u64 \<Rightarrow> bool" where
  "cinuse s p \<longleftrightarrow> head s p AND CINUSE_BIT \<noteq> 0"
definition pinuse :: "'w heap \<Rightarrow> u64 \<Rightarrow> bool" where
  "pinuse s p \<longleftrightarrow> head s p AND PINUSE_BIT \<noteq> 0"
definition flag4inuse :: "'w heap \<Rightarrow> u64 \<Rightarrow> bool" where
  "flag4inuse s p \<longleftrightarrow> head s p AND FLAG4_BIT \<noteq> 0"
definition is_inuse :: "'w heap \<Rightarrow> u64 \<Rightarrow> bool" where
  "is_inuse s p \<longleftrightarrow> head s p AND INUSE_BITS \<noteq> PINUSE_BIT"
definition is_mmapped :: "'w heap \<Rightarrow> u64 \<Rightarrow> bool" where
  "is_mmapped s p \<longleftrightarrow> head s p AND INUSE_BITS = 0"
definition chunksize :: "'w heap \<Rightarrow> u64 \<Rightarrow> u64" where
  "chunksize s p = head s p AND NOT FLAG_BITS"
definition clear_pinuse :: "u64 \<Rightarrow> 'w heap \<Rightarrow> 'w heap" where
  "clear_pinuse p s = set_head p (head s p AND NOT PINUSE_BIT) s"
definition set_flag4 :: "u64 \<Rightarrow> 'w heap \<Rightarrow> 'w heap" where
  "set_flag4 p s = set_head p (head s p OR FLAG4_BIT) s"
definition clear_flag4 :: "u64 \<Rightarrow> 'w heap \<Rightarrow> 'w heap" where
  "clear_flag4 p s = set_head p (head s p AND NOT FLAG4_BIT) s"

definition chunk_plus_offset :: "u64 \<Rightarrow> u64 \<Rightarrow> u64" where "chunk_plus_offset p z = p + z"
definition chunk_minus_offset :: "u64 \<Rightarrow> u64 \<Rightarrow> u64" where "chunk_minus_offset p z = p - z"
definition next_chunk :: "'w heap \<Rightarrow> u64 \<Rightarrow> u64" where
  "next_chunk s p = p + (head s p AND NOT FLAG_BITS)"
definition prev_chunk :: "'w heap \<Rightarrow> u64 \<Rightarrow> u64" where
  "prev_chunk s p = p - prev_foot s p"
definition next_pinuse :: "'w heap \<Rightarrow> u64 \<Rightarrow> bool" where
  "next_pinuse s p \<longleftrightarrow> head s (next_chunk s p) AND PINUSE_BIT \<noteq> 0"
definition get_foot :: "'w heap \<Rightarrow> u64 \<Rightarrow> u64 \<Rightarrow> u64" where
  "get_foot s p z = prev_foot s (p + z)"
definition set_foot :: "u64 \<Rightarrow> u64 \<Rightarrow> 'w heap \<Rightarrow> 'w heap" where
  "set_foot p z = set_prev_foot (p + z) z"
definition set_size_and_pinuse_of_free_chunk :: "u64 \<Rightarrow> u64 \<Rightarrow> 'w heap \<Rightarrow> 'w heap" where
  "set_size_and_pinuse_of_free_chunk p z s = set_foot p z (set_head p (z OR PINUSE_BIT) s)"
definition set_free_with_pinuse :: "u64 \<Rightarrow> u64 \<Rightarrow> u64 \<Rightarrow> 'w heap \<Rightarrow> 'w heap" where
  "set_free_with_pinuse p z n s = set_size_and_pinuse_of_free_chunk p z (clear_pinuse n s)"
definition overhead_for :: "'w heap \<Rightarrow> u64 \<Rightarrow> u64" where
  "overhead_for s p = (if is_mmapped s p then MMAP_CHUNK_OVERHEAD else CHUNK_OVERHEAD)"
definition calloc_must_clear :: "'w heap \<Rightarrow> u64 \<Rightarrow> bool" where
  "calloc_must_clear s p \<longleftrightarrow> \<not> is_mmapped s p"

text \<open>The macros that set up in-use chunks, without footers.\<close>

definition set_inuse :: "u64 \<Rightarrow> u64 \<Rightarrow> 'w heap \<Rightarrow> 'w heap" where
  "set_inuse p z s =
     (let s = set_head p ((head s p AND PINUSE_BIT) OR z OR CINUSE_BIT) s
      in set_head (p + z) (head s (p + z) OR PINUSE_BIT) s)"
definition set_inuse_and_pinuse :: "u64 \<Rightarrow> u64 \<Rightarrow> 'w heap \<Rightarrow> 'w heap" where
  "set_inuse_and_pinuse p z s =
     (let s = set_head p (z OR PINUSE_BIT OR CINUSE_BIT) s
      in set_head (p + z) (head s (p + z) OR PINUSE_BIT) s)"
definition set_size_and_pinuse_of_inuse_chunk :: "u64 \<Rightarrow> u64 \<Rightarrow> 'w heap \<Rightarrow> 'w heap" where
  "set_size_and_pinuse_of_inuse_chunk p z = set_head p (z OR PINUSE_BIT OR CINUSE_BIT)"

subsection \<open>Flags of the space, page and granularity alignment\<close>

definition is_initialized :: "'w heap \<Rightarrow> bool" where "is_initialized s \<longleftrightarrow> topc s \<noteq> 0"
definition use_lock :: "'w heap \<Rightarrow> bool" where "use_lock s \<longleftrightarrow> mflags s AND USE_LOCK_BIT \<noteq> 0"
definition enable_lock :: "'w heap \<Rightarrow> 'w heap" where
  "enable_lock s = s\<lparr>mflags := mflags s OR USE_LOCK_BIT\<rparr>"
definition use_mmap :: "'w heap \<Rightarrow> bool" where "use_mmap s \<longleftrightarrow> mflags s AND USE_MMAP_BIT \<noteq> 0"
definition enable_mmap :: "'w heap \<Rightarrow> 'w heap" where
  "enable_mmap s = s\<lparr>mflags := mflags s OR USE_MMAP_BIT\<rparr>"
definition disable_mmap :: "'w heap \<Rightarrow> 'w heap" where "disable_mmap s = s"
definition use_noncontiguous :: "'w heap \<Rightarrow> bool" where
  "use_noncontiguous s \<longleftrightarrow> mflags s AND USE_NONCONTIGUOUS_BIT \<noteq> 0"
definition disable_contiguous :: "'w heap \<Rightarrow> 'w heap" where
  "disable_contiguous s = s\<lparr>mflags := mflags s OR USE_NONCONTIGUOUS_BIT\<rparr>"
definition set_lock :: "bool \<Rightarrow> 'w heap \<Rightarrow> 'w heap" where
  "set_lock L s =
     s\<lparr>mflags := (if L then mflags s OR USE_LOCK_BIT else mflags s AND NOT USE_LOCK_BIT)\<rparr>"

definition page_align :: "'w heap \<Rightarrow> u64 \<Rightarrow> u64" where
  "page_align s S = round_up (page_size s) S"
definition granularity_align :: "'w heap \<Rightarrow> u64 \<Rightarrow> u64" where
  "granularity_align s S = round_up (granularity s) S"
definition mmap_align :: "'w heap \<Rightarrow> u64 \<Rightarrow> u64" where "mmap_align s S = page_align s S"
definition TOP_FOOT_SIZE :: u64 where
  "TOP_FOOT_SIZE = align_offset (chunk2mem 0) + pad_request SEGMENT_SIZE + MIN_CHUNK_SIZE"
definition SYS_ALLOC_PADDING :: u64 where
  "SYS_ALLOC_PADDING = TOP_FOOT_SIZE + MALLOC_ALIGNMENT"
definition is_page_aligned :: "'w heap \<Rightarrow> u64 \<Rightarrow> bool" where
  "is_page_aligned s S \<longleftrightarrow> S AND (page_size s - 1) = 0"
definition is_granularity_aligned :: "'w heap \<Rightarrow> u64 \<Rightarrow> bool" where
  "is_granularity_aligned s S \<longleftrightarrow> S AND (granularity s - 1) = 0"
definition should_trim :: "'w heap \<Rightarrow> u64 \<Rightarrow> bool" where
  "should_trim s z \<longleftrightarrow> z > trim_check s"

lemma top_consts [simp]: "TOP_FOOT_SIZE = 80" "SYS_ALLOC_PADDING = 96"
  by (simp_all add: TOP_FOOT_SIZE_def SYS_ALLOC_PADDING_def SEGMENT_SIZE_def pad_request_def
      align_offset_def chunk2mem_def)

subsection \<open>Segments\<close>

definition segment_holds :: "'w heap \<Rightarrow> u64 \<Rightarrow> u64 \<Rightarrow> bool" where
  "segment_holds s S A \<longleftrightarrow> A \<ge> seg_base s S \<and> A < seg_base s S + seg_size s S"

partial_function (option) segment_holding_from :: "'w heap \<Rightarrow> u64 \<Rightarrow> u64 \<Rightarrow> u64 option" where
  "segment_holding_from s addr sp =
     (if addr \<ge> seg_base s sp \<and> addr < seg_base s sp + seg_size s sp then Some sp
      else if seg_next s sp = 0 then Some 0
      else segment_holding_from s addr (seg_next s sp))"

definition segment_holding :: "u64 \<Rightarrow> 'w heap \<Rightarrow> u64 \<Rightarrow> u64 option" where
  "segment_holding m s addr = segment_holding_from s addr (seg_addr m)"

partial_function (option) has_segment_link_from :: "'w heap \<Rightarrow> u64 \<Rightarrow> u64 \<Rightarrow> bool option" where
  "has_segment_link_from s ss sp =
     (if sp \<ge> seg_base s ss \<and> sp < seg_base s ss + seg_size s ss then Some True
      else if seg_next s sp = 0 then Some False
      else has_segment_link_from s ss (seg_next s sp))"

definition has_segment_link :: "u64 \<Rightarrow> 'w heap \<Rightarrow> u64 \<Rightarrow> bool option" where
  "has_segment_link m s ss = has_segment_link_from s ss (seg_addr m)"

subsection \<open>Bin maps of a state\<close>

definition mark_smallmap :: "u32 \<Rightarrow> 'w heap \<Rightarrow> 'w heap" where
  "mark_smallmap i s = s\<lparr>smallmap := smallmap s OR idx2bit i\<rparr>"
definition clear_smallmap :: "u32 \<Rightarrow> 'w heap \<Rightarrow> 'w heap" where
  "clear_smallmap i s = s\<lparr>smallmap := smallmap s AND NOT (idx2bit i)\<rparr>"
definition smallmap_is_marked :: "'w heap \<Rightarrow> u32 \<Rightarrow> bool" where
  "smallmap_is_marked s i \<longleftrightarrow> smallmap s AND idx2bit i \<noteq> 0"
definition mark_treemap :: "u32 \<Rightarrow> 'w heap \<Rightarrow> 'w heap" where
  "mark_treemap i s = s\<lparr>treemap := treemap s OR idx2bit i\<rparr>"
definition clear_treemap :: "u32 \<Rightarrow> 'w heap \<Rightarrow> 'w heap" where
  "clear_treemap i s = s\<lparr>treemap := treemap s AND NOT (idx2bit i)\<rparr>"
definition treemap_is_marked :: "'w heap \<Rightarrow> u32 \<Rightarrow> bool" where
  "treemap_is_marked s i \<longleftrightarrow> treemap s AND idx2bit i \<noteq> 0"

subsection \<open>Run-time checks\<close>

definition ok_address :: "'w heap \<Rightarrow> u64 \<Rightarrow> bool" where "ok_address s a \<longleftrightarrow> a \<ge> least_addr s"
definition ok_next :: "u64 \<Rightarrow> u64 \<Rightarrow> bool" where "ok_next p n \<longleftrightarrow> p < n"
definition ok_inuse :: "'w heap \<Rightarrow> u64 \<Rightarrow> bool" where "ok_inuse s p \<longleftrightarrow> is_inuse s p"
definition ok_pinuse :: "'w heap \<Rightarrow> u64 \<Rightarrow> bool" where "ok_pinuse s p \<longleftrightarrow> pinuse s p"

subsection \<open>Flags of an aligned size\<close>

lemma aligned_and_low:
  fixes z :: u64
  assumes "is_aligned z"
  shows "z AND 1 = 0" "z AND 2 = 0" "z AND 3 = 0" "z AND 7 = 0" "z AND NOT 7 = z" "z AND - 8 = z"
proof -
  have z: "z AND 15 = 0" using assms by (simp add: is_aligned_def)
  have sub: "z AND c = 0" if "15 AND c = c" for c
  proof -
    have "z AND c = (z AND 15) AND c" using that by (simp add: and.assoc)
    then show ?thesis using z by simp
  qed
  show "z AND 1 = 0" "z AND 2 = 0" "z AND 3 = 0" "z AND 7 = 0" by (rule sub, simp)+
  have "z = (z AND 7) OR (z AND NOT 7)" by (simp flip: bit.conj_disj_distrib)
  then show "z AND NOT 7 = z" using \<open>z AND 7 = 0\<close> by simp
  then show "z AND - 8 = z" by simp
qed

lemma head_of_inuse:
  assumes "is_aligned (z :: u64)"
  shows "(z OR 3) AND NOT 7 = z" "(z OR 3) AND - 8 = z" "(z OR 3) AND 3 = 3" "(z OR 3) AND 1 = 1"
    "(z OR 3) AND 2 = 2"
  by (simp_all add: bit.conj_disj_distrib2 aligned_and_low [OF assms])

lemma head_of_top:
  assumes "is_aligned (z :: u64)"
  shows "(z OR 1) AND NOT 7 = z" "(z OR 1) AND - 8 = z" "(z OR 1) AND 1 = 1" "(z OR 1) AND 2 = 0"
    "(z OR 1) AND 3 = 1"
  by (simp_all add: bit.conj_disj_distrib2 aligned_and_low [OF assms])

end
