(* ===== verification/Params.thy ===== *)
theory Params
  imports Chunks
begin

text \<open>
  Initialisation: \<open>init_mparams\<close> and \<open>change_mparam\<close> (the implementation of
  \<open>mallopt\<close>), \<open>init_top\<close>, \<open>init_bins\<close> and \<open>reset_on_error\<close>, with the page size,
  the clock and the values of the C \<open>int\<close> arguments as parameters.
\<close>

subsection \<open>Setting mparams\<close>

text \<open>The sanity checks on the configuration; a failed one aborts.\<close>

definition config_insane :: "u64 \<Rightarrow> u64 \<Rightarrow> bool" where
  "config_insane psize gsize \<longleftrightarrow>
     MAX_SIZE_T < MIN_CHUNK_SIZE \<or>
     MALLOC_ALIGNMENT < 8 \<or>
     MALLOC_ALIGNMENT AND (MALLOC_ALIGNMENT - 1) \<noteq> 0 \<or>
     MCHUNK_SIZE AND (MCHUNK_SIZE - 1) \<noteq> 0 \<or>
     gsize AND (gsize - 1) \<noteq> 0 \<or>
     psize AND (psize - 1) \<noteq> 0"

definition init_mparams :: "'w env \<Rightarrow> 'w heap \<Rightarrow> 'w heap option" where
  "init_mparams E s =
     (if mp_magic s = 0 then
        let psize = getpagesize E;
            gsize = (if DEFAULT_GRANULARITY \<noteq> 0 then DEFAULT_GRANULARITY else psize)
        in if config_insane psize gsize then None
           else
             let s = s\<lparr>granularity := gsize, page_size := psize,
                       mmap_threshold := DEFAULT_MMAP_THRESHOLD,
                       trim_threshold := DEFAULT_TRIM_THRESHOLD,
                       default_mflags := USE_LOCK_BIT OR USE_MMAP_BIT\<rparr>;
                 s = s\<lparr>mflags := default_mflags s\<rparr>;
                 mg = time_now E XOR 0x55555555;
                 mg = mg OR 8;
                 mg = mg AND NOT 7
             in Some (s\<lparr>mp_magic := mg\<rparr>)
      else Some s)"

definition ensure_initialization :: "'w env \<Rightarrow> 'w heap \<Rightarrow> 'w heap option" where
  "ensure_initialization E s = (if mp_magic s \<noteq> 0 then Some s else init_mparams E s)"

definition M_TRIM_THRESHOLD :: int where "M_TRIM_THRESHOLD = -1"
definition M_GRANULARITY :: int where "M_GRANULARITY = -2"
definition M_MMAP_THRESHOLD :: int where "M_MMAP_THRESHOLD = -3"

definition change_mparam ::
  "'w env \<Rightarrow> int \<Rightarrow> int \<Rightarrow> 'w heap \<Rightarrow> (int \<times> 'w heap) option" where
  "change_mparam E param_number value s =
     do {
       s \<leftarrow> ensure_initialization E s;
       let val = (if value = -1 then MAX_SIZE_T else (of_int value :: u64));
       Some
         (if param_number = M_TRIM_THRESHOLD then (1, s\<lparr>trim_threshold := val\<rparr>)
          else if param_number = M_GRANULARITY then
            (if val \<ge> page_size s \<and> val AND (val - 1) = 0
             then (1, s\<lparr>granularity := val\<rparr>) else (0, s))
          else if param_number = M_MMAP_THRESHOLD then (1, s\<lparr>mmap_threshold := val\<rparr>)
          else (0, s))
     }"

subsection \<open>Initialising a space\<close>

definition init_top :: "u64 \<Rightarrow> u64 \<Rightarrow> 'w heap \<Rightarrow> 'w heap" where
  "init_top p psize s =
     (let offset = align_offset (chunk2mem p);
          p = p + offset;
          psize = psize - offset;
          s = s\<lparr>topc := p, topsize := psize\<rparr>;
          s = set_head p (psize OR PINUSE_BIT) s;
          s = set_head (chunk_plus_offset p psize) TOP_FOOT_SIZE s
      in s\<lparr>trim_check := trim_threshold s\<rparr>)"

definition init_bin :: "u64 \<Rightarrow> nat \<Rightarrow> 'w heap \<Rightarrow> 'w heap" where
  "init_bin m i s = (let bin = smallbin_at m (of_nat i) in set_fd bin bin (set_bk bin bin s))"

definition init_bins :: "u64 \<Rightarrow> 'w heap \<Rightarrow> 'w heap" where
  "init_bins m s = fold (init_bin m) [0..<unat NSMALLBINS] s"

text \<open>\<open>reset_on_error\<close>, the corruption action of a \<open>PROCEED_ON_ERROR\<close> build: the
  state is made to forget all memory. The error counter is passed along.\<close>

definition reset_on_error :: "u64 \<Rightarrow> nat \<Rightarrow> 'w heap \<Rightarrow> nat \<times> 'w heap" where
  "reset_on_error m count s =
     (let s = s\<lparr>smallmap := 0, treemap := 0, dvsize := 0, topsize := 0\<rparr>;
          s = set_seg_base (seg_addr m) 0 s;
          s = set_seg_size (seg_addr m) 0 s;
          s = set_seg_next (seg_addr m) 0 s;
          s = s\<lparr>topc := 0, dv := 0\<rparr>;
          s = fold (\<lambda>i. store (treebin_at m (of_nat i)) 0) [0..<unat NTREEBINS] s
      in (Suc count, init_bins m s))"

subsection \<open>The parameters stay consistent\<close>

text \<open>
  Once set, the page size and the granularity are powers of two, and a granule holds at
  least a page: rounding with their masks is right.
\<close>

definition mparams_ok :: "'w heap \<Rightarrow> bool" where
  "mparams_ok s \<longleftrightarrow>
     mp_magic s \<noteq> 0 \<longrightarrow> pow2 (page_size s) \<and> pow2 (granularity s) \<and> page_size s \<le> granularity s"

lemma magic_nonzero: "(x OR 8) AND NOT 7 \<noteq> (0 :: u64)"
proof -
  have e: "(8 :: u64) = 2 ^ 3" "(7 :: u64) = mask 3" by (simp_all add: mask_eq_exp_minus_1)
  have "bit ((x OR 8) AND NOT 7) 3"
    unfolding e by (simp add: bit_and_iff bit_or_iff bit_not_iff bit_exp_iff bit_mask_iff)
  then show ?thesis by auto
qed

lemma init_mparams_ok:
  assumes "getpagesize E \<noteq> 0" "mparams_ok s" "init_mparams E s = Some s'"
  shows "mparams_ok s' \<and> mp_magic s' \<noteq> 0"
proof (cases "mp_magic s = 0")
  case True
  have "pow2 (getpagesize E)"
    using assms(1,3) True
    by (auto simp: init_mparams_def pow2_iff DEFAULT_GRANULARITY_def config_insane_def Let_def
        split: if_splits)
  then show ?thesis
    using assms(3) True magic_nonzero [of "time_now E XOR 0x55555555"]
    by (auto simp: init_mparams_def mparams_ok_def DEFAULT_GRANULARITY_def Let_def split: if_splits)
next
  case False
  then show ?thesis using assms(2,3) by (simp add: init_mparams_def)
qed

text \<open>
  Property C32. The first initialisation establishes, and every call of \<open>mallopt\<close> keeps,
  consistent parameters; a granularity is accepted exactly if it is a power of two of at
  least a page (-1 stands for the largest \<open>size_t\<close>, which is none).
\<close>

theorem mparams_invariant:
  assumes "getpagesize E \<noteq> 0" "mparams_ok s"
  shows "(init_mparams E s = Some s' \<longrightarrow> mparams_ok s' \<and> mp_magic s' \<noteq> 0) \<and>
    (change_mparam E n v s = Some (r, s') \<longrightarrow> mparams_ok s' \<and> mp_magic s' \<noteq> 0 \<and>
      (n = M_GRANULARITY \<longrightarrow>
        (r = 1 \<longleftrightarrow> pow2 (of_int v :: u64) \<and> page_size s' \<le> of_int v) \<and>
        (r = 1 \<longrightarrow> granularity s' = of_int v)))"
proof -
  have "mparams_ok s' \<and> mp_magic s' \<noteq> 0 \<and> (n = M_GRANULARITY \<longrightarrow>
      (r = 1 \<longleftrightarrow> pow2 (of_int v :: u64) \<and> page_size s' \<le> of_int v) \<and>
      (r = 1 \<longrightarrow> granularity s' = of_int v))"
    if chg: "change_mparam E n v s = Some (r, s')"
  proof -
    obtain s1 where s1: "ensure_initialization E s = Some s1"
      using chg by (auto simp: change_mparam_def bind_Some_iff)
    have ok: "mparams_ok s1" "mp_magic s1 \<noteq> 0"
      using s1 init_mparams_ok [OF assms] assms(2)
      by (auto simp: ensure_initialization_def split: if_splits)
    have pg: "page_size s1 \<noteq> 0" using ok by (auto simp: mparams_ok_def pow2_iff)
    have val: "(if v = -1 then MAX_SIZE_T else of_int v) = (of_int v :: u64)"
      by (simp add: MAX_SIZE_T_def)
    have gran: "page_size s1 \<le> x \<and> x AND (x - 1) = 0 \<longleftrightarrow> pow2 x \<and> page_size s1 \<le> x" for x
      using pg by (auto simp: pow2_iff)
    show ?thesis
      using chg [unfolded change_mparam_def s1 val Let_def] ok gran [of "of_int v"]
      by (auto simp: mparams_ok_def M_GRANULARITY_def M_TRIM_THRESHOLD_def split: if_splits)
  qed
  then show ?thesis using init_mparams_ok [OF assms] by blast
qed

theorem mparams_invariant_witness:
  "\<exists>s :: unit heap. mp_magic s = 8 \<and>
    (\<forall>r s'. change_mparam \<lparr>sbrk = (\<lambda>_ w. (0, w)), getpagesize = 4096, time_now = 0\<rparr> M_GRANULARITY 65536 s =
      Some (r, s') \<longrightarrow> mparams_ok s' \<and> (r = 1 \<longrightarrow> granularity s' = 65536))"
proof -
  define s :: "unit heap" where "s = undefined\<lparr>mp_magic := 8, page_size := 4096, granularity := 4096\<rparr>"
  define E :: "unit env" where "E = \<lparr>sbrk = (\<lambda>_ w. (0, w)), getpagesize = 4096, time_now = 0\<rparr>"
  have "getpagesize E \<noteq> 0" "mparams_ok s" by (simp_all add: E_def s_def mparams_ok_def pow2_iff)
  then have "\<forall>r s'. change_mparam E M_GRANULARITY 65536 s = Some (r, s') \<longrightarrow>
      mparams_ok s' \<and> (r = 1 \<longrightarrow> granularity s' = of_int 65536)"
    using mparams_invariant by blast
  moreover have "mp_magic s = 8" by (simp add: s_def)
  ultimately show ?thesis unfolding E_def [symmetric] by (intro exI [of _ s]) simp
qed

end
