(* ===== verification/SmallBins.thy ===== *)
theory SmallBins
  imports Params
begin

text \<open>
  The small bins of \<open>malloc.c\<close>: circular doubly linked lists whose header is a bin slot
  of the \<open>malloc_state\<close>, and the macros that link and unlink chunks and replace the
  designated victim. \<open>None\<close> is the abort of a failed run-time check.
\<close>

text \<open>The statically allocated \<open>_gm_\<close> and \<open>mparams\<close>: all fields 0.\<close>

definition static_heap :: "'w \<Rightarrow> 'w heap" where
  "static_heap w =
     \<lparr>mp_magic = 0, page_size = 0, granularity = 0, mmap_threshold = 0, trim_threshold = 0,
      default_mflags = 0, smallmap = 0, treemap = 0, dvsize = 0, topsize = 0, least_addr = 0,
      dv = 0, topc = 0, trim_check = 0, release_checks = 0, magic = 0, footprint = 0,
      max_footprint = 0, footprint_limit = 0, mflags = 0, extp = 0, exts = 0,
      mem = (\<lambda>_. 0), enomem = False, os = w\<rparr>"

subsection \<open>Operations\<close>

definition insert_small_chunk :: "u64 \<Rightarrow> u64 \<Rightarrow> u64 \<Rightarrow> 'w heap \<Rightarrow> 'w heap option" where
  "insert_small_chunk m P S s =
     (let I = small_index S; B = smallbin_at m I in
      do {
        (F, s) \<leftarrow>
          (if \<not> smallmap_is_marked s I then Some (B, mark_smallmap I s)
           else if ok_address s (fd s B) then Some (fd s B, s)
           else None);
        Some (set_bk P B (set_fd P F (set_bk F P (set_fd B P s))))
      })"

definition unlink_small_chunk :: "u64 \<Rightarrow> u64 \<Rightarrow> u64 \<Rightarrow> 'w heap \<Rightarrow> 'w heap option" where
  "unlink_small_chunk m P S s =
     (let F = fd s P; B = bk s P; I = small_index S in
      if F = smallbin_at m I \<or> (ok_address s F \<and> bk s F = P) then
        if B = F then Some (clear_smallmap I s)
        else if B = smallbin_at m I \<or> (ok_address s B \<and> fd s B = P) then
          Some (set_fd B F (set_bk F B s))
        else None
      else None)"

definition unlink_first_small_chunk ::
  "u64 \<Rightarrow> u64 \<Rightarrow> u32 \<Rightarrow> 'w heap \<Rightarrow> 'w heap option" where
  "unlink_first_small_chunk B P I s =
     (let F = fd s P in
      if B = F then Some (clear_smallmap I s)
      else if ok_address s F \<and> bk s F = P then Some (set_fd B F (set_bk F B s))
      else None)"

definition replace_dv :: "u64 \<Rightarrow> u64 \<Rightarrow> u64 \<Rightarrow> 'w heap \<Rightarrow> 'w heap option" where
  "replace_dv m P S s =
     (let DVS = dvsize s in
      do {
        s \<leftarrow> (if DVS \<noteq> 0 then insert_small_chunk m (dv s) DVS s else Some s);
        Some (s\<lparr>dvsize := S, dv := P\<rparr>)
      })"

subsection \<open>Marks and links\<close>


lemma bit_idx2bit:
  assumes "i < 32"
  shows "bit (idx2bit i) n \<longleftrightarrow> n = unat i"
proof -
  have "idx2bit i = 2 ^ unat i" by (simp add: idx2bit_def)
  then show ?thesis using assms by (simp only: bit_exp_iff) (auto simp: word_less_nat_alt)
qed

lemma and_idx2bit:
  assumes "i < 32"
  shows "x AND idx2bit i \<noteq> 0 \<longleftrightarrow> bit x (unat i)"
proof -
  have "bit (x AND idx2bit i) n \<longleftrightarrow> bit x n \<and> n = unat i" for n
    by (simp add: bit_and_iff bit_idx2bit [OF assms])
  then have "bit x (unat i) \<longleftrightarrow> bit (x AND idx2bit i) (unat i)" by simp
  moreover have "x AND idx2bit i = 0" if "\<not> bit (x AND idx2bit i) (unat i)"
    using that \<open>\<And>n. bit (x AND idx2bit i) n \<longleftrightarrow> bit x n \<and> n = unat i\<close>
    by (intro bit_word_eqI) auto
  ultimately show ?thesis by auto
qed

lemma marked_mark [simp]:
  assumes "i < 32" "j < 32"
  shows "smallmap_is_marked (mark_smallmap i s) j \<longleftrightarrow> j = i \<or> smallmap_is_marked s j"
    "smallmap_is_marked (clear_smallmap i s) j \<longleftrightarrow> j \<noteq> i \<and> smallmap_is_marked s j"
proof -
  have eq: "unat j = unat i \<longleftrightarrow> j = i" by (simp add: word_unat_eq_iff)
  have "unat j < 32" using assms by (simp add: word_less_nat_alt)
  then show "smallmap_is_marked (mark_smallmap i s) j \<longleftrightarrow> j = i \<or> smallmap_is_marked s j"
    "smallmap_is_marked (clear_smallmap i s) j \<longleftrightarrow> j \<noteq> i \<and> smallmap_is_marked s j"
    using assms eq
    unfolding smallmap_is_marked_def and_idx2bit [OF assms(2)] mark_smallmap_def clear_smallmap_def
    by (auto simp: bit_or_iff bit_and_iff bit_not_iff bit_idx2bit)
qed

lemma marked_frame [simp]:
  "smallmap_is_marked (set_fd p v s) i = smallmap_is_marked s i"
  "smallmap_is_marked (set_bk p v s) i = smallmap_is_marked s i"
  "smallmap_is_marked (set_head p v s) i = smallmap_is_marked s i"
  by (simp_all add: smallmap_is_marked_def set_field_defs)

lemma map_links [simp]:
  "fd (mark_smallmap i s) x = fd s x" "bk (mark_smallmap i s) x = bk s x"
  "fd (clear_smallmap i s) x = fd s x" "bk (clear_smallmap i s) x = bk s x"
  by (simp_all add: mark_smallmap_def clear_smallmap_def get_field_defs load_def)

lemma ok_address_frame [simp]:
  "ok_address (set_fd p v s) a = ok_address s a" "ok_address (set_bk p v s) a = ok_address s a"
  "ok_address (mark_smallmap i s) a = ok_address s a"
  "ok_address (clear_smallmap i s) a = ok_address s a"
  by (simp_all add: ok_address_def set_field_defs mark_smallmap_def clear_smallmap_def)

lemma map_frame [simp]:
  "least_addr (mark_smallmap i s) = least_addr s" "least_addr (clear_smallmap i s) = least_addr s"
  by (simp_all add: mark_smallmap_def clear_smallmap_def)

text \<open>
  A set of list nodes is apart when the \<open>bk\<close> cell of none is the \<open>fd\<close> cell of another.
\<close>

definition apart :: "u64 set \<Rightarrow> bool" where
  "apart N \<longleftrightarrow> (\<forall>x\<in>N. \<forall>y\<in>N. x \<noteq> y + 8)"

lemma apart_links:
  assumes "apart N" "x \<in> N" "p \<in> N"
  shows "fd (set_bk p v s) x = fd s x" "bk (set_fd p v s) x = bk s x"
  using assms by (auto simp: apart_def cell_simps)

text \<open>The nodes \<open>ps\<close> are doubly linked in order between \<open>x\<close> and \<open>y\<close>.\<close>

fun dlinks :: "'w heap \<Rightarrow> u64 \<Rightarrow> u64 list \<Rightarrow> u64 \<Rightarrow> bool" where
  "dlinks s x [] y \<longleftrightarrow> fd s x = y \<and> bk s y = x"
| "dlinks s x (p # ps) y \<longleftrightarrow> fd s x = p \<and> bk s p = x \<and> dlinks s p ps y"

lemma dlinks_append:
  "dlinks s x (ps @ q # qs) y \<longleftrightarrow> dlinks s x ps q \<and> dlinks s q qs y"
  by (induction ps arbitrary: x) auto

lemma dlinks_frame:
  assumes "\<And>z. z \<in> insert x (set ps) \<Longrightarrow> fd s' z = fd s z"
    "\<And>z. z \<in> insert y (set ps) \<Longrightarrow> bk s' z = bk s z"
  shows "dlinks s' x ps y = dlinks s x ps y"
  using assms by (induction ps arbitrary: x) auto

lemma dlinks_hd_last:
  "dlinks s x ps y \<Longrightarrow> fd s x = (if ps = [] then y else List.hd ps)"
  "dlinks s x ps y \<Longrightarrow> bk s y = (if ps = [] then x else last ps)"
  by (induction ps arbitrary: x) auto

lemma dlinks_fd_last: "dlinks s x ps y \<Longrightarrow> fd s (bk s y) = y"
  by (induction ps arbitrary: x) auto

lemma dlinks_bk_hd: "dlinks s x ps y \<Longrightarrow> bk s (fd s x) = x"
  by (cases ps) auto

subsection \<open>The invariant\<close>

text \<open>
  Bin \<open>i\<close> holds the chunks \<open>ps\<close>: it is marked exactly when it is not empty, and then its
  header and \<open>ps\<close> form a circular list. (The header of an empty bin is whatever was last
  there: \<open>unlink\<close> of the last chunk only clears the mark.)
\<close>

definition small_bin :: "u64 \<Rightarrow> 'w heap \<Rightarrow> u32 \<Rightarrow> u64 list \<Rightarrow> bool" where
  "small_bin m s i ps \<longleftrightarrow>
     (smallmap_is_marked s i \<longleftrightarrow> ps \<noteq> []) \<and>
     (ps \<noteq> [] \<longrightarrow> dlinks s (smallbin_at m i) ps (smallbin_at m i))"

text \<open>
  A chunk is aligned, above \<open>least_addr\<close>, and neither it nor the links in it lie in the
  \<open>malloc_state\<close> at \<open>m\<close>, whose size is 936.
\<close>

definition outside_state :: "u64 \<Rightarrow> u64 \<Rightarrow> bool" where
  "outside_state m p \<longleftrightarrow> 936 \<le> p - m \<and> 64 \<le> m - p"

definition chunk_at :: "u64 \<Rightarrow> 'w heap \<Rightarrow> u64 \<Rightarrow> bool" where
  "chunk_at m s p \<longleftrightarrow> is_aligned p \<and> ok_address s p \<and> outside_state m p"

definition small_bins :: "u64 \<Rightarrow> (u32 \<Rightarrow> u64 list) \<Rightarrow> 'w heap \<Rightarrow> bool" where
  "small_bins m L s \<longleftrightarrow>
     (\<forall>i < NSMALLBINS. small_bin m s i (L i) \<and> distinct (L i) \<and> (\<forall>p \<in> set (L i). chunk_at m s p)) \<and>
     (\<forall>i < NSMALLBINS. \<forall>j < NSMALLBINS. i \<noteq> j \<longrightarrow> set (L i) \<inter> set (L j) = {})"

definition headers :: "u64 \<Rightarrow> u64 set" where
  "headers m = smallbin_at m ` {i. i < NSMALLBINS}"

lemma smallbin_at_offset:
  assumes "i < 32"
  shows "smallbin_at m i = m + of_nat (72 + 16 * unat i)"
proof -
  have i: "unat i < 32" using assms by (simp add: word_less_nat_alt)
  have "unat (push_bit 1 i) = 2 * unat i"
    using i by (simp add: push_bit_eq_mult unat_word_ariths(2))
  then have "unat (ucast (push_bit 1 i) :: u64) = 2 * unat i"
    using i by (simp add: unsigned_ucast_eq take_bit_nat_eq_self)
  then have "(ucast (push_bit 1 i) :: u64) = of_nat (2 * unat i)"
    using i by (simp only: word_unat_eq_iff unsigned_of_nat) (simp add: take_bit_nat_eq_self)
  then show ?thesis by (simp add: smallbin_at_def)
qed

lemma header_diff:
  assumes "i < 32" "n \<le> 8"
  shows "unat (smallbin_at m i - m - of_nat n) = 72 + 16 * unat i - n"
    "unat (smallbin_at m i - m + of_nat n) = 72 + 16 * unat i + n"
proof -
  have i: "unat i < 32" using assms by (simp add: word_less_nat_alt)
  have "smallbin_at m i - m - of_nat n = of_nat (72 + 16 * unat i - n)"
    "smallbin_at m i - m + of_nat n = of_nat (72 + 16 * unat i + n)"
    using assms(2) by (simp_all add: smallbin_at_offset [OF assms(1)] of_nat_diff)
  then show "unat (smallbin_at m i - m - of_nat n) = 72 + 16 * unat i - n"
    "unat (smallbin_at m i - m + of_nat n) = 72 + 16 * unat i + n"
    using i assms(2) by (simp_all only: unsigned_of_nat) (simp_all add: take_bit_nat_eq_self)
qed

lemma smallbin_at_inj [simp]:
  assumes "i < 32" "j < 32"
  shows "smallbin_at m i = smallbin_at m j \<longleftrightarrow> i = j"
proof
  assume "smallbin_at m i = smallbin_at m j"
  then have "72 + 16 * unat i = 72 + 16 * unat j"
    using header_diff(1) [OF assms(1), of 0 m] header_diff(1) [OF assms(2), of 0 m] by simp
  then show "i = j" by (simp add: word_unat_eq_iff)
qed simp

lemma outside_not_header:
  assumes "i < 32" "outside_state m p"
  shows "p \<noteq> smallbin_at m i" "p \<noteq> smallbin_at m i + 8" "smallbin_at m i \<noteq> p + 8"
proof -
  have i: "unat i < 32" using assms by (simp add: word_less_nat_alt)
  have p: "936 \<le> unat (p - m)" using assms(2) by (simp add: outside_state_def word_le_nat_alt)
  show "p \<noteq> smallbin_at m i" using header_diff [OF assms(1), of 0 m] i p by auto
  show "p \<noteq> smallbin_at m i + 8"
  proof
    assume "p = smallbin_at m i + 8"
    then have e: "p - m = smallbin_at m i - m + of_nat 8" by simp
    have "unat (p - m) = 72 + 16 * unat i + 8"
      unfolding e by (rule header_diff(2) [OF assms(1)]) simp
    then show False using i p by simp
  qed
  show "smallbin_at m i \<noteq> p + 8"
  proof
    assume "smallbin_at m i = p + 8"
    then have e: "p - m = smallbin_at m i - m - of_nat 8" by simp
    have "unat (p - m) = 72 + 16 * unat i - 8"
      unfolding e by (rule header_diff(1) [OF assms(1)]) simp
    then show False using i p by simp
  qed
qed

lemma header_apart: "i < 32 \<Longrightarrow> j < 32 \<Longrightarrow> smallbin_at m i \<noteq> smallbin_at m j + 8"
proof
  assume ij: "i < 32" "j < 32" and "smallbin_at m i = smallbin_at m j + 8"
  then have e: "smallbin_at m i - m - of_nat 0 = smallbin_at m j - m + of_nat 8"
    by (simp add: algebra_simps)
  have "72 + 16 * unat i - 0 = 72 + 16 * unat j + 8"
    using arg_cong [OF e, of unat] unfolding header_diff(1) [OF ij(1) le0] by (simp only: header_diff(2) [OF ij(2) order_refl])
  then show False by presburger
qed

lemma aligned_apart: "is_aligned p \<Longrightarrow> is_aligned q \<Longrightarrow> p \<noteq> q + 8"
  using is_aligned_add [of q 8] by (auto simp: is_aligned_def)

lemma apart_nodes:
  assumes "\<And>p. p \<in> C \<Longrightarrow> is_aligned p \<and> outside_state m p"
  shows "apart (headers m \<union> C)"
  unfolding apart_def
proof (intro ballI)
  fix x y
  assume "x \<in> headers m \<union> C" "y \<in> headers m \<union> C"
  then consider i j where "x = smallbin_at m i" "y = smallbin_at m j" "i < 32" "j < 32"
    | i where "x = smallbin_at m i" "y \<in> C" "i < 32"
    | j where "x \<in> C" "y = smallbin_at m j" "j < 32"
    | "x \<in> C" "y \<in> C"
    by (auto simp: headers_def)
  then show "x \<noteq> y + 8"
    by cases (use assms in \<open>simp_all only: header_apart outside_not_header aligned_apart
      not_False_eq_True\<close>)
qed

text \<open>What a write to the links of some nodes leaves alone.\<close>

definition links_agree :: "u64 set \<Rightarrow> 'w heap \<Rightarrow> 'w heap \<Rightarrow> bool" where
  "links_agree N s s' \<longleftrightarrow> (\<forall>x \<in> N. fd s' x = fd s x \<and> bk s' x = bk s x)"

lemma small_bin_frame:
  assumes "links_agree N s s'" "smallbin_at m i \<in> N" "set ps \<subseteq> N"
    "smallmap_is_marked s' i = smallmap_is_marked s i"
  shows "small_bin m s' i ps = small_bin m s i ps"
proof -
  have "dlinks s' (smallbin_at m i) ps (smallbin_at m i)
      = dlinks s (smallbin_at m i) ps (smallbin_at m i)"
    using assms(1-3) by (intro dlinks_frame) (auto simp: links_agree_def)
  with assms(4) show ?thesis by (simp add: small_bin_def)
qed

text \<open>Linking \<open>p\<close> between \<open>x\<close> and \<open>y\<close>, and unlinking it.\<close>

definition link_between :: "u64 \<Rightarrow> u64 \<Rightarrow> u64 \<Rightarrow> 'w heap \<Rightarrow> 'w heap" where
  "link_between B P F s = set_bk P B (set_fd P F (set_bk F P (set_fd B P s)))"

lemma link_between_cells:
  assumes "apart N" "B \<in> N" "P \<in> N" "F \<in> N" "P \<noteq> B" "P \<noteq> F" "x \<in> N"
  shows "fd (link_between B P F s) x = (if x = P then F else if x = B then P else fd s x)"
    "bk (link_between B P F s) x = (if x = P then B else if x = F then P else bk s x)"
  using assms by (simp_all add: link_between_def apart_links [of N] link_cells(1,4))

lemma link_between_other:
  assumes "apart N" "B \<in> N" "P \<in> N" "F \<in> N" "x \<in> N" "x \<notin> {B, P, F}"
  shows "fd (link_between B P F s) x = fd s x \<and> bk (link_between B P F s) x = bk s x"
  using assms by (simp add: link_between_def apart_links [of N] link_cells(1,4))

lemma dlinks_link_between:
  assumes "apart N" "insert B (set ps) \<subseteq> N" "P \<in> N" "P \<notin> insert B (set ps)"
    "dlinks s B ps B" "distinct ps" "B \<notin> set ps" "F = (if ps = [] then B else List.hd ps)"
  shows "dlinks (link_between B P F s) B (P # ps) B"
proof (cases ps)
  case Nil
  with assms show ?thesis by (simp add: link_between_cells [of N])
next
  case (Cons q qs)
  have "dlinks (link_between B P q s) q qs B = dlinks s q qs B"
    using assms Cons by (intro dlinks_frame) (auto simp: link_between_cells [of N])
  moreover have "B \<noteq> P" "q \<noteq> P" using assms Cons by auto
  ultimately show ?thesis using assms Cons by (simp add: link_between_cells [of N])
qed

lemma dlinks_redirect:
  assumes "dlinks s x xs p" "distinct (x # xs)" "l = last (x # xs)"
    "fd s' l = q" "bk s' q = l"
    "\<And>z. z \<in> set (x # xs) \<Longrightarrow> z \<noteq> l \<Longrightarrow> fd s' z = fd s z"
    "\<And>z. z \<in> set xs \<Longrightarrow> bk s' z = bk s z"
  shows "dlinks s' x xs q"
  using assms
proof (induction xs arbitrary: x)
  case Nil
  then show ?case by simp
next
  case (Cons a xs)
  have "x \<noteq> l" using Cons.prems(2,3) by (auto dest: last_in_set)
  moreover have "dlinks s' a xs q"
    using Cons.prems by (intro Cons.IH) auto
  ultimately show ?case using Cons.prems by auto
qed

lemma dlinks_unlink:
  assumes "apart N" "insert B (set (xs @ p # ys)) \<subseteq> N" "distinct (xs @ p # ys)"
    "B \<notin> set (xs @ p # ys)" "dlinks s B (xs @ p # ys) B"
  shows "dlinks (set_fd (bk s p) (fd s p) (set_bk (fd s p) (bk s p) s)) B (xs @ ys) B"
proof -
  let ?l = "bk s p" and ?f = "fd s p"
  let ?s = "set_fd ?l ?f (set_bk ?f ?l s)"
  have d: "dlinks s B xs p" "dlinks s p ys B" using assms(5) by (simp_all add: dlinks_append)
  have l: "?l = last (B # xs)" using dlinks_hd_last(2) [OF d(1)] by simp
  have f: "?f = (if ys = [] then B else List.hd ys)" using dlinks_hd_last(1) [OF d(2)] by simp
  have lN: "?l \<in> N" "?f \<in> N" and ls: "?l \<in> insert B (set xs)"
    using assms(2) l f by (auto dest: last_in_set split: if_splits)
  have cells: "fd ?s x = (if x = ?l then ?f else fd s x)"
    "bk ?s x = (if x = ?f then ?l else bk s x)" if "x \<in> N" for x
    using that lN by (simp_all add: apart_links [OF assms(1)] link_cells(1,4))
  have *: "dlinks ?s B xs ?f"
  proof (rule dlinks_redirect [OF d(1) _ l])
    show "distinct (B # xs)" using assms(3,4) by auto
    show "fd ?s ?l = ?f" "bk ?s ?f = ?l" using lN by (simp_all add: cells)
    show "fd ?s z = fd s z" if "z \<in> set (B # xs)" "z \<noteq> ?l" for z
      using that assms(2) by (subst cells) auto
    show "bk ?s z = bk s z" if "z \<in> set xs" for z
      using that assms(2-4) f by (subst cells) (auto split: if_splits)
  qed
  show ?thesis
  proof (cases ys)
    case Nil
    with * f show ?thesis by simp
  next
    case (Cons y ys')
    have "dlinks ?s y ys' B = dlinks s y ys' B"
    proof (rule dlinks_frame)
      fix z
      show "fd ?s z = fd s z" if "z \<in> insert y (set ys')"
        using that assms(2-4) Cons ls by (subst cells) auto
      show "bk ?s z = bk s z" if "z \<in> insert B (set ys')"
        using that assms(2-4) Cons f by (subst cells) auto
    qed
    with d(2) * f Cons show ?thesis by (simp add: dlinks_append)
  qed
qed

definition bin_nodes :: "u64 \<Rightarrow> (u32 \<Rightarrow> u64 list) \<Rightarrow> u64 set" where
  "bin_nodes m L = headers m \<union> (\<Union>i \<in> {i. i < NSMALLBINS}. set (L i))"

lemma bin_nodesI [intro]:
  "i < 32 \<Longrightarrow> smallbin_at m i \<in> bin_nodes m L"
  "i < 32 \<Longrightarrow> p \<in> set (L i) \<Longrightarrow> p \<in> bin_nodes m L"
  by (auto simp: bin_nodes_def headers_def)

lemma small_binsD:
  assumes "small_bins m L s" "i < 32"
  shows "small_bin m s i (L i)" "distinct (L i)" "\<And>p. p \<in> set (L i) \<Longrightarrow> chunk_at m s p"
    "\<And>j p. j < 32 \<Longrightarrow> p \<in> set (L i) \<Longrightarrow> p \<in> set (L j) \<Longrightarrow> j = i"
  using assms by (simp_all add: small_bins_def) blast

lemma apart_bin_nodes:
  assumes "small_bins m L s" "\<And>p. p \<in> C \<Longrightarrow> chunk_at m s p"
  shows "apart (bin_nodes m L \<union> C)"
proof -
  have "apart (headers m \<union> ((\<Union>i \<in> {i. i < NSMALLBINS}. set (L i)) \<union> C))"
  proof (rule apart_nodes)
    fix p assume "p \<in> (\<Union>i \<in> {i. i < NSMALLBINS}. set (L i)) \<union> C"
    then have "chunk_at m s p" using assms(2) small_binsD(3) [OF assms(1)] by auto
    then show "is_aligned p \<and> outside_state m p" by (simp add: chunk_at_def)
  qed
  then show ?thesis by (simp add: bin_nodes_def Un_assoc)
qed

lemma header_notin: "small_bins m L s \<Longrightarrow> i < 32 \<Longrightarrow> j < 32 \<Longrightarrow> smallbin_at m i \<notin> set (L j)"
  using small_binsD(3) [of m L s j] outside_not_header(1) by (auto simp: chunk_at_def)

lemma small_index_less: "is_small S \<Longrightarrow> small_index S < 32"
proof -
  assume "is_small S"
  then have "unat (drop_bit 3 S) < 32" by (simp add: is_small_def word_less_nat_alt)
  then show ?thesis
    by (simp add: small_index_def word_less_nat_alt unsigned_ucast_eq take_bit_nat_eq_self)
qed

text \<open>Updating one bin of the table: the other bins only need their cells unchanged.\<close>

lemma small_bins_update:
  assumes inv: "small_bins m L s" and i: "i < 32"
    and new: "small_bin m s' i ps" "distinct ps" "\<And>p. p \<in> set ps \<Longrightarrow> chunk_at m s p"
    and fresh: "\<And>p j. p \<in> set ps \<Longrightarrow> j < 32 \<Longrightarrow> j \<noteq> i \<Longrightarrow> p \<notin> set (L j)"
    and other: "\<And>j. j < 32 \<Longrightarrow> j \<noteq> i \<Longrightarrow> links_agree (insert (smallbin_at m j) (set (L j))) s s'"
    and mark: "\<And>j. j < 32 \<Longrightarrow> j \<noteq> i \<Longrightarrow> smallmap_is_marked s' j = smallmap_is_marked s j"
    and least: "least_addr s' = least_addr s"
  shows "small_bins m (L(i := ps)) s'"
proof -
  have ca: "chunk_at m s' p = chunk_at m s p" for p
    using least by (simp add: chunk_at_def ok_address_def)
  have "small_bin m s' j (L j)" if "j < 32" "j \<noteq> i" for j
    using small_bin_frame [OF other [OF that] _ _ mark [OF that]] small_binsD(1) [OF inv that(1)]
    by blast
  then show ?thesis
    using inv i new fresh by (auto simp: small_bins_def ca)
qed

lemma insert_small_chunk_bins:
  assumes inv: "small_bins m L s" and P: "chunk_at m s P" and S: "is_small S"
    and fresh: "\<forall>j < NSMALLBINS. P \<notin> set (L j)"
  shows "\<exists>s'. insert_small_chunk m P S s = Some s' \<and>
    small_bins m (L(small_index S := P # L (small_index S))) s'"
proof -
  define i where "i = small_index S"
  have i: "i < 32" unfolding i_def by (rule small_index_less [OF S])
  let ?B = "smallbin_at m i" and ?N = "bin_nodes m L \<union> {P}"
  define F where "F = (if L i = [] then ?B else List.hd (L i))"
  define t where "t = (if L i = [] then mark_smallmap i s else s)"
  have bin: "small_bin m s i (L i)" by (rule small_binsD(1) [OF inv i])
  have N: "apart ?N" using P by (intro apart_bin_nodes [OF inv]) auto
  have PB: "P \<noteq> smallbin_at m j" if "j < 32" for j
    using outside_not_header(1) [OF that] P by (auto simp: chunk_at_def)
  have F: "F \<in> insert ?B (set (L i))" by (auto simp: F_def)
  have fdB: "L i \<noteq> [] \<Longrightarrow> fd s ?B = F"
    using bin by (auto simp: small_bin_def F_def dest: dlinks_hd_last(1))
  have okF: "L i \<noteq> [] \<Longrightarrow> ok_address s F"
    using small_binsD(3) [OF inv i, of F] by (auto simp: F_def chunk_at_def)
  have "insert_small_chunk m P S s = Some (link_between ?B P F t)"
    using bin fdB okF
    by (auto simp: insert_small_chunk_def Let_def small_bin_def F_def t_def link_between_def
        simp flip: i_def)
  moreover have "small_bins m (L(i := P # L i)) (link_between ?B P F t)"
  proof (rule small_bins_update [OF inv i])
    have "dlinks (link_between ?B P F t) ?B (P # L i) ?B"
    proof (cases "L i = []")
      case True
      then show ?thesis
        using PB [OF i] by (simp add: F_def link_between_cells [OF N] bin_nodesI i)
    next
      case False
      with bin have "dlinks t ?B (L i) ?B" by (simp add: small_bin_def t_def)
      then show ?thesis
        using PB [OF i] fresh i header_notin [OF inv i i] small_binsD(2) [OF inv i]
        by (intro dlinks_link_between [OF N]) (auto simp: F_def)
    qed
    moreover have "smallmap_is_marked (link_between ?B P F t) i"
      using bin i by (simp add: link_between_def t_def small_bin_def)
    ultimately show "small_bin m (link_between ?B P F t) i (P # L i)"
      by (simp add: small_bin_def)
    show "distinct (P # L i)" using fresh i small_binsD(2) [OF inv i] by simp
    show "chunk_at m s p" if "p \<in> set (P # L i)" for p
      using that P small_binsD(3) [OF inv i] by auto
    show "p \<notin> set (L j)" if "p \<in> set (P # L i)" "j < 32" "j \<noteq> i" for p j
      using that fresh small_binsD(4) [OF inv i] by auto
    show "smallmap_is_marked (link_between ?B P F t) j = smallmap_is_marked s j"
      if "j < 32" "j \<noteq> i" for j
      using that i by (simp add: link_between_def t_def)
    show "least_addr (link_between ?B P F t) = least_addr s"
      by (simp add: link_between_def t_def set_field_defs mark_smallmap_def)
    show "links_agree (insert (smallbin_at m j) (set (L j))) s (link_between ?B P F t)"
      if j: "j < 32" "j \<noteq> i" for j
    proof -
      have "x \<noteq> P \<and> x \<noteq> ?B \<and> x \<noteq> F \<and> x \<in> ?N" if "x \<in> insert (smallbin_at m j) (set (L j))" for x
        using that j i F PB [OF j(1)] fresh header_notin [OF inv i j(1)] header_notin [OF inv j(1) i]
          small_binsD(4) [OF inv i]
        by auto
      moreover have "F \<in> ?N" "?B \<in> ?N" using F i by auto
      ultimately have "fd (link_between ?B P F t) x = fd t x \<and> bk (link_between ?B P F t) x = bk t x"
        if "x \<in> insert (smallbin_at m j) (set (L j))" for x
        using that by (intro link_between_other [OF N]) auto
      then show ?thesis by (simp add: links_agree_def t_def)
    qed
  qed
  ultimately show ?thesis unfolding i_def by blast
qed

lemma unlink_small_chunk_bins:
  assumes inv: "small_bins m L s" and S: "is_small S" and P: "P \<in> set (L (small_index S))"
  shows "\<exists>s'. unlink_small_chunk m P S s = Some s' \<and>
    small_bins m (L(small_index S := remove1 P (L (small_index S)))) s'"
proof -
  define i where "i = small_index S"
  have i: "i < 32" unfolding i_def by (rule small_index_less [OF S])
  let ?B = "smallbin_at m i" and ?N = "bin_nodes m L" and ?F = "fd s P" and ?b = "bk s P"
  have Pi: "P \<in> set (L i)" using P by (simp add: i_def)
  obtain xs ys where L: "L i = xs @ P # ys" using split_list [OF Pi] by blast
  note bin = small_binsD(1) [OF inv i] and dist = small_binsD(2) [OF inv i]
  note hdr = header_notin [OF inv i i]
  have N: "apart ?N" using apart_bin_nodes [OF inv, of "{}"] by simp
  have rm: "remove1 P (L i) = xs @ ys" using dist L by (simp add: remove1_append)
  have d: "dlinks s ?B xs P" "dlinks s P ys ?B"
    using bin by (simp_all add: L small_bin_def dlinks_append)
  have b: "?b = last (?B # xs)" "fd s ?b = P"
    using d(1) by (auto dest: dlinks_hd_last(2) dlinks_fd_last)
  have F: "?F = (if ys = [] then ?B else List.hd ys)" "bk s ?F = P"
    using d(2) by (auto dest: dlinks_hd_last(1) dlinks_bk_hd)
  have bFs: "?b \<in> insert ?B (set (L i))" "?F \<in> insert ?B (set (L i))"
    using b(1) F(1) by (auto simp: L)
  have ok: "x = ?B \<or> ok_address s x" if "x \<in> insert ?B (set (L i))" for x
    using that small_binsD(3) [OF inv i] by (auto simp: chunk_at_def)
  have eq: "?b = ?F \<longleftrightarrow> xs @ ys = []"
  proof
    assume "?b = ?F"
    then have "last (?B # xs) = (if ys = [] then ?B else List.hd ys)" using b(1) F(1) by simp
    then show "xs @ ys = []"
      using dist hdr by (auto simp: L split: if_splits dest: last_in_set hd_in_set)
  qed (simp add: b(1) F(1))
  show ?thesis
  proof (cases "xs @ ys = []")
    case True
    have "unlink_small_chunk m P S s = Some (clear_smallmap i s)"
      using ok [OF bFs(2)] F(2) eq True by (auto simp: unlink_small_chunk_def Let_def simp flip: i_def)
    moreover have "small_bins m (L(i := [])) (clear_smallmap i s)"
      by (rule small_bins_update [OF inv i])
         (auto simp: small_bin_def links_agree_def i)
    ultimately show ?thesis using rm True by (simp flip: i_def)
  next
    case False
    let ?s = "set_fd ?b ?F (set_bk ?F ?b s)"
    have "unlink_small_chunk m P S s = Some ?s"
      using ok [OF bFs(1)] ok [OF bFs(2)] b(2) F(2) eq False
      by (auto simp: unlink_small_chunk_def Let_def simp flip: i_def)
    moreover have "small_bins m (L(i := xs @ ys)) ?s"
    proof (rule small_bins_update [OF inv i])
      have "dlinks ?s ?B (xs @ ys) ?B"
        using bin i dist hdr by (intro dlinks_unlink [OF N]) (auto simp: L small_bin_def)
      then show "small_bin m ?s i (xs @ ys)" using bin False by (auto simp: small_bin_def L)
      show "distinct (xs @ ys)" using dist L by auto
      show "chunk_at m s p" if "p \<in> set (xs @ ys)" for p
        using that small_binsD(3) [OF inv i] L by auto
      show "p \<notin> set (L j)" if "p \<in> set (xs @ ys)" "j < 32" "j \<noteq> i" for p j
        using that small_binsD(4) [OF inv i] L by auto
      show "links_agree (insert (smallbin_at m j) (set (L j))) s ?s" if j: "j < 32" "j \<noteq> i" for j
      proof -
        have "?b \<in> ?N" "?F \<in> ?N" using bFs i by auto
        moreover have "x \<noteq> ?b \<and> x \<noteq> ?F \<and> x \<in> ?N"
          if "x \<in> insert (smallbin_at m j) (set (L j))" for x
          using that bFs j i header_notin [OF inv i j(1)] header_notin [OF inv j(1) i]
            small_binsD(4) [OF inv i] by auto
        ultimately show ?thesis
          by (simp add: links_agree_def apart_links [OF N] link_cells(1,4))
      qed
      show "smallmap_is_marked ?s j = smallmap_is_marked s j" for j by simp
      show "least_addr ?s = least_addr s" by (simp add: set_field_defs)
    qed
    ultimately show ?thesis using rm by (auto simp flip: i_def)
  qed
qed

lemma is_small_class: "i < 32 \<Longrightarrow> is_small (of_nat (8 * unat i)) \<and> small_index (of_nat (8 * unat i)) = i"
proof -
  assume "i < 32"
  then have i: "unat i < 32" by (simp add: word_less_nat_alt)
  then have "unat (of_nat (8 * unat i) :: u64) = 8 * unat i"
    by (simp only: unsigned_of_nat) (simp add: take_bit_nat_eq_self)
  then have d: "unat (drop_bit 3 (of_nat (8 * unat i) :: u64)) = unat i" by (simp only: unat_drop_bit) simp
  then show ?thesis using i
    by (simp add: is_small_def small_index_def word_less_nat_alt word_unat_eq_iff unsigned_ucast_eq
        take_bit_nat_eq_self)
qed

lemma unlink_first_same:
  assumes inv: "small_bins m L s" and i: "i < 32" and L: "L i = P # qs" and Z: "small_index Z = i"
  shows "fd s (smallbin_at m i) = P" "unlink_first_small_chunk (smallbin_at m i) P i s = unlink_small_chunk m P Z s"
proof -
  let ?B = "smallbin_at m i"
  have d: "fd s ?B = P" "bk s P = ?B" "dlinks s P qs ?B"
    using small_binsD(1) [OF inv i] by (simp_all add: small_bin_def L)
  have F: "fd s P = (if qs = [] then ?B else List.hd qs)" "bk s (fd s P) = P"
    using d(3) by (auto dest: dlinks_hd_last(1) dlinks_bk_hd)
  have ok: "fd s P = ?B \<or> ok_address s (fd s P)"
    using F(1) small_binsD(3) [OF inv i] by (auto simp: L chunk_at_def)
  show "fd s ?B = P" by (rule d(1))
  show "unlink_first_small_chunk ?B P i s = unlink_small_chunk m P Z s"
    using ok d(2) F(2) by (auto simp: unlink_first_small_chunk_def unlink_small_chunk_def Let_def Z)
qed

lemma unlink_first_small_chunk_bins:
  assumes inv: "small_bins m L s" and i: "i < NSMALLBINS" and L: "L i = P # qs"
  shows "\<exists>s'. unlink_first_small_chunk (smallbin_at m i) P i s = Some s' \<and>
    fd s (smallbin_at m i) = P \<and> small_bins m (L(i := qs)) s'"
proof -
  define Z :: u64 where "Z = of_nat (8 * unat i)"
  have i: "i < 32" using assms(2) by simp
  have S: "is_small Z" "small_index Z = i" using is_small_class [OF i] by (simp_all only: Z_def)
  obtain s' where "unlink_small_chunk m P Z s = Some s'" "small_bins m (L(i := qs)) s'"
    using unlink_small_chunk_bins [OF inv S(1), of P] small_binsD(2) [OF inv i] by (auto simp: S(2) L)
  then show ?thesis using unlink_first_same [OF inv i L S(2)] by auto
qed

lemma chunk_at_frame: "least_addr s' = least_addr s \<Longrightarrow> chunk_at m s' p = chunk_at m s p"
  by (simp add: chunk_at_def ok_address_def)

lemma small_bins_static: "small_bins m (\<lambda>_. []) (static_heap w)"
  by (simp add: small_bins_def small_bin_def smallmap_is_marked_def static_heap_def)

lemma chunk_at_static:
  "chunk_at m (static_heap w) p \<longleftrightarrow> is_aligned p \<and> outside_state m p"
  by (simp add: chunk_at_def ok_address_def static_heap_def)

lemma insert_least_addr: "insert_small_chunk m P S s = Some s' \<Longrightarrow> least_addr s' = least_addr s"
  by (auto simp: insert_small_chunk_def Let_def bind_Some_iff set_field_defs split: if_splits)

lemma unlink_least_addr: "unlink_small_chunk m P S s = Some s' \<Longrightarrow> least_addr s' = least_addr s"
  by (auto simp: unlink_small_chunk_def Let_def set_field_defs split: if_splits)

subsection \<open>The contract of a store of chunks\<close>

text \<open>
  What the rest of the allocator relies on: a store keeps the set of the chunks of each
  size class; \<open>put\<close> and \<open>take_out\<close> of a chunk that fits and is clear of the others do not
  abort and change the one class.
\<close>

locale chunk_store =
  fixes rep :: "('k \<Rightarrow> u64 set) \<Rightarrow> 's \<Rightarrow> bool"
    and fits :: "'s \<Rightarrow> u64 \<Rightarrow> u64 \<Rightarrow> bool"
    and admits :: "u64 \<Rightarrow> bool"
    and key :: "u64 \<Rightarrow> 'k"
    and clear :: "u64 \<Rightarrow> u64 \<Rightarrow> u64 \<Rightarrow> 'k \<Rightarrow> bool"
    and put :: "u64 \<Rightarrow> u64 \<Rightarrow> 's \<Rightarrow> 's option"
    and take_out :: "u64 \<Rightarrow> u64 \<Rightarrow> 's \<Rightarrow> 's option"
  assumes put_law: "\<lbrakk>rep T s; admits S; fits s P S; \<forall>k. \<forall>Q \<in> T k. clear P S Q k\<rbrakk>
      \<Longrightarrow> \<exists>s'. put P S s = Some s' \<and> rep (T(key S := insert P (T (key S)))) s'"
    and take_law: "\<lbrakk>rep T s; admits S; P \<in> T (key S)\<rbrakk>
      \<Longrightarrow> \<exists>s'. take_out P S s = Some s' \<and> rep (T(key S := T (key S) - {P})) s'"
    and fits_put: "\<lbrakk>rep T s; admits S; fits s P S; \<forall>k. \<forall>Q \<in> T k. clear P S Q k; put P S s = Some s';
        fits s Q R; admits R; \<forall>k. \<forall>P' \<in> T k. clear Q R P' k; clear Q R P (key S)\<rbrakk> \<Longrightarrow> fits s' Q R"
    and clear_other: "admits S \<Longrightarrow> \<not> clear P S P (key S)"
begin

lemma put_take:
  assumes "rep T s" "admits S" "fits s P S" "\<forall>k. \<forall>Q \<in> T k. clear P S Q k"
  shows "\<exists>s' s''. put P S s = Some s' \<and> take_out P S s' = Some s'' \<and> rep T s''"
proof -
  obtain s' where s': "put P S s = Some s'" "rep (T(key S := insert P (T (key S)))) s'"
    using put_law [OF assms] by blast
  then obtain s'' where "take_out P S s' = Some s''"
    "rep ((T(key S := insert P (T (key S))))(key S := insert P (T (key S)) - {P})) s''"
    using take_law [OF s'(2) assms(2), of P] by auto
  moreover have "insert P (T (key S)) - {P} = T (key S)" using assms(4) clear_other [OF assms(2)] by auto
  ultimately show ?thesis using s'(1) by auto
qed

fun put_all :: "(u64 \<times> u64) list \<Rightarrow> 's \<Rightarrow> 's option" where
  "put_all [] s = Some s"
| "put_all ((P, S) # ps) s = Option.bind (put P S s) (put_all ps)"

lemma put_all_ok:
  assumes "rep T s" "\<forall>(P, S) \<in> set ps. admits S \<and> fits s P S \<and> (\<forall>k. \<forall>Q \<in> T k. clear P S Q k)"
    "sorted_wrt (\<lambda>(P, S) (Q, R). clear Q R P (key S)) ps"
  shows "\<exists>s'. put_all ps s = Some s' \<and> rep (\<lambda>k. T k \<union> {P. \<exists>S. (P, S) \<in> set ps \<and> key S = k}) s'"
  using assms
proof (induction ps arbitrary: T s)
  case Nil
  then show ?case by simp
next
  case (Cons a ps)
  obtain P S where a: "a = (P, S)" by (cases a)
  let ?T = "T(key S := insert P (T (key S)))"
  have P: "admits S" "fits s P S" "\<forall>k. \<forall>Q \<in> T k. clear P S Q k" using Cons.prems(2) by (auto simp: a)
  obtain s' where s': "put P S s = Some s'" "rep ?T s'"
    using put_law [OF Cons.prems(1) P] by blast
  have "\<forall>(Q, R) \<in> set ps. admits R \<and> fits s' Q R \<and> (\<forall>k. \<forall>P' \<in> ?T k. clear Q R P' k)"
  proof clarify
    fix Q R
    assume Q: "(Q, R) \<in> set ps"
    have q: "admits R" "fits s Q R" "\<forall>k. \<forall>P' \<in> T k. clear Q R P' k" "clear Q R P (key S)"
      using Cons.prems(2,3) Q by (auto simp: a)
    then show "admits R \<and> fits s' Q R \<and> (\<forall>k. \<forall>P' \<in> ?T k. clear Q R P' k)"
      using fits_put [OF Cons.prems(1) P s'(1) q(2,1,3,4)] by auto
  qed
  then obtain s'' where s'': "put_all ps s' = Some s''"
    "rep (\<lambda>k. ?T k \<union> {P. \<exists>S. (P, S) \<in> set ps \<and> key S = k}) s''"
    using Cons.IH [OF s'(2)] Cons.prems(3) by (auto simp: a)
  have "(\<lambda>k. ?T k \<union> {P. \<exists>S. (P, S) \<in> set ps \<and> key S = k})
      = (\<lambda>k. T k \<union> {P. \<exists>S. (P, S) \<in> set (a # ps) \<and> key S = k})"
    by (auto simp: a fun_eq_iff)
  with s'' s'(1) show ?case by (simp add: a)
qed

end

text \<open>The small bins are such a store, the classes being the bins.\<close>

definition small_table :: "u64 \<Rightarrow> (u32 \<Rightarrow> u64 set) \<Rightarrow> 'w heap \<Rightarrow> bool" where
  "small_table m T s \<longleftrightarrow> (\<exists>L. small_bins m L s \<and> T = (\<lambda>i. if i < NSMALLBINS then set (L i) else {}))"

lemma small_table_update:
  assumes "small_bins m (L(i := xs)) s" "i < NSMALLBINS"
    "T = (\<lambda>i. if i < NSMALLBINS then set (L i) else {})" "X = set xs"
  shows "small_table m (T(i := X)) s"
  unfolding small_table_def
  using assms by (intro exI [of _ "L(i := xs)"]) (simp add: fun_eq_iff)

interpretation small: chunk_store "small_table m" "\<lambda>s P _. chunk_at m s P" is_small small_index
  "\<lambda>P _ Q _. P \<noteq> Q" "insert_small_chunk m" "unlink_small_chunk m" for m
proof
  fix T :: "u32 \<Rightarrow> u64 set" and s :: "'w heap" and S P
  assume T: "small_table m T s" and S: "is_small S"
  obtain L where L: "small_bins m L s" "T = (\<lambda>i. if i < NSMALLBINS then set (L i) else {})"
    using T by (auto simp: small_table_def)
  note i = small_index_less [OF S]
  {
    assume P: "chunk_at m s P" "\<forall>k. \<forall>Q \<in> T k. P \<noteq> Q"
    have "\<forall>j < NSMALLBINS. P \<notin> set (L j)"
    proof (intro allI impI)
      fix j assume "j < NSMALLBINS"
      then show "P \<notin> set (L j)" using P(2) [rule_format, of P j] by (auto simp: L(2))
    qed
    then have fresh: "\<forall>j < NSMALLBINS. P \<notin> set (L j)" .
    have T: "T (small_index S) = set (L (small_index S))" using i by (simp add: L(2))
    from insert_small_chunk_bins [OF L(1) P(1) S fresh] obtain s' where
      "insert_small_chunk m P S s = Some s'"
      "small_bins m (L(small_index S := P # L (small_index S))) s'" by blast
    then show "\<exists>s'. insert_small_chunk m P S s = Some s' \<and>
        small_table m (T(small_index S := insert P (T (small_index S)))) s'"
      using i by (intro exI [of _ s'] conjI small_table_update [OF _ _ L(2), of _ _ "P # L (small_index S)"])
         (simp_all add: T)
  next
    assume P: "P \<in> T (small_index S)"
    then have P': "P \<in> set (L (small_index S))" using i by (simp add: L(2))
    have d: "distinct (L (small_index S))" using small_binsD(2) [OF L(1) i] .
    from unlink_small_chunk_bins [OF L(1) S P'] obtain s' where
      "unlink_small_chunk m P S s = Some s'"
      "small_bins m (L(small_index S := remove1 P (L (small_index S)))) s'" by blast
    then show "\<exists>s'. unlink_small_chunk m P S s = Some s' \<and>
        small_table m (T(small_index S := T (small_index S) - {P})) s'"
      using i d
      by (intro exI [of _ s'] conjI
          small_table_update [OF _ _ L(2), of _ _ "remove1 P (L (small_index S))"])
         (simp_all add: L(2) set_remove1_eq)
  }
qed (simp_all add: chunk_at_frame [OF insert_least_addr])

end
