(* ===== verification/TreeBins.thy ===== *)
theory TreeBins
  imports SmallBins
begin

text \<open>
  The tree bins of \<open>malloc.c\<close>: bitwise tries of large free chunks, each node the head of
  a ring of the chunks of its size, and the relays that choose between small and tree bins.
\<close>

subsection \<open>Inserting\<close>

text \<open>
  Where the search of \<open>insert_large_chunk\<close> stops: at an empty child cell \<open>C\<close> of a node
  \<open>T\<close>, or at a node of the same size. It follows the bits of the key \<open>K\<close> from the top;
  \<open>None\<close> is a search that does not end.
\<close>

datatype tree_slot = Child_Slot u64 u64 | Same_Size u64

partial_function (option) find_tree_slot :: "'w heap \<Rightarrow> u64 \<Rightarrow> u64 \<Rightarrow> u64 \<Rightarrow> tree_slot option" where
  "find_tree_slot s T K S =
     (if chunksize s T \<noteq> S then
        let C = child_addr T (drop_bit 63 K AND 1) in
        if load s C \<noteq> 0 then find_tree_slot s (load s C) (push_bit 1 K) S
        else Some (Child_Slot T C)
      else Some (Same_Size T))"

definition insert_large_chunk :: "u64 \<Rightarrow> u64 \<Rightarrow> u64 \<Rightarrow> 'w heap \<Rightarrow> 'w heap option" where
  "insert_large_chunk m X S s =
     (let I = compute_tree_index S; H = treebin_at m I;
          s = set_index X I s;
          s = set_child X 0 0 (set_child X 1 0 s) in
      if \<not> treemap_is_marked s I then
        let s = mark_treemap I s;
            s = store H X s;
            s = set_parent X H s
        in Some (set_fd X X (set_bk X X s))
      else do {
        slot \<leftarrow> find_tree_slot s (load s H) (push_bit (unat (leftshift_for_tree_index I)) S) S;
        (case slot of
          Child_Slot T C \<Rightarrow>
            if ok_address s C then
              Some (set_fd X X (set_bk X X (set_parent X T (store C X s))))
            else None
        | Same_Size T \<Rightarrow>
            let F = fd s T in
            if ok_address s T \<and> ok_address s F then
              Some (set_parent X 0 (set_bk X T (set_fd X F (set_fd T X (set_bk F X s)))))
            else None)
      })"

subsection \<open>Unlinking\<close>

text \<open>
  The descent to the rightmost leaf below \<open>R\<close>, with the cell \<open>RP\<close> that points to it.
\<close>

partial_function (option) rightmost_leaf :: "'w heap \<Rightarrow> u64 \<Rightarrow> u64 \<Rightarrow> (u64 \<times> u64) option" where
  "rightmost_leaf s R RP =
     (if child s R 1 \<noteq> 0 then rightmost_leaf s (child s R 1) (child_addr R 1)
      else if child s R 0 \<noteq> 0 then rightmost_leaf s (child s R 0) (child_addr R 0)
      else Some (R, RP))"

text \<open>Steps 1 and 2: take \<open>X\<close> out of its ring, or choose a leaf to replace it.\<close>

definition unlink_large_replacement :: "u64 \<Rightarrow> 'w heap \<Rightarrow> (u64 \<times> 'w heap) option" where
  "unlink_large_replacement X s =
     (if bk s X \<noteq> X then
        let F = fd s X; R = bk s X in
        if ok_address s F \<and> bk s F = X \<and> fd s R = X
        then Some (R, set_fd R F (set_bk F R s))
        else None
      else if child s X 1 \<noteq> 0 \<or> child s X 0 \<noteq> 0 then
        do {
          (R, RP) \<leftarrow> (if child s X 1 \<noteq> 0 then rightmost_leaf s (child s X 1) (child_addr X 1)
                      else rightmost_leaf s (child s X 0) (child_addr X 0));
          if ok_address s RP then Some (R, store RP 0 s) else None
        }
      else Some (0, s))"

text \<open>Step 3: hand the children of \<open>X\<close> to the replacement.\<close>

definition adopt_child :: "u64 \<Rightarrow> u64 \<Rightarrow> u64 \<Rightarrow> 'w heap \<Rightarrow> 'w heap option" where
  "adopt_child X R i s =
     (let C = child s X i in
      if C \<noteq> 0 then
        if ok_address s C then Some (set_parent C R (set_child R i C s)) else None
      else Some s)"

definition unlink_large_relink :: "u64 \<Rightarrow> u64 \<Rightarrow> u64 \<Rightarrow> u64 \<Rightarrow> 'w heap \<Rightarrow> 'w heap option" where
  "unlink_large_relink m X XP R s =
     (if XP = 0 then Some s
      else
        let H = treebin_at m (index s X) in
        do {
          s \<leftarrow> (if X = load s H then
                 let s = store H R s
                 in Some (if R = 0 then clear_treemap (index s X) s else s)
               else if ok_address s XP then
                 Some (if child s XP 0 = X then set_child XP 0 R s else set_child XP 1 R s)
               else None);
          if R \<noteq> 0 then
            if ok_address s R then
              do {
                s \<leftarrow> adopt_child X R 0 (set_parent R XP s);
                adopt_child X R 1 s
              }
            else None
          else Some s
        })"

definition unlink_large_chunk :: "u64 \<Rightarrow> u64 \<Rightarrow> 'w heap \<Rightarrow> 'w heap option" where
  "unlink_large_chunk m X s =
     (let XP = parent s X in
      do {
        (R, s) \<leftarrow> unlink_large_replacement X s;
        unlink_large_relink m X XP R s
      })"

subsection \<open>Relays\<close>

definition insert_chunk :: "u64 \<Rightarrow> u64 \<Rightarrow> u64 \<Rightarrow> 'w heap \<Rightarrow> 'w heap option" where
  "insert_chunk m P S s =
     (if is_small S then insert_small_chunk m P S s else insert_large_chunk m P S s)"

definition unlink_chunk :: "u64 \<Rightarrow> u64 \<Rightarrow> u64 \<Rightarrow> 'w heap \<Rightarrow> 'w heap option" where
  "unlink_chunk m P S s =
     (if is_small S then unlink_small_chunk m P S s else unlink_large_chunk m P s)"

end
