(* ===== verification/SysMem.thy ===== *)
theory SysMem
  imports TreeBins
begin

text \<open>
  Getting memory from the system and giving it back: direct mapping, the segments,
  \<open>sys_alloc\<close>, \<open>sys_trim\<close> and \<open>dispose_chunk\<close>. A dereference of a null segment pointer
  is \<open>None\<close>, as an abort is. A function with a result returns it with the new state.
\<close>

definition HAVE_MMAP :: bool where "HAVE_MMAP = False"
definition HAVE_MORECORE :: bool where "HAVE_MORECORE = True"
definition MORECORE_CONTIGUOUS :: bool where "MORECORE_CONTIGUOUS = True"
definition NO_SEGMENT_TRAVERSAL :: bool where "NO_SEGMENT_TRAVERSAL = False"

text \<open>The update of \<open>max_footprint\<close> that follows each change of \<open>footprint\<close>.\<close>

definition add_footprint :: "u64 \<Rightarrow> 'w heap \<Rightarrow> 'w heap" where
  "add_footprint n s =
     (let fp = footprint s + n;
          s = s\<lparr>footprint := fp\<rparr>
      in if fp > max_footprint s then s\<lparr>max_footprint := fp\<rparr> else s)"

subsection \<open>Direct mapping\<close>

definition mmap_alloc :: "u64 \<Rightarrow> 'w heap \<Rightarrow> u64 \<times> 'w heap" where
  "mmap_alloc nb s =
     (let mmsize = mmap_align s (nb + SIX_SIZE_T_SIZES + CHUNK_ALIGN_MASK);
          fp = footprint s + mmsize in
      if footprint_limit s \<noteq> 0 \<and> (fp \<le> footprint s \<or> fp > footprint_limit s) then (0, s)
      else if mmsize > nb then
        let mm = CALL_DIRECT_MMAP mmsize in
        if mm \<noteq> CMFAIL then
          let offset = align_offset (chunk2mem mm);
              psize = mmsize - offset - MMAP_FOOT_PAD;
              p = mm + offset;
              s = set_prev_foot p offset s;
              s = set_head p psize s;
              s = set_head (chunk_plus_offset p psize) FENCEPOST_HEAD s;
              s = set_head (chunk_plus_offset p (psize + SIZE_T_SIZE)) 0 s;
              s = (if least_addr s = 0 \<or> mm < least_addr s then s\<lparr>least_addr := mm\<rparr> else s)
          in (chunk2mem p, add_footprint mmsize s)
        else (0, s)
      else (0, s))"

definition mmap_resize :: "u64 \<Rightarrow> u64 \<Rightarrow> int \<Rightarrow> 'w heap \<Rightarrow> u64 \<times> 'w heap" where
  "mmap_resize oldp nb flags s =
     (let oldsize = chunksize s oldp in
      if is_small nb then (0, s)
      else if oldsize \<ge> nb + SIZE_T_SIZE \<and> oldsize - nb \<le> push_bit 1 (granularity s)
      then (oldp, s)
      else
        let offset = prev_foot s oldp;
            oldmmsize = oldsize + offset + MMAP_FOOT_PAD;
            newmmsize = mmap_align s (nb + SIX_SIZE_T_SIZES + CHUNK_ALIGN_MASK);
            cp = CALL_MREMAP (oldp - offset) oldmmsize newmmsize flags in
        if cp \<noteq> CMFAIL then
          let newp = cp + offset;
              psize = newmmsize - offset - MMAP_FOOT_PAD;
              s = set_head newp psize s;
              s = set_head (chunk_plus_offset newp psize) FENCEPOST_HEAD s;
              s = set_head (chunk_plus_offset newp (psize + SIZE_T_SIZE)) 0 s;
              s = (if cp < least_addr s then s\<lparr>least_addr := cp\<rparr> else s)
          in (newp, add_footprint (newmmsize - oldmmsize) s)
        else (0, s))"

subsection \<open>Segments\<close>

definition prepend_alloc :: "u64 \<Rightarrow> u64 \<Rightarrow> u64 \<Rightarrow> u64 \<Rightarrow> 'w heap \<Rightarrow> (u64 \<times> 'w heap) option" where
  "prepend_alloc m newbase oldbase nb s =
     (let p = align_as_chunk newbase;
          oldfirst = align_as_chunk oldbase;
          psize = oldfirst - p;
          q = chunk_plus_offset p nb;
          qsize = psize - nb;
          s = set_size_and_pinuse_of_inuse_chunk p nb s in
      if oldfirst = topc s then
        let tsize = topsize s + qsize;
            s = s\<lparr>topsize := tsize, topc := q\<rparr>
        in Some (chunk2mem p, set_head q (tsize OR PINUSE_BIT) s)
      else if oldfirst = dv s then
        let dsize = dvsize s + qsize;
            s = s\<lparr>dvsize := dsize, dv := q\<rparr>
        in Some (chunk2mem p, set_size_and_pinuse_of_free_chunk q dsize s)
      else
        do {
          (oldfirst, qsize, s) \<leftarrow>
            (if \<not> is_inuse s oldfirst then
               let nsize = chunksize s oldfirst in
               do {
                 s \<leftarrow> unlink_chunk m oldfirst nsize s;
                 Some (chunk_plus_offset oldfirst nsize, qsize + nsize, s)
               }
             else Some (oldfirst, qsize, s));
          s \<leftarrow> insert_chunk m q qsize (set_free_with_pinuse q qsize oldfirst s);
          Some (chunk2mem p, s)
        })"

text \<open>The loop that writes the trailing fenceposts, from \<open>p\<close> up to \<open>old_end\<close>.\<close>

partial_function (option) insert_fenceposts :: "u64 \<Rightarrow> u64 \<Rightarrow> 'w heap \<Rightarrow> 'w heap option" where
  "insert_fenceposts old_end p s =
     (let nextp = chunk_plus_offset p SIZE_T_SIZE;
          s = set_head p FENCEPOST_HEAD s in
      if nextp + 8 < old_end then insert_fenceposts old_end nextp s else Some s)"

definition add_segment :: "u64 \<Rightarrow> u64 \<Rightarrow> u64 \<Rightarrow> u32 \<Rightarrow> 'w heap \<Rightarrow> 'w heap option" where
  "add_segment m tbase tsize mmapped s =
     (let old_top = topc s in
      do {
        oldsp \<leftarrow> segment_holding m s old_top;
        if oldsp = 0 then None
        else
          let old_end = seg_base s oldsp + seg_size s oldsp;
              ssize = pad_request SEGMENT_SIZE;
              rawsp = old_end - (ssize + FOUR_SIZE_T_SIZES + CHUNK_ALIGN_MASK);
              offset = align_offset (chunk2mem rawsp);
              asp = rawsp + offset;
              csp = (if asp < old_top + MIN_CHUNK_SIZE then old_top else asp);
              sp = csp;
              ss = chunk2mem sp;
              tnext = chunk_plus_offset sp ssize;
              s = init_top tbase (tsize - TOP_FOOT_SIZE) s;
              s = set_size_and_pinuse_of_inuse_chunk sp ssize s;
              sg = seg_addr m;
              s = set_sflags ss (sflags s sg) (set_seg_next ss (seg_next s sg)
                    (set_seg_size ss (seg_size s sg) (set_seg_base ss (seg_base s sg) s)));
              s = set_seg_base sg tbase s;
              s = set_seg_size sg tsize s;
              s = set_sflags sg mmapped s;
              s = set_seg_next sg ss s
          in do {
            s \<leftarrow> insert_fenceposts old_end tnext s;
            if csp \<noteq> old_top then
              let q = old_top;
                  psize = csp - old_top;
                  tn = chunk_plus_offset q psize
              in insert_chunk m q psize (set_free_with_pinuse q psize tn s)
            else Some s
          }
      })"

subsection \<open>sys_alloc\<close>

text \<open>
  The contiguous path. The first call, or recovery, extends from the current break: the
  result is the address \<open>br\<close> that \<open>sbrk\<close> gave, the size asked for, and \<open>tbase\<close>, \<open>tsize\<close>.
\<close>

definition sbrk_first ::
  "'w env \<Rightarrow> u64 \<Rightarrow> u64 \<Rightarrow> 'w heap \<Rightarrow> u64 \<times> u64 \<times> u64 \<times> u64 \<times> 'w heap" where
  "sbrk_first E nb asize s =
     (let (base, s) = CALL_MORECORE E 0 s in
      if base \<noteq> CMFAIL then
        let ssize = (if \<not> is_page_aligned s base then asize + (page_align s base - base) else asize);
            fp = footprint s + ssize in
        if ssize > nb \<and> ssize < HALF_MAX_SIZE_T \<and>
           (footprint_limit s = 0 \<or> (fp > footprint s \<and> fp \<le> footprint_limit s))
        then
          let (br, s) = CALL_MORECORE E ssize s in
          if br = base then (br, ssize, base, ssize, s) else (br, ssize, CMFAIL, 0, s)
        else (CMFAIL, ssize, CMFAIL, 0, s)
      else (CMFAIL, asize, CMFAIL, 0, s))"

definition sbrk_extend ::
  "'w env \<Rightarrow> u64 \<Rightarrow> u64 \<Rightarrow> 'w heap \<Rightarrow> u64 \<times> u64 \<times> u64 \<times> u64 \<times> 'w heap" where
  "sbrk_extend E nb ss s =
     (let ssize = granularity_align s (nb - topsize s + SYS_ALLOC_PADDING) in
      if ssize < HALF_MAX_SIZE_T then
        let (br, s) = CALL_MORECORE E ssize s in
        if br = seg_base s ss + seg_size s ss then (br, ssize, br, ssize, s)
        else (br, ssize, CMFAIL, 0, s)
      else (CMFAIL, ssize, CMFAIL, 0, s))"

text \<open>Coping with partial failure: use, extend or release the space that came.\<close>

definition sbrk_partial ::
  "'w env \<Rightarrow> u64 \<Rightarrow> u64 \<Rightarrow> u64 \<Rightarrow> 'w heap \<Rightarrow> u64 \<times> u64 \<times> 'w heap" where
  "sbrk_partial E nb br ssize s =
     (let (br, ssize, s) =
        (if br \<noteq> CMFAIL \<and> ssize < HALF_MAX_SIZE_T \<and> ssize < nb + SYS_ALLOC_PADDING then
           let esize = granularity_align s (nb + SYS_ALLOC_PADDING - ssize) in
           if esize < HALF_MAX_SIZE_T then
             let (brk_end, s) = CALL_MORECORE E esize s in
             if brk_end \<noteq> CMFAIL then (br, ssize + esize, s)
             else let (_, s) = CALL_MORECORE E (- ssize) s in (CMFAIL, ssize, s)
           else (br, ssize, s)
         else (br, ssize, s))
      in if br \<noteq> CMFAIL then (br, ssize, s) else (CMFAIL, 0, disable_contiguous s))"

definition sys_alloc_contiguous ::
  "u64 \<Rightarrow> 'w env \<Rightarrow> u64 \<Rightarrow> u64 \<Rightarrow> 'w heap \<Rightarrow> (u64 \<times> u64 \<times> 'w heap) option" where
  "sys_alloc_contiguous m E nb asize s =
     do {
       ss \<leftarrow> (if topc s = 0 then Some 0 else segment_holding m s (topc s));
       let (br, ssize, tbase, tsize, s) =
         (if ss = 0 then sbrk_first E nb asize s else sbrk_extend E nb ss s);
       Some (if tbase = CMFAIL then sbrk_partial E nb br ssize s else (tbase, tsize, s))
     }"

definition sys_alloc_noncontiguous ::
  "'w env \<Rightarrow> u64 \<Rightarrow> u64 \<Rightarrow> 'w heap \<Rightarrow> u64 \<times> u64 \<times> 'w heap" where
  "sys_alloc_noncontiguous E nb asize s =
     (if asize < HALF_MAX_SIZE_T then
        let (br, s) = CALL_MORECORE E asize s;
            (brk_end, s) = CALL_MORECORE E 0 s in
        if br \<noteq> CMFAIL \<and> brk_end \<noteq> CMFAIL \<and> br < brk_end then
          let ssize = brk_end - br in
          if ssize > nb + TOP_FOOT_SIZE then (br, ssize, s) else (CMFAIL, 0, s)
        else (CMFAIL, 0, s)
      else (CMFAIL, 0, s))"

text \<open>The three ways of getting memory, in order.\<close>

definition sys_alloc_obtain ::
  "u64 \<Rightarrow> 'w env \<Rightarrow> u64 \<Rightarrow> u64 \<Rightarrow> 'w heap \<Rightarrow> (u64 \<times> u64 \<times> u32 \<times> 'w heap) option" where
  "sys_alloc_obtain m E nb asize s =
     do {
       (tbase, tsize, s) \<leftarrow>
         (if MORECORE_CONTIGUOUS \<and> \<not> use_noncontiguous s
          then sys_alloc_contiguous m E nb asize s else Some (CMFAIL, 0, s));
       let (tbase, tsize, flag) =
         (if HAVE_MMAP \<and> tbase = CMFAIL \<and> CALL_MMAP asize \<noteq> CMFAIL
          then (CALL_MMAP asize, asize, USE_MMAP_BIT) else (tbase, tsize, 0));
       let (tbase, tsize, s) =
         (if HAVE_MORECORE \<and> tbase = CMFAIL then sys_alloc_noncontiguous E nb asize s
          else (tbase, tsize, s));
       Some (tbase, tsize, flag, s)
     }"

text \<open>The searches for a segment that ends, or that begins, at an address.\<close>

partial_function (option) segment_ending_at :: "'w heap \<Rightarrow> u64 \<Rightarrow> u64 \<Rightarrow> u64 option" where
  "segment_ending_at s a sp =
     (if sp \<noteq> 0 \<and> a \<noteq> seg_base s sp + seg_size s sp
      then segment_ending_at s a (if NO_SEGMENT_TRAVERSAL then 0 else seg_next s sp)
      else Some sp)"

partial_function (option) segment_beginning_at :: "'w heap \<Rightarrow> u64 \<Rightarrow> u64 \<Rightarrow> u64 option" where
  "segment_beginning_at s a sp =
     (if sp \<noteq> 0 \<and> seg_base s sp \<noteq> a
      then segment_beginning_at s a (if NO_SEGMENT_TRAVERSAL then 0 else seg_next s sp)
      else Some sp)"

text \<open>First-time initialisation with the memory obtained.\<close>

definition sys_alloc_init :: "u64 \<Rightarrow> u64 \<Rightarrow> u64 \<Rightarrow> u32 \<Rightarrow> 'w heap \<Rightarrow> 'w heap" where
  "sys_alloc_init m tbase tsize flag s =
     (let s = (if least_addr s = 0 \<or> tbase < least_addr s then s\<lparr>least_addr := tbase\<rparr> else s);
          sg = seg_addr m;
          s = set_seg_base sg tbase s;
          s = set_seg_size sg tsize s;
          s = set_sflags sg flag s;
          s = s\<lparr>magic := mp_magic s, release_checks := MAX_RELEASE_CHECK_RATE\<rparr>;
          s = init_bins m s
      in init_top tbase (tsize - TOP_FOOT_SIZE) s)"

text \<open>
  Merging with the segments there are: append to one, prepend to one (which allocates and
  returns), or add a new one. The first component is the result of an early return.
\<close>

definition sys_alloc_merge ::
  "u64 \<Rightarrow> u64 \<Rightarrow> u64 \<Rightarrow> u32 \<Rightarrow> u64 \<Rightarrow> 'w heap \<Rightarrow> (u64 option \<times> 'w heap) option" where
  "sys_alloc_merge m tbase tsize flag nb s =
     do {
       sp \<leftarrow> segment_ending_at s tbase (seg_addr m);
       if sp \<noteq> 0 \<and> \<not> is_extern_segment s sp \<and> sflags s sp AND USE_MMAP_BIT = flag \<and>
          segment_holds s sp (topc s)
       then
         let s = set_seg_size sp (seg_size s sp + tsize) s
         in Some (None, init_top (topc s) (topsize s + tsize) s)
       else
         let s = (if tbase < least_addr s then s\<lparr>least_addr := tbase\<rparr> else s) in
         do {
           sp \<leftarrow> segment_beginning_at s (tbase + tsize) (seg_addr m);
           if sp \<noteq> 0 \<and> \<not> is_extern_segment s sp \<and> sflags s sp AND USE_MMAP_BIT = flag
           then
             let oldbase = seg_base s sp;
                 s = set_seg_base sp tbase s;
                 s = set_seg_size sp (seg_size s sp + tsize) s
             in do {
               (r, s) \<leftarrow> prepend_alloc m tbase oldbase nb s;
               Some (Some r, s)
             }
           else do {
             s \<leftarrow> add_segment m tbase tsize flag s;
             Some (None, s)
           }
         }
     }"

definition alloc_from_top :: "u64 \<Rightarrow> 'w heap \<Rightarrow> u64 \<times> 'w heap" where
  "alloc_from_top nb s =
     (let rsize = topsize s - nb;
          s = s\<lparr>topsize := rsize\<rparr>;
          p = topc s;
          r = chunk_plus_offset p nb;
          s = s\<lparr>topc := r\<rparr>;
          s = set_head r (rsize OR PINUSE_BIT) s;
          s = set_size_and_pinuse_of_inuse_chunk p nb s
      in (chunk2mem p, s))"

definition MALLOC_FAILURE_ACTION :: "'w heap \<Rightarrow> 'w heap" where
  "MALLOC_FAILURE_ACTION s = s\<lparr>enomem := True\<rparr>"

definition sys_alloc_install ::
  "u64 \<Rightarrow> u64 \<Rightarrow> u64 \<Rightarrow> u32 \<Rightarrow> u64 \<Rightarrow> 'w heap \<Rightarrow> (u64 \<times> 'w heap) option" where
  "sys_alloc_install m tbase tsize flag nb s =
     (if tbase \<noteq> CMFAIL then
        let s = add_footprint tsize s in
        do {
          (early, s) \<leftarrow>
            (if \<not> is_initialized s then Some (None, sys_alloc_init m tbase tsize flag s)
             else sys_alloc_merge m tbase tsize flag nb s);
          case early of
            Some r \<Rightarrow> Some (r, s)
          | None \<Rightarrow>
              if nb < topsize s then Some (alloc_from_top nb s)
              else Some (0, MALLOC_FAILURE_ACTION s)
        }
      else Some (0, MALLOC_FAILURE_ACTION s))"

definition sys_alloc :: "u64 \<Rightarrow> 'w env \<Rightarrow> u64 \<Rightarrow> 'w heap \<Rightarrow> (u64 \<times> 'w heap) option" where
  "sys_alloc m E nb s =
     do {
       s \<leftarrow> ensure_initialization E s;
       let (mm, s) =
         (if use_mmap s \<and> nb \<ge> mmap_threshold s \<and> topsize s \<noteq> 0 then mmap_alloc nb s else (0, s));
       if mm \<noteq> 0 then Some (mm, s)
       else
         let asize = granularity_align s (nb + SYS_ALLOC_PADDING);
             fp = footprint s + asize in
         if asize \<le> nb then Some (0, s)
         else if footprint_limit s \<noteq> 0 \<and> (fp \<le> footprint s \<or> fp > footprint_limit s) then Some (0, s)
         else do {
           (tbase, tsize, flag, s) \<leftarrow> sys_alloc_obtain m E nb asize s;
           sys_alloc_install m tbase tsize flag nb s
         }
     }"

subsection \<open>Giving memory back\<close>

text \<open>
  The loop of \<open>release_unused_segments\<close> over the segments after \<open>pred\<close>: it returns the
  bytes released and the number of segments seen.
\<close>

partial_function (option) release_segments_from ::
  "u64 \<Rightarrow> u64 \<Rightarrow> u64 \<Rightarrow> u64 \<Rightarrow> u64 \<Rightarrow> 'w heap \<Rightarrow> (u64 \<times> u64 \<times> 'w heap) option" where
  "release_segments_from m pred sp released nsegs s =
     (if sp = 0 then Some (released, nsegs, s)
      else
        let base = seg_base s sp; size = seg_size s sp; next = seg_next s sp; nsegs = nsegs + 1 in
        do {
          (sp, released, s) \<leftarrow>
            (let p = align_as_chunk base; psize = chunksize s p in
             if is_mmapped_segment s sp \<and> \<not> is_extern_segment s sp \<and>
                \<not> is_inuse s p \<and> p + psize \<ge> base + size - TOP_FOOT_SIZE
             then do {
               s \<leftarrow> (if p = dv s then Some (s\<lparr>dv := 0, dvsize := 0\<rparr>) else unlink_large_chunk m p s);
               if CALL_MUNMAP base size = 0 then
                 Some (pred, released + size,
                   set_seg_next pred next (s\<lparr>footprint := footprint s - size\<rparr>))
               else do {
                 s \<leftarrow> insert_large_chunk m p psize s;
                 Some (sp, released, s)
               }
             }
             else Some (sp, released, s));
          if NO_SEGMENT_TRAVERSAL then Some (released, nsegs, s)
          else release_segments_from m sp next released nsegs s
        })"

definition release_unused_segments :: "u64 \<Rightarrow> 'w heap \<Rightarrow> (u64 \<times> 'w heap) option" where
  "release_unused_segments m s =
     do {
       (released, nsegs, s) \<leftarrow> release_segments_from m (seg_addr m) (seg_next s (seg_addr m)) 0 0 s;
       Some (released, s\<lparr>release_checks :=
         (if nsegs > MAX_RELEASE_CHECK_RATE then nsegs else MAX_RELEASE_CHECK_RATE)\<rparr>)
     }"

text \<open>How much of the end of the segment \<open>sp\<close> that holds top \<open>sys_trim\<close> can release.\<close>

definition trim_segment :: "u64 \<Rightarrow> 'w env \<Rightarrow> u64 \<Rightarrow> u64 \<Rightarrow> 'w heap \<Rightarrow> (u64 \<times> 'w heap) option" where
  "trim_segment m E sp extra s =
     (if is_extern_segment s sp then Some (0, s)
      else if is_mmapped_segment s sp then
        (if HAVE_MMAP \<and> seg_size s sp \<ge> extra then
           do {
             linked \<leftarrow> has_segment_link m s sp;
             let newsize = seg_size s sp - extra;
             Some (if \<not> linked \<and>
                 (CALL_MREMAP (seg_base s sp) (seg_size s sp) newsize 0 \<noteq> MFAIL \<or>
                  CALL_MUNMAP (seg_base s sp + newsize) extra = 0)
               then (extra, s) else (0, s))
           }
         else Some (0, s))
      else if HAVE_MORECORE then
        let extra = (if extra \<ge> HALF_MAX_SIZE_T then HALF_MAX_SIZE_T + 1 - granularity s else extra);
            (old_br, s) = CALL_MORECORE E 0 s in
        if old_br = seg_base s sp + seg_size s sp then
          let (rel_br, s) = CALL_MORECORE E (- extra) s;
              (new_br, s) = CALL_MORECORE E 0 s
          in Some (if rel_br \<noteq> CMFAIL \<and> new_br < old_br then (old_br - new_br, s) else (0, s))
        else Some (0, s)
      else Some (0, s))"

definition sys_trim :: "u64 \<Rightarrow> 'w env \<Rightarrow> u64 \<Rightarrow> 'w heap \<Rightarrow> (int \<times> 'w heap) option" where
  "sys_trim m E pad s =
     do {
       s \<leftarrow> ensure_initialization E s;
       if pad < MAX_REQUEST \<and> is_initialized s then
         let pad = pad + TOP_FOOT_SIZE in
         do {
           (released, s) \<leftarrow>
             (if topsize s > pad then
                let unit = granularity s;
                    extra = ((topsize s - pad + (unit - 1)) div unit - 1) * unit in
                do {
                  sp \<leftarrow> segment_holding m s (topc s);
                  if sp = 0 then None
                  else do {
                    (released, s) \<leftarrow> trim_segment m E sp extra s;
                    Some (if released \<noteq> 0 then
                        let s = set_seg_size sp (seg_size s sp - released) s;
                            s = s\<lparr>footprint := footprint s - released\<rparr>
                        in (released, init_top (topc s) (topsize s - released) s)
                      else (released, s))
                  }
                }
              else Some (0, s));
           (more, s) \<leftarrow> (if HAVE_MMAP then release_unused_segments m s else Some (0, s));
           let released = released + more;
           let s = (if released = 0 \<and> topsize s > trim_check s then s\<lparr>trim_check := MAX_SIZE_T\<rparr> else s);
           Some (if released \<noteq> 0 then 1 else 0, s)
         }
       else Some (0, s)
     }"

subsection \<open>Consolidating and binning a chunk\<close>

text \<open>Whether a step returns from the function or goes on with a chunk.\<close>

datatype 's flow = Return 's | Go_On u64 u64 's

definition dispose_backward :: "u64 \<Rightarrow> u64 \<Rightarrow> u64 \<Rightarrow> 'w heap \<Rightarrow> 'w heap flow option" where
  "dispose_backward m p psize s =
     (let next = chunk_plus_offset p psize in
      if \<not> pinuse s p then
        let prevsize = prev_foot s p in
        if is_mmapped s p then
          let psize = psize + (prevsize + MMAP_FOOT_PAD) in
          Some (Return (if CALL_MUNMAP (p - prevsize) psize = 0
            then s\<lparr>footprint := footprint s - psize\<rparr> else s))
        else
          let prev = chunk_minus_offset p prevsize;
              psize = psize + prevsize;
              p = prev in
          if ok_address s prev then
            if p \<noteq> dv s then
              do { s \<leftarrow> unlink_chunk m p prevsize s; Some (Go_On p psize s) }
            else if head s next AND INUSE_BITS = INUSE_BITS then
              Some (Return (set_free_with_pinuse p psize next (s\<lparr>dvsize := psize\<rparr>)))
            else Some (Go_On p psize s)
          else None
      else Some (Go_On p psize s))"

definition dispose_forward :: "u64 \<Rightarrow> u64 \<Rightarrow> u64 \<Rightarrow> u64 \<Rightarrow> 'w heap \<Rightarrow> 'w heap option" where
  "dispose_forward m next p psize s =
     (if ok_address s next then
        if \<not> cinuse s next then
          if next = topc s then
            let tsize = topsize s + psize;
                s = s\<lparr>topsize := tsize, topc := p\<rparr>;
                s = set_head p (tsize OR PINUSE_BIT) s
            in Some (if p = dv s then s\<lparr>dv := 0, dvsize := 0\<rparr> else s)
          else if next = dv s then
            let dsize = dvsize s + psize;
                s = s\<lparr>dvsize := dsize, dv := p\<rparr>
            in Some (set_size_and_pinuse_of_free_chunk p dsize s)
          else
            let nsize = chunksize s next;
                psize = psize + nsize in
            do {
              s \<leftarrow> unlink_chunk m next nsize s;
              let s = set_size_and_pinuse_of_free_chunk p psize s;
              if p = dv s then Some (s\<lparr>dvsize := psize\<rparr>) else insert_chunk m p psize s
            }
        else insert_chunk m p psize (set_free_with_pinuse p psize next s)
      else None)"

definition dispose_chunk :: "u64 \<Rightarrow> u64 \<Rightarrow> u64 \<Rightarrow> 'w heap \<Rightarrow> 'w heap option" where
  "dispose_chunk m p psize s =
     (let next = chunk_plus_offset p psize in
      do {
        fl \<leftarrow> dispose_backward m p psize s;
        (case fl of
          Return s \<Rightarrow> Some s
        | Go_On p psize s \<Rightarrow> dispose_forward m next p psize s)
      })"

end
