(* ===== verification/Alloc.thy ===== *)
theory Alloc
  imports SysMem
begin

text \<open>
  Allocation: the best-fit searches of the trees, \<open>tmalloc_large\<close>, \<open>tmalloc_small\<close> and
  \<open>dlmalloc\<close>. A null result is the address 0.
\<close>

subsection \<open>Requests served from the trees\<close>

text \<open>
  The first loop of \<open>tmalloc_large\<close>: down the bits of the request, keeping the best fit
  \<open>v\<close> with remainder \<open>rsize\<close> and the deepest untaken right subtree \<open>rst\<close>. The result is
  \<open>(t, v, rsize)\<close>.
\<close>

partial_function (option) traverse_bits ::
  "'w heap \<Rightarrow> u64 \<Rightarrow> u64 \<Rightarrow> u64 \<Rightarrow> u64 \<Rightarrow> u64 \<Rightarrow> u64 \<Rightarrow> (u64 \<times> u64 \<times> u64) option" where
  "traverse_bits s nb t v rsize sizebits rst =
     (let trem = chunksize s t - nb in
      if trem < rsize \<and> trem = 0 then Some (t, t, 0)
      else
        let (v, rsize) = (if trem < rsize then (t, trem) else (v, rsize));
            rt = child s t 1;
            t = child s t (drop_bit 63 sizebits AND 1);
            rst = (if rt \<noteq> 0 \<and> rt \<noteq> t then rt else rst) in
        if t = 0 then Some (rst, v, rsize)
        else traverse_bits s nb t v rsize (push_bit 1 sizebits) rst)"

text \<open>The second loop: the smallest chunk on the leftmost path below \<open>t\<close>.\<close>

partial_function (option) leftmost_fit ::
  "'w heap \<Rightarrow> u64 \<Rightarrow> u64 \<Rightarrow> u64 \<Rightarrow> u64 \<Rightarrow> (u64 \<times> u64) option" where
  "leftmost_fit s nb t v rsize =
     (if t \<noteq> 0 then
        let trem = chunksize s t - nb;
            (v, rsize) = (if trem < rsize then (t, trem) else (v, rsize))
        in leftmost_fit s nb (leftmost_child s t) v rsize
      else Some (v, rsize))"

text \<open>The search for the best fitting tree chunk \<open>v\<close> (0 if none) and its remainder.\<close>

definition tmalloc_large_fit :: "u64 \<Rightarrow> u64 \<Rightarrow> 'w heap \<Rightarrow> (u64 \<times> u64) option" where
  "tmalloc_large_fit m nb s =
     (let idx = compute_tree_index nb; t = load s (treebin_at m idx) in
      do {
        (t, v, rsize) \<leftarrow>
          (if t \<noteq> 0 then
             traverse_bits s nb t 0 (- nb) (push_bit (unat (leftshift_for_tree_index idx)) nb) 0
           else Some (t, 0, - nb));
        let t =
          (if t = 0 \<and> v = 0 then
             let leftbits = left_bits (idx2bit idx) AND treemap s in
             if leftbits \<noteq> 0 then
               let leastbit = least_bit leftbits; i = compute_bit2idx leastbit
               in load s (treebin_at m i)
             else t
           else t);
        leftmost_fit s nb t v rsize
      })"

definition tmalloc_large :: "u64 \<Rightarrow> u64 \<Rightarrow> 'w heap \<Rightarrow> (u64 \<times> 'w heap) option" where
  "tmalloc_large m nb s =
     do {
       (v, rsize) \<leftarrow> tmalloc_large_fit m nb s;
       if v \<noteq> 0 \<and> rsize < dvsize s - nb then
         let r = chunk_plus_offset v nb in
         if ok_address s v \<and> ok_next v r then
           do {
             s \<leftarrow> unlink_large_chunk m v s;
             if rsize < MIN_CHUNK_SIZE then
               Some (chunk2mem v, set_inuse_and_pinuse v (rsize + nb) s)
             else
               let s = set_size_and_pinuse_of_inuse_chunk v nb s;
                   s = set_size_and_pinuse_of_free_chunk r rsize s
               in do {
                 s \<leftarrow> insert_chunk m r rsize s;
                 Some (chunk2mem v, s)
               }
           }
         else None
       else Some (0, s)
     }"

definition tmalloc_small :: "u64 \<Rightarrow> u64 \<Rightarrow> 'w heap \<Rightarrow> (u64 \<times> 'w heap) option" where
  "tmalloc_small m nb s =
     (let leastbit = least_bit (treemap s);
          i = compute_bit2idx leastbit;
          t = load s (treebin_at m i);
          rsize = chunksize s t - nb in
      do {
        (v, rsize) \<leftarrow> leftmost_fit s nb (leftmost_child s t) t rsize;
        let r = chunk_plus_offset v nb;
        if ok_address s v \<and> ok_next v r then
          do {
            s \<leftarrow> unlink_large_chunk m v s;
            if rsize < MIN_CHUNK_SIZE then
              Some (chunk2mem v, set_inuse_and_pinuse v (rsize + nb) s)
            else
              let s = set_size_and_pinuse_of_inuse_chunk v nb s;
                  s = set_size_and_pinuse_of_free_chunk r rsize s
              in do {
                s \<leftarrow> replace_dv m r rsize s;
                Some (chunk2mem v, s)
              }
          }
        else None
      })"

subsection \<open>dlmalloc\<close>

text \<open>
  The part of \<open>dlmalloc\<close> for small requests that uses the bins: the address, if it found
  a chunk. \<open>nb\<close> is the padded request.
\<close>

definition malloc_small_bins :: "u64 \<Rightarrow> u64 \<Rightarrow> 'w heap \<Rightarrow> (u64 option \<times> 'w heap) option" where
  "malloc_small_bins m nb s =
     (let idx = small_index nb; smallbits = drop_bit (unat idx) (smallmap s) in
      if smallbits AND 3 \<noteq> 0 then
        let idx = idx + (NOT smallbits AND 1);
            b = smallbin_at m idx;
            p = fd s b in
        do {
          s \<leftarrow> unlink_first_small_chunk b p idx s;
          let s = set_inuse_and_pinuse p (ucast (small_index2size idx)) s;
          Some (Some (chunk2mem p), s)
        }
      else if nb > dvsize s then
        if smallbits \<noteq> 0 then
          let leftbits = push_bit (unat idx) smallbits AND left_bits (idx2bit idx);
              leastbit = least_bit leftbits;
              i = compute_bit2idx leastbit;
              b = smallbin_at m i;
              p = fd s b in
          do {
            s \<leftarrow> unlink_first_small_chunk b p i s;
            let rsize = ucast (small_index2size i) - nb;
            if SIZE_T_SIZE \<noteq> 4 \<and> rsize < MIN_CHUNK_SIZE then
              Some (Some (chunk2mem p), set_inuse_and_pinuse p (ucast (small_index2size i)) s)
            else
              let s = set_size_and_pinuse_of_inuse_chunk p nb s;
                  r = chunk_plus_offset p nb;
                  s = set_size_and_pinuse_of_free_chunk r rsize s
              in do {
                s \<leftarrow> replace_dv m r rsize s;
                Some (Some (chunk2mem p), s)
              }
          }
        else if treemap s \<noteq> 0 then
          do {
            (mm, s) \<leftarrow> tmalloc_small m nb s;
            Some (if mm \<noteq> 0 then Some mm else None, s)
          }
        else Some (None, s)
      else Some (None, s))"

definition malloc_large_bins :: "u64 \<Rightarrow> u64 \<Rightarrow> 'w heap \<Rightarrow> (u64 option \<times> 'w heap) option" where
  "malloc_large_bins m nb s =
     (if treemap s \<noteq> 0 then
        do {
          (mm, s) \<leftarrow> tmalloc_large m nb s;
          Some (if mm \<noteq> 0 then Some mm else None, s)
        }
      else Some (None, s))"

text \<open>The padded size and the search of the bins, by the class of the request.\<close>

definition malloc_from_bins ::
  "u64 \<Rightarrow> u64 \<Rightarrow> 'w heap \<Rightarrow> (u64 \<times> u64 option \<times> 'w heap) option" where
  "malloc_from_bins m bytes s =
     (if bytes \<le> MAX_SMALL_REQUEST then
        let nb = (if bytes < MIN_REQUEST then MIN_CHUNK_SIZE else pad_request bytes) in
        do { (found, s) \<leftarrow> malloc_small_bins m nb s; Some (nb, found, s) }
      else if bytes \<ge> MAX_REQUEST then Some (MAX_SIZE_T, None, s)
      else
        let nb = pad_request bytes in
        do { (found, s) \<leftarrow> malloc_large_bins m nb s; Some (nb, found, s) })"

definition malloc_from_dv :: "u64 \<Rightarrow> 'w heap \<Rightarrow> u64 \<times> 'w heap" where
  "malloc_from_dv nb s =
     (let rsize = dvsize s - nb; p = dv s in
      if rsize \<ge> MIN_CHUNK_SIZE then
        let r = chunk_plus_offset p nb;
            s = s\<lparr>dv := r, dvsize := rsize\<rparr>;
            s = set_size_and_pinuse_of_free_chunk r rsize s;
            s = set_size_and_pinuse_of_inuse_chunk p nb s
        in (chunk2mem p, s)
      else
        let dvs = dvsize s;
            s = s\<lparr>dvsize := 0, dv := 0\<rparr>
        in (chunk2mem p, set_inuse_and_pinuse p dvs s))"

definition malloc_from_top :: "u64 \<Rightarrow> 'w heap \<Rightarrow> u64 \<times> 'w heap" where
  "malloc_from_top nb s =
     (let rsize = topsize s - nb;
          p = topc s;
          r = chunk_plus_offset p nb;
          s = s\<lparr>topsize := rsize, topc := r\<rparr>;
          s = set_head r (rsize OR PINUSE_BIT) s;
          s = set_size_and_pinuse_of_inuse_chunk p nb s
      in (chunk2mem p, s))"

definition dlmalloc :: "u64 \<Rightarrow> 'w env \<Rightarrow> u64 \<Rightarrow> 'w heap \<Rightarrow> (u64 \<times> 'w heap) option" where
  "dlmalloc m E bytes s =
     do {
       (nb, found, s) \<leftarrow> malloc_from_bins m bytes s;
       (case found of
         Some mm \<Rightarrow> Some (mm, s)
       | None \<Rightarrow>
           if nb \<le> dvsize s then Some (malloc_from_dv nb s)
           else if nb < topsize s then Some (malloc_from_top nb s)
           else sys_alloc m E nb s)
     }"

subsection \<open>A concrete space\<close>

text \<open>A space whose only free memory is its top chunk.\<close>

definition top_heap :: "u64 \<Rightarrow> u64 \<Rightarrow> unit heap" where
  "top_heap p z = \<lparr>mp_magic = 8, page_size = 4096, granularity = 4096, mmap_threshold = MAX_SIZE_T,
     trim_threshold = DEFAULT_TRIM_THRESHOLD, default_mflags = 0, smallmap = 0, treemap = 0,
     dvsize = 0, topsize = z, least_addr = p, dv = 0, topc = p, trim_check = DEFAULT_TRIM_THRESHOLD,
     release_checks = MAX_RELEASE_CHECK_RATE, magic = 8, footprint = z, max_footprint = z,
     footprint_limit = 0, mflags = 0, extp = 0, exts = 0,
     mem = (\<lambda>_. 0)(p + 8 := z OR PINUSE_BIT), enomem = False, os = ()\<rparr>"

definition no_env :: "unit env" where
  "no_env = \<lparr>sbrk = (\<lambda>_ w. (MFAIL, w)), getpagesize = 4096, time_now = 0\<rparr>"

lemmas run_chunk_defs = chunk2mem_def mem2chunk_def chunk_plus_offset_def chunk_minus_offset_def
  chunksize_def is_mmapped_def pinuse_def cinuse_def is_inuse_def set_inuse_def
  set_inuse_and_pinuse_def set_size_and_pinuse_of_inuse_chunk_def
  set_size_and_pinuse_of_free_chunk_def set_free_with_pinuse_def set_foot_def clear_pinuse_def
  ok_address_def ok_next_def ok_inuse_def ok_pinuse_def

end
