(* ===== verification/Free.thy ===== *)
theory Free
  imports Alloc
begin

text \<open>
  \<open>dlfree\<close> and \<open>dlcalloc\<close>. Clearing and copying of user memory works on 8-byte cells in
  little-endian order, a last partial cell included.
\<close>

subsection \<open>dlfree\<close>

definition free_backward :: "u64 \<Rightarrow> u64 \<Rightarrow> u64 \<Rightarrow> u64 \<Rightarrow> 'w heap \<Rightarrow> 'w heap flow option" where
  "free_backward m p psize next s =
     (if \<not> pinuse s p then
        let prevsize = prev_foot s p in
        if is_mmapped s p then
          let psize = psize + (prevsize + MMAP_FOOT_PAD) in
          Some (Return (if CALL_MUNMAP (p - prevsize) psize = 0
            then s\<lparr>footprint := footprint s - psize\<rparr> else s))
        else
          let prev = chunk_minus_offset p prevsize;
              psize = psize + prevsize;
              p = prev in
          if ok_address s prev then
            if p \<noteq> dv s then
              do { s \<leftarrow> unlink_chunk m p prevsize s; Some (Go_On p psize s) }
            else if head s next AND INUSE_BITS = INUSE_BITS then
              Some (Return (set_free_with_pinuse p psize next (s\<lparr>dvsize := psize\<rparr>)))
            else Some (Go_On p psize s)
          else None
      else Some (Go_On p psize s))"

text \<open>Binning the consolidated chunk, with the periodic release of segments.\<close>

definition free_bin :: "u64 \<Rightarrow> u64 \<Rightarrow> u64 \<Rightarrow> 'w heap \<Rightarrow> 'w heap option" where
  "free_bin m p psize s =
     (if is_small psize then insert_small_chunk m p psize s
      else do {
        s \<leftarrow> insert_large_chunk m p psize s;
        let s = s\<lparr>release_checks := release_checks s - 1\<rparr>;
        if release_checks s = 0 then do { (_, s) \<leftarrow> release_unused_segments m s; Some s }
        else Some s
      })"

definition free_forward ::
  "u64 \<Rightarrow> 'w env \<Rightarrow> u64 \<Rightarrow> u64 \<Rightarrow> u64 \<Rightarrow> 'w heap \<Rightarrow> 'w heap option" where
  "free_forward m E next p psize s =
     (if ok_next p next \<and> ok_pinuse s next then
        if \<not> cinuse s next then
          if next = topc s then
            let tsize = topsize s + psize;
                s = s\<lparr>topsize := tsize, topc := p\<rparr>;
                s = set_head p (tsize OR PINUSE_BIT) s;
                s = (if p = dv s then s\<lparr>dv := 0, dvsize := 0\<rparr> else s)
            in if should_trim s tsize then do { (_, s) \<leftarrow> sys_trim m E 0 s; Some s } else Some s
          else if next = dv s then
            let dsize = dvsize s + psize;
                s = s\<lparr>dvsize := dsize, dv := p\<rparr>
            in Some (set_size_and_pinuse_of_free_chunk p dsize s)
          else
            let nsize = chunksize s next;
                psize = psize + nsize in
            do {
              s \<leftarrow> unlink_chunk m next nsize s;
              let s = set_size_and_pinuse_of_free_chunk p psize s;
              if p = dv s then Some (s\<lparr>dvsize := psize\<rparr>) else free_bin m p psize s
            }
        else free_bin m p psize (set_free_with_pinuse p psize next s)
      else None)"

definition dlfree :: "u64 \<Rightarrow> 'w env \<Rightarrow> u64 \<Rightarrow> 'w heap \<Rightarrow> 'w heap option" where
  "dlfree m E mm s =
     (if mm \<noteq> 0 then
        let p = mem2chunk mm in
        if ok_address s p \<and> ok_inuse s p then
          let psize = chunksize s p;
              next = chunk_plus_offset p psize in
          do {
            fl \<leftarrow> free_backward m p psize next s;
            (case fl of
              Return s \<Rightarrow> Some s
            | Go_On p psize s \<Rightarrow> free_forward m E next p psize s)
          }
        else None
      else Some s)"

subsection \<open>memset and memcpy on cells\<close>

text \<open>Bytes below \<open>n\<close> of the cell \<open>v\<close>, the rest from \<open>old\<close>.\<close>

definition blend_cell :: "nat \<Rightarrow> u64 \<Rightarrow> u64 \<Rightarrow> u64" where
  "blend_cell n v old = (v AND mask (8 * n)) OR (old AND NOT (mask (8 * n)))"

definition memset_zero :: "u64 \<Rightarrow> u64 \<Rightarrow> 'w heap \<Rightarrow> 'w heap" where
  "memset_zero a n s =
     s\<lparr>mem := (\<lambda>x. let d = unat (x - a) in
       if d < unat n \<and> d mod 8 = 0 then blend_cell (min 8 (unat n - d)) 0 (mem s x) else mem s x)\<rparr>"

definition memcpy :: "u64 \<Rightarrow> u64 \<Rightarrow> u64 \<Rightarrow> 'w heap \<Rightarrow> 'w heap" where
  "memcpy dst src n s =
     s\<lparr>mem := (\<lambda>x. let d = unat (x - dst) in
       if d < unat n \<and> d mod 8 = 0
       then blend_cell (min 8 (unat n - d)) (mem s (src + (x - dst))) (mem s x)
       else mem s x)\<rparr>"

subsection \<open>dlcalloc\<close>

definition calloc_request :: "u64 \<Rightarrow> u64 \<Rightarrow> u64" where
  "calloc_request n_elements elem_size =
     (if n_elements \<noteq> 0 then
        let req = n_elements * elem_size in
        if (n_elements OR elem_size) AND NOT 0xffff \<noteq> 0 \<and> req div n_elements \<noteq> elem_size
        then MAX_SIZE_T else req
      else 0)"

definition dlcalloc :: "u64 \<Rightarrow> 'w env \<Rightarrow> u64 \<Rightarrow> u64 \<Rightarrow> 'w heap \<Rightarrow> (u64 \<times> 'w heap) option" where
  "dlcalloc m E n_elements elem_size s =
     (let req = calloc_request n_elements elem_size in
      do {
        (mm, s) \<leftarrow> dlmalloc m E req s;
        Some (mm, if mm \<noteq> 0 \<and> calloc_must_clear s (mem2chunk mm) then memset_zero mm req s else s)
      })"

subsection \<open>The request of calloc\<close>

lemma drop_bit_zero_below: "(x :: u64) AND NOT 0xffff = 0 \<longleftrightarrow> unat x < 2 ^ 16"
proof -
  have "(0xffff :: u64) = mask 16" by (simp add: mask_eq_exp_minus_1)
  then have "x AND NOT 0xffff = 0 \<longleftrightarrow> unat (x AND NOT (mask 16)) = 0" by (metis unat_eq_zero)
  also have "\<dots> \<longleftrightarrow> unat x div 2 ^ 16 = 0" by (simp add: unat_and_not_mask)
  also have "\<dots> \<longleftrightarrow> unat x < 2 ^ 16" by (simp add: div_eq_0_iff)
  finally show ?thesis .
qed

lemma product_fits_iff:
  fixes n e :: u64
  assumes "n \<noteq> 0"
  shows "n * e div n = e \<longleftrightarrow> unat n * unat e < 2 ^ 64"
proof
  assume "n * e div n = e"
  then have "unat (n * e) div unat n = unat e" by (metis unat_div)
  then have "unat e * unat n \<le> unat (n * e)" by (metis div_times_less_eq_dividend)
  moreover have "unat (n * e) < 2 ^ 64" using unat_less_exp [of "n * e"] by simp
  ultimately show "unat n * unat e < 2 ^ 64" by (simp add: mult.commute)
next
  assume "unat n * unat e < 2 ^ 64"
  then have "unat (n * e) = unat n * unat e" by (simp add: unat_word_ariths(2))
  moreover have "0 < unat n" using assms by (simp add: unat_gt_0)
  ultimately have "unat (n * e div n) = unat e" by (simp add: unat_div)
  then show "n * e div n = e" by (simp add: word_unat_eq_iff)
qed

lemma calloc_request_value:
  "unat (calloc_request n e) =
    (if unat n * unat e < 2 ^ 64 then unat n * unat e else unat MAX_SIZE_T)"
proof (cases "n = 0")
  case False
  have "unat n * unat e < 2 ^ 64" if "(n OR e) AND NOT 0xffff = 0"
  proof -
    have "n AND NOT 0xffff = 0" "e AND NOT 0xffff = 0"
      using that by (simp_all add: bit_eq_iff bit_simps) blast+
    then have "unat n < 2 ^ 16" "unat e < 2 ^ 16" by (simp_all only: drop_bit_zero_below)
    then have "unat n * unat e < 2 ^ 16 * 2 ^ 16" by (intro mult_strict_mono) simp_all
    then show ?thesis by simp
  qed
  then have "calloc_request n e = (if unat n * unat e < 2 ^ 64 then n * e else MAX_SIZE_T)"
    using False product_fits_iff [OF False, of e] by (auto simp: calloc_request_def Let_def)
  then show ?thesis by (simp add: unat_word_ariths(2))
qed (simp add: calloc_request_def)

lemma dlmalloc_oversize:
  assumes "MAX_REQUEST \<le> bytes" "dvsize s \<noteq> MAX_SIZE_T"
  shows "dlmalloc m E bytes s = map_option (Pair 0) (ensure_initialization E s)"
proof -
  have top: "x \<le> MAX_SIZE_T" for x by (simp add: MAX_SIZE_T_def)
  have "\<not> bytes \<le> MAX_SMALL_REQUEST" using assms(1) by (simp add: max_consts word_le_nat_alt)
  then have "malloc_from_bins m bytes s = Some (MAX_SIZE_T, None, s)"
    using assms(1) by (simp add: malloc_from_bins_def)
  moreover have "\<not> MAX_SIZE_T \<le> dvsize s" "\<not> MAX_SIZE_T < topsize s"
    using top assms(2) by (auto simp: antisym not_less)
  moreover have "sys_alloc m E MAX_SIZE_T s = map_option (Pair 0) (ensure_initialization E s)"
    using top by (cases "ensure_initialization E s")
      (simp_all add: sys_alloc_def use_mmap_def USE_MMAP_BIT_def Let_def)
  ultimately show ?thesis by (simp add: dlmalloc_def)
qed

text \<open>
  Property C30. \<open>dlcalloc\<close> on a product that is too large, also one that overflows a
  \<open>size_t\<close>, returns null whatever the bins hold (the size of the designated victim is not the
  largest \<open>size_t\<close>). The first call of the program initialises the parameters, any other changes
  nothing. In particular \<open>errno\<close> is not set: an oversized request returns from \<open>sys_alloc\<close>
  before the failure action.
\<close>

theorem calloc_overflow:
  assumes "unat MAX_REQUEST \<le> unat n * unat e" "dvsize s \<noteq> MAX_SIZE_T"
  shows "dlcalloc m E n e s = (if mp_magic s = 0 then map_option (Pair 0) (init_mparams E s) else Some (0, s))"
proof -
  have "MAX_REQUEST \<le> calloc_request n e"
    using assms(1) unfolding word_le_nat_alt calloc_request_value by (simp add: max_consts)
  from dlmalloc_oversize [OF this assms(2), of m E] show ?thesis
    by (cases "init_mparams E s") (simp_all add: dlcalloc_def ensure_initialization_def)
qed

theorem calloc_overflow_witness:
  "dlcalloc 0x1000 no_env 0x100000000 0x100000001 (top_heap 0x10000 0x8000) =
    Some (0, top_heap 0x10000 0x8000)"
  using calloc_overflow [where n = "0x100000000" and e = "0x100000001" and s = "top_heap 0x10000 0x8000" and m = "0x1000" and E = no_env]
  by (simp add: top_heap_def max_consts)

end
