(* ===== verification/Realloc.thy ===== *)
theory Realloc
  imports Free
begin

text \<open>
  \<open>try_realloc_chunk\<close>, which resizes a chunk in place, and \<open>internal_memalign\<close>, which
  allocates a chunk at an aligned address.
\<close>

subsection \<open>Resizing a chunk in place\<close>

text \<open>Both places where a remainder \<open>r\<close> of a chunk is split off and disposed of.\<close>

definition split_off :: "u64 \<Rightarrow> u64 \<Rightarrow> u64 \<Rightarrow> u64 \<Rightarrow> 'w heap \<Rightarrow> 'w heap option" where
  "split_off m p nb rsize s =
     (let r = chunk_plus_offset p nb;
          s = set_inuse p nb s;
          s = set_inuse r rsize s
      in dispose_chunk m r rsize s)"

definition realloc_into_top :: "u64 \<Rightarrow> u64 \<Rightarrow> u64 \<Rightarrow> 'w heap \<Rightarrow> u64 \<times> 'w heap" where
  "realloc_into_top p oldsize nb s =
     (if oldsize + topsize s > nb then
        let newsize = oldsize + topsize s;
            newtopsize = newsize - nb;
            newtop = chunk_plus_offset p nb;
            s = set_inuse p nb s;
            s = set_head newtop (newtopsize OR PINUSE_BIT) s
        in (p, s\<lparr>topc := newtop, topsize := newtopsize\<rparr>)
      else (0, s))"

definition realloc_into_dv :: "u64 \<Rightarrow> u64 \<Rightarrow> u64 \<Rightarrow> 'w heap \<Rightarrow> u64 \<times> 'w heap" where
  "realloc_into_dv p oldsize nb s =
     (let dvs = dvsize s in
      if oldsize + dvs \<ge> nb then
        let dsize = oldsize + dvs - nb in
        if dsize \<ge> MIN_CHUNK_SIZE then
          let r = chunk_plus_offset p nb;
              n = chunk_plus_offset r dsize;
              s = set_inuse p nb s;
              s = set_size_and_pinuse_of_free_chunk r dsize s;
              s = clear_pinuse n s
          in (p, s\<lparr>dvsize := dsize, dv := r\<rparr>)
        else
          let newsize = oldsize + dvs;
              s = set_inuse p newsize s
          in (p, s\<lparr>dvsize := 0, dv := 0\<rparr>)
      else (0, s))"

definition realloc_into_next ::
  "u64 \<Rightarrow> u64 \<Rightarrow> u64 \<Rightarrow> u64 \<Rightarrow> u64 \<Rightarrow> 'w heap \<Rightarrow> (u64 \<times> 'w heap) option" where
  "realloc_into_next m p next oldsize nb s =
     (let nextsize = chunksize s next in
      if oldsize + nextsize \<ge> nb then
        let rsize = oldsize + nextsize - nb in
        do {
          s \<leftarrow> unlink_chunk m next nextsize s;
          s \<leftarrow> (if rsize < MIN_CHUNK_SIZE then
                 let newsize = oldsize + nextsize in Some (set_inuse p newsize s)
               else split_off m p nb rsize s);
          Some (p, s)
        }
      else Some (0, s))"

definition try_realloc_chunk ::
  "u64 \<Rightarrow> u64 \<Rightarrow> u64 \<Rightarrow> int \<Rightarrow> 'w heap \<Rightarrow> (u64 \<times> 'w heap) option" where
  "try_realloc_chunk m p nb can_move s =
     (let oldsize = chunksize s p;
          next = chunk_plus_offset p oldsize in
      if ok_address s p \<and> ok_inuse s p \<and> ok_next p next \<and> ok_pinuse s next then
        if is_mmapped s p then Some (mmap_resize p nb can_move s)
        else if oldsize \<ge> nb then
          let rsize = oldsize - nb in
          if rsize \<ge> MIN_CHUNK_SIZE then
            do { s \<leftarrow> split_off m p nb rsize s; Some (p, s) }
          else Some (p, s)
        else if next = topc s then Some (realloc_into_top p oldsize nb s)
        else if next = dv s then Some (realloc_into_dv p oldsize nb s)
        else if \<not> cinuse s next then realloc_into_next m p next oldsize nb s
        else Some (0, s)
      else None)"

subsection \<open>Aligned allocation\<close>

text \<open>The alignment made a power of two of at least the minimum chunk size.\<close>

partial_function (option) double_until :: "u64 \<Rightarrow> u64 \<Rightarrow> u64 option" where
  "double_until a alignment =
     (if a < alignment then double_until (push_bit 1 a) alignment else Some a)"

definition memalign_alignment :: "u64 \<Rightarrow> u64 option" where
  "memalign_alignment alignment =
     (let alignment = (if alignment < MIN_CHUNK_SIZE then MIN_CHUNK_SIZE else alignment) in
      if alignment AND (alignment - 1) \<noteq> 0 then double_until (push_bit 1 MALLOC_ALIGNMENT) alignment
      else Some alignment)"

text \<open>The aligned spot inside the chunk \<open>p\<close>: a leader, if any, is a chunk of its own.\<close>

definition memalign_pos :: "u64 \<Rightarrow> u64 \<Rightarrow> u64" where
  "memalign_pos alignment p =
     (let mm = chunk2mem p;
          br = mem2chunk ((mm + alignment - 1) AND - alignment)
      in if br - p \<ge> MIN_CHUNK_SIZE then br else br + alignment)"

definition memalign_leader :: "u64 \<Rightarrow> u64 \<Rightarrow> u64 \<Rightarrow> 'w heap \<Rightarrow> (u64 \<times> 'w heap) option" where
  "memalign_leader m alignment p s =
     (if chunk2mem p AND (alignment - 1) \<noteq> 0 then
        let newp = memalign_pos alignment p;
            leadsize = newp - p;
            newsize = chunksize s p - leadsize in
        if is_mmapped s p then
          Some (newp, set_head newp newsize (set_prev_foot newp (prev_foot s p + leadsize) s))
        else
          let s = set_inuse newp newsize s;
              s = set_inuse p leadsize s
          in do { s \<leftarrow> dispose_chunk m p leadsize s; Some (newp, s) }
      else Some (p, s))"

definition memalign_trailer :: "u64 \<Rightarrow> u64 \<Rightarrow> u64 \<Rightarrow> 'w heap \<Rightarrow> 'w heap option" where
  "memalign_trailer m p nb s =
     (if \<not> is_mmapped s p then
        let size = chunksize s p in
        if size > nb + MIN_CHUNK_SIZE then
          let remainder_size = size - nb;
              remainder = chunk_plus_offset p nb;
              s = set_inuse p nb s;
              s = set_inuse remainder remainder_size s
          in dispose_chunk m remainder remainder_size s
        else Some s
      else Some s)"

definition internal_memalign ::
  "u64 \<Rightarrow> 'w env \<Rightarrow> u64 \<Rightarrow> u64 \<Rightarrow> 'w heap \<Rightarrow> (u64 \<times> 'w heap) option" where
  "internal_memalign m E alignment bytes s =
     do {
       alignment \<leftarrow> memalign_alignment alignment;
       if bytes \<ge> MAX_REQUEST - alignment then Some (0, MALLOC_FAILURE_ACTION s)
       else
         let nb = request2size bytes;
             req = nb + alignment + MIN_CHUNK_SIZE - CHUNK_OVERHEAD in
         do {
           (mm, s) \<leftarrow> dlmalloc m E req s;
           if mm \<noteq> 0 then
             do {
               (p, s) \<leftarrow> memalign_leader m alignment (mem2chunk mm) s;
               s \<leftarrow> memalign_trailer m p nb s;
               Some (chunk2mem p, s)
             }
           else Some (0, s)
         }
     }"

subsection \<open>The alignment\<close>


lemma unat_double: "k < 63 \<Longrightarrow> push_bit 1 (2 ^ k :: u64) = 2 ^ Suc k"
  by (simp add: push_bit_eq_mult)

lemma double_until_result:
  assumes "k \<le> 63" "unat al \<le> 2 ^ 63"
  shows "\<exists>j \<ge> k. j \<le> 63 \<and> double_until (2 ^ k) al = Some (2 ^ j) \<and> unat al \<le> 2 ^ j \<and>
    (j = k \<or> 2 ^ j < 2 * unat al)"
  using assms(1)
proof (induction "63 - k" arbitrary: k)
  case 0
  then have "k = 63" by simp
  with assms(2) show ?case
    by (intro exI [of _ k]) (simp add: double_until.simps word_less_nat_alt)
next
  case (Suc d)
  then have k: "k < 63" by simp
  have u: "unat (2 ^ k :: u64) = 2 ^ k" using k by (simp add: unat_exp)
  show ?case
  proof (cases "unat al \<le> 2 ^ k")
    case True
    with k u show ?thesis
      by (intro exI [of _ k]) (simp add: double_until.simps [of "2 ^ k"] word_less_nat_alt)
  next
    case False
    have step: "double_until (2 ^ k) al = double_until (2 ^ Suc k) al"
      using False u unat_double [OF k]
      by (simp add: double_until.simps [of "2 ^ k"] word_less_nat_alt mult.commute)
    have "d = 63 - Suc k" "Suc k \<le> 63" using Suc(2) k by simp_all
    from Suc(1) [OF this] obtain j where j: "Suc k \<le> j" "j \<le> 63"
      "double_until (2 ^ Suc k) al = Some (2 ^ j)" "unat al \<le> 2 ^ j" "j = Suc k \<or> 2 ^ j < 2 * unat al"
      by blast
    with False step show ?thesis by (intro exI [of _ j]) auto
  qed
qed

lemma push_bit_high: "push_bit 1 (a :: u64) = 0 \<or> push_bit 1 a \<in> range (\<lambda>k. 2 ^ k)" if "a = 0 \<or> a \<in> range (\<lambda>k. 2 ^ k)"
proof (cases "a = 0")
  case False
  with that obtain k where "a = 2 ^ k" by blast
  then have "push_bit 1 a = 2 ^ Suc k" by (simp add: push_bit_eq_mult)
  then show ?thesis by blast
qed simp

lemma double_until_endless:
  assumes "double_until a al = Some y" "a = 0 \<or> a \<in> range (\<lambda>k. 2 ^ k)"
  shows "unat al \<le> 2 ^ 63"
  using assms
proof (induction rule: double_until.raw_induct [rotated, consumes 1])
  case (1 du a al y)
  show ?case
  proof (cases "a < al")
    case True
    then show ?thesis using "1"(1) [of "push_bit 1 a" al y] "1"(2,3) push_bit_high [of a] by simp
  next
    case False
    have "unat a \<le> 2 ^ 63"
    proof (cases "a = 0")
      case F: False
      then obtain k where k: "a = 2 ^ k" using "1"(3) by auto
      have "k < 64" using F by (rule_tac ccontr) (simp add: k)
      then have "unat a = 2 ^ k" by (simp add: k unat_exp)
      moreover have "(2::nat) ^ k \<le> 2 ^ 63" using \<open>k < 64\<close> by (intro power_increasing) simp_all
      ultimately show ?thesis by simp
    qed simp
    then show ?thesis using False by (simp add: word_less_nat_alt)
  qed
qed

lemma memalign_alignment_spec:
  "if unat al \<le> 2 ^ 63
   then \<exists>j \<le> 63. memalign_alignment al = Some (2 ^ j) \<and> unat al \<le> 2 ^ j \<and>
     unat MIN_CHUNK_SIZE \<le> 2 ^ j \<and> 2 ^ j < 2 * max (unat al) (unat MIN_CHUNK_SIZE)
   else memalign_alignment al = None"
proof -
  define b where "b = (if al < MIN_CHUNK_SIZE then MIN_CHUNK_SIZE else al)"
  have b: "unat b = max (unat al) 32" by (simp add: b_def word_less_nat_alt max_def)
  have ma: "memalign_alignment al = (if b AND (b - 1) \<noteq> 0 then double_until (2 ^ 5) b else Some b)"
    by (simp add: memalign_alignment_def b_def push_bit_eq_mult Let_def)
  have p: "b AND (b - 1) = 0 \<longleftrightarrow> pow2 b" using b by (auto simp: pow2_iff)
  show ?thesis
  proof (cases "unat al \<le> 2 ^ 63")
    case True
    then have le: "unat b \<le> 2 ^ 63" by (simp add: b)
    show ?thesis
    proof (cases "pow2 b")
      case pow: True
      then obtain k where "k < 64" "b = 2 ^ k" "unat b = 2 ^ k" by (auto elim: pow2E)
      with b ma p pow have "\<exists>j \<le> 63. memalign_alignment al = Some (2 ^ j) \<and> unat al \<le> 2 ^ j \<and>
          unat MIN_CHUNK_SIZE \<le> 2 ^ j \<and> 2 ^ j < 2 * max (unat al) (unat MIN_CHUNK_SIZE)"
        by (intro exI [of _ k]) auto
      with True show ?thesis by simp
    next
      case False
      obtain j where j: "5 \<le> j" "j \<le> 63" "double_until (2 ^ 5) b = Some (2 ^ j)" "unat b \<le> 2 ^ j"
        "j = 5 \<or> 2 ^ j < 2 * unat b"
        using double_until_result [OF _ le, of 5] by auto
      have "(2::nat) ^ j < 2 * unat b" using j(5) b by auto
      with j ma p False b have "\<exists>j \<le> 63. memalign_alignment al = Some (2 ^ j) \<and> unat al \<le> 2 ^ j \<and>
          unat MIN_CHUNK_SIZE \<le> 2 ^ j \<and> 2 ^ j < 2 * max (unat al) (unat MIN_CHUNK_SIZE)"
        by (intro exI [of _ j]) auto
      with True show ?thesis by simp
    qed
  next
    case False
    then have big: "\<not> unat b \<le> 2 ^ 63" by (simp add: b)
    have "\<not> pow2 b"
    proof
      assume "pow2 b"
      then obtain k where "k < 64" "unat b = 2 ^ k" by (auto elim: pow2E)
      moreover have "(2::nat) ^ k \<le> 2 ^ 63" using \<open>k < 64\<close> by (intro power_increasing) simp_all
      ultimately show False using big by simp
    qed
    moreover have "double_until (2 ^ 5) b = None"
      using double_until_endless [of "2 ^ 5" b] big by (cases "double_until (2 ^ 5) b") blast+
    ultimately show ?thesis using False ma p by simp
  qed
qed


subsection \<open>The aligned spot\<close>

lemma neg_pow2:
  assumes "pow2 (a :: u64)"
  shows "- a = NOT (a - 1)"
  by (simp add: not_eq_complement)

lemma memalign_pos_aligned:
  assumes "pow2 al"
  shows "unat al dvd unat (chunk2mem (memalign_pos al p))"
proof -
  obtain k where k: "k < 64" "unat al = 2 ^ k" using assms by (auto elim: pow2E)
  have d: "unat al dvd 2 ^ LENGTH(64)" unfolding k(2) using k(1) by (intro le_imp_power_dvd) simp
  define br where "br = mem2chunk (round_up al (chunk2mem p))"
  have br: "unat al dvd unat (chunk2mem br)"
    by (simp add: br_def round_up_dvd [OF assms])
  have e: "memalign_pos al p = (if br - p \<ge> MIN_CHUNK_SIZE then br else br + al)"
    by (simp add: memalign_pos_def br_def round_up_def neg_pow2 [OF assms] Let_def algebra_simps)
  have "chunk2mem (br + al) = chunk2mem br + al" by (simp add: chunk2mem_def)
  then show ?thesis using br dvd_unat_word [of "unat al" "chunk2mem br" al] d by (simp add: e)
qed

lemma aligned_iff_dvd:
  assumes "pow2 (al :: u64)"
  shows "a AND (al - 1) = 0 \<longleftrightarrow> unat al dvd unat a"
proof -
  obtain k where "unat al = 2 ^ k" "al - 1 = mask k" using assms by (auto elim: pow2E)
  then show ?thesis by (simp add: and_mask_eq_0_iff)
qed

lemma internal_memalign_result:
  assumes "internal_memalign m E al bytes s = Some (mm, s')"
  shows "\<exists>j \<le> 63. memalign_alignment al = Some (2 ^ j) \<and> unat al \<le> 2 ^ j \<and> 2 ^ j dvd unat mm"
proof -
  obtain a where a: "memalign_alignment al = Some a"
    using assms(1) by (auto simp: internal_memalign_def bind_Some_iff)
  then have "unat al \<le> 2 ^ 63" using memalign_alignment_spec [of al] by (auto split: if_splits)
  then obtain j where j: "j \<le> 63" "a = 2 ^ j" "unat al \<le> 2 ^ j"
    using memalign_alignment_spec [of al] a by auto
  then have p: "pow2 a" "unat a = 2 ^ j" unfolding pow2_def by (auto simp: unat_exp intro!: exI [of _ j])
  have "unat a dvd unat mm"
    using assms a memalign_pos_aligned [OF p(1)]
    by (auto simp: internal_memalign_def bind_Some_iff memalign_leader_def aligned_iff_dvd [OF p(1)]
        Let_def split: if_splits)
  then show ?thesis using a j p(2) by (intro exI [of _ j]) simp
qed

text \<open>
  Property C31. The alignment that \<open>internal_memalign\<close> works with is the least power of
  two that is at least the requested one and the minimum chunk size. Above \<open>2^63\<close> there
  is none, and the loop that looks for it never ends.
\<close>

theorem memalign_alignment_least:
  "if unat al \<le> 2 ^ 63
   then \<exists>j \<le> 63. memalign_alignment al = Some (2 ^ j) \<and> unat al \<le> 2 ^ j \<and>
     unat MIN_CHUNK_SIZE \<le> 2 ^ j \<and> 2 ^ j < 2 * max (unat al) (unat MIN_CHUNK_SIZE)
   else memalign_alignment al = None"
  by (rule memalign_alignment_spec)

text \<open>
  Property C21. Whatever chunk \<open>dlmalloc\<close> gave it, \<open>internal_memalign\<close> returns null or an
  address that is a multiple of a power of two not below the requested alignment, so of
  the alignment itself if that is a power of two.
\<close>

theorem memalign_aligned:
  assumes "internal_memalign m E al bytes s = Some (mm, s')"
  shows "\<exists>j \<le> 63. unat al \<le> 2 ^ j \<and> 2 ^ j dvd unat mm \<and> (pow2 al \<longrightarrow> unat al dvd unat mm)"
proof -
  obtain j where j: "j \<le> 63" "unat al \<le> 2 ^ j" "2 ^ j dvd unat mm"
    using internal_memalign_result [OF assms] by blast
  have "unat al dvd 2 ^ j" if al: "pow2 al"
  proof -
    obtain k where k: "unat al = 2 ^ k" using al by (auto elim: pow2E)
    then have "k \<le> j" using j(2) by simp
    then show ?thesis unfolding k by (rule le_imp_power_dvd)
  qed
  then show ?thesis using j by (intro exI [of _ j]) (auto intro: dvd_trans)
qed

subsection \<open>The request is large enough\<close>

lemma memalign_run:
  "\<exists>s'. internal_memalign 0x1000 no_env 64 100 (top_heap 0x10000 0x8000) = Some (0x10040, s')"
  by (simp add: internal_memalign_def memalign_alignment_def max_consts request2size_def pad_request_def
      dlmalloc_def malloc_from_bins_def malloc_large_bins_def malloc_small_bins_def malloc_from_top_def top_heap_def
      memalign_leader_def memalign_pos_def memalign_trailer_def run_chunk_defs MAX_SMALL_REQUEST_def
      Let_def set_field_defs get_field_defs store_def load_def dispose_chunk_def dispose_backward_def
      dispose_forward_def insert_chunk_def is_small_def
      insert_small_chunk_def small_index_def smallbin_at_def smallmap_is_marked_def idx2bit_def mark_smallmap_def)

theorem memalign_aligned_witness:
  "\<exists>s'. internal_memalign 0x1000 no_env 64 100 (top_heap 0x10000 0x8000) = Some (0x10040, s') \<and>
    unat (64 :: u64) dvd unat (0x10040 :: u64)"
proof -
  obtain s' where s': "internal_memalign 0x1000 no_env 64 100 (top_heap 0x10000 0x8000) = Some (0x10040, s')"
    using memalign_run by blast
  have "pow2 (64 :: u64)" by (simp add: pow2_iff)
  with memalign_aligned [OF s'] s' show ?thesis by blast
qed

end
