(* ===== verification/Bulk.thy ===== *)
theory Bulk
  imports Realloc
begin

text \<open>
  Operations on many chunks: \<open>ialloc\<close> behind the \<open>independent_X\<close> functions,
  \<open>internal_bulk_free\<close> and \<open>internal_inspect_all\<close>. Arrays are in memory, an element per
  cell; the callback of the traversal is a parameter that acts on the state.
\<close>

subsection \<open>ialloc\<close>

text \<open>
  The sizes computed before allocating: the chunk size of each element (0 if they differ)
  and their sum, and the array size if a pointer array has to be allocated. \<open>sizes\<close> reads
  the i-th requested size.
\<close>

definition ialloc_sizes :: "u64 \<Rightarrow> (u64 \<Rightarrow> u64) \<Rightarrow> u32 \<Rightarrow> u64 \<times> u64" where
  "ialloc_sizes n_elements sizes opts =
     (if opts AND 1 \<noteq> 0 then
        let element_size = request2size (sizes 0) in (element_size, n_elements * element_size)
      else
        (0, fold (\<lambda>i contents_size. contents_size + request2size (sizes (of_nat i)))
              [0..<unat n_elements] 0))"

definition ialloc_array_size :: "u64 \<Rightarrow> u64 \<Rightarrow> u64" where
  "ialloc_array_size n_elements chunks =
     (if chunks \<noteq> 0 then 0 else request2size (n_elements * 8))"

text \<open>The loop that splits the aggregate chunk into elements, entered at index \<open>i\<close>.\<close>

partial_function (option) ialloc_split ::
  "u64 \<Rightarrow> ('w heap \<Rightarrow> u64 \<Rightarrow> u64) \<Rightarrow> u64 \<Rightarrow> u64 \<Rightarrow> u64 \<Rightarrow> u64 \<Rightarrow> u64 \<Rightarrow> 'w heap \<Rightarrow> 'w heap option" where
  "ialloc_split n_elements sizes element_size marray i p remainder_size s =
     (let s = store (marray + 8 * i) (chunk2mem p) s in
      if i \<noteq> n_elements - 1 then
        let size = (if element_size \<noteq> 0 then element_size else request2size (sizes s i));
            s = set_size_and_pinuse_of_inuse_chunk p size s
        in ialloc_split n_elements sizes element_size marray (i + 1) (chunk_plus_offset p size)
             (remainder_size - size) s
      else Some (set_size_and_pinuse_of_inuse_chunk p remainder_size s))"

text \<open>
  The steps after the aggregate chunk \<open>p\<close> was allocated: clear it, place the pointer
  array at its end unless one was given, and split out the elements.
\<close>

definition ialloc_carve ::
  "u64 \<Rightarrow> ('w heap \<Rightarrow> u64 \<Rightarrow> u64) \<Rightarrow> u32 \<Rightarrow> u64 \<Rightarrow> u64 \<Rightarrow> u64 \<Rightarrow> u64 \<Rightarrow> u64 \<Rightarrow> 'w heap \<Rightarrow>
    (u64 \<times> 'w heap) option" where
  "ialloc_carve n_elements sizes opts chunks element_size contents_size array_size p s =
     (let remainder_size = chunksize s p;
          s = (if opts AND 2 \<noteq> 0
            then memset_zero (chunk2mem p) (remainder_size - SIZE_T_SIZE - array_size) s else s);
          (marray, remainder_size, s) =
            (if chunks = 0 then
               let array_chunk = chunk_plus_offset p contents_size;
                   array_chunk_size = remainder_size - contents_size
               in (chunk2mem array_chunk, contents_size,
                   set_size_and_pinuse_of_inuse_chunk array_chunk array_chunk_size s)
             else (chunks, remainder_size, s))
      in do {
        s \<leftarrow> ialloc_split n_elements sizes element_size marray 0 p remainder_size s;
        Some (marray, s)
      })"

definition ialloc ::
  "u64 \<Rightarrow> 'w env \<Rightarrow> u64 \<Rightarrow> ('w heap \<Rightarrow> u64 \<Rightarrow> u64) \<Rightarrow> u32 \<Rightarrow> u64 \<Rightarrow> 'w heap \<Rightarrow> (u64 \<times> 'w heap) option" where
  "ialloc m E n_elements sizes opts chunks s =
     do {
       s \<leftarrow> ensure_initialization E s;
       if n_elements = 0 then
         (if chunks \<noteq> 0 then Some (chunks, s) else dlmalloc m E 0 s)
       else
         let array_size = ialloc_array_size n_elements chunks;
             (element_size, contents_size) = ialloc_sizes n_elements (sizes s) opts;
             size = contents_size + array_size;
             was_enabled = use_mmap s;
             s = disable_mmap s
         in do {
           (mm, s) \<leftarrow> dlmalloc m E (size - CHUNK_OVERHEAD) s;
           let s = (if was_enabled then enable_mmap s else s);
           if mm = 0 then Some (0, s)
           else ialloc_carve n_elements sizes opts chunks element_size contents_size array_size
             (mem2chunk mm) s
         }
     }"

subsection \<open>internal_bulk_free\<close>

text \<open>
  The loop over the array from \<open>a\<close> to \<open>fence\<close>: an element adjacent to the next one in the
  array is merged with it instead of freed.
\<close>

partial_function (option) bulk_free_from :: "u64 \<Rightarrow> u64 \<Rightarrow> u64 \<Rightarrow> 'w heap \<Rightarrow> 'w heap option" where
  "bulk_free_from m fence a s =
     (if a = fence then Some s
      else
        let mm = load s a in
        if mm \<noteq> 0 then
          let p = mem2chunk mm;
              psize = chunksize s p;
              s = store a 0 s in
          if ok_address s p \<and> ok_inuse s p then
            let b = a + 8; next = next_chunk s p in
            do {
              s \<leftarrow> (if b \<noteq> fence \<and> load s b = chunk2mem next then
                     let newsize = chunksize s next + psize;
                         s = set_inuse p newsize s
                     in Some (store b (chunk2mem p) s)
                   else dispose_chunk m p psize s);
              bulk_free_from m fence b s
            }
          else None
        else bulk_free_from m fence (a + 8) s)"

definition internal_bulk_free ::
  "u64 \<Rightarrow> 'w env \<Rightarrow> u64 \<Rightarrow> u64 \<Rightarrow> 'w heap \<Rightarrow> (u64 \<times> 'w heap) option" where
  "internal_bulk_free m E arr nelem s =
     do {
       s \<leftarrow> bulk_free_from m (arr + 8 * nelem) arr s;
       if should_trim s (topsize s) then do { (_, s) \<leftarrow> sys_trim m E 0 s; Some (0, s) }
       else Some (0, s)
     }"

subsection \<open>internal_inspect_all\<close>

definition MALLOC_CHUNK_SIZE :: u64 where "MALLOC_CHUNK_SIZE = 32"
definition TREE_CHUNK_SIZE :: u64 where "TREE_CHUNK_SIZE = 64"

text \<open>What the handler is told of a chunk: the start of its usable part and the bytes used.\<close>

definition inspect_chunk :: "'w heap \<Rightarrow> u64 \<Rightarrow> u64 \<times> u64" where
  "inspect_chunk s q =
     (let sz = chunksize s q in
      if is_inuse s q then (chunk2mem q, sz - CHUNK_OVERHEAD)
      else if is_small sz then (q + MALLOC_CHUNK_SIZE, 0)
      else (q + TREE_CHUNK_SIZE, 0))"

partial_function (option) inspect_chunks ::
  "(u64 \<Rightarrow> u64 \<Rightarrow> u64 \<Rightarrow> 'w heap \<Rightarrow> 'w heap) \<Rightarrow> u64 \<Rightarrow> u64 \<Rightarrow> u64 \<Rightarrow> 'w heap \<Rightarrow> 'w heap option" where
  "inspect_chunks handler tp sg q s =
     (if segment_holds s sg q \<and> head s q \<noteq> FENCEPOST_HEAD then
        let next = next_chunk s q;
            (start, used) = inspect_chunk s q;
            s = (if start < next then handler start next used s else s)
        in if q = tp then Some s else inspect_chunks handler tp sg next s
      else Some s)"

partial_function (option) inspect_segments ::
  "(u64 \<Rightarrow> u64 \<Rightarrow> u64 \<Rightarrow> 'w heap \<Rightarrow> 'w heap) \<Rightarrow> u64 \<Rightarrow> u64 \<Rightarrow> 'w heap \<Rightarrow> 'w heap option" where
  "inspect_segments handler tp sg s =
     (if sg = 0 then Some s
      else do {
        s \<leftarrow> inspect_chunks handler tp sg (align_as_chunk (seg_base s sg)) s;
        inspect_segments handler tp (seg_next s sg) s
      })"

definition internal_inspect_all ::
  "u64 \<Rightarrow> (u64 \<Rightarrow> u64 \<Rightarrow> u64 \<Rightarrow> 'w heap \<Rightarrow> 'w heap) \<Rightarrow> 'w heap \<Rightarrow> 'w heap option" where
  "internal_inspect_all m handler s =
     (if is_initialized s then inspect_segments handler (topc s) (seg_addr m) s else Some s)"

end
