(* ===== verification/Api.thy ===== *)
theory Api
  imports Bulk
begin

text \<open>
  The exported functions of \<open>malloc.c\<close> on the global space at \<open>m\<close>, except \<open>dlmalloc\<close>,
  \<open>dlfree\<close> and \<open>dlcalloc\<close>, which have their own theories. Locks are not configured, so
  \<open>PREACTION\<close> and \<open>POSTACTION\<close> do nothing.
\<close>

subsection \<open>Resizing\<close>

definition dlrealloc :: "u64 \<Rightarrow> 'w env \<Rightarrow> u64 \<Rightarrow> u64 \<Rightarrow> 'w heap \<Rightarrow> (u64 \<times> 'w heap) option" where
  "dlrealloc m E oldmem bytes s =
     (if oldmem = 0 then dlmalloc m E bytes s
      else if bytes \<ge> MAX_REQUEST then Some (0, MALLOC_FAILURE_ACTION s)
      else
        let nb = request2size bytes; oldp = mem2chunk oldmem in
        do {
          (newp, s) \<leftarrow> try_realloc_chunk m oldp nb 1 s;
          if newp \<noteq> 0 then Some (chunk2mem newp, s)
          else do {
            (mm, s) \<leftarrow> dlmalloc m E bytes s;
            if mm \<noteq> 0 then
              let oc = chunksize s oldp - overhead_for s oldp;
                  s = memcpy mm oldmem (if oc < bytes then oc else bytes) s
              in do { s \<leftarrow> dlfree m E oldmem s; Some (mm, s) }
            else Some (0, s)
          }
        })"

definition dlrealloc_in_place :: "u64 \<Rightarrow> u64 \<Rightarrow> u64 \<Rightarrow> 'w heap \<Rightarrow> (u64 \<times> 'w heap) option" where
  "dlrealloc_in_place m oldmem bytes s =
     (if oldmem \<noteq> 0 then
        if bytes \<ge> MAX_REQUEST then Some (0, MALLOC_FAILURE_ACTION s)
        else
          let nb = request2size bytes; oldp = mem2chunk oldmem in
          do {
            (newp, s) \<leftarrow> try_realloc_chunk m oldp nb 0 s;
            Some (if newp = oldp then oldmem else 0, s)
          }
      else Some (0, s))"

subsection \<open>Aligned allocation\<close>

definition EINVAL :: int where "EINVAL = 22"
definition ENOMEM :: int where "ENOMEM = 12"

definition dlmemalign :: "u64 \<Rightarrow> 'w env \<Rightarrow> u64 \<Rightarrow> u64 \<Rightarrow> 'w heap \<Rightarrow> (u64 \<times> 'w heap) option" where
  "dlmemalign m E alignment bytes s =
     (if alignment \<le> MALLOC_ALIGNMENT then dlmalloc m E bytes s
      else internal_memalign m E alignment bytes s)"

text \<open>The test of \<open>dlposix_memalign\<close> on an alignment other than \<open>MALLOC_ALIGNMENT\<close>.\<close>

definition posix_alignment_invalid :: "u64 \<Rightarrow> bool" where
  "posix_alignment_invalid alignment \<longleftrightarrow>
     (let d = alignment div 8; r = alignment mod 8
      in r \<noteq> 0 \<or> d = 0 \<or> d AND (d - 1) \<noteq> 0)"

definition dlposix_memalign ::
  "u64 \<Rightarrow> 'w env \<Rightarrow> u64 \<Rightarrow> u64 \<Rightarrow> u64 \<Rightarrow> 'w heap \<Rightarrow> (int \<times> 'w heap) option" where
  "dlposix_memalign m E pp alignment bytes s =
     (if alignment \<noteq> MALLOC_ALIGNMENT \<and> posix_alignment_invalid alignment then Some (EINVAL, s)
      else do {
        (mm, s) \<leftarrow>
          (if alignment = MALLOC_ALIGNMENT then dlmalloc m E bytes s
           else if bytes \<le> MAX_REQUEST - alignment then
             let alignment = (if alignment < MIN_CHUNK_SIZE then MIN_CHUNK_SIZE else alignment)
             in internal_memalign m E alignment bytes s
           else Some (0, s));
        Some (if mm = 0 then (ENOMEM, s) else (0, store pp mm s))
      })"

definition dlvalloc :: "u64 \<Rightarrow> 'w env \<Rightarrow> u64 \<Rightarrow> 'w heap \<Rightarrow> (u64 \<times> 'w heap) option" where
  "dlvalloc m E bytes s =
     do {
       s \<leftarrow> ensure_initialization E s;
       dlmemalign m E (page_size s) bytes s
     }"

definition dlpvalloc :: "u64 \<Rightarrow> 'w env \<Rightarrow> u64 \<Rightarrow> 'w heap \<Rightarrow> (u64 \<times> 'w heap) option" where
  "dlpvalloc m E bytes s =
     do {
       s \<leftarrow> ensure_initialization E s;
       let pagesz = page_size s;
       dlmemalign m E pagesz ((bytes + pagesz - 1) AND NOT (pagesz - 1)) s
     }"

subsection \<open>Bulk operations\<close>

definition dlindependent_calloc ::
  "u64 \<Rightarrow> 'w env \<Rightarrow> u64 \<Rightarrow> u64 \<Rightarrow> u64 \<Rightarrow> 'w heap \<Rightarrow> (u64 \<times> 'w heap) option" where
  "dlindependent_calloc m E n_elements elem_size chunks s =
     ialloc m E n_elements (\<lambda>_ _. elem_size) 3 chunks s"

definition dlindependent_comalloc ::
  "u64 \<Rightarrow> 'w env \<Rightarrow> u64 \<Rightarrow> u64 \<Rightarrow> u64 \<Rightarrow> 'w heap \<Rightarrow> (u64 \<times> 'w heap) option" where
  "dlindependent_comalloc m E n_elements sizes chunks s =
     ialloc m E n_elements (\<lambda>s i. load s (sizes + 8 * i)) 0 chunks s"

definition dlbulk_free :: "u64 \<Rightarrow> 'w env \<Rightarrow> u64 \<Rightarrow> u64 \<Rightarrow> 'w heap \<Rightarrow> (u64 \<times> 'w heap) option" where
  "dlbulk_free m E arr nelem s = internal_bulk_free m E arr nelem s"

definition dlmalloc_inspect_all ::
  "u64 \<Rightarrow> 'w env \<Rightarrow> (u64 \<Rightarrow> u64 \<Rightarrow> u64 \<Rightarrow> 'w heap \<Rightarrow> 'w heap) \<Rightarrow> 'w heap \<Rightarrow> 'w heap option" where
  "dlmalloc_inspect_all m E handler s =
     do {
       s \<leftarrow> ensure_initialization E s;
       internal_inspect_all m handler s
     }"

subsection \<open>Trimming, footprint and parameters\<close>

definition dlmalloc_trim :: "u64 \<Rightarrow> 'w env \<Rightarrow> u64 \<Rightarrow> 'w heap \<Rightarrow> (int \<times> 'w heap) option" where
  "dlmalloc_trim m E pad s =
     do {
       s \<leftarrow> ensure_initialization E s;
       sys_trim m E pad s
     }"

definition dlmalloc_footprint :: "'w heap \<Rightarrow> u64" where
  "dlmalloc_footprint s = footprint s"

definition dlmalloc_max_footprint :: "'w heap \<Rightarrow> u64" where
  "dlmalloc_max_footprint s = max_footprint s"

definition dlmalloc_footprint_limit :: "'w heap \<Rightarrow> u64" where
  "dlmalloc_footprint_limit s =
     (let maf = footprint_limit s in if maf = 0 then MAX_SIZE_T else maf)"

text \<open>\<open>undef\<close> is the value of the uninitialised \<open>result\<close>, as the code has it.\<close>

definition dlmalloc_set_footprint_limit :: "u64 \<Rightarrow> u64 \<Rightarrow> 'w heap \<Rightarrow> u64 \<times> 'w heap" where
  "dlmalloc_set_footprint_limit undef bytes s =
     (let result = undef;
          result = (if bytes = 0 then granularity_align s 1 else result);
          result = (if bytes = MAX_SIZE_T then 0 else granularity_align s bytes)
      in (result, s\<lparr>footprint_limit := result\<rparr>))"

definition dlmallopt :: "'w env \<Rightarrow> int \<Rightarrow> int \<Rightarrow> 'w heap \<Rightarrow> (int \<times> 'w heap) option" where
  "dlmallopt E param_number value s = change_mparam E param_number value s"

definition dlmalloc_usable_size :: "u64 \<Rightarrow> 'w heap \<Rightarrow> u64" where
  "dlmalloc_usable_size mm s =
     (if mm \<noteq> 0 \<and> is_inuse s (mem2chunk mm)
      then chunksize s (mem2chunk mm) - overhead_for s (mem2chunk mm) else 0)"

end
