(* ===== verification/Stats.thy ===== *)
theory Stats
  imports Api
begin

text \<open>
  The statistics of \<open>malloc.c\<close>: \<open>internal_mallinfo\<close> and \<open>internal_malloc_stats\<close> walk the
  chunks of each segment up to top or a fencepost.
\<close>

record mallinfo =
  arena :: u64
  ordblks :: u64
  smblks :: u64
  hblks :: u64
  hblkhd :: u64
  usmblks :: u64
  fsmblks :: u64
  uordblks :: u64
  fordblks :: u64
  keepcost :: u64

definition empty_mallinfo :: mallinfo where
  "empty_mallinfo =
     \<lparr>arena = 0, ordblks = 0, smblks = 0, hblks = 0, hblkhd = 0, usmblks = 0, fsmblks = 0,
      uordblks = 0, fordblks = 0, keepcost = 0\<rparr>"

text \<open>The walk over the chunks of the segment \<open>sg\<close>, summing sizes and counting free chunks.\<close>

partial_function (option) mallinfo_chunks ::
  "'w heap \<Rightarrow> u64 \<Rightarrow> u64 \<Rightarrow> u64 \<Rightarrow> u64 \<Rightarrow> u64 \<Rightarrow> (u64 \<times> u64 \<times> u64) option" where
  "mallinfo_chunks s sg q nfree mfree tot =
     (if segment_holds s sg q \<and> q \<noteq> topc s \<and> head s q \<noteq> FENCEPOST_HEAD then
        let sz = chunksize s q;
            tot = tot + sz;
            (nfree, mfree) = (if \<not> is_inuse s q then (nfree + 1, mfree + sz) else (nfree, mfree))
        in mallinfo_chunks s sg (next_chunk s q) nfree mfree tot
      else Some (nfree, mfree, tot))"

partial_function (option) mallinfo_segments ::
  "'w heap \<Rightarrow> u64 \<Rightarrow> u64 \<Rightarrow> u64 \<Rightarrow> u64 \<Rightarrow> (u64 \<times> u64 \<times> u64) option" where
  "mallinfo_segments s sg nfree mfree tot =
     (if sg \<noteq> 0 then
        do {
          (nfree, mfree, tot) \<leftarrow>
            mallinfo_chunks s sg (align_as_chunk (seg_base s sg)) nfree mfree tot;
          mallinfo_segments s (seg_next s sg) nfree mfree tot
        }
      else Some (nfree, mfree, tot))"

definition internal_mallinfo :: "u64 \<Rightarrow> 'w env \<Rightarrow> 'w heap \<Rightarrow> (mallinfo \<times> 'w heap) option" where
  "internal_mallinfo m E s =
     do {
       s \<leftarrow> ensure_initialization E s;
       if is_initialized s then
         let nfree = 1; mfree = topsize s + TOP_FOOT_SIZE; tot = mfree in
         do {
           (nfree, mfree, tot) \<leftarrow> mallinfo_segments s (seg_addr m) nfree mfree tot;
           Some (empty_mallinfo\<lparr>arena := tot, ordblks := nfree,
             hblkhd := footprint s - tot, usmblks := max_footprint s,
             uordblks := footprint s - mfree, fordblks := mfree, keepcost := topsize s\<rparr>, s)
         }
       else Some (empty_mallinfo, s)
     }"

partial_function (option) stats_chunks :: "'w heap \<Rightarrow> u64 \<Rightarrow> u64 \<Rightarrow> u64 \<Rightarrow> u64 option" where
  "stats_chunks s sg q used =
     (if segment_holds s sg q \<and> q \<noteq> topc s \<and> head s q \<noteq> FENCEPOST_HEAD then
        stats_chunks s sg (next_chunk s q) (if \<not> is_inuse s q then used - chunksize s q else used)
      else Some used)"

partial_function (option) stats_segments :: "'w heap \<Rightarrow> u64 \<Rightarrow> u64 \<Rightarrow> u64 option" where
  "stats_segments s sg used =
     (if sg \<noteq> 0 then
        do {
          used \<leftarrow> stats_chunks s sg (align_as_chunk (seg_base s sg)) used;
          stats_segments s (seg_next s sg) used
        }
      else Some used)"

text \<open>The three numbers printed: the maximum and current system bytes, and those in use.\<close>

definition internal_malloc_stats :: "u64 \<Rightarrow> 'w env \<Rightarrow> 'w heap \<Rightarrow> ((u64 \<times> u64 \<times> u64) \<times> 'w heap) option" where
  "internal_malloc_stats m E s =
     do {
       s \<leftarrow> ensure_initialization E s;
       if is_initialized s then
         let maxfp = max_footprint s; fp = footprint s;
             used = fp - (topsize s + TOP_FOOT_SIZE) in
         do {
           used \<leftarrow> stats_segments s (seg_addr m) used;
           Some ((maxfp, fp, used), s)
         }
       else Some ((0, 0, 0), s)
     }"

definition dlmallinfo :: "u64 \<Rightarrow> 'w env \<Rightarrow> 'w heap \<Rightarrow> (mallinfo \<times> 'w heap) option" where
  "dlmallinfo m E s = internal_mallinfo m E s"

definition dlmalloc_stats :: "u64 \<Rightarrow> 'w env \<Rightarrow> 'w heap \<Rightarrow> ((u64 \<times> u64 \<times> u64) \<times> 'w heap) option" where
  "dlmalloc_stats m E s = internal_malloc_stats m E s"

end
