(* ===== verification/Checks.thy ===== *)
theory Checks
  imports Stats
begin

text \<open>
  The checks of a \<open>DEBUG\<close> build: \<open>do_check_X\<close> and the traversals behind
  \<open>check_malloc_state\<close>. The checks of one chunk are predicates; the traversals return, or
  are \<open>None\<close> when an assertion fails or the loop does not end.
\<close>

definition assert_that :: "bool \<Rightarrow> unit option" where
  "assert_that b = (if b then Some () else None)"

subsection \<open>Single chunks\<close>

definition do_check_any_chunk :: "'w heap \<Rightarrow> u64 \<Rightarrow> bool" where
  "do_check_any_chunk s p \<longleftrightarrow>
     (is_aligned (chunk2mem p) \<or> head s p = FENCEPOST_HEAD) \<and> ok_address s p"

definition do_check_top_chunk :: "u64 \<Rightarrow> 'w heap \<Rightarrow> u64 \<Rightarrow> unit option" where
  "do_check_top_chunk m s p =
     do {
       sp \<leftarrow> segment_holding m s p;
       let sz = head s p AND NOT INUSE_BITS;
       assert_that (sp \<noteq> 0 \<and>
         (is_aligned (chunk2mem p) \<or> head s p = FENCEPOST_HEAD) \<and>
         ok_address s p \<and>
         sz = topsize s \<and>
         sz > 0 \<and>
         sz = (seg_base s sp + seg_size s sp - p) - TOP_FOOT_SIZE \<and>
         pinuse s p \<and>
         \<not> pinuse s (chunk_plus_offset p sz))
     }"

definition do_check_mmapped_chunk :: "'w heap \<Rightarrow> u64 \<Rightarrow> bool" where
  "do_check_mmapped_chunk s p \<longleftrightarrow>
     (let sz = chunksize s p; len = sz + prev_foot s p + MMAP_FOOT_PAD in
      is_mmapped s p \<and>
      use_mmap s \<and>
      (is_aligned (chunk2mem p) \<or> head s p = FENCEPOST_HEAD) \<and>
      ok_address s p \<and>
      \<not> is_small sz \<and>
      len AND (page_size s - 1) = 0 \<and>
      head s (chunk_plus_offset p sz) = FENCEPOST_HEAD \<and>
      head s (chunk_plus_offset p (sz + SIZE_T_SIZE)) = 0)"

definition do_check_inuse_chunk :: "'w heap \<Rightarrow> u64 \<Rightarrow> bool" where
  "do_check_inuse_chunk s p \<longleftrightarrow>
     do_check_any_chunk s p \<and>
     is_inuse s p \<and>
     next_pinuse s p \<and>
     (is_mmapped s p \<or> pinuse s p \<or> next_chunk s (prev_chunk s p) = p) \<and>
     (is_mmapped s p \<longrightarrow> do_check_mmapped_chunk s p)"

definition do_check_free_chunk :: "'w heap \<Rightarrow> u64 \<Rightarrow> bool" where
  "do_check_free_chunk s p \<longleftrightarrow>
     (let sz = chunksize s p; next = chunk_plus_offset p sz in
      do_check_any_chunk s p \<and>
      \<not> is_inuse s p \<and>
      \<not> next_pinuse s p \<and>
      \<not> is_mmapped s p \<and>
      (p \<noteq> dv s \<and> p \<noteq> topc s \<longrightarrow>
        (if sz \<ge> MIN_CHUNK_SIZE then
           sz AND CHUNK_ALIGN_MASK = 0 \<and>
           is_aligned (chunk2mem p) \<and>
           prev_foot s next = sz \<and>
           pinuse s p \<and>
           (next = topc s \<or> is_inuse s next) \<and>
           bk s (fd s p) = p \<and>
           fd s (bk s p) = p
         else sz = SIZE_T_SIZE)))"

definition do_check_malloced_chunk :: "'w heap \<Rightarrow> u64 \<Rightarrow> u64 \<Rightarrow> bool" where
  "do_check_malloced_chunk s mm nb \<longleftrightarrow>
     (mm \<noteq> 0 \<longrightarrow>
       (let p = mem2chunk mm; sz = head s p AND NOT INUSE_BITS in
        do_check_inuse_chunk s p \<and>
        sz AND CHUNK_ALIGN_MASK = 0 \<and>
        sz \<ge> MIN_CHUNK_SIZE \<and>
        sz \<ge> nb \<and>
        (is_mmapped s p \<or> sz < nb + MIN_CHUNK_SIZE)))"

subsection \<open>Trees\<close>

text \<open>What is asserted of a tree node on entry of \<open>do_check_tree\<close>.\<close>

definition tree_node_ok :: "'w heap \<Rightarrow> u64 \<Rightarrow> bool" where
  "tree_node_ok s t \<longleftrightarrow>
     (let tindex = index s t; tsize = chunksize s t; idx = compute_tree_index tsize in
      tindex = idx \<and>
      tsize \<ge> MIN_LARGE_SIZE \<and>
      tsize \<ge> minsize_for_tree_index idx \<and>
      (idx = NTREEBINS - 1 \<or> tsize < minsize_for_tree_index (idx + 1)))"

text \<open>What is asserted of the node \<open>u\<close> of the ring of \<open>t\<close>.\<close>

definition ring_node_ok :: "'w heap \<Rightarrow> u64 \<Rightarrow> u64 \<Rightarrow> bool" where
  "ring_node_ok s t u \<longleftrightarrow>
     do_check_any_chunk s u \<and>
     index s u = index s t \<and>
     chunksize s u = chunksize s t \<and>
     \<not> is_inuse s u \<and>
     \<not> next_pinuse s u \<and>
     bk s (fd s u) = u \<and>
     fd s (bk s u) = u"

definition head_node_ok :: "'w heap \<Rightarrow> u64 \<Rightarrow> bool" where
  "head_node_ok s u \<longleftrightarrow>
     parent s u \<noteq> u \<and>
     (child s (parent s u) 0 = u \<or> child s (parent s u) 1 = u \<or> load s (parent s u) = u)"

text \<open>
  The loop of \<open>do_check_tree\<close> at node \<open>u\<close> of the ring of \<open>t\<close>; the recursive call on a child
  enters the loop of the child's own ring. The loop is at \<open>u = t\<close> on entry only.
\<close>

partial_function (option) check_ring :: "'w heap \<Rightarrow> u64 \<Rightarrow> u64 \<Rightarrow> u64 \<Rightarrow> unit option" where
  "check_ring s t u hdn =
     do {
       assert_that (u = t \<longrightarrow> tree_node_ok s t);
       assert_that (ring_node_ok s t u);
       hdn \<leftarrow>
         (if parent s u = 0 then
            do { assert_that (child s u 0 = 0 \<and> child s u 1 = 0); Some hdn }
          else do {
            assert_that (hdn = 0 \<and> head_node_ok s u);
            (if child s u 0 \<noteq> 0 then
               do {
                 assert_that (parent s (child s u 0) = u \<and> child s u 0 \<noteq> u);
                 check_ring s (child s u 0) (child s u 0) 0
               }
             else Some ());
            (if child s u 1 \<noteq> 0 then
               do {
                 assert_that (parent s (child s u 1) = u \<and> child s u 1 \<noteq> u);
                 check_ring s (child s u 1) (child s u 1) 0
               }
             else Some ());
            assert_that (child s u 0 \<noteq> 0 \<and> child s u 1 \<noteq> 0 \<longrightarrow>
              chunksize s (child s u 0) < chunksize s (child s u 1));
            Some u
          });
       if fd s u \<noteq> t then check_ring s t (fd s u) hdn else assert_that (hdn \<noteq> 0)
     }"

definition do_check_tree :: "'w heap \<Rightarrow> u64 \<Rightarrow> unit option" where
  "do_check_tree s t = check_ring s t t 0"

definition do_check_treebin :: "u64 \<Rightarrow> 'w heap \<Rightarrow> u32 \<Rightarrow> unit option" where
  "do_check_treebin m s i =
     (let t = load s (treebin_at m i);
          empty = (treemap s AND push_bit (unat i) 1 = 0) in
      do {
        assert_that (t = 0 \<longrightarrow> empty);
        if \<not> empty then do_check_tree s t else Some ()
      })"

subsection \<open>Small bins\<close>

partial_function (option) check_smallbin_from ::
  "'w heap \<Rightarrow> u32 \<Rightarrow> u64 \<Rightarrow> u64 \<Rightarrow> unit option" where
  "check_smallbin_from s i b p =
     (if p \<noteq> b then
        let csz = chunksize s p; q = next_chunk s p in
        do {
          assert_that (do_check_free_chunk s p);
          assert_that (small_index csz = i);
          assert_that (bk s p = b \<or> chunksize s (bk s p) = chunksize s p);
          assert_that (head s q \<noteq> FENCEPOST_HEAD \<longrightarrow> do_check_inuse_chunk s q);
          check_smallbin_from s i b (bk s p)
        }
      else Some ())"

definition do_check_smallbin :: "u64 \<Rightarrow> 'w heap \<Rightarrow> u32 \<Rightarrow> unit option" where
  "do_check_smallbin m s i =
     (let b = smallbin_at m i; p = bk s b;
          empty = (smallmap s AND push_bit (unat i) 1 = 0) in
      do {
        assert_that (p = b \<longrightarrow> empty);
        if \<not> empty then check_smallbin_from s i b p else Some ()
      })"

subsection \<open>Finding a chunk in a bin\<close>

text \<open>The two \<open>do ... while\<close> loops over a circular list, and the search of a tree.\<close>

partial_function (option) ring_find :: "'w heap \<Rightarrow> u64 \<Rightarrow> u64 \<Rightarrow> u64 \<Rightarrow> bool option" where
  "ring_find s x b p =
     (if p = x then Some True
      else if fd s p \<noteq> b then ring_find s x b (fd s p)
      else Some False)"

partial_function (option) tree_find :: "'w heap \<Rightarrow> u64 \<Rightarrow> u64 \<Rightarrow> u64 \<Rightarrow> u64 option" where
  "tree_find s csz t sizebits =
     (if t \<noteq> 0 \<and> chunksize s t \<noteq> csz
      then tree_find s csz (child s t (drop_bit 63 sizebits AND 1)) (push_bit 1 sizebits)
      else Some t)"

definition bin_find :: "u64 \<Rightarrow> 'w heap \<Rightarrow> u64 \<Rightarrow> bool option" where
  "bin_find m s x =
     (let csz = chunksize s x in
      if is_small csz then
        let sidx = small_index csz; b = smallbin_at m sidx in
        if smallmap_is_marked s sidx then ring_find s x b b else Some False
      else
        let tidx = compute_tree_index csz in
        if treemap_is_marked s tidx then
          do {
            t \<leftarrow> tree_find s csz (load s (treebin_at m tidx))
                  (push_bit (unat (leftshift_for_tree_index tidx)) csz);
            if t \<noteq> 0 then ring_find s x t t else Some False
          }
        else Some False)"

subsection \<open>The whole state\<close>

partial_function (option) traverse_chunks ::
  "u64 \<Rightarrow> 'w heap \<Rightarrow> u64 \<Rightarrow> u64 \<Rightarrow> u64 \<Rightarrow> u64 \<Rightarrow> u64 option" where
  "traverse_chunks m s sg q lastq tot =
     (if segment_holds s sg q \<and> q \<noteq> topc s \<and> head s q \<noteq> FENCEPOST_HEAD then
        do {
          found \<leftarrow> (if is_inuse s q \<or> q \<noteq> dv s then bin_find m s q else Some False);
          (if is_inuse s q then assert_that (\<not> found \<and> do_check_inuse_chunk s q)
           else assert_that ((q = dv s \<or> found) \<and> (lastq = 0 \<or> is_inuse s lastq) \<and>
             do_check_free_chunk s q));
          traverse_chunks m s sg (next_chunk s q) q (tot + chunksize s q)
        }
      else Some tot)"

partial_function (option) traverse_segments :: "u64 \<Rightarrow> 'w heap \<Rightarrow> u64 \<Rightarrow> u64 \<Rightarrow> u64 option" where
  "traverse_segments m s sg tot =
     (if sg \<noteq> 0 then
        let q = align_as_chunk (seg_base s sg) in
        do {
          assert_that (pinuse s q);
          tot \<leftarrow> traverse_chunks m s sg q 0 tot;
          traverse_segments m s (seg_next s sg) tot
        }
      else Some tot)"

definition traverse_and_check :: "u64 \<Rightarrow> 'w heap \<Rightarrow> u64 option" where
  "traverse_and_check m s =
     (if is_initialized s
      then traverse_segments m s (seg_addr m) (topsize s + TOP_FOOT_SIZE) else Some 0)"

definition all_bins :: "(u32 \<Rightarrow> unit option) \<Rightarrow> u32 \<Rightarrow> unit option" where
  "all_bins f n = fold (\<lambda>i r. do { r; f (of_nat i) }) [0..<unat n] (Some ())"

definition do_check_malloc_state :: "u64 \<Rightarrow> 'w heap \<Rightarrow> unit option" where
  "do_check_malloc_state m s =
     do {
       all_bins (do_check_smallbin m s) NSMALLBINS;
       all_bins (do_check_treebin m s) NTREEBINS;
       (if dvsize s \<noteq> 0 then
          do {
            found \<leftarrow> bin_find m s (dv s);
            assert_that (do_check_any_chunk s (dv s) \<and> dvsize s = chunksize s (dv s) \<and>
              dvsize s \<ge> MIN_CHUNK_SIZE \<and> \<not> found)
          }
        else Some ());
       (if topc s \<noteq> 0 then
          do {
            do_check_top_chunk m s (topc s);
            found \<leftarrow> bin_find m s (topc s);
            assert_that (topsize s > 0 \<and> \<not> found)
          }
        else Some ());
       tot \<leftarrow> traverse_and_check m s;
       assert_that (tot \<le> footprint s \<and> footprint s \<le> max_footprint s)
     }"

end
