(* ===== verification/Distance.thy ===== *)
theory Distance
  imports Prelude
begin

text \<open>
  The distances of \<open>server.c\<close>: the number of differing bits of two bytes, of two memory
  regions and of two dumped registers, and the relaxed comparison of the output registers
  of a rewrite with those of the target. Memory is a function from addresses to bytes; a
  failed \<open>assert\<close> is \<open>None\<close>.
\<close>

type_synonym bytes = "u64 \<Rightarrow> u8"

subsection \<open>Bytes and memory\<close>

definition builtin_popcount :: "u32 \<Rightarrow> nat" where
  "builtin_popcount x = length (filter (bit x) [0..<32])"

definition get_byte_dist :: "u8 \<Rightarrow> u8 \<Rightarrow> u64" where
  "get_byte_dist a b = of_nat (builtin_popcount (ucast (a XOR b)))"

definition get_mem_dist :: "bytes \<Rightarrow> bytes \<Rightarrow> u64 \<Rightarrow> u64 \<Rightarrow> u64 \<Rightarrow> u64" where
  "get_mem_dist MA MB a b n =
     fold (\<lambda>i dist. dist + get_byte_dist (MA (a + of_nat i)) (MB (b + of_nat i))) [0..<unat n] 0"

subsection \<open>Registers\<close>

record reg_info =
  offset :: u64
  rsize :: u64
  regclass :: u64

definition get_reg_dist ::
  "reg_info list \<Rightarrow> bytes \<Rightarrow> bytes \<Rightarrow> u64 \<Rightarrow> u64 \<Rightarrow> nat \<Rightarrow> nat \<Rightarrow> u64 option" where
  "get_reg_dist info MA MB a b ai bi =
     (if rsize (info ! ai) = rsize (info ! bi) then
        let a_start = a + offset (info ! ai); b_start = b + offset (info ! bi);
            n = rsize (info ! ai)
        in Some (fold (\<lambda>i dist. dist + get_byte_dist (MA (a_start + of_nat i)) (MB (b_start + of_nat i)))
             [0..<unat n] 0)
      else None)"

definition MISALIGN_PENALTY :: u64 where "MISALIGN_PENALTY = 1"

text \<open>
  The relaxed comparison of output register \<open>i\<close>: if some other register \<open>j\<close> of its class
  holds the expected value, the distance is the penalty. The loop runs over \<open>js\<close>.
\<close>

fun relaxed_search ::
  "reg_info list \<Rightarrow> bytes \<Rightarrow> bytes \<Rightarrow> u64 \<Rightarrow> u64 \<Rightarrow> nat \<Rightarrow> nat list \<Rightarrow> u64 \<Rightarrow> u64 option" where
  "relaxed_search info MA MB a b i [] dist = Some dist"
| "relaxed_search info MA MB a b i (j # js) dist =
     (if regclass (info ! i) = regclass (info ! j) then
        do {
          d \<leftarrow> get_reg_dist info MA MB a b j i;
          if d = 0 then Some MISALIGN_PENALTY else relaxed_search info MA MB a b i js dist
        }
      else relaxed_search info MA MB a b i js dist)"

definition output_reg_dist ::
  "reg_info list \<Rightarrow> nat \<Rightarrow> bytes \<Rightarrow> bytes \<Rightarrow> u64 \<Rightarrow> u64 \<Rightarrow> nat \<Rightarrow> u64 option" where
  "output_reg_dist info num_output MA MB a b i =
     do {
       dist \<leftarrow> get_reg_dist info MA MB a b i i;
       if dist = 0 then Some 0
       else if MISALIGN_PENALTY < dist
       then relaxed_search info MA MB a b i [num_output..<length info] dist
       else Some dist
     }"

text \<open>The loop over the output registers that adds up \<open>reg_dist\<close>.\<close>

fun sum_reg_dist ::
  "reg_info list \<Rightarrow> nat \<Rightarrow> bytes \<Rightarrow> bytes \<Rightarrow> u64 \<Rightarrow> u64 \<Rightarrow> nat list \<Rightarrow> u64 \<Rightarrow> u64 option" where
  "sum_reg_dist info num_output MA MB a b [] reg_dist = Some reg_dist"
| "sum_reg_dist info num_output MA MB a b (i # is) reg_dist =
     do {
       dist \<leftarrow> output_reg_dist info num_output MA MB a b i;
       sum_reg_dist info num_output MA MB a b is (reg_dist + dist)
     }"

definition register_distance ::
  "reg_info list \<Rightarrow> nat \<Rightarrow> bytes \<Rightarrow> bytes \<Rightarrow> u64 \<Rightarrow> u64 \<Rightarrow> u64 option" where
  "register_distance info num_output MA MB a b =
     sum_reg_dist info num_output MA MB a b [0..<num_output] 0"

subsection \<open>Bit counts\<close>

text \<open>The distance of two bytes as a natural number.\<close>

definition byte_dist :: "u8 \<Rightarrow> u8 \<Rightarrow> nat" where
  "byte_dist a b = card {k. bit a k \<noteq> bit b k}"

lemma bit_u8: "bit (a :: u8) k \<Longrightarrow> k < 8"
  using bit_imp_le_length [of a k] by simp

lemma diff_bits_finite: "{k. bit (a :: u8) k \<noteq> bit (b :: u8) k} \<subseteq> {..<8}"
  using bit_u8 by blast

lemma byte_dist_le: "byte_dist a b \<le> 8"
  using card_mono [OF _ diff_bits_finite, of a b] by (simp add: byte_dist_def)

lemma byte_dist_finite: "finite {k. bit (a :: u8) k \<noteq> bit (b :: u8) k}"
  using finite_subset [OF diff_bits_finite] by simp

lemma byte_dist_0_iff: "byte_dist a b = 0 \<longleftrightarrow> a = b"
proof
  assume "byte_dist a b = 0"
  then have "{k. bit a k \<noteq> bit b k} = {}"
    unfolding byte_dist_def card_0_eq [OF byte_dist_finite] .
  then show "a = b" by (intro bit_word_eqI) auto
qed (simp add: byte_dist_def)

lemma byte_dist_sym: "byte_dist a b = byte_dist b a"
  unfolding byte_dist_def by (rule arg_cong [of _ _ card]) auto

lemma byte_dist_triangle: "byte_dist a c \<le> byte_dist a b + byte_dist b c"
proof -
  have "{k. bit a k \<noteq> bit c k} \<subseteq> {k. bit a k \<noteq> bit b k} \<union> {k. bit b k \<noteq> bit c k}" by auto
  then have "card {k. bit a k \<noteq> bit c k} \<le> card ({k. bit a k \<noteq> bit b k} \<union> {k. bit b k \<noteq> bit c k})"
    using byte_dist_finite by (intro card_mono) auto
  also have "\<dots> \<le> card {k. bit a k \<noteq> bit b k} + card {k. bit b k \<noteq> bit c k}" by (rule card_Un_le)
  finally show ?thesis by (simp add: byte_dist_def)
qed

lemma popcount_byte_dist: "builtin_popcount (ucast (a XOR b :: u8)) = byte_dist a b"
proof -
  have "bit (ucast (a XOR b) :: u32) k \<longleftrightarrow> bit a k \<noteq> bit b k" if "k < 32" for k
    using that by (auto simp: bit_ucast_iff bit_xor_iff)
  then have eq: "set (filter (bit (ucast (a XOR b) :: u32)) [0..<32]) = {k. bit a k \<noteq> bit b k}"
    using diff_bits_finite [of a b] by auto
  have "builtin_popcount (ucast (a XOR b)) = card (set (filter (bit (ucast (a XOR b) :: u32)) [0..<32]))"
    unfolding builtin_popcount_def by (rule distinct_card [symmetric]) simp
  then show ?thesis by (simp only: eq byte_dist_def)
qed

lemma unat_byte_dist: "unat (get_byte_dist a b) = byte_dist a b"
  using byte_dist_le [of a b]
  by (simp add: get_byte_dist_def popcount_byte_dist unsigned_of_nat take_bit_nat_eq_self)

text \<open>The number of differing bits of \<open>n\<close> bytes from \<open>a\<close> and from \<open>b\<close>.\<close>

definition bits_apart :: "bytes \<Rightarrow> bytes \<Rightarrow> u64 \<Rightarrow> u64 \<Rightarrow> nat \<Rightarrow> nat" where
  "bits_apart MA MB a b n = (\<Sum>i<n. byte_dist (MA (a + of_nat i)) (MB (b + of_nat i)))"

lemma bits_apart_le: "bits_apart MA MB a b n \<le> 8 * n"
proof -
  have "bits_apart MA MB a b n \<le> of_nat (card {..<n}) * 8"
    unfolding bits_apart_def by (rule sum_bounded_above) (rule byte_dist_le)
  then show ?thesis by simp
qed

lemma bits_apart_0_iff:
  "bits_apart MA MB a b n = 0 \<longleftrightarrow> (\<forall>i < n. MA (a + of_nat i) = MB (b + of_nat i))"
  by (auto simp: bits_apart_def byte_dist_0_iff)

lemma fold_dist:
  "fold (\<lambda>i dist. dist + get_byte_dist (f i) (g i)) [0..<n] d
    = d + of_nat (\<Sum>i<n. byte_dist (f i) (g i))"
  by (induction n) (simp_all add: unat_byte_dist [symmetric] algebra_simps)

lemma get_mem_dist_bits: "get_mem_dist MA MB a b n = of_nat (bits_apart MA MB a b (unat n))"
  by (simp add: get_mem_dist_def bits_apart_def fold_dist)

lemma unat_of_bits:
  "n < 2 ^ 61 \<Longrightarrow> unat (of_nat (bits_apart MA MB a b n) :: u64) = bits_apart MA MB a b n"
  using bits_apart_le [of MA MB a b n] by (simp add: unsigned_of_nat take_bit_nat_eq_self)

lemma unat_mem_dist:
  "n < 2 ^ 61 \<Longrightarrow> unat (get_mem_dist MA MB a b n) = bits_apart MA MB a b (unat n)"
  by (simp add: get_mem_dist_bits unat_of_bits word_less_nat_alt)


subsection \<open>Registers: helper lemmas\<close>

lemma get_reg_dist_bits:
  "get_reg_dist info MA MB a b ai bi =
     (if rsize (info ! ai) = rsize (info ! bi)
      then Some (of_nat (bits_apart MA MB (a + offset (info ! ai)) (b + offset (info ! bi))
        (unat (rsize (info ! ai))))) else None)"
  by (simp add: get_reg_dist_def bits_apart_def fold_dist Let_def)

text \<open>The bytes of register \<open>i\<close> are the same in both dumps.\<close>

definition same_reg :: "reg_info list \<Rightarrow> bytes \<Rightarrow> bytes \<Rightarrow> u64 \<Rightarrow> u64 \<Rightarrow> nat \<Rightarrow> bool" where
  "same_reg info MA MB a b i \<longleftrightarrow>
     (\<forall>k < unat (rsize (info ! i)).
        MA (a + offset (info ! i) + of_nat k) = MB (b + offset (info ! i) + of_nat k))"

text \<open>Registers of at most 64 bytes, of one size per class.\<close>

definition layout_ok :: "reg_info list \<Rightarrow> bool" where
  "layout_ok info \<longleftrightarrow>
     (\<forall>r \<in> set info. rsize r \<le> 64) \<and>
     (\<forall>r \<in> set info. \<forall>q \<in> set info. regclass r = regclass q \<longrightarrow> rsize r = rsize q)"

lemma reg_dist_self:
  assumes "layout_ok info" "i < length info"
  shows "\<exists>d. get_reg_dist info MA MB a b i i = Some d \<and> d \<le> 512 \<and>
    (d = 0 \<longleftrightarrow> same_reg info MA MB a b i)"
proof -
  define n where "n = unat (rsize (info ! i))"
  define D where "D = bits_apart MA MB (a + offset (info ! i)) (b + offset (info ! i)) n"
  have "rsize (info ! i) \<le> 64" using assms by (simp add: layout_ok_def)
  then have n: "n \<le> 64" by (simp add: word_le_nat_alt n_def)
  then have u: "unat (of_nat D :: u64) = D" unfolding D_def by (intro unat_of_bits) simp
  have "D \<le> 8 * n" unfolding D_def by (rule bits_apart_le)
  with n have D: "D \<le> 512" by simp
  have "(of_nat D :: u64) = 0 \<longleftrightarrow> unat (of_nat D :: u64) = 0" by (simp only: unat_eq_zero)
  also have "\<dots> \<longleftrightarrow> same_reg info MA MB a b i"
    unfolding u by (simp add: D_def n_def bits_apart_0_iff same_reg_def)
  finally have "(of_nat D :: u64) = 0 \<longleftrightarrow> same_reg info MA MB a b i" .
  moreover have "(of_nat D :: u64) \<le> 512" using u D by (simp only: word_le_nat_alt) simp
  moreover have "get_reg_dist info MA MB a b i i = Some (of_nat D)"
    by (simp add: get_reg_dist_bits D_def n_def)
  ultimately show ?thesis by blast
qed

lemma relaxed_search_result:
  assumes "layout_ok info" "i < length info" "\<forall>j \<in> set js. j < length info"
  shows "relaxed_search info MA MB a b i js d = Some d \<or>
    relaxed_search info MA MB a b i js d = Some MISALIGN_PENALTY"
  using assms(3)
proof (induction js)
  case Nil
  then show ?case by simp
next
  case (Cons j js)
  have "\<exists>e. get_reg_dist info MA MB a b j i = Some e" if "regclass (info ! i) = regclass (info ! j)"
  proof -
    have "rsize (info ! j) = rsize (info ! i)"
      using assms(1,2) Cons.prems that by (simp add: layout_ok_def)
    then show ?thesis by (simp add: get_reg_dist_bits)
  qed
  then obtain e where "regclass (info ! i) = regclass (info ! j) \<longrightarrow>
    get_reg_dist info MA MB a b j i = Some e" by blast
  then show ?case using Cons by (cases "e = 0") auto
qed

lemma output_reg_dist_ok:
  assumes "layout_ok info" "i < length info"
  shows "\<exists>d. output_reg_dist info n MA MB a b i = Some d \<and> d \<le> 512 \<and>
    (d = 0 \<longleftrightarrow> same_reg info MA MB a b i)"
proof -
  obtain d where d: "get_reg_dist info MA MB a b i i = Some d" "d \<le> 512"
    "d = 0 \<longleftrightarrow> same_reg info MA MB a b i"
    using reg_dist_self [OF assms] by blast
  have "relaxed_search info MA MB a b i [n..<length info] d = Some d \<or>
    relaxed_search info MA MB a b i [n..<length info] d = Some MISALIGN_PENALTY"
    by (rule relaxed_search_result [OF assms]) simp
  then show ?thesis using d by (auto simp: output_reg_dist_def MISALIGN_PENALTY_def)
qed

lemma sum_reg_dist_ok:
  assumes "layout_ok info" "\<forall>i \<in> set is. i < length info"
    "unat r + 512 * length is < 2 ^ 64"
  shows "\<exists>d. sum_reg_dist info n MA MB a b is r = Some d \<and>
    (d = 0 \<longleftrightarrow> r = 0 \<and> (\<forall>i \<in> set is. same_reg info MA MB a b i))"
  using assms(2,3)
proof (induction "is" arbitrary: r)
  case Nil
  then show ?case by simp
next
  case (Cons i "is")
  obtain d where d: "output_reg_dist info n MA MB a b i = Some d" "d \<le> 512"
    "d = 0 \<longleftrightarrow> same_reg info MA MB a b i"
    using output_reg_dist_ok [OF assms(1), of i n MA MB a b] Cons.prems(1) by auto
  have ud: "unat d \<le> 512" using d(2) by (simp add: word_le_nat_alt)
  have bound: "unat r + unat d + 512 * length is < 2 ^ 64"
    using Cons.prems(2) ud by simp
  then have rd: "unat (r + d) = unat r + unat d" by (simp add: unat_plus_if')
  have "r + d = 0 \<longleftrightarrow> unat (r + d) = 0" by (simp only: unat_eq_zero)
  also have "\<dots> \<longleftrightarrow> unat r = 0 \<and> unat d = 0" unfolding rd by (rule add_is_0)
  finally have "r + d = 0 \<longleftrightarrow> unat r = 0 \<and> unat d = 0" .
  then have "r + d = 0 \<longleftrightarrow> r = 0 \<and> d = 0" by (simp only: unat_eq_zero)
  moreover obtain e where "sum_reg_dist info n MA MB a b is (r + d) = Some e"
    "e = 0 \<longleftrightarrow> r + d = 0 \<and> (\<forall>i \<in> set is. same_reg info MA MB a b i)"
    using Cons.IH [of "r + d"] Cons.prems(1) rd bound by (metis list.set_intros(2))
  ultimately show ?case using d(1,3) by auto
qed

lemma register_distance_ok:
  assumes "layout_ok info" "num_output \<le> length info" "num_output < 2 ^ 31"
  shows "\<exists>d. register_distance info num_output MA MB a b = Some d \<and>
    (d = 0 \<longleftrightarrow> (\<forall>i < num_output. same_reg info MA MB a b i))"
proof -
  have "\<exists>d. register_distance info num_output MA MB a b = Some d \<and>
      (d = 0 \<longleftrightarrow> (0 :: u64) = 0 \<and> (\<forall>i \<in> set [0..<num_output]. same_reg info MA MB a b i))"
    unfolding register_distance_def by (rule sum_reg_dist_ok) (use assms in auto)
  then show ?thesis by auto
qed

subsection \<open>Properties\<close>

text \<open>
  The distance is symmetric and satisfies the triangle inequality, so the
  search cannot be misled by going through an intermediate state.
\<close>

theorem get_mem_dist_metric:
  assumes "n < 2 ^ 61"
  shows "get_mem_dist MA MB a b n = get_mem_dist MB MA b a n \<and>
    unat (get_mem_dist MA MC a c n)
      \<le> unat (get_mem_dist MA MB a b n) + unat (get_mem_dist MB MC b c n)"
proof -
  have "bits_apart MA MC a c k \<le> bits_apart MA MB a b k + bits_apart MB MC b c k" for k
    unfolding bits_apart_def sum.distrib [symmetric] by (intro sum_mono byte_dist_triangle)
  moreover have "bits_apart MA MB a b k = bits_apart MB MA b a k" for k
    unfolding bits_apart_def by (intro sum.cong refl byte_dist_sym)
  ultimately show ?thesis
    unfolding unat_mem_dist [OF assms] by (simp add: get_mem_dist_bits)
qed

theorem get_mem_dist_metric_witness:
  "get_mem_dist (\<lambda>_. 1) (\<lambda>_. 3) 0 8 4 = get_mem_dist (\<lambda>_. 3) (\<lambda>_. 1) 8 0 4"
  using get_mem_dist_metric [of 4 "\<lambda>_. 1" "\<lambda>_. 3" 0 8] by simp

text \<open>
  Property C27. The relaxed comparison never fails an assertion on a well-formed register
  table, and the total register distance is 0 exactly when every output register of the
  rewrite holds the bytes of the target: relaxation lowers a distance, but not to 0.
\<close>

theorem register_distance_exact:
  assumes "layout_ok info" "num_output \<le> length info" "num_output < 2 ^ 31"
  shows "\<exists>d. register_distance info num_output MA MB a b = Some d \<and>
    (d = 0 \<longleftrightarrow> (\<forall>i < num_output. same_reg info MA MB a b i))"
  using assms by (rule register_distance_ok)

theorem register_distance_exact_witness:
  "\<exists>d. register_distance
      [\<lparr>offset = 0, rsize = 8, regclass = 1\<rparr>, \<lparr>offset = 8, rsize = 8, regclass = 1\<rparr>] 1
      (\<lambda>_. 5) (\<lambda>_. 7) 0 0 = Some d \<and> d \<noteq> 0"
proof -
  let ?info = "[\<lparr>offset = 0, rsize = 8, regclass = 1\<rparr>, \<lparr>offset = 8, rsize = 8, regclass = 1\<rparr>]"
  have "layout_ok ?info" by (simp add: layout_ok_def)
  from register_distance_exact [OF this, of 1 "\<lambda>_. 5" "\<lambda>_. 7" 0 0] obtain d where
    "register_distance ?info 1 (\<lambda>_. 5) (\<lambda>_. 7) 0 0 = Some d"
    "d = 0 \<longleftrightarrow> (\<forall>i < 1. same_reg ?info (\<lambda>_. 5) (\<lambda>_. 7) 0 0 i)" by auto
  moreover have "\<not> same_reg ?info (\<lambda>_. 5) (\<lambda>_. 7) 0 0 0"
    by (auto simp: same_reg_def intro!: exI [of _ 0])
  ultimately show ?thesis by auto
qed

end
