(* ===== verification/Worker.thy ===== *)
theory Worker
  imports Distance
begin

text \<open>
  The workers of \<open>server.c\<close>: the frame and the shared memory that \<open>spawn_impl\<close> lays out,
  the snapshot of the target's output, the process that tests one rewrite, and the loop
  that serves a client. The dynamic loader and the run of a rewrite are parameters.
\<close>

subsection \<open>Responses\<close>

record response =
  msg :: string
  stack_dist :: u64
  heap_dist :: u64
  reg_dist :: u64
  success :: int
  signal :: int

definition LIBPATH_MAX_LEN :: nat where "LIBPATH_MAX_LEN = 100"
definition CANT_LOAD_LIB :: string where "CANT_LOAD_LIB = ''unable to open library''"
definition CANT_LOAD_FUNC :: string where "CANT_LOAD_FUNC = ''unable to load function from library''"

text \<open>The fields that the code leaves uninitialised are 0 or empty here.\<close>

definition make_error :: "string \<Rightarrow> response" where
  "make_error m = \<lparr>msg = m, stack_dist = 0, heap_dist = 0, reg_dist = 0, success = 0, signal = 0\<rparr>"

definition make_report :: "u64 \<Rightarrow> u64 \<Rightarrow> u64 \<Rightarrow> int \<Rightarrow> response" where
  "make_report rd sd hd' crash_signal =
     \<lparr>msg = [], stack_dist = sd, heap_dist = hd', reg_dist = rd, success = 1, signal = crash_signal\<rparr>"

subsection \<open>Frame and shared memory\<close>

text \<open>The first page boundary at or above the end of the page-sized placeholder.\<close>

definition frame_start :: "u64 \<Rightarrow> u64 \<Rightarrow> u64" where
  "frame_start stack_boundary psize = (stack_boundary + psize - 1) AND NOT (psize - 1)"

definition SEM_SIZE :: u64 where "SEM_SIZE = 32"

text \<open>
  What \<open>spawn_impl\<close> computes before it forks: the regions of the target's stack and heap,
  their copies in the shared mapping, and the register table.
\<close>

record layout =
  stack_bottom :: u64
  stack_size :: u64
  heap_bottom :: u64
  heap_size :: u64
  target_stack :: u64
  target_heap :: u64
  target_reg_data :: u64
  reg_buf_size :: u64
  shared_size :: u64

definition reg_buffer_size :: "reg_info list \<Rightarrow> u64" where
  "reg_buffer_size info =
     (if length info > 0 then let last_reg = info ! (length info - 1) in offset last_reg + rsize last_reg
      else 0)"

definition spawn_layout :: "u64 \<Rightarrow> u64 \<Rightarrow> u64 \<Rightarrow> u64 \<Rightarrow> u64 \<Rightarrow> reg_info list \<Rightarrow> layout" where
  "spawn_layout fp heap_top server_stack_top server_heap_bottom shared_mem info =
     (let ssize = server_stack_top - fp;
          hsize = heap_top - server_heap_bottom;
          rbuf = reg_buffer_size info;
          tstack = shared_mem + SEM_SIZE;
          theap = tstack + ssize
      in \<lparr>stack_bottom = fp, stack_size = ssize, heap_bottom = server_heap_bottom,
          heap_size = hsize, target_stack = tstack, target_heap = theap,
          target_reg_data = theap + hsize, reg_buf_size = rbuf,
          shared_size = hsize + ssize + SEM_SIZE + rbuf\<rparr>)"

definition copy_bytes :: "u64 \<Rightarrow> u64 \<Rightarrow> u64 \<Rightarrow> bytes \<Rightarrow> bytes" where
  "copy_bytes dst src n M = (\<lambda>x. if x - dst < n then M (src + (x - dst)) else M x)"

text \<open>The copies the parent makes after the target has run.\<close>

definition snapshot :: "layout \<Rightarrow> u64 \<Rightarrow> nat \<Rightarrow> bytes \<Rightarrow> bytes" where
  "snapshot L ug_target_reg_data num_regs M =
     (let M = copy_bytes (target_stack L) (stack_bottom L) (stack_size L) M;
          M = (if heap_size L \<noteq> 0 then copy_bytes (target_heap L) (heap_bottom L) (heap_size L) M else M);
          M = (if num_regs > 0
            then copy_bytes (target_reg_data L) ug_target_reg_data (reg_buf_size L) M else M)
      in M)"

subsection \<open>Testing one rewrite\<close>

text \<open>
  Both processes see the mapping at the same addresses; it is shared and writable also for the
  children of the worker. The memory of a process: \<open>private\<close> outside of the mapping.
\<close>

definition in_mapping :: "layout \<Rightarrow> u64 \<Rightarrow> bool" where
  "in_mapping L x \<longleftrightarrow> x - (target_stack L - SEM_SIZE) < shared_size L"

definition view :: "layout \<Rightarrow> bytes \<Rightarrow> bytes \<Rightarrow> bytes" where
  "view L private mapping = (\<lambda>x. if in_mapping L x then mapping x else private x)"

text \<open>
  What running a rewrite comes to: the memory after it, the status for \<open>waitpid\<close> with which the
  process died and its memory then (the status is 0 if the rewrite called \<open>exit(0)\<close>), or that it
  never ends.
\<close>

datatype outcome = Finished bytes | Died int bytes | Endless

text \<open>
  The environment of a worker: \<open>dlopen\<close>, \<open>dlsym\<close> (0 is not found), the run of the function at an
  address in a process with a given memory (with what \<open>dlopen\<close> and the library's initialisers have
  done to it), and what allocating, filling and freeing a response does to the worker's own memory.
\<close>

record 'l loader =
  dlopen :: "string \<Rightarrow> 'l option"
  dlsym :: "'l \<Rightarrow> string \<Rightarrow> u64"
  run_rewrite :: "'l \<Rightarrow> u64 \<Rightarrow> bytes \<Rightarrow> outcome"
  report_mem :: "bytes \<Rightarrow> bytes"

definition measure_rewrite ::
  "layout \<Rightarrow> reg_info list \<Rightarrow> nat \<Rightarrow> bytes \<Rightarrow> u64 \<Rightarrow> response option" where
  "measure_rewrite L info num_output M rewrite_reg_data =
     (let sd = get_mem_dist M M (stack_bottom L) (target_stack L) (stack_size L);
          hd' = get_mem_dist M M (heap_bottom L) (target_heap L) (heap_size L)
      in do {
        rd \<leftarrow> register_distance info num_output M M rewrite_reg_data (target_reg_data L);
        Some (make_report rd sd hd' 0)
      })"

text \<open>
  The body of the child, in a copy of the worker's memory: the response it writes before
  \<open>_Exit(0)\<close>, or the status with which it dies without having written (a failed assertion aborts
  it), each with its memory at the end, or that it never ends.
\<close>

datatype child_end = Replied response bytes | Dead int bytes | Stuck

definition SIGABRT :: int where "SIGABRT = 6"

definition child_process ::
  "'l loader \<Rightarrow> string \<Rightarrow> layout \<Rightarrow> reg_info list \<Rightarrow> nat \<Rightarrow> string \<Rightarrow> bytes \<Rightarrow> child_end" where
  "child_process E funcname L info num_output path M =
     (case dlopen E path of
        None \<Rightarrow> Replied (make_error CANT_LOAD_LIB) M
      | Some lib \<Rightarrow>
          let rewrite = dlsym E lib funcname in
          if rewrite = 0 then Replied (make_error CANT_LOAD_FUNC) M
          else
            let rewrite_reg_data = dlsym E lib ''_ug_rewrite_reg_data'' in
            if rewrite_reg_data = 0 then Replied (make_error ''can't load _ug_rewrite_reg_data'') M
            else
              (case run_rewrite E lib rewrite M of
                 Finished M \<Rightarrow>
                   (case measure_rewrite L info num_output M rewrite_reg_data of
                      Some r \<Rightarrow> Replied r M
                    | None \<Rightarrow> Dead SIGABRT M)
               | Died retval M \<Rightarrow> Dead retval M
               | Endless \<Rightarrow> Stuck))"

text \<open>
  One request: what the client receives and the worker's memory afterwards. The child's changes of
  the mapping are there, and those by the crash report that the worker makes and frees when
  \<open>waitpid\<close> gives a status other than 0. \<open>None\<close>: \<open>waitpid\<close> does not return.
\<close>

definition serve_request ::
  "'l loader \<Rightarrow> string \<Rightarrow> layout \<Rightarrow> reg_info list \<Rightarrow> nat \<Rightarrow> string \<Rightarrow> bytes \<Rightarrow> (response list \<times> bytes) option" where
  "serve_request E funcname L info num_output path M =
     (case child_process E funcname L info num_output path M of
        Replied r M' \<Rightarrow> Some ([r], view L M M')
      | Dead retval M' \<Rightarrow>
          let M = view L M M' in
          if retval \<noteq> 0 then Some ([make_report 0 0 0 1], view L (report_mem E M) M)
          else Some ([], M)
      | Stuck \<Rightarrow> None)"

text \<open>
  A message arrives in pieces of at most \<open>LIBPATH_MAX_LEN\<close> bytes, one for each \<open>read\<close>. The path is
  what is in the zeroed buffer up to the first NUL; \<open>None\<close> is a buffer without one, which is read
  beyond its end.
\<close>

function reads :: "string \<Rightarrow> string list" where
  "reads m = (if m = [] then [] else take LIBPATH_MAX_LEN m # reads (drop LIBPATH_MAX_LEN m))"
  by auto

termination reads
  by (relation "measure length") (auto simp: LIBPATH_MAX_LEN_def)

declare reads.simps [simp del]

definition c_string :: "string \<Rightarrow> string option" where
  "c_string m =
     (if length m < LIBPATH_MAX_LEN \<or> CHR 0x00 \<in> set m then Some (takeWhile (\<lambda>c. c \<noteq> CHR 0x00) m) else None)"

text \<open>
  The loop of a worker over what it reads, from a memory on: the responses it writes, and whether
  it waits for the next message (with its memory then), has left the loop, which a message of at
  most one byte makes it do, or does not come back from a request.
\<close>

datatype serving = Waiting bytes | Left | Blocked

fun worker_loop ::
  "'l loader \<Rightarrow> string \<Rightarrow> layout \<Rightarrow> reg_info list \<Rightarrow> nat \<Rightarrow> string list \<Rightarrow> bytes \<Rightarrow> response list \<times> serving" where
  "worker_loop E funcname L info num_output [] M = ([], Waiting M)"
| "worker_loop E funcname L info num_output (m # ms) M =
     (if length m \<le> 1 then ([], Left)
      else case c_string m of
        None \<Rightarrow> ([], Blocked)
      | Some path \<Rightarrow>
          (case serve_request E funcname L info num_output path M of
             None \<Rightarrow> ([], Blocked)
           | Some (rs, M) \<Rightarrow>
               let (rs', w) = worker_loop E funcname L info num_output ms M in (rs @ rs', w)))"

text \<open>A worker in any of these states gets more to read.\<close>

definition serve_on ::
  "'l loader \<Rightarrow> string \<Rightarrow> layout \<Rightarrow> reg_info list \<Rightarrow> nat \<Rightarrow> string list \<Rightarrow> serving \<Rightarrow> response list \<times> serving" where
  "serve_on E funcname L info num_output ms w =
     (case w of Waiting M \<Rightarrow> worker_loop E funcname L info num_output ms M | _ \<Rightarrow> ([], w))"

subsection \<open>The client's side\<close>

text \<open>\<open>runTest\<close> sends the path with its NUL; \<open>killAllWorkers\<close> sends a lone NUL.\<close>

definition runTest :: "string \<Rightarrow> string" where "runTest libpath = libpath @ [CHR 0x00]"
definition kill_message :: string where "kill_message = [CHR 0x00]"

text \<open>A client session: one test per path, then the kill message.\<close>

definition session :: "string list \<Rightarrow> string list" where
  "session paths = map runTest paths @ [kill_message]"

subsection \<open>Lemmas\<close>

text \<open>The verdict on a rewrite: the child's response or the crash report; none if it does not end or exits with 0.\<close>

definition child_verdict :: "child_end \<Rightarrow> response option" where
  "child_verdict c =
     (case c of Replied r M \<Rightarrow> Some r | Dead retval M \<Rightarrow> if retval \<noteq> 0 then Some (make_report 0 0 0 1) else None
      | Stuck \<Rightarrow> None)"

lemma serve_request_verdict:
  assumes "child_verdict (child_process E f L info n path M) = Some r"
  shows "\<exists>M'. serve_request E f L info n path M = Some ([r], M')"
  using assms by (auto simp: child_verdict_def serve_request_def Let_def split: child_end.splits if_splits)

text \<open>Every rewrite ends, and not by \<open>exit(0)\<close>.\<close>

definition ends :: "'l loader \<Rightarrow> bool" where
  "ends E \<longleftrightarrow> (\<forall>lib rw M. run_rewrite E lib rw M \<noteq> Endless \<and> (\<forall>M'. run_rewrite E lib rw M \<noteq> Died 0 M'))"

lemma ends_verdict:
  assumes "ends E"
  shows "\<exists>r. child_verdict (child_process E f L info n path M) = Some r"
proof (cases "dlopen E path")
  case (Some lib)
  have "run_rewrite E lib (dlsym E lib f) M \<noteq> Endless" "\<And>M'. run_rewrite E lib (dlsym E lib f) M \<noteq> Died 0 M'"
    using assms by (simp_all add: ends_def)
  then show ?thesis
    using Some by (auto simp: child_verdict_def child_process_def Let_def SIGABRT_def split: outcome.splits option.splits)
qed (simp add: child_verdict_def child_process_def)

text \<open>No rewrite writes to the mapping.\<close>

definition keeps_mapping :: "'l loader \<Rightarrow> layout \<Rightarrow> bool" where
  "keeps_mapping E L \<longleftrightarrow> (\<forall>lib rw M M' st. run_rewrite E lib rw M = Finished M' \<or> run_rewrite E lib rw M = Died st M' \<longrightarrow>
     (\<forall>x. in_mapping L x \<longrightarrow> M' x = M x))"

lemma child_keeps_mapping:
  assumes k: "keeps_mapping E L" and x: "in_mapping L x"
    and c: "child_process E f L info n path M = Replied r M1 \<or> child_process E f L info n path M = Dead st M1"
  shows "M1 x = M x"
proof (cases "dlopen E path")
  case (Some lib)
  have "M2 x = M x" if "run_rewrite E lib rw M = Finished M2 \<or> run_rewrite E lib rw M = Died st M2" for rw M2 st
    using k that x unfolding keeps_mapping_def by blast
  then show ?thesis
    using c Some by (auto simp: child_process_def Let_def split: outcome.splits option.splits if_splits)
qed (use c in \<open>simp add: child_process_def\<close>)

text \<open>Then a request changes the memory of the worker by its crash report or not at all.\<close>

lemma serve_keeps_memory:
  assumes k: "keeps_mapping E L" and s: "serve_request E f L info n path M = Some (rs, M')"
  shows "M' = M \<or> M' = view L (report_mem E M) M"
proof -
  have "view L M M1 = M" if "child_process E f L info n path M = Replied r M1 \<or> child_process E f L info n path M = Dead st M1" for r st M1
    using child_keeps_mapping [OF k _ that] by (auto simp: view_def fun_eq_iff)
  then show ?thesis using s by (auto simp: serve_request_def Let_def split: child_end.splits if_splits)
qed

lemma serve_keeps_mapping:
  assumes "keeps_mapping E L" "serve_request E f L info n path M = Some (rs, M')" "in_mapping L x"
  shows "M' x = M x"
  using serve_keeps_memory [OF assms(1,2)] assms(3) by (auto simp: view_def)

lemma loop_keeps_mapping:
  assumes "keeps_mapping E L" "worker_loop E f L info n ms M = (rs, Waiting M')" "in_mapping L x"
  shows "M' x = M x"
  using assms(2)
proof (induction ms arbitrary: M rs)
  case (Cons m ms)
  then obtain path rs1 M1 rs2 where "serve_request E f L info n path M = Some (rs1, M1)"
    "worker_loop E f L info n ms M1 = (rs2, Waiting M')"
    by (auto split: if_splits option.splits prod.splits)
  then show ?case using Cons.IH serve_keeps_mapping [OF assms(1) _ assms(3)] by metis
qed simp

lemma worker_loop_append:
  "worker_loop E f L info n (ms @ ms') M =
    (let (rs, w) = worker_loop E f L info n ms M; (rs', w') = serve_on E f L info n ms' w in (rs @ rs', w'))"
  by (induction ms arbitrary: M) (auto simp: serve_on_def Let_def split: option.splits prod.splits)

text \<open>Paths that fit into the buffer.\<close>

definition good_path :: "string \<Rightarrow> bool" where
  "good_path p \<longleftrightarrow> p \<noteq> [] \<and> CHR 0x00 \<notin> set p \<and> length p < LIBPATH_MAX_LEN"

lemma one_read:
  assumes "m \<noteq> []" "length m \<le> LIBPATH_MAX_LEN"
  shows "reads m = [m]"
  using assms by (subst reads.simps) (simp add: reads.simps [of "[]"])

lemma test_read:
  assumes "good_path p"
  shows "reads (runTest p) = [runTest p]" "\<not> length (runTest p) \<le> 1" "c_string (runTest p) = Some p"
proof -
  show "reads (runTest p) = [runTest p]"
    using assms by (intro one_read) (simp_all add: runTest_def good_path_def)
  show "\<not> length (runTest p) \<le> 1" using assms by (cases p) (simp_all add: runTest_def good_path_def)
  have "takeWhile (\<lambda>c. c \<noteq> CHR 0x00) (p @ [CHR 0x00]) = p"
    using assms by (intro takeWhile_tail [THEN trans]) (auto simp: good_path_def takeWhile_eq_all_conv)
  then show "c_string (runTest p) = Some p" by (simp add: c_string_def runTest_def)
qed

lemma worker_loop_test:
  assumes "good_path p" "child_verdict (child_process E f L info n p M) = Some r"
  obtains M' where "serve_request E f L info n p M = Some ([r], M')"
    "worker_loop E f L info n (reads (runTest p)) M = ([r], Waiting M')"
  using serve_request_verdict [OF assms(2)] test_read [OF assms(1)] by auto

lemma worker_loop_tests:
  assumes "\<forall>p \<in> set paths. good_path p" "ends E"
  shows "\<exists>rs M'. worker_loop E f L info n (concat (map reads (map runTest paths))) M = (rs, Waiting M') \<and> length rs = length paths \<and>
    (\<forall>i < length paths. \<exists>Mi. worker_loop E f L info n (concat (map reads (map runTest (take i paths)))) M = (take i rs, Waiting Mi) \<and>
      child_verdict (child_process E f L info n (paths ! i) Mi) = Some (rs ! i))"
  using assms(1)
proof (induction paths rule: rev_induct)
  case (snoc p paths)
  let ?run = "\<lambda>ps. worker_loop E f L info n (concat (map reads (map runTest ps))) M"
  obtain rs M' where IH: "?run paths = (rs, Waiting M')" "length rs = length paths"
    "\<forall>i < length paths. \<exists>Mi. ?run (take i paths) = (take i rs, Waiting Mi) \<and>
      child_verdict (child_process E f L info n (paths ! i) Mi) = Some (rs ! i)"
    using snoc by auto
  have p: "good_path p" using snoc.prems by simp
  obtain r where r: "child_verdict (child_process E f L info n p M') = Some r" using ends_verdict [OF assms(2)] by blast
  obtain M'' where M'': "worker_loop E f L info n (reads (runTest p)) M' = ([r], Waiting M'')"
    by (rule worker_loop_test [OF p r])
  have "?run (paths @ [p]) = (rs @ [r], Waiting M'')"
    using IH(1) M'' by (simp add: worker_loop_append serve_on_def)
  moreover have "\<exists>Mi. ?run (take i (paths @ [p])) = (take i (rs @ [r]), Waiting Mi) \<and>
      child_verdict (child_process E f L info n ((paths @ [p]) ! i) Mi) = Some ((rs @ [r]) ! i)" if "i < length (paths @ [p])" for i
  proof (cases "i < length paths")
    case True
    then show ?thesis using IH(2,3) by (simp add: nth_append)
  next
    case False
    then have "i = length paths" using that by simp
    then show ?thesis using IH(1,2) r by (simp add: nth_append)
  qed
  ultimately show ?case using IH(2) by (intro exI [of _ "rs @ [r]"] exI [of _ M'']) simp
qed simp

lemma copy_bytes_in: "x - dst < n \<Longrightarrow> copy_bytes dst src n M x = M (src + (x - dst))"
  by (simp add: copy_bytes_def)

lemma copy_bytes_out: "\<not> x - dst < n \<Longrightarrow> copy_bytes dst src n M x = M x"
  by (simp add: copy_bytes_def)

lemma in_region: "i < unat n \<Longrightarrow> (a + of_nat i) - a < (n :: u64)"
  using unat_less_exp [of n]
  by (simp add: word_less_nat_alt unsigned_of_nat take_bit_nat_eq_self)


text \<open>
  An address outside the copies in the shared mapping. A mapping in which the copies do
  not wrap around keeps them apart.
\<close>

definition outside_copies :: "layout \<Rightarrow> u64 \<Rightarrow> bool" where
  "outside_copies L x \<longleftrightarrow>
     \<not> x - target_stack L < stack_size L \<and> \<not> x - target_heap L < heap_size L \<and>
     \<not> x - target_reg_data L < reg_buf_size L"

definition copies_fit :: "layout \<Rightarrow> bool" where
  "copies_fit L \<longleftrightarrow>
     target_heap L = target_stack L + stack_size L \<and>
     target_reg_data L = target_heap L + heap_size L \<and>
     stack_size L < 2 ^ 61 \<and> heap_size L < 2 ^ 61 \<and> reg_buf_size L < 2 ^ 61"

lemma before_region:
  assumes "i < unat S" "S < 2 ^ 61" "T < 2 ^ 61" "n < (2 ^ 61 :: u64)"
  shows "\<not> of_nat i - (S :: u64) < n" "\<not> of_nat i - (S + T :: u64) < n"
proof -
  have S: "unat S < 2 ^ 61" "unat T < 2 ^ 61" "unat n < 2 ^ 61"
    using assms(2-4) by (simp_all add: word_less_nat_alt)
  have i: "unat (of_nat i :: u64) = i"
    using assms(1) S(1) by (simp add: unsigned_of_nat take_bit_nat_eq_self)
  have ST: "unat (S + T) = unat S + unat T" using S by (simp add: unat_plus_if')
  show "\<not> of_nat i - (S :: u64) < n" "\<not> of_nat i - (S + T :: u64) < n"
    using assms(1) S i ST by (simp_all add: word_less_nat_alt unat_sub_if')
qed

lemma add_diff_eq_diff_diff:
  "(t :: u64) + w - (t + s) = w - s" "t + w - (t + s + h) = w - (s + h)"
  "t + s + w - (t + s + h) = w - h"
  by (simp_all add: algebra_simps)

lemma snapshot_copies:
  assumes L: "copies_fit L" and num: "num_regs > 0 \<or> reg_buf_size L = 0"
    and out: "\<And>i. i < unat (heap_size L) \<Longrightarrow> outside_copies L (heap_bottom L + of_nat i)"
      "\<And>i. i < unat (reg_buf_size L) \<Longrightarrow> outside_copies L (ug + of_nat i)"
  shows "i < unat (stack_size L) \<Longrightarrow>
      snapshot L ug num_regs M (target_stack L + of_nat i) = M (stack_bottom L + of_nat i)"
    and "i < unat (heap_size L) \<Longrightarrow>
      snapshot L ug num_regs M (target_heap L + of_nat i) = M (heap_bottom L + of_nat i)"
    and "i < unat (reg_buf_size L) \<Longrightarrow>
      snapshot L ug num_regs M (target_reg_data L + of_nat i) = M (ug + of_nat i)"
proof -
  have at: "target_heap L = target_stack L + stack_size L"
    "target_reg_data L = target_stack L + stack_size L + heap_size L"
    and sz: "stack_size L < 2 ^ 61" "heap_size L < 2 ^ 61" "reg_buf_size L < 2 ^ 61"
    using L by (simp_all add: copies_fit_def)
  have rel: "target_stack L + w - target_heap L = w - stack_size L"
    "target_stack L + w - target_reg_data L = w - (stack_size L + heap_size L)"
    "target_heap L + w - target_reg_data L = w - heap_size L" for w
    unfolding at by (rule add_diff_eq_diff_diff)+
  define M1 where "M1 = copy_bytes (target_stack L) (stack_bottom L) (stack_size L) M"
  define M2 where "M2 = (if heap_size L \<noteq> 0
    then copy_bytes (target_heap L) (heap_bottom L) (heap_size L) M1 else M1)"
  have snap: "snapshot L ug num_regs M = (if num_regs > 0
    then copy_bytes (target_reg_data L) ug (reg_buf_size L) M2 else M2)"
    by (simp add: snapshot_def Let_def M1_def M2_def)
  have same: "M1 x = M x" "M2 x = M x" if "outside_copies L x" for x
    using that by (simp_all add: outside_copies_def M1_def M2_def copy_bytes_out)
  show "snapshot L ug num_regs M (target_stack L + of_nat i) = M (stack_bottom L + of_nat i)"
    if "i < unat (stack_size L)"
  proof -
    have "\<not> target_stack L + of_nat i - target_heap L < heap_size L"
      "\<not> target_stack L + of_nat i - target_reg_data L < reg_buf_size L"
      using before_region(1) [OF that sz(1,2,2)] before_region(2) [OF that sz]
      unfolding rel by simp_all
    then have "snapshot L ug num_regs M (target_stack L + of_nat i) = M1 (target_stack L + of_nat i)"
      by (simp add: snap M2_def copy_bytes_out)
    then show ?thesis using in_region [OF that] by (simp add: M1_def copy_bytes_in)
  qed
  show "snapshot L ug num_regs M (target_heap L + of_nat i) = M (heap_bottom L + of_nat i)"
    if "i < unat (heap_size L)"
  proof -
    have "\<not> target_heap L + of_nat i - target_reg_data L < reg_buf_size L"
      using before_region(1) [OF that sz(2,2,3)] unfolding rel by simp
    then have "snapshot L ug num_regs M (target_heap L + of_nat i) = M2 (target_heap L + of_nat i)"
      by (simp add: snap copy_bytes_out)
    also have "\<dots> = M1 (heap_bottom L + of_nat i)"
      using in_region [OF that] that by (auto simp: M2_def copy_bytes_in)
    finally show ?thesis using same(1) [OF out(1) [OF that]] by simp
  qed
  show "snapshot L ug num_regs M (target_reg_data L + of_nat i) = M (ug + of_nat i)"
    if "i < unat (reg_buf_size L)"
  proof -
    have "num_regs > 0" using num that by auto
    then have "snapshot L ug num_regs M (target_reg_data L + of_nat i) = M2 (ug + of_nat i)"
      using in_region [OF that] by (simp add: snap copy_bytes_in)
    then show ?thesis using same(2) [OF out(2) [OF that]] by simp
  qed
qed

text \<open>Every register lies in the buffer.\<close>

definition regs_in_buffer :: "reg_info list \<Rightarrow> u64 \<Rightarrow> bool" where
  "regs_in_buffer info n \<longleftrightarrow>
     (\<forall>r \<in> set info. unat (offset r) + unat (rsize r) \<le> unat n)"

lemma same_reg_snapshot:
  assumes "regs_in_buffer info n" "i < length info"
    and "\<And>k. k < unat n \<Longrightarrow> MB (b + of_nat k) = M (ug + of_nat k)"
  shows "same_reg info MA MB a b i \<longleftrightarrow> (\<forall>k < unat (rsize (info ! i)).
    MA (a + offset (info ! i) + of_nat k) = M (ug + offset (info ! i) + of_nat k))"
proof -
  have in_buf: "unat (offset (info ! i)) + unat (rsize (info ! i)) \<le> unat n"
    using assms(1,2) by (simp add: regs_in_buffer_def)
  have "MB (b + offset (info ! i) + of_nat k) = M (ug + offset (info ! i) + of_nat k)"
    if "k < unat (rsize (info ! i))" for k
  proof -
    have "MB (b + of_nat (unat (offset (info ! i)) + k)) = M (ug + of_nat (unat (offset (info ! i)) + k))"
      using that in_buf by (intro assms(3)) simp
    then show ?thesis by (simp add: algebra_simps)
  qed
  then show ?thesis by (simp add: same_reg_def)
qed

lemma mem_dist_0_iff:
  assumes "n < 2 ^ 61"
  shows "get_mem_dist MA MB a b n = 0 \<longleftrightarrow> (\<forall>i < unat n. MA (a + of_nat i) = MB (b + of_nat i))"
proof -
  have "get_mem_dist MA MB a b n = 0 \<longleftrightarrow> unat (get_mem_dist MA MB a b n) = 0"
    by (simp only: unat_eq_zero)
  then show ?thesis unfolding unat_mem_dist [OF assms] bits_apart_0_iff .
qed

text \<open>
  A surviving rewrite is reported with all distances 0 exactly when it left the same bytes as
  the target in the stack above the frame, in the heap and in the output registers: the
  comparison with the snapshot neither misses nor invents a difference.
\<close>

lemma report_zero:
  assumes L: "copies_fit L" and info: "layout_ok info" "regs_in_buffer info (reg_buf_size L)"
    "num_output \<le> length info" "num_output < 2 ^ 31" "info \<noteq> [] \<or> reg_buf_size L = 0"
    and out: "\<forall>i < unat (heap_size L). outside_copies L (heap_bottom L + of_nat i)"
      "\<forall>i < unat (reg_buf_size L). outside_copies L (ug + of_nat i)"
    and child: "\<forall>x. \<not> outside_copies L x \<longrightarrow> M' x = snapshot L ug (length info) M x"
  shows "measure_rewrite L info num_output M' rr = Some (make_report 0 0 0 0) \<longleftrightarrow>
    (\<forall>i < unat (stack_size L). M' (stack_bottom L + of_nat i) = M (stack_bottom L + of_nat i)) \<and>
    (\<forall>i < unat (heap_size L). M' (heap_bottom L + of_nat i) = M (heap_bottom L + of_nat i)) \<and>
    (\<forall>r < num_output. \<forall>k < unat (rsize (info ! r)).
      M' (rr + offset (info ! r) + of_nat k) = M (ug + offset (info ! r) + of_nat k))"
proof -
  have num: "length info > 0 \<or> reg_buf_size L = 0" using info(5) by auto
  have out1: "outside_copies L (heap_bottom L + of_nat i)" if "i < unat (heap_size L)" for i
    using out(1) that by blast
  have out2: "outside_copies L (ug + of_nat i)" if "i < unat (reg_buf_size L)" for i
    using out(2) that by blast
  note snap = snapshot_copies [OF L num out1 out2]
  have st: "M' (target_stack L + of_nat i) = M (stack_bottom L + of_nat i)"
    if "i < unat (stack_size L)" for i
    using child snap(1) [OF _ _ that] in_region [OF that] by (simp add: outside_copies_def)
  have hp: "M' (target_heap L + of_nat i) = M (heap_bottom L + of_nat i)"
    if "i < unat (heap_size L)" for i
    using child snap(2) [OF _ _ that] in_region [OF that] by (simp add: outside_copies_def)
  have rg: "M' (target_reg_data L + of_nat i) = M (ug + of_nat i)"
    if "i < unat (reg_buf_size L)" for i
    using child snap(3) [OF _ _ that] in_region [OF that] by (simp add: outside_copies_def)
  have sd: "get_mem_dist M' M' (stack_bottom L) (target_stack L) (stack_size L) = 0 \<longleftrightarrow>
      (\<forall>i < unat (stack_size L). M' (stack_bottom L + of_nat i) = M (stack_bottom L + of_nat i))"
    using L st by (simp add: mem_dist_0_iff copies_fit_def)
  have hd: "get_mem_dist M' M' (heap_bottom L) (target_heap L) (heap_size L) = 0 \<longleftrightarrow>
      (\<forall>i < unat (heap_size L). M' (heap_bottom L + of_nat i) = M (heap_bottom L + of_nat i))"
    using L hp by (simp add: mem_dist_0_iff copies_fit_def)
  obtain d where d: "register_distance info num_output M' M' rr (target_reg_data L) = Some d"
    "d = 0 \<longleftrightarrow> (\<forall>r < num_output. same_reg info M' M' rr (target_reg_data L) r)"
    using register_distance_ok [OF info(1,3,4)] by blast
  have "same_reg info M' M' rr (target_reg_data L) r \<longleftrightarrow> (\<forall>k < unat (rsize (info ! r)).
      M' (rr + offset (info ! r) + of_nat k) = M (ug + offset (info ! r) + of_nat k))"
    if "r < num_output" for r
    using that info(3) by (intro same_reg_snapshot [OF info(2)] rg) simp_all
  then show ?thesis
    unfolding sd [symmetric] hd [symmetric] using d
    by (auto simp: measure_rewrite_def make_report_def Let_def)
qed

lemma all_less_two: "(\<forall>i < Suc (Suc 0). P i) \<longleftrightarrow> P 0 \<and> P (Suc 0)"
  by (auto simp: less_Suc_eq)

subsection \<open>Properties\<close>

definition example_layout :: layout where
  "example_layout = \<lparr>stack_bottom = 0x100, stack_size = 1, heap_bottom = 0x200, heap_size = 1,
     target_stack = 0x1000, target_heap = 0x1001, target_reg_data = 0x1002, reg_buf_size = 1,
     shared_size = 35\<rparr>"

text \<open>
  Property C22. A session of tests followed by the kill message, with paths that fit into the
  worker's buffer and rewrites that all end (by themselves, by a crash or by an exit with a status
  other than 0), gets exactly one response per test, in order, and the worker then leaves its loop.
  Each response is the verdict on the rewrite in the memory that the earlier tests have left; a
  child that died is answered by the crash report of its parent.
\<close>

theorem worker_session:
  assumes "\<forall>p \<in> set paths. good_path p" "ends E"
  shows "\<exists>rs. worker_loop E f L info n (concat (map reads (session paths)) @ rest) M = (rs, Left) \<and> length rs = length paths \<and>
    (\<forall>i < length paths. \<exists>Mi. worker_loop E f L info n (concat (map reads (map runTest (take i paths)))) M = (take i rs, Waiting Mi) \<and>
      child_verdict (child_process E f L info n (paths ! i) Mi) = Some (rs ! i))"
proof -
  obtain rs M' where rs: "worker_loop E f L info n (concat (map reads (map runTest paths))) M = (rs, Waiting M')" "length rs = length paths"
    "\<forall>i < length paths. \<exists>Mi. worker_loop E f L info n (concat (map reads (map runTest (take i paths)))) M = (take i rs, Waiting Mi) \<and>
      child_verdict (child_process E f L info n (paths ! i) Mi) = Some (rs ! i)"
    using worker_loop_tests [OF assms] by blast
  have "reads kill_message = [kill_message]" by (rule one_read) (simp_all add: kill_message_def LIBPATH_MAX_LEN_def)
  then have "concat (map reads (session paths)) @ rest = concat (map reads (map runTest paths)) @ kill_message # rest"
    by (simp add: session_def)
  moreover have "serve_on E f L info n (kill_message # rest) (Waiting M') = ([], Left)"
    by (simp add: serve_on_def kill_message_def)
  ultimately have "worker_loop E f L info n (concat (map reads (session paths)) @ rest) M = (rs, Left)"
    using rs(1) by (simp add: worker_loop_append)
  then show ?thesis using rs(2,3) by blast
qed

text \<open>A loader with one library, whose rewrite crashes.\<close>

definition crashing :: "unit loader" where
  "crashing = \<lparr>dlopen = (\<lambda>p. if p = ''a.so'' then Some () else None), dlsym = (\<lambda>_ _. 8),
     run_rewrite = (\<lambda>_ _ M. Died 256 M), report_mem = (\<lambda>M. M(0x200 := 1))\<rparr>"

theorem worker_session_witness:
  "worker_loop crashing ''max'' example_layout [] 0 (concat (map reads (session [''a.so'', ''b.so'']))) (\<lambda>_. 0)
    = ([make_report 0 0 0 1, make_error CANT_LOAD_LIB], Left)"
proof -
  have g: "\<forall>p \<in> set [''a.so'', ''b.so'']. good_path p" "ends crashing"
    by (simp_all add: good_path_def LIBPATH_MAX_LEN_def ends_def crashing_def)
  obtain rs M0 M1 where rs: "worker_loop crashing ''max'' example_layout [] 0 (concat (map reads (session [''a.so'', ''b.so''])))
      (\<lambda>_. 0) = (rs, Left)" "length rs = 2"
    "child_verdict (child_process crashing ''max'' example_layout [] 0 ''a.so'' M0) = Some (rs ! 0)"
    "child_verdict (child_process crashing ''max'' example_layout [] 0 ''b.so'' M1) = Some (rs ! 1)"
    using worker_session [OF g, of "''max''" example_layout "[]" 0 "[]" "\<lambda>_. 0"] by (auto simp: all_less_two)
  have "child_process crashing ''max'' example_layout [] 0 ''a.so'' M0 = Dead 256 M0"
    "child_process crashing ''max'' example_layout [] 0 ''b.so'' M1 = Replied (make_error CANT_LOAD_LIB) M1"
    by (simp_all add: child_process_def crashing_def)
  then have "rs ! 0 = make_report 0 0 0 1" "rs ! 1 = make_error CANT_LOAD_LIB"
    using rs(3,4) by (simp_all add: child_verdict_def)
  then have "rs = [make_report 0 0 0 1, make_error CANT_LOAD_LIB]"
    using rs(2) by (intro nth_equalityI) (auto simp: less_Suc_eq numeral_2_eq_2)
  then show ?thesis using rs(1) by simp
qed

end
