(* ===== verification/Client.thy ===== *)
theory Client
  imports Worker
begin

text \<open>
  The client of \<open>replay_cli.cpp\<close>: reading the worker file that the server wrote, and the
  exchange of requests and responses with all workers. Connecting is a parameter.
\<close>

subsection \<open>Decimal numbers\<close>

text \<open>\<open>%zu\<close>, and \<open>std::stol\<close>: \<open>None\<close> is its exception (no digits, or out of range).\<close>

definition digit :: "nat \<Rightarrow> char" where "digit d = char_of (48 + d)"
definition is_digit :: "char \<Rightarrow> bool" where "is_digit c \<longleftrightarrow> of_char c \<in> {48..57 :: nat}"
definition digit_value :: "char \<Rightarrow> nat" where "digit_value c = of_char c - 48"

fun dec :: "nat \<Rightarrow> string" where
  "dec n = (if n < 10 then [digit n] else dec (n div 10) @ [digit (n mod 10)])"

definition digits_value :: "string \<Rightarrow> nat" where
  "digits_value = foldl (\<lambda>v c. 10 * v + digit_value c) 0"

definition is_space :: "char \<Rightarrow> bool" where
  "is_space c \<longleftrightarrow> of_char c \<in> {9, 10, 11, 12, 13, 32 :: nat}"

definition stol :: "string \<Rightarrow> int option" where
  "stol str =
     (let str = dropWhile is_space str;
          (neg, str) = (case str of
              c # cs \<Rightarrow> if c = CHR ''-'' then (True, cs) else if c = CHR ''+'' then (False, cs) else (False, str)
            | [] \<Rightarrow> (False, str));
          ds = takeWhile is_digit str;
          v = int (digits_value ds);
          v = (if neg then - v else v)
      in if ds \<noteq> [] \<and> - (2 ^ 63) \<le> v \<and> v < 2 ^ 63 then Some v else None)"

subsection \<open>The worker file\<close>

text \<open>The line that \<open>dump_worker_data\<close> appends.\<close>

definition dump_worker_data :: "string \<Rightarrow> u64 \<Rightarrow> u64 \<Rightarrow> string" where
  "dump_worker_data sock_path frame_begin frame_size =
     sock_path @ '','' @ dec (unat frame_begin) @ '','' @ dec (unat frame_size) @ [CHR 0x0A]"

text \<open>
  \<open>std::getline\<close> with a delimiter on a stream (\<open>None\<close> is one at end of file): the string it
  leaves in \<open>old\<close>, and the stream. At end of file the string keeps its value.
\<close>

definition getline :: "char \<Rightarrow> string \<Rightarrow> string option \<Rightarrow> string \<times> string option" where
  "getline c old st =
     (case st of
        None \<Rightarrow> (old, None)
      | Some str \<Rightarrow>
          (takeWhile (\<lambda>x. x \<noteq> c) str,
           case dropWhile (\<lambda>x. x \<noteq> c) str of [] \<Rightarrow> None | _ # rest \<Rightarrow> Some rest))"

lemma getline_shorter:
  assumes "getline c old (Some str) = (line, Some rest)"
  shows "length rest < length str"
proof -
  from assms obtain x where "dropWhile (\<lambda>x. x \<noteq> c) str = x # rest"
    by (auto simp: getline_def split: list.splits)
  then show ?thesis using length_dropWhile_le [of "\<lambda>x. x \<noteq> c" str] by simp
qed

text \<open>The lines that the loop over the file sees.\<close>

function file_lines :: "string \<Rightarrow> string list" where
  "file_lines str =
     (if str = [] then []
      else let (line, st) = getline (CHR 0x0A) [] (Some str)
        in line # (case st of None \<Rightarrow> [] | Some rest \<Rightarrow> file_lines rest))"
  by auto
termination
  by (relation "measure length") (auto dest: getline_shorter [OF sym])

record worker =
  FrameBegin :: u64
  FrameSize :: u64
  Socket :: nat

text \<open>
  The body of the loop: \<open>Str\<close> is the buffer that keeps its value from field to field, and
  \<open>connect\<close> gives the socket of a path.
\<close>

definition parse_worker :: "(string \<Rightarrow> nat option) \<Rightarrow> string \<Rightarrow> string \<Rightarrow> (worker \<times> string) option" where
  "parse_worker connect Str line =
     (let (Sockpath, fields) = getline CHR '','' [] (Some line);
          (Str, fields) = getline CHR '','' Str fields in
      do {
        fb \<leftarrow> stol Str;
        let (Str, fields) = getline CHR '','' Str fields;
        fs \<leftarrow> stol Str;
        sock \<leftarrow> connect Sockpath;
        Some (\<lparr>FrameBegin = of_int fb, FrameSize = of_int fs, Socket = sock\<rparr>, Str)
      })"

fun parse_lines :: "(string \<Rightarrow> nat option) \<Rightarrow> string \<Rightarrow> string list \<Rightarrow> worker list option" where
  "parse_lines connect Str [] = Some []"
| "parse_lines connect Str (line # lines) =
     do {
       (W, Str) \<leftarrow> parse_worker connect Str line;
       Ws \<leftarrow> parse_lines connect Str lines;
       Some (W # Ws)
     }"

definition read_workers :: "(string \<Rightarrow> nat option) \<Rightarrow> string \<Rightarrow> worker list option" where
  "read_workers connect contents = parse_lines connect [] (file_lines contents)"

subsection \<open>Requests and responses\<close>

text \<open>
  The sockets: where the worker behind each stands, and the responses that it wrote and that are
  not received yet. The behaviour of a worker is what it writes and where it then stands, from
  what it reads and where it stands. A client sends a message only when the one before was
  answered, so messages do not run together: a worker gets the pieces of each on their own.
  Receiving is \<open>None\<close> when no response is there: it never comes, or the worker is gone and the
  code returns an uninitialised one.
\<close>

record net =
  workers_at :: "nat \<Rightarrow> serving"
  unread :: "nat \<Rightarrow> response list"

type_synonym behaviour = "nat \<Rightarrow> string list \<Rightarrow> serving \<Rightarrow> response list \<times> serving"

definition send_to :: "behaviour \<Rightarrow> nat \<Rightarrow> string \<Rightarrow> net \<Rightarrow> net" where
  "send_to beh k m N =
     (let (rs, w) = beh k (reads m) (workers_at N k)
      in N\<lparr>workers_at := (workers_at N)(k := w), unread := (unread N)(k := unread N k @ rs)\<rparr>)"

definition waitTest :: "nat \<Rightarrow> net \<Rightarrow> (response \<times> net) option" where
  "waitTest k N =
     (case unread N k of [] \<Rightarrow> None | r # rs \<Rightarrow> Some (r, N\<lparr>unread := (unread N)(k := rs)\<rparr>))"

fun wait_all :: "worker list \<Rightarrow> net \<Rightarrow> (response list \<times> net) option" where
  "wait_all [] N = Some ([], N)"
| "wait_all (W # Ws) N =
     do {
       (r, N) \<leftarrow> waitTest (Socket W) N;
       (rs, N) \<leftarrow> wait_all Ws N;
       Some (r # rs, N)
     }"

definition runAllTests :: "behaviour \<Rightarrow> worker list \<Rightarrow> string \<Rightarrow> net \<Rightarrow> (response list \<times> net) option" where
  "runAllTests beh Ws libpath N =
     wait_all Ws (fold (\<lambda>W. send_to beh (Socket W) (runTest libpath)) Ws N)"

definition killAllWorkers :: "behaviour \<Rightarrow> worker list \<Rightarrow> net \<Rightarrow> net" where
  "killAllWorkers beh Ws N = fold (\<lambda>W. send_to beh (Socket W) kill_message) Ws N"

subsection \<open>Lemmas on numbers and lines\<close>

lemma digit_props [simp]:
  "d < 10 \<Longrightarrow> is_digit (digit d)" "d < 10 \<Longrightarrow> digit_value (digit d) = d"
  by (simp_all add: is_digit_def digit_def digit_value_def)

declare dec.simps [simp del]

lemma dec_props: "dec n \<noteq> [] \<and> (\<forall>c \<in> set (dec n). is_digit c) \<and> digits_value (dec n) = n"
proof (induction n rule: dec.induct)
  case (1 n)
  then show ?case
    by (subst (1 2 3) dec.simps) (auto simp: digits_value_def)
qed

lemma digit_not_sep: "is_digit c \<Longrightarrow> c \<noteq> CHR '','' \<and> c \<noteq> CHR 0x0A \<and> c \<noteq> CHR ''-'' \<and> c \<noteq> CHR ''+'' \<and> \<not> is_space c"
  by (auto simp: is_digit_def is_space_def)

lemma stol_dec:
  assumes "n < 2 ^ 63"
  shows "stol (dec n) = Some (int n)"
proof -
  note d = dec_props [of n]
  obtain c cs where c: "dec n = c # cs" using d by (cases "dec n") auto
  then have dc: "is_digit c" using d by simp
  have "dropWhile is_space (dec n) = dec n" using c digit_not_sep [OF dc] by simp
  moreover have "(case dec n of x # xs \<Rightarrow> if x = CHR ''-'' then (True, xs)
      else if x = CHR ''+'' then (False, xs) else (False, dec n) | [] \<Rightarrow> (False, dec n)) = (False, dec n)"
    using digit_not_sep [OF dc] by (simp add: c)
  moreover have tw: "takeWhile is_digit (dec n) = dec n" using d by (simp add: takeWhile_eq_all_conv)
  ultimately show ?thesis
    using d assms by (simp add: stol_def tw)
qed

lemma getline_hit:
  "c \<notin> set a \<Longrightarrow> getline c old (Some (a @ c # b)) = (a, Some b)"
  by (simp add: getline_def takeWhile_append2 dropWhile_append2)
     (induction a; auto)

lemma getline_end:
  "c \<notin> set a \<Longrightarrow> getline c old (Some a) = (a, None)"
  unfolding getline_def by (induction a) auto


lemma dec_no_sep: "CHR '','' \<notin> set (dec n)" "CHR 0x0A \<notin> set (dec n)"
  using dec_props [of n] digit_not_sep by blast+

text \<open>A socket path that the file format can carry.\<close>

definition path_ok :: "string \<Rightarrow> bool" where
  "path_ok p \<longleftrightarrow> CHR '','' \<notin> set p \<and> CHR 0x0A \<notin> set p"

definition entry_ok :: "string \<times> u64 \<times> u64 \<Rightarrow> bool" where
  "entry_ok e \<longleftrightarrow> (case e of (p, b, n) \<Rightarrow> path_ok p \<and> b < 2 ^ 63 \<and> n < 2 ^ 63)"

definition worker_line :: "string \<times> u64 \<times> u64 \<Rightarrow> string" where
  "worker_line e = (case e of (p, b, n) \<Rightarrow> p @ CHR '','' # dec (unat b) @ CHR '','' # dec (unat n))"

lemma dump_line: "dump_worker_data p b n = worker_line (p, b, n) @ [CHR 0x0A]"
  by (simp add: dump_worker_data_def worker_line_def)

lemma parse_line:
  assumes "entry_ok (p, b, n)" "connect p = Some k"
  shows "\<exists>Str. parse_worker connect old (worker_line (p, b, n))
    = Some (\<lparr>FrameBegin = b, FrameSize = n, Socket = k\<rparr>, Str)"
proof -
  have "unat b < 2 ^ 63" "unat n < 2 ^ 63"
    using assms(1) by (simp_all add: entry_ok_def word_less_nat_alt)
  then have st: "stol (dec (unat b)) = Some (int (unat b))" "stol (dec (unat n)) = Some (int (unat n))"
    by (simp_all add: stol_dec)
  have p: "CHR '','' \<notin> set p" using assms(1) by (simp add: entry_ok_def path_ok_def)
  show ?thesis
    by (simp add: parse_worker_def worker_line_def getline_hit p getline_hit [OF dec_no_sep(1)]
        getline_end [OF dec_no_sep(1)] st assms(2))
qed

definition worker_file :: "(string \<times> u64 \<times> u64) list \<Rightarrow> string" where
  "worker_file es = concat (map (\<lambda>(p, b, n). dump_worker_data p b n) es)"

lemma file_lines_dumps:
  assumes "\<forall>e \<in> set es. entry_ok e"
  shows "file_lines (worker_file es) = map worker_line es"
  using assms
proof (induction es)
  case Nil
  then show ?case by (simp add: worker_file_def)
next
  case (Cons e es)
  have "CHR 0x0A \<notin> set (worker_line e)"
    using Cons.prems by (auto simp: entry_ok_def path_ok_def worker_line_def dec_no_sep)
  then have "getline (CHR 0x0A) [] (Some (worker_line e @ CHR 0x0A # worker_file es))
    = (worker_line e, Some (worker_file es))"
    by (rule getline_hit)
  moreover have "worker_file (e # es) = worker_line e @ CHR 0x0A # worker_file es"
    by (cases e) (simp add: worker_file_def dump_line)
  ultimately show ?case
    using Cons by (subst file_lines.simps) (simp del: file_lines.simps)
qed

declare file_lines.simps [simp del]

lemma parse_all_lines:
  assumes "\<forall>e \<in> set es. entry_ok e \<and> connect (fst e) \<noteq> None"
  shows "parse_lines connect old (map worker_line es) =
    Some (map (\<lambda>(p, b, n). \<lparr>FrameBegin = b, FrameSize = n, Socket = the (connect p)\<rparr>) es)"
  using assms
proof (induction es arbitrary: old)
  case Nil
  then show ?case by simp
next
  case (Cons e es)
  obtain p b n where e: "e = (p, b, n)" by (cases e)
  obtain k where k: "connect p = Some k" using Cons.prems by (auto simp: e)
  obtain Str where "parse_worker connect old (worker_line (p, b, n))
      = Some (\<lparr>FrameBegin = b, FrameSize = n, Socket = k\<rparr>, Str)"
    using parse_line [of p b n connect k old] Cons.prems k by (auto simp: e)
  then show ?case using Cons by (simp add: e k)
qed

lemma send_fold:
  assumes "distinct (map Socket Ws)"
  shows "workers_at (fold (\<lambda>W. send_to beh (Socket W) m) Ws N) k =
      (if k \<in> Socket ` set Ws then snd (beh k (reads m) (workers_at N k)) else workers_at N k)"
    "unread (fold (\<lambda>W. send_to beh (Socket W) m) Ws N) k =
      (if k \<in> Socket ` set Ws then unread N k @ fst (beh k (reads m) (workers_at N k)) else unread N k)"
  using assms by (induction Ws arbitrary: N) (auto simp: send_to_def split: prod.splits)

lemma wait_all_responses:
  assumes "distinct (map Socket Ws)" "\<forall>W \<in> set Ws. unread N (Socket W) = [r W]"
  shows "\<exists>N'. wait_all Ws N = Some (map r Ws, N') \<and> workers_at N' = workers_at N \<and>
    (\<forall>k. unread N' k = (if k \<in> Socket ` set Ws then [] else unread N k))"
  using assms
proof (induction Ws arbitrary: N)
  case (Cons W Ws)
  let ?N = "N\<lparr>unread := (unread N)(Socket W := [])\<rparr>"
  have "\<forall>V \<in> set Ws. unread ?N (Socket V) = [r V]" using Cons.prems by (auto simp: image_iff)
  then obtain N' where N': "wait_all Ws ?N = Some (map r Ws, N')" "workers_at N' = workers_at ?N"
    "\<forall>k. unread N' k = (if k \<in> Socket ` set Ws then [] else unread ?N k)"
    using Cons.IH [of ?N] Cons.prems(1) by auto
  then show ?case using Cons.prems(2) by (auto simp: waitTest_def)
qed simp

subsection \<open>The exchange as a whole\<close>

text \<open>What the server appends for each worker is read back as exactly those workers.\<close>

lemma worker_file_roundtrip:
  assumes "\<forall>e \<in> set es. entry_ok e \<and> connect (fst e) \<noteq> None"
  shows "read_workers connect (worker_file es) =
    Some (map (\<lambda>(p, b, n). \<lparr>FrameBegin = b, FrameSize = n, Socket = the (connect p)\<rparr>) es)"
  using assms by (simp add: read_workers_def file_lines_dumps parse_all_lines)

text \<open>
  \<open>runAllTests\<close> on workers that wait for a message returns one response per worker, in order, that
  is the worker's own verdict on this library in the memory it has; if every rewrite ends, all
  workers wait again and no response is left unread, so the next test starts in the same situation.
\<close>

lemma run_all_tests:
  assumes "distinct (map Socket Ws)" "good_path libpath"
    and beh: "\<forall>W \<in> set Ws. beh (Socket W) = serve_on (E W) f (L W) (info W) (n W)"
    and fin: "\<forall>W \<in> set Ws. ends (E W)"
    and N: "\<forall>W \<in> set Ws. workers_at N (Socket W) = Waiting (mem W) \<and> unread N (Socket W) = []"
  shows "\<exists>r N'. runAllTests beh Ws libpath N = Some (map r Ws, N') \<and>
    (\<forall>W \<in> set Ws. child_verdict (child_process (E W) f (L W) (info W) (n W) libpath (mem W)) = Some (r W) \<and>
      unread N' (Socket W) = [] \<and> (\<exists>M'. workers_at N' (Socket W) = Waiting M' \<and>
        serve_request (E W) f (L W) (info W) (n W) libpath (mem W) = Some ([r W], M')))"
proof -
  let ?N = "fold (\<lambda>W. send_to beh (Socket W) (runTest libpath)) Ws N"
  have "\<exists>r M'. child_verdict (child_process (E W) f (L W) (info W) (n W) libpath (mem W)) = Some r \<and>
      serve_request (E W) f (L W) (info W) (n W) libpath (mem W) = Some ([r], M') \<and>
      beh (Socket W) (reads (runTest libpath)) (workers_at N (Socket W)) = ([r], Waiting M')"
    if W: "W \<in> set Ws" for W
  proof -
    obtain r where r: "child_verdict (child_process (E W) f (L W) (info W) (n W) libpath (mem W)) = Some r"
      using ends_verdict fin W by blast
    show ?thesis
      using W beh N r by (auto simp: serve_on_def intro: worker_loop_test [OF assms(2) r])
  qed
  then obtain r M' where rM: "\<And>W. W \<in> set Ws \<Longrightarrow>
      child_verdict (child_process (E W) f (L W) (info W) (n W) libpath (mem W)) = Some (r W) \<and>
      serve_request (E W) f (L W) (info W) (n W) libpath (mem W) = Some ([r W], M' W) \<and>
      beh (Socket W) (reads (runTest libpath)) (workers_at N (Socket W)) = ([r W], Waiting (M' W))"
    by metis
  have "\<forall>W \<in> set Ws. unread ?N (Socket W) = [r W] \<and> workers_at ?N (Socket W) = Waiting (M' W)"
    using rM N by (simp add: send_fold [OF assms(1)])
  then obtain N' where "wait_all Ws ?N = Some (map r Ws, N')" "workers_at N' = workers_at ?N"
    "\<forall>k. unread N' k = (if k \<in> Socket ` set Ws then [] else unread ?N k)"
    and "\<forall>W \<in> set Ws. workers_at ?N (Socket W) = Waiting (M' W)"
    using wait_all_responses [OF assms(1), of ?N r] by blast
  then show ?thesis using rM by (intro exI [of _ r] exI [of _ N']) (auto simp: runAllTests_def)
qed

end
