(* ===== verification/Transform.thy ===== *)
theory Transform
  imports Prelude
begin

text \<open>
  The transformations of \<open>transform.cpp\<close> on the one basic block of a rewrite. Instructions
  are objects behind pointers, the block is the list of the pointers in it, and an iterator
  is a pointer, the end of the block or null. The tables of the target (LLVM's instruction
  and register descriptions) and \<open>rand()\<close> are parameters. \<open>None\<close> is a failed assertion, a
  use of a null iterator or a loop that does not end.
\<close>

subsection \<open>Instructions and target tables\<close>

datatype operand = Imm int | Reg nat

record minstr =
  opcode :: nat
  operands :: "operand list"

datatype operand_type = OPERAND_UNKNOWN | OPERAND_IMMEDIATE | OPERAND_REGISTER | OPERAND_MEMORY |
  OPERAND_PCREL | OPERAND_FIRST_TARGET | OPERAND_OTHER

record op_info =
  OperandType :: operand_type
  RegClass :: int

text \<open>
  An instruction description: \<open>OpInfo\<close> has \<open>NumOperands\<close> entries, \<open>tied_to_0\<close> is
  \<open>getOperandConstraint(0, TIED_TO)\<close>, which is -1 where there is no constraint, and
  \<open>implicit_ops\<close> are the operands that \<open>CreateMachineInstr\<close> adds behind the explicit ones.
\<close>

record mc_desc =
  opname :: string
  OpInfo :: "op_info list"
  isPseudo :: bool
  isBranch :: bool
  isReturn :: bool
  isCall :: bool
  isVariadic :: bool
  tied_to_0 :: int
  implicit_ops :: "operand list"

record target =
  descs :: "mc_desc list"
  class_regs :: "op_info \<Rightarrow> nat list"
  RIP :: nat
  EIP :: nat
  IP :: nat

definition desc_of :: "target \<Rightarrow> nat \<Rightarrow> mc_desc" where "desc_of T opc = descs T ! opc"

text \<open>Two opcodes with operands of the same kinds, registers of the same classes.\<close>

definition isExchangeable :: "target \<Rightarrow> nat \<Rightarrow> nat \<Rightarrow> bool" where
  "isExchangeable T A B \<longleftrightarrow>
     (let OA = OpInfo (desc_of T A); OB = OpInfo (desc_of T B) in
      length OA = length OB \<and>
      list_all (\<lambda>(a, b). OperandType a = OperandType b \<and>
        (OperandType a = OPERAND_REGISTER \<longrightarrow> RegClass a = RegClass b)) (zip OA OB))"

definition starts_with :: "string \<Rightarrow> string \<Rightarrow> bool" where
  "starts_with p str \<longleftrightarrow> take (length p) str = p"

definition isSupported :: "target \<Rightarrow> nat \<Rightarrow> bool" where
  "isSupported T opc \<longleftrightarrow>
     list_ex (\<lambda>p. starts_with p (opname (desc_of T opc)))
       [''ADD32'', ''ADD64'', ''SUB32'', ''SUB64'', ''DIV32'', ''DIV64'', ''IMUL32'', ''IMUL64'',
        ''XOR'', ''AND'', ''OR'', ''CMOVGE'', ''CMOVLE'', ''CMOVNE'', ''MOV64'', ''MOV32'']"

definition hasUnknown :: "mc_desc \<Rightarrow> bool" where
  "hasUnknown d \<longleftrightarrow>
     list_ex (\<lambda>p. OperandType p = OPERAND_UNKNOWN \<or> OperandType p = OPERAND_MEMORY) (OpInfo d)"

text \<open>The opcodes that are never generated.\<close>

definition skip_opcode :: "target \<Rightarrow> nat \<Rightarrow> bool" where
  "skip_opcode T i \<longleftrightarrow>
     (let d = desc_of T i in
      hasUnknown d \<or> isPseudo d \<or> isBranch d \<or> isReturn d \<or> isCall d \<or> isVariadic d \<or>
      \<not> isSupported T i)"

subsection \<open>Opcode classes\<close>

text \<open>
  \<open>EquivalenceClasses\<close> as the list of its classes, each with its leader first. Iterating
  over it visits all elements in ascending order.
\<close>

definition class_of :: "nat list list \<Rightarrow> nat \<Rightarrow> nat list" where
  "class_of cs e = (case find (\<lambda>c. e \<in> set c) cs of Some c \<Rightarrow> c | None \<Rightarrow> [])"

definition leader :: "nat list list \<Rightarrow> nat \<Rightarrow> nat" where "leader cs e = hd (class_of cs e)"

definition insert_class :: "nat \<Rightarrow> nat list list \<Rightarrow> nat list list" where
  "insert_class i cs = (if i \<in> set (concat cs) then cs else cs @ [[i]])"

definition unionSets :: "nat \<Rightarrow> nat \<Rightarrow> nat list list \<Rightarrow> nat list list" where
  "unionSets a b cs =
     (let A = class_of cs a; B = class_of cs b in
      if A = B then cs
      else map (\<lambda>c. if c = A then A @ B else c) (filter (\<lambda>c. c \<noteq> B) cs))"

definition add_opcode :: "target \<Rightarrow> nat \<Rightarrow> nat list list \<Rightarrow> nat list list" where
  "add_opcode T i cs =
     (if skip_opcode T i then cs
      else
        let cs = insert_class i cs in
        case find (\<lambda>e. isExchangeable T (leader cs e) i) (sort (concat cs)) of
          Some e \<Rightarrow> unionSets (leader cs e) i cs
        | None \<Rightarrow> cs)"

definition buildOpcodeClasses :: "target \<Rightarrow> nat list list" where
  "buildOpcodeClasses T = fold (add_opcode T) [0..<length (descs T)] []"

subsection \<open>The state of a transformation\<close>

datatype kind = NOP | MUT_OPCODE | MUT_OPERAND | SWAP | REPLACE | MOVE | INSERT | DELETE

datatype loc = At nat | End | Null

record 'r transformation =
  objs :: "nat \<rightharpoonup> minstr"
  blk :: "nat list"
  NumInstrs :: nat
  PrevTransformation :: kind
  NextLoc :: loc
  Old :: nat
  New :: nat
  Swapped1 :: nat
  Swapped2 :: nat
  next_ptr :: nat
  rng :: 'r

text \<open>
  \<open>rand()\<close> as a step of a generator; \<open>choose\<close>; creating, cloning and deleting an object.
\<close>

type_synonym 'r rand_fun = "'r \<Rightarrow> nat \<times> 'r"

definition rand_choose :: "'r rand_fun \<Rightarrow> nat \<Rightarrow> 'r transformation \<Rightarrow> (nat \<times> 'r transformation) option" where
  "rand_choose rnd n s =
     (if n > 0 then let (v, r) = rnd (rng s) in Some (v mod n, s\<lparr>rng := r\<rparr>) else None)"

definition new_object :: "minstr \<Rightarrow> 'r transformation \<Rightarrow> nat \<times> 'r transformation" where
  "new_object mi s =
     (next_ptr s, s\<lparr>objs := (objs s)(next_ptr s \<mapsto> mi), next_ptr := next_ptr s + 1\<rparr>)"

definition delete_object :: "nat \<Rightarrow> 'r transformation \<Rightarrow> 'r transformation" where
  "delete_object p s = s\<lparr>objs := (objs s)(p := None)\<rparr>"

definition clone_object :: "nat \<Rightarrow> 'r transformation \<Rightarrow> (nat \<times> 'r transformation) option" where
  "clone_object p s = do { mi \<leftarrow> objs s p; Some (new_object mi s) }"

text \<open>List operations of the block: \<open>insert\<close> before an element, \<open>push_back\<close>, removal.\<close>

fun insert_before :: "nat \<Rightarrow> nat \<Rightarrow> nat list \<Rightarrow> nat list" where
  "insert_before x y [] = []"
| "insert_before x y (z # zs) = (if z = x then y # z # zs else z # insert_before x y zs)"

definition mbb_insert :: "loc \<Rightarrow> nat \<Rightarrow> 'r transformation \<Rightarrow> 'r transformation option" where
  "mbb_insert l p s =
     (case l of
        At x \<Rightarrow> if x \<in> set (blk s) then Some (s\<lparr>blk := insert_before x p (blk s)\<rparr>) else None
      | End \<Rightarrow> Some (s\<lparr>blk := blk s @ [p]\<rparr>)
      | Null \<Rightarrow> None)"

definition removeFromParent :: "nat \<Rightarrow> 'r transformation \<Rightarrow> 'r transformation" where
  "removeFromParent p s = s\<lparr>blk := remove1 p (blk s)\<rparr>"

definition push_back :: "nat \<Rightarrow> 'r transformation \<Rightarrow> 'r transformation" where
  "push_back p s = s\<lparr>blk := blk s @ [p]\<rparr>"

definition replaceInst :: "nat \<Rightarrow> nat \<Rightarrow> bool \<Rightarrow> 'r transformation \<Rightarrow> 'r transformation option" where
  "replaceInst old nw Erase s =
     do {
       s \<leftarrow> mbb_insert (At old) nw s;
       let s = removeFromParent old s;
       Some (if Erase then delete_object old s else s)
     }"

text \<open>The iterator at an index, the one after a pointer, and \<open>getNextNode\<close>.\<close>

definition loc_at :: "nat list \<Rightarrow> nat \<Rightarrow> loc" where
  "loc_at xs i = (if i < length xs then At (xs ! i) else if i = length xs then End else Null)"

fun succ_loc :: "nat \<Rightarrow> nat list \<Rightarrow> loc" where
  "succ_loc x [] = Null"
| "succ_loc x (y # ys) = (if y = x then loc_at ys 0 else succ_loc x ys)"

definition getNextNode :: "nat \<Rightarrow> nat list \<Rightarrow> loc" where
  "getNextNode x xs = (case succ_loc x xs of At y \<Rightarrow> At y | _ \<Rightarrow> Null)"

text \<open>The loop of \<open>select\<close>, and the function with its assertion.\<close>

partial_function (option) select_loop ::
  "'r rand_fun \<Rightarrow> loc \<Rightarrow> nat \<Rightarrow> 'r transformation \<Rightarrow> (loc \<times> 'r transformation) option" where
  "select_loop rnd Except n s =
     do {
       (Idx, s) \<leftarrow> rand_choose rnd n s;
       let Selected = loc_at (blk s) Idx;
       if Selected = Except then select_loop rnd Except n s else Some (Selected, s)
     }"

definition select ::
  "'r rand_fun \<Rightarrow> loc \<Rightarrow> bool \<Rightarrow> 'r transformation \<Rightarrow> (loc \<times> 'r transformation) option" where
  "select rnd Except IncludeEnd s =
     (if NumInstrs s \<ge> 1 \<or> loc_at (blk s) 0 \<noteq> Except
      then select_loop rnd Except (if IncludeEnd then NumInstrs s + 1 else NumInstrs s) s
      else None)"

text \<open>Selecting an instruction, whose iterator the code dereferences.\<close>

definition select_instr ::
  "'r rand_fun \<Rightarrow> loc \<Rightarrow> bool \<Rightarrow> 'r transformation \<Rightarrow> (nat \<times> 'r transformation) option" where
  "select_instr rnd Except IncludeEnd s =
     do {
       (l, s) \<leftarrow> select rnd Except IncludeEnd s;
       (case l of At x \<Rightarrow> Some (x, s) | _ \<Rightarrow> None)
     }"


subsection \<open>Random operands and instructions\<close>

definition Immediates :: "int list" where
  "Immediates = [0, 1, -1, 2, -2, 3, -3, 4, -4, 5, -5, 6, -6, 7, -7, 8, -8, 16, -16, 32, -32,
     64, -64, 128, -128]"

partial_function (option) randReg ::
  "target \<Rightarrow> 'r rand_fun \<Rightarrow> op_info \<Rightarrow> 'r transformation \<Rightarrow> (nat \<times> 'r transformation) option" where
  "randReg T rnd i s =
     do {
       (k, s) \<leftarrow> rand_choose rnd (length (class_regs T i)) s;
       let NewReg = class_regs T i ! k;
       if NewReg = RIP T \<or> NewReg = EIP T \<or> NewReg = IP T then randReg T rnd i s
       else Some (NewReg, s)
     }"

definition randOperand ::
  "target \<Rightarrow> 'r rand_fun \<Rightarrow> operand \<Rightarrow> op_info \<Rightarrow> 'r transformation \<Rightarrow> (operand \<times> 'r transformation) option" where
  "randOperand T rnd Op i s =
     (case Op of
        Imm _ \<Rightarrow> do {
          (k, s) \<leftarrow> rand_choose rnd (length Immediates) s;
          Some (Imm (Immediates ! k), s)
        }
      | Reg _ \<Rightarrow> do {
          (r, s) \<leftarrow> randReg T rnd i s;
          Some (Reg r, s)
        })"

partial_function (option) chooseNonBranchOpcode ::
  "target \<Rightarrow> 'r rand_fun \<Rightarrow> 'r transformation \<Rightarrow> (nat \<times> 'r transformation) option" where
  "chooseNonBranchOpcode T rnd s =
     do {
       (opc, s) \<leftarrow> rand_choose rnd (length (descs T)) s;
       if skip_opcode T opc then chooseNonBranchOpcode T rnd s else Some (opc, s)
     }"

text \<open>The operand that \<open>randInstr\<close> starts from, by the kind of the operand.\<close>

definition initial_operand :: "op_info \<Rightarrow> operand option" where
  "initial_operand i =
     (case OperandType i of
        OPERAND_PCREL \<Rightarrow> Some (Imm 0)
      | OPERAND_FIRST_TARGET \<Rightarrow> Some (Imm 0)
      | OPERAND_IMMEDIATE \<Rightarrow> Some (Imm 0)
      | OPERAND_REGISTER \<Rightarrow> Some (Reg 1)
      | OPERAND_MEMORY \<Rightarrow> Some (if RegClass i < 0 then Imm 0 else Reg 1)
      | _ \<Rightarrow> None)"

fun rand_operands ::
  "target \<Rightarrow> 'r rand_fun \<Rightarrow> op_info list \<Rightarrow> 'r transformation \<Rightarrow> (operand list \<times> 'r transformation) option" where
  "rand_operands T rnd [] s = Some ([], s)"
| "rand_operands T rnd (i # is) s =
     do {
       Op \<leftarrow> initial_operand i;
       (Op, s) \<leftarrow> randOperand T rnd Op i s;
       (Ops, s) \<leftarrow> rand_operands T rnd is s;
       Some (Op # Ops, s)
     }"

text \<open>
  The fix-up for two-address code: make operand \<open>dst\<close> the register of operand \<open>src\<close> if
  both of the first two operands are registers. An instruction without a second operand
  fails the assertion of \<open>getOperand\<close>.
\<close>

definition tie_operands :: "nat \<Rightarrow> nat \<Rightarrow> operand list \<Rightarrow> operand list option" where
  "tie_operands dst src ops =
     (case ops of
        Reg a # Reg b # _ \<Rightarrow> Some (ops[dst := ops ! src])
      | Reg a # Imm b # _ \<Rightarrow> Some ops
      | Imm a # _ \<Rightarrow> Some ops
      | _ \<Rightarrow> None)"

text \<open>In \<open>randInstr\<close> both operands are fetched before the test.\<close>

definition randInstr ::
  "target \<Rightarrow> 'r rand_fun \<Rightarrow> 'r transformation \<Rightarrow> (nat \<times> 'r transformation) option" where
  "randInstr T rnd s =
     do {
       (Opc, s) \<leftarrow> chooseNonBranchOpcode T rnd s;
       let Desc = desc_of T Opc;
       (Ops, s) \<leftarrow> rand_operands T rnd (OpInfo Desc) s;
       let Ops = Ops @ implicit_ops Desc;
       Ops \<leftarrow> (if tied_to_0 Desc \<noteq> 0 then
                if length Ops < 2 then None else tie_operands 1 0 Ops
              else Some Ops);
       Some (new_object \<lparr>opcode = Opc, operands = Ops\<rparr> s)
     }"

subsection \<open>The transformations\<close>

definition doSwap :: "nat \<Rightarrow> nat \<Rightarrow> 'r transformation \<Rightarrow> ((nat \<times> nat) \<times> 'r transformation) option" where
  "doSwap A B s =
     (if A = B then Some ((A, B), s)
      else do {
        (AA, s) \<leftarrow> clone_object A s;
        (BB, s) \<leftarrow> clone_object B s;
        s \<leftarrow> replaceInst A BB True s;
        s \<leftarrow> replaceInst B AA True s;
        Some ((AA, BB), s)
      })"

definition Swap :: "'r rand_fun \<Rightarrow> 'r transformation \<Rightarrow> (bool \<times> 'r transformation) option" where
  "Swap rnd s =
     (if NumInstrs s < 2 then Some (False, s\<lparr>PrevTransformation := NOP\<rparr>)
      else do {
        (A, s) \<leftarrow> select_instr rnd End True s;
        (B, s) \<leftarrow> select_instr rnd (At A) False s;
        ((A, B), s) \<leftarrow> doSwap A B s;
        Some (True, s\<lparr>PrevTransformation := SWAP, Swapped1 := A, Swapped2 := B\<rparr>)
      })"

definition MutateOpcode ::
  "nat list list \<Rightarrow> 'r rand_fun \<Rightarrow> 'r transformation \<Rightarrow> (bool \<times> 'r transformation) option" where
  "MutateOpcode OpcodeClasses rnd s =
     (if NumInstrs s = 0 then Some (False, s\<lparr>PrevTransformation := NOP\<rparr>)
      else do {
        (Instr, s) \<leftarrow> select_instr rnd End True s;
        mi \<leftarrow> objs s Instr;
        let cls = class_of OpcodeClasses (opcode mi);
        (k, s) \<leftarrow> rand_choose rnd (length cls) s;
        let NewOpcode = cls ! k;
        let s = s\<lparr>Old := Instr\<rparr>;
        let (p, s) = new_object (mi\<lparr>opcode := NewOpcode\<rparr>) s;
        let s = s\<lparr>New := p, PrevTransformation := MUT_OPCODE\<rparr>;
        s \<leftarrow> replaceInst (Old s) (New s) False s;
        Some (True, s)
      })"

text \<open>The new operands of \<open>MutateOperand\<close>, for an instruction with some operand.\<close>

definition mutate_operands ::
  "target \<Rightarrow> 'r rand_fun \<Rightarrow> minstr \<Rightarrow> 'r transformation \<Rightarrow> (operand list \<times> 'r transformation) option" where
  "mutate_operands T rnd mi s =
     (let Desc = desc_of T (opcode mi) in
      do {
        (OpIdx, s) \<leftarrow> rand_choose rnd (length (OpInfo Desc)) s;
        (Op, s) \<leftarrow> (if OpIdx < length (operands mi)
                     then randOperand T rnd (operands mi ! OpIdx) (OpInfo Desc ! OpIdx) s else None);
        let Ops = (operands mi)[OpIdx := Op];
        Ops \<leftarrow> (if tied_to_0 Desc \<noteq> 0 then
                 if OpIdx = 0 then tie_operands 1 0 Ops
                 else if OpIdx = 1 then tie_operands 0 1 Ops
                 else tie_operands 0 0 Ops
               else Some Ops);
        Some (Ops, s)
      })"

definition MutateOperand ::
  "target \<Rightarrow> 'r rand_fun \<Rightarrow> 'r transformation \<Rightarrow> (bool \<times> 'r transformation) option" where
  "MutateOperand T rnd s =
     (if NumInstrs s = 0 then Some (False, s\<lparr>PrevTransformation := NOP\<rparr>)
      else do {
        (Instr, s) \<leftarrow> select_instr rnd End True s;
        let s = s\<lparr>Old := Instr\<rparr>;
        mi \<leftarrow> objs s Instr;
        (p, s) \<leftarrow> clone_object Instr s;
        let s = s\<lparr>New := p\<rparr>;
        s \<leftarrow> replaceInst (Old s) (New s) False s;
        let s = s\<lparr>PrevTransformation := MUT_OPERAND\<rparr>;
        if OpInfo (desc_of T (opcode mi)) = [] then Some (False, s\<lparr>PrevTransformation := NOP\<rparr>)
        else do {
          (Ops, s) \<leftarrow> mutate_operands T rnd mi s;
          Some (True, s\<lparr>objs := (objs s)(New s \<mapsto> mi\<lparr>operands := Ops\<rparr>)\<rparr>)
        }
      })"

definition Replace ::
  "target \<Rightarrow> 'r rand_fun \<Rightarrow> 'r transformation \<Rightarrow> (bool \<times> 'r transformation) option" where
  "Replace T rnd s =
     (if NumInstrs s = 0 then Some (False, s\<lparr>PrevTransformation := NOP\<rparr>)
      else do {
        (p, s) \<leftarrow> randInstr T rnd s;
        let s = s\<lparr>New := p\<rparr>;
        (q, s) \<leftarrow> select_instr rnd End True s;
        let s = s\<lparr>Old := q\<rparr>;
        s \<leftarrow> replaceInst (Old s) (New s) False s;
        Some (True, s\<lparr>PrevTransformation := REPLACE\<rparr>)
      })"

partial_function (option) move_target ::
  "'r rand_fun \<Rightarrow> nat \<Rightarrow> 'r transformation \<Rightarrow> (loc \<times> 'r transformation) option" where
  "move_target rnd Instr s =
     do {
       (NewLoc, s) \<leftarrow> select rnd (getNextNode Instr (blk s)) True s;
       if NewLoc = At Instr then move_target rnd Instr s else Some (NewLoc, s)
     }"

definition Move :: "'r rand_fun \<Rightarrow> 'r transformation \<Rightarrow> (bool \<times> 'r transformation) option" where
  "Move rnd s =
     (if NumInstrs s = 1 then Some (False, s\<lparr>PrevTransformation := NOP\<rparr>)
      else do {
        (Instr, s) \<leftarrow> select_instr rnd End True s;
        let s = s\<lparr>NextLoc := getNextNode Instr (blk s)\<rparr>;
        (NewLoc, s) \<leftarrow> move_target rnd Instr s;
        let s = removeFromParent Instr s;
        s \<leftarrow> (if NewLoc \<noteq> End then mbb_insert NewLoc Instr s else Some (push_back Instr s));
        Some (True, s\<lparr>New := Instr, PrevTransformation := MOVE\<rparr>)
      })"

definition Insert ::
  "target \<Rightarrow> 'r rand_fun \<Rightarrow> 'r transformation \<Rightarrow> (bool \<times> 'r transformation) option" where
  "Insert T rnd s =
     do {
       (p, s) \<leftarrow> randInstr T rnd s;
       let s = s\<lparr>New := p\<rparr>;
       s \<leftarrow> (if NumInstrs s = 0 then Some (push_back (New s) s)
            else do {
              (q, s) \<leftarrow> select_instr rnd End True s;
              mbb_insert (At q) (New s) s
            });
       Some (True, s\<lparr>PrevTransformation := INSERT, NumInstrs := NumInstrs s + 1\<rparr>)
     }"

definition Delete :: "'r rand_fun \<Rightarrow> 'r transformation \<Rightarrow> (bool \<times> 'r transformation) option" where
  "Delete rnd s =
     (if NumInstrs s = 0 then Some (False, s\<lparr>PrevTransformation := NOP\<rparr>)
      else do {
        (p, s) \<leftarrow> select_instr rnd End True s;
        let s = s\<lparr>New := p, NextLoc := succ_loc p (blk s)\<rparr>;
        let s = removeFromParent (New s) s;
        Some (True, s\<lparr>PrevTransformation := DELETE, NumInstrs := NumInstrs s - 1\<rparr>)
      })"

subsection \<open>Undo and accept\<close>

text \<open>The case shared by \<open>DELETE\<close> and, by fall-through, \<open>MOVE\<close>.\<close>

definition put_back :: "nat \<Rightarrow> 'r transformation \<Rightarrow> 'r transformation option" where
  "put_back p s =
     (if NextLoc s = End then Some (push_back p s) else mbb_insert (NextLoc s) p s)"

definition Undo :: "'r transformation \<Rightarrow> 'r transformation option" where
  "Undo s =
     do {
       s \<leftarrow>
         (case PrevTransformation s of
            NOP \<Rightarrow> Some s
          | INSERT \<Rightarrow> Some (delete_object (New s) (removeFromParent (New s) s))
          | SWAP \<Rightarrow> do {
              ((A, B), s) \<leftarrow> doSwap (Swapped1 s) (Swapped2 s) s;
              Some (s\<lparr>Swapped1 := A, Swapped2 := B\<rparr>)
            }
          | MOVE \<Rightarrow> put_back (New s) (removeFromParent (New s) s)
          | DELETE \<Rightarrow> put_back (New s) s
          | _ \<Rightarrow> replaceInst (New s) (Old s) True s);
       Some (case PrevTransformation s of
           INSERT \<Rightarrow> s\<lparr>NumInstrs := NumInstrs s - 1\<rparr>
         | DELETE \<Rightarrow> s\<lparr>NumInstrs := NumInstrs s + 1\<rparr>
         | _ \<Rightarrow> s)
     }"

definition Accept :: "'r transformation \<Rightarrow> 'r transformation" where
  "Accept s =
     (case PrevTransformation s of
        NOP \<Rightarrow> s | INSERT \<Rightarrow> s | SWAP \<Rightarrow> s | MOVE \<Rightarrow> s
      | DELETE \<Rightarrow> delete_object (New s) s
      | _ \<Rightarrow> delete_object (Old s) s)"

subsection \<open>Well-formed states\<close>

definition wf_transf :: "'r transformation \<Rightarrow> bool" where
  "wf_transf s \<longleftrightarrow>
     distinct (blk s) \<and> set (blk s) \<subseteq> dom (objs s) \<and> NumInstrs s = length (blk s) \<and>
     (\<forall>p \<in> dom (objs s). p < next_ptr s)"

definition contents :: "'r transformation \<Rightarrow> minstr list" where
  "contents s = map (\<lambda>p. the (objs s p)) (blk s)"

definition subst :: "nat \<Rightarrow> nat \<Rightarrow> nat \<Rightarrow> nat" where
  "subst x y z = (if z = x then y else z)"

lemma remove_insert_before:
  "distinct xs \<Longrightarrow> x \<in> set xs \<Longrightarrow> y \<noteq> x \<Longrightarrow> remove1 x (insert_before x y xs) = map (subst x y) xs"
proof (induction xs)
  case (Cons z zs)
  show ?case
  proof (cases "z = x")
    case True
    then have "map (subst x y) zs = zs" using Cons.prems by (intro map_idI) (auto simp: subst_def)
    then show ?thesis using True Cons.prems by (simp add: subst_def [of x y x])
  qed (use Cons in \<open>auto simp: subst_def\<close>)
qed simp

lemma insert_before_split:
  "x \<notin> set as \<Longrightarrow> insert_before x y (as @ x # bs) = as @ y # x # bs"
  by (induction as) auto

lemma replaceInst_eq:
  assumes "distinct (blk s)" "old \<in> set (blk s)" "nw \<noteq> old"
  shows "replaceInst old nw e s = Some (s\<lparr>blk := map (subst old nw) (blk s),
    objs := (if e then (objs s)(old := None) else objs s)\<rparr>)"
  using assms
  by (simp add: replaceInst_def mbb_insert_def removeFromParent_def delete_object_def
      remove_insert_before)

lemma map_subst_distinct:
  "distinct xs \<Longrightarrow> y \<notin> set xs \<Longrightarrow> distinct (map (subst x y) xs)"
  by (auto simp: distinct_map inj_on_def subst_def)

lemma set_map_subst: "set (map (subst x y) xs) \<subseteq> insert y (set xs - {x})"
  by (auto simp: subst_def)

lemma wf_transfD:
  assumes "wf_transf s"
  shows "distinct (blk s)" "p \<in> set (blk s) \<Longrightarrow> \<exists>mi. objs s p = Some mi"
    "p \<in> set (blk s) \<Longrightarrow> p < next_ptr s" "NumInstrs s = length (blk s)"
    "objs s p = Some mi \<Longrightarrow> p < next_ptr s"
  using assms by (auto simp: wf_transf_def)

lemma fresh_ptr: "wf_transf s \<Longrightarrow> next_ptr s \<notin> set (blk s)"
  using wf_transfD(3) by blast

lemma rng_self: "\<exists>r. s = s\<lparr>rng := r\<rparr>"
  by (rule exI [of _ "rng s"]) simp

lemma choose_rng:
  "rand_choose rnd n s = Some (v, s') \<Longrightarrow> \<exists>r. s' = s\<lparr>rng := r\<rparr>"
  by (auto simp: rand_choose_def split: prod.splits if_splits)

lemma select_loop_result:
  assumes "select_loop rnd ex n s = Some y"
  shows "(\<exists>r. snd y = s\<lparr>rng := r\<rparr>) \<and> fst y \<noteq> ex \<and> (\<exists>i. fst y = loc_at (blk s) i)"
  using assms
proof (induction rule: select_loop.raw_induct [rotated, consumes 1])
  case (1 f rnd ex n s y)
  from "1"(2) obtain i s1 where i: "rand_choose rnd n s = Some (i, s1)"
    and r: "(if loc_at (blk s1) i = ex then f rnd ex n s1 else Some (loc_at (blk s1) i, s1)) = Some y"
    by (auto simp: bind_Some_iff Let_def)
  obtain r where s1: "s1 = s\<lparr>rng := r\<rparr>" using choose_rng [OF i] by blast
  show ?case
  proof (cases "loc_at (blk s1) i = ex")
    case True
    then have "f rnd ex n s1 = Some y" using r by simp
    from "1"(1) [OF this] show ?thesis by (auto simp: s1)
  next
    case False
    then show ?thesis using r by (auto simp: s1)
  qed
qed

lemma select_result:
  "select rnd ex e s = Some (l, s') \<Longrightarrow>
    (\<exists>r. s' = s\<lparr>rng := r\<rparr>) \<and> l \<noteq> ex \<and> (\<exists>i. l = loc_at (blk s) i)"
  by (auto simp: select_def split: if_splits dest!: select_loop_result)

lemma loc_at_At: "loc_at xs i = At x \<Longrightarrow> x \<in> set xs"
  by (auto simp: loc_at_def split: if_splits)

lemma select_instr_result:
  assumes "select_instr rnd ex e s = Some (x, s')"
  shows "\<exists>r. s' = s\<lparr>rng := r\<rparr> \<and> x \<in> set (blk s) \<and> At x \<noteq> ex"
proof -
  obtain l s1 where "select rnd ex e s = Some (l, s1)"
    "(case l of At x \<Rightarrow> Some (x, s1) | _ \<Rightarrow> None) = Some (x, s')"
    using assms by (auto simp: select_instr_def bind_Some_iff)
  then have "select rnd ex e s = Some (At x, s')" by (cases l) auto
  from select_result [OF this] show ?thesis by (auto dest: loc_at_At [OF sym])
qed

lemma randReg_rng:
  assumes "randReg T rnd i s = Some y"
  shows "\<exists>r. snd y = s\<lparr>rng := r\<rparr>"
  using assms
proof (induction rule: randReg.raw_induct [rotated, consumes 1])
  case (1 f T rnd i s y)
  from "1"(2) obtain k s1 where k: "rand_choose rnd (length (class_regs T i)) s = Some (k, s1)"
    and r: "f T rnd i s1 = Some y \<or> y = (class_regs T i ! k, s1)"
    by (auto simp: bind_Some_iff Let_def split: if_splits)
  obtain r where s1: "s1 = s\<lparr>rng := r\<rparr>" using choose_rng [OF k] by blast
  from r show ?case
  proof
    assume "f T rnd i s1 = Some y"
    from "1"(1) [OF this] show ?thesis by (auto simp: s1)
  qed (auto simp: s1)
qed

lemma chooseNonBranchOpcode_result:
  assumes "chooseNonBranchOpcode T rnd s = Some y"
  shows "(\<exists>r. snd y = s\<lparr>rng := r\<rparr>) \<and> \<not> skip_opcode T (fst y)"
  using assms
proof (induction rule: chooseNonBranchOpcode.raw_induct [rotated, consumes 1])
  case (1 f T rnd s y)
  from "1"(2) obtain i s1 where i: "rand_choose rnd (length (descs T)) s = Some (i, s1)"
    and r: "f T rnd s1 = Some y \<or> \<not> skip_opcode T i \<and> y = (i, s1)"
    by (auto simp: bind_Some_iff split: if_splits)
  obtain r where s1: "s1 = s\<lparr>rng := r\<rparr>" using choose_rng [OF i] by blast
  from r show ?case
  proof
    assume "f T rnd s1 = Some y"
    from "1"(1) [OF this] show ?thesis by (auto simp: s1)
  qed (auto simp: s1)
qed

lemma randOperand_rng: "randOperand T rnd p i s = Some (v, s') \<Longrightarrow> \<exists>r. s' = s\<lparr>rng := r\<rparr>"
  by (auto simp: randOperand_def bind_Some_iff split: operand.splits dest!: choose_rng randReg_rng)

lemma rand_operands_rng: "rand_operands T rnd is s = Some (v, s') \<Longrightarrow> \<exists>r. s' = s\<lparr>rng := r\<rparr>"
proof (induction "is" arbitrary: s v s')
  case (Cons i "is")
  then obtain p0 p s1 ps s2 where "randOperand T rnd p0 i s = Some (p, s1)"
    "rand_operands T rnd is s1 = Some (ps, s2)" "s2 = s'"
    by (auto simp: bind_Some_iff)
  then show ?case using randOperand_rng [of T rnd p0 i s p s1] Cons.IH [of s1 ps s2] by auto
qed (simp add: rng_self)

lemma randInstr_result:
  assumes "randInstr T rnd s = Some (p, s')"
  shows "\<exists>mi r. p = next_ptr s \<and>
    s' = s\<lparr>objs := (objs s)(next_ptr s \<mapsto> mi), next_ptr := next_ptr s + 1, rng := r\<rparr>"
proof -
  obtain opc s1 ops s2 ops' where c: "chooseNonBranchOpcode T rnd s = Some (opc, s1)"
    "rand_operands T rnd (OpInfo (desc_of T opc)) s1 = Some (ops, s2)"
    "new_object \<lparr>opcode = opc, operands = ops'\<rparr> s2 = (p, s')"
    using assms by (auto simp: randInstr_def bind_Some_iff Let_def)
  obtain r r' where "s1 = s\<lparr>rng := r\<rparr>" "s2 = s1\<lparr>rng := r'\<rparr>"
    using chooseNonBranchOpcode_result [OF c(1)] rand_operands_rng [OF c(2)] by auto
  with c(3) show ?thesis
    by (intro exI [of _ "\<lparr>opcode = opc, operands = ops'\<rparr>"] exI [of _ r'])
       (auto simp: new_object_def)
qed

lemma mutate_operands_rng:
  assumes "mutate_operands T rnd mi s = Some (v, s')"
  shows "\<exists>r. s' = s\<lparr>rng := r\<rparr>"
proof -
  obtain k s1 op s2 Ops where k: "rand_choose rnd (length (OpInfo (desc_of T (opcode mi)))) s = Some (k, s1)"
    and op: "(if k < length (operands mi)
      then randOperand T rnd (operands mi ! k) (OpInfo (desc_of T (opcode mi)) ! k) s1 else None) = Some (op, s2)"
    and "Some (Ops, s2) = Some (v, s')"
    using assms unfolding mutate_operands_def Let_def bind_Some_iff split_paired_Ex prod.case by blast
  then have op: "randOperand T rnd (operands mi ! k) (OpInfo (desc_of T (opcode mi)) ! k) s1 = Some (op, s')"
    by (simp split: if_split_asm)
  obtain r where "s1 = s\<lparr>rng := r\<rparr>" using choose_rng [OF k] by blast
  moreover obtain r' where "s' = s1\<lparr>rng := r'\<rparr>" using randOperand_rng [OF op] by blast
  ultimately show ?thesis by (intro exI [of _ r']) simp
qed


lemma contents_cong:
  "blk s' = blk s \<Longrightarrow> \<forall>p \<in> set (blk s). objs s' p = objs s p \<Longrightarrow> contents s' = contents s"
  by (simp add: contents_def)

text \<open>The instruction that \<open>Accept\<close> deletes is not in the block.\<close>

definition gone :: "'r transformation \<Rightarrow> bool" where
  "gone s \<longleftrightarrow>
     (PrevTransformation s \<in> {MUT_OPCODE, MUT_OPERAND, REPLACE} \<longrightarrow> Old s \<notin> set (blk s)) \<and>
     (PrevTransformation s = DELETE \<longrightarrow> New s \<notin> set (blk s))"

lemma Accept_ok:
  assumes "wf_transf s" "gone s"
  shows "wf_transf (Accept s)" "contents (Accept s) = contents s" "NumInstrs (Accept s) = NumInstrs s"
    "blk (Accept s) = blk s"
  using assms
  by (cases "PrevTransformation s"; auto simp: Accept_def delete_object_def wf_transf_def contents_def
      gone_def; fail)+

definition reverts :: "'r transformation \<Rightarrow> 'r transformation \<Rightarrow> bool" where
  "reverts s s' \<longleftrightarrow>
     wf_transf s' \<and> gone s' \<and>
     (\<exists>s''. Undo s' = Some s'' \<and> wf_transf s'' \<and> contents s'' = contents s \<and> NumInstrs s'' = NumInstrs s)"

lemma reverts_NOP: "wf_transf s \<Longrightarrow> reverts s (s\<lparr>PrevTransformation := NOP\<rparr>)"
  by (simp add: reverts_def wf_transf_def Undo_def contents_def gone_def)

lemma remove_inserted:
  "y \<notin> set xs \<Longrightarrow> remove1 y (insert_before x y xs) = xs"
  by (induction xs) auto

lemma set_insert_before: "x \<in> set xs \<Longrightarrow> set (insert_before x y xs) = insert y (set xs)"
  by (induction xs) auto

lemma distinct_insert_before:
  "distinct xs \<Longrightarrow> y \<notin> set xs \<Longrightarrow> distinct (insert_before x y xs)"
proof (induction xs)
  case (Cons z zs)
  have "set (insert_before x y zs) \<subseteq> insert y (set zs)" by (induction zs) auto
  with Cons show ?case by auto
qed simp

lemma length_insert_before: "x \<in> set xs \<Longrightarrow> length (insert_before x y xs) = Suc (length xs)"
  by (induction xs) auto

text \<open>Both replacing transformations leave this relation between the states.\<close>

lemma reverts_replace:
  assumes wf: "wf_transf s" and old: "old \<in> set (blk s)"
    and s': "blk s' = map (subst old (next_ptr s)) (blk s)"
      "objs s' = (objs s)(next_ptr s \<mapsto> mi)" "Old s' = old" "New s' = next_ptr s"
      "NumInstrs s' = NumInstrs s" "next_ptr s' = next_ptr s + 1"
      "PrevTransformation s' \<in> {MUT_OPCODE, MUT_OPERAND, REPLACE}"
  shows "reverts s s'"
proof -
  note wd = wf_transfD [OF wf] and fr = fresh_ptr [OF wf]
  have old_new: "old \<noteq> next_ptr s" using old fr by auto
  have wf': "wf_transf s'"
    using wf fr set_map_subst [of old "next_ptr s" "blk s"]
    by (auto simp: wf_transf_def s' map_subst_distinct dest: wd(5) intro: less_SucI)
  have new: "next_ptr s \<in> set (blk s')" using old by (auto simp: s' subst_def image_iff)
  have rev: "map (subst (next_ptr s) old) (blk s') = blk s"
    unfolding s' map_map using fr by (intro map_idI) (auto simp: subst_def)
  have "replaceInst (New s') (Old s') True s'
      = Some (s'\<lparr>blk := blk s, objs := (objs s')(next_ptr s := None)\<rparr>)"
    using replaceInst_eq [OF wf_transfD(1) [OF wf'] new old_new, of True]
    unfolding rev s'(3,4) by simp
  then have "Undo s' = Some (s'\<lparr>blk := blk s, objs := (objs s')(next_ptr s := None)\<rparr>)"
    using s'(7) by (auto simp: Undo_def)
  moreover have "contents (s'\<lparr>blk := blk s, objs := (objs s')(next_ptr s := None)\<rparr>) = contents s"
    using fr by (auto simp: contents_def s')
  moreover have "wf_transf (s'\<lparr>blk := blk s, objs := (objs s')(next_ptr s := None)\<rparr>)"
    using wf fr by (auto simp: wf_transf_def s' dest: wd(5) intro: less_SucI)
  moreover have "gone s'" using old_new s'(7) by (auto simp: gone_def s' subst_def)
  ultimately show ?thesis using wf' by (simp add: reverts_def s')
qed

lemma wf_rng [simp]: "wf_transf (s\<lparr>rng := r\<rparr>) = wf_transf s"
  by (simp add: wf_transf_def)

lemma reverts_MutateOpcode:
  assumes wf: "wf_transf s" and op: "MutateOpcode cs rnd s = Some (b, s')"
  shows "reverts s s'"
proof (cases "NumInstrs s = 0")
  case True
  then show ?thesis using op wf by (auto simp: MutateOpcode_def reverts_NOP)
next
  case False
  obtain x s1 mi k s2 where c: "select_instr rnd End True s = Some (x, s1)" "objs s1 x = Some mi"
    "rand_choose rnd (length (class_of cs (opcode mi))) s1 = Some (k, s2)"
    "map_option (Pair True) (replaceInst x (next_ptr s2) False (s2\<lparr>Old := x,
      objs := (objs s2)(next_ptr s2 \<mapsto> mi\<lparr>opcode := class_of cs (opcode mi) ! k\<rparr>),
      next_ptr := next_ptr s2 + 1, New := next_ptr s2, PrevTransformation := MUT_OPCODE\<rparr>)) = Some (b, s')"
    using op False
    by (auto simp: MutateOpcode_def bind_Some_iff Let_def new_object_def)
  obtain r where x: "x \<in> set (blk s)" "s2 = s\<lparr>rng := r\<rparr>"
    using select_instr_result [OF c(1)] choose_rng [OF c(3)] by auto
  have "next_ptr s \<noteq> x" using fresh_ptr [OF wf] x(1) by auto
  then show ?thesis
    using c(4) x(1) wf_transfD(1) [OF wf]
    by (intro reverts_replace [OF wf x(1)]) (auto simp: x(2) replaceInst_eq)
qed

lemma reverts_unchanged:
  assumes "wf_transf s'" "contents s' = contents s" "NumInstrs s' = NumInstrs s"
    "PrevTransformation s' = NOP"
  shows "reverts s s'"
  using assms by (simp add: reverts_def Undo_def gone_def)

lemma reverts_MutateOperand:
  assumes wf: "wf_transf s" and op: "MutateOperand T rnd s = Some (b, s')"
  shows "reverts s s'"
proof (cases "NumInstrs s = 0")
  case True
  then show ?thesis using op wf by (auto simp: MutateOperand_def reverts_NOP)
next
  case False
  obtain x s1 mi where c: "select_instr rnd End True s = Some (x, s1)" "objs s1 x = Some mi"
    using op False by (auto simp: MutateOperand_def bind_Some_iff Let_def)
  obtain r where x: "x \<in> set (blk s)" "s1 = s\<lparr>rng := r\<rparr>"
    using select_instr_result [OF c(1)] by auto
  let ?n = "next_ptr s"
  have xn: "?n \<noteq> x" using fresh_ptr [OF wf] x(1) by auto
  define s2 where "s2 = s\<lparr>rng := r, Old := x, next_ptr := ?n + 1, New := ?n,
    blk := map (subst x ?n) (blk s), objs := (objs s)(?n \<mapsto> mi), PrevTransformation := MUT_OPERAND\<rparr>"
  have mi: "objs s x = Some mi" using c(2) x(2) by simp
  have s2: "(if OpInfo (desc_of T (opcode mi)) = [] then Some (False, s2\<lparr>PrevTransformation := NOP\<rparr>)
      else do {
        (Ops, s) \<leftarrow> mutate_operands T rnd mi s2;
        Some (True, s\<lparr>objs := (objs s)(New s \<mapsto> mi\<lparr>operands := Ops\<rparr>)\<rparr>)
      }) = Some (b, s')"
    using op False c(1) xn x(1) wf_transfD(1) [OF wf]
    by (simp add: MutateOperand_def clone_object_def new_object_def x(2) mi replaceInst_eq s2_def Let_def
        split: if_splits)
  show ?thesis
  proof (cases "OpInfo (desc_of T (opcode mi)) = []")
    case True
    have "contents (s2\<lparr>PrevTransformation := NOP\<rparr>) = contents s"
      using fresh_ptr [OF wf] by (auto simp: contents_def s2_def subst_def mi)
    moreover have "wf_transf (s2\<lparr>PrevTransformation := NOP\<rparr>)"
      using wf fresh_ptr [OF wf] set_map_subst [of x ?n "blk s"]
      by (auto simp: wf_transf_def s2_def map_subst_distinct dest: wf_transfD(5) [OF wf] intro: less_SucI)
    ultimately show ?thesis using True s2 by (intro reverts_unchanged) (auto simp: s2_def)
  next
    case False
    then obtain ops s3 where m: "mutate_operands T rnd mi s2 = Some (ops, s3)"
      "s' = s3\<lparr>objs := (objs s3)(New s3 \<mapsto> mi\<lparr>operands := ops\<rparr>)\<rparr>"
      using s2 by (auto simp: bind_Some_iff)
    then obtain r' where "s3 = s2\<lparr>rng := r'\<rparr>" using mutate_operands_rng by blast
    then show ?thesis
      by (intro reverts_replace [OF wf x(1), of _ "mi\<lparr>operands := ops\<rparr>"]) (auto simp: m(2) s2_def)
  qed
qed

lemma reverts_Replace:
  assumes wf: "wf_transf s" and op: "Replace T rnd s = Some (b, s')"
  shows "reverts s s'"
proof (cases "NumInstrs s = 0")
  case True
  then show ?thesis using op wf by (auto simp: Replace_def reverts_NOP)
next
  case False
  obtain p s1 x s2 where c: "randInstr T rnd s = Some (p, s1)"
    "select_instr rnd End True (s1\<lparr>New := p\<rparr>) = Some (x, s2)"
    using op False by (auto simp: Replace_def bind_Some_iff Let_def)
  obtain mi r where s1: "p = next_ptr s"
    "s1 = s\<lparr>objs := (objs s)(next_ptr s \<mapsto> mi), next_ptr := next_ptr s + 1, rng := r\<rparr>"
    using randInstr_result [OF c(1)] by blast
  obtain r' where x: "x \<in> set (blk s)" "s2 = s1\<lparr>New := p, rng := r'\<rparr>"
    using select_instr_result [OF c(2)] by (auto simp: s1(2))
  have "next_ptr s \<noteq> x" using fresh_ptr [OF wf] x(1) by auto
  then have "s' = s2\<lparr>Old := x, blk := map (subst x (next_ptr s)) (blk s), PrevTransformation := REPLACE\<rparr>"
    using op False c x(1) wf_transfD(1) [OF wf]
    by (auto simp: Replace_def x(2) s1 replaceInst_eq)
  then show ?thesis by (intro reverts_replace [OF wf x(1), of _ mi]) (auto simp: x(2) s1)
qed

lemma remove1_append_notin: "y \<notin> set xs \<Longrightarrow> remove1 y (xs @ [y]) = xs"
  by (simp add: remove1_append)

lemma reverts_Insert:
  assumes wf: "wf_transf s" and op: "Insert T rnd s = Some (b, s')"
  shows "reverts s s'"
proof -
  let ?n = "next_ptr s"
  obtain p s1 where c: "randInstr T rnd s = Some (p, s1)"
    using op by (auto simp: Insert_def bind_Some_iff)
  obtain mi r where s1: "p = ?n"
    "s1 = s\<lparr>objs := (objs s)(?n \<mapsto> mi), next_ptr := ?n + 1, rng := r\<rparr>"
    using randInstr_result [OF c] by blast
  obtain xs r' where s': "s' = s\<lparr>objs := (objs s)(?n \<mapsto> mi), next_ptr := ?n + 1, rng := r', New := ?n,
      blk := xs, PrevTransformation := INSERT, NumInstrs := NumInstrs s + 1\<rparr>"
    and xs: "xs = blk s @ [?n] \<or> (\<exists>q \<in> set (blk s). xs = insert_before q ?n (blk s))"
  proof (cases "NumInstrs s = 0")
    case True
    then show ?thesis using that [of "blk s @ [?n]" r] op by (auto simp: Insert_def c s1 push_back_def)
  next
    case False
    then obtain q s2 where q: "select_instr rnd End True (s1\<lparr>New := ?n\<rparr>) = Some (q, s2)"
      using op by (auto simp: Insert_def c s1 bind_Some_iff)
    obtain r' where x: "q \<in> set (blk s)" "s2 = s1\<lparr>New := ?n, rng := r'\<rparr>"
      using select_instr_result [OF q] by (auto simp: s1(2))
    have "s' = s\<lparr>objs := (objs s)(?n \<mapsto> mi), next_ptr := ?n + 1, rng := r', New := ?n,
        blk := insert_before q ?n (blk s), PrevTransformation := INSERT, NumInstrs := NumInstrs s + 1\<rparr>"
      using op q False x by (auto simp: Insert_def c s1 mbb_insert_def)
    then show ?thesis using x(1) by (intro that [of "insert_before q ?n (blk s)" r']) auto
  qed
  note fr = fresh_ptr [OF wf]
  have xs': "distinct xs" "set xs = insert ?n (set (blk s))" "length xs = length (blk s) + 1"
    "remove1 ?n xs = blk s"
    using xs fr wf_transfD(1) [OF wf]
    by (auto simp: set_insert_before distinct_insert_before length_insert_before remove_inserted
        remove1_append_notin)
  have "wf_transf s'" using wf xs'
    by (auto simp: wf_transf_def s' dest: wf_transfD(5) [OF wf] intro: less_SucI)
  moreover have "Undo s' = Some (s'\<lparr>blk := blk s, objs := (objs s')(?n := None), NumInstrs := NumInstrs s\<rparr>)"
    by (simp add: Undo_def s' removeFromParent_def delete_object_def xs'(4))
  moreover have "contents (s'\<lparr>blk := blk s, objs := (objs s')(?n := None), NumInstrs := NumInstrs s\<rparr>) = contents s"
    using fr by (auto simp: contents_def s')
  moreover have "wf_transf (s'\<lparr>blk := blk s, objs := (objs s')(?n := None), NumInstrs := NumInstrs s\<rparr>)"
    using wf fr by (auto simp: wf_transf_def s' dest: wf_transfD(5) [OF wf] intro: less_SucI)
  moreover have "gone s'" by (simp add: gone_def s')
  ultimately show ?thesis by (auto simp: reverts_def)
qed


lemma succ_loc_split:
  "x \<notin> set as \<Longrightarrow> succ_loc x (as @ x # bs) = (case bs of [] \<Rightarrow> End | y # _ \<Rightarrow> At y)"
  by (induction as) (auto simp: loc_at_def split: list.splits)

lemma put_back_removed:
  assumes "distinct xs" "p \<in> set xs" "blk s = remove1 p xs" "NextLoc s = succ_loc p xs"
  shows "put_back p s = Some (s\<lparr>blk := xs\<rparr>)"
proof -
  obtain as bs where xs: "xs = as @ p # bs" using split_list [OF assms(2)] by blast
  have p: "p \<notin> set as" "p \<notin> set bs" using assms(1) by (auto simp: xs)
  have b: "blk s = as @ bs" using p by (simp add: assms(3) xs remove1_append)
  show ?thesis
  proof (cases bs)
    case Nil
    then show ?thesis
      using b p succ_loc_split [of p as "[]"]
      by (simp add: put_back_def assms(4) xs push_back_def)
  next
    case (Cons y ys)
    have "y \<notin> set as" using assms(1) by (auto simp: xs Cons)
    then have "insert_before y p (as @ y # ys) = as @ p # y # ys" by (rule insert_before_split)
    then show ?thesis
      using b p succ_loc_split [of p as "y # ys"]
      by (simp add: put_back_def assms(4) xs Cons mbb_insert_def)
  qed
qed

lemma reverts_Delete:
  assumes wf: "wf_transf s" and op: "Delete rnd s = Some (b, s')"
  shows "reverts s s'"
proof (cases "NumInstrs s = 0")
  case True
  then show ?thesis using op wf by (auto simp: Delete_def reverts_NOP)
next
  case False
  obtain x s1 where c: "select_instr rnd End True s = Some (x, s1)"
    using op False by (auto simp: Delete_def bind_Some_iff)
  obtain r where x: "x \<in> set (blk s)" "s1 = s\<lparr>rng := r\<rparr>"
    using select_instr_result [OF c] by auto
  have s': "s' = s\<lparr>rng := r, New := x, NextLoc := succ_loc x (blk s), blk := remove1 x (blk s),
      PrevTransformation := DELETE, NumInstrs := NumInstrs s - 1\<rparr>"
    using op False c by (auto simp: Delete_def x(2) removeFromParent_def)
  note wd = wf_transfD [OF wf]
  have "Undo s' = Some (s'\<lparr>blk := blk s, NumInstrs := NumInstrs s\<rparr>)"
    using put_back_removed [OF wd(1) x(1), of s'] False
    by (simp add: Undo_def s')
  moreover have "wf_transf s'"
    using wf x(1) set_remove1_subset [of x "blk s"]
    by (auto simp: wf_transf_def s' length_remove1)
  moreover have "wf_transf (s'\<lparr>blk := blk s, NumInstrs := NumInstrs s\<rparr>)"
    "contents (s'\<lparr>blk := blk s, NumInstrs := NumInstrs s\<rparr>) = contents s"
    using wf by (auto simp: wf_transf_def contents_def s')
  moreover have "gone s'" using wd(1) by (simp add: gone_def s' set_remove1_eq)
  ultimately show ?thesis by (simp add: reverts_def)
qed

lemma move_target_result:
  assumes "move_target rnd x s = Some y"
  shows "(\<exists>r. snd y = s\<lparr>rng := r\<rparr>) \<and> fst y \<noteq> At x \<and> (\<exists>i. fst y = loc_at (blk s) i)"
  using assms
proof (induction rule: move_target.raw_induct [rotated, consumes 1])
  case (1 f rnd x s y)
  from "1"(2) obtain l s1 where l: "select rnd (getNextNode x (blk s)) True s = Some (l, s1)"
    and r: "l = At x \<and> f rnd x s1 = Some y \<or> l \<noteq> At x \<and> y = (l, s1)"
    by (auto simp: bind_Some_iff split: if_splits)
  obtain r where s1: "s1 = s\<lparr>rng := r\<rparr>" "\<exists>i. l = loc_at (blk s) i"
    using select_result [OF l] by blast
  from r show ?case
  proof
    assume "l = At x \<and> f rnd x s1 = Some y"
    then have "f rnd x s1 = Some y" ..
    from "1"(1) [OF this] show ?thesis by (auto simp: s1(1))
  qed (use s1 in auto)
qed

text \<open>After a move, the successor of the moved instruction was recorded, or null at the end.\<close>

lemma Move_result:
  assumes wf: "wf_transf s" and op: "Move rnd s = Some (b, s')" and ne: "NumInstrs s \<noteq> 1"
  shows "\<exists>x xs r. x \<in> set (blk s) \<and> remove1 x xs = remove1 x (blk s) \<and> distinct xs \<and>
    set xs = set (blk s) \<and> s' = s\<lparr>rng := r, NextLoc := getNextNode x (blk s), blk := xs, New := x,
      PrevTransformation := MOVE\<rparr>"
proof -
  obtain x s1 l s2 where c: "select_instr rnd End True s = Some (x, s1)"
    "move_target rnd x (s1\<lparr>NextLoc := getNextNode x (blk s1)\<rparr>) = Some (l, s2)"
    using op ne by (auto simp: Move_def bind_Some_iff Let_def)
  obtain r where x: "x \<in> set (blk s)" "s1 = s\<lparr>rng := r\<rparr>"
    using select_instr_result [OF c(1)] by auto
  obtain r' i where l: "s2 = s\<lparr>NextLoc := getNextNode x (blk s), rng := r'\<rparr>" "l \<noteq> At x"
    "l = loc_at (blk s) i"
    using move_target_result [OF c(2)] by (auto simp: x(2))
  let ?ys = "remove1 x (blk s)"
  note wd = wf_transfD(1) [OF wf]
  have ys: "x \<notin> set ?ys" "distinct ?ys" "insert x (set ?ys) = set (blk s)"
    using wd x(1) by (auto simp: set_remove1_eq)
  have "\<exists>xs. (if l \<noteq> End then mbb_insert l x (removeFromParent x s2) else Some (push_back x (removeFromParent x s2)))
      = Some (s2\<lparr>blk := xs\<rparr>) \<and> remove1 x xs = ?ys \<and> distinct xs \<and> set xs = set (blk s)"
  proof (cases l)
    case (At y)
    then have "y \<in> set (blk s)" "y \<noteq> x" using l loc_at_At by metis+
    then have "y \<in> set ?ys" by simp
    then show ?thesis using ys At
      by (auto simp: mbb_insert_def removeFromParent_def l(1) remove_inserted distinct_insert_before
          set_insert_before)
  next
    case End
    then show ?thesis using ys
      by (auto simp: push_back_def removeFromParent_def l(1) remove1_append_notin)
  next
    case Null
    then show ?thesis using op ne c
      by (simp add: Move_def x(2) mbb_insert_def)
  qed
  then obtain xs where xs: "(if l \<noteq> End then mbb_insert l x (removeFromParent x s2)
      else Some (push_back x (removeFromParent x s2))) = Some (s2\<lparr>blk := xs\<rparr>)"
    "remove1 x xs = ?ys" "distinct xs" "set xs = set (blk s)" by blast
  have "s' = s\<lparr>NextLoc := getNextNode x (blk s), rng := r', blk := xs, New := x, PrevTransformation := MOVE\<rparr>"
    using op ne c xs(1) by (auto simp: Move_def x(2) l(1) split: if_splits)
  then show ?thesis using x(1) xs(2-4)
    by (intro exI [of _ x] exI [of _ xs] exI [of _ r']) auto
qed


lemma getNextNode_succ: "getNextNode x xs \<noteq> Null \<Longrightarrow> getNextNode x xs = succ_loc x xs"
  by (auto simp: getNextNode_def split: loc.splits)

lemma getNextNode_last:
  assumes "distinct xs" "x \<in> set xs"
  shows "getNextNode x xs = Null \<longleftrightarrow> x = last xs"
proof -
  obtain as bs where xs: "xs = as @ x # bs" using split_list [OF assms(2)] by blast
  have x: "x \<notin> set as" "x \<notin> set bs" using assms(1) by (auto simp: xs)
  show ?thesis
    using x succ_loc_split [OF x(1), of bs] by (cases bs rule: rev_cases) (auto simp: getNextNode_def xs split: list.splits)
qed

lemma reverts_Move:
  assumes wf: "wf_transf s" and op: "Move rnd s = Some (b, s')"
    and nl: "b \<Longrightarrow> NextLoc s' \<noteq> Null"
  shows "reverts s s'"
proof (cases "NumInstrs s = 1")
  case True
  then show ?thesis using op wf by (auto simp: Move_def reverts_NOP)
next
  case False
  have b using op False by (auto simp: Move_def bind_Some_iff Let_def split: if_splits)
  obtain x xs r where x: "x \<in> set (blk s)" "remove1 x xs = remove1 x (blk s)" "distinct xs"
    "set xs = set (blk s)"
    and s': "s' = s\<lparr>rng := r, NextLoc := getNextNode x (blk s), blk := xs, New := x,
      PrevTransformation := MOVE\<rparr>"
    using Move_result [OF wf op False] by blast
  note wd = wf_transfD [OF wf]
  have "getNextNode x (blk s) \<noteq> Null" using nl [OF \<open>b\<close>] by (simp add: s')
  then have nx: "getNextNode x (blk s) = succ_loc x (blk s)" by (rule getNextNode_succ)
  have len: "length xs = length (blk s)"
    using distinct_card [OF x(3)] distinct_card [OF wd(1)] by (simp add: x(4))
  have "put_back x (s'\<lparr>blk := remove1 x xs\<rparr>) = Some (s'\<lparr>blk := blk s\<rparr>)"
    using put_back_removed [OF wd(1) x(1), of "s'\<lparr>blk := remove1 x xs\<rparr>"] x(2) nx by (simp add: s')
  then have "Undo s' = Some (s'\<lparr>blk := blk s\<rparr>)"
    by (simp add: Undo_def s' removeFromParent_def)
  moreover have "wf_transf s'" using wf x len by (simp add: wf_transf_def s')
  moreover have "wf_transf (s'\<lparr>blk := blk s\<rparr>)" "contents (s'\<lparr>blk := blk s\<rparr>) = contents s"
    using wf by (auto simp: wf_transf_def contents_def s')
  moreover have "gone s'" by (simp add: gone_def s')
  ultimately show ?thesis by (simp add: reverts_def s')
qed

text \<open>\<open>doSwap\<close> of two instructions: clones of each at the place of the other.\<close>

definition swap_ptr :: "nat \<Rightarrow> nat \<Rightarrow> nat \<Rightarrow> nat \<Rightarrow> nat \<Rightarrow> nat" where
  "swap_ptr A B p q z = (if z = A then p else if z = B then q else z)"

lemma doSwap_eq:
  assumes wf: "wf_transf s" and AB: "A \<in> set (blk s)" "B \<in> set (blk s)" "A \<noteq> B"
    and n: "n = next_ptr s"
  shows "\<exists>s'. doSwap A B s = Some ((n, n + 1), s') \<and> wf_transf s' \<and> n \<in> set (blk s') \<and>
    n + 1 \<in> set (blk s') \<and> blk s' = map (swap_ptr A B (n + 1) n) (blk s) \<and>
    objs s' n = objs s A \<and> objs s' (n + 1) = objs s B \<and>
    (\<forall>p \<in> set (blk s) - {A, B}. objs s' p = objs s p) \<and> NumInstrs s' = NumInstrs s \<and>
    PrevTransformation s' = PrevTransformation s"
proof -
  note wd = wf_transfD [OF wf]
  obtain a b where ab: "objs s A = Some a" "objs s B = Some b" using wd(2) AB by blast
  have lt: "A < n" "B < n" using wd(3) AB n by blast+
  have nin: "n \<notin> set (blk s)" "n + 1 \<notin> set (blk s)" using wd(3) n by fastforce+
  let ?blk1 = "map (subst A (n + 1)) (blk s)"
  have d1: "distinct ?blk1" by (rule map_subst_distinct [OF wd(1) nin(2)])
  have B1: "B \<in> set ?blk1" using AB by (force simp: subst_def)
  have n1: "n \<notin> set ?blk1" using nin(1) by (auto simp: subst_def)
  have d2: "distinct (map (subst B n) ?blk1)" by (rule map_subst_distinct [OF d1 n1])
  have comp: "map (subst B n) ?blk1 = map (swap_ptr A B (n + 1) n) (blk s)"
    using AB lt by (auto simp: subst_def swap_ptr_def)
  let ?s' = "s\<lparr>next_ptr := n + 2, blk := map (swap_ptr A B (n + 1) n) (blk s),
    objs := (objs s)(n \<mapsto> a, n + 1 \<mapsto> b, A := None, B := None)\<rparr>"
  have "doSwap A B s = Some ((n, n + 1), ?s')"
    using AB lt ab d1 B1 wd(1)
    by (simp add: doSwap_def clone_object_def new_object_def n [symmetric] replaceInst_eq
        comp [simplified])
  moreover have "distinct (map (swap_ptr A B (n + 1) n) (blk s))" using d2 by (simp only: comp)
  then have "wf_transf ?s'"
    using wf lt nin by (auto simp: wf_transf_def swap_ptr_def n [symmetric] dest: wd(5))
  ultimately show ?thesis using AB lt ab nin
    by (intro exI [of _ ?s']) (auto simp: swap_ptr_def image_iff)
qed

lemma reverts_Swap:
  assumes wf: "wf_transf s" and op: "Swap rnd s = Some (b, s')"
  shows "reverts s s'"
proof (cases "NumInstrs s < 2")
  case True
  then show ?thesis using op wf by (auto simp: Swap_def reverts_NOP)
next
  case False
  obtain A s1 B s2 where c: "select_instr rnd End True s = Some (A, s1)"
    "select_instr rnd (At A) False s1 = Some (B, s2)"
    using op False by (auto simp: Swap_def bind_Some_iff)
  obtain r where x: "A \<in> set (blk s)" "B \<in> set (blk s)" "A \<noteq> B" "s2 = s\<lparr>rng := r\<rparr>"
    using select_instr_result [OF c(1)] select_instr_result [OF c(2)] by auto
  let ?n = "next_ptr s"
  have wf2: "wf_transf s2" using wf by (simp add: x(4))
  obtain s3 where s3: "doSwap A B s2 = Some ((?n, ?n + 1), s3)" "wf_transf s3" "?n \<in> set (blk s3)"
    "?n + 1 \<in> set (blk s3)" "blk s3 = map (swap_ptr A B (?n + 1) ?n) (blk s)"
    "objs s3 ?n = objs s A" "objs s3 (?n + 1) = objs s B"
    "\<forall>p \<in> set (blk s) - {A, B}. objs s3 p = objs s p" "NumInstrs s3 = NumInstrs s"
    using doSwap_eq [OF wf2, of A B ?n] x by auto
  let ?s' = "s3\<lparr>PrevTransformation := SWAP, Swapped1 := ?n, Swapped2 := ?n + 1\<rparr>"
  have s': "s' = ?s'" using op False c s3(1) by (auto simp: Swap_def)
  have wf': "wf_transf s'" using s3(2) by (simp add: s' wf_transf_def)
  obtain s4 where s4: "doSwap ?n (?n + 1) s' = Some ((next_ptr s', next_ptr s' + 1), s4)"
    "wf_transf s4" "blk s4 = map (swap_ptr ?n (?n + 1) (next_ptr s' + 1) (next_ptr s')) (blk s')"
    "objs s4 (next_ptr s') = objs s' ?n" "objs s4 (next_ptr s' + 1) = objs s' (?n + 1)"
    "\<forall>p \<in> set (blk s') - {?n, ?n + 1}. objs s4 p = objs s' p" "NumInstrs s4 = NumInstrs s'"
    "PrevTransformation s4 = SWAP"
    using doSwap_eq [OF wf', of ?n "?n + 1" "next_ptr s'"] s3(3,4) by (auto simp: s')
  let ?t = "s4\<lparr>Swapped1 := next_ptr s', Swapped2 := next_ptr s' + 1\<rparr>"
  have "Undo s' = Some ?t" using s4(1,8) by (simp add: Undo_def s')
  moreover have "wf_transf ?t" using s4(2) by (simp add: wf_transf_def)
  moreover have "contents ?t = contents s"
  proof -
    have lt: "p < ?n" if "p \<in> set (blk s)" for p using wf_transfD(3) [OF wf that] .
    have "objs s4 (swap_ptr ?n (?n + 1) (next_ptr s' + 1) (next_ptr s') (swap_ptr A B (?n + 1) ?n p))
        = objs s p" if p: "p \<in> set (blk s)" for p
    proof (cases "p = A \<or> p = B")
      case True
      then show ?thesis using s4(4,5) s3(6,7) x(3) by (auto simp: swap_ptr_def s')
    next
      case False
      have "p \<in> set (blk s')" using p False by (force simp: s' s3(5) swap_ptr_def)
      then have "objs s4 p = objs s' p" using s4(6) lt [OF p] by auto
      then show ?thesis using False lt [OF p] s3(8) p by (simp add: swap_ptr_def s')
    qed
    then show ?thesis by (simp add: contents_def s4(3) s' s3(5))
  qed
  moreover have "gone s'" by (simp add: gone_def s')
  ultimately show ?thesis using wf' s4(7) s3(9) by (simp add: reverts_def s')
qed

subsection \<open>Opcode classes: lemmas\<close>

definition same_operand :: "op_info \<Rightarrow> op_info \<Rightarrow> bool" where
  "same_operand a b \<longleftrightarrow> OperandType a = OperandType b \<and>
     (OperandType a = OPERAND_REGISTER \<longrightarrow> RegClass a = RegClass b)"

lemma isExchangeable_iff:
  "isExchangeable T A B \<longleftrightarrow> list_all2 same_operand (OpInfo (desc_of T A)) (OpInfo (desc_of T B))"
  by (auto simp: isExchangeable_def list_all2_iff list_all_iff same_operand_def Let_def)

lemma exchangeable_equiv:
  "isExchangeable T A A"
  "isExchangeable T A B \<Longrightarrow> isExchangeable T B A"
  "isExchangeable T A B \<Longrightarrow> isExchangeable T B C \<Longrightarrow> isExchangeable T A C"
proof -
  show "isExchangeable T A A"
    by (simp add: isExchangeable_iff list_all2_same same_operand_def)
  show "isExchangeable T A B \<Longrightarrow> isExchangeable T B A"
    unfolding isExchangeable_iff list_all2_conv_all_nth by (auto simp: same_operand_def)
  show "isExchangeable T A B \<Longrightarrow> isExchangeable T B C \<Longrightarrow> isExchangeable T A C"
    unfolding isExchangeable_iff
    by (rule list_all2_trans [of same_operand same_operand same_operand])
       (auto simp: same_operand_def)
qed

text \<open>
  The classes are non-empty, disjoint, hold opcodes below a bound that are not skipped, and
  two of these are in one class exactly when they are exchangeable.
\<close>

definition classes_ok :: "target \<Rightarrow> nat \<Rightarrow> nat list list \<Rightarrow> bool" where
  "classes_ok T n cs \<longleftrightarrow>
     set (concat cs) = {i. i < n \<and> \<not> skip_opcode T i} \<and>
     (\<forall>c \<in> set cs. c \<noteq> []) \<and>
     (\<forall>c \<in> set cs. \<forall>d \<in> set cs. \<forall>x \<in> set c. \<forall>y \<in> set d. isExchangeable T x y \<longleftrightarrow> c = d)"

lemma class_of_in:
  assumes "e \<in> set (concat cs)"
  shows "class_of cs e \<in> set cs" "e \<in> set (class_of cs e)"
proof -
  have "find (\<lambda>c. e \<in> set c) cs \<noteq> None" using assms by (auto simp: find_None_iff)
  then obtain c where f: "find (\<lambda>c. e \<in> set c) cs = Some c" by auto
  then have "class_of cs e = c" by (simp add: class_of_def)
  moreover obtain i where "i < length cs" "e \<in> set (cs ! i)" "c = cs ! i"
    using f unfolding find_Some_iff by blast
  then have "c \<in> set cs \<and> e \<in> set c" by simp
  ultimately show "class_of cs e \<in> set cs" "e \<in> set (class_of cs e)" by simp_all
qed

lemma find_sort:
  assumes "find P (sort xs) = Some (e :: nat)"
  shows "e \<in> set xs" "P e" "y \<in> set xs \<Longrightarrow> P y \<Longrightarrow> e \<le> y"
proof -
  obtain i where i: "i < length (sort xs)" "P (sort xs ! i)" "e = sort xs ! i"
    "\<forall>j < i. \<not> P (sort xs ! j)"
    using assms by (auto simp: find_Some_iff)
  show "P e" using i by simp
  show "e \<in> set xs" using nth_mem [OF i(1)] i(3) by simp
  assume y: "y \<in> set xs" "P y"
  then have "y \<in> set (sort xs)" by simp
  then obtain j where j: "j < length (sort xs)" "y = sort xs ! j" by (metis in_set_conv_nth)
  then have "i \<le> j" using i(4) y(2) by (metis not_le)
  then show "e \<le> y" using sorted_nth_mono [OF sorted_sort, of i j xs] i(3) j by simp
qed

lemma leader_in:
  assumes "[] \<notin> set cs" "e \<in> set (concat cs)"
  shows "leader cs e \<in> set (class_of cs e)" "leader cs e \<in> set (concat cs)"
proof -
  note c = class_of_in [OF assms(2)]
  then have "class_of cs e \<noteq> []" using assms(1) by metis
  then show l: "leader cs e \<in> set (class_of cs e)" by (simp add: leader_def)
  show "leader cs e \<in> set (concat cs)" using l c(1) by (simp only: set_concat) blast
qed

lemma class_of_unique:
  assumes ok: "\<And>c d x y. \<lbrakk>c \<in> set cs; d \<in> set cs; x \<in> set c; y \<in> set d\<rbrakk>
      \<Longrightarrow> isExchangeable T x y \<longleftrightarrow> c = d"
    and c: "c \<in> set cs" "x \<in> set c"
  shows "class_of cs x = c"
proof -
  have x: "x \<in> set (concat cs)" using c by auto
  show ?thesis
    using ok [OF class_of_in(1) [OF x] c(1) class_of_in(2) [OF x] c(2)] exchangeable_equiv(1) by simp
qed

text \<open>The step in terms of the class, if any, that the new opcode belongs to.\<close>

lemma add_opcode_class:
  assumes ok: "classes_ok T n cs" and n: "\<not> skip_opcode T n"
  shows "(\<forall>x \<in> set (concat cs). \<not> isExchangeable T x n) \<and> set (add_opcode T n cs) = insert [n] (set cs) \<or>
    (\<exists>c \<in> set cs. (\<forall>x \<in> set c. isExchangeable T x n) \<and>
      set (add_opcode T n cs) = insert (c @ [n]) (set cs - {c}))"
proof -
  define ds where "ds = cs @ [[n]]"
  have new: "n \<notin> set (concat cs)" using ok unfolding classes_ok_def by blast
  have ds: "insert_class n cs = ds" using new by (simp only: insert_class_def ds_def if_False)
  have ok': "[] \<notin> set cs" "\<And>c d x y. \<lbrakk>c \<in> set cs; d \<in> set cs; x \<in> set c; y \<in> set d\<rbrakk>
      \<Longrightarrow> isExchangeable T x y \<longleftrightarrow> c = d"
    using ok by (auto simp: classes_ok_def)
  have lt: "x < n" if "x \<in> set (concat cs)" for x using ok that unfolding classes_ok_def by blast
  have cls: "class_of ds x = class_of cs x" if "x \<in> set (concat cs)" for x
  proof -
    have "find (\<lambda>c. x \<in> set c) (cs @ [[n]]) = find (\<lambda>c. x \<in> set c) cs"
      using that by (induction cs) auto
    then show ?thesis by (simp add: class_of_def ds_def)
  qed
  have cls_n: "class_of ds n = [n]"
  proof -
    have "find (\<lambda>c. n \<in> set c) (cs @ [[n]]) = Some [n]"
      using new by (induction cs) auto
    then show ?thesis by (simp add: class_of_def ds_def)
  qed
  have lead: "leader ds n = n" "x \<in> set (concat cs) \<Longrightarrow> leader ds x \<in> set (class_of cs x)" for x
    using leader_in(1) [OF ok'(1), of x] by (simp_all add: leader_def cls_n cls)
  have lead_ex: "isExchangeable T (leader ds x) n \<longleftrightarrow> isExchangeable T x n"
    if x: "x \<in> set (concat cs)" for x
  proof -
    have "isExchangeable T (leader ds x) x"
      using ok'(2) [OF class_of_in(1) [OF x] class_of_in(1) [OF x] lead(2) [OF x] class_of_in(2) [OF x]]
      by simp
    then show ?thesis using exchangeable_equiv by blast
  qed
  have cat: "set (concat ds) = insert n (set (concat cs))" by (simp add: ds_def)
  have "find (\<lambda>e. isExchangeable T (leader ds e) n) (sort (concat ds)) \<noteq> None"
  proof
    assume "find (\<lambda>e. isExchangeable T (leader ds e) n) (sort (concat ds)) = None"
    then have "\<not> isExchangeable T (leader ds n) n"
      using cat unfolding find_None_iff set_sort by blast
    then show False by (simp add: lead(1) exchangeable_equiv(1))
  qed
  then obtain e where e: "find (\<lambda>e. isExchangeable T (leader ds e) n) (sort (concat ds)) = Some e"
    by auto
  note fs = find_sort [OF e]
  have step: "add_opcode T n cs = unionSets (leader ds e) n ds"
    using n by (simp add: add_opcode_def ds Let_def e)
  show ?thesis
  proof (cases "e = n")
    case True
    have "\<not> isExchangeable T x n" if "x \<in> set (concat cs)" for x
    proof
      assume "isExchangeable T x n"
      then have "e \<le> x" using fs(3) [of x] that cat lead_ex [OF that] by blast
      then show False using True lt [OF that] by simp
    qed
    moreover have "add_opcode T n cs = ds" by (simp add: step True lead(1) unionSets_def)
    ultimately show ?thesis by (simp add: ds_def)
  next
    case False
    then have ec: "e \<in> set (concat cs)" using fs(1) cat by blast
    let ?A = "class_of cs e"
    note A = class_of_in [OF ec]
    have lA: "class_of ds (leader ds e) = ?A"
    proof -
      have "leader ds e \<in> set (concat cs)" using lead(2) [OF ec] A(1) by (simp only: set_concat) blast
      from cls [OF this] class_of_unique [OF ok'(2) A(1) lead(2) [OF ec]] show ?thesis by simp
    qed
    have nA: "?A \<noteq> [n]" "[n] \<notin> set cs" using new A(1) by auto
    have "add_opcode T n cs = List.map (\<lambda>c. if c = ?A then ?A @ [n] else c) (filter (\<lambda>c. c \<noteq> [n]) ds)"
      using nA(1) by (simp add: step unionSets_def lA cls_n Let_def)
    also have "filter (\<lambda>c. c \<noteq> [n]) ds = cs" using nA(2) by (auto simp: ds_def filter_id_conv)
    finally have "set (add_opcode T n cs) = insert (?A @ [n]) (set cs - {?A})" using A(1) by auto
    moreover have "isExchangeable T x n" if "x \<in> set ?A" for x
    proof -
      have "isExchangeable T x e" using ok'(2) [OF A(1) A(1) that A(2)] by simp
      moreover have "isExchangeable T e n" using fs(2) lead_ex [OF ec] by simp
      ultimately show ?thesis by (rule exchangeable_equiv(3))
    qed
    ultimately show ?thesis using A(1) by blast
  qed
qed


lemma add_opcode_ok:
  assumes ok: "classes_ok T n cs"
  shows "classes_ok T (Suc n) (add_opcode T n cs)"
proof (cases "skip_opcode T n")
  case True
  then have "{i. i < Suc n \<and> \<not> skip_opcode T i} = {i. i < n \<and> \<not> skip_opcode T i}"
    by (auto simp: less_Suc_eq)
  then show ?thesis using ok True by (simp add: add_opcode_def classes_ok_def)
next
  case False
  have ok': "set (concat cs) = {i. i < n \<and> \<not> skip_opcode T i}" "[] \<notin> set cs"
    "\<And>c d x y. \<lbrakk>c \<in> set cs; d \<in> set cs; x \<in> set c; y \<in> set d\<rbrakk> \<Longrightarrow> isExchangeable T x y \<longleftrightarrow> c = d"
    using ok by (auto simp: classes_ok_def)
  have S: "{i. i < Suc n \<and> \<not> skip_opcode T i} = insert n (set (concat cs))"
    using False ok'(1) by (auto simp: less_Suc_eq)
  have new: "n \<notin> set (concat cs)" using ok'(1) by blast
  have sym: "isExchangeable T n x \<longleftrightarrow> isExchangeable T x n" for x
    using exchangeable_equiv(2) by blast
  have rn: "isExchangeable T n n" by (rule exchangeable_equiv(1))
  from add_opcode_class [OF ok False] show ?thesis
  proof (elim disjE conjE bexE)
    assume none: "\<forall>x \<in> set (concat cs). \<not> isExchangeable T x n"
      and ds: "set (add_opcode T n cs) = insert [n] (set cs)"
    have none': "\<not> isExchangeable T x n" if "c \<in> set cs" "x \<in> set c" for c x
      using none that by auto
    have nn: "[n] \<notin> set cs" using new by auto
    have "isExchangeable T x y \<longleftrightarrow> c = d"
      if m: "c \<in> insert [n] (set cs)" "d \<in> insert [n] (set cs)" "x \<in> set c" "y \<in> set d" for c d x y
    proof -
      consider "c = [n]" "d = [n]" | "c = [n]" "d \<in> set cs" | "c \<in> set cs" "d = [n]"
        | "c \<in> set cs" "d \<in> set cs" using m(1,2) by blast
      then show ?thesis
      proof cases
        case 1
        then show ?thesis using m(3,4) rn by simp
      next
        case 2
        then show ?thesis using m(3,4) none' [of d y] nn sym by auto
      next
        case 3
        then show ?thesis using m(3,4) none' [of c x] nn by auto
      next
        case 4
        then show ?thesis using ok'(3) m(3,4) by simp
      qed
    qed
    moreover have "(\<Union>x \<in> insert [n] (set cs). set x) = insert n (\<Union>x \<in> set cs. set x)" by simp
    ultimately show ?thesis
      unfolding classes_ok_def S set_concat ds using ok'(2) by blast
  next
    fix c
    assume c: "c \<in> set cs" "\<forall>x \<in> set c. isExchangeable T x n"
      and ds: "set (add_opcode T n cs) = insert (c @ [n]) (set cs - {c})"
    have other: "\<not> isExchangeable T x n" if "d \<in> set cs" "d \<noteq> c" "x \<in> set d" for d x
    proof
      assume x: "isExchangeable T x n"
      have "c \<noteq> []" using c(1) ok'(2) by metis
      then obtain y where y: "y \<in> set c" using last_in_set by blast
      then have "isExchangeable T x y" using x c(2) exchangeable_equiv by blast
      then show False using ok'(3) [OF that(1) c(1) that(3) y] that(2) by simp
    qed
    have nn: "c @ [n] \<notin> set cs" using new by auto
    have cc: "isExchangeable T x y" if "x \<in> insert n (set c)" "y \<in> insert n (set c)" for x y
      using that c(2) exchangeable_equiv by blast
    have co: "\<not> isExchangeable T x y" if "x \<in> insert n (set c)" "d \<in> set cs - {c}" "y \<in> set d" for x y d
      using cc [OF that(1), of n] other [of d y] that(2,3) exchangeable_equiv by blast
    have "isExchangeable T x y \<longleftrightarrow> a = b"
      if m: "a \<in> insert (c @ [n]) (set cs - {c})" "b \<in> insert (c @ [n]) (set cs - {c})"
        "x \<in> set a" "y \<in> set b" for a b x y
    proof -
      consider "a = c @ [n]" "b = c @ [n]" | "a = c @ [n]" "b \<in> set cs - {c}"
        | "a \<in> set cs - {c}" "b = c @ [n]" | "a \<in> set cs - {c}" "b \<in> set cs - {c}" using m(1,2) by blast
      then show ?thesis
      proof cases
        case 1
        then show ?thesis using cc m(3,4) by simp
      next
        case 2
        then show ?thesis using co [of x b y] m(3,4) nn by auto
      next
        case 3
        then have "\<not> isExchangeable T y x" using co [of y a x] m(3,4) by simp
        then show ?thesis using 3 nn exchangeable_equiv(2) by blast
      next
        case 4
        then show ?thesis using ok'(3) m(3,4) by simp
      qed
    qed
    moreover have "(\<Union>x \<in> insert (c @ [n]) (set cs - {c}). set x) = insert n (\<Union>x \<in> set cs. set x)"
      using c(1) by auto
    moreover have "[] \<notin> insert (c @ [n]) (set cs - {c})" using ok'(2) by simp
    ultimately show ?thesis
      unfolding classes_ok_def S set_concat ds by blast
  qed
qed

lemma build_classes_ok: "classes_ok T (length (descs T)) (buildOpcodeClasses T)"
proof -
  have "classes_ok T n (fold (add_opcode T) [0..<n] [])" for n
    by (induction n) (simp_all add: add_opcode_ok, simp add: classes_ok_def)
  then show ?thesis by (simp add: buildOpcodeClasses_def)
qed


subsection \<open>Properties\<close>

text \<open>The seven transformations by the kind they record.\<close>

definition transform ::
  "target \<Rightarrow> nat list list \<Rightarrow> 'r rand_fun \<Rightarrow> kind \<Rightarrow> 'r transformation \<Rightarrow> (bool \<times> 'r transformation) option" where
  "transform T cs rnd k s =
     (case k of
        MUT_OPCODE \<Rightarrow> MutateOpcode cs rnd s
      | MUT_OPERAND \<Rightarrow> MutateOperand T rnd s
      | SWAP \<Rightarrow> Swap rnd s
      | REPLACE \<Rightarrow> Replace T rnd s
      | MOVE \<Rightarrow> Move rnd s
      | INSERT \<Rightarrow> Insert T rnd s
      | DELETE \<Rightarrow> Delete rnd s
      | NOP \<Rightarrow> None)"

lemma transform_reverts:
  assumes "wf_transf s" "transform T cs rnd k s = Some (b, s')"
    "k = MOVE \<Longrightarrow> b \<Longrightarrow> NextLoc s' \<noteq> Null"
  shows "reverts s s'"
  using assms
  by (cases k) (auto simp: transform_def intro: reverts_MutateOpcode reverts_MutateOperand
      reverts_Swap reverts_Replace reverts_Move reverts_Insert reverts_Delete)

text \<open>Any transformation leaves a well-formed state, from which \<open>Undo\<close>, if it succeeds, leads back.\<close>

lemma transform_wf:
  assumes "wf_transf s" "transform T cs rnd k s = Some (b, s')"
  shows "wf_transf s'" "gone s'"
proof -
  have "wf_transf s' \<and> gone s'"
  proof (cases "k = MOVE \<and> NumInstrs s \<noteq> 1")
    case True
    then obtain x xs r where x: "distinct xs" "set xs = set (blk s)"
      and s': "s' = s\<lparr>rng := r, NextLoc := getNextNode x (blk s), blk := xs, New := x,
        PrevTransformation := MOVE\<rparr>"
      using Move_result [OF assms(1), of rnd b s'] assms(2) by (auto simp: transform_def)
    have "length xs = length (blk s)"
      using distinct_card [OF x(1)] distinct_card [OF wf_transfD(1) [OF assms(1)]] by (simp add: x(2))
    then show ?thesis using assms(1) x by (simp add: wf_transf_def gone_def s')
  next
    case False
    then have "\<not> (k = MOVE \<and> b)" using assms(2) by (auto simp: transform_def Move_def)
    then show ?thesis using transform_reverts [OF assms] by (auto simp: reverts_def)
  qed
  then show "wf_transf s'" "gone s'" by simp_all
qed

lemma transform_Undo:
  assumes "wf_transf s" "transform T cs rnd k s = Some (b, s')" "Undo s' = Some s''"
  shows "wf_transf s''" "contents s'' = contents s" "NumInstrs s'' = NumInstrs s"
proof -
  have "NextLoc s' \<noteq> Null" if "k = MOVE" "b"
  proof
    assume "NextLoc s' = Null"
    moreover have "Move rnd s = Some (b, s')" using assms(2) that(1) by (simp add: transform_def)
    then have "NumInstrs s \<noteq> 1" "Move rnd s = Some (b, s')" using that(2) by (auto simp: Move_def)
    then have "PrevTransformation s' = MOVE" using Move_result [OF assms(1)] by fastforce
    ultimately show False using assms(3) 
      by (simp add: Undo_def put_back_def mbb_insert_def removeFromParent_def)
  qed
  then have "reverts s s'" using transform_reverts [OF assms(1,2)] by blast
  then show "wf_transf s''" "contents s'' = contents s" "NumInstrs s'' = NumInstrs s"
    using assms(3) by (auto simp: reverts_def)
qed

text \<open>
  Property C12. Undo restores the rewrite: after any transformation, unless it moved the
  last instruction of the block, \<open>Undo\<close> succeeds and gives back the same sequence of
  instructions and the same instruction count, whatever was chosen at random.
\<close>

theorem undo_restores:
  assumes "wf_transf s" "transform T cs rnd k s = Some (b, s')"
    "k = MOVE \<longrightarrow> b \<longrightarrow> NextLoc s' \<noteq> Null"
  shows "\<exists>s''. Undo s' = Some s'' \<and> wf_transf s'' \<and> contents s'' = contents s \<and>
    NumInstrs s'' = NumInstrs s"
  using transform_reverts [OF assms(1,2)] assms(3) by (simp add: reverts_def)

text \<open>A block of two instructions, with random numbers read from a list.\<close>

definition two_instrs :: "nat list \<Rightarrow> nat list transformation" where
  "two_instrs rs =
     \<lparr>objs = [0 \<mapsto> \<lparr>opcode = 5, operands = [Reg 1]\<rparr>, 1 \<mapsto> \<lparr>opcode = 6, operands = [Imm 3]\<rparr>],
      blk = [0, 1], NumInstrs = 2, PrevTransformation = NOP, NextLoc = Null, Old = 0, New = 0,
      Swapped1 = 0, Swapped2 = 0, next_ptr = 2, rng = rs\<rparr>"

definition from_list :: "nat list \<Rightarrow> nat \<times> nat list" where
  "from_list rs = (hd rs, tl rs)"

lemma two_instrs_wf: "wf_transf (two_instrs rs)"
  by (auto simp: wf_transf_def two_instrs_def)

definition no_target :: target where
  "no_target = \<lparr>descs = [], class_regs = (\<lambda>_. []), RIP = 0, EIP = 0, IP = 0\<rparr>"

lemmas run_simps = transform_def select_instr_def select_def select_loop.simps move_target.simps
  rand_choose_def loc_at_def from_list_def two_instrs_def Let_def

theorem undo_restores_witness:
  "\<exists>s' s''. transform no_target [] from_list SWAP (two_instrs [0, 1]) = Some (True, s') \<and>
    contents s' = [\<lparr>opcode = 6, operands = [Imm 3]\<rparr>, \<lparr>opcode = 5, operands = [Reg 1]\<rparr>] \<and>
    Undo s' = Some s'' \<and> contents s'' = contents (two_instrs [0, 1])"
proof -
  obtain s' where s': "transform no_target [] from_list SWAP (two_instrs [0, 1]) = Some (True, s')"
    "contents s' = [\<lparr>opcode = 6, operands = [Imm 3]\<rparr>, \<lparr>opcode = 5, operands = [Reg 1]\<rparr>]"
    by (simp add: run_simps Swap_def doSwap_def clone_object_def new_object_def replaceInst_def
        mbb_insert_def removeFromParent_def delete_object_def contents_def)
  from undo_restores [OF two_instrs_wf s'(1)] s' show ?thesis by auto
qed

text \<open>
  Property C40. The exception of \<open>undo_restores\<close> is real: \<open>Undo\<close> of a move that took place fails
  exactly when the instruction that was moved was the last one of the block. It then uses the null
  pointer that \<open>getNextNode\<close> gave it as the insertion point.
\<close>

theorem undo_move_last:
  assumes "wf_transf s" "Move rnd s = Some (True, s')"
  shows "Undo s' = None \<longleftrightarrow> New s' = last (blk s)"
proof -
  have ne: "NumInstrs s \<noteq> 1" using assms(2) by (auto simp: Move_def)
  obtain x xs r where x: "x \<in> set (blk s)" "distinct xs" "set xs = set (blk s)"
    and s': "s' = s\<lparr>rng := r, NextLoc := getNextNode x (blk s), blk := xs, New := x, PrevTransformation := MOVE\<rparr>"
    using Move_result [OF assms ne] by blast
  have last: "getNextNode x (blk s) = Null \<longleftrightarrow> x = last (blk s)"
    by (rule getNextNode_last [OF wf_transfD(1) [OF assms(1)] x(1)])
  show ?thesis
  proof (cases "NextLoc s' = Null")
    case True
    then have "Undo s' = None" by (simp add: Undo_def s' put_back_def mbb_insert_def removeFromParent_def)
    then show ?thesis using True last by (simp add: s')
  next
    case False
    then have "Undo s' \<noteq> None" using reverts_Move [OF assms] by (auto simp: reverts_def)
    then show ?thesis using False last by (simp add: s')
  qed
qed

theorem undo_move_last_witness:
  "\<exists>s'. Move from_list (two_instrs [1, 0]) = Some (True, s') \<and> New s' = 1 \<and>
    contents s' = [\<lparr>opcode = 6, operands = [Imm 3]\<rparr>, \<lparr>opcode = 5, operands = [Reg 1]\<rparr>] \<and>
    Undo s' = None"
proof -
  obtain s' where s': "Move from_list (two_instrs [1, 0]) = Some (True, s')" "New s' = 1"
    "contents s' = [\<lparr>opcode = 6, operands = [Imm 3]\<rparr>, \<lparr>opcode = 5, operands = [Reg 1]\<rparr>]"
    by (simp add: run_simps Move_def removeFromParent_def contents_def getNextNode_def mbb_insert_def)
  moreover have "last (blk (two_instrs [1, 0])) = 1" by (simp add: two_instrs_def)
  ultimately show ?thesis using undo_move_last [OF two_instrs_wf s'(1)] by simp
qed

definition reg_op :: op_info where "reg_op = \<lparr>OperandType = OPERAND_REGISTER, RegClass = 3\<rparr>"
definition imm_op :: op_info where "imm_op = \<lparr>OperandType = OPERAND_IMMEDIATE, RegClass = -1\<rparr>"

definition plain_desc :: "string \<Rightarrow> op_info list \<Rightarrow> mc_desc" where
  "plain_desc nm ops = \<lparr>opname = nm, OpInfo = ops, isPseudo = False, isBranch = False,
     isReturn = False, isCall = False, isVariadic = False, tied_to_0 = -1, implicit_ops = []\<rparr>"

definition three_opcodes :: target where
  "three_opcodes = no_target\<lparr>descs := [plain_desc ''ADD32rr'' [reg_op, reg_op],
     plain_desc ''ADD32ri'' [reg_op, imm_op], plain_desc ''SUB32rr'' [reg_op, reg_op]]\<rparr>"

end
