(* ===== verification/Search.thy ===== *)
theory Search
  imports Complex_Main Client Transform
begin

text \<open>
  The searches of \<open>search.cpp\<close>: the cost of a tested rewrite, the random proposal of a
  transformation, \<open>synthesize\<close> and \<open>optimize\<close>. A \<open>double\<close> is a real number here; the test of
  a rewrite by the replay client is a parameter. \<open>None\<close> is \<open>exit(1)\<close>, a failed assertion, a
  conversion of a value out of range, or a search that does not end.
\<close>

subsection \<open>Cost\<close>

definition Signal_penalty :: u32 where "Signal_penalty = 1000000"

fun add_costs :: "u32 \<Rightarrow> response list \<Rightarrow> u32 option" where
  "add_costs cost [] = Some cost"
| "add_costs cost (resp # responses) =
     (if success resp = 0 then None
      else if signal resp \<noteq> 0 then add_costs (cost + Signal_penalty) responses
      else add_costs (ucast (ucast cost + (reg_dist resp + stack_dist resp + heap_dist resp))) responses)"

definition calculateCost :: "response list \<Rightarrow> u32 option" where
  "calculateCost responses = add_costs 0 responses"

text \<open>Of the one block of the function.\<close>

definition calculateLatency :: "'r transformation \<Rightarrow> u32" where
  "calculateLatency s = ucast (of_nat (length (blk s)) * 5 :: u64)"

definition copyFunction :: "'r transformation \<Rightarrow> minstr list" where
  "copyFunction s = map (\<lambda>p. the (objs s p)) (blk s)"

subsection \<open>Proposing a rewrite\<close>

definition RAND_MAX :: nat where "RAND_MAX = 2147483647"

definition searcher_rand :: "'r rand_fun \<Rightarrow> 'r transformation \<Rightarrow> real \<times> 'r transformation" where
  "searcher_rand rnd s = (let (v, r) = rnd (rng s) in (real v / real RAND_MAX, s\<lparr>rng := r\<rparr>))"

definition pc :: real where "pc = 0.16"
definition po :: real where "po = 0.5"
definition ps :: real where "ps = 0.16"
definition pu :: real where "pu = 0.16"
definition beta :: real where "beta = 4"

definition MaxInstrs :: nat where "MaxInstrs = 15"

definition swap_or_move :: "'r rand_fun \<Rightarrow> 'r transformation \<Rightarrow> (bool \<times> 'r transformation) option" where
  "swap_or_move rnd s =
     (let InstrProb = real (NumInstrs s) / real MaxInstrs;
          SwapProb = InstrProb * InstrProb;
          (r, s) = searcher_rand rnd s
      in if r \<le> SwapProb then Swap rnd s else Move rnd s)"

definition change_instruction ::
  "target \<Rightarrow> 'r rand_fun \<Rightarrow> 'r transformation \<Rightarrow> (bool \<times> 'r transformation) option" where
  "change_instruction T rnd s =
     (let n = real (NumInstrs s);
          DelProb = n / real MaxInstrs * pu;
          RepProb = n / real MaxInstrs * (1 - pu);
          (r, s) = searcher_rand rnd s
      in if r < DelProb then Delete rnd s
         else if r < DelProb + RepProb then Replace T rnd s
         else Insert T rnd s)"

definition transformRewrite ::
  "target \<Rightarrow> nat list list \<Rightarrow> 'r rand_fun \<Rightarrow> 'r transformation \<Rightarrow> (bool \<times> 'r transformation) option" where
  "transformRewrite T cs rnd s =
     (let (r, s) = searcher_rand rnd s in
      if NumInstrs s = 0 then Insert T rnd s
      else if r \<le> pc then MutateOpcode cs rnd s
      else if r \<le> pc + po then MutateOperand T rnd s
      else if r \<le> pc + po + ps then swap_or_move rnd s
      else change_instruction T rnd s)"

subsection \<open>synthesize\<close>

type_synonym 'w tester = "minstr list \<Rightarrow> 'w \<Rightarrow> (response list \<times> 'w) option"

definition accept_rewrite ::
  "'r rand_fun \<Rightarrow> u32 \<Rightarrow> u32 \<Rightarrow> 'r transformation \<Rightarrow> bool \<times> 'r transformation" where
  "accept_rewrite rnd cost newCost s =
     (if newCost \<ge> Signal_penalty then (False, s)
      else if newCost \<le> cost then (True, s)
      else let (r, s) = searcher_rand rnd s in
        (r < exp (- beta * real (unat newCost) / real (unat cost)), s))"

definition synthesize_step ::
  "target \<Rightarrow> nat list list \<Rightarrow> 'r rand_fun \<Rightarrow> 'w tester \<Rightarrow> u32 \<Rightarrow> 'r transformation \<Rightarrow> 'w \<Rightarrow>
    (u32 \<times> 'r transformation \<times> 'w) option" where
  "synthesize_step T cs rnd testRewrite cost s w =
     do {
       (_, s) \<leftarrow> transformRewrite T cs rnd s;
       (Result, w) \<leftarrow> testRewrite (contents s) w;
       newCost \<leftarrow> calculateCost Result;
       let (acc, s) = accept_rewrite rnd cost newCost s;
       if \<not> acc then do { s \<leftarrow> Undo s; Some (cost, s, w) }
       else Some (newCost, Accept s, w)
     }"

partial_function (option) synthesize_loop ::
  "target \<Rightarrow> nat list list \<Rightarrow> 'r rand_fun \<Rightarrow> 'w tester \<Rightarrow> u32 \<Rightarrow> 'r transformation \<Rightarrow> 'w \<Rightarrow>
    ('r transformation \<times> 'w) option" where
  "synthesize_loop T cs rnd testRewrite cost s w =
     do {
       (cost, s, w) \<leftarrow> synthesize_step T cs rnd testRewrite cost s w;
       if cost \<noteq> 0 then synthesize_loop T cs rnd testRewrite cost s w else Some (s, w)
     }"

definition synthesize ::
  "target \<Rightarrow> nat list list \<Rightarrow> 'r rand_fun \<Rightarrow> 'w tester \<Rightarrow> 'r transformation \<Rightarrow> 'w \<Rightarrow>
    ('r transformation \<times> 'w) option" where
  "synthesize T cs rnd testRewrite s w = synthesize_loop T cs rnd testRewrite 10000 s w"

subsection \<open>optimize\<close>

text \<open>
  The largest cost that is accepted, a \<open>double\<close> converted to \<open>unsigned\<close>; the logarithm of 0
  is minus infinity.
\<close>

definition max_cost :: "u32 \<Rightarrow> real \<Rightarrow> u32 option" where
  "max_cost cost r =
     (if r \<le> 0 then None
      else let x = real (unat cost) - ln r / beta in
        if - 1 < x \<and> x < 2 ^ 32 then Some (of_nat (nat \<lfloor>x\<rfloor>)) else None)"

record ('r, 'w) optimizer =
  cost :: u32
  bestCorrectCost :: u32
  bestCorrect :: "minstr list"
  current :: "'r transformation"
  world :: 'w

definition optimize_step ::
  "target \<Rightarrow> nat list list \<Rightarrow> 'r rand_fun \<Rightarrow> 'w tester \<Rightarrow> ('r, 'w) optimizer \<Rightarrow> ('r, 'w) optimizer option" where
  "optimize_step T cs rnd testRewrite x =
     do {
       (_, s) \<leftarrow> transformRewrite T cs rnd (current x);
       let (r, s) = searcher_rand rnd s;
       maxCost \<leftarrow> max_cost (cost x) r;
       if maxCost < calculateLatency s then do { s \<leftarrow> Undo s; Some (x\<lparr>current := s\<rparr>) }
       else do {
         (Result, w) \<leftarrow> testRewrite (contents s) (world x);
         dist \<leftarrow> calculateCost Result;
         let newCost = dist + calculateLatency s;
         let acc = (if dist \<ge> Signal_penalty then False
                    else if newCost \<le> cost x then True else newCost < maxCost);
         (c, s) \<leftarrow> (if acc then Some (newCost, Accept s)
                    else do { s \<leftarrow> Undo s; Some (cost x, s) });
         Some (if dist = 0 \<and> newCost < bestCorrectCost x
           then x\<lparr>cost := c, bestCorrectCost := newCost, bestCorrect := copyFunction s, current := s,
             world := w\<rparr>
           else x\<lparr>cost := c, current := s, world := w\<rparr>)
       }
     }"

primrec optimize_loop ::
  "target \<Rightarrow> nat list list \<Rightarrow> 'r rand_fun \<Rightarrow> 'w tester \<Rightarrow> nat \<Rightarrow> ('r, 'w) optimizer \<Rightarrow>
    ('r, 'w) optimizer option" where
  "optimize_loop T cs rnd testRewrite 0 x = Some x"
| "optimize_loop T cs rnd testRewrite (Suc n) x =
     do { x \<leftarrow> optimize_step T cs rnd testRewrite x; optimize_loop T cs rnd testRewrite n x }"

definition optimize ::
  "target \<Rightarrow> nat list list \<Rightarrow> 'r rand_fun \<Rightarrow> 'w tester \<Rightarrow> int \<Rightarrow> 'r transformation \<Rightarrow> 'w \<Rightarrow>
    ('r, 'w) optimizer option" where
  "optimize T cs rnd testRewrite MaxItrs s w =
     optimize_loop T cs rnd testRewrite (nat MaxItrs)
       \<lparr>cost = 100000, bestCorrectCost = calculateLatency s, bestCorrect = copyFunction s,
        current = s, world = w\<rparr>"

subsection \<open>Proposals are transformations\<close>

lemma searcher_rand_rng: "\<exists>q. snd (searcher_rand rnd s) = s\<lparr>rng := q\<rparr>"
  by (auto simp: searcher_rand_def split: prod.splits)

lemma searcher_rand_keeps:
  assumes "searcher_rand rnd s = (r, s')"
  shows "\<exists>q. s' = s\<lparr>rng := q\<rparr>"
  using searcher_rand_rng [of rnd s] assms by simp

lemma swap_or_move_kind:
  assumes "swap_or_move rnd s = Some (b, s')"
  shows "\<exists>q. \<exists>k \<in> {SWAP, MOVE}. transform T cs rnd k (s\<lparr>rng := q\<rparr>) = Some (b, s')"
proof -
  obtain r s1 where r: "searcher_rand rnd s = (r, s1)" by fastforce
  then obtain q where "s1 = s\<lparr>rng := q\<rparr>" using searcher_rand_keeps by blast
  with assms r show ?thesis
    by (intro exI [of _ q]) (auto simp: swap_or_move_def Let_def transform_def split: if_splits)
qed

lemma change_instruction_kind:
  assumes "change_instruction T rnd s = Some (b, s')"
  shows "\<exists>q k. transform T cs rnd k (s\<lparr>rng := q\<rparr>) = Some (b, s') \<and>
    (k = INSERT \<and> real (fst (rnd (rng s))) / real RAND_MAX \<ge> real (NumInstrs s) / real MaxInstrs \<or>
     k \<in> {DELETE, REPLACE})"
proof -
  obtain r s1 where r: "searcher_rand rnd s = (r, s1)" by fastforce
  then have v: "r = real (fst (rnd (rng s))) / real RAND_MAX"
    by (auto simp: searcher_rand_def split: prod.splits)
  from r obtain q where q: "s1 = s\<lparr>rng := q\<rparr>" using searcher_rand_keeps by blast
  define n where "n = real (NumInstrs s) / real MaxInstrs"
  have sum: "n * pu + n * (1 - pu) = n" by (simp add: algebra_simps)
  have "change_instruction T rnd s =
      (if r < n * pu then Delete rnd s1 else if r < n then Replace T rnd s1 else Insert T rnd s1)"
    unfolding change_instruction_def Let_def r n_def [symmetric] prod.case sum ..
  then consider (del) "Delete rnd s1 = Some (b, s')" | (rep) "Replace T rnd s1 = Some (b, s')"
    | (ins) "Insert T rnd s1 = Some (b, s')" "n \<le> r"
    using assms by (auto split: if_splits)
  then show ?thesis
  proof cases
    case del
    then show ?thesis by (intro exI [of _ q] exI [of _ DELETE]) (simp add: transform_def q)
  next
    case rep
    then show ?thesis by (intro exI [of _ q] exI [of _ REPLACE]) (simp add: transform_def q)
  next
    case ins
    then show ?thesis
      by (intro exI [of _ q] exI [of _ INSERT]) (simp add: transform_def q v n_def)
  qed
qed

lemma transformRewrite_kind:
  assumes "transformRewrite T cs rnd s = Some (b, s')"
  shows "\<exists>q k. transform T cs rnd k (s\<lparr>rng := q\<rparr>) = Some (b, s')"
proof -
  obtain r s1 where r: "searcher_rand rnd s = (r, s1)" by fastforce
  then obtain q where q: "s1 = s\<lparr>rng := q\<rparr>" using searcher_rand_keeps by blast
  have "\<exists>q k. transform T cs rnd k (s1\<lparr>rng := q\<rparr>) = Some (b, s')"
  proof -
    consider (ins) "Insert T rnd s1 = Some (b, s')" | (opc) "MutateOpcode cs rnd s1 = Some (b, s')"
      | (opd) "MutateOperand T rnd s1 = Some (b, s')" | (sw) "swap_or_move rnd s1 = Some (b, s')"
      | (chg) "change_instruction T rnd s1 = Some (b, s')"
      using assms by (auto simp: transformRewrite_def r split: if_splits)
    then show ?thesis
    proof cases
      case ins
      then show ?thesis by (intro exI [of _ "rng s1"] exI [of _ INSERT]) (simp add: transform_def)
    next
      case opc
      then show ?thesis by (intro exI [of _ "rng s1"] exI [of _ MUT_OPCODE]) (simp add: transform_def)
    next
      case opd
      then show ?thesis by (intro exI [of _ "rng s1"] exI [of _ MUT_OPERAND]) (simp add: transform_def)
    next
      case sw
      then show ?thesis using swap_or_move_kind by blast
    next
      case chg
      then show ?thesis using change_instruction_kind by blast
    qed
  qed
  then show ?thesis by (simp add: q)
qed

lemma transformRewrite_wf:
  assumes "wf_transf s" "transformRewrite T cs rnd s = Some (b, s')"
  shows "wf_transf s'" "gone s'"
    "Undo s' = Some s'' \<Longrightarrow> wf_transf s'' \<and> contents s'' = contents s \<and> NumInstrs s'' = NumInstrs s"
proof -
  obtain q k where k: "transform T cs rnd k (s\<lparr>rng := q\<rparr>) = Some (b, s')"
    using transformRewrite_kind [OF assms(2)] by blast
  have wf: "wf_transf (s\<lparr>rng := q\<rparr>)" using assms(1) by simp
  have c: "contents (s\<lparr>rng := q\<rparr>) = contents s" by (simp add: contents_def)
  show "wf_transf s'" "gone s'" using transform_wf [OF wf k] by simp_all
  show "wf_transf s'' \<and> contents s'' = contents s \<and> NumInstrs s'' = NumInstrs s"
    if "Undo s' = Some s''"
    using transform_Undo [OF wf k that] c by simp
qed

lemma gone_rng [simp]: "gone (s\<lparr>rng := q\<rparr>) = gone s"
  by (simp add: gone_def)

lemma contents_rng [simp]: "contents (s\<lparr>rng := q\<rparr>) = contents s"
  by (simp add: contents_def)

text \<open>\<open>Undo\<close> does not look at the generator.\<close>

lemma mbb_insert_rng:
  "mbb_insert l p (s\<lparr>rng := q\<rparr>) = map_option (\<lambda>s. s\<lparr>rng := q\<rparr>) (mbb_insert l p s)"
  by (cases l) (simp_all add: mbb_insert_def)

lemma replaceInst_rng:
  "replaceInst a b e (s\<lparr>rng := q\<rparr>) = map_option (\<lambda>s. s\<lparr>rng := q\<rparr>) (replaceInst a b e s)"
  by (cases "mbb_insert (At a) b s")
    (simp_all add: replaceInst_def mbb_insert_rng removeFromParent_def delete_object_def Let_def)

lemma doSwap_rng:
  "doSwap A B (s\<lparr>rng := q\<rparr>) = map_option (\<lambda>(p, s). (p, s\<lparr>rng := q\<rparr>)) (doSwap A B s)"
proof -
  have clone: "clone_object p (s\<lparr>rng := q\<rparr>) = map_option (\<lambda>(p, s). (p, s\<lparr>rng := q\<rparr>)) (clone_object p s)"
    for p and s :: "'a transformation"
    by (cases "objs s p") (simp_all add: clone_object_def new_object_def)
  show ?thesis
    unfolding doSwap_def clone
    by (cases "clone_object A s"; clarsimp simp: clone replaceInst_rng; rename_tac AA sA;
        case_tac "clone_object B sA"; clarsimp simp: clone replaceInst_rng; rename_tac BB sB;
        case_tac "replaceInst A BB True sB"; clarsimp simp: replaceInst_rng; rename_tac sC;
        case_tac "replaceInst B AA True sC"; clarsimp simp: replaceInst_rng)
qed

lemma put_back_rng: "put_back p (s\<lparr>rng := q\<rparr>) = map_option (\<lambda>s. s\<lparr>rng := q\<rparr>) (put_back p s)"
  by (simp add: put_back_def push_back_def mbb_insert_rng)

lemma removeFromParent_rng: "removeFromParent p (s\<lparr>rng := q\<rparr>) = (removeFromParent p s)\<lparr>rng := q\<rparr>"
  by (simp add: removeFromParent_def)

lemma Undo_rng: "Undo (s\<lparr>rng := q\<rparr>) = map_option (\<lambda>s. s\<lparr>rng := q\<rparr>) (Undo s)"
proof (cases "PrevTransformation s")
  case SWAP
  then show ?thesis
    by (cases "doSwap (Swapped1 s) (Swapped2 s) s") (auto simp: Undo_def doSwap_rng split: kind.splits)
next
  case MOVE
  then show ?thesis
    by (cases "put_back (New s) (removeFromParent (New s) s)")
      (auto simp: Undo_def put_back_rng removeFromParent_rng split: kind.splits)
next
  case DELETE
  then show ?thesis
    by (cases "put_back (New s) s") (auto simp: Undo_def put_back_rng split: kind.splits)
next
  case INSERT
  then show ?thesis by (simp add: Undo_def removeFromParent_def delete_object_def)
qed (cases "replaceInst (New s) (Old s) True s"; auto simp: Undo_def replaceInst_rng split: kind.splits; fail)+

subsection \<open>One step of a search\<close>

lemma accept_rewrite_rng:
  assumes "accept_rewrite rnd c nc s = (acc, s')"
  shows "\<exists>q. s' = s\<lparr>rng := q\<rparr>"
proof -
  have self: "\<exists>q. s = s\<lparr>rng := q\<rparr>" by (rule rng_self)
  obtain r s1 where r: "searcher_rand rnd s = (r, s1)" by fastforce
  from assms self searcher_rand_keeps [OF r] show ?thesis
    by (auto simp: accept_rewrite_def r split: if_splits)
qed

text \<open>A proposal that is undone or accepted, possibly after drawing random numbers.\<close>

lemma undo_proposal:
  assumes "wf_transf s" "transformRewrite T cs rnd s = Some (b, s1)" "Undo (s1\<lparr>rng := q\<rparr>) = Some s2"
  shows "wf_transf s2" "contents s2 = contents s" "NumInstrs s2 = NumInstrs s"
proof -
  obtain s3 where "Undo s1 = Some s3" "s2 = s3\<lparr>rng := q\<rparr>"
    using assms(3) by (auto simp: Undo_rng)
  then show "wf_transf s2" "contents s2 = contents s" "NumInstrs s2 = NumInstrs s"
    using transformRewrite_wf(3) [OF assms(1,2)] by simp_all
qed

lemma accept_proposal:
  assumes "wf_transf s" "transformRewrite T cs rnd s = Some (b, s1)"
  shows "wf_transf (Accept (s1\<lparr>rng := q\<rparr>))" "contents (Accept (s1\<lparr>rng := q\<rparr>)) = contents s1"
    "blk (Accept (s1\<lparr>rng := q\<rparr>)) = blk s1"
  using transformRewrite_wf(1,2) [OF assms] Accept_ok [of "s1\<lparr>rng := q\<rparr>"] by simp_all

lemma synthesize_step_result:
  assumes wf: "wf_transf s" and step: "synthesize_step T cs rnd test c s w = Some (c', s', w')"
  shows "wf_transf s' \<and> (\<exists>f rs nc. test f w = Some (rs, w') \<and> calculateCost rs = Some nc \<and>
    (c' = nc \<and> nc < Signal_penalty \<and> contents s' = f \<or> c' = c \<and> contents s' = contents s))"
proof -
  from step obtain b s1 where s1: "transformRewrite T cs rnd s = Some (b, s1)"
    by (auto simp: synthesize_step_def bind_Some_iff)
  from step obtain rs w2 where test: "test (contents s1) w = Some (rs, w2)"
    by (auto simp: synthesize_step_def s1 bind_Some_iff)
  from step obtain nc where nc: "calculateCost rs = Some nc"
    by (auto simp: synthesize_step_def s1 test bind_Some_iff)
  obtain acc s2 where a: "accept_rewrite rnd c nc s1 = (acc, s2)" by fastforce
  then obtain q where q: "s2 = s1\<lparr>rng := q\<rparr>" using accept_rewrite_rng by blast
  have w: "w2 = w'"
    using step by (cases acc) (auto simp: synthesize_step_def s1 test nc a bind_Some_iff)
  note rs = test [unfolded w] nc
  show ?thesis
  proof (cases acc)
    case True
    then have "nc < Signal_penalty" using a by (auto simp: accept_rewrite_def split: if_splits)
    moreover have "c' = nc" "s' = Accept (s1\<lparr>rng := q\<rparr>)"
      using step True by (simp_all add: synthesize_step_def s1 rs a q)
    ultimately show ?thesis using accept_proposal [OF wf s1] rs by auto
  next
    case False
    then have "c' = c" "Undo (s1\<lparr>rng := q\<rparr>) = Some s'"
      using step by (auto simp: synthesize_step_def s1 rs a q bind_Some_iff)
    then show ?thesis using undo_proposal [OF wf s1] rs by auto
  qed
qed

lemma synthesize_loop_result:
  assumes "synthesize_loop T cs rnd test c s w = Some y" "wf_transf s" "c \<noteq> 0"
    "ok w" "\<forall>f w rs w'. ok w \<longrightarrow> test f w = Some (rs, w') \<longrightarrow> ok w'"
  shows "wf_transf (fst y) \<and> ok (snd y) \<and>
    (\<exists>w0 rs. ok w0 \<and> test (contents (fst y)) w0 = Some (rs, snd y) \<and> calculateCost rs = Some 0)"
  using assms
proof (induction rule: synthesize_loop.raw_induct [rotated, consumes 1])
  case (1 loop T cs rnd test c s w y)
  from "1"(2) obtain c1 s1 w1 where step: "synthesize_step T cs rnd test c s w = Some (c1, s1, w1)"
    and go: "(if c1 \<noteq> 0 then loop T cs rnd test c1 s1 w1 else Some (s1, w1)) = Some y"
    by (auto simp: bind_Some_iff split: prod.splits)
  note res = synthesize_step_result [OF "1"(3) step]
  then have ok: "ok w1" using "1"(5,6) by blast
  show ?case
  proof (cases "c1 = 0")
    case True
    with go have y: "y = (s1, w1)" by simp
    from res True "1"(4) obtain rs where "test (contents s1) w = Some (rs, w1)" "calculateCost rs = Some 0"
      by auto
    with res y ok "1"(5) show ?thesis by auto
  next
    case False
    with go have "loop T cs rnd test c1 s1 w1 = Some y" by simp
    from "1"(1) [OF this] res False ok "1"(6) show ?thesis by blast
  qed
qed

text \<open>
  What the search relies on in the replay client: a test keeps the invariant \<open>ok\<close> of the world.
  Then the test that ends the search was made in such a world.
\<close>

locale tester =
  fixes test :: "'w tester" and ok :: "'w \<Rightarrow> bool"
  assumes keeps: "ok w \<Longrightarrow> test f w = Some (rs, w') \<Longrightarrow> ok w'"
begin

lemma synthesized:
  assumes "synthesize T cs rnd test s w = Some (s', w')" "wf_transf s" "ok w"
  shows "wf_transf s'" "ok w'" "\<exists>w0 rs. ok w0 \<and> test (contents s') w0 = Some (rs, w') \<and> calculateCost rs = Some 0"
proof -
  have "synthesize_loop T cs rnd test 10000 s w = Some (s', w')" using assms(1) by (simp add: synthesize_def)
  from synthesize_loop_result [where ok = ok, OF this assms(2) _ assms(3)] keeps
  show "wf_transf s'" "ok w'" "\<exists>w0 rs. ok w0 \<and> test (contents s') w0 = Some (rs, w') \<and> calculateCost rs = Some 0"
    by auto
qed

end

text \<open>Any test keeps the invariant that holds everywhere.\<close>

interpretation any_test: tester test "\<lambda>_. True" for test
  by unfold_locales simp

subsection \<open>Properties of the cost\<close>

text \<open>What a response adds to the cost, without wrap-around.\<close>

definition response_cost :: "response \<Rightarrow> nat" where
  "response_cost r =
     (if signal r \<noteq> 0 then 1000000 else unat (reg_dist r) + unat (stack_dist r) + unat (heap_dist r))"

lemma ucast_cost: "ucast (ucast (c :: u32) + (a + b + d :: u64)) = c + of_nat (unat a + unat b + unat d)"
  by (simp add: word_unat_eq_iff unat_word_ariths unsigned_ucast_eq unsigned_of_nat take_bit_eq_mod
      mod_mod_cancel mod_simps)

lemma add_costs_exact:
  "add_costs c rs =
    (if list_all (\<lambda>r. success r \<noteq> 0) rs then Some (c + of_nat (sum_list (map response_cost rs)))
     else None)"
proof (induction rs arbitrary: c)
  case (Cons r rs)
  have "(if signal r \<noteq> 0 then c + Signal_penalty
      else ucast (ucast c + (reg_dist r + stack_dist r + heap_dist r))) = c + of_nat (response_cost r)"
    by (simp only: response_cost_def ucast_cost Signal_penalty_def of_nat_numeral split: if_split) simp
  then show ?case by (auto simp: Cons.IH algebra_simps)
qed simp

subsection \<open>The number of instructions\<close>

lemma mbb_insert_count: "mbb_insert l p s = Some s' \<Longrightarrow> NumInstrs s' = NumInstrs s"
  by (cases l) (auto simp: mbb_insert_def split: if_splits)

lemma replaceInst_count: "replaceInst a b e s = Some s' \<Longrightarrow> NumInstrs s' = NumInstrs s"
  by (auto simp: replaceInst_def bind_Some_iff Let_def removeFromParent_def delete_object_def
      dest: mbb_insert_count split: if_splits)

lemma doSwap_count: "doSwap a b s = Some (p, s') \<Longrightarrow> NumInstrs s' = NumInstrs s"
  by (auto simp: doSwap_def bind_Some_iff clone_object_def new_object_def
      dest!: replaceInst_count split: if_splits)

lemma select_instr_count: "select_instr rnd e i s = Some (x, s') \<Longrightarrow> NumInstrs s' = NumInstrs s"
  using select_instr_result by fastforce

lemma randInstr_count: "randInstr T rnd s = Some (p, s') \<Longrightarrow> NumInstrs s' = NumInstrs s"
  using randInstr_result by fastforce

lemma choose_count: "rand_choose rnd n s = Some (v, s') \<Longrightarrow> NumInstrs s' = NumInstrs s"
  using choose_rng by fastforce

lemma mutate_operands_count: "mutate_operands T rnd mi s = Some (v, s') \<Longrightarrow> NumInstrs s' = NumInstrs s"
  using mutate_operands_rng by fastforce

lemmas op_counts = replaceInst_count doSwap_count select_instr_count randInstr_count choose_count
  mutate_operands_count mbb_insert_count

lemma transform_count:
  assumes "wf_transf s" "transform T cs rnd k s = Some (b, s')"
  shows "NumInstrs s' \<le> NumInstrs s + (if k = INSERT then 1 else 0)"
proof (cases k)
  case MOVE
  then have "Move rnd s = Some (b, s')" using assms(2) by (simp add: transform_def)
  then show ?thesis using Move_result [OF assms(1), of rnd b s']
    by (cases "NumInstrs s = 1") (auto simp: Move_def)
next
  case INSERT
  then have "Insert T rnd s = Some (b, s')" using assms(2) by (simp add: transform_def)
  then show ?thesis
    by (auto simp: INSERT Insert_def Let_def bind_Some_iff push_back_def dest!: op_counts split: if_splits)
qed (insert assms(2); auto simp: transform_def Swap_def MutateOpcode_def MutateOperand_def Replace_def
    Delete_def removeFromParent_def bind_Some_iff Let_def clone_object_def new_object_def
    dest!: op_counts split: if_splits; fail)+

lemma swap_or_move_count:
  assumes "wf_transf s" "swap_or_move rnd s = Some (b, s')"
  shows "NumInstrs s' \<le> NumInstrs s"
proof -
  obtain q k where "k \<in> {SWAP, MOVE}"
    "transform no_target [] rnd k (s\<lparr>rng := q\<rparr>) = Some (b, s')"
    using swap_or_move_kind [OF assms(2)] by blast
  from transform_count [OF _ this(2)] this(1) assms(1) show ?thesis by auto
qed

text \<open>
  Below \<open>MaxInstrs\<close> anything can happen; at \<open>MaxInstrs\<close> instructions or more, deleting and
  replacing take up all of the probability that is left to changing an instruction.
\<close>

lemma change_instruction_count:
  assumes "wf_transf s" "change_instruction T rnd s = Some (b, s')" "\<forall>g. fst (rnd g) < RAND_MAX"
  shows "NumInstrs s' \<le> max MaxInstrs (NumInstrs s)"
proof -
  obtain q k where k: "transform T [] rnd k (s\<lparr>rng := q\<rparr>) = Some (b, s')"
    "k = INSERT \<and> real (fst (rnd (rng s))) / real RAND_MAX \<ge> real (NumInstrs s) / real MaxInstrs \<or>
     k \<in> {DELETE, REPLACE}"
    using change_instruction_kind [OF assms(2)] by blast
  have c: "NumInstrs s' \<le> NumInstrs s + (if k = INSERT then 1 else 0)"
    using transform_count [OF _ k(1)] assms(1) by simp
  show ?thesis
  proof (cases "k = INSERT")
    case True
    then have "real (NumInstrs s) / real MaxInstrs \<le> real (fst (rnd (rng s))) / real RAND_MAX"
      using k(2) by simp
    also have "\<dots> < 1" using assms(3) [rule_format, of "rng s"] by (simp add: RAND_MAX_def)
    finally have "NumInstrs s < MaxInstrs" by (simp add: MaxInstrs_def)
    with c True show ?thesis by simp
  next
    case False
    with c show ?thesis by simp
  qed
qed

lemma transformRewrite_count:
  assumes wf: "wf_transf s" and step: "transformRewrite T cs rnd s = Some (b, s')"
    and "\<forall>g. fst (rnd g) < RAND_MAX"
  shows "NumInstrs s' \<le> max MaxInstrs (NumInstrs s)"
proof -
  obtain r s1 where r: "searcher_rand rnd s = (r, s1)" by fastforce
  then obtain q where q: "s1 = s\<lparr>rng := q\<rparr>" using searcher_rand_keeps by blast
  have wf1: "wf_transf s1" and n: "NumInstrs s1 = NumInstrs s" using wf by (simp_all add: q)
  note count = transform_count [OF wf1]
  consider (ins) "Insert T rnd s1 = Some (b, s')" "NumInstrs s = 0"
    | (opc) "MutateOpcode cs rnd s1 = Some (b, s')"
    | (opd) "MutateOperand T rnd s1 = Some (b, s')" | (sw) "swap_or_move rnd s1 = Some (b, s')"
    | (chg) "change_instruction T rnd s1 = Some (b, s')"
    using step by (auto simp: transformRewrite_def r q split: if_splits)
  then show ?thesis
  proof cases
    case ins
    then show ?thesis using count [of T cs rnd INSERT b s'] n by (simp add: transform_def MaxInstrs_def)
  next
    case opc
    then show ?thesis using count [of T cs rnd MUT_OPCODE b s'] n by (simp add: transform_def)
  next
    case opd
    then show ?thesis using count [of T cs rnd MUT_OPERAND b s'] n by (simp add: transform_def)
  next
    case sw
    then show ?thesis using swap_or_move_count [OF wf1] n by fastforce
  next
    case chg
    then show ?thesis using change_instruction_count [OF wf1 _ assms(3)] n by fastforce
  qed
qed

subsection \<open>One step of optimize\<close>

definition latency_of :: "minstr list \<Rightarrow> u32" where
  "latency_of f = ucast (of_nat (length f) * 5 :: u64)"

lemma calculateLatency_contents: "calculateLatency s = latency_of (contents s)"
  by (simp add: calculateLatency_def latency_of_def contents_def)

lemma copyFunction_contents: "copyFunction s = contents s"
  by (simp add: copyFunction_def contents_def)

text \<open>The ways in which a step can end: rejected without a test, rejected, or accepted.\<close>

lemma optimize_step_cases:
  assumes wf: "wf_transf (current x)" and step: "optimize_step T cs rnd test x = Some y"
  obtains (untested) s where "y = x\<lparr>current := s\<rparr>" "wf_transf s" "contents s = contents (current x)"
  | (tested) f rs w d maxCost acc s where
    "test f (world x) = Some (rs, w)" "calculateCost rs = Some d" "latency_of f \<le> maxCost"
    "acc \<longleftrightarrow> d < Signal_penalty \<and> (d + latency_of f \<le> cost x \<or> d + latency_of f < maxCost)"
    "wf_transf s" "contents s = (if acc then f else contents (current x))"
    "y = (let c = (if acc then d + latency_of f else cost x) in
      if d = 0 \<and> d + latency_of f < bestCorrectCost x
      then x\<lparr>cost := c, bestCorrectCost := d + latency_of f, bestCorrect := contents s, current := s,
        world := w\<rparr>
      else x\<lparr>cost := c, current := s, world := w\<rparr>)"
proof -
  from step obtain b s1 where s1: "transformRewrite T cs rnd (current x) = Some (b, s1)"
    by (auto simp: optimize_step_def bind_Some_iff)
  obtain r s2 where r: "searcher_rand rnd s1 = (r, s2)" by fastforce
  then obtain q where q: "s2 = s1\<lparr>rng := q\<rparr>" using searcher_rand_keeps by blast
  from step obtain mc where mc: "max_cost (cost x) r = Some mc"
    by (auto simp: optimize_step_def s1 r bind_Some_iff)
  define f where "f = contents s1"
  have lat: "calculateLatency s2 = latency_of f" "contents s2 = f"
    by (simp_all add: q f_def calculateLatency_contents)
  show thesis
  proof (cases "mc < latency_of f")
    case True
    with step obtain s3 where "Undo s2 = Some s3" "y = x\<lparr>current := s3\<rparr>"
      by (auto simp: optimize_step_def s1 r mc lat bind_Some_iff)
    then show thesis using untested undo_proposal [OF wf s1] by (auto simp: q)
  next
    case False
    from step False obtain rs w where rs: "test f (world x) = Some (rs, w)"
      by (auto simp: optimize_step_def s1 r mc lat bind_Some_iff)
    from step False obtain d where d: "calculateCost rs = Some d"
      by (auto simp: optimize_step_def s1 r mc lat rs bind_Some_iff)
    define acc where "acc \<longleftrightarrow> d < Signal_penalty \<and> (d + latency_of f \<le> cost x \<or> d + latency_of f < mc)"
    have acc: "(if d \<ge> Signal_penalty then False
        else if d + latency_of f \<le> cost x then True else d + latency_of f < mc) = acc"
      unfolding acc_def by auto
    obtain c s where c: "(if acc then Some (d + latency_of f, Accept s2)
        else do { s \<leftarrow> Undo s2; Some (cost x, s) }) = Some (c, s)"
      and y: "y = (if d = 0 \<and> d + latency_of f < bestCorrectCost x
        then x\<lparr>cost := c, bestCorrectCost := d + latency_of f, bestCorrect := copyFunction s,
          current := s, world := w\<rparr>
        else x\<lparr>cost := c, current := s, world := w\<rparr>)"
      using step False
      by (auto simp: optimize_step_def s1 r mc lat rs d acc Let_def bind_Some_iff simp del: if_split)
    have s: "wf_transf s" "contents s = (if acc then f else contents (current x))"
        "c = (if acc then d + latency_of f else cost x)"
      using c accept_proposal [OF wf s1, of q] undo_proposal [OF wf s1, of q s]
      by (auto simp: q f_def bind_Some_iff split: if_splits)
    show thesis
    proof (rule tested [OF rs d _ acc_def s(1,2)])
      show "latency_of f \<le> mc" using False by simp
    qed (simp only: y s(3) Let_def copyFunction_contents)
  qed
qed

lemma optimize_step_wf:
  assumes "wf_transf (current x)" "optimize_step T cs rnd test x = Some y"
  shows "wf_transf (current y)"
  using assms by (cases rule: optimize_step_cases) (auto simp: Let_def)

text \<open>The recorded cost is the latency of a function that passed its test, if it changed.\<close>

definition passed :: "'w tester \<Rightarrow> minstr list \<Rightarrow> bool" where
  "passed test f \<longleftrightarrow> (\<exists>w rs w'. test f w = Some (rs, w') \<and> calculateCost rs = Some 0)"

lemma optimize_loop_result:
  assumes "optimize_loop T cs rnd test n x = Some y" "wf_transf (current x)"
  shows "bestCorrectCost y = bestCorrectCost x \<and> bestCorrect y = bestCorrect x \<or>
    bestCorrectCost y < bestCorrectCost x \<and> (\<exists>f. passed test f \<and> bestCorrectCost y = latency_of f)"
  using assms
proof (induction n arbitrary: x)
  case (Suc n)
  from Suc.prems(1) obtain z where z: "optimize_step T cs rnd test x = Some z"
    "optimize_loop T cs rnd test n z = Some y" by (auto simp: bind_Some_iff)
  have "bestCorrectCost z = bestCorrectCost x \<and> bestCorrect z = bestCorrect x \<or>
    bestCorrectCost z < bestCorrectCost x \<and> (\<exists>f. passed test f \<and> bestCorrectCost z = latency_of f)"
    using Suc.prems(2) z(1)
    by (cases rule: optimize_step_cases) (auto simp: Let_def passed_def)
  moreover note Suc.IH [OF z(2) optimize_step_wf [OF Suc.prems(2) z(1)]]
  ultimately show ?case by (auto intro: less_trans)
qed simp

subsection \<open>Properties\<close>

text \<open>
  Property C38. The cost of a list of responses is the sum of what each contributes (the
  penalty for a crash, otherwise its three distances), reduced modulo \<open>2^32\<close>; the search
  ends exactly when some rewrite could not be loaded.
\<close>

theorem calculate_cost_exact:
  "calculateCost rs =
    (if list_all (\<lambda>r. success r \<noteq> 0) rs then Some (of_nat (sum_list (map response_cost rs))) else None)"
  by (simp add: calculateCost_def add_costs_exact)

text \<open>
  Property C18. If \<open>synthesize\<close> returns, the function it returns is the one that was tested
  last, all of its responses were successes, and their costs (1000000 for a response with a signal,
  else the sum of the distances) add up to 0 modulo \<open>2^32\<close>, as the code adds them up; the
  transformation state is well-formed.
\<close>

theorem synthesize_correct:
  assumes "wf_transf s" "synthesize T cs rnd test s w = Some (s', w')"
  shows "wf_transf s' \<and> (\<exists>w0 rs. test (contents s') w0 = Some (rs, w') \<and>
    list_all (\<lambda>r. success r \<noteq> 0) rs \<and> sum_list (map response_cost rs) mod 2 ^ 32 = 0)"
proof -
  from any_test.synthesized [OF assms(2,1)] obtain w0 rs where
    wf: "wf_transf s'" and rs: "test (contents s') w0 = Some (rs, w')" "calculateCost rs = Some 0"
    by auto
  then have c: "list_all (\<lambda>r. success r \<noteq> 0) rs" "(of_nat (sum_list (map response_cost rs)) :: u32) = 0"
    by (auto simp: calculateCost_def add_costs_exact split: if_splits)
  from c(2) have "sum_list (map response_cost rs) mod 2 ^ 32 = 0"
    by (simp add: word_of_nat_eq_0_iff dvd_imp_mod_0)
  with c(1) wf rs(1) show ?thesis by (intro conjI exI [of _ w0] exI [of _ rs])
qed

text \<open>A tester whose single worker reports a register distance, and nothing else.\<close>

definition test_by :: "(minstr list \<Rightarrow> u64) \<Rightarrow> unit tester" where
  "test_by d f w = Some ([make_report (d f) 0 0 0], w)"

lemma test_by_cost: "calculateCost [make_report d 0 0 0] = Some (ucast d)"
  by (simp add: calculateCost_def make_report_def)

lemmas search_run_simps = run_simps transformRewrite_def swap_or_move_def change_instruction_def
  searcher_rand_def pc_def po_def ps_def pu_def RAND_MAX_def MaxInstrs_def Delete_def
  removeFromParent_def contents_def

text \<open>The first proposal, the deletion of the first of two instructions, is accepted.\<close>

theorem synthesize_correct_witness:
  "\<exists>s'. synthesize no_target [] from_list (test_by (\<lambda>f. of_nat (length f) - 1))
      (two_instrs [2147483647, 0, 0]) () = Some (s', ()) \<and>
    contents s' = [\<lparr>opcode = 6, operands = [Imm 3]\<rparr>] \<and> wf_transf s'"
proof -
  let ?d = "\<lambda>f. of_nat (length f) - 1"
  obtain s' where s': "synthesize_step no_target [] from_list (test_by ?d) 10000
      (two_instrs [2147483647, 0, 0]) () = Some (0, s', ())"
    "contents s' = [\<lparr>opcode = 6, operands = [Imm 3]\<rparr>]"
    by (simp add: synthesize_step_def search_run_simps test_by_def test_by_cost accept_rewrite_def
        Signal_penalty_def Accept_def delete_object_def)
  then have run: "synthesize no_target [] from_list (test_by ?d) (two_instrs [2147483647, 0, 0]) () =
      Some (s', ())"
    by (simp add: synthesize_def synthesize_loop.simps)
  from synthesize_correct [OF two_instrs_wf run] run s'(2) show ?thesis by blast
qed

definition capped :: "nat list \<Rightarrow> nat \<times> nat list" where
  "capped rs = (case rs of [] \<Rightarrow> (0, []) | r # rs \<Rightarrow> (min r 2147483646, rs))"

text \<open>
  Property C19. If \<open>optimize\<close> returns, either it kept the original function, or it records a
  lower cost, and that cost is the latency of some function that passed all its tests.
\<close>

theorem optimize_result:
  assumes "wf_transf s" "optimize T cs rnd test MaxItrs s w = Some y"
  shows "bestCorrectCost y = calculateLatency s \<and> bestCorrect y = contents s \<or>
    bestCorrectCost y < calculateLatency s \<and>
    (\<exists>f w0 rs w1. test f w0 = Some (rs, w1) \<and> calculateCost rs = Some 0 \<and>
      bestCorrectCost y = latency_of f)"
proof -
  let ?x = "\<lparr>cost = 100000, bestCorrectCost = calculateLatency s, bestCorrect = copyFunction s,
    current = s, world = w\<rparr>"
  have "optimize_loop T cs rnd test (nat MaxItrs) ?x = Some y" using assms(2) by (simp add: optimize_def)
  from optimize_loop_result [OF this] assms(1) show ?thesis
    by (auto simp: passed_def copyFunction_contents)
qed

lemma max_cost_1: "max_cost c 1 = Some c"
proof -
  define n where "n = unat c"
  have "n < 2 ^ 32" using unsigned_less [of c] by (simp add: n_def)
  then have n: "real n < 2 ^ 32" by (metis of_nat_less_iff of_nat_numeral of_nat_power)
  have "c = of_nat n" by (simp add: n_def)
  then show ?thesis unfolding max_cost_def n_def [symmetric] using n by simp
qed

text \<open>The two instructions after one, and after two, deletions that were accepted.\<close>

definition one_left :: "nat list \<Rightarrow> nat list transformation" where
  "one_left rs = (two_instrs rs)\<lparr>objs := [1 \<mapsto> \<lparr>opcode = 6, operands = [Imm 3]\<rparr>], blk := [1],
     NumInstrs := 1, PrevTransformation := DELETE, NextLoc := At 1, New := 0\<rparr>"

definition none_left :: "nat list \<Rightarrow> nat list transformation" where
  "none_left rs = (two_instrs rs)\<lparr>objs := Map.empty, blk := [],
     NumInstrs := 0, PrevTransformation := DELETE, NextLoc := End, New := 1\<rparr>"

lemma delete_first:
  "transformRewrite T cs from_list (two_instrs (2147483647 # 0 # 0 # rs)) =
    Some (True, (one_left rs)\<lparr>objs := objs (two_instrs rs)\<rparr>)"
  by (simp add: search_run_simps one_left_def)

lemma delete_second:
  "transformRewrite T cs from_list (one_left (2147483647 # 0 # 0 # rs)) =
    Some (True, (none_left rs)\<lparr>objs := objs (one_left rs)\<rparr>)"
  by (simp add: search_run_simps one_left_def none_left_def)

lemma accept_deletions:
  "Accept ((one_left rs)\<lparr>objs := objs (two_instrs rs)\<rparr>) = one_left rs"
  "Accept ((none_left rs)\<lparr>objs := objs (one_left rs)\<rparr>) = none_left rs"
  by (auto simp: one_left_def none_left_def two_instrs_def Accept_def delete_object_def)

lemma left_contents:
  "contents ((one_left rs)\<lparr>objs := objs (two_instrs rs)\<rparr>) = [\<lparr>opcode = 6, operands = [Imm 3]\<rparr>]"
  "contents (one_left rs) = [\<lparr>opcode = 6, operands = [Imm 3]\<rparr>]"
  "contents ((none_left rs)\<lparr>objs := objs (one_left rs)\<rparr>) = []" "contents (none_left rs) = []"
  by (simp_all add: one_left_def none_left_def two_instrs_def contents_def)

lemma left_rand:
  "searcher_rand from_list ((one_left (2147483647 # rs))\<lparr>objs := m\<rparr>) = (1, (one_left rs)\<lparr>objs := m\<rparr>)"
  "searcher_rand from_list ((none_left (2147483647 # rs))\<lparr>objs := m\<rparr>) = (1, (none_left rs)\<lparr>objs := m\<rparr>)"
  by (simp_all add: searcher_rand_def from_list_def one_left_def none_left_def two_instrs_def RAND_MAX_def)

lemma two_instrs_objs: "objs (two_instrs rs) = objs (two_instrs [])"
  by (simp add: two_instrs_def)

lemma one_left_objs: "objs (one_left rs) = objs (one_left [])"
  by (simp add: one_left_def)

definition start_optimizer :: "nat list \<Rightarrow> (nat list, unit) optimizer" where
  "start_optimizer rs =
     \<lparr>cost = 100000, bestCorrectCost = 10, bestCorrect = contents (two_instrs []),
      current = two_instrs rs, world = ()\<rparr>"

lemma optimize_step_accept:
  assumes "transformRewrite T cs rnd (current x) = Some (b, s1)" "searcher_rand rnd s1 = (1, s2)"
    "test (contents s2) (world x) = Some (rs, w)" "calculateCost rs = Some d"
    "d < Signal_penalty" "d + calculateLatency s2 \<le> cost x" "calculateLatency s2 \<le> cost x"
  shows "optimize_step T cs rnd test x =
    Some (if d = 0 \<and> d + calculateLatency s2 < bestCorrectCost x
      then x\<lparr>cost := d + calculateLatency s2, bestCorrectCost := d + calculateLatency s2,
        bestCorrect := copyFunction (Accept s2), current := Accept s2, world := w\<rparr>
      else x\<lparr>cost := d + calculateLatency s2, current := Accept s2, world := w\<rparr>)"
proof -
  have "\<not> cost x < calculateLatency s2" "\<not> Signal_penalty \<le> d" using assms(5,7) by auto
  then show ?thesis by (simp add: optimize_step_def assms(1-4,6) max_cost_1 Let_def)
qed

lemma latency_left:
  "calculateLatency ((one_left rs)\<lparr>objs := m\<rparr>) = 5" "calculateLatency ((none_left rs)\<lparr>objs := m\<rparr>) = 0"
  by (simp_all add: calculateLatency_def one_left_def none_left_def)

lemma first_step:
  assumes "d [\<lparr>opcode = 6, operands = [Imm 3]\<rparr>] = e" "e < 1000"
  shows "optimize_step T cs from_list (test_by d) (start_optimizer (2147483647 # 0 # 0 # 2147483647 # rs)) =
    Some (if e = 0 then (start_optimizer [])\<lparr>cost := 5, bestCorrectCost := 5,
        bestCorrect := [\<lparr>opcode = 6, operands = [Imm 3]\<rparr>], current := one_left rs\<rparr>
      else (start_optimizer [])\<lparr>cost := ucast e + 5, current := one_left rs\<rparr>)"
proof -
  let ?x = "start_optimizer (2147483647 # 0 # 0 # 2147483647 # rs)"
  let ?s = "\<lambda>rs. (one_left rs)\<lparr>objs := objs (two_instrs [])\<rparr>"
  have tr: "transformRewrite T cs from_list (current ?x) = Some (True, ?s (2147483647 # rs))"
    by (simp add: start_optimizer_def delete_first two_instrs_objs [of "_ # _"])
  have u: "unat e < 1000" using assms(2) by (simp add: word_less_nat_alt)
  then have u: "unat (ucast e :: u32) = unat e" "unat e < 1000"
    by (simp_all add: unsigned_ucast_eq take_bit_nat_eq_self)
  have c: "contents (?s rs) = [\<lparr>opcode = 6, operands = [Imm 3]\<rparr>]" "Accept (?s rs) = one_left rs"
    using left_contents(1) [of rs] accept_deletions(1) [of rs] by (simp_all add: two_instrs_objs [of rs])
  have e: "(ucast e :: u32) < Signal_penalty" "(ucast e :: u32) + 5 \<le> 100000"
    using u by (simp_all add: word_less_nat_alt word_le_nat_alt Signal_penalty_def unat_word_ariths)
  have z: "(ucast e :: u32) = 0 \<longleftrightarrow> e = 0" using u by (metis unat_eq_zero)
  have step: "optimize_step T cs from_list (test_by d) ?x =
      Some (if (ucast e :: u32) = 0 \<and> ucast e + calculateLatency (?s rs) < bestCorrectCost ?x
      then ?x\<lparr>cost := ucast e + calculateLatency (?s rs),
        bestCorrectCost := ucast e + calculateLatency (?s rs),
        bestCorrect := copyFunction (Accept (?s rs)), current := Accept (?s rs), world := ()\<rparr>
      else ?x\<lparr>cost := ucast e + calculateLatency (?s rs), current := Accept (?s rs), world := ()\<rparr>)"
  proof (rule optimize_step_accept [OF tr left_rand(1)])
    show "test_by d (contents (?s rs)) (world ?x) = Some ([make_report e 0 0 0], ())"
      by (simp add: test_by_def c assms(1) start_optimizer_def)
  qed (use e in \<open>simp_all add: test_by_cost latency_left start_optimizer_def\<close>)
  show ?thesis
    unfolding step latency_left c
    by (simp add: z start_optimizer_def copyFunction_contents left_contents)
qed

theorem optimize_result_witness:
  "\<exists>y. optimize no_target [] from_list (test_by (\<lambda>f. of_nat (length f) - 1)) 1
      (two_instrs [2147483647, 0, 0, 2147483647]) () = Some y \<and>
    bestCorrectCost y = 5 \<and> bestCorrect y = [\<lparr>opcode = 6, operands = [Imm 3]\<rparr>]"
proof -
  let ?s = "two_instrs [2147483647, 0, 0, 2147483647]"
  let ?x = "start_optimizer [2147483647, 0, 0, 2147483647]"
  let ?test = "test_by (\<lambda>f. of_nat (length f) - 1)"
  have x: "\<lparr>cost = 100000, bestCorrectCost = calculateLatency ?s, bestCorrect = copyFunction ?s,
      current = ?s, world = ()\<rparr> = ?x"
    by (simp add: start_optimizer_def calculateLatency_def copyFunction_def contents_def two_instrs_def)
  obtain y where y: "optimize_step no_target [] from_list ?test ?x = Some y"
    "bestCorrectCost y = 5" "bestCorrect y = [\<lparr>opcode = 6, operands = [Imm 3]\<rparr>]"
    by (simp add: first_step)
  then have run: "optimize no_target [] from_list ?test 1 ?s () = Some y"
    by (simp add: optimize_def x)
  from optimize_result [OF two_instrs_wf run] run y(2,3) show ?thesis by blast
qed

subsection \<open>A function that fails its tests is returned\<close>

lemma exp_16_bound: "exp (16 :: real) \<le> 2147483647 / 40"
proof -
  have "exp (16 :: real) = exp 1 ^ 16" using exp_of_nat_mult [of 16 "1 :: real"] by simp
  also have "\<dots> \<le> 3 ^ 16" by (intro power_mono exp_le) simp
  finally show ?thesis by simp
qed

lemma exp_20_bound: "2147483647 / 40 < exp (20 :: real)"
proof -
  have "2147483647 / 40 < (5 / 2 :: real) ^ 20" by (simp add: power_divide)
  also have "\<dots> \<le> exp 1 ^ 20"
    using exp_lower_Taylor_quadratic [of "1 :: real"] by (intro power_mono) simp_all
  also have "exp 1 ^ 20 = exp (20 :: real)" using exp_of_nat_mult [of 20 "1 :: real"] by simp
  finally show ?thesis .
qed

lemma max_cost_rare: "max_cost 1 (40 / 2147483647) = Some 5"
proof -
  define l where "l = ln (2147483647 / 40 :: real)"
  have "16 \<le> l" using exp_16_bound ln_ge_iff [of "2147483647 / 40" 16] by (simp add: l_def)
  moreover have "l < 20" using exp_20_bound ln_less_cancel_iff [of "2147483647 / 40" "exp 20"]
    by (simp add: l_def)
  moreover have "ln (40 / 2147483647 :: real) = - l" by (simp add: l_def ln_div)
  ultimately have "\<lfloor>1 - ln (40 / 2147483647 :: real) / 4\<rfloor> = 5" "1 - ln (40 / 2147483647 :: real) / 4 < 6"
    by (simp_all add: floor_eq_iff)
  then show ?thesis using \<open>16 \<le> l\<close> \<open>ln (40 / 2147483647 :: real) = - l\<close> by (simp add: max_cost_def beta_def)
qed

text \<open>A target with one opcode, and distances: the empty function fails its test.\<close>

definition one_opcode :: target where
  "one_opcode = no_target\<lparr>descs := [plain_desc ''ADD32ii'' [imm_op, imm_op]]\<rparr>"

definition some_distances :: "minstr list \<Rightarrow> u64" where
  "some_distances f =
     (if f = [] then 1 else if f = [\<lparr>opcode = 6, operands = [Imm 3]\<rparr>] then 3 else 0)"

definition one_new :: "nat list \<Rightarrow> nat list transformation" where
  "one_new rs = (none_left rs)\<lparr>objs := [2 \<mapsto> \<lparr>opcode = 0, operands = [Imm 0, Imm 0]\<rparr>], blk := [2],
     NumInstrs := 1, PrevTransformation := INSERT, New := 2, next_ptr := 3\<rparr>"

lemma insert_third:
  "transformRewrite one_opcode cs from_list (none_left (0 # 0 # 0 # 0 # rs)) = Some (True, one_new rs)"
  by (simp add: transformRewrite_def searcher_rand_def from_list_def none_left_def two_instrs_def
      Insert_def randInstr_def chooseNonBranchOpcode.simps rand_choose_def one_opcode_def no_target_def
      plain_desc_def skip_opcode_def desc_of_def hasUnknown_def isSupported_def starts_with_def
      imm_op_def initial_operand_def randOperand_def Immediates_def tie_operands_def new_object_def
      push_back_def one_new_def Let_def)

lemma undo_third: "\<exists>s. Undo (one_new rs) = Some s \<and> contents s = []"
  by (simp add: Undo_def one_new_def removeFromParent_def delete_object_def contents_def)

lemma second_step:
  assumes "test = test_by some_distances" "current x = one_left (2147483647 # 0 # 0 # 2147483647 # rs)"
    "cost x = 8" "world x = ()"
  shows "optimize_step T cs from_list test x = Some (x\<lparr>cost := 1, current := none_left rs, world := ()\<rparr>)"
proof -
  let ?s = "\<lambda>rs. (none_left rs)\<lparr>objs := objs (one_left [])\<rparr>"
  have tr: "transformRewrite T cs from_list (current x) = Some (True, ?s (2147483647 # rs))"
    by (simp add: assms(2) delete_second one_left_objs [of "_ # _"])
  have c: "contents (?s rs) = []" "Accept (?s rs) = none_left rs"
    using left_contents(3) [of rs] accept_deletions(2) [of rs] by (simp_all add: one_left_objs [of rs])
  have "optimize_step T cs from_list test x =
    Some (if (1 :: u32) = 0 \<and> 1 + calculateLatency (?s rs) < bestCorrectCost x
      then x\<lparr>cost := 1 + calculateLatency (?s rs), bestCorrectCost := 1 + calculateLatency (?s rs),
        bestCorrect := copyFunction (Accept (?s rs)), current := Accept (?s rs), world := ()\<rparr>
      else x\<lparr>cost := 1 + calculateLatency (?s rs), current := Accept (?s rs), world := ()\<rparr>)"
  proof (rule optimize_step_accept [OF tr left_rand(2)])
    show "test (contents (?s rs)) (world x) = Some ([make_report 1 0 0 0], ())"
      by (simp add: assms c test_by_def some_distances_def)
  qed (simp_all add: test_by_cost latency_left assms Signal_penalty_def)
  then show ?thesis by (simp add: latency_left c)
qed

lemma third_step:
  assumes "test = test_by some_distances" "current x = none_left (0 # 0 # 0 # 0 # 40 # rs)"
    "cost x = 1" "bestCorrectCost x = 10" "world x = ()"
  shows "\<exists>y. optimize_step one_opcode cs from_list test x = Some y \<and>
    bestCorrectCost y = 5 \<and> bestCorrect y = []"
proof -
  obtain s where s: "Undo (one_new rs) = Some s" "contents s = []" using undo_third by blast
  have r: "searcher_rand from_list (one_new (40 # rs)) = (40 / 2147483647, one_new rs)"
    by (simp add: searcher_rand_def from_list_def one_new_def none_left_def two_instrs_def RAND_MAX_def)
  have c: "contents (one_new rs) = [\<lparr>opcode = 0, operands = [Imm 0, Imm 0]\<rparr>]"
    "calculateLatency (one_new rs) = 5"
    by (simp_all add: one_new_def contents_def calculateLatency_def)
  have t: "test (contents (one_new rs)) () = Some ([make_report 0 0 0 0], ())"
    by (simp add: assms(1) c test_by_def some_distances_def)
  have le: "\<not> (5 :: u32) \<le> 1" by (simp add: word_le_nat_alt)
  show ?thesis
    by (simp add: le optimize_step_def assms(2-5) insert_third r max_cost_rare c(2) t test_by_cost s
        Signal_penalty_def copyFunction_contents Let_def)
qed

text \<open>
  Property C39. \<open>optimize\<close> can return a function that it knows to fail: with these random
  numbers it starts from a correct function, deletes both instructions (accepting distances
  3 and 1), then proposes a correct function of cost 5, which it rejects since 5 is not
  below the largest acceptable cost 5. It then records the function it went back to, the
  empty one with distance 1, as the best correct function of cost 5.
\<close>

theorem optimize_returns_failing:
  "\<exists>y. optimize one_opcode [] from_list (test_by some_distances) 3
      (two_instrs [2147483647, 0, 0, 2147483647, 2147483647, 0, 0, 2147483647, 0, 0, 0, 0, 40]) () = Some y \<and>
    bestCorrect y = [] \<and> bestCorrectCost y = 5 \<and>
    test_by some_distances (bestCorrect y) () = Some ([make_report 1 0 0 0], ()) \<and>
    test_by some_distances (contents (two_instrs [])) () = Some ([make_report 0 0 0 0], ())"
proof -
  let ?rs = "[2147483647, 0, 0, 2147483647, 0, 0, 0, 0, 40]"
  let ?s = "two_instrs (2147483647 # 0 # 0 # 2147483647 # ?rs)"
  let ?x = "start_optimizer (2147483647 # 0 # 0 # 2147483647 # ?rs)"
  let ?test = "test_by some_distances"
  define x1 where "x1 = (start_optimizer [])\<lparr>cost := 8, current := one_left ?rs\<rparr>"
  define x2 where "x2 = x1\<lparr>cost := 1, current := none_left [0, 0, 0, 0, 40], world := ()\<rparr>"
  have x: "\<lparr>cost = 100000, bestCorrectCost = calculateLatency ?s, bestCorrect = copyFunction ?s,
      current = ?s, world = ()\<rparr> = ?x"
    by (simp add: start_optimizer_def calculateLatency_def copyFunction_def contents_def two_instrs_def)
  have 1: "optimize_step one_opcode [] from_list ?test ?x = Some x1"
    by (simp add: first_step [where e = 3] some_distances_def x1_def)
  have 2: "optimize_step one_opcode [] from_list ?test x1 = Some x2"
    unfolding x2_def by (rule second_step) (simp_all add: x1_def start_optimizer_def)
  obtain y where 3: "optimize_step one_opcode [] from_list ?test x2 = Some y"
    "bestCorrectCost y = 5" "bestCorrect y = []"
    using third_step [of ?test x2 "[]" "[]"] by (auto simp: x2_def x1_def start_optimizer_def)
  have n: "nat 3 = Suc (Suc (Suc 0))" by simp
  have "optimize one_opcode [] from_list ?test 3 ?s () = Some y"
    unfolding optimize_def x n optimize_loop.simps 1 2 3 by (simp add: 1 2 3)
  with 3 show ?thesis
    by (intro exI [of _ y]) (simp add: test_by_def some_distances_def contents_def two_instrs_def)
qed

end
