(* ===== verification/Instrument.thy ===== *)
theory Instrument
  imports Client Transform
begin

text \<open>
  The instrumentation of \<open>mf_instrument.cpp\<close> and its use in \<open>replay_cli.cpp\<close>: the layout of
  the buffer that registers are dumped to, the code that dumps them, protects the frame of
  the runtime and returns to the server. The target's tables of opcodes, registers and
  register classes are parameters. \<open>None\<close> is \<open>llvm_unreachable\<close>, an exception, a failed
  assertion or a division by 0.
\<close>

subsection \<open>Tables of the target\<close>

type_synonym reg = nat

text \<open>The largest legal superclass of the smallest class that holds a register.\<close>

record reg_class =
  rc_regs :: "reg list"
  rc_size :: u32
  rc_align :: u32
  rc_id :: u64

text \<open>A later register of the same name replaces an earlier one in the map.\<close>

definition initRegisters :: "string list \<Rightarrow> string \<rightharpoonup> reg" where
  "initRegisters names = fold (\<lambda>i m. m(names ! i \<mapsto> i)) [0..<length names] Map.empty"

definition getRegister :: "string list \<Rightarrow> string \<Rightarrow> reg option" where
  "getRegister names nm = initRegisters names nm"

definition getOpcode :: "string list \<Rightarrow> string \<Rightarrow> nat option" where
  "getOpcode names nm = find (\<lambda>i. names ! i = nm) [0..<length names]"

text \<open>The opcodes and registers that the x86-64 instrumenter looks up.\<close>

record x86 =
  FreeReg :: reg
  Callq :: nat
  Movabsq :: nat
  Retq :: nat
  PUSH64r :: nat
  POP64r :: nat
  RDI :: reg
  ESI :: reg
  EAX :: reg
  RAX :: reg
  AL :: reg
  RSI :: reg
  RDX :: reg
  RCX :: reg
  R8 :: reg
  R9 :: reg

definition X86_64Instrumenter :: "string list \<Rightarrow> string list \<Rightarrow> x86 option" where
  "X86_64Instrumenter opcodes registers =
     do {
       r11 \<leftarrow> getRegister registers ''R11'';
       callq \<leftarrow> getOpcode opcodes ''CALL64pcrel32'';
       movabsq \<leftarrow> getOpcode opcodes ''MOV64ri'';
       retq \<leftarrow> getOpcode opcodes ''RETQ'';
       push64 \<leftarrow> getOpcode opcodes ''PUSH64r'';
       pop64 \<leftarrow> getOpcode opcodes ''POP64r'';
       rdi \<leftarrow> getRegister registers ''RDI'';
       esi \<leftarrow> getRegister registers ''ESI'';
       eax \<leftarrow> getRegister registers ''EAX'';
       rax \<leftarrow> getRegister registers ''RAX'';
       al \<leftarrow> getRegister registers ''AL'';
       rsi \<leftarrow> getRegister registers ''RSI'';
       rdx \<leftarrow> getRegister registers ''RDX'';
       rcx \<leftarrow> getRegister registers ''RCX'';
       r8 \<leftarrow> getRegister registers ''R8'';
       r9 \<leftarrow> getRegister registers ''R9'';
       Some \<lparr>FreeReg = r11, Callq = callq, Movabsq = movabsq, Retq = retq, PUSH64r = push64,
         POP64r = pop64, RDI = rdi, ESI = esi, EAX = eax, RAX = rax, AL = al, RSI = rsi, RDX = rdx,
         RCX = rcx, R8 = r8, R9 = r9\<rparr>
     }"

subsection \<open>The register buffer\<close>

definition align :: "u32 \<Rightarrow> u32 \<Rightarrow> u32 option" where
  "align Addr Alignment =
     (if Alignment = 0 then None
      else let Aligned = (Addr + Alignment - 1) div Alignment * Alignment in
        if Aligned mod Alignment = 0 then Some Aligned else None)"

text \<open>The set of equivalent registers, in the ascending order of \<open>std::set\<close>.\<close>

definition equivalent_regs :: "(reg \<Rightarrow> reg_class) \<Rightarrow> reg list \<Rightarrow> reg list" where
  "equivalent_regs TRI OutputRegs =
     sort (remdups (filter (\<lambda>ER. ER \<notin> set OutputRegs) (concat (map (\<lambda>r. rc_regs (TRI r)) OutputRegs))))"

text \<open>
  The loop that places the registers from \<open>CurOffset\<close> on: \<open>RegInfo\<close>, the initializer of
  \<open>_ug_reg_info\<close>, and the final offset.
\<close>

fun place_regs ::
  "(reg \<Rightarrow> reg_class) \<Rightarrow> reg list \<Rightarrow> u32 \<Rightarrow> ((u32 \<times> u32) list \<times> reg_info list \<times> u32) option" where
  "place_regs TRI [] CurOffset = Some ([], [], CurOffset)"
| "place_regs TRI (r # rs) CurOffset =
     (let RC = TRI r; RegSize = rc_size RC in
      do {
        off \<leftarrow> align CurOffset (rc_align RC);
        (RegInfo, table, end_offset) \<leftarrow> place_regs TRI rs (off + RegSize);
        Some ((off, RegSize) # RegInfo,
          \<lparr>offset = ucast off, rsize = ucast RegSize, regclass = rc_id RC\<rparr> # table, end_offset)
      })"

text \<open>The globals that are declared in a module.\<close>

record reg_globals =
  buffer_name :: string
  buffer_size :: u32
  ug_reg_info :: "reg_info list"
  ug_num_output_regs :: nat
  ug_num_regs :: nat

text \<open>The state of an instrumenter; modules are numbered.\<close>

record instrumenter =
  Regs :: "reg list"
  RegInfo :: "(u32 \<times> u32) list"
  RegData :: "nat \<rightharpoonup> reg_globals"

definition calculateRegBufferLayout ::
  "(reg \<Rightarrow> reg_class) \<Rightarrow> nat \<Rightarrow> reg list \<Rightarrow> string \<Rightarrow> instrumenter \<Rightarrow> instrumenter option" where
  "calculateRegBufferLayout TRI M OutputRegs BufferName I =
     (let rs = OutputRegs @ equivalent_regs TRI OutputRegs in
      do {
        (info, table, CurOffset) \<leftarrow> place_regs TRI rs 0;
        Some \<lparr>Regs = rs, RegInfo = info, RegData = (RegData I)(M \<mapsto>
          \<lparr>buffer_name = BufferName, buffer_size = CurOffset, ug_reg_info = table,
           ug_num_output_regs = length OutputRegs, ug_num_regs = length rs\<rparr>)\<rparr>
      })"

subsection \<open>Machine code\<close>

datatype mop = R reg | I int | Sym string

text \<open>
  An instruction built by opcode, one of the two built by the target's hooks (load the
  address of a global, store a register at an offset), or one of the rewrite itself.
\<close>

datatype code = MI nat "mop list" | GlobalPICAddr reg string | StoreReg reg reg u32 | Rewrite minstr

text \<open>
  \<open>BuildMI\<close> inserts before an iterator, which is given here by the number of instructions
  from it to the end of the block: all of them for \<open>instr_begin\<close>, 0 for \<open>instr_end\<close>.
\<close>

definition BuildMI :: "nat \<Rightarrow> code \<Rightarrow> code list \<Rightarrow> code list" where
  "BuildMI rest i MBB = take (length MBB - rest) MBB @ i # drop (length MBB - rest) MBB"

definition push :: "x86 \<Rightarrow> reg \<Rightarrow> nat \<Rightarrow> code list \<Rightarrow> code list" where
  "push X r rest MBB = BuildMI rest (MI (PUSH64r X) [R r]) MBB"

definition pop :: "x86 \<Rightarrow> reg \<Rightarrow> nat \<Rightarrow> code list \<Rightarrow> code list" where
  "pop X r rest MBB = BuildMI rest (MI (POP64r X) [R r]) MBB"

definition PROT_READ :: int where "PROT_READ = 1"
definition PROT_WRITE :: int where "PROT_WRITE = 2"

definition callMprotect :: "x86 \<Rightarrow> int \<Rightarrow> int \<Rightarrow> int \<Rightarrow> nat \<Rightarrow> code list \<Rightarrow> code list" where
  "callMprotect X FBegin FSize ProtLevel rest MBB =
     (let MBB = BuildMI rest (MI (Movabsq X) [R (RDI X), I FBegin]) MBB;
          MBB = BuildMI rest (MI (Movabsq X) [R (RSI X), I FSize]) MBB;
          MBB = BuildMI rest (MI (Movabsq X) [R (RDX X), I ProtLevel]) MBB
      in BuildMI rest (MI (Callq X) [Sym ''mprotect'']) MBB)"

definition protectRTFrame :: "x86 \<Rightarrow> int \<Rightarrow> int \<Rightarrow> code list \<Rightarrow> code list" where
  "protectRTFrame X FBegin FSize MBB =
     (let InsertPt = length MBB;
          MBB = push X (RDI X) InsertPt MBB;
          MBB = push X (RSI X) InsertPt MBB;
          MBB = push X (RDX X) InsertPt MBB;
          MBB = push X (RCX X) InsertPt MBB;
          MBB = push X (R8 X) InsertPt MBB;
          MBB = push X (R9 X) InsertPt MBB;
          MBB = callMprotect X FBegin FSize PROT_READ InsertPt MBB;
          MBB = pop X (R9 X) InsertPt MBB;
          MBB = pop X (R8 X) InsertPt MBB;
          MBB = pop X (RCX X) InsertPt MBB;
          MBB = pop X (RDX X) InsertPt MBB;
          MBB = pop X (RSI X) InsertPt MBB
      in pop X (RDI X) InsertPt MBB)"

definition unprotectRTFrame :: "x86 \<Rightarrow> int \<Rightarrow> int \<Rightarrow> code list \<Rightarrow> code list" where
  "unprotectRTFrame X FBegin FSize MBB =
     callMprotect X FBegin FSize (PROT_READ OR PROT_WRITE) 0 MBB"

definition instrumentToReturn :: "x86 \<Rightarrow> int \<Rightarrow> code list \<Rightarrow> code list" where
  "instrumentToReturn X JmpbufAddr MBB =
     MBB @ [MI (Movabsq X) [R (RDI X), I JmpbufAddr], MI (Movabsq X) [R (ESI X), I 42],
            MI (Callq X) [Sym ''siglongjmp'']]"

definition instrumentToReturnNormally :: "x86 \<Rightarrow> code list \<Rightarrow> code list" where
  "instrumentToReturnNormally X MBB = MBB @ [MI (Retq X) []]"

definition dumpRegisters ::
  "(reg \<Rightarrow> reg_class) \<Rightarrow> x86 \<Rightarrow> nat \<Rightarrow> reg list \<Rightarrow> string \<Rightarrow> code list \<Rightarrow> instrumenter \<Rightarrow>
    (code list \<times> instrumenter) option" where
  "dumpRegisters TRI X M OutputRegs BufferName MBB Is =
     (if FreeReg X = 0 then None
      else do {
        Is \<leftarrow> (if RegData Is M = None then calculateRegBufferLayout TRI M OutputRegs BufferName Is
               else Some Is);
        G \<leftarrow> RegData Is M;
        let LoadAddr = GlobalPICAddr (FreeReg X) (buffer_name G);
        Some (MBB @ LoadAddr #
          map (\<lambda>i. StoreReg (Regs Is ! i) (FreeReg X) (fst (RegInfo Is ! i))) [0..<length (Regs Is)], Is)
      })"

text \<open>The types of results that matter for the registers returned in.\<close>

datatype ret_type = IntTy nat | PointerTy | VoidTy | OtherTy

definition getReturnRegs :: "x86 \<Rightarrow> ret_type \<Rightarrow> reg list option" where
  "getReturnRegs X RetType =
     (case RetType of
        IntTy n \<Rightarrow> Some (if n = 64 then [RAX X] else if n = 32 then [EAX X] else [AL X])
      | PointerTy \<Rightarrow> Some [RAX X]
      | VoidTy \<Rightarrow> Some []
      | OtherTy \<Rightarrow> None)"

text \<open>\<open>ReplayClient\<close>'s instrumentation of the one block of a rewrite.\<close>

definition instrument ::
  "(reg \<Rightarrow> reg_class) \<Rightarrow> x86 \<Rightarrow> worker list \<Rightarrow> int \<Rightarrow> nat \<Rightarrow> ret_type \<Rightarrow> code list \<Rightarrow> instrumenter \<Rightarrow>
    (code list \<times> instrumenter) option" where
  "instrument TRI X Workers JmpbufAddr M RetType MBB Is =
     (case Workers of
        [] \<Rightarrow> None
      | W # _ \<Rightarrow>
          let FB = sint (FrameBegin W); FS = sint (FrameSize W) in
          do {
            RetRegs \<leftarrow> getReturnRegs X RetType;
            let MBB = protectRTFrame X FB FS MBB;
            (MBB, Is) \<leftarrow> dumpRegisters TRI X M RetRegs ''_ug_rewrite_reg_data'' MBB Is;
            let MBB = unprotectRTFrame X FB FS MBB;
            Some (instrumentToReturn X JmpbufAddr MBB, Is)
          })"

subsection \<open>The tables\<close>

lemma initRegisters_name:
  assumes "initRegisters names nm = Some i"
  shows "i < length names \<and> names ! i = nm"
proof -
  have "fold (\<lambda>i m. m(names ! i \<mapsto> i)) is m nm = Some i \<Longrightarrow>
      m nm = Some i \<or> i \<in> set is \<and> names ! i = nm" for "is" m
    by (induction "is" arbitrary: m) (fastforce split: if_splits)+
  from this [of "[0..<length names]" Map.empty] assms show ?thesis by (auto simp: initRegisters_def)
qed

lemma getRegister_name: "getRegister names nm = Some i \<Longrightarrow> names ! i = nm"
  using initRegisters_name by (simp add: getRegister_def)

lemma getOpcode_name: "getOpcode names nm = Some i \<Longrightarrow> names ! i = nm"
  by (auto simp: getOpcode_def find_Some_iff)

text \<open>Different names, different numbers.\<close>

definition x86_ok :: "x86 \<Rightarrow> bool" where
  "x86_ok X \<longleftrightarrow>
     distinct [FreeReg X, RDI X, ESI X, EAX X, RAX X, AL X, RSI X, RDX X, RCX X, R8 X, R9 X] \<and>
     distinct [Callq X, Movabsq X, Retq X, PUSH64r X, POP64r X]"

lemma getRegister_neq:
  "getRegister ns a = Some i \<Longrightarrow> getRegister ns b = Some j \<Longrightarrow> a \<noteq> b \<Longrightarrow> i \<noteq> j"
  using getRegister_name by metis

lemma getOpcode_neq:
  "getOpcode ns a = Some i \<Longrightarrow> getOpcode ns b = Some j \<Longrightarrow> a \<noteq> b \<Longrightarrow> i \<noteq> j"
  using getOpcode_name by metis

lemma instrumenter_ok:
  assumes "X86_64Instrumenter opcodes registers = Some X"
  shows "x86_ok X"
proof -
  have reg: "getRegister registers ''R11'' = Some (FreeReg X)"
    "getRegister registers ''RDI'' = Some (RDI X)" "getRegister registers ''ESI'' = Some (ESI X)"
    "getRegister registers ''EAX'' = Some (EAX X)" "getRegister registers ''RAX'' = Some (RAX X)"
    "getRegister registers ''AL'' = Some (AL X)" "getRegister registers ''RSI'' = Some (RSI X)"
    "getRegister registers ''RDX'' = Some (RDX X)" "getRegister registers ''RCX'' = Some (RCX X)"
    "getRegister registers ''R8'' = Some (R8 X)" "getRegister registers ''R9'' = Some (R9 X)"
    and opc: "getOpcode opcodes ''CALL64pcrel32'' = Some (Callq X)"
    "getOpcode opcodes ''MOV64ri'' = Some (Movabsq X)" "getOpcode opcodes ''RETQ'' = Some (Retq X)"
    "getOpcode opcodes ''PUSH64r'' = Some (PUSH64r X)" "getOpcode opcodes ''POP64r'' = Some (POP64r X)"
    using assms by (auto simp: X86_64Instrumenter_def bind_Some_iff)
  note r = reg [THEN getRegister_name] and o' = opc [THEN getOpcode_name]
  have "distinct (map ((!) registers) [FreeReg X, RDI X, ESI X, EAX X, RAX X, AL X, RSI X, RDX X,
      RCX X, R8 X, R9 X])"
    by (simp add: r)
  moreover have "distinct (map ((!) opcodes) [Callq X, Movabsq X, Retq X, PUSH64r X, POP64r X])"
    by (simp add: o')
  ultimately show ?thesis unfolding x86_ok_def by (simp only: distinct_map)
qed

subsection \<open>The layout of the register buffer\<close>

lemma align_bounds:
  assumes "Alignment \<noteq> 0" "unat Addr + unat Alignment \<le> 2 ^ 32"
  shows "\<exists>a. align Addr Alignment = Some a \<and> unat Alignment dvd unat a \<and>
    unat Addr \<le> unat a \<and> unat a < unat Addr + unat Alignment"
proof -
  define n where "n = unat Alignment"
  have n: "0 < n" using assms(1) by (simp add: n_def unat_gt_0)
  define q where "q = (unat Addr + n - 1) div n"
  have "Addr + Alignment - 1 = of_nat (unat Addr + n - 1)"
    using n by (simp add: n_def of_nat_diff)
  moreover have "unat Addr + n - 1 < 2 ^ 32" using assms(2) n unfolding n_def by linarith
  ultimately have u: "unat (Addr + Alignment - 1) = unat Addr + n - 1"
    by (simp add: unsigned_of_nat take_bit_nat_eq_self)
  have le: "q * n \<le> unat Addr + n - 1" unfolding q_def by simp
  have gt: "unat Addr + n - 1 < q * n + n"
    using div_mult_mod_eq [of "unat Addr + n - 1" n] mod_less_divisor [OF n, of "unat Addr + n - 1"]
    unfolding q_def by linarith
  define a where "a = (Addr + Alignment - 1) div Alignment * Alignment"
  have "unat ((Addr + Alignment - 1) div Alignment) = q"
    by (simp add: unat_div u q_def n_def)
  moreover have "q * n < 2 ^ 32" using le \<open>unat Addr + n - 1 < 2 ^ 32\<close> by linarith
  ultimately have ua: "unat a = q * n"
    by (simp add: a_def unat_word_ariths n_def)
  then have "a mod Alignment = 0" by (simp add: n_def unat_mod flip: unat_eq_zero)
  then have "align Addr Alignment = Some a" using assms(1) by (simp add: align_def a_def)
  moreover have "unat Addr \<le> q * n" "q * n < unat Addr + n" using le gt n by linarith+
  ultimately show ?thesis using ua unfolding n_def by (intro exI [of _ a]) simp
qed

text \<open>The space that placing the registers takes at most.\<close>

definition space_for :: "(reg \<Rightarrow> reg_class) \<Rightarrow> reg list \<Rightarrow> nat" where
  "space_for TRI rs = sum_list (map (\<lambda>r. unat (rc_align (TRI r)) + unat (rc_size (TRI r))) rs)"

text \<open>
  Aligned, disjoint and ascending regions from \<open>c\<close> on, up to \<open>e\<close>, and the table that
  describes them.
\<close>

fun placed :: "(reg \<Rightarrow> reg_class) \<Rightarrow> reg list \<Rightarrow> nat \<Rightarrow> (u32 \<times> u32) list \<Rightarrow> reg_info list \<Rightarrow> nat \<Rightarrow> bool" where
  "placed TRI [] c [] [] e \<longleftrightarrow> c = e"
| "placed TRI (r # rs) c ((off, n) # info) (t # table) e \<longleftrightarrow>
     c \<le> unat off \<and> unat (rc_align (TRI r)) dvd unat off \<and> n = rc_size (TRI r) \<and>
     t = \<lparr>offset = ucast off, rsize = ucast n, regclass = rc_id (TRI r)\<rparr> \<and>
     placed TRI rs (unat off + unat n) info table e"
| "placed TRI rs c info table e \<longleftrightarrow> False"

lemma place_regs_placed:
  assumes "list_all (\<lambda>r. rc_align (TRI r) \<noteq> 0) rs" "unat c + space_for TRI rs < 2 ^ 32"
  shows "\<exists>info table e. place_regs TRI rs c = Some (info, table, e) \<and>
    placed TRI rs (unat c) info table (unat e)"
  using assms
proof (induction rs arbitrary: c)
  case (Cons r rs)
  let ?a = "rc_align (TRI r)" and ?n = "rc_size (TRI r)"
  have sp: "unat c + unat ?a + unat ?n + space_for TRI rs < 2 ^ 32"
    using Cons.prems(2) by (simp add: space_for_def)
  then have "unat c + unat ?a \<le> 2 ^ 32" by linarith
  then obtain off where off: "align c ?a = Some off" "unat ?a dvd unat off" "unat c \<le> unat off"
    "unat off < unat c + unat ?a"
    using align_bounds [of ?a c] Cons.prems(1) by auto
  have "unat off + unat ?n < 2 ^ 32" using off(4) sp by linarith
  then have u: "unat (off + ?n) = unat off + unat ?n" by (simp add: unat_word_ariths)
  have "unat (off + ?n) + space_for TRI rs < 2 ^ 32" using off(4) sp u by linarith
  then obtain info table e where "place_regs TRI rs (off + ?n) = Some (info, table, e)"
    "placed TRI rs (unat off + unat ?n) info table (unat e)"
    using Cons.IH [of "off + ?n"] Cons.prems(1) u by auto
  then show ?case using off by (simp add: Let_def)
qed simp

lemma placed_bounds:
  "placed TRI rs c info table e \<Longrightarrow>
    c \<le> e \<and> length info = length rs \<and> length table = length rs \<and>
    (\<forall>p \<in> set info. c \<le> unat (fst p) \<and> unat (fst p) + unat (snd p) \<le> e)"
  by (induction TRI rs c info table e rule: placed.induct) fastforce+

lemma placed_sorted:
  "placed TRI rs c info table e \<Longrightarrow>
    sorted_wrt (\<lambda>p q. unat (fst p) + unat (snd p) \<le> unat (fst q)) info"
  by (induction TRI rs c info table e rule: placed.induct) (auto dest: placed_bounds)

lemma placed_nth:
  "placed TRI rs c info table e \<Longrightarrow> i < length rs \<Longrightarrow>
    snd (info ! i) = rc_size (TRI (rs ! i)) \<and> unat (rc_align (TRI (rs ! i))) dvd unat (fst (info ! i)) \<and>
    table ! i = \<lparr>offset = ucast (fst (info ! i)), rsize = ucast (snd (info ! i)),
      regclass = rc_id (TRI (rs ! i))\<rparr>"
proof (induction TRI rs c info table e arbitrary: i rule: placed.induct)
  case (2 TRI r rs c off n info t table e)
  then show ?case by (cases i) auto
qed auto

lemma placed_last:
  "placed TRI rs c info table e \<Longrightarrow> table \<noteq> [] \<Longrightarrow>
    unat (fst (last info)) + unat (snd (last info)) = e \<and>
    last table = \<lparr>offset = ucast (fst (last info)), rsize = ucast (snd (last info)),
      regclass = rc_id (TRI (last rs))\<rparr>"
proof (induction TRI rs c info table e rule: placed.induct)
  case (2 TRI r rs c off n info t table e)
  then show ?case
  proof (cases "table = []")
    case True
    have "length info = length rs \<and> length table = length rs"
      using "2.prems"(1) placed_bounds by (simp only: placed.simps) blast
    with True have "rs = []" "info = []" by auto
    with True "2.prems"(1) show ?thesis by auto
  next
    case False
    have "length info = length rs \<and> length table = length rs"
      using "2.prems"(1) placed_bounds by (simp only: placed.simps) blast
    with False have "info \<noteq> []" "rs \<noteq> []" by auto
    with False "2" show ?thesis by auto
  qed
qed auto

lemma unat_ucast_up: "unat (ucast (x :: u32) :: u64) = unat x"
proof -
  have "unat x < 2 ^ 64" using unat_less_exp [of x] by simp
  then show ?thesis by (simp only: unsigned_ucast_eq take_bit_nat_eq_self_iff) simp
qed

text \<open>The table fits the comparison of registers in the server.\<close>

lemma placed_table:
  assumes "placed TRI rs 0 info table (unat e)"
    "\<forall>r. rc_size (TRI r) \<le> 64" "\<forall>r q. rc_id (TRI r) = rc_id (TRI q) \<longrightarrow> rc_size (TRI r) = rc_size (TRI q)"
  shows "layout_ok table" "regs_in_buffer table (ucast (e :: u32))" "reg_buffer_size table = ucast e"
proof -
  have len: "length info = length rs" "length table = length rs" using placed_bounds [OF assms(1)] by auto
  have nth: "table ! i = \<lparr>offset = ucast (fst (info ! i)), rsize = ucast (rc_size (TRI (rs ! i))),
      regclass = rc_id (TRI (rs ! i))\<rparr>" "snd (info ! i) = rc_size (TRI (rs ! i))"
    if "i < length rs" for i
    using placed_nth [OF assms(1) that] by simp_all
  have small: "(ucast (rc_size (TRI r)) :: u64) \<le> 64" for r
    using assms(2) by (simp add: word_le_nat_alt unat_ucast_up)
  show "layout_ok table"
    unfolding layout_ok_def all_set_conv_all_nth len
  proof (intro conjI allI impI)
    fix i j
    assume ij: "i < length rs" "j < length rs" and "regclass (table ! i) = regclass (table ! j)"
    then have "rc_id (TRI (rs ! i)) = rc_id (TRI (rs ! j))" by (simp add: nth(1))
    then have "rc_size (TRI (rs ! i)) = rc_size (TRI (rs ! j))" using assms(3) by blast
    then show "rsize (table ! i) = rsize (table ! j)" using ij by (simp add: nth(1))
  qed (simp add: nth(1) small)
  have "unat (offset (table ! i)) + unat (rsize (table ! i)) \<le> unat e" if "i < length rs" for i
  proof -
    have "info ! i \<in> set info" using that len by simp
    then have "unat (fst (info ! i)) + unat (snd (info ! i)) \<le> unat e"
      using placed_bounds [OF assms(1)] by blast
    then show ?thesis by (simp add: nth [OF that] unat_ucast_up)
  qed
  then show "regs_in_buffer table (ucast e)"
    unfolding regs_in_buffer_def all_set_conv_all_nth len by (simp add: unat_ucast_up)
  show "reg_buffer_size table = ucast e"
  proof (cases "table = []")
    case True
    with len have "rs = []" "info = []" by auto
    with True assms(1) have "unat e = 0" by simp
    then show ?thesis by (simp add: reg_buffer_size_def True unat_eq_zero)
  next
    case False
    have "unat (fst (last info)) + unat (snd (last info)) = unat e"
      and t: "last table = \<lparr>offset = ucast (fst (last info)), rsize = ucast (snd (last info)),
        regclass = rc_id (TRI (last rs))\<rparr>"
      using placed_last [OF assms(1) False] by auto
    then have "unat (ucast (fst (last info)) + ucast (snd (last info)) :: u64) = unat (ucast e :: u64)"
      using unat_less_exp [of e] by (simp add: unat_word_ariths unat_ucast_up)
    then show ?thesis
      using False t by (simp add: reg_buffer_size_def last_conv_nth [OF False] unsigned_word_eqI)
  qed
qed

subsection \<open>Running instrumented code\<close>

text \<open>
  A machine for the inserted code: the 64-bit registers (\<open>full\<close>), the stack (top first), the memory
  of the buffers byte by byte, and the calls made, each with the registers at the call. A call
  leaves arbitrary registers (\<open>clobber\<close>); \<open>body\<close> is what an instruction of the rewrite does, and
  \<open>glob\<close> gives the address of a global.

  The target's registers are parts of the 64-bit ones: \<open>R11\<close>, \<open>R11D\<close> and \<open>R11B\<close> have the same
  \<open>full_reg\<close>, as have \<open>RAX\<close>, \<open>EAX\<close> and \<open>AL\<close>, and are its low \<open>reg_bytes\<close> bytes (the size of their
  smallest class). A \<open>high_byte\<close> is \<open>AH\<close>, \<open>BH\<close>, \<open>CH\<close> or \<open>DH\<close>.
\<close>

record machine =
  full :: "reg \<Rightarrow> u64"
  stack :: "u64 list"
  ram :: bytes
  calls :: "(string \<times> (reg \<Rightarrow> u64)) list"

record execution =
  glob :: "string \<Rightarrow> u64"
  clobber :: "string \<Rightarrow> (reg \<Rightarrow> u64) \<Rightarrow> reg \<Rightarrow> u64"
  body :: "minstr \<Rightarrow> machine \<Rightarrow> machine option"
  full_reg :: "reg \<Rightarrow> reg"
  high_byte :: "reg \<Rightarrow> bool"
  reg_bytes :: "reg \<Rightarrow> nat"

text \<open>Byte \<open>k\<close> of a register that is no high byte, and storing such a register at an address.\<close>

definition reg_byte :: "execution \<Rightarrow> (reg \<Rightarrow> u64) \<Rightarrow> reg \<Rightarrow> nat \<Rightarrow> u8" where
  "reg_byte E g r k = ucast (drop_bit (8 * k) (g (full_reg E r)))"

definition put_reg :: "execution \<Rightarrow> (reg \<Rightarrow> u64) \<Rightarrow> reg \<Rightarrow> u64 \<Rightarrow> bytes \<Rightarrow> bytes" where
  "put_reg E g r a M = (\<lambda>x. if unat (x - a) < reg_bytes E r then reg_byte E g r (unat (x - a)) else M x)"

text \<open>
  Pushes, pops and moves of 64 bits act on the full register whatever its name is:
  \<open>MOV64ri\<close> of \<open>ESI\<close> is encoded as one of \<open>RSI\<close>. \<open>None\<close> is code that is stuck.
\<close>

definition exec_MI :: "execution \<Rightarrow> x86 \<Rightarrow> nat \<Rightarrow> mop list \<Rightarrow> machine \<Rightarrow> machine option" where
  "exec_MI E X opc ops m =
     (if opc = PUSH64r X then
        (case ops of [R r] \<Rightarrow> Some (m\<lparr>stack := full m (full_reg E r) # stack m\<rparr>) | _ \<Rightarrow> None)
      else if opc = POP64r X then
        (case (ops, stack m) of
          ([R r], v # st) \<Rightarrow> Some (m\<lparr>full := (full m)(full_reg E r := v), stack := st\<rparr>) | _ \<Rightarrow> None)
      else if opc = Movabsq X then
        (case ops of [R r, I i] \<Rightarrow> Some (m\<lparr>full := (full m)(full_reg E r := of_int i)\<rparr>) | _ \<Rightarrow> None)
      else if opc = Callq X then
        (case ops of
          [Sym f] \<Rightarrow> Some (m\<lparr>full := clobber E f (full m), calls := calls m @ [(f, full m)]\<rparr>)
        | _ \<Rightarrow> None)
      else None)"

text \<open>
  A store at an offset from \<open>R11\<close> needs a prefix with which no high byte can be encoded, so
  storing one is stuck.
\<close>

fun exec_code :: "execution \<Rightarrow> x86 \<Rightarrow> code list \<Rightarrow> machine \<Rightarrow> machine option" where
  "exec_code E X [] m = Some m"
| "exec_code E X (MI opc ops # cs) m = do { m \<leftarrow> exec_MI E X opc ops m; exec_code E X cs m }"
| "exec_code E X (GlobalPICAddr r g # cs) m =
     exec_code E X cs (m\<lparr>full := (full m)(full_reg E r := glob E g)\<rparr>)"
| "exec_code E X (StoreReg r b off # cs) m =
     (if high_byte E r then None
      else exec_code E X cs (m\<lparr>ram := put_reg E (full m) r (full m (full_reg E b) + ucast off) (ram m)\<rparr>))"
| "exec_code E X (Rewrite i # cs) m = do { m \<leftarrow> body E i m; exec_code E X cs m }"

text \<open>The registers that pass arguments are different, and \<open>ESI\<close> is a part of \<open>RSI\<close>.\<close>

definition argument_regs :: "x86 \<Rightarrow> reg list" where
  "argument_regs X = [RDI X, RSI X, RDX X, RCX X, R8 X, R9 X]"

definition x86_machine :: "execution \<Rightarrow> x86 \<Rightarrow> bool" where
  "x86_machine E X \<longleftrightarrow> distinct (map (full_reg E) (argument_regs X)) \<and> full_reg E (ESI X) = full_reg E (RSI X)"

text \<open>Registers that can be stored: general registers of the sizes of their classes, no high bytes.\<close>

definition storable :: "execution \<Rightarrow> (reg \<Rightarrow> reg_class) \<Rightarrow> reg list \<Rightarrow> bool" where
  "storable E TRI rs \<longleftrightarrow> (\<forall>r \<in> set rs. \<not> high_byte E r \<and> reg_bytes E r = unat (rc_size (TRI r)) \<and> reg_bytes E r \<le> 8)"

lemma exec_code_append:
  "exec_code E X (cs @ ds) m = do { m \<leftarrow> exec_code E X cs m; exec_code E X ds m }"
  by (induction E X cs m rule: exec_code.induct) (auto split: bind_splits)

lemma opcodes_neq:
  assumes "x86_ok X"
  shows "PUSH64r X \<noteq> POP64r X" "POP64r X \<noteq> PUSH64r X" "Movabsq X \<noteq> PUSH64r X" "Movabsq X \<noteq> POP64r X"
    "Callq X \<noteq> PUSH64r X" "Callq X \<noteq> POP64r X" "Callq X \<noteq> Movabsq X" "PUSH64r X \<noteq> Movabsq X"
    "PUSH64r X \<noteq> Callq X" "POP64r X \<noteq> Movabsq X" "POP64r X \<noteq> Callq X"
  using assms unfolding x86_ok_def by auto

lemma exec_ops:
  assumes "x86_ok X"
  shows "exec_MI E X (PUSH64r X) [R r] m = Some (m\<lparr>stack := full m (full_reg E r) # stack m\<rparr>)"
    "exec_MI E X (Movabsq X) [R r, I i] m = Some (m\<lparr>full := (full m)(full_reg E r := of_int i)\<rparr>)"
    "exec_MI E X (Callq X) [Sym f] m =
      Some (m\<lparr>full := clobber E f (full m), calls := calls m @ [(f, full m)]\<rparr>)"
    "stack m = v # st \<Longrightarrow>
      exec_MI E X (POP64r X) [R r] m = Some (m\<lparr>full := (full m)(full_reg E r := v), stack := st\<rparr>)"
  using opcodes_neq [OF assms] by (simp_all add: exec_MI_def)

lemma BuildMI_at_begin: "rest = length MBB \<Longrightarrow> BuildMI rest i (pre @ MBB) = (pre @ [i]) @ MBB"
  by (simp add: BuildMI_def)

lemma BuildMI_at_end: "BuildMI 0 i MBB = MBB @ [i]"
  by (simp add: BuildMI_def)

lemma protectRTFrame_code:
  "protectRTFrame X fb fs MBB =
    map (\<lambda>r. MI (PUSH64r X) [R r]) [RDI X, RSI X, RDX X, RCX X, R8 X, R9 X] @
    [MI (Movabsq X) [R (RDI X), I fb], MI (Movabsq X) [R (RSI X), I fs],
     MI (Movabsq X) [R (RDX X), I PROT_READ], MI (Callq X) [Sym ''mprotect'']] @
    map (\<lambda>r. MI (POP64r X) [R r]) [R9 X, R8 X, RCX X, RDX X, RSI X, RDI X] @ MBB"
proof -
  note at_begin = BuildMI_at_begin [OF refl]
  have "protectRTFrame X fb fs MBB = protectRTFrame X fb fs ([] @ MBB)" by simp
  also have "length ([] @ MBB) = length MBB" by simp
  then have "protectRTFrame X fb fs ([] @ MBB) = (((((((((((((((([] @ [MI (PUSH64r X) [R (RDI X)]]) @
      [MI (PUSH64r X) [R (RSI X)]]) @ [MI (PUSH64r X) [R (RDX X)]]) @ [MI (PUSH64r X) [R (RCX X)]]) @
      [MI (PUSH64r X) [R (R8 X)]]) @ [MI (PUSH64r X) [R (R9 X)]]) @
      [MI (Movabsq X) [R (RDI X), I fb]]) @ [MI (Movabsq X) [R (RSI X), I fs]]) @
      [MI (Movabsq X) [R (RDX X), I PROT_READ]]) @ [MI (Callq X) [Sym ''mprotect'']]) @
      [MI (POP64r X) [R (R9 X)]]) @ [MI (POP64r X) [R (R8 X)]]) @ [MI (POP64r X) [R (RCX X)]]) @
      [MI (POP64r X) [R (RDX X)]]) @ [MI (POP64r X) [R (RSI X)]]) @ [MI (POP64r X) [R (RDI X)]]) @ MBB"
    by (simp only: protectRTFrame_def push_def pop_def callMprotect_def Let_def at_begin)
  finally show ?thesis by simp
qed

lemma unprotectRTFrame_code:
  "unprotectRTFrame X fb fs MBB = MBB @
    [MI (Movabsq X) [R (RDI X), I fb], MI (Movabsq X) [R (RSI X), I fs],
     MI (Movabsq X) [R (RDX X), I 3], MI (Callq X) [Sym ''mprotect'']]"
  by (simp add: unprotectRTFrame_def callMprotect_def Let_def BuildMI_at_end PROT_READ_def PROT_WRITE_def)

text \<open>The arguments of a system call, as the System V calling convention passes them.\<close>

definition args3 :: "execution \<Rightarrow> x86 \<Rightarrow> (reg \<Rightarrow> u64) \<Rightarrow> u64 \<times> u64 \<times> u64" where
  "args3 E X g = (g (full_reg E (RDI X)), g (full_reg E (RSI X)), g (full_reg E (RDX X)))"

lemma exec_protect:
  assumes "x86_ok X" "x86_machine E X"
  shows "\<exists>m' g. exec_code E X (protectRTFrame X fb fs MBB) m = exec_code E X MBB m' \<and>
    (\<forall>r \<in> set (argument_regs X). full m' (full_reg E r) = full m (full_reg E r)) \<and>
    stack m' = stack m \<and> ram m' = ram m \<and> calls m' = calls m @ [(''mprotect'', g)] \<and>
    args3 E X g = (of_int fb, of_int fs, 1)"
proof -
  let ?f = "full_reg E"
  define g where "g = (full m)(?f (RDI X) := of_int fb, ?f (RSI X) := of_int fs, ?f (RDX X) := of_int PROT_READ)"
  define m' where "m' = m\<lparr>calls := calls m @ [(''mprotect'', g)],
    full := (clobber E ''mprotect'' g)(?f (R9 X) := full m (?f (R9 X)), ?f (R8 X) := full m (?f (R8 X)),
      ?f (RCX X) := full m (?f (RCX X)), ?f (RDX X) := full m (?f (RDX X)), ?f (RSI X) := full m (?f (RSI X)),
      ?f (RDI X) := full m (?f (RDI X)))\<rparr>"
  have "exec_code E X (protectRTFrame X fb fs MBB) m = exec_code E X MBB m'"
    unfolding protectRTFrame_code
    by (simp add: exec_ops [OF assms(1)] g_def m'_def)
  then show ?thesis
    using assms(2) by (intro exI [of _ m'] exI [of _ g])
      (auto simp: m'_def g_def args3_def x86_machine_def argument_regs_def PROT_READ_def)
qed

lemma exec_unprotect:
  assumes "x86_ok X" "x86_machine E X"
  shows "\<exists>m' g. exec_code E X (unprotectRTFrame X fb fs MBB) m =
      do { m1 \<leftarrow> exec_code E X MBB m; Some (m' m1) } \<and>
    (\<forall>m1. ram (m' m1) = ram m1 \<and> calls (m' m1) = calls m1 @ [(''mprotect'', g m1)] \<and>
      args3 E X (g m1) = (of_int fb, of_int fs, 3))"
proof -
  let ?f = "full_reg E"
  define g where "g m1 = (full m1)(?f (RDI X) := of_int fb, ?f (RSI X) := of_int fs, ?f (RDX X) := 3)" for m1 :: machine
  define m' where "m' m1 = m1\<lparr>full := clobber E ''mprotect'' (g m1), calls := calls m1 @ [(''mprotect'', g m1)]\<rparr>"
    for m1
  have "exec_code E X (unprotectRTFrame X fb fs MBB) m =
      do { m1 \<leftarrow> exec_code E X MBB m; Some (m' m1) }"
    unfolding unprotectRTFrame_code
    by (simp add: exec_code_append exec_ops [OF assms(1)] g_def m'_def)
  then show ?thesis
    using assms(2) by (intro exI [of _ m'] exI [of _ g]) (auto simp: m'_def g_def args3_def x86_machine_def argument_regs_def)
qed

text \<open>Storing registers in disjoint regions of a buffer.\<close>

definition reg_stores :: "x86 \<Rightarrow> reg list \<Rightarrow> u32 list \<Rightarrow> code list" where
  "reg_stores X rs offs = map (\<lambda>(r, off). StoreReg r (FreeReg X) off) (zip rs offs)"

definition put_regs :: "execution \<Rightarrow> (reg \<Rightarrow> u64) \<Rightarrow> u64 \<Rightarrow> (reg \<times> u32) list \<Rightarrow> bytes \<Rightarrow> bytes" where
  "put_regs E g a ps M = fold (\<lambda>(r, off). put_reg E g r (a + ucast off)) ps M"

lemma exec_stores:
  assumes "\<forall>(r, off) \<in> set ps. \<not> high_byte E r"
  shows "exec_code E X (map (\<lambda>(r, off). StoreReg r b off) ps) m =
    Some (m\<lparr>ram := put_regs E (full m) (full m (full_reg E b)) ps (ram m)\<rparr>)"
  using assms by (induction ps arbitrary: m) (auto simp: put_regs_def)

lemma region_index:
  assumes "d < 2 ^ 32" "n \<le> 2 ^ 32"
  shows "unat (a + of_nat d - (a + ucast (off :: u32)) :: u64) < n \<longleftrightarrow> unat off \<le> d \<and> d < unat off + n"
    "unat off \<le> d \<Longrightarrow> unat (a + of_nat d - (a + ucast off) :: u64) = d - unat off"
proof -
  have o: "unat off < 2 ^ 32" using unat_less_exp [of off] by simp
  have e: "a + of_nat d - (a + ucast off) = of_nat d - (ucast off :: u64)" by simp
  have ud: "unat (of_nat d :: u64) = d" using assms(1) by (simp add: unsigned_of_nat take_bit_nat_eq_self)
  have uo: "unat (ucast off :: u64) = unat off" by (rule unat_ucast_up)
  show eq: "unat (a + of_nat d - (a + ucast off) :: u64) = d - unat off" if "unat off \<le> d"
    unfolding e using that ud uo by (simp add: unat_sub_if')
  have big: "n \<le> unat (a + of_nat d - (a + ucast off) :: u64)" if "\<not> unat off \<le> d"
    unfolding e using that ud uo o assms by (simp add: unat_sub_if')
  show "unat (a + of_nat d - (a + ucast (off :: u32)) :: u64) < n \<longleftrightarrow> unat off \<le> d \<and> d < unat off + n"
    using eq big by (cases "unat off \<le> d") auto
qed

lemma put_regs_bytes:
  assumes "sorted_wrt (\<lambda>p q. unat (snd p) + reg_bytes E (fst p) \<le> unat (snd q)) ps"
    "\<forall>p \<in> set ps. unat (snd p) + reg_bytes E (fst p) \<le> 2 ^ 32"
  shows "\<forall>(r, off) \<in> set ps. \<forall>k < reg_bytes E r.
    put_regs E g a ps M (a + ucast off + of_nat k) = reg_byte E g r k"
proof -
  have at: "a + ucast (off :: u32) + of_nat k = (a + of_nat (unat off + k) :: u64)" for off k by simp
  have other: "put_regs E g a ps M (a + of_nat d) = M (a + of_nat d)"
    if "d < 2 ^ 32" "\<forall>p \<in> set ps. d < unat (snd p)" "\<forall>p \<in> set ps. reg_bytes E (fst p) \<le> 2 ^ 32" for ps d M
    using that(2,3)
  proof (induction ps arbitrary: M)
    case (Cons p ps)
    have "put_reg E g (fst p) (a + ucast (snd p)) M (a + of_nat d) = M (a + of_nat d)"
      using region_index(1) [OF that(1), where n = "reg_bytes E (fst p)" and a = a and off = "snd p"] Cons.prems by (simp add: put_reg_def)
    then show ?case using Cons by (simp add: put_regs_def case_prod_beta)
  qed (simp add: put_regs_def)
  show ?thesis using assms
  proof (induction ps arbitrary: M)
    case (Cons p ps)
    obtain r off where p: "p = (r, off)" by (cases p)
    have "put_regs E g a (p # ps) M (a + ucast off + of_nat k) = reg_byte E g r k" if k: "k < reg_bytes E r" for k
    proof -
      let ?M = "put_reg E g r (a + ucast off) M"
      have d: "unat off + k < 2 ^ 32" "reg_bytes E r \<le> 2 ^ 32" using Cons.prems(2) k by (auto simp: p)
      have "put_regs E g a ps ?M (a + of_nat (unat off + k)) = ?M (a + of_nat (unat off + k))"
        using Cons.prems k by (intro other [OF d(1)]) (fastforce simp: p)+
      also have "\<dots> = reg_byte E g r k"
        using region_index [OF d, where a = a and off = off] k by (simp add: put_reg_def del: of_nat_add)
      finally show ?thesis unfolding at by (simp add: put_regs_def p)
    qed
    moreover have "\<forall>(r', k) \<in> set ps. \<forall>j < reg_bytes E r'. put_regs E g a (p # ps) M (a + ucast k + of_nat j) = reg_byte E g r' j"
      using Cons.IH [of "put_reg E g r (a + ucast off) M"] Cons.prems by (simp add: put_regs_def p)
    ultimately show ?case unfolding p by auto
  qed simp
qed

definition sane_classes :: "(reg \<Rightarrow> reg_class) \<Rightarrow> bool" where
  "sane_classes TRI \<longleftrightarrow>
     (\<forall>r. rc_align (TRI r) \<noteq> 0 \<and> 0 < rc_size (TRI r) \<and> rc_size (TRI r) \<le> 64) \<and>
     (\<forall>r q. rc_id (TRI r) = rc_id (TRI q) \<longrightarrow> rc_size (TRI r) = rc_size (TRI q))"

lemma sane_classesD:
  assumes "sane_classes TRI"
  shows "list_all (\<lambda>r. rc_align (TRI r) \<noteq> 0) rs" "0 < unat (rc_size (TRI r))" "rc_size (TRI r) \<le> 64"
    "\<forall>r. rc_size (TRI r) \<le> 64"
    "\<forall>r q. rc_id (TRI r) = rc_id (TRI q) \<longrightarrow> rc_size (TRI r) = rc_size (TRI q)"
proof -
  show "list_all (\<lambda>r. rc_align (TRI r) \<noteq> 0) rs"
    using assms unfolding sane_classes_def list_all_iff by blast
  have "0 < rc_size (TRI r)" using assms unfolding sane_classes_def by blast
  then show "0 < unat (rc_size (TRI r))" by (simp only: word_less_nat_alt unsigned_0)
qed (insert assms, unfold sane_classes_def, blast+)

lemma calculate_layout:
  assumes "sane_classes TRI" "space_for TRI (Out @ equivalent_regs TRI Out) < 2 ^ 32"
  obtains info table e where
    "calculateRegBufferLayout TRI M Out nm Is =
      Some \<lparr>Regs = Out @ equivalent_regs TRI Out, RegInfo = info, RegData = (RegData Is)(M \<mapsto>
        \<lparr>buffer_name = nm, buffer_size = e, ug_reg_info = table, ug_num_output_regs = length Out,
         ug_num_regs = length (Out @ equivalent_regs TRI Out)\<rparr>)\<rparr>"
    "placed TRI (Out @ equivalent_regs TRI Out) 0 info table (unat e)"
proof -
  define rs where "rs = Out @ equivalent_regs TRI Out"
  obtain info table e where "place_regs TRI rs 0 = Some (info, table, e)"
    "placed TRI rs 0 info table (unat e)"
    using place_regs_placed [OF sane_classesD(1) [OF assms(1), of rs], of 0] assms(2)
    by (auto simp: rs_def)
  then show thesis using that unfolding calculateRegBufferLayout_def rs_def by (simp add: Let_def)
qed

text \<open>
  An instrumenter that dumps in module \<open>M\<close> the output registers \<open>Out\<close> to the buffer \<open>nm\<close>, or has
  not dumped there.
\<close>

definition dumps_as :: "(reg \<Rightarrow> reg_class) \<Rightarrow> reg list \<Rightarrow> string \<Rightarrow> nat \<Rightarrow> instrumenter \<Rightarrow> bool" where
  "dumps_as TRI Out nm M Is \<longleftrightarrow> RegData Is M = None \<or>
     (\<exists>info table e G. place_regs TRI (Out @ equivalent_regs TRI Out) 0 = Some (info, table, e) \<and>
       Regs Is = Out @ equivalent_regs TRI Out \<and> RegInfo Is = info \<and> RegData Is M = Some G \<and>
       buffer_name G = nm \<and> ug_reg_info G = table \<and> ug_num_output_regs G = length Out)"

lemma dumps_asE:
  assumes "dumps_as TRI Out nm M Is" "RegData Is M \<noteq> None"
  obtains info table e G where "place_regs TRI (Out @ equivalent_regs TRI Out) 0 = Some (info, table, e)"
    "Regs Is = Out @ equivalent_regs TRI Out" "RegInfo Is = info" "RegData Is M = Some G" "buffer_name G = nm"
    "ug_reg_info G = table" "ug_num_output_regs G = length Out"
  using assms unfolding dumps_as_def by blast

lemma placed_layout:
  assumes "sane_classes TRI" "space_for TRI rs < 2 ^ 32" "place_regs TRI rs 0 = Some (info, table, e)"
  shows "placed TRI rs 0 info table (unat e)"
  using place_regs_placed [OF sane_classesD(1) [OF assms(1)], of 0 rs] assms(2,3) by auto

text \<open>
  What \<open>dumpRegisters\<close> appends: the load of the buffer's address and a store of every register at
  its offset.
\<close>

lemma dumpRegisters_code:
  assumes "dumpRegisters TRI X M Out nm MBB Is = Some (code, Is')" "dumps_as TRI Out nm M Is"
  shows "dumps_as TRI Out nm M Is'" "RegData Is' M \<noteq> None"
    "length (RegInfo Is') = length (Regs Is') \<Longrightarrow>
      code = MBB @ GlobalPICAddr (FreeReg X) nm # reg_stores X (Regs Is') (map fst (RegInfo Is'))"
proof -
  from assms(1) obtain G where
    st: "(if RegData Is M = None then calculateRegBufferLayout TRI M Out nm Is else Some Is) = Some Is'"
    and G: "RegData Is' M = Some G"
    and code: "code = MBB @ GlobalPICAddr (FreeReg X) (buffer_name G) #
      map (\<lambda>i. StoreReg (Regs Is' ! i) (FreeReg X) (fst (RegInfo Is' ! i))) [0..<length (Regs Is')]"
    by (auto simp: dumpRegisters_def bind_Some_iff split: if_splits)
  show d: "dumps_as TRI Out nm M Is'" "RegData Is' M \<noteq> None"
    using st assms(2) G
    by (auto simp: dumps_as_def calculateRegBufferLayout_def Let_def bind_Some_iff split: if_splits)
  then have nm: "buffer_name G = nm" using G by (auto elim: dumps_asE)
  show "code = MBB @ GlobalPICAddr (FreeReg X) nm # reg_stores X (Regs Is') (map fst (RegInfo Is'))"
    if len: "length (RegInfo Is') = length (Regs Is')"
  proof -
    have "map (\<lambda>i. StoreReg (Regs Is' ! i) (FreeReg X) (fst (RegInfo Is' ! i))) [0..<length (Regs Is')] =
        reg_stores X (Regs Is') (map fst (RegInfo Is'))"
      by (rule nth_equalityI) (simp_all add: reg_stores_def len)
    then show ?thesis by (simp add: code nm)
  qed
qed

lemma dumpRegisters_exec:
  assumes TRI: "sane_classes TRI" "space_for TRI (Out @ equivalent_regs TRI Out) < 2 ^ 32"
    and E: "storable E TRI (Out @ equivalent_regs TRI Out)"
    and Is: "dumps_as TRI Out nm M Is" and dump: "dumpRegisters TRI X M Out nm MBB Is = Some (code, Is')"
  shows "\<exists>m'. \<forall>m m1. exec_code E X MBB m = Some m1 \<longrightarrow> exec_code E X code m = Some (m' m1) \<and>
      stack (m' m1) = stack m1 \<and> calls (m' m1) = calls m1 \<and>
      (\<forall>i < length (Regs Is'). \<forall>k < reg_bytes E (Regs Is' ! i).
        ram (m' m1) (glob E nm + ucast (fst (RegInfo Is' ! i)) + of_nat k) =
        (if full_reg E (Regs Is' ! i) = full_reg E (FreeReg X) then ucast (drop_bit (8 * k) (glob E nm))
         else reg_byte E (full m1) (Regs Is' ! i) k))"
proof -
  let ?rs = "Out @ equivalent_regs TRI Out"
  obtain info table e G where L: "place_regs TRI ?rs 0 = Some (info, table, e)" "Regs Is' = ?rs" "RegInfo Is' = info"
    using dumps_asE [OF dumpRegisters_code(1,2) [OF dump Is]] by metis
  note pl = placed_layout [OF TRI L(1)]
  have len: "length info = length ?rs" using placed_bounds [OF pl] by simp
  define ps where "ps = zip ?rs (map fst info)"
  have nth: "ps ! i = (?rs ! i, fst (info ! i))" "reg_bytes E (?rs ! i) = unat (snd (info ! i))" "\<not> high_byte E (?rs ! i)"
    if "i < length ?rs" for i
  proof -
    have "?rs ! i \<in> set ?rs" using that by (rule nth_mem)
    then show "reg_bytes E (?rs ! i) = unat (snd (info ! i))" "\<not> high_byte E (?rs ! i)"
      using E placed_nth [OF pl that] unfolding storable_def by auto
    show "ps ! i = (?rs ! i, fst (info ! i))" using that len by (simp add: ps_def)
  qed
  have lps: "length ps = length ?rs" by (simp add: ps_def len)
  have low: "\<forall>(r, off) \<in> set ps. \<not> high_byte E r"
    using E by (auto simp: ps_def storable_def dest: set_zip_leftD)
  have so: "sorted_wrt (\<lambda>p q. unat (snd p) + reg_bytes E (fst p) \<le> unat (snd q)) ps"
    unfolding sorted_wrt_iff_nth_less lps
  proof (intro allI impI)
    fix i j assume ij: "i < j" "j < length ?rs"
    then have i: "i < length ?rs" by simp
    have "unat (fst (info ! i)) + unat (snd (info ! i)) \<le> unat (fst (info ! j))"
      using sorted_wrt_nth_less [OF placed_sorted [OF pl] ij(1)] ij(2) len by simp
    then show "unat (snd (ps ! i)) + reg_bytes E (fst (ps ! i)) \<le> unat (snd (ps ! j))"
      unfolding nth(1) [OF i] nth(1) [OF ij(2)] fst_conv snd_conv nth(2) [OF i] .
  qed
  have e32: "unat e \<le> 2 ^ 32" using unat_less_exp [of e] by simp
  have bi: "unat (fst (info ! i)) + unat (snd (info ! i)) \<le> 2 ^ 32" if "i < length ?rs" for i
  proof -
    have "info ! i \<in> set info" using that len by simp
    then show ?thesis using placed_bounds [OF pl] e32 by (meson le_trans)
  qed
  have bd: "\<forall>p \<in> set ps. unat (snd p) + reg_bytes E (fst p) \<le> 2 ^ 32"
    unfolding all_set_conv_all_nth lps
  proof (intro allI impI)
    fix i assume i: "i < length ?rs"
    show "unat (snd (ps ! i)) + reg_bytes E (fst (ps ! i)) \<le> 2 ^ 32"
      unfolding nth(1) [OF i] fst_conv snd_conv nth(2) [OF i] by (rule bi [OF i])
  qed
  have code: "code = MBB @ GlobalPICAddr (FreeReg X) nm # map (\<lambda>(r, off). StoreReg r (FreeReg X) off) ps"
    using dumpRegisters_code(3) [OF dump Is] L(2,3) len by (simp add: reg_stores_def ps_def)
  define a where "a = glob E nm"
  define g where "g m1 = (full m1)(full_reg E (FreeReg X) := a)" for m1 :: machine
  define m' where "m' m1 = m1\<lparr>full := g m1, ram := put_regs E (g m1) a ps (ram m1)\<rparr>" for m1
  have run: "exec_code E X code m = Some (m' m1)" if "exec_code E X MBB m = Some m1" for m m1
    unfolding code exec_code_append that by (simp add: exec_stores [OF low] m'_def g_def a_def)
  have val: "ram (m' m1) (a + ucast (fst (RegInfo Is' ! i)) + of_nat k) =
      (if full_reg E (Regs Is' ! i) = full_reg E (FreeReg X) then ucast (drop_bit (8 * k) a)
       else reg_byte E (full m1) (Regs Is' ! i) k)"
    if i: "i < length (Regs Is')" "k < reg_bytes E (Regs Is' ! i)" for i k m1
  proof -
    have "i < length ?rs" using i(1) by (simp only: L(2))
    then have "(?rs ! i, fst (info ! i)) \<in> set ps" using nth(1) lps by (metis nth_mem)
    from bspec [OF put_regs_bytes [OF so bd, of "g m1" a "ram m1"] this] have
      "ram (m' m1) (a + ucast (fst (info ! i)) + of_nat k) = reg_byte E (g m1) (?rs ! i) k"
      using i(2) by (simp add: m'_def L(2))
    then show ?thesis by (simp add: L(2,3) reg_byte_def g_def)
  qed
  show ?thesis
    by (intro exI [of _ m'] allI impI conjI) (use run val in \<open>simp_all add: a_def m'_def\<close>)
qed

text \<open>
  Property C25. The register buffer: for sane register classes the layout succeeds; output
  registers come first, each region is aligned, regions ascend without overlap up to the
  size of the buffer, and the declared table is one that the server's comparison accepts
  and that gives the server the same buffer size.
\<close>

theorem register_buffer_layout:
  assumes "sane_classes TRI" "space_for TRI (Out @ equivalent_regs TRI Out) < 2 ^ 32"
  shows "\<exists>Is' G. calculateRegBufferLayout TRI M Out nm Is = Some Is' \<and> RegData Is' M = Some G \<and>
    Regs Is' = Out @ equivalent_regs TRI Out \<and> ug_num_output_regs G = length Out \<and>
    length (ug_reg_info G) = length (Regs Is') \<and>
    (\<forall>i < length (Regs Is'). unat (rc_align (TRI (Regs Is' ! i))) dvd unat (fst (RegInfo Is' ! i)) \<and>
      unat (fst (RegInfo Is' ! i)) + unat (rc_size (TRI (Regs Is' ! i))) \<le> unat (buffer_size G)) \<and>
    sorted_wrt (\<lambda>p q. unat (fst p) + unat (snd p) \<le> unat (fst q)) (RegInfo Is') \<and>
    layout_ok (ug_reg_info G) \<and> regs_in_buffer (ug_reg_info G) (ucast (buffer_size G)) \<and>
    reg_buffer_size (ug_reg_info G) = ucast (buffer_size G)"
proof -
  obtain info table e where calc: "calculateRegBufferLayout TRI M Out nm Is =
      Some \<lparr>Regs = Out @ equivalent_regs TRI Out, RegInfo = info, RegData = (RegData Is)(M \<mapsto>
        \<lparr>buffer_name = nm, buffer_size = e, ug_reg_info = table, ug_num_output_regs = length Out,
         ug_num_regs = length (Out @ equivalent_regs TRI Out)\<rparr>)\<rparr>"
    and pl: "placed TRI (Out @ equivalent_regs TRI Out) 0 info table (unat e)"
    using calculate_layout [OF assms] by blast
  define rs where "rs = Out @ equivalent_regs TRI Out"
  note pl = pl [folded rs_def]
  have len: "length info = length rs" "length table = length rs" using placed_bounds [OF pl] by auto
  have end_bound: "unat (fst (info ! i)) + unat (rc_size (TRI (rs ! i))) \<le> unat e" if "i < length rs" for i
  proof -
    have "info ! i \<in> set info" using that len by simp
    then have "unat (fst (info ! i)) + unat (snd (info ! i)) \<le> unat e" using placed_bounds [OF pl] by blast
    then show ?thesis using placed_nth [OF pl that] by simp
  qed
  note table = placed_table [OF pl sane_classesD(4,5) [OF assms(1)]]
  show ?thesis
    using calc len end_bound placed_nth [OF pl] placed_sorted [OF pl] table
    unfolding rs_def [symmetric] by simp
qed

definition some_opcodes :: "string list" where
  "some_opcodes = [''PHI'', ''CALL64pcrel32'', ''MOV64ri'', ''RETQ'', ''PUSH64r'', ''POP64r'']"

definition some_registers :: "string list" where
  "some_registers = [''NOREG'', ''R11'', ''RDI'', ''ESI'', ''EAX'', ''RAX'', ''AL'', ''RSI'', ''RDX'',
     ''RCX'', ''R8'', ''R9'']"

definition some_x86 :: x86 where
  "some_x86 = \<lparr>FreeReg = 1, Callq = 1, Movabsq = 2, Retq = 3, PUSH64r = 4, POP64r = 5, RDI = 2,
     ESI = 3, EAX = 4, RAX = 5, AL = 6, RSI = 7, RDX = 8, RCX = 9, R8 = 10, R9 = 11\<rparr>"

lemma some_instrumenter: "X86_64Instrumenter some_opcodes some_registers = Some some_x86"
  by (simp add: X86_64Instrumenter_def getRegister_def getOpcode_def initRegisters_def
      some_opcodes_def some_registers_def some_x86_def upt_rec)

text \<open>A machine whose registers hold their numbers, and calls that clear all registers.\<close>

definition some_machine :: machine where
  "some_machine = \<lparr>full = of_nat, stack = [], ram = (\<lambda>_. 0), calls = []\<rparr>"

definition some_execution :: execution where
  "some_execution = \<lparr>glob = (\<lambda>_. 0x5000), clobber = (\<lambda>_ _ _. 0), body = (\<lambda>i m. Some (m\<lparr>full := (full m)(5 := 77)\<rparr>)),
     full_reg = (\<lambda>r. if r = 3 then 7 else if r = 4 \<or> r = 6 then 5 else r), high_byte = (\<lambda>_. False), reg_bytes = (\<lambda>_. 8)\<rparr>"

text \<open>
  Property C20. What an instrumented rewrite does on an x86-64, if its own instructions run: it
  protects the frame with the registers that pass arguments intact, runs the rewrite, leaves in the
  buffer, byte by byte, the value that each dumped register had after the rewrite, makes the frame
  writable again and ends with \<open>siglongjmp(JmpbufAddr, 42)\<close>. The parts of the scratch register
  (\<open>R11\<close>, \<open>R11D\<close>) are the exception: their place in the buffer gets bytes of the buffer's address. The
  dumped registers are general registers and no high bytes, which excludes the results of fewer
  than 32 bits.
\<close>

theorem instrumented_rewrite:
  assumes "X86_64Instrumenter opcodes registers = Some X" "sane_classes TRI"
    "getReturnRegs X RetType = Some Out" "space_for TRI (Out @ equivalent_regs TRI Out) < 2 ^ 32"
    "x86_machine E X" "storable E TRI (Out @ equivalent_regs TRI Out)" "dumps_as TRI Out ''_ug_rewrite_reg_data'' M Is"
    "instrument TRI X (W # Ws) jb M RetType (map Rewrite is) Is = Some (code, Is')"
  shows "dumps_as TRI Out ''_ug_rewrite_reg_data'' M Is' \<and> Regs Is' = Out @ equivalent_regs TRI Out \<and> (\<exists>m1 g.
    (\<forall>r \<in> {RDI X, RSI X, RDX X, RCX X, R8 X, R9 X}. full m1 (full_reg E r) = full m (full_reg E r)) \<and> stack m1 = stack m \<and>
    calls m1 = calls m @ [(''mprotect'', g)] \<and> args3 E X g = (FrameBegin W, FrameSize W, 1) \<and>
    (\<forall>m2. exec_code E X (map Rewrite is) m1 = Some m2 \<longrightarrow>
      (\<exists>m3 g2 g3. exec_code E X code m = Some m3 \<and>
        calls m3 = calls m2 @ [(''mprotect'', g2), (''siglongjmp'', g3)] \<and>
        args3 E X g2 = (FrameBegin W, FrameSize W, 3) \<and> g3 (full_reg E (RDI X)) = of_int jb \<and> g3 (full_reg E (ESI X)) = 42 \<and>
        (\<forall>i < length (Regs Is'). \<forall>k < reg_bytes E (Regs Is' ! i).
          ram m3 (glob E ''_ug_rewrite_reg_data'' + ucast (fst (RegInfo Is' ! i)) + of_nat k) =
          (if full_reg E (Regs Is' ! i) = full_reg E (FreeReg X) then ucast (drop_bit (8 * k) (glob E ''_ug_rewrite_reg_data''))
           else reg_byte E (full m2) (Regs Is' ! i) k)))))"
proof -
  note X = instrumenter_ok [OF assms(1)]
  let ?fb = "sint (FrameBegin W)" and ?fs = "sint (FrameSize W)" and ?nm = "''_ug_rewrite_reg_data''"
  let ?P = "protectRTFrame X ?fb ?fs (map Rewrite is)"
  let ?dumped = "\<lambda>m3 m2. \<forall>i < length (Regs Is'). \<forall>k < reg_bytes E (Regs Is' ! i).
    ram m3 (glob E ?nm + ucast (fst (RegInfo Is' ! i)) + of_nat k) =
    (if full_reg E (Regs Is' ! i) = full_reg E (FreeReg X) then ucast (drop_bit (8 * k) (glob E ?nm))
     else reg_byte E (full m2) (Regs Is' ! i) k)"
  obtain dumped where dump: "dumpRegisters TRI X M Out ?nm ?P Is = Some (dumped, Is')"
    and code: "code = instrumentToReturn X jb (unprotectRTFrame X ?fb ?fs dumped)"
    using assms(8) by (auto simp: instrument_def Let_def assms(3) bind_Some_iff)
  obtain m1 g where p: "exec_code E X ?P m = exec_code E X (map Rewrite is) m1"
    "\<forall>r \<in> set (argument_regs X). full m1 (full_reg E r) = full m (full_reg E r)" "stack m1 = stack m"
    "calls m1 = calls m @ [(''mprotect'', g)]" "args3 E X g = (of_int ?fb, of_int ?fs, 1)"
    using exec_protect [OF X assms(5), of ?fb ?fs "map Rewrite is" m] by blast
  obtain dm where d: "\<forall>m m1. exec_code E X ?P m = Some m1 \<longrightarrow> exec_code E X dumped m = Some (dm m1) \<and>
      stack (dm m1) = stack m1 \<and> calls (dm m1) = calls m1 \<and> ?dumped (dm m1) m1"
    using dumpRegisters_exec [OF assms(2,4,6,7) dump] by blast
  obtain um ug where u: "exec_code E X (unprotectRTFrame X ?fb ?fs dumped) m =
      do { m1 \<leftarrow> exec_code E X dumped m; Some (um m1) }"
    "\<And>m1. ram (um m1) = ram m1" "\<And>m1. calls (um m1) = calls m1 @ [(''mprotect'', ug m1)]"
    "\<And>m1. args3 E X (ug m1) = (of_int ?fb, of_int ?fs, 3)"
    using exec_unprotect [OF X assms(5), of ?fb ?fs dumped m] by blast
  have last: "\<exists>m3 g2 g3. exec_code E X code m = Some m3 \<and>
      calls m3 = calls m2 @ [(''mprotect'', g2), (''siglongjmp'', g3)] \<and>
      args3 E X g2 = (FrameBegin W, FrameSize W, 3) \<and> g3 (full_reg E (RDI X)) = of_int jb \<and> g3 (full_reg E (ESI X)) = 42 \<and>
      ?dumped m3 m2"
    if run: "exec_code E X (map Rewrite is) m1 = Some m2" for m2
  proof -
    have dr: "exec_code E X dumped m = Some (dm m2)" "calls (dm m2) = calls m2" "?dumped (dm m2) m2"
      using d p(1) run by simp_all
    define g3 where "g3 = (full (um (dm m2)))(full_reg E (RDI X) := of_int jb, full_reg E (ESI X) := 42)"
    define m3 where "m3 = (um (dm m2))\<lparr>full := clobber E ''siglongjmp'' g3,
      calls := calls (um (dm m2)) @ [(''siglongjmp'', g3)]\<rparr>"
    have "exec_code E X code m = Some m3"
      unfolding code instrumentToReturn_def exec_code_append u(1) dr(1)
      by (simp add: exec_ops [OF X] g3_def m3_def)
    moreover have "full_reg E (RDI X) \<noteq> full_reg E (ESI X)"
      using assms(5) unfolding x86_machine_def argument_regs_def by auto
    moreover have "ram m3 = ram (dm m2)" by (simp add: m3_def u(2))
    ultimately show ?thesis
      by (intro exI [of _ m3] exI [of _ "ug (dm m2)"] exI [of _ g3])
        (simp add: m3_def g3_def u(3,4) dr(2,3))
  qed
  have "dumps_as TRI Out ?nm M Is'" "Regs Is' = Out @ equivalent_regs TRI Out"
    using dumpRegisters_code(1,2) [OF dump assms(7)] by (auto elim: dumps_asE)
  then show ?thesis using p last
    by (intro conjI exI [of _ m1] exI [of _ g]) (auto simp: argument_regs_def)
qed

text \<open>A target whose only class has the registers \<open>R11\<close> (1) and \<open>RAX\<close> (5), of 8 bytes.\<close>

definition one_class :: "reg \<Rightarrow> reg_class" where
  "one_class r = \<lparr>rc_regs = [5, 1], rc_size = 8, rc_align = 8, rc_id = 7\<rparr>"

definition new_instrumenter :: instrumenter where
  "new_instrumenter = \<lparr>Regs = [], RegInfo = [], RegData = Map.empty\<rparr>"

lemma one_class_sane:
  "sane_classes one_class" "equivalent_regs one_class [5] = [1]" "space_for one_class [5, 1] < 2 ^ 32"
  by (simp_all add: sane_classes_def one_class_def equivalent_regs_def space_for_def)

theorem register_buffer_layout_witness:
  "\<exists>Is' G. calculateRegBufferLayout one_class 0 [5] ''buf'' new_instrumenter = Some Is' \<and>
    RegData Is' 0 = Some G \<and> Regs Is' = [5, 1] \<and> reg_buffer_size (ug_reg_info G) = ucast (buffer_size G)"
  using register_buffer_layout [of one_class "[5]" 0 "''buf''" new_instrumenter] one_class_sane by auto

lemma some_instrumented:
  "instrument one_class some_x86 [\<lparr>FrameBegin = 0x7000, FrameSize = 0x1000, Socket = 3\<rparr>] 0x9000 0
    PointerTy (map Rewrite [\<lparr>opcode = 0, operands = []\<rparr>]) new_instrumenter \<noteq> None"
  by (simp add: instrument_def getReturnRegs_def dumpRegisters_def calculateRegBufferLayout_def
      new_instrumenter_def one_class_sane(2) align_def one_class_def some_x86_def Let_def)

lemma some_machine_ok: "x86_machine some_execution some_x86" "storable some_execution one_class ([5] @ equivalent_regs one_class [5])"
  using one_class_sane(2)
  by (simp_all add: x86_machine_def argument_regs_def some_execution_def some_x86_def storable_def one_class_def)

theorem instrumented_rewrite_witness:
  "\<exists>code m3. instrument one_class some_x86 [\<lparr>FrameBegin = 0x7000, FrameSize = 0x1000, Socket = 3\<rparr>] 0x9000 0
      PointerTy (map Rewrite [\<lparr>opcode = 0, operands = []\<rparr>]) new_instrumenter = Some code \<and>
    exec_code some_execution some_x86 (fst code) some_machine = Some m3 \<and>
    map fst (calls m3) = [''mprotect'', ''mprotect'', ''siglongjmp''] \<and>
    (\<exists>off. ram m3 (0x5000 + ucast (off :: u32)) = 77)"
proof -
  let ?W = "\<lparr>FrameBegin = 0x7000, FrameSize = 0x1000, Socket = 3\<rparr>"
  let ?is = "[\<lparr>opcode = 0, operands = []\<rparr>]"
  obtain code Is' where c: "instrument one_class some_x86 (?W # []) 0x9000 0 PointerTy (map Rewrite ?is)
      new_instrumenter = Some (code, Is')"
    using some_instrumented by auto
  have r: "getReturnRegs some_x86 PointerTy = Some [5]" by (simp add: getReturnRegs_def some_x86_def)
  have s: "space_for one_class ([5] @ equivalent_regs one_class [5]) < 2 ^ 32" using one_class_sane by simp
  have d: "dumps_as one_class [5] ''_ug_rewrite_reg_data'' 0 new_instrumenter" by (simp add: dumps_as_def new_instrumenter_def)
  obtain m1 g where rs: "Regs Is' = [5] @ equivalent_regs one_class [5]"
    and m1: "calls m1 = calls some_machine @ [(''mprotect'', g)]"
    and run: "\<And>m2. exec_code some_execution some_x86 (map Rewrite ?is) m1 = Some m2 \<Longrightarrow>
      \<exists>m3 g2 g3. exec_code some_execution some_x86 code some_machine = Some m3 \<and>
        calls m3 = calls m2 @ [(''mprotect'', g2), (''siglongjmp'', g3)] \<and>
        (\<forall>i < length (Regs Is'). \<forall>k < reg_bytes some_execution (Regs Is' ! i).
          ram m3 (glob some_execution ''_ug_rewrite_reg_data'' + ucast (fst (RegInfo Is' ! i)) + of_nat k) =
          (if full_reg some_execution (Regs Is' ! i) = full_reg some_execution (FreeReg some_x86)
           then ucast (drop_bit (8 * k) (glob some_execution ''_ug_rewrite_reg_data''))
           else reg_byte some_execution (full m2) (Regs Is' ! i) k))"
    using instrumented_rewrite [OF some_instrumenter one_class_sane(1) r s some_machine_ok d c, of some_machine]
    by (elim conjE exE) blast
  let ?m2 = "m1\<lparr>full := (full m1)(5 := 77)\<rparr>"
  have "exec_code some_execution some_x86 (map Rewrite ?is) m1 = Some ?m2"
    by (simp add: some_execution_def)
  from run [OF this] obtain m3 g2 g3 where m3: "exec_code some_execution some_x86 code some_machine = Some m3"
    "calls m3 = calls m1 @ [(''mprotect'', g2), (''siglongjmp'', g3)]"
    "ram m3 (glob some_execution ''_ug_rewrite_reg_data'' + ucast (fst (RegInfo Is' ! 0)) + of_nat 0) =
      (if full_reg some_execution (Regs Is' ! 0) = full_reg some_execution (FreeReg some_x86)
       then ucast (drop_bit (8 * 0) (glob some_execution ''_ug_rewrite_reg_data''))
       else reg_byte some_execution (full ?m2) (Regs Is' ! 0) 0)"
    using rs by (fastforce simp: some_execution_def)
  then have "ram m3 (0x5000 + ucast (fst (RegInfo Is' ! 0))) = 77"
    using rs by (simp add: some_execution_def some_x86_def reg_byte_def)
  then show ?thesis using c m1 m3(1,2)
    by (intro exI [of _ "(code, Is')"] exI [of _ m3]) (auto simp: some_machine_def)
qed

end
