(* ===== verification/TreeStore.thy ===== *)
theory TreeStore
  imports TreeBins
begin

text \<open>
  What the tree bins hold: each bin is a trie in memory, whose nodes are the heads of rings
  of chunks of one size. Inserting and unlinking a chunk do not abort and change exactly the
  set of chunks of its size; the bins are a second store of chunks beside the small bins.
\<close>


subsection \<open>Cells of tree chunks\<close>

definition far :: "u64 \<Rightarrow> u64 \<Rightarrow> bool" where
  "far p q \<longleftrightarrow> 64 \<le> p - q \<and> 64 \<le> q - p"

definition tree_chunk :: "u64 \<Rightarrow> 'w heap \<Rightarrow> u64 \<Rightarrow> bool" where
  "tree_chunk m s p \<longleftrightarrow> chunk_at m s p \<and> p \<noteq> 0 \<and> p \<le> - 64"

definition spread :: "u64 set \<Rightarrow> bool" where
  "spread N \<longleftrightarrow> (\<forall>p \<in> N. \<forall>q \<in> N. p \<noteq> q \<longrightarrow> far p q)"

lemma far_sym: "far p q \<longleftrightarrow> far q p"
  by (auto simp: far_def)

lemma far_irrefl [simp]: "\<not> far p p"
  by (simp add: far_def)

lemma far_cell:
  assumes "far p q" "a \<le> 56" "b \<le> 56"
  shows "p + a \<noteq> q + b"
proof
  assume e: "p + a = q + b"
  have "unat (b - a) \<le> 56 \<or> unat (a - b) \<le> 56"
    using assms(2,3) by (cases "a \<le> b") (auto simp: unat_sub word_le_nat_alt)
  moreover have "p - q = b - a" "q - p = a - b" using e by (simp_all add: algebra_simps)
  ultimately show False using assms(1) by (auto simp: far_def word_le_nat_alt)
qed

lemma node_cell:
  assumes "spread N" "p \<in> N" "q \<in> N" "a \<le> 56" "b \<le> 56"
  shows "p + a = q + b \<longleftrightarrow> p = q \<and> a = b"
  using assms far_cell [of p q a b] by (cases "p = q") (auto simp: spread_def)

lemma spreadD: "spread N \<Longrightarrow> p \<in> N \<Longrightarrow> q \<in> N \<Longrightarrow> p \<noteq> q \<Longrightarrow> far p q"
  by (auto simp: spread_def)

lemma spread_subset: "spread N \<Longrightarrow> M \<subseteq> N \<Longrightarrow> spread M"
  by (auto simp: spread_def)

text \<open>The fields of the chunk \<open>q\<close> from its head to its index are as before.\<close>

definition same_node :: "'w heap \<Rightarrow> 'w heap \<Rightarrow> u64 \<Rightarrow> bool" where
  "same_node s s' q \<longleftrightarrow> (\<forall>a. 8 \<le> a \<longrightarrow> a \<le> 56 \<longrightarrow> load s' (q + a) = load s (q + a))"

lemma child_addrs [simp]: "child_addr t 0 = t + 32" "child_addr t 1 = t + 40"
  by (simp_all add: child_addr_def add.assoc)

lemma same_node_fields:
  assumes "same_node s s' q"
  shows "head s' q = head s q" "fd s' q = fd s q" "bk s' q = bk s q" "child s' q 0 = child s q 0"
    "child s' q 1 = child s q 1" "parent s' q = parent s q" "index s' q = index s q"
    "chunksize s' q = chunksize s q"
  using assms
  by (simp_all add: same_node_def child_addrs get_field_defs(1-4,7-) child_def index_def chunksize_def)

lemma same_node_refl [simp]: "same_node s s q"
  by (simp add: same_node_def)

lemma same_node_trans: "same_node s s' q \<Longrightarrow> same_node s' s'' q \<Longrightarrow> same_node s s'' q"
  by (simp add: same_node_def)

lemma same_node_store:
  assumes "far q t" "b \<le> 56"
  shows "same_node s (store (t + b) v s') q = same_node s s' q"
  using far_cell [OF assms(1) _ assms(2)] by (simp add: same_node_def load_store)

lemma same_node_set [simp]:
  assumes "far q t"
  shows "same_node s (set_fd t v s') q = same_node s s' q"
    "same_node s (set_bk t v s') q = same_node s s' q"
    "same_node s (set_head t v s') q = same_node s s' q"
    "same_node s (set_child t 0 v s') q = same_node s s' q"
    "same_node s (set_child t 1 v s') q = same_node s s' q"
    "same_node s (set_parent t v s') q = same_node s s' q"
    "same_node s (set_index t i s') q = same_node s s' q"
  by (simp_all add: set_field_defs same_node_store [OF assms])

lemma ucast_u32 [simp]: "ucast (ucast (i :: u32) :: u64) = i"
  by (rule bit_word_eqI) (simp add: bit_simps)

lemmas node_field_defs = head_def fd_def bk_def parent_def index_def child_def chunksize_def
  set_fd_def set_bk_def set_parent_def set_child_def set_index_def

lemma after_set_fd:
  assumes "spread N" "p \<in> N" "q \<in> N"
  shows
    "head (set_fd p v s) q = head s q" "fd (set_fd p v s) q = (if q = p then v else fd s q)"
    "bk (set_fd p v s) q = bk s q" "parent (set_fd p v s) q = parent s q"
    "index (set_fd p v s) q = index s q" "child (set_fd p v s) q 0 = child s q 0"
    "child (set_fd p v s) q 1 = child s q 1" "chunksize (set_fd p v s) q = chunksize s q"
  using node_cell [OF assms(1,3,2)]
  by (simp_all add: node_field_defs load_store)

lemma after_set_bk:
  assumes "spread N" "p \<in> N" "q \<in> N"
  shows
    "head (set_bk p v s) q = head s q" "fd (set_bk p v s) q = fd s q"
    "bk (set_bk p v s) q = (if q = p then v else bk s q)" "parent (set_bk p v s) q = parent s q"
    "index (set_bk p v s) q = index s q" "child (set_bk p v s) q 0 = child s q 0"
    "child (set_bk p v s) q 1 = child s q 1" "chunksize (set_bk p v s) q = chunksize s q"
  using node_cell [OF assms(1,3,2)]
  by (simp_all add: node_field_defs load_store)

lemma after_set_parent:
  assumes "spread N" "p \<in> N" "q \<in> N"
  shows
    "head (set_parent p v s) q = head s q" "fd (set_parent p v s) q = fd s q"
    "bk (set_parent p v s) q = bk s q"
    "parent (set_parent p v s) q = (if q = p then v else parent s q)"
    "index (set_parent p v s) q = index s q" "child (set_parent p v s) q 0 = child s q 0"
    "child (set_parent p v s) q 1 = child s q 1" "chunksize (set_parent p v s) q = chunksize s q"
  using node_cell [OF assms(1,3,2)]
  by (simp_all add: node_field_defs load_store)

lemma after_set_left:
  assumes "spread N" "p \<in> N" "q \<in> N"
  shows
    "head (set_child p 0 v s) q = head s q" "fd (set_child p 0 v s) q = fd s q"
    "bk (set_child p 0 v s) q = bk s q" "parent (set_child p 0 v s) q = parent s q"
    "index (set_child p 0 v s) q = index s q"
    "child (set_child p 0 v s) q 0 = (if q = p then v else child s q 0)"
    "child (set_child p 0 v s) q 1 = child s q 1" "chunksize (set_child p 0 v s) q = chunksize s q"
  using node_cell [OF assms(1,3,2)]
  by (simp_all add: node_field_defs load_store)

lemma after_set_right:
  assumes "spread N" "p \<in> N" "q \<in> N"
  shows
    "head (set_child p 1 v s) q = head s q" "fd (set_child p 1 v s) q = fd s q"
    "bk (set_child p 1 v s) q = bk s q" "parent (set_child p 1 v s) q = parent s q"
    "index (set_child p 1 v s) q = index s q" "child (set_child p 1 v s) q 0 = child s q 0"
    "child (set_child p 1 v s) q 1 = (if q = p then v else child s q 1)"
    "chunksize (set_child p 1 v s) q = chunksize s q"
  using node_cell [OF assms(1,3,2)]
  by (simp_all add: node_field_defs load_store)

lemma after_set_index:
  assumes "spread N" "p \<in> N" "q \<in> N"
  shows
    "head (set_index p i s) q = head s q" "fd (set_index p i s) q = fd s q"
    "bk (set_index p i s) q = bk s q" "parent (set_index p i s) q = parent s q"
    "index (set_index p i s) q = (if q = p then i else index s q)"
    "child (set_index p i s) q 0 = child s q 0" "child (set_index p i s) q 1 = child s q 1"
    "chunksize (set_index p i s) q = chunksize s q"
  using node_cell [OF assms(1,3,2)]
  by (simp_all add: node_field_defs load_store)

lemmas node_cells = after_set_fd after_set_bk after_set_parent after_set_left after_set_right after_set_index

lemma treebin_offset:
  assumes "i < 32" "a \<le> 56"
  shows "unat (treebin_at m i - m - a) = 600 + 8 * unat i - unat a"
proof -
  have i: "unat i < 32" using assms by (simp add: word_less_nat_alt)
  then have "unat (8 * ucast i :: u64) = 8 * unat i"
    by (simp add: unat_word_ariths(2) unsigned_ucast_eq take_bit_nat_eq_self)
  then have u: "unat (600 + 8 * ucast i :: u64) = 600 + 8 * unat i"
    using i by (simp add: unat_word_ariths(1))
  have a: "unat a \<le> 56" using assms(2) by (simp add: word_le_nat_alt)
  have "treebin_at m i - m - a = (600 + 8 * ucast i) - a" by (simp add: treebin_at_def)
  moreover have "a \<le> 600 + 8 * ucast i" using a u by (simp add: word_le_nat_alt)
  ultimately show ?thesis using u by (simp only: unat_sub)
qed

lemma treebin_not_cell:
  assumes "i < 32" "outside_state m q" "a \<le> 56"
  shows "q + a \<noteq> treebin_at m i"
proof
  assume "q + a = treebin_at m i"
  then have "q = treebin_at m i - a" by (simp add: eq_diff_eq)
  then have "q - m = treebin_at m i - m - a" by (simp only: diff_right_commute)
  then have "unat (q - m) = 600 + 8 * unat i - unat a" by (simp only: treebin_offset [OF assms(1,3)])
  moreover have "unat i < 32" using assms by (simp add: word_less_nat_alt)
  ultimately have "unat (q - m) < 936" by linarith
  then show False using assms(2) by (simp add: outside_state_def word_le_nat_alt)
qed

lemma treebin_inj: "i < 32 \<Longrightarrow> j < 32 \<Longrightarrow> treebin_at m i = treebin_at m j \<longleftrightarrow> i = j"
  using treebin_offset [of i 0 m] treebin_offset [of j 0 m] word_unat_eq_iff [of i j] by auto

lemma same_node_treebin:
  assumes "i < 32" "outside_state m q"
  shows "same_node s (store (treebin_at m i) v s') q = same_node s s' q"
  using treebin_not_cell [OF assms] by (simp add: same_node_def load_store)

subsection \<open>Tries\<close>

datatype trie = Leaf | Node (trie_root: u64) "u64 list" trie trie

fun chunks :: "trie \<Rightarrow> u64 set" where
  "chunks Leaf = {}"
| "chunks (Node t ring l r) = insert t (set ring) \<union> chunks l \<union> chunks r"

fun heads :: "trie \<Rightarrow> u64 set" where
  "heads Leaf = {}"
| "heads (Node t ring l r) = insert t (heads l \<union> heads r)"

text \<open>No chunk occurs twice.\<close>

fun proper :: "trie \<Rightarrow> bool" where
  "proper Leaf = True"
| "proper (Node t ring l r) \<longleftrightarrow>
     distinct (t # ring) \<and> proper l \<and> proper r \<and>
     insert t (set ring) \<inter> chunks l = {} \<and> insert t (set ring) \<inter> chunks r = {} \<and>
     chunks l \<inter> chunks r = {}"

text \<open>The trie \<open>T\<close> is in memory at \<open>p\<close>, below \<open>par\<close>.\<close>

fun tree_at :: "'w heap \<Rightarrow> u64 \<Rightarrow> u64 \<Rightarrow> trie \<Rightarrow> bool" where
  "tree_at s p par Leaf \<longleftrightarrow> p = 0"
| "tree_at s p par (Node t ring l r) \<longleftrightarrow>
     p = t \<and> parent s t = par \<and> dlinks s t ring t \<and>
     (\<forall>q \<in> set ring. parent s q = 0 \<and> child s q 0 = 0 \<and> child s q 1 = 0 \<and>
       chunksize s q = chunksize s t) \<and>
     tree_at s (child s t 0) t l \<and> tree_at s (child s t 1) t r"

text \<open>
  The sizes \<open>z\<close> steer the descent: at depth \<open>d\<close> the left subtree has the sizes whose key
  has bit \<open>63 - d\<close> clear, the right one those where it is set, and no size occurs twice.
\<close>

definition turns_right :: "nat \<Rightarrow> u64 \<Rightarrow> bool" where
  "turns_right d S \<longleftrightarrow> bit (push_bit d S) 63"

fun steered :: "(u64 \<Rightarrow> u64) \<Rightarrow> nat \<Rightarrow> trie \<Rightarrow> bool" where
  "steered z d Leaf = True"
| "steered z d (Node t ring l r) \<longleftrightarrow>
     (\<forall>q \<in> chunks l. \<not> turns_right d (z q) \<and> z q \<noteq> z t) \<and>
     (\<forall>q \<in> chunks r. turns_right d (z q) \<and> z q \<noteq> z t) \<and>
     (\<forall>q \<in> set ring. z q = z t) \<and> steered z (Suc d) l \<and> steered z (Suc d) r"

lemma heads_chunks: "heads T \<subseteq> chunks T"
  by (induction T) auto

lemma tree_at_frame:
  assumes "\<And>q. q \<in> chunks T \<Longrightarrow> same_node s s' q"
  shows "tree_at s' p par T = tree_at s p par T"
  using assms
proof (induction T arbitrary: p par)
  case (Node t ring l r)
  have t: "same_node s s' t" and ring: "\<And>q. q \<in> set ring \<Longrightarrow> same_node s s' q"
    using Node.prems by simp_all
  have "dlinks s' t ring t = dlinks s t ring t"
    using t ring by (intro dlinks_frame) (auto simp: same_node_fields)
  moreover have "tree_at s' (child s t 0) t l = tree_at s (child s t 0) t l"
    "tree_at s' (child s t 1) t r = tree_at s (child s t 1) t r"
    using Node by simp_all
  ultimately show ?case using ring by (simp add: same_node_fields [OF t] same_node_fields [OF ring])
qed simp

lemma tree_at_root: "tree_at s p par T \<Longrightarrow> 0 \<notin> chunks T \<Longrightarrow> T = Leaf \<longleftrightarrow> p = 0"
  by (cases T) auto

lemma child_bit: "drop_bit 63 (K :: u64) AND 1 = (if bit K 63 then 1 else 0)"
  by (simp add: and_one_eq bit_iff_odd_drop_bit odd_iff_mod_2_eq_one)


subsection \<open>Inserting into a trie\<close>

fun ins :: "(u64 \<Rightarrow> u64) \<Rightarrow> nat \<Rightarrow> u64 \<Rightarrow> trie \<Rightarrow> trie" where
  "ins z d X Leaf = Node X [] Leaf Leaf"
| "ins z d X (Node t ring l r) =
     (if z t = z X then Node t (X # ring) l r
      else if turns_right d (z X) then Node t ring l (ins z (Suc d) X r)
      else Node t ring (ins z (Suc d) X l) r)"

lemma chunks_ins [simp]: "chunks (ins z d X T) = insert X (chunks T)"
  by (induction T arbitrary: d) auto

lemma ins_not_Leaf [simp]: "ins z d X T \<noteq> Leaf"
  by (cases T) simp_all

lemma proper_ins: "proper T \<Longrightarrow> X \<notin> chunks T \<Longrightarrow> proper (ins z d X T)"
  by (induction T arbitrary: d) auto

lemma steered_ins: "steered z d T \<Longrightarrow> steered z d (ins z d X T)"
proof (induction T arbitrary: d)
  case (Node t ring l r)
  then have "steered z (Suc d) (ins z (Suc d) X l)" "steered z (Suc d) (ins z (Suc d) X r)" by simp_all
  with Node.prems show ?case by (cases "z t = z X") auto
qed simp

definition attach :: "u64 \<Rightarrow> u64 \<Rightarrow> u64 \<Rightarrow> 'w heap \<Rightarrow> 'w heap" where
  "attach X t C s = set_fd X X (set_bk X X (set_parent X t (store C X s)))"

definition join_ring :: "u64 \<Rightarrow> u64 \<Rightarrow> u64 \<Rightarrow> 'w heap \<Rightarrow> 'w heap" where
  "join_ring X t F s = set_parent X 0 (set_bk X t (set_fd X F (set_fd t X (set_bk F X s))))"

lemma attach_fields:
  assumes "spread N" "X \<in> N" "t \<in> N" "q \<in> N" "i = 0 \<or> i = 1"
  shows "parent (attach X t (child_addr t i) s) q = (if q = X then t else parent s q)"
    "chunksize (attach X t (child_addr t i) s) q = chunksize s q"
    "index (attach X t (child_addr t i) s) q = index s q"
    "child (attach X t (child_addr t i) s) q 0 = (if q = t \<and> i = 0 then X else child s q 0)"
    "child (attach X t (child_addr t i) s) q 1 = (if q = t \<and> i = 1 then X else child s q 1)"
    "fd (attach X t (child_addr t i) s) q = (if q = X then X else fd s q)"
    "bk (attach X t (child_addr t i) s) q = (if q = X then X else bk s q)"
proof -
  have att: "attach X t (child_addr t i) s = set_fd X X (set_bk X X (set_parent X t (set_child t i X s)))"
    by (simp add: attach_def set_child_def)
  note X = node_cells [OF assms(1,2,4)] and t = node_cells [OF assms(1,3,4)]
  show "parent (attach X t (child_addr t i) s) q = (if q = X then t else parent s q)"
    "chunksize (attach X t (child_addr t i) s) q = chunksize s q"
    "index (attach X t (child_addr t i) s) q = index s q"
    "child (attach X t (child_addr t i) s) q 0 = (if q = t \<and> i = 0 then X else child s q 0)"
    "child (attach X t (child_addr t i) s) q 1 = (if q = t \<and> i = 1 then X else child s q 1)"
    "fd (attach X t (child_addr t i) s) q = (if q = X then X else fd s q)"
    "bk (attach X t (child_addr t i) s) q = (if q = X then X else bk s q)"
    using assms(5) unfolding att by (auto simp only: X t) (simp_all add: X t)
qed

lemma same_node_attach:
  assumes "far q X" "far q t" "i = 0 \<or> i = 1"
  shows "same_node s (attach X t (child_addr t i) s) q"
  using assms(3) by (auto simp: attach_def assms(1,2) same_node_store)

lemma same_node_join:
  assumes "far q X" "far q t" "far q F"
  shows "same_node s (join_ring X t F s) q"
  by (simp add: join_ring_def assms)

lemma spread_apart: "spread N \<Longrightarrow> apart N"
  using node_cell [of N _ _ 0 8] by (auto simp: apart_def)

lemma store_commute: "a \<noteq> b \<Longrightarrow> store a v (store b w s) = store b w (store a v s)"
  by (simp add: store_def fun_upd_twist)

lemma join_ring_link:
  assumes "F + 24 \<noteq> t + 16"
  shows "join_ring X t F s = set_parent X 0 (link_between t X F s)"
  using assms by (simp add: join_ring_def link_between_def set_field_defs store_commute)

lemma dlinks_members:
  assumes "dlinks s x ps y"
  shows "fd s x \<in> insert y (set ps)" "bk s y \<in> insert x (set ps)"
  using assms dlinks_hd_last [OF assms] by (auto simp: hd_in_set)


text \<open>Where the search ends, and what linking the chunk in there does.\<close>

definition slot_found :: "'w heap \<Rightarrow> u64 \<Rightarrow> nat \<Rightarrow> u64 \<Rightarrow> u64 \<Rightarrow> trie \<Rightarrow> tree_slot \<Rightarrow> bool" where
  "slot_found s X d p par T slot \<longleftrightarrow>
     (case slot of
        Child_Slot t C \<Rightarrow> t \<in> heads T \<and> (\<exists>i \<in> {0, 1}. C = child_addr t i) \<and>
          tree_at (attach X t C s) p par (ins (chunksize s) d X T)
      | Same_Size t \<Rightarrow> t \<in> heads T \<and> fd s t \<in> chunks T \<and>
          tree_at (join_ring X t (fd s t) s) p par (ins (chunksize s) d X T))"

lemma find_tree_slot_step:
  "find_tree_slot s t (push_bit d S) S =
    (if chunksize s t = S then Some (Same_Size t)
     else let i = (if turns_right d S then 1 else 0) in
       if child s t i \<noteq> 0 then find_tree_slot s (child s t i) (push_bit (Suc d) S) S
       else Some (Child_Slot t (child_addr t i)))"
  by (subst find_tree_slot.simps)
    (simp add: child_bit turns_right_def child_def Let_def add.commute [of d])

lemma find_slot:
  assumes "tree_at s p par T" "T \<noteq> Leaf" "proper T" "spread (insert X (chunks T))" "X \<notin> chunks T"
    "0 \<notin> chunks T" "child s X 0 = 0" "child s X 1 = 0"
  shows "\<exists>slot. find_tree_slot s p (push_bit d (chunksize s X)) (chunksize s X) = Some slot \<and>
    slot_found s X d p par T slot"
  using assms
proof (induction T arbitrary: p par d)
  case Leaf
  then show ?case by blast
next
  case (Node t ring l r)
  let ?S = "chunksize s X" and ?N = "insert X (chunks (Node t ring l r))"
  have p: "p = t" "parent s t = par" "dlinks s t ring t" "tree_at s (child s t 0) t l"
    "tree_at s (child s t 1) t r"
    "\<And>q. q \<in> set ring \<Longrightarrow> parent s q = 0 \<and> child s q 0 = 0 \<and> child s q 1 = 0 \<and> chunksize s q = chunksize s t"
    using Node.prems(1) by simp_all
  have N: "t \<in> ?N" "X \<in> ?N" "set ring \<subseteq> ?N" "chunks l \<subseteq> ?N" "chunks r \<subseteq> ?N" by auto
  have X: "X \<noteq> t" "X \<notin> set ring" "X \<notin> chunks l" "X \<notin> chunks r" using Node.prems(5) by auto
  note far = spreadD [OF Node.prems(4)]
  show ?case
  proof (cases "chunksize s t = ?S")
    case True
    let ?F = "fd s t"
    let ?s = "join_ring X t ?F s"
    have F: "?F \<in> insert t (set ring)" using dlinks_members(1) [OF p(3)] .
    then have FN: "?F \<in> ?N" by auto
    note cells = node_cells [OF Node.prems(4)]
    have same: "same_node s ?s q" if "q \<in> chunks l \<union> chunks r" for q
      using that F X Node.prems(3) N FN by (intro same_node_join far) auto
    have link: "?s = set_parent X 0 (link_between t X ?F s)"
      by (rule join_ring_link) (simp add: node_cell [OF Node.prems(4) FN N(1)])
    have links: "dlinks (link_between t X ?F s) t (X # ring) t"
      using X p(3) Node.prems(3) dlinks_hd_last(1) [OF p(3)]
      by (intro dlinks_link_between [OF spread_apart [OF Node.prems(4)]]) auto
    have "dlinks ?s t (X # ring) t = dlinks (link_between t X ?F s) t (X # ring) t"
      unfolding link
      by (rule dlinks_frame) (auto simp: after_set_parent(2,3) [OF Node.prems(4) N(2)])
    with links have "dlinks ?s t (X # ring) t" by blast
    moreover have "parent ?s q = (if q = X then 0 else parent s q)" "child ?s q 0 = child s q 0"
      "child ?s q 1 = child s q 1" "chunksize ?s q = chunksize s q" if "q \<in> ?N" for q
      unfolding join_ring_def using that N(1,2) FN by (simp_all only: cells)
    ultimately have "tree_at ?s p par (Node t (X # ring) l r)"
      using p X True Node.prems(7,8) N same
      by (simp add: tree_at_frame [of l s ?s] tree_at_frame [of r s ?s])
    then show ?thesis
      using True F p(1) find_tree_slot_step [of s t d ?S] by (auto simp: slot_found_def)
  next
    case False
    define i where "i = (if turns_right d ?S then 1 else 0 :: u64)"
    have i: "i = 0 \<or> i = 1" "i = 1 \<longleftrightarrow> turns_right d ?S" "i = 0 \<longleftrightarrow> \<not> turns_right d ?S"
      by (simp_all add: i_def)
    define T where "T = (if turns_right d ?S then r else l)"
    have T: "tree_at s (child s t i) t T" "proper T" "chunks T \<subseteq> ?N - {X}" "chunks T \<inter> insert t (set ring) = {}"
      using p Node.prems(3,5) by (auto simp: T_def i_def)
    have lr: "T = l \<or> T = r" by (simp add: T_def)
    have T0: "0 \<notin> chunks T" using Node.prems(6) by (auto simp: T_def)
    have sT: "spread (insert X (chunks T))" using T(3) by (intro spread_subset [OF Node.prems(4)]) auto
    have find: "find_tree_slot s p (push_bit d ?S) ?S =
        (if child s t i \<noteq> 0 then find_tree_slot s (child s t i) (push_bit (Suc d) ?S) ?S
         else Some (Child_Slot t (child_addr t i)))"
      using False p(1) find_tree_slot_step [of s t d ?S] by (simp add: Let_def i_def)
    show ?thesis
    proof (cases "child s t i = 0")
      case True
      then have Leaf: "T = Leaf" using T(1) T0 by (cases T) auto
      define s2 where "s2 = attach X t (child_addr t i) s"
      have same: "same_node s s2 q" if "q \<in> chunks l \<union> chunks r" for q
        using that X Node.prems(3) N i(1) unfolding s2_def by (intro same_node_attach far) auto
      have fields: "parent s2 q = (if q = X then t else parent s q)" "chunksize s2 q = chunksize s q"
        "child s2 q 0 = (if q = t \<and> i = 0 then X else child s q 0)"
        "child s2 q 1 = (if q = t \<and> i = 1 then X else child s q 1)"
        "fd s2 q = (if q = X then X else fd s q)" "bk s2 q = (if q = X then X else bk s q)"
        if "q \<in> ?N" for q
        using N(1,2) that i(1) by (simp_all only: attach_fields [OF Node.prems(4)] s2_def)
      have rN: "q \<noteq> X \<and> q \<noteq> t" if "q \<in> set ring" for q using that X Node.prems(3) by auto
      have "dlinks s2 t ring t = dlinks s t ring t"
        using X by (intro dlinks_frame) (auto simp: fields)
      moreover have "tree_at s2 X t (Node X [] Leaf Leaf)"
        using X Node.prems(7,8) N(2) by (simp add: fields)
      ultimately have "tree_at s2 p par (ins (chunksize s) d X (Node t ring l r))"
        using p X False N same Leaf T(1) i(2,3) rN
        by (cases "turns_right d ?S")
          (simp_all add: fields T_def tree_at_frame [of l s s2] tree_at_frame [of r s s2])
      then show ?thesis using find True i(1) by (auto simp: slot_found_def s2_def)
    next
      case F: False
      then have "T \<noteq> Leaf" using T(1) by auto
      moreover have "X \<notin> chunks T" using T(3) by auto
      ultimately have "\<exists>slot. find_tree_slot s (child s t i) (push_bit (Suc d) ?S) ?S = Some slot \<and>
          slot_found s X (Suc d) (child s t i) t T slot"
        using Node.IH(1) [of "child s t i" t "Suc d"] Node.IH(2) [of "child s t i" t "Suc d"]
          T(1,2) sT T0 Node.prems(7,8) lr
        by metis
      then obtain slot where slot: "find_tree_slot s p (push_bit d ?S) ?S = Some slot"
        "slot_found s X (Suc d) (child s t i) t T slot"
        using find F by auto
      have lift: "tree_at s' p par (ins (chunksize s) d X (Node t ring l r))"
        if "tree_at s' (child s t i) t (ins (chunksize s) (Suc d) X T)"
          "\<And>q. q \<in> ?N - insert X (chunks T) \<Longrightarrow> same_node s s' q" for s'
      proof -
        have other: "same_node s s' q" if "q \<in> insert t (set ring) \<union> (if turns_right d ?S then chunks l else chunks r)" for q
          using that \<open>\<And>q. q \<in> ?N - insert X (chunks T) \<Longrightarrow> same_node s s' q\<close> [of q] T(4) X Node.prems(3)
          by (auto simp: T_def split: if_splits)
        note fields = same_node_fields [OF other]
        have "dlinks s' t ring t = dlinks s t ring t"
          by (intro dlinks_frame) (auto simp: fields)
        moreover have "turns_right d ?S \<Longrightarrow> tree_at s' (child s t 0) t l"
          "\<not> turns_right d ?S \<Longrightarrow> tree_at s' (child s t 1) t r"
          using p(4,5) other by (simp_all add: tree_at_frame [of _ s s'])
        ultimately show ?thesis
          using that(1) p False i by (cases "turns_right d ?S") (simp_all add: T_def fields)
      qed
      show ?thesis
      proof (cases slot)
        case (Child_Slot t' C)
        then obtain j where t': "t' \<in> heads T" "j \<in> {0, 1}" "C = child_addr t' j"
          "tree_at (attach X t' C s) (child s t i) t (ins (chunksize s) (Suc d) X T)"
          using slot(2) unfolding slot_found_def Child_Slot tree_slot.case by blast
        have "tree_at (attach X t' C s) p par (ins (chunksize s) d X (Node t ring l r))"
          using t' heads_chunks [of T] T(3) unfolding t'(3)
          by (intro lift same_node_attach far) auto
        moreover have "t' \<in> heads (Node t ring l r)" using t'(1) by (simp add: T_def split: if_splits)
        ultimately show ?thesis
          using slot(1) t'(2,3) unfolding slot_found_def Child_Slot by auto
      next
        case (Same_Size t')
        then have t': "t' \<in> heads T" "fd s t' \<in> chunks T"
          "tree_at (join_ring X t' (fd s t') s) (child s t i) t (ins (chunksize s) (Suc d) X T)"
          using slot(2) by (auto simp: slot_found_def)
        have "tree_at (join_ring X t' (fd s t') s) p par (ins (chunksize s) d X (Node t ring l r))"
          using t' heads_chunks [of T] T(3) by (intro lift same_node_join far) auto
        moreover have "t' \<in> heads (Node t ring l r)" "fd s t' \<in> chunks (Node t ring l r)"
          using t'(1,2) by (auto simp: T_def split: if_splits)
        ultimately show ?thesis using slot(1) t' Same_Size by (auto simp: slot_found_def)
      qed
    qed
  qed
qed


subsection \<open>The bins\<close>

definition tree_bin :: "u64 \<Rightarrow> 'w heap \<Rightarrow> u32 \<Rightarrow> trie \<Rightarrow> bool" where
  "tree_bin m s i T \<longleftrightarrow>
     tree_at s (load s (treebin_at m i)) (treebin_at m i) T \<and> (treemap_is_marked s i \<longleftrightarrow> T \<noteq> Leaf) \<and>
     proper T \<and> steered (chunksize s) (unat (leftshift_for_tree_index i)) T \<and>
     (\<forall>q \<in> chunks T. tree_chunk m s q \<and> index s q = i \<and> compute_tree_index (chunksize s q) = i)"

definition tree_chunks :: "(u32 \<Rightarrow> trie) \<Rightarrow> u64 set" where
  "tree_chunks Ts = (\<Union>i \<in> {i. i < NTREEBINS}. chunks (Ts i))"

definition tree_bins :: "u64 \<Rightarrow> (u32 \<Rightarrow> trie) \<Rightarrow> 'w heap \<Rightarrow> bool" where
  "tree_bins m Ts s \<longleftrightarrow>
     (\<forall>i < NTREEBINS. tree_bin m s i (Ts i)) \<and> m \<le> - 936 \<and> spread (tree_chunks Ts) \<and>
     (\<forall>i < NTREEBINS. \<forall>j < NTREEBINS. i \<noteq> j \<longrightarrow> chunks (Ts i) \<inter> chunks (Ts j) = {})"

lemma steered_cong:
  "(\<And>q. q \<in> chunks T \<Longrightarrow> z' q = z q) \<Longrightarrow> steered z' d T = steered z d T"
  by (induction T arbitrary: d) simp_all

lemma ins_cong: "(\<And>q. q \<in> insert X (chunks T) \<Longrightarrow> z' q = z q) \<Longrightarrow> ins z' d X T = ins z d X T"
proof (induction T arbitrary: d)
  case (Node t ring l r)
  have "ins z' (Suc d) X l = ins z (Suc d) X l" "ins z' (Suc d) X r = ins z (Suc d) X r"
    by (rule Node.IH, use Node.prems in force)+
  with Node.prems show ?case by simp
qed simp

lemma marked_tree [simp]:
  assumes "i < 32" "j < 32"
  shows "treemap_is_marked (mark_treemap i s) j \<longleftrightarrow> j = i \<or> treemap_is_marked s j"
    "treemap_is_marked (clear_treemap i s) j \<longleftrightarrow> j \<noteq> i \<and> treemap_is_marked s j"
proof -
  have eq: "unat j = unat i \<longleftrightarrow> j = i" by (simp add: word_unat_eq_iff)
  have "unat j < 32" using assms by (simp add: word_less_nat_alt)
  then show "treemap_is_marked (mark_treemap i s) j \<longleftrightarrow> j = i \<or> treemap_is_marked s j"
    "treemap_is_marked (clear_treemap i s) j \<longleftrightarrow> j \<noteq> i \<and> treemap_is_marked s j"
    using assms eq
    unfolding treemap_is_marked_def and_idx2bit [OF assms(2)] mark_treemap_def clear_treemap_def
    by (auto simp: bit_or_iff bit_and_iff bit_not_iff bit_idx2bit)
qed

lemma tree_marked_store [simp]: "treemap_is_marked (store a v s) i = treemap_is_marked s i"
  by (simp add: treemap_is_marked_def)

lemma load_treemap [simp]:
  "load (mark_treemap i s) a = load s a" "load (clear_treemap i s) a = load s a"
  by (simp_all add: load_def mark_treemap_def clear_treemap_def)

lemma treemap_fields [simp]:
  "head (mark_treemap i s) q = head s q" "head (clear_treemap i s) q = head s q"
  "parent (mark_treemap i s) q = parent s q" "parent (clear_treemap i s) q = parent s q"
  "index (mark_treemap i s) q = index s q" "index (clear_treemap i s) q = index s q"
  "chunksize (mark_treemap i s) q = chunksize s q" "chunksize (clear_treemap i s) q = chunksize s q"
  "child (mark_treemap i s) q k = child s q k" "child (clear_treemap i s) q k = child s q k"
  "fd (mark_treemap i s) q = fd s q" "fd (clear_treemap i s) q = fd s q"
  "bk (mark_treemap i s) q = bk s q" "bk (clear_treemap i s) q = bk s q"
  by (simp_all add: node_field_defs)

lemma least_addr_treemap [simp]:
  "least_addr (mark_treemap i s) = least_addr s" "least_addr (clear_treemap i s) = least_addr s"
  by (simp_all add: mark_treemap_def clear_treemap_def)

lemma same_node_treemap [simp]:
  "same_node s (mark_treemap i s') q = same_node s s' q"
  "same_node s (clear_treemap i s') q = same_node s s' q"
  by (simp_all add: same_node_def)

lemma tree_chunk_frame: "least_addr s' = least_addr s \<Longrightarrow> tree_chunk m s' p = tree_chunk m s p"
  by (simp add: tree_chunk_def chunk_at_frame [of s' s])

lemma tree_bin_frame:
  assumes "\<And>q. q \<in> chunks T \<Longrightarrow> same_node s s' q" "load s' (treebin_at m i) = load s (treebin_at m i)"
    "treemap_is_marked s' i = treemap_is_marked s i" "least_addr s' = least_addr s"
  shows "tree_bin m s' i T = tree_bin m s i T"
proof -
  note fields = same_node_fields [OF assms(1)]
  have "steered (chunksize s') d T = steered (chunksize s) d T" for d
    by (rule steered_cong) (rule fields(8))
  then show ?thesis
    using fields tree_at_frame [OF assms(1)] by (simp add: tree_bin_def assms(2,3) tree_chunk_frame [OF assms(4)])
qed

lemma tree_bins_update:
  assumes inv: "tree_bins m Ts s" and i: "i < 32"
    and new: "tree_bin m s' i T" and T: "chunks T \<subseteq> insert X (chunks (Ts i))"
    and X: "\<And>q. q \<in> tree_chunks Ts \<Longrightarrow> q \<noteq> X \<Longrightarrow> far q X" "\<And>j. j < 32 \<Longrightarrow> j \<noteq> i \<Longrightarrow> X \<notin> chunks (Ts j)"
    and other: "\<And>j q. j < 32 \<Longrightarrow> j \<noteq> i \<Longrightarrow> q \<in> chunks (Ts j) \<Longrightarrow> same_node s s' q"
    and bins: "\<And>j. j < 32 \<Longrightarrow> j \<noteq> i \<Longrightarrow> load s' (treebin_at m j) = load s (treebin_at m j)"
    and mark: "\<And>j. j < 32 \<Longrightarrow> j \<noteq> i \<Longrightarrow> treemap_is_marked s' j = treemap_is_marked s j"
    and least: "least_addr s' = least_addr s"
  shows "tree_bins m (Ts(i := T)) s'"
proof -
  have bin: "tree_bin m s' j (Ts j)" if "j < 32" "j \<noteq> i" for j
    using tree_bin_frame [OF other [OF that] bins [OF that] mark [OF that] least] inv that(1)
    by (simp add: tree_bins_def)
  have sub: "tree_chunks (Ts(i := T)) \<subseteq> insert X (tree_chunks Ts)"
    using T i by (auto simp: tree_chunks_def split: if_splits)
  have "spread (insert X (tree_chunks Ts))"
    using inv X(1) far_sym by (auto simp: tree_bins_def spread_def)
  then have "spread (tree_chunks (Ts(i := T)))" using sub by (rule spread_subset)
  moreover have "chunks T \<inter> chunks (Ts j) = {}" if "j < 32" "j \<noteq> i" for j
  proof -
    have "chunks (Ts i) \<inter> chunks (Ts j) = {}" using inv i that by (simp add: tree_bins_def)
    then show ?thesis using T X(2) [OF that] by blast
  qed
  ultimately show ?thesis using inv bin new i by (auto simp: tree_bins_def)
qed


lemma tree_binsD:
  assumes "tree_bins m Ts s" "i < 32"
  shows "tree_at s (load s (treebin_at m i)) (treebin_at m i) (Ts i)"
    "treemap_is_marked s i \<longleftrightarrow> Ts i \<noteq> Leaf" "proper (Ts i)"
    "steered (chunksize s) (unat (leftshift_for_tree_index i)) (Ts i)"
    "\<And>q. q \<in> chunks (Ts i) \<Longrightarrow> tree_chunk m s q \<and> index s q = i \<and> compute_tree_index (chunksize s q) = i"
    "spread (tree_chunks Ts)" "chunks (Ts i) \<subseteq> tree_chunks Ts"
    "\<And>j. j < 32 \<Longrightarrow> j \<noteq> i \<Longrightarrow> chunks (Ts i) \<inter> chunks (Ts j) = {}"
  using assms by (auto simp: tree_bins_def tree_bin_def tree_chunks_def)

lemma tree_chunkD:
  assumes "tree_chunk m s q"
  shows "ok_address s q" "outside_state m q" "q \<noteq> 0" "ok_address s (q + 32)" "ok_address s (q + 40)"
proof -
  have q: "least_addr s \<le> q" "outside_state m q" "q \<noteq> 0" "q \<le> - 64"
    using assms by (auto simp: tree_chunk_def chunk_at_def ok_address_def)
  then show "ok_address s q" "outside_state m q" "q \<noteq> 0" by (simp_all add: ok_address_def)
  have "unat q \<le> 2 ^ 64 - 64" using q(4) by (simp add: word_le_nat_alt)
  then have "q \<le> q + 32" "q \<le> q + 40" by (simp_all add: word_le_nat_alt unat_word_ariths(1))
  with q(1) show "ok_address s (q + 32)" "ok_address s (q + 40)" by (auto simp: ok_address_def)
qed

lemma tree_chunks_outside: "tree_bins m Ts s \<Longrightarrow> q \<in> tree_chunks Ts \<Longrightarrow> tree_chunk m s q"
  by (auto simp: tree_chunks_def tree_bins_def tree_bin_def)

lemma compute_tree_index_less:
  assumes "S < 2 ^ 40" "MIN_LARGE_SIZE \<le> S"
  shows "compute_tree_index S < 32"
  using assms by (cases rule: tree_index_cases) (simp_all add: word_less_nat_alt)

text \<open>The cells of the chunk before it is linked.\<close>

definition prepared :: "u64 \<Rightarrow> u32 \<Rightarrow> 'w heap \<Rightarrow> 'w heap" where
  "prepared X I s = set_child X 0 0 (set_child X 1 0 (set_index X I s))"

lemma insert_large_eq:
  "insert_large_chunk m X S s =
    (let I = compute_tree_index S; H = treebin_at m I; s = prepared X I s in
     if \<not> treemap_is_marked s I then Some (attach X H H (mark_treemap I s))
     else do {
       slot \<leftarrow> find_tree_slot s (load s H) (push_bit (unat (leftshift_for_tree_index I)) S) S;
       (case slot of
         Child_Slot t C \<Rightarrow> if ok_address s C then Some (attach X t C s) else None
       | Same_Size t \<Rightarrow> if ok_address s t \<and> ok_address s (fd s t)
           then Some (join_ring X t (fd s t) s) else None)
     })"
  unfolding insert_large_chunk_def attach_def join_ring_def prepared_def Let_def ..

lemma load_treebin_set:
  assumes "i < 32" "outside_state m p"
  shows "load (set_fd p v s) (treebin_at m i) = load s (treebin_at m i)"
    "load (set_bk p v s) (treebin_at m i) = load s (treebin_at m i)"
    "load (set_parent p v s) (treebin_at m i) = load s (treebin_at m i)"
    "load (set_index p k s) (treebin_at m i) = load s (treebin_at m i)"
    "load (store (p + 32) v s) (treebin_at m i) = load s (treebin_at m i)"
    "load (store (p + 40) v s) (treebin_at m i) = load s (treebin_at m i)"
    "load (set_child p 0 v s) (treebin_at m i) = load s (treebin_at m i)"
    "load (set_child p 1 v s) (treebin_at m i) = load s (treebin_at m i)"
  using treebin_not_cell [OF assms, THEN not_sym]
  by (simp_all add: set_field_defs load_store)

lemma least_addr_set [simp]:
  "least_addr (set_fd p v s) = least_addr s" "least_addr (set_bk p v s) = least_addr s"
  "least_addr (set_parent p v s) = least_addr s" "least_addr (set_index p i s) = least_addr s"
  "least_addr (set_child p k v s) = least_addr s"
  by (simp_all add: set_field_defs)

lemma tree_marked_set [simp]:
  "treemap_is_marked (set_fd p v s) i = treemap_is_marked s i"
  "treemap_is_marked (set_bk p v s) i = treemap_is_marked s i"
  "treemap_is_marked (set_parent p v s) i = treemap_is_marked s i"
  "treemap_is_marked (set_index p k s) i = treemap_is_marked s i"
  "treemap_is_marked (set_child p c v s) i = treemap_is_marked s i"
  by (simp_all add: set_field_defs)

lemma prepared_fields:
  "child (prepared X I s) X 0 = 0" "child (prepared X I s) X 1 = 0" "index (prepared X I s) X = I"
  "chunksize (prepared X I s) X = chunksize s X" "least_addr (prepared X I s) = least_addr s"
  "treemap_is_marked (prepared X I s) j = treemap_is_marked s j"
  by (simp_all add: prepared_def node_cells [of "{X}" X X] spread_def)

lemma prepared_other:
  "far q X \<Longrightarrow> same_node s (prepared X I s) q"
  "j < 32 \<Longrightarrow> outside_state m X \<Longrightarrow> load (prepared X I s) (treebin_at m j) = load s (treebin_at m j)"
  by (simp_all add: prepared_def load_treebin_set)

lemma attach_root:
  assumes "i < 32" "outside_state m X"
  shows "load (attach X (treebin_at m i) (treebin_at m i) s) (treebin_at m i) = X"
    "parent (attach X (treebin_at m i) (treebin_at m i) s) X = treebin_at m i"
    "fd (attach X (treebin_at m i) (treebin_at m i) s) X = X"
    "bk (attach X (treebin_at m i) (treebin_at m i) s) X = X"
    "child (attach X (treebin_at m i) (treebin_at m i) s) X 0 = child s X 0"
    "child (attach X (treebin_at m i) (treebin_at m i) s) X 1 = child s X 1"
    "index (attach X (treebin_at m i) (treebin_at m i) s) X = index s X"
    "chunksize (attach X (treebin_at m i) (treebin_at m i) s) X = chunksize s X"
    "far q X \<Longrightarrow> outside_state m q \<Longrightarrow>
      same_node s' (attach X (treebin_at m i) (treebin_at m i) s) q = same_node s' s q"
    "j < 32 \<Longrightarrow> j \<noteq> i \<Longrightarrow>
      load (attach X (treebin_at m i) (treebin_at m i) s) (treebin_at m j) = load s (treebin_at m j)"
    "treemap_is_marked (attach X (treebin_at m i) (treebin_at m i) s) j = treemap_is_marked s j"
    "least_addr (attach X (treebin_at m i) (treebin_at m i) s) = least_addr s"
  using same_node_fields [OF same_node_treebin [OF assms, of s X s, THEN iffD2, OF same_node_refl]]
    treebin_inj [OF assms(1), of j m]
  by (simp_all add: attach_def node_cells [of "{X}" X X] spread_def load_treebin_set assms load_store
      same_node_treebin treebin_inj)

text \<open>All but memory and the maps is as before.\<close>

definition same_scalars :: "'w heap \<Rightarrow> 'w heap \<Rightarrow> bool" where
  "same_scalars s s' \<longleftrightarrow> s'\<lparr>mem := mem s, smallmap := smallmap s, treemap := treemap s\<rparr> = s"

lemma same_scalars_refl [simp]: "same_scalars s s"
  by (simp add: same_scalars_def)

lemma same_scalars_trans: "same_scalars s s' \<Longrightarrow> same_scalars s' s'' \<Longrightarrow> same_scalars s s''"
  unfolding same_scalars_def by (cases s; cases s'; cases s'') simp

lemma same_scalarsD:
  assumes "same_scalars s s'"
  shows "topc s' = topc s" "topsize s' = topsize s" "least_addr s' = least_addr s" "dv s' = dv s" "dvsize s' = dvsize s"
    "release_checks s' = release_checks s" "trim_check s' = trim_check s"
  using assms unfolding same_scalars_def by (cases s; cases s'; simp)+

lemma same_scalars_writes [simp]:
  "same_scalars s (store a v s') = same_scalars s s'"
  "same_scalars s (mark_treemap i s') = same_scalars s s'" "same_scalars s (clear_treemap i s') = same_scalars s s'"
  "same_scalars s (mark_smallmap i s') = same_scalars s s'" "same_scalars s (clear_smallmap i s') = same_scalars s s'"
  unfolding same_scalars_def store_def mark_treemap_def clear_treemap_def mark_smallmap_def clear_smallmap_def
  by (cases s; cases s'; simp)+

lemma same_scalars_set [simp]:
  "same_scalars s (set_fd p v s') = same_scalars s s'" "same_scalars s (set_bk p v s') = same_scalars s s'"
  "same_scalars s (set_parent p v s') = same_scalars s s'" "same_scalars s (set_index p k s') = same_scalars s s'"
  "same_scalars s (set_child p i v s') = same_scalars s s'" "same_scalars s (set_head p v s') = same_scalars s s'"
  "same_scalars s (set_prev_foot p v s') = same_scalars s s'"
  by (simp_all add: set_field_defs)

text \<open>All cells but the \<open>B\<close> and the links of the nodes \<open>N\<close> are as before.\<close>

definition cells_same :: "u64 set \<Rightarrow> u64 set \<Rightarrow> 'w heap \<Rightarrow> 'w heap \<Rightarrow> bool" where
  "cells_same B N s s' \<longleftrightarrow> same_scalars s s' \<and>
     (\<forall>a. a \<notin> B \<longrightarrow> (\<forall>p \<in> N. \<forall>x. 16 \<le> x \<longrightarrow> x \<le> 56 \<longrightarrow> a \<noteq> p + x) \<longrightarrow> load s' a = load s a)"

lemma cells_same_refl [simp]: "cells_same B N s s"
  by (simp add: cells_same_def)

lemma cells_same_trans: "cells_same B N s s' \<Longrightarrow> cells_same B N s' s'' \<Longrightarrow> cells_same B N s s''"
  unfolding cells_same_def using same_scalars_trans by auto

lemma cells_same_mono: "cells_same B N s s' \<Longrightarrow> B \<subseteq> B' \<Longrightarrow> N \<subseteq> N' \<Longrightarrow> cells_same B' N' s s'"
  unfolding cells_same_def by blast

lemma cells_same_store:
  assumes "cells_same B N s s'" "a \<in> B \<or> (\<exists>p \<in> N. \<exists>x. 16 \<le> x \<and> x \<le> 56 \<and> a = p + x)"
  shows "cells_same B N s (store a v s')"
  using assms unfolding cells_same_def load_store by auto

lemma cells_same_set [intro]:
  assumes "cells_same B N s s'" "p \<in> N"
  shows "cells_same B N s (set_fd p v s')" "cells_same B N s (set_bk p v s')"
    "cells_same B N s (set_parent p v s')" "cells_same B N s (set_index p k s')"
    "i = 0 \<or> i = 1 \<Longrightarrow> cells_same B N s (set_child p i v s')"
proof -
  have w: "cells_same B N s (store (p + x) v s')" if "16 \<le> x" "x \<le> 56" for x v
    using assms(2) that by (intro cells_same_store [OF assms(1)]) blast
  show "cells_same B N s (set_fd p v s')" "cells_same B N s (set_bk p v s')"
    "cells_same B N s (set_parent p v s')" "cells_same B N s (set_index p k s')"
    "i = 0 \<or> i = 1 \<Longrightarrow> cells_same B N s (set_child p i v s')"
    by (auto simp: set_field_defs intro!: w)
qed

lemma cells_same_treemap [simp]:
  "cells_same B N s (mark_treemap i s') = cells_same B N s s'"
  "cells_same B N s (clear_treemap i s') = cells_same B N s s'"
  by (simp_all add: cells_same_def)

text \<open>The headers and marks of the small bins are as before.\<close>

definition small_same :: "u64 \<Rightarrow> 'w heap \<Rightarrow> 'w heap \<Rightarrow> bool" where
  "small_same m s s' \<longleftrightarrow>
     (\<forall>j < NSMALLBINS. fd s' (smallbin_at m j) = fd s (smallbin_at m j) \<and>
       bk s' (smallbin_at m j) = bk s (smallbin_at m j)) \<and> smallmap s' = smallmap s"

lemma small_same_refl [simp]: "small_same m s s"
  by (simp add: small_same_def)

lemma small_same_trans: "small_same m s s' \<Longrightarrow> small_same m s' s'' \<Longrightarrow> small_same m s s''"
  by (simp add: small_same_def)

lemma unat_neg: "(u :: u64) \<noteq> 0 \<Longrightarrow> unat (- u) = 2 ^ 64 - unat u"
  using unat_sub_if_size [of 0 u] by (simp add: word_size unat_gt_0)

lemma header_far:
  assumes "i < 32" "outside_state m q"
  shows "far (smallbin_at m i) q"
proof -
  let ?h = "smallbin_at m i"
  have h: "unat (?h - m) = 72 + 16 * unat i" using header_diff(1) [OF assms(1), of 0 m] by simp
  have i: "unat i < 32" using assms(1) by (simp add: word_less_nat_alt)
  have q: "936 \<le> unat (q - m)" "64 \<le> unat (m - q)"
    using assms(2) by (simp_all add: outside_state_def word_le_nat_alt)
  have e: "q - ?h = (q - m) - (?h - m)" "?h - q = - (q - ?h)" "m - q = - (q - m)" by simp_all
  have "?h - m \<le> q - m" using h i q by (simp add: word_le_nat_alt)
  then have a: "unat (q - ?h) = unat (q - m) - unat (?h - m)" unfolding e(1) by (rule unat_sub)
  then have "q - ?h \<noteq> 0" "q - m \<noteq> 0" using h i q by auto
  then have "unat (?h - q) = 2 ^ 64 - unat (q - ?h)" "unat (m - q) = 2 ^ 64 - unat (q - m)"
    using unat_neg [of "q - ?h"] unat_neg [of "q - m"] by simp_all
  then have "64 \<le> unat (?h - q)" unfolding a h using i q by simp
  moreover have "64 \<le> unat (q - ?h)" unfolding a h using i q by simp
  ultimately show ?thesis by (simp add: far_def word_le_nat_alt)
qed

lemma header_cells:
  assumes "i < 32" "j < 32"
  shows "smallbin_at m j + 16 \<noteq> treebin_at m i" "smallbin_at m j + 24 \<noteq> treebin_at m i"
proof -
  have j: "unat j < 32" using assms(2) by (simp add: word_less_nat_alt)
  have h: "smallbin_at m j = treebin_at m i - a \<Longrightarrow> unat (treebin_at m i - m - a) = 72 + 16 * unat j" for a
    using header_diff(1) [OF assms(2), of 0 m] by (simp add: diff_right_commute)
  show "smallbin_at m j + 16 \<noteq> treebin_at m i" "smallbin_at m j + 24 \<noteq> treebin_at m i"
    using h [of 16] h [of 24] j treebin_offset [OF assms(1), of 16 m] treebin_offset [OF assms(1), of 24 m]
    by (auto simp: eq_diff_eq)
qed

lemma small_same_nodes:
  assumes "\<And>j. j < 32 \<Longrightarrow> same_node s s' (smallbin_at m j)" "smallmap s' = smallmap s"
  shows "small_same m s s'"
  using same_node_fields [OF assms(1)] assms(2) by (simp add: small_same_def)

lemma smallmap_set [simp]:
  "smallmap (set_fd p v s) = smallmap s" "smallmap (set_bk p v s) = smallmap s"
  "smallmap (set_parent p v s) = smallmap s" "smallmap (set_index p i s) = smallmap s"
  "smallmap (set_child p k v s) = smallmap s" "smallmap (store a v s) = smallmap s"
  "smallmap (mark_treemap i s) = smallmap s" "smallmap (clear_treemap i s) = smallmap s"
  by (simp_all add: set_field_defs store_def mark_treemap_def clear_treemap_def)

lemma small_same_treebin:
  "i < 32 \<Longrightarrow> small_same m s (store (treebin_at m i) v s') = small_same m s s'"
  using header_cells by (simp add: small_same_def get_field_defs load_store)

lemma small_same_treemap [simp]:
  "small_same m s (mark_treemap i s') = small_same m s s'"
  "small_same m s (clear_treemap i s') = small_same m s s'"
  by (simp_all add: small_same_def)

lemma small_same_node:
  assumes "outside_state m p"
  shows "small_same m s (set_fd p v s) \<and> small_same m s (set_bk p v s) \<and> small_same m s (set_parent p v s) \<and>
    small_same m s (set_index p k s) \<and> small_same m s (set_child p 0 v s) \<and> small_same m s (set_child p 1 v s)"
  using header_far [OF _ assms] by (intro conjI small_same_nodes) simp_all

lemma small_same_set [intro]:
  assumes "small_same m s s'" "outside_state m p"
  shows "small_same m s (set_fd p v s')" "small_same m s (set_bk p v s')"
    "small_same m s (set_parent p v s')" "small_same m s (set_index p k s')"
    "i = 0 \<or> i = 1 \<Longrightarrow> small_same m s (set_child p i v s')"
  using small_same_trans [OF assms(1)] small_same_node [OF assms(2), of s'] by blast+

text \<open>What a change to the tree of one bin leaves alone.\<close>

definition only_nodes :: "u64 \<Rightarrow> u32 \<Rightarrow> u64 set \<Rightarrow> 'w heap \<Rightarrow> 'w heap \<Rightarrow> bool" where
  "only_nodes m i N s s' \<longleftrightarrow>
     (\<forall>q. (\<forall>p \<in> N. far q p) \<and> outside_state m q \<longrightarrow> same_node s s' q) \<and>
     (\<forall>j < NTREEBINS. j \<noteq> i \<longrightarrow> load s' (treebin_at m j) = load s (treebin_at m j) \<and>
       treemap_is_marked s' j = treemap_is_marked s j) \<and>
     small_same m s s' \<and> cells_same {treebin_at m i} N s s' \<and> least_addr s' = least_addr s"

lemma insert_large_tree:
  assumes inv: "tree_bins m Ts s" and X: "tree_chunk m s X" and S: "S < 2 ^ 40" "MIN_LARGE_SIZE \<le> S" "chunksize s X = S"
    and fresh: "\<And>q. q \<in> tree_chunks Ts \<Longrightarrow> far q X"
  defines "I \<equiv> compute_tree_index S"
  defines "T \<equiv> ins (chunksize s) (unat (leftshift_for_tree_index I)) X (Ts I)"
  shows "\<exists>s'. insert_large_chunk m X S s = Some s' \<and> tree_bin m s' I T \<and>
    only_nodes m I (insert X (chunks (Ts I))) s s' \<and>
    (\<forall>q \<in> insert X (chunks (Ts I)). chunksize s' q = chunksize s q)"
proof -
  have I: "I < 32" unfolding I_def by (rule compute_tree_index_less [OF S(1,2)])
  let ?H = "treebin_at m I"
  let ?sh = "unat (leftshift_for_tree_index I)"
  define s0 where "s0 = prepared X I s"
  note D = tree_binsD [OF inv I]
  note Xc = tree_chunkD [OF X]
  have fr: "far q X" if "q \<in> chunks (Ts I)" for q using fresh D(7) that by blast
  have XT: "X \<notin> chunks (Ts I)" using fr [of X] by auto
  have same0: "same_node s s0 q" if "q \<in> chunks (Ts I)" for q
    unfolding s0_def by (rule prepared_other(1) [OF fr [OF that]])
  have same0': "same_node s s0 q" if "far q X" for q
    unfolding s0_def by (rule prepared_other(1) [OF that])
  have z0: "chunksize s0 q = chunksize s q" if "q \<in> insert X (chunks (Ts I))" for q
    using that same_node_fields(8) [OF same0] by (auto simp: s0_def prepared_fields)
  have X0: "child s0 X 0 = 0" "child s0 X 1 = 0" "index s0 X = I" "chunksize s0 X = S"
    "least_addr s0 = least_addr s" "treemap_is_marked s0 j = treemap_is_marked s j"
    "j < 32 \<Longrightarrow> load s0 (treebin_at m j) = load s (treebin_at m j)" for j
    using S(3) by (simp_all add: s0_def prepared_fields prepared_other(2) [OF _ Xc(2)])
  let ?N = "insert X (chunks (Ts I))"
  have cells0: "cells_same B ?N s s0" for B
    unfolding s0_def prepared_def by (intro cells_same_set cells_same_refl) simp_all
  have small0: "small_same m s s0"
    unfolding s0_def prepared_def using Xc(2) by (intro small_same_set small_same_refl) simp_all
  show ?thesis
  proof (cases "treemap_is_marked s I")
    case False
    then have Leaf: "Ts I = Leaf" using D(2) by simp
    let ?s = "attach X ?H ?H (mark_treemap I s0)"
    have run: "insert_large_chunk m X S s = Some ?s"
      using False by (simp add: insert_large_eq Let_def I_def [symmetric] s0_def [symmetric])
        (simp add: s0_def prepared_fields)
    note R = attach_root [OF I Xc(2)]
    have marked: "treemap_is_marked (mark_treemap I s0) j \<longleftrightarrow> j = I \<or> treemap_is_marked s j" if "j < 32" for j
      using I that by (simp add: s0_def prepared_fields)
    have Xz: "chunksize ?s X = S" "index ?s X = I"
      using S(3) by (simp_all add: R s0_def prepared_fields)
    have tc: "tree_chunk m ?s X" using X tree_chunk_frame [of ?s s] by (simp add: R s0_def prepared_fields)
    have bin: "tree_bin m ?s I T"
      using I Leaf Xz tc X0 by (simp add: tree_bin_def T_def R marked I_def [symmetric])
    have "small_same m s ?s"
      unfolding attach_def using Xc(2) small0 by (intro small_same_set) (simp_all add: small_same_treebin [OF I])
    moreover have "cells_same {?H} ?N s ?s"
      unfolding attach_def by (intro cells_same_set cells_same_store) (simp_all add: cells0)
    ultimately have "only_nodes m I (insert X (chunks (Ts I))) s ?s"
      using Xc(2) same0' by (auto simp: only_nodes_def Leaf R marked X0)
    then show ?thesis using run bin Xz(1) S(3) Leaf by auto
  next
    case True
    then have ne: "Ts I \<noteq> Leaf" using D(2) by simp
    have T0: "tree_at s0 (load s0 ?H) ?H (Ts I)"
      using D(1) I by (simp add: X0 tree_at_frame [OF same0])
    have sp: "spread (insert X (chunks (Ts I)))"
      using D(6,7) fr far_sym by (auto simp: spread_def)
    have z: "0 \<notin> chunks (Ts I)" using D(5) by (auto simp: tree_chunk_def)
    obtain slot where slot: "find_tree_slot s0 (load s0 ?H) (push_bit ?sh S) S = Some slot"
      "slot_found s0 X ?sh (load s0 ?H) ?H (Ts I) slot"
      using find_slot [OF T0 ne D(3) sp XT z X0(1,2)] by (auto simp: X0)
    have Teq: "ins (chunksize s0) ?sh X (Ts I) = T" unfolding T_def by (rule ins_cong) (rule z0)
    have node: "tree_chunk m s q" if "q \<in> chunks (Ts I)" for q using D(5) that by blast
    have fin: ?thesis
      if "insert_large_chunk m X S s = Some s'" "tree_at s' (load s0 ?H) ?H T"
        "\<And>q. (\<forall>p \<in> insert X (chunks (Ts I)). far q p) \<Longrightarrow> same_node s0 s' q"
        "\<And>q. q \<in> insert X (chunks (Ts I)) \<Longrightarrow> index s' q = index s0 q \<and> chunksize s' q = chunksize s0 q"
        "\<And>j. j < 32 \<Longrightarrow> load s' (treebin_at m j) = load s0 (treebin_at m j)"
        "\<And>j. treemap_is_marked s' j = treemap_is_marked s0 j" "least_addr s' = least_addr s0"
        "smallmap s' = smallmap s0" "cells_same {} ?N s0 s'" for s'
    proof -
      have "same_node s0 s' (smallbin_at m j)" if "j < 32" for j
      proof (rule \<open>\<And>q. (\<forall>p \<in> insert X (chunks (Ts I)). far q p) \<Longrightarrow> same_node s0 s' q\<close>, intro ballI)
        show "far (smallbin_at m j) p" if "p \<in> insert X (chunks (Ts I))" for p
          using header_far [OF \<open>j < 32\<close>, of m p] that Xc(2) tree_chunkD(2) [OF node] by auto
      qed
      then have small: "small_same m s s'"
        by (intro small_same_trans [OF small0] small_same_nodes that(8))
      have cells: "cells_same {?H} ?N s s'"
        by (rule cells_same_trans [OF cells0 cells_same_mono [OF that(9)]]) auto
      have "steered (chunksize s') ?sh T = steered (chunksize s) ?sh T"
        by (rule steered_cong) (simp add: T_def that(4) z0)
      then have "steered (chunksize s') ?sh T" using steered_ins [OF D(4)] by (simp add: T_def)
      moreover have "tree_chunk m s' q" if "q \<in> insert X (chunks (Ts I))" for q
        using that X node tree_chunk_frame [of s' s] \<open>least_addr s' = least_addr s0\<close> by (auto simp: X0)
      ultimately have "tree_bin m s' I T"
        using that(2,4-6) I True D(5) X0 z0 S(3) proper_ins [OF D(3) XT]
        by (auto simp: tree_bin_def T_def I_def [symmetric] same_node_fields [OF same0])
      moreover have "only_nodes m I (insert X (chunks (Ts I))) s s'"
        using that(3,5-7) X0(5-7) small cells by (auto simp: only_nodes_def intro: same_node_trans [OF same0'])
      ultimately show ?thesis using that(1,4) z0 by auto
    qed
    show ?thesis
    proof (cases slot)
      case (Child_Slot t C)
      then obtain i where t: "t \<in> heads (Ts I)" "i = 0 \<or> i = 1" "C = child_addr t i"
        "tree_at (attach X t C s0) (load s0 ?H) ?H T"
        using slot(2) unfolding slot_found_def Child_Slot tree_slot.case Teq by blast
      then have tT: "t \<in> chunks (Ts I)" using heads_chunks by blast
      note tc = tree_chunkD [OF node [OF tT]]
      have "ok_address s0 C" using tc(4,5) t(2,3) by (auto simp: ok_address_def X0)
      then have "insert_large_chunk m X S s = Some (attach X t C s0)"
        using True slot(1) by (simp add: insert_large_eq Let_def Child_Slot X0 I_def [symmetric] s0_def [symmetric])
      then show ?thesis
      proof (rule fin)
        show "tree_at (attach X t C s0) (load s0 ?H) ?H T" by (rule t(4))
        show "same_node s0 (attach X t C s0) q" if "\<forall>p \<in> insert X (chunks (Ts I)). far q p" for q
          using that tT t(2) unfolding t(3) by (intro same_node_attach) auto
        show "index (attach X t C s0) q = index s0 q \<and> chunksize (attach X t C s0) q = chunksize s0 q"
          if "q \<in> insert X (chunks (Ts I))" for q
          using that tT unfolding t(3) by (simp add: attach_fields [OF sp _ _ _ t(2)])
        show "load (attach X t C s0) (treebin_at m j) = load s0 (treebin_at m j)" if "j < 32" for j
          using t(2) by (auto simp: attach_def t(3) load_treebin_set that Xc(2) tc(2))
        show "treemap_is_marked (attach X t C s0) j = treemap_is_marked s0 j" for j
          by (simp add: attach_def)
        show "least_addr (attach X t C s0) = least_addr s0" "smallmap (attach X t C s0) = smallmap s0"
          by (simp_all add: attach_def)
        have "attach X t C s0 = set_fd X X (set_bk X X (set_parent X t (set_child t i X s0)))"
          by (simp add: attach_def t(3) set_child_def)
        then show "cells_same {} ?N s0 (attach X t C s0)"
          using tT t(2) by (auto intro!: cells_same_set)
      qed
    next
      case (Same_Size t)
      let ?F = "fd s0 t"
      let ?s = "join_ring X t ?F s0"
      have t: "t \<in> heads (Ts I)" "?F \<in> chunks (Ts I)" "tree_at ?s (load s0 ?H) ?H T"
        using slot(2) unfolding slot_found_def Same_Size tree_slot.case Teq by blast+
      then have tT: "t \<in> chunks (Ts I)" using heads_chunks by blast
      note tc = tree_chunkD [OF node [OF tT]] and Fc = tree_chunkD [OF node [OF t(2)]]
      have "insert_large_chunk m X S s = Some ?s"
        using True slot(1) tc(1) Fc(1)
        by (simp add: insert_large_eq Let_def Same_Size X0 I_def [symmetric] s0_def [symmetric] ok_address_def)
      then show ?thesis
      proof (rule fin)
        show "tree_at ?s (load s0 ?H) ?H T" by (rule t(3))
        show "same_node s0 ?s q" if "\<forall>p \<in> insert X (chunks (Ts I)). far q p" for q
          using that tT t(2) by (intro same_node_join) auto
        show "index ?s q = index s0 q \<and> chunksize ?s q = chunksize s0 q"
          if "q \<in> insert X (chunks (Ts I))" for q
          using that tT t(2) by (simp add: join_ring_def node_cells [OF sp])
        show "load ?s (treebin_at m j) = load s0 (treebin_at m j)" if "j < 32" for j
          by (simp add: join_ring_def load_treebin_set that Xc(2) tc(2) Fc(2))
        show "treemap_is_marked ?s j = treemap_is_marked s0 j" for j by (simp add: join_ring_def)
        show "least_addr ?s = least_addr s0" "smallmap ?s = smallmap s0" by (simp_all add: join_ring_def)
        show "cells_same {} ?N s0 ?s"
          using tT t(2) unfolding join_ring_def by (auto intro!: cells_same_set)
      qed
    qed
  qed
qed


subsection \<open>Removing from a trie\<close>

text \<open>The leaf that replaces a node, with the rest of its ring and of the trie.\<close>

fun pop_leaf :: "trie \<Rightarrow> u64 \<times> u64 list \<times> trie" where
  "pop_leaf Leaf = (0, [], Leaf)"
| "pop_leaf (Node t ring l r) =
     (if r \<noteq> Leaf then let (x, xs, r') = pop_leaf r in (x, xs, Node t ring l r')
      else if l \<noteq> Leaf then let (x, xs, l') = pop_leaf l in (x, xs, Node t ring l' r)
      else (t, ring, Leaf))"

fun drop_root :: "trie \<Rightarrow> trie" where
  "drop_root Leaf = Leaf"
| "drop_root (Node t ring l r) =
     (if ring \<noteq> [] then Node (last ring) (butlast ring) l r
      else if r \<noteq> Leaf then let (x, xs, r') = pop_leaf r in Node x xs l r'
      else if l \<noteq> Leaf then let (x, xs, l') = pop_leaf l in Node x xs l' r
      else Leaf)"

fun remove_chunk :: "u64 \<Rightarrow> trie \<Rightarrow> trie" where
  "remove_chunk X Leaf = Leaf"
| "remove_chunk X (Node t ring l r) =
     (if X = t then drop_root (Node t ring l r)
      else if X \<in> set ring then Node t (remove1 X ring) l r
      else Node t ring (remove_chunk X l) (remove_chunk X r))"

lemma pop_leaf_cases:
  assumes "pop_leaf (Node t ring l r) = (x, xs, T')"
  obtains (right) r' where "r \<noteq> Leaf" "pop_leaf r = (x, xs, r')" "T' = Node t ring l r'"
  | (left) l' where "r = Leaf" "l \<noteq> Leaf" "pop_leaf l = (x, xs, l')" "T' = Node t ring l' r"
  | (leaf) "r = Leaf" "l = Leaf" "x = t" "xs = ring" "T' = Leaf"
  using assms by (auto split: if_splits prod.splits)

lemma pop_leaf_chunks:
  assumes "pop_leaf T = (x, xs, T')" "T \<noteq> Leaf" "proper T"
  shows "chunks T = insert x (set xs) \<union> chunks T' \<and> insert x (set xs) \<inter> chunks T' = {} \<and>
    distinct (x # xs) \<and> proper T' \<and> x \<in> heads T \<and> set xs \<inter> heads T = {}"
  using assms
proof (induction T arbitrary: x xs T')
  case (Node t ring l r)
  have dj: "insert t (set ring) \<inter> chunks l = {}" "insert t (set ring) \<inter> chunks r = {}"
    "chunks l \<inter> chunks r = {}" "proper l" "proper r" "distinct (t # ring)"
    using Node.prems(3) by simp_all
  show ?case
    using Node.prems(1)
  proof (cases rule: pop_leaf_cases)
    case (right r')
    note IH = Node.IH(2) [OF right(2,1) dj(5)]
    have "insert x (set xs) \<subseteq> chunks r" "chunks r' \<subseteq> chunks r" using IH by auto
    then show ?thesis using IH dj right(3) heads_chunks [of l] by auto
  next
    case (left l')
    note IH = Node.IH(1) [OF left(3,2) dj(4)]
    have "insert x (set xs) \<subseteq> chunks l" "chunks l' \<subseteq> chunks l" using IH by auto
    then show ?thesis using IH dj left heads_chunks [of r] by auto
  next
    case leaf
    then show ?thesis using dj by auto
  qed
qed simp

lemma pop_leaf_steered:
  assumes "pop_leaf T = (x, xs, T')" "T \<noteq> Leaf" "proper T" "steered z d T"
  shows "steered z d T' \<and> (\<forall>q \<in> set xs. z q = z x) \<and> (\<forall>q \<in> chunks T'. z q \<noteq> z x)"
  using assms
proof (induction T arbitrary: x xs T' d)
  case (Node t ring l r)
  have st: "steered z (Suc d) l" "steered z (Suc d) r" "proper l" "proper r"
    "\<And>q. q \<in> set ring \<Longrightarrow> z q = z t"
    "\<And>q. q \<in> chunks l \<Longrightarrow> \<not> turns_right d (z q) \<and> z q \<noteq> z t"
    "\<And>q. q \<in> chunks r \<Longrightarrow> turns_right d (z q) \<and> z q \<noteq> z t"
    using Node.prems(3,4) by simp_all
  have lr: "z p \<noteq> z q" if "p \<in> chunks l" "q \<in> chunks r" for p q
    using st(6) [OF that(1)] st(7) [OF that(2)] by auto
  show ?case
    using Node.prems(1)
  proof (cases rule: pop_leaf_cases)
    case (right r')
    note IH = Node.IH(2) [OF right(2,1) st(4,2)] and C = pop_leaf_chunks [OF right(2,1) st(4)]
    have x: "x \<in> chunks r" and sub: "chunks r' \<subseteq> chunks r" using C by auto
    have z: "z q \<noteq> z x" if q: "q \<in> chunks T'" for q
    proof -
      consider "q = t" | "q \<in> set ring" | "q \<in> chunks l" | "q \<in> chunks r'" using q right(3) by auto
      then show ?thesis
        by cases (use st(5) st(7) [OF x] lr [OF _ x] IH in metis)+
    qed
    have "steered z d T'" unfolding right(3) using IH st sub by (simp add: subset_iff)
    then show ?thesis using IH z by blast
  next
    case (left l')
    note IH = Node.IH(1) [OF left(3,2) st(3,1)] and C = pop_leaf_chunks [OF left(3,2) st(3)]
    have x: "x \<in> chunks l" and sub: "chunks l' \<subseteq> chunks l" using C by auto
    have z: "z q \<noteq> z x" if q: "q \<in> chunks T'" for q
    proof -
      consider "q = t" | "q \<in> set ring" | "q \<in> chunks l'" using q left(1,4) by auto
      then show ?thesis
        by cases (use st(5) st(6) [OF x] IH in metis)+
    qed
    have "steered z d T'" unfolding left(4) using IH st sub by (simp add: subset_iff)
    then show ?thesis using IH z by blast
  next
    case leaf
    then show ?thesis using st(5) by simp
  qed
qed simp


lemma drop_root_cases:
  obtains (ring) "ring \<noteq> []" "drop_root (Node t ring l r) = Node (last ring) (butlast ring) l r"
  | (right) x xs r' where "ring = []" "r \<noteq> Leaf" "pop_leaf r = (x, xs, r')" "drop_root (Node t ring l r) = Node x xs l r'"
  | (left) x xs l' where "ring = []" "r = Leaf" "l \<noteq> Leaf" "pop_leaf l = (x, xs, l')"
      "drop_root (Node t ring l r) = Node x xs l' r"
  | (leaf) "ring = []" "l = Leaf" "r = Leaf" "drop_root (Node t ring l r) = Leaf"
  by (cases "pop_leaf r"; cases "pop_leaf l"; cases "ring = []"; cases "r = Leaf"; cases "l = Leaf")
    simp_all

lemma butlast_facts:
  assumes "ring \<noteq> []" "distinct ring"
  shows "set ring = insert (last ring) (set (butlast ring))" "last ring \<notin> set (butlast ring)"
    "distinct (butlast ring)"
  using assms by (metis append_butlast_last_id distinct_append distinct_butlast empty_set
      insert_is_Un list.simps(15) set_append sup_commute disjoint_insert(1) Int_commute list.set_intros(1)
      disjoint_iff)+

lemma drop_root_proper:
  assumes "proper (Node t ring l r)"
  shows "chunks (drop_root (Node t ring l r)) = chunks (Node t ring l r) - {t} \<and>
    proper (drop_root (Node t ring l r))"
proof -
  have dj: "insert t (set ring) \<inter> chunks l = {}" "insert t (set ring) \<inter> chunks r = {}"
    "chunks l \<inter> chunks r = {}" "proper l" "proper r" "distinct ring" "t \<notin> set ring"
    using assms by simp_all
  show ?thesis
  proof (cases rule: drop_root_cases [of ring t l r])
    case ring
    note B = butlast_facts [OF ring(1) dj(6)]
    then have "chunks (Node t ring l r) - {t} = chunks (drop_root (Node t ring l r))"
      unfolding ring(2) using dj by auto
    moreover have "proper (drop_root (Node t ring l r))" unfolding ring(2) using dj B by auto
    ultimately show ?thesis by blast
  next
    case (right x xs r')
    note C = pop_leaf_chunks [OF right(3,2) dj(5)]
    show ?thesis unfolding right(4) using C dj right(1) by auto
  next
    case (left x xs l')
    note C = pop_leaf_chunks [OF left(4,3) dj(4)]
    show ?thesis unfolding left(5) using C dj left(1,2) by auto
  next
    case leaf
    then show ?thesis by simp
  qed
qed

lemma drop_root_steered:
  assumes "proper (Node t ring l r)" "steered z d (Node t ring l r)"
  shows "steered z d (drop_root (Node t ring l r))"
proof -
  have dj: "chunks l \<inter> chunks r = {}" "proper l" "proper r" "distinct ring"
    using assms(1) by simp_all
  have st: "steered z (Suc d) l" "steered z (Suc d) r"
    "\<And>q. q \<in> set ring \<Longrightarrow> z q = z t"
    "\<And>q. q \<in> chunks l \<Longrightarrow> \<not> turns_right d (z q) \<and> z q \<noteq> z t"
    "\<And>q. q \<in> chunks r \<Longrightarrow> turns_right d (z q) \<and> z q \<noteq> z t"
    using assms(2) by simp_all
  show ?thesis
  proof (cases rule: drop_root_cases [of ring t l r])
    case ring
    have "z (last ring) = z t" "\<And>q. q \<in> set (butlast ring) \<Longrightarrow> z q = z t"
      using st(3) ring(1) by (auto dest: in_set_butlastD)
    then show ?thesis unfolding ring(2) using st by simp
  next
    case (right x xs r')
    note C = pop_leaf_chunks [OF right(3,2) dj(3)] and S = pop_leaf_steered [OF right(3,2) dj(3) st(2)]
    have x: "x \<in> chunks r" "chunks r' \<subseteq> chunks r" using C by auto
    have "z q \<noteq> z x" if "q \<in> chunks l" for q using st(4) [OF that] st(5) [OF x(1)] by auto
    then show ?thesis unfolding right(4) using st S x by (simp add: subset_iff)
  next
    case (left x xs l')
    note C = pop_leaf_chunks [OF left(4,3) dj(2)] and S = pop_leaf_steered [OF left(4,3) dj(2) st(1)]
    have x: "x \<in> chunks l" "chunks l' \<subseteq> chunks l" using C by auto
    show ?thesis unfolding left(5) using st S x left(2) by (simp add: subset_iff)
  next
    case leaf
    then show ?thesis by simp
  qed
qed

lemma remove_chunk_absent: "X \<notin> chunks T \<Longrightarrow> remove_chunk X T = T"
  by (induction T) auto

lemma remove_chunk_proper:
  assumes "proper T"
  shows "chunks (remove_chunk X T) = chunks T - {X} \<and> proper (remove_chunk X T)"
  using assms
proof (induction T)
  case (Node t ring l r)
  have dj: "insert t (set ring) \<inter> chunks l = {}" "insert t (set ring) \<inter> chunks r = {}"
    "chunks l \<inter> chunks r = {}" "proper l" "proper r" "distinct ring" "t \<notin> set ring"
    using Node.prems by simp_all
  consider "X = t" | "X \<noteq> t" "X \<in> set ring" | "X \<noteq> t" "X \<notin> set ring" by blast
  then show ?case
  proof cases
    case 1
    then show ?thesis using drop_root_proper [OF Node.prems] by simp
  next
    case 2
    then show ?thesis using dj by (auto simp: set_remove1_eq)
  next
    case 3
    then show ?thesis using dj Node.IH by auto
  qed
qed simp

lemma remove_chunk_steered:
  assumes "proper T" "steered z d T"
  shows "steered z d (remove_chunk X T)"
  using assms
proof (induction T arbitrary: d)
  case (Node t ring l r)
  consider "X = t" | "X \<noteq> t" "X \<in> set ring" | "X \<noteq> t" "X \<notin> set ring" by blast
  then show ?case
  proof cases
    case 1
    then show ?thesis using drop_root_steered [OF Node.prems] by simp
  next
    case 2
    then show ?thesis using Node.prems by (simp add: notin_set_remove1)
  next
    case 3
    have "steered z (Suc d) (remove_chunk X l)" "steered z (Suc d) (remove_chunk X r)"
      using Node by simp_all
    with 3 Node.prems show ?thesis by (simp add: remove_chunk_proper)
  qed
qed simp


subsection \<open>Writes inside a set of nodes\<close>

text \<open>Only the links of the nodes \<open>N\<close> changed, not their sizes and indices.\<close>

definition inside :: "u64 \<Rightarrow> u64 set \<Rightarrow> 'w heap \<Rightarrow> 'w heap \<Rightarrow> bool" where
  "inside m N s s' \<longleftrightarrow>
     (\<forall>q. (\<forall>p \<in> N. far q p) \<longrightarrow> same_node s s' q) \<and>
     (\<forall>q \<in> N. index s' q = index s q \<and> chunksize s' q = chunksize s q) \<and>
     (\<forall>j < NTREEBINS. load s' (treebin_at m j) = load s (treebin_at m j)) \<and>
     (\<forall>j. treemap_is_marked s' j = treemap_is_marked s j) \<and> least_addr s' = least_addr s \<and>
     smallmap s' = smallmap s \<and> cells_same {} N s s'"

lemma inside_refl [simp]: "inside m N s s"
  by (simp add: inside_def)

lemma inside_set:
  assumes "inside m N s s'" "spread N" "p \<in> N" "outside_state m p"
  shows "inside m N s (set_fd p v s')" "inside m N s (set_bk p v s')"
    "inside m N s (set_parent p v s')" "i = 0 \<or> i = 1 \<Longrightarrow> inside m N s (set_child p i v s')"
  using assms
  by (auto simp: inside_def load_treebin_set node_cells [OF assms(2,3)] simp del: child_addrs)

definition ring_ok :: "'w heap \<Rightarrow> u64 \<Rightarrow> u64 list \<Rightarrow> bool" where
  "ring_ok s t ring \<longleftrightarrow> dlinks s t ring t \<and>
     (\<forall>q \<in> set ring. parent s q = 0 \<and> child s q 0 = 0 \<and> child s q 1 = 0 \<and> chunksize s q = chunksize s t)"

lemma tree_at_Node:
  "tree_at s p par (Node t ring l r) \<longleftrightarrow> p = t \<and> parent s t = par \<and> ring_ok s t ring \<and>
    tree_at s (child s t 0) t l \<and> tree_at s (child s t 1) t r"
  by (auto simp: ring_ok_def)

declare tree_at.simps(2) [simp del]

lemma ring_ok_frame:
  assumes "\<And>q. q \<in> insert t (set ring) \<Longrightarrow> same_node s s' q"
  shows "ring_ok s' t ring = ring_ok s t ring"
proof -
  note fields = same_node_fields [OF assms]
  have "dlinks s' t ring t = dlinks s t ring t" by (intro dlinks_frame) (simp_all add: fields)
  then show ?thesis using fields by (simp add: ring_ok_def)
qed

lemma ring_ok_fields:
  assumes "\<And>q. q \<in> insert t (set ring) \<Longrightarrow> fd s' q = fd s q \<and> bk s' q = bk s q \<and> chunksize s' q = chunksize s q"
    "\<And>q. q \<in> set ring \<Longrightarrow> parent s' q = parent s q \<and> child s' q 0 = child s q 0 \<and> child s' q 1 = child s q 1"
  shows "ring_ok s' t ring = ring_ok s t ring"
proof -
  have "dlinks s' t ring t = dlinks s t ring t" using assms by (intro dlinks_frame) simp_all
  then show ?thesis using assms by (simp add: ring_ok_def)
qed

lemma same_node_clear_child:
  "far q t \<Longrightarrow> i = 0 \<or> i = 1 \<Longrightarrow> same_node s (set_child t i v s') q = same_node s s' q"
  by auto

text \<open>The descent of \<open>unlink_large_chunk\<close> finds the leaf that \<open>pop_leaf\<close> takes.\<close>

lemma rightmost_leaf_pop:
  assumes "tree_at s p par T" "T \<noteq> Leaf" "proper T" "spread (chunks T)" "0 \<notin> chunks T"
    "pop_leaf T = (x, xs, T')"
  shows "\<exists>RP'. rightmost_leaf s p RP = Some (x, RP') \<and> ring_ok s x xs \<and> child s x 0 = 0 \<and> child s x 1 = 0 \<and>
    (if T' = Leaf then x = p \<and> RP' = RP
     else \<exists>q \<in> heads T'. \<exists>i. (i = 0 \<or> i = 1) \<and> RP' = child_addr q i \<and> tree_at (set_child q i 0 s) p par T')"
  using assms
proof (induction T arbitrary: p par RP x xs T')
  case (Node t ring l r)
  let ?N = "chunks (Node t ring l r)"
  have T: "p = t" "parent s t = par" "ring_ok s t ring" "tree_at s (child s t 0) t l"
    "tree_at s (child s t 1) t r"
    using Node.prems(1) unfolding tree_at_Node by auto
  have dj: "insert t (set ring) \<inter> chunks l = {}" "insert t (set ring) \<inter> chunks r = {}"
    "chunks l \<inter> chunks r = {}" "proper l" "proper r" "0 \<notin> chunks l" "0 \<notin> chunks r" "t \<noteq> 0"
    using Node.prems(3,5) by auto
  have sp: "spread (chunks l)" "spread (chunks r)"
    using Node.prems(4) by (auto intro: spread_subset)
  note far = spreadD [OF Node.prems(4)] and cells = node_cells [OF Node.prems(4)]
  have step: "rightmost_leaf s p RP =
      (if r \<noteq> Leaf then rightmost_leaf s (child s t 1) (child_addr t 1)
       else if l \<noteq> Leaf then rightmost_leaf s (child s t 0) (child_addr t 0) else Some (t, RP))"
    using tree_at_root [OF T(4) dj(6)] tree_at_root [OF T(5) dj(7)]
    by (subst rightmost_leaf.simps) (simp add: T(1))
  have clear_t: "tree_at (set_child t i 0 s) p par (Node t ring (if i = 0 then Leaf else l) (if i = 0 then r else Leaf))"
    if i: "i = 0 \<or> i = 1" for i
  proof -
    have "same_node s (set_child t i 0 s) q" if "q \<in> chunks l \<union> chunks r" for q
      using that dj i by (intro same_node_clear_child [THEN iffD2] far) auto
    then have "tree_at (set_child t i 0 s) (child s t 0) t l" "tree_at (set_child t i 0 s) (child s t 1) t r"
      using T(4,5) tree_at_frame [of l s "set_child t i 0 s"] tree_at_frame [of r s "set_child t i 0 s"] by auto
    moreover have "ring_ok (set_child t i 0 s) t ring"
      using T(3) Node.prems(3) i by (subst ring_ok_fields) (auto simp: cells)
    ultimately show ?thesis using i T(1,2) by (auto simp: tree_at_Node cells)
  qed
  show ?case
    using Node.prems(6)
  proof (cases rule: pop_leaf_cases)
    case (right r')
    obtain RP' where R: "rightmost_leaf s (child s t 1) (child_addr t 1) = Some (x, RP')" "ring_ok s x xs"
      "child s x 0 = 0" "child s x 1 = 0"
      "if r' = Leaf then x = child s t 1 \<and> RP' = child_addr t 1
       else \<exists>q \<in> heads r'. \<exists>i. (i = 0 \<or> i = 1) \<and> RP' = child_addr q i \<and>
         tree_at (set_child q i 0 s) (child s t 1) t r'"
      using Node.IH(2) [OF T(5) right(1) dj(5) sp(2) dj(7) right(2)] by blast
    have "\<exists>q \<in> heads T'. \<exists>i. (i = 0 \<or> i = 1) \<and> RP' = child_addr q i \<and> tree_at (set_child q i 0 s) p par T'"
    proof (cases "r' = Leaf")
      case True
      then show ?thesis
        using R(5) clear_t [of 1] right(1) unfolding right(3) by (intro bexI [of _ t] exI [of _ 1]) auto
    next
      case False
      then obtain q i where q: "q \<in> heads r'" "i = 0 \<or> i = 1" "RP' = child_addr q i"
        "tree_at (set_child q i 0 s) (child s t 1) t r'" using R(5) by auto
      have qc: "q \<in> chunks r"
        using q(1) heads_chunks [of r'] pop_leaf_chunks [OF right(2) right(1) dj(5)] by auto
      have same: "same_node s (set_child q i 0 s) q'" if "q' \<in> insert t (set ring) \<union> chunks l" for q'
        using that qc dj q(2) by (intro same_node_clear_child [THEN iffD2] far) auto
      have rk: "ring_ok (set_child q i 0 s) t ring = ring_ok s t ring"
        by (rule ring_ok_frame, rule same) blast
      have "tree_at (set_child q i 0 s) p par T'"
        using T(1-3) T(4) q(4) rk
          same_node_fields(4-6) [OF same [of t]] tree_at_frame [of l s, OF same]
        unfolding right(3) tree_at_Node by simp
      moreover have "q \<in> heads T'" using q(1) by (simp add: right(3))
      ultimately show ?thesis using q(2,3) by blast
    qed
    moreover have "T' \<noteq> Leaf" using right(3) by simp
    ultimately show ?thesis using step right(1) R(1-4) by (intro exI [of _ RP']) simp
  next
    case (left l')
    obtain RP' where R: "rightmost_leaf s (child s t 0) (child_addr t 0) = Some (x, RP')" "ring_ok s x xs"
      "child s x 0 = 0" "child s x 1 = 0"
      "if l' = Leaf then x = child s t 0 \<and> RP' = child_addr t 0
       else \<exists>q \<in> heads l'. \<exists>i. (i = 0 \<or> i = 1) \<and> RP' = child_addr q i \<and>
         tree_at (set_child q i 0 s) (child s t 0) t l'"
      using Node.IH(1) [OF T(4) left(2) dj(4) sp(1) dj(6) left(3)] by blast
    have "\<exists>q \<in> heads T'. \<exists>i. (i = 0 \<or> i = 1) \<and> RP' = child_addr q i \<and> tree_at (set_child q i 0 s) p par T'"
    proof (cases "l' = Leaf")
      case True
      then show ?thesis
        using R(5) clear_t [of 0] left(1,2) unfolding left(4) by (intro bexI [of _ t] exI [of _ 0]) auto
    next
      case False
      then obtain q i where q: "q \<in> heads l'" "i = 0 \<or> i = 1" "RP' = child_addr q i"
        "tree_at (set_child q i 0 s) (child s t 0) t l'" using R(5) by auto
      have qc: "q \<in> chunks l"
        using q(1) heads_chunks [of l'] pop_leaf_chunks [OF left(3) left(2) dj(4)] by auto
      have same: "same_node s (set_child q i 0 s) q'" if "q' \<in> insert t (set ring) \<union> chunks r" for q'
        using that qc dj q(2) by (intro same_node_clear_child [THEN iffD2] far) auto
      have rk: "ring_ok (set_child q i 0 s) t ring = ring_ok s t ring"
        by (rule ring_ok_frame, rule same) blast
      have "tree_at (set_child q i 0 s) p par T'"
        using T(1-3) T(5) q(4) rk
          same_node_fields(4-6) [OF same [of t]] tree_at_frame [of r s, OF same]
        unfolding left(4) tree_at_Node by simp
      moreover have "q \<in> heads T'" using q(1) by (simp add: left(4))
      ultimately show ?thesis using q(2,3) by blast
    qed
    moreover have "T' \<noteq> Leaf" using left(4) by simp
    ultimately show ?thesis using step left(1,2) R(1-4) by (intro exI [of _ RP']) simp
  next
    case leaf
    show ?thesis using step leaf T dj by auto
  qed
qed simp

end
