(* ===== verification/TreeUnlink.thy ===== *)
theory TreeUnlink
  imports TreeStore
begin

text \<open>
  Unlinking from the tree bins: the ring or leaf that replaces a chunk, the links from the
  parent and to the children that pass to it, and the trie that is left.
\<close>

subsection \<open>The replacement\<close>

text \<open>The chunk \<open>R\<close> is ready to take the place of \<open>X\<close>, with the ring and subtrees of \<open>T\<close>.\<close>

definition replaces :: "'w heap \<Rightarrow> u64 \<Rightarrow> u64 \<Rightarrow> trie \<Rightarrow> bool" where
  "replaces s X R T \<longleftrightarrow>
     (case T of
        Leaf \<Rightarrow> R = 0
      | Node t xs l r \<Rightarrow> R = t \<and> ring_ok s R xs \<and> child s R 0 = 0 \<and> child s R 1 = 0 \<and>
          tree_at s (child s X 0) X l \<and> tree_at s (child s X 1) X r)"

lemma rotate_ring:
  assumes "dlinks s t ring t" "ring \<noteq> []"
  shows "dlinks s (last ring) (t # butlast ring) (last ring)"
proof -
  obtain bs R where ring: "ring = bs @ [R]" using assms(2) by (metis append_butlast_last_id)
  then show ?thesis using assms(1) by (simp add: dlinks_append)
qed

lemma ring_unlink:
  assumes "dlinks s B (xs @ p # ys) B" "distinct (B # xs @ p # ys)" "spread N" "set (B # xs @ p # ys) \<subseteq> N"
  shows "dlinks (set_fd (bk s p) (fd s p) (set_bk (fd s p) (bk s p) s)) B (xs @ ys) B"
    "bk s (fd s p) = p" "fd s (bk s p) = p" "fd s p \<in> set (B # xs @ ys)" "bk s p \<in> set (B # xs @ ys)"
proof -
  show "dlinks (set_fd (bk s p) (fd s p) (set_bk (fd s p) (bk s p) s)) B (xs @ ys) B"
    using assms(2,4) by (intro dlinks_unlink [OF spread_apart [OF assms(3)] _ _ _ assms(1)]) auto
  have d: "dlinks s B xs p" "dlinks s p ys B" using assms(1) by (simp_all add: dlinks_append)
  show "bk s (fd s p) = p" by (rule dlinks_bk_hd [OF d(2)])
  show "fd s (bk s p) = p" by (rule dlinks_fd_last [OF d(1)])
  show "fd s p \<in> set (B # xs @ ys)" using dlinks_members(1) [OF d(2)] by auto
  show "bk s p \<in> set (B # xs @ ys)" using dlinks_members(2) [OF d(1)] by auto
qed

lemma replacement_below:
  assumes c: "c = 0 \<and> c' = 1 \<or> c = 1 \<and> c' = (0 :: u64)"
    and S: "tree_at s (child s X c) X S" "S \<noteq> Leaf" "pop_leaf S = (x, xs, S')" "proper S"
    and Q: "tree_at s (child s X c') X Q"
    and sp: "spread (insert X (chunks S \<union> chunks Q))" and dj: "X \<notin> chunks S" "X \<notin> chunks Q" "chunks S \<inter> chunks Q = {}"
    and tc: "\<And>q. q \<in> insert X (chunks S \<union> chunks Q) \<Longrightarrow> tree_chunk m s q"
  shows "\<exists>RP. rightmost_leaf s (child s X c) (child_addr X c) = Some (x, RP) \<and> ok_address s RP \<and>
    inside m (insert X (chunks S \<union> chunks Q)) s (store RP 0 s) \<and> parent (store RP 0 s) X = parent s X \<and>
    ring_ok (store RP 0 s) x xs \<and> child (store RP 0 s) x 0 = 0 \<and> child (store RP 0 s) x 1 = 0 \<and>
    tree_at (store RP 0 s) (child (store RP 0 s) X c) X S' \<and>
    tree_at (store RP 0 s) (child (store RP 0 s) X c') X Q"
proof -
  let ?N = "insert X (chunks S \<union> chunks Q)"
  have z: "0 \<notin> chunks S" using tc by (auto simp: tree_chunk_def)
  have spS: "spread (chunks S)" using sp by (auto intro: spread_subset)
  note P = pop_leaf_chunks [OF S(3,2,4)]
  note far = spreadD [OF sp] and cells = node_cells [OF sp]
  obtain RP where RP: "rightmost_leaf s (child s X c) (child_addr X c) = Some (x, RP)" "ring_ok s x xs"
    "child s x 0 = 0" "child s x 1 = 0"
    "if S' = Leaf then x = child s X c \<and> RP = child_addr X c
     else \<exists>q \<in> heads S'. \<exists>i. (i = 0 \<or> i = 1) \<and> RP = child_addr q i \<and> tree_at (set_child q i 0 s) (child s X c) X S'"
    using rightmost_leaf_pop [OF S(1,2,4) spS z S(3)] by blast
  obtain q i where q: "RP = child_addr q i" "i = 0 \<or> i = 1" "S' = Leaf \<and> q = X \<and> i = c \<or>
      q \<in> heads S' \<and> tree_at (set_child q i 0 s) (child s X c) X S'"
    using RP(5) c by (cases "S' = Leaf") auto
  define s1 where "s1 = set_child q i 0 s"
  have s1: "store RP 0 s = s1" by (simp add: s1_def q(1) set_child_def)
  have qN: "q \<in> ?N" "q \<notin> insert x (set xs) \<union> chunks Q" using q(3) heads_chunks [of S'] P dj by auto
  have same: "same_node s s1 q'" if "q' \<in> ?N" "q' \<noteq> q" for q'
    using that qN(1) q(2) unfolding s1_def by (intro same_node_clear_child [THEN iffD2] far) auto
  have "ok_address s RP" using tree_chunkD(4,5) [OF tc [OF qN(1)]] q(1,2) by auto
  moreover have "inside m ?N s s1"
    unfolding s1_def by (rule inside_set(4) [OF inside_refl sp qN(1) tree_chunkD(2) [OF tc [OF qN(1)]] q(2)])
  moreover have "parent s1 X = parent s X"
    using cells(28,36) [OF qN(1), of X] q(2) by (auto simp: s1_def cells)
  moreover have "ring_ok s1 x xs"
    using RP(2) same P qN(2) by (subst ring_ok_frame) auto
  moreover have "child s1 x 0 = 0" "child s1 x 1 = 0"
    using same_node_fields(4,5) [OF same [of x]] RP(3,4) P qN(2) by auto
  moreover have "tree_at s1 (child s1 X c) X S'"
    using q(3)
  proof
    assume "S' = Leaf \<and> q = X \<and> i = c"
    then show ?thesis using c by (auto simp: s1_def cells)
  next
    assume q': "q \<in> heads S' \<and> tree_at (set_child q i 0 s) (child s X c) X S'"
    then have "q \<noteq> X" using heads_chunks [of S'] P dj by auto
    then have "child s1 X c = child s X c" using same_node_fields(4,5) [OF same [of X]] c by auto
    then show ?thesis using q' by (simp add: s1_def)
  qed
  moreover have "tree_at s1 (child s1 X c') X Q"
  proof -
    have "child s1 X c' = child s X c'"
    proof (cases "q = X")
      case True
      then have "i = c" using q(3) heads_chunks [of S'] P dj by auto
      then show ?thesis using c True by (auto simp: s1_def cells)
    next
      case False
      then show ?thesis using c same_node_fields(4,5) [OF same [of X]] by auto
    qed
    moreover have "tree_at s1 (child s X c') X Q = tree_at s (child s X c') X Q"
      by (rule tree_at_frame, rule same) (use qN(2) in auto)
    ultimately show ?thesis using Q by simp
  qed
  ultimately show ?thesis unfolding s1 [symmetric] using RP(1) by blast
qed

lemma unlink_replacement:
  assumes T: "tree_at s X par (Node X ring l r)" and pr: "proper (Node X ring l r)"
    and sp: "spread (chunks (Node X ring l r))"
    and tc: "\<And>q. q \<in> chunks (Node X ring l r) \<Longrightarrow> tree_chunk m s q"
  shows "\<exists>R s1. unlink_large_replacement X s = Some (R, s1) \<and> inside m (chunks (Node X ring l r)) s s1 \<and>
    parent s1 X = par \<and> replaces s1 X R (drop_root (Node X ring l r))"
proof -
  let ?N = "chunks (Node X ring l r)"
  have X: "parent s X = par" "ring_ok s X ring" "tree_at s (child s X 0) X l" "tree_at s (child s X 1) X r"
    using T unfolding tree_at_Node by auto
  have dj: "insert X (set ring) \<inter> chunks l = {}" "insert X (set ring) \<inter> chunks r = {}"
    "chunks l \<inter> chunks r = {}" "proper l" "proper r" "distinct ring" "X \<notin> set ring"
    using pr by simp_all
  have z: "0 \<notin> ?N" using tc by (auto simp: tree_chunk_def)
  then have z: "0 \<notin> chunks l" "0 \<notin> chunks r" by simp_all
  have spl: "spread (chunks l)" "spread (chunks r)" using sp by (auto intro: spread_subset)
  note far = spreadD [OF sp] and cells = node_cells [OF sp]
  have out: "outside_state m q" if "q \<in> ?N" for q using tree_chunkD(2) [OF tc [OF that]] .
  have alone: "bk s X = X" if "ring = []" using X(2) that by (simp add: ring_ok_def)
  have roots: "child s X 0 = 0 \<longleftrightarrow> l = Leaf" "child s X 1 = 0 \<longleftrightarrow> r = Leaf"
    using tree_at_root [OF X(3) z(1)] tree_at_root [OF X(4) z(2)] by simp_all
  show ?thesis
  proof (cases rule: drop_root_cases [of ring X l r])
    case ring
    let ?F = "fd s X" and ?R = "last ring"
    note rot = rotate_ring [OF _ ring(1), of s X]
    have d: "dlinks s ?R ([] @ X # butlast ring) ?R" using X(2) rot by (simp add: ring_ok_def)
    have sub: "set (?R # [] @ X # butlast ring) \<subseteq> ?N" "distinct (?R # [] @ X # butlast ring)"
      using butlast_facts [OF ring(1) dj(6)] dj(7) ring(1) by auto
    note U = ring_unlink [OF d sub(2) sp sub(1)]
    have R: "bk s X = ?R" using d by simp
    have FN: "?F \<in> set ring" using U(4) ring(1) by (auto dest: in_set_butlastD)
    have RN: "?R \<in> set ring" using ring(1) by simp
    let ?s = "set_fd ?R ?F (set_bk ?F ?R s)"
    have "unlink_large_replacement X s = Some (?R, ?s)"
    proof -
      have "?R \<noteq> X" "ok_address s ?F" using RN FN dj(7) tree_chunkD(1) [OF tc] by auto
      moreover have "bk s ?F = X" "fd s ?R = X" using U(2,3) by (simp_all only: R)
      ultimately show ?thesis unfolding unlink_large_replacement_def Let_def R by simp
    qed
    moreover have "inside m ?N s ?s"
      using FN RN by (intro inside_set(1,2) inside_refl sp out) auto
    moreover have "replaces ?s X ?R (drop_root (Node X ring l r))"
    proof -
      have same: "same_node s ?s q" if "q \<in> chunks l \<union> chunks r" for q
      proof -
        have "far q ?F" "far q ?R" using that FN RN dj by (intro far; auto)+
        then show ?thesis by simp
      qed
      have "dlinks ?s ?R (butlast ring) ?R" using U(1) R by simp
      then have "ring_ok ?s ?R (butlast ring)"
        using X(2) FN RN sub(1) by (auto simp: ring_ok_def cells dest: in_set_butlastD)
      then show ?thesis
        unfolding ring(2) replaces_def trie.case using X(2-4) FN RN same
        by (simp add: cells ring_ok_def tree_at_frame [of l s ?s] tree_at_frame [of r s ?s])
    qed
    moreover have "parent ?s X = par" using X(1) FN RN by (simp add: cells)
    ultimately show ?thesis by blast
  next
    case (right x xs r')
    have N: "?N = insert X (chunks r \<union> chunks l)" using right(1) by auto
    obtain RP where RP: "rightmost_leaf s (child s X 1) (child_addr X 1) = Some (x, RP)" "ok_address s RP"
      "inside m ?N s (store RP 0 s)" "parent (store RP 0 s) X = parent s X" "ring_ok (store RP 0 s) x xs"
      "child (store RP 0 s) x 0 = 0" "child (store RP 0 s) x 1 = 0"
      "tree_at (store RP 0 s) (child (store RP 0 s) X 1) X r'"
      "tree_at (store RP 0 s) (child (store RP 0 s) X 0) X l"
      using replacement_below [of 1 0 s X r x xs r' l m] X(4) X(3) right(2) right(3) dj(5) sp tc dj unfolding N by auto
    have "unlink_large_replacement X s = Some (x, store RP 0 s)"
      using alone [OF right(1)] roots right(2) RP(1,2) by (simp add: unlink_large_replacement_def)
    then show ?thesis using RP X(1) unfolding right(4) replaces_def by auto
  next
    case (left x xs l')
    have N: "?N = insert X (chunks l \<union> chunks r)" using left(1) by auto
    obtain RP where RP: "rightmost_leaf s (child s X 0) (child_addr X 0) = Some (x, RP)" "ok_address s RP"
      "inside m ?N s (store RP 0 s)" "parent (store RP 0 s) X = parent s X" "ring_ok (store RP 0 s) x xs"
      "child (store RP 0 s) x 0 = 0" "child (store RP 0 s) x 1 = 0"
      "tree_at (store RP 0 s) (child (store RP 0 s) X 0) X l'"
      "tree_at (store RP 0 s) (child (store RP 0 s) X 1) X r"
      using replacement_below [of 0 1 s X l x xs l' r m] X(3) X(4) left(3) left(4) dj(4) sp tc dj unfolding N by auto
    have "unlink_large_replacement X s = Some (x, store RP 0 s)"
      using alone [OF left(1)] roots left(3) left(2) RP(1,2) by (simp add: unlink_large_replacement_def)
    then show ?thesis using RP X(1) unfolding left(5) replaces_def by auto
  next
    case leaf
    then show ?thesis using alone roots X(1)
      by (intro exI [of _ 0] exI [of _ s]) (simp add: unlink_large_replacement_def replaces_def)
  qed
qed

subsection \<open>Handing over the children\<close>

lemma tree_at_reparent:
  assumes "tree_at s p par T" "T \<noteq> Leaf" "proper T" "spread (chunks T)"
  shows "tree_at (set_parent p par' s) p par' T"
proof -
  obtain ring l r where T: "T = Node p ring l r" using assms(1,2) by (cases T) (auto simp: tree_at_Node)
  let ?s = "set_parent p par' s"
  have X: "ring_ok s p ring" "tree_at s (child s p 0) p l" "tree_at s (child s p 1) p r"
    using assms(1) unfolding T tree_at_Node by auto
  note cells = after_set_parent [OF assms(4)] and far = spreadD [OF assms(4)]
  have p: "p \<in> chunks T" by (simp add: T)
  have same: "same_node s ?s q" if "q \<in> chunks l \<union> chunks r" for q
  proof -
    have "far q p" using that assms(3) by (intro far) (auto simp: T)
    then show ?thesis by simp
  qed
  have "ring_ok ?s p ring"
    using X(1) assms(3) p by (subst ring_ok_fields) (auto simp: cells T)
  then show ?thesis
    using X(2,3) same p unfolding T tree_at_Node
    by (simp add: cells T tree_at_frame [of l s ?s] tree_at_frame [of r s ?s])
qed

text \<open>The replacement \<open>R\<close> adopts one subtree of \<open>X\<close>.\<close>

lemma adopt_child_tree:
  assumes i: "i = 0 \<or> i = (1 :: u64)" and sp: "spread N" and N: "X \<in> N" "R \<in> N" "chunks l \<subseteq> N"
    and tc: "\<And>q. q \<in> N \<Longrightarrow> tree_chunk m s q" and pr: "proper l" "R \<notin> chunks l"
    and l: "tree_at s (child s X i) X l" and R: "child s R i = 0"
  shows "\<exists>s'. adopt_child X R i s = Some s' \<and> tree_at s' (child s' R i) R l \<and> inside m N s s' \<and>
    (\<forall>q \<in> N - insert R (chunks l). same_node s s' q) \<and>
    parent s' R = parent s R \<and> fd s' R = fd s R \<and> bk s' R = bk s R \<and>
    (\<forall>j. (j = 0 \<or> j = 1) \<and> j \<noteq> i \<longrightarrow> child s' R j = child s R j)"
proof (cases "l = Leaf")
  case True
  then show ?thesis using l R by (simp add: adopt_child_def)
next
  case False
  let ?C = "child s X i"
  let ?s1 = "set_child R i ?C s"
  let ?s = "set_parent ?C R ?s1"
  have C: "?C \<in> chunks l" using l False by (cases l) (auto simp: tree_at_Node)
  then have CN: "?C \<in> N" and CR: "?C \<noteq> R" using N(3) pr(2) by blast+
  have z: "?C \<noteq> 0" "ok_address s ?C" using tc [OF CN] by (simp_all add: tree_chunkD)
  note cells = node_cells [OF sp] and far = spreadD [OF sp]
  have spl: "spread (chunks l)" using spread_subset [OF sp N(3)] .
  have same1: "same_node s ?s1 q" if "q \<in> N" "q \<noteq> R" for q
    using that N(2) i by (intro same_node_clear_child [THEN iffD2] far) auto
  have "tree_at ?s1 ?C X l"
    using l same1 pr(2) N(3) by (subst tree_at_frame [of l s]) auto
  then have "tree_at ?s ?C R l" by (rule tree_at_reparent [OF _ False pr(1) spl])
  moreover have "child ?s R i = ?C" using i CN N(2) by (auto simp: cells)
  moreover have "inside m N s ?s"
    using sp N(2) CN i tree_chunkD(2) [OF tc] by (intro inside_set(3,4) inside_refl) auto
  moreover have "same_node s ?s q" if "q \<in> N - insert R (chunks l)" for q
  proof -
    have "far q ?C" using that C CN by (intro far) auto
    then show ?thesis using same1 [of q] that by simp
  qed
  moreover have "parent ?s R = parent s R \<and> fd ?s R = fd s R \<and> bk ?s R = bk s R"
    using i
  proof (rule disjE)
    assume "i = 0"
    then show ?thesis using CN N(2) CR by (simp add: cells)
  next
    assume "i = 1"
    then show ?thesis using CN N(2) CR by (simp add: cells)
  qed
  moreover have "child ?s R j = child s R j" if j: "(j = 0 \<or> j = 1) \<and> j \<noteq> i" for j
  proof -
    consider "i = 0" "j = 1" | "i = 1" "j = 0" using i j by blast
    then show ?thesis using CN N(2) by cases (simp_all add: cells)
  qed
  moreover have "adopt_child X R i s = Some ?s" using z by (simp add: adopt_child_def Let_def)
  ultimately show ?thesis by (intro exI [of _ ?s] conjI ballI allI impI; (elim conjE)?; assumption?; auto)
qed

lemma inside_trans:
  assumes "inside m N s s'" "inside m N s' s''"
  shows "inside m N s s''"
  using assms unfolding inside_def by (auto intro: same_node_trans cells_same_trans)

lemma inside_tree_chunk: "inside m N s s' \<Longrightarrow> tree_chunk m s' q = tree_chunk m s q"
  by (rule tree_chunk_frame) (simp add: inside_def)

text \<open>The replacement takes the place of \<open>X\<close> below \<open>XP\<close>.\<close>

definition hand_over :: "u64 \<Rightarrow> u64 \<Rightarrow> u64 \<Rightarrow> 'w heap \<Rightarrow> 'w heap option" where
  "hand_over X XP R s =
     (if R \<noteq> 0 then
        if ok_address s R then
          do {
            s \<leftarrow> adopt_child X R 0 (set_parent R XP s);
            adopt_child X R 1 s
          }
        else None
      else Some s)"

lemma hand_over_tree:
  assumes rp: "replaces s X R T" and sp: "spread N" and N: "X \<in> N" "chunks T \<subseteq> N - {X}"
    and tc: "\<And>q. q \<in> N \<Longrightarrow> tree_chunk m s q" and pr: "proper T"
  shows "\<exists>s'. hand_over X XP R s = Some s' \<and> tree_at s' R XP T \<and> inside m N s s'"
proof (cases T)
  case Leaf
  then show ?thesis using rp by (simp add: replaces_def hand_over_def)
next
  case (Node t xs l r)
  then have R: "R = t" "ring_ok s R xs" "child s R 0 = 0" "child s R 1 = 0"
    "tree_at s (child s X 0) X l" "tree_at s (child s X 1) X r"
    using rp unfolding replaces_def Node trie.case by blast+
  have dj: "insert R (set xs) \<inter> chunks l = {}" "insert R (set xs) \<inter> chunks r = {}"
    "chunks l \<inter> chunks r = {}" "proper l" "proper r" "R \<notin> set xs"
    using pr by (simp_all add: Node R(1))
  have sub: "R \<in> N" "set xs \<subseteq> N" "chunks l \<subseteq> N" "chunks r \<subseteq> N" "X \<noteq> R" "X \<notin> set xs" "X \<notin> chunks l" "X \<notin> chunks r"
    using N(2) by (auto simp: Node R(1))
  note cells = node_cells [OF sp] and far = spreadD [OF sp]
  define s0 where "s0 = set_parent R XP s"
  have in0: "inside m N s s0"
    unfolding s0_def using sp sub(1) tree_chunkD(2) [OF tc] by (intro inside_set(3) inside_refl) auto
  have same0: "same_node s s0 q" if "q \<in> N" "q \<noteq> R" for q
  proof -
    have "far q R" using that sub(1) by (intro far)
    then show ?thesis by (simp add: s0_def)
  qed
  have tc0: "tree_chunk m s0 q" if "q \<in> N" for q using tc [OF that] inside_tree_chunk [OF in0] by blast
  have X0: "child s0 X 0 = child s X 0" "child s0 X 1 = child s X 1"
    using same_node_fields(4,5) [OF same0 [OF N(1) sub(5)]] .
  have R0: "ring_ok s0 R xs" "child s0 R 0 = 0" "child s0 R 1 = 0" "parent s0 R = XP"
    "tree_at s0 (child s0 X 0) X l" "tree_at s0 (child s0 X 1) X r"
  proof -
    show "ring_ok s0 R xs" using R(2) sub dj(6) by (subst ring_ok_fields) (auto simp: s0_def cells)
    show "child s0 R 0 = 0" "child s0 R 1 = 0" "parent s0 R = XP" using R(3,4) sub by (simp_all add: s0_def cells)
    show "tree_at s0 (child s0 X 0) X l" "tree_at s0 (child s0 X 1) X r"
      using R(5,6) same0 sub dj unfolding X0
      by (subst tree_at_frame [of _ s]; auto)+
  qed
  obtain s1 where s1: "adopt_child X R 0 s0 = Some s1" "tree_at s1 (child s1 R 0) R l" "inside m N s0 s1"
    "\<And>q. q \<in> N - insert R (chunks l) \<Longrightarrow> same_node s0 s1 q"
    "parent s1 R = parent s0 R" "fd s1 R = fd s0 R" "bk s1 R = bk s0 R" "child s1 R 1 = child s0 R 1"
    using adopt_child_tree [OF _ sp N(1) sub(1,3) tc0 dj(4) _ R0(5,2)] dj(1) by auto
  have tc1: "tree_chunk m s1 q" if "q \<in> N" for q using tc0 [OF that] inside_tree_chunk [OF s1(3)] by blast
  have r1: "tree_at s1 (child s1 X 1) X r"
  proof -
    have "child s1 X 1 = child s0 X 1" using same_node_fields(5) [OF s1(4) [of X]] N(1) sub by simp
    moreover have "tree_at s1 (child s0 X 1) X r = tree_at s0 (child s0 X 1) X r"
      by (rule tree_at_frame, rule s1(4)) (use sub dj in blast)
    ultimately show ?thesis using R0(6) by simp
  qed
  have "child s1 R 1 = 0" using s1(8) R0(3) by simp
  then obtain s2 where s2: "adopt_child X R 1 s1 = Some s2" "tree_at s2 (child s2 R 1) R r" "inside m N s1 s2"
    "\<And>q. q \<in> N - insert R (chunks r) \<Longrightarrow> same_node s1 s2 q"
    "parent s2 R = parent s1 R" "fd s2 R = fd s1 R" "bk s2 R = bk s1 R" "child s2 R 0 = child s1 R 0"
    using adopt_child_tree [OF _ sp N(1) sub(1,4) tc1 dj(5) _ r1] dj(2) by auto
  have "tree_at s2 (child s2 R 0) R l"
  proof -
    have "tree_at s2 (child s1 R 0) R l = tree_at s1 (child s1 R 0) R l"
      by (rule tree_at_frame, rule s2(4)) (use sub dj in blast)
    then show ?thesis using s1(2) by (simp add: s2(8))
  qed
  moreover have "ring_ok s2 R xs"
  proof -
    have "same_node s0 s2 q" if "q \<in> set xs" for q
      by (rule same_node_trans [OF s1(4) s2(4)]) (use that sub dj in blast)+
    note f = same_node_fields [OF this]
    have z: "chunksize s2 R = chunksize s0 R" using s1(3) s2(3) sub(1) by (simp add: inside_def)
    have "ring_ok s2 R xs = ring_ok s0 R xs"
      using s1 s2 f z by (intro ring_ok_fields) auto
    then show ?thesis using R0(1) by blast
  qed
  moreover have "parent s2 R = XP" using R0(4) s1(5) s2(5) by simp
  ultimately have "tree_at s2 R XP T" using s2(2) by (simp add: Node R(1) [symmetric] tree_at_Node)
  moreover have "hand_over X XP R s = Some s2"
    using tree_chunkD(1,3) [OF tc [OF sub(1)]] s1(1) s2(1) by (simp add: hand_over_def s0_def)
  ultimately show ?thesis using inside_trans [OF in0 inside_trans [OF s1(3) s2(3)]] by blast
qed

subsection \<open>Where a node hangs\<close>

text \<open>All of the node \<open>q\<close> but its child \<open>i\<close> is as before.\<close>

definition same_but_child :: "'w heap \<Rightarrow> 'w heap \<Rightarrow> u64 \<Rightarrow> u64 \<Rightarrow> bool" where
  "same_but_child s s' q i \<longleftrightarrow> fd s' q = fd s q \<and> bk s' q = bk s q \<and> chunksize s' q = chunksize s q \<and>
     parent s' q = parent s q \<and> child s' q (1 - i) = child s q (1 - i)"

text \<open>
  The node \<open>X\<close> below the root hangs from its parent, and a tree without \<open>X\<close> in its place
  there makes the whole a tree without \<open>X\<close>.
\<close>

definition hangs :: "'w heap \<Rightarrow> u64 \<Rightarrow> u64 \<Rightarrow> trie \<Rightarrow> u64 \<Rightarrow> u64 \<Rightarrow> trie \<Rightarrow> bool" where
  "hangs s p par T X i U \<longleftrightarrow>
     U \<noteq> Leaf \<and> trie_root U = X \<and> tree_at s X (parent s X) U \<and> proper U \<and>
     chunks U \<subseteq> chunks T - {parent s X} \<and> parent s X \<in> heads T \<and> (i = 0 \<or> i = 1) \<and>
     child s (parent s X) i = X \<and> child s (parent s X) (1 - i) \<noteq> X \<and>
     (\<forall>s'. (\<forall>q \<in> chunks T - insert (parent s X) (chunks U). same_node s s' q) \<longrightarrow>
        same_but_child s s' (parent s X) i \<longrightarrow>
        tree_at s' (child s' (parent s X) i) (parent s X) (drop_root U) \<longrightarrow>
        tree_at s' p par (remove_chunk X T))"

lemma tree_at_cases:
  assumes "tree_at s p par T" "T \<noteq> Leaf"
  obtains ring l r where "T = Node p ring l r" "parent s p = par" "ring_ok s p ring"
    "tree_at s (child s p 0) p l" "tree_at s (child s p 1) p r"
  using assms by (cases T) (auto simp: tree_at_Node)

lemma hangs_in:
  assumes "tree_at s p par T" "X \<in> heads T" "X \<noteq> p" "proper T" "0 \<notin> chunks T"
  shows "\<exists>i U. hangs s p par T X i U"
  using assms
proof (induction T arbitrary: p par)
  case (Node t ring l r)
  have T: "p = t" "parent s t = par" "ring_ok s t ring" "tree_at s (child s t 0) t l"
    "tree_at s (child s t 1) t r"
    using Node.prems(1) unfolding tree_at_Node by auto
  have Xt: "X \<noteq> t" using Node.prems(3) T(1) by simp
  have dj: "insert t (set ring) \<inter> chunks l = {}" "insert t (set ring) \<inter> chunks r = {}"
    "chunks l \<inter> chunks r = {}" "proper l" "proper r" "t \<notin> set ring" "0 \<notin> chunks l" "0 \<notin> chunks r" "t \<noteq> 0"
    using Node.prems(4,5) by auto
  obtain i :: u64 and S S' where i: "i = 0 \<and> S = l \<and> S' = r \<or> i = 1 \<and> S = r \<and> S' = l" and XS: "X \<in> heads S"
    using Node.prems(2) Xt by auto
  define B where "B A = (if i = 0 then Node t ring A S' else Node t ring S' A)" for A
  have S: "tree_at s (child s t i) t S" "tree_at s (child s t (1 - i)) t S'" "proper S" "0 \<notin> chunks S"
    "insert t (set ring) \<inter> chunks S = {}" "insert t (set ring) \<inter> chunks S' = {}" "chunks S \<inter> chunks S' = {}"
    "0 \<notin> chunks S'" "chunks (Node t ring l r) = insert t (set ring) \<union> chunks S \<union> chunks S'"
    "heads S \<subseteq> heads (Node t ring l r)"
    using i T dj by auto
  have XS': "X \<in> chunks S" "X \<notin> chunks S'" "X \<notin> set ring" "X \<noteq> 0"
    using XS heads_chunks [of S] S by auto
  have i': "i = 0 \<or> i = 1" using i by auto
  have removed: "remove_chunk X (Node t ring l r) = B (remove_chunk X S)"
    using i Xt XS' by (auto simp: B_def remove_chunk_absent)
  have other: "child s t (1 - i) \<noteq> X"
    using S(2) XS' by (cases S') (auto simp: tree_at_Node)
  have build: "tree_at s' p par (B A)"
    if a: "tree_at s' (child s' t i) t A" "same_but_child s s' t i"
      and b: "\<And>q. q \<in> set ring \<union> chunks S' \<Longrightarrow> same_node s s' q" for s' A
  proof -
    have "tree_at s' (child s' t (1 - i)) t S'"
      using S(2) a(2) b tree_at_frame [of S' s s'] by (simp add: same_but_child_def)
    moreover have "ring_ok s' t ring"
    proof -
      note f = same_node_fields [OF b, OF UnI1]
      have "ring_ok s' t ring = ring_ok s t ring"
        using a(2) f by (intro ring_ok_fields) (auto simp: same_but_child_def)
      then show ?thesis using T(3) by blast
    qed
    moreover have "parent s' t = par" using T(2) a(2) by (simp add: same_but_child_def)
    ultimately show ?thesis using a(1) i' T(1) by (auto simp: B_def tree_at_Node)
  qed
  show ?case
  proof (cases "child s t i = X")
    case True
    have ne: "S \<noteq> Leaf" using XS by auto
    obtain xs a b where U: "S = Node X xs a b" "parent s X = t"
      using tree_at_cases [OF S(1) ne] True by metis
    have rm: "remove_chunk X S = drop_root S" by (simp add: U(1))
    have "hangs s p par (Node t ring l r) X i S"
      unfolding hangs_def U(2) removed rm
    proof (intro conjI allI impI)
      show "S \<noteq> Leaf" "trie_root S = X" by (simp_all add: U(1))
      show "tree_at s X t S" using S(1) by (simp add: True)
      show "chunks S \<subseteq> chunks (Node t ring l r) - {t}" using S by blast
      show "tree_at s' p par (B (drop_root S))"
        if "\<forall>q \<in> chunks (Node t ring l r) - insert t (chunks S). same_node s s' q"
          "same_but_child s s' t i" "tree_at s' (child s' t i) t (drop_root S)" for s'
        using that S(6,7,9) S(5) dj(6) by (intro build) auto
    qed (use i' S True other in auto)
    then show ?thesis by blast
  next
    case False
    then have "\<exists>j U. hangs s (child s t i) t S X j U"
      using Node.IH(1) [of "child s t i" t] Node.IH(2) [of "child s t i" t] i S XS by auto
    then obtain j U where H: "U \<noteq> Leaf \<and> trie_root U = X \<and> tree_at s X (parent s X) U \<and> proper U"
      "chunks U \<subseteq> chunks S - {parent s X}" "parent s X \<in> heads S" "j = 0 \<or> j = 1"
      "child s (parent s X) j = X" "child s (parent s X) (1 - j) \<noteq> X"
      "\<And>s'. (\<forall>q \<in> chunks S - insert (parent s X) (chunks U). same_node s s' q) \<Longrightarrow>
        same_but_child s s' (parent s X) j \<Longrightarrow>
        tree_at s' (child s' (parent s X) j) (parent s X) (drop_root U) \<Longrightarrow>
        tree_at s' (child s t i) t (remove_chunk X S)"
      unfolding hangs_def by blast
    have XP: "parent s X \<in> chunks S" using H(3) heads_chunks by blast
    have "hangs s p par (Node t ring l r) X j U"
      unfolding hangs_def removed
    proof (intro conjI allI impI)
      show "chunks U \<subseteq> chunks (Node t ring l r) - {parent s X}" "parent s X \<in> heads (Node t ring l r)"
        using H(2,3) S(9,10) by blast+
      show "tree_at s' p par (B (remove_chunk X S))"
        if h: "\<forall>q \<in> chunks (Node t ring l r) - insert (parent s X) (chunks U). same_node s s' q"
          "same_but_child s s' (parent s X) j"
          "tree_at s' (child s' (parent s X) j) (parent s X) (drop_root U)" for s'
      proof (rule build)
        have out: "same_node s s' q" if "q \<in> insert t (set ring) \<union> chunks S'" for q
          using that h(1) S(5-7,9) H(2) XP by blast
        then show "\<And>q. q \<in> set ring \<union> chunks S' \<Longrightarrow> same_node s s' q" by blast
        note f = same_node_fields [OF out [of t]]
        show "same_but_child s s' t i" using f i' by (auto simp: same_but_child_def)
        have "tree_at s' (child s t i) t (remove_chunk X S)"
          using h(1) S(9) by (intro H(7) h(2,3)) blast
        moreover have "child s' t i = child s t i" using f i' by auto
        ultimately show "tree_at s' (child s' t i) t (remove_chunk X S)" by simp
      qed
    qed (use H in auto)
    then show ?thesis by blast
  qed
qed simp

subsection \<open>Chunks of a ring\<close>

text \<open>A chunk of a ring that is not its head is unlinked from the ring only.\<close>

lemma ring_member_tree:
  assumes "tree_at s p par T" "X \<in> chunks T" "X \<notin> heads T" "proper T" "spread (chunks T)"
  shows "parent s X = 0 \<and> bk s X \<noteq> X \<and> fd s X \<in> chunks T \<and> bk s X \<in> chunks T \<and> bk s (fd s X) = X \<and>
    fd s (bk s X) = X \<and>
    tree_at (set_fd (bk s X) (fd s X) (set_bk (fd s X) (bk s X) s)) p par (remove_chunk X T)"
  using assms
proof (induction T arbitrary: p par)
  case (Node t ring l r)
  let ?N = "chunks (Node t ring l r)"
  let ?s = "set_fd (bk s X) (fd s X) (set_bk (fd s X) (bk s X) s)"
  have T: "p = t" "parent s t = par" "ring_ok s t ring" "tree_at s (child s t 0) t l"
    "tree_at s (child s t 1) t r"
    using Node.prems(1) unfolding tree_at_Node by auto
  have Xt: "X \<noteq> t" using Node.prems(3) by simp
  have dj: "insert t (set ring) \<inter> chunks l = {}" "insert t (set ring) \<inter> chunks r = {}"
    "chunks l \<inter> chunks r = {}" "proper l" "proper r" "t \<notin> set ring" "distinct ring"
    using Node.prems(4) by auto
  note cells = node_cells [OF Node.prems(5)] and far = spreadD [OF Node.prems(5)]
  have frame: "tree_at ?s q t A = tree_at s q t A"
    if "chunks A \<subseteq> ?N" "bk s X \<in> ?N" "fd s X \<in> ?N" "bk s X \<notin> chunks A" "fd s X \<notin> chunks A" for q A
  proof (rule tree_at_frame)
    fix x assume "x \<in> chunks A"
    then have "far x (bk s X)" "far x (fd s X)" using that by (intro far; auto)+
    then show "same_node s ?s x" by simp
  qed
  consider "X \<in> set ring" | "X \<in> chunks l" "X \<notin> set ring" | "X \<in> chunks r" "X \<notin> set ring" "X \<notin> chunks l"
    using Node.prems(2) Xt by auto
  then show ?case
  proof cases
    case 1
    then obtain xs ys where ring: "ring = xs @ X # ys" "X \<notin> set xs" by (meson split_list_first)
    have rm: "remove1 X ring = xs @ ys" using ring by (simp add: remove1_append)
    have d: "dlinks s t (xs @ X # ys) t" using T(3) by (simp add: ring_ok_def ring(1))
    have N: "set (t # xs @ X # ys) \<subseteq> ?N" "distinct (t # xs @ X # ys)" using dj by (auto simp: ring(1))
    note U = ring_unlink [OF d N(2) Node.prems(5) N(1)]
    have sub: "fd s X \<in> insert t (set ring)" "bk s X \<in> insert t (set ring)"
      using U(4,5) by (auto simp: ring(1))
    then have FN: "fd s X \<in> ?N" "bk s X \<in> ?N" by auto
    have "bk s X \<noteq> X" using U(5) N(2) by auto
    moreover have "ring_ok ?s t (xs @ ys)"
      using U(1) T(3) FN ring by (auto simp: ring_ok_def cells)
    moreover have "child ?s t i = child s t i" if "i = 0 \<or> i = 1" for i
      using that FN by (auto simp: cells)
    moreover have "tree_at ?s (child s t 0) t l" "tree_at ?s (child s t 1) t r"
      using T(4,5) sub dj(1,2) FN by (subst frame; auto)+
    moreover have "parent ?s t = par" "parent s X = 0"
      using T(2,3) FN 1 by (simp_all add: cells ring_ok_def)
    ultimately show ?thesis
      using T(1) Xt 1 U(2,3) FN by (simp add: rm tree_at_Node)
  next
    case 2
    have sp: "spread (chunks l)" using Node.prems(5) by (rule spread_subset) auto
    have Xr: "X \<notin> chunks r" using 2 dj by auto
    note IH = Node.IH(1) [OF T(4) 2(1) _ dj(4) sp]
    have IH: "parent s X = 0" "bk s X \<noteq> X" "fd s X \<in> chunks l" "bk s X \<in> chunks l"
      "bk s (fd s X) = X" "fd s (bk s X) = X" "tree_at ?s (child s t 0) t (remove_chunk X l)"
      using IH Node.prems(3) by auto
    then have FN: "fd s X \<in> ?N" "bk s X \<in> ?N" by auto
    have nt: "t \<noteq> fd s X" "t \<noteq> bk s X" "\<And>q. q \<in> set ring \<Longrightarrow> q \<noteq> fd s X \<and> q \<noteq> bk s X" using IH dj by auto
    have "ring_ok ?s t ring" using T(3) nt FN by (subst ring_ok_fields) (auto simp: cells)
    moreover have "tree_at ?s (child s t 1) t r"
      using T(5) IH(3,4) dj(3) FN by (subst frame) auto
    ultimately show ?thesis
      using T(1,2) Xt 2 IH FN by (simp add: tree_at_Node cells remove_chunk_absent [OF Xr])
  next
    case 3
    have sp: "spread (chunks r)" using Node.prems(5) by (rule spread_subset) auto
    note IH = Node.IH(2) [OF T(5) 3(1) _ dj(5) sp]
    have IH: "parent s X = 0" "bk s X \<noteq> X" "fd s X \<in> chunks r" "bk s X \<in> chunks r"
      "bk s (fd s X) = X" "fd s (bk s X) = X" "tree_at ?s (child s t 1) t (remove_chunk X r)"
      using IH Node.prems(3) by auto
    then have FN: "fd s X \<in> ?N" "bk s X \<in> ?N" by auto
    have nt: "t \<noteq> fd s X" "t \<noteq> bk s X" "\<And>q. q \<in> set ring \<Longrightarrow> q \<noteq> fd s X \<and> q \<noteq> bk s X" using IH dj by auto
    have "ring_ok ?s t ring" using T(3) nt FN by (subst ring_ok_fields) (auto simp: cells)
    moreover have "tree_at ?s (child s t 0) t l"
      using T(4) IH(3,4) dj(3) FN by (subst frame) auto
    ultimately show ?thesis
      using T(1,2) Xt 3 IH FN by (simp add: tree_at_Node cells remove_chunk_absent [OF 3(3)])
  qed
qed simp

lemma unlink_large_relink_eq:
  "unlink_large_relink m X XP R s =
     (if XP = 0 then Some s
      else
        let H = treebin_at m (index s X) in
        do {
          s \<leftarrow> (if X = load s H then
                 let s = store H R s
                 in Some (if R = 0 then clear_treemap (index s X) s else s)
               else if ok_address s XP then
                 Some (if child s XP 0 = X then set_child XP 0 R s else set_child XP 1 R s)
               else None);
          hand_over X XP R s
        })"
  by (simp add: unlink_large_relink_def hand_over_def Let_def)

lemma replaces_frame:
  assumes "replaces s X R T" "\<And>q. q \<in> insert X (chunks T) \<Longrightarrow> same_node s s' q"
  shows "replaces s' X R T"
proof (cases T)
  case (Node t xs l r)
  have N: "R = t" using assms(1) unfolding replaces_def Node by simp
  have "ring_ok s' R xs = ring_ok s R xs" by (rule ring_ok_frame, rule assms(2)) (auto simp: Node N)
  moreover have "tree_at s' c X l = tree_at s c X l" "tree_at s' c X r = tree_at s c X r" for c
    by (rule tree_at_frame, rule assms(2), simp add: Node)+
  ultimately show ?thesis
    using assms(1) same_node_fields(4,5) [OF assms(2) [of X]] same_node_fields(4,5) [OF assms(2) [of R]]
    by (simp add: replaces_def Node N)
qed (use assms in \<open>simp add: replaces_def\<close>)

lemma inside_mono:
  assumes "inside m N s s'" "N \<subseteq> M" "spread M"
  shows "inside m M s s'"
proof -
  have "index s' q = index s q \<and> chunksize s' q = chunksize s q" if "q \<in> M" for q
  proof (cases "q \<in> N")
    case False
    then have "\<forall>p \<in> N. far q p" using spreadD [OF assms(3) that] assms(2) by blast
    then have "same_node s s' q" using assms(1) by (simp add: inside_def)
    then show ?thesis by (simp add: same_node_fields)
  qed (use assms(1) in \<open>simp add: inside_def\<close>)
  moreover have "same_node s s' q" if "\<forall>p \<in> M. far q p" for q
    using assms(1,2) that unfolding inside_def by blast
  ultimately show ?thesis using assms(1) cells_same_mono [OF _ order_refl assms(2), of "{}" s s'] by (simp add: inside_def)
qed

lemma inside_small:
  assumes "inside m N s s'" "\<And>q. q \<in> N \<Longrightarrow> outside_state m q"
  shows "small_same m s s'"
proof (rule small_same_nodes)
  show "same_node s s' (smallbin_at m j)" if "j < 32" for j
    using assms(1) header_far [OF that assms(2)] by (simp add: inside_def)
qed (use assms(1) in \<open>simp add: inside_def\<close>)

lemma inside_only_nodes:
  assumes "inside m N s s'" "\<And>q. q \<in> N \<Longrightarrow> outside_state m q"
  shows "only_nodes m i N s s'"
  using assms(1) inside_small [OF assms] by (auto simp: only_nodes_def inside_def intro: cells_same_mono)

lemma inside_same_node:
  assumes "inside m N s s'" "spread M" "N \<subseteq> M" "q \<in> M" "q \<notin> N"
  shows "same_node s s' q"
  using assms(1) spreadD [OF assms(2,4)] assms(3,5) unfolding inside_def by blast

subsection \<open>Unlinking from one tree\<close>

lemma drop_root_Leaf: "proper (Node t ring l r) \<Longrightarrow> drop_root (Node t ring l r) = Leaf \<longleftrightarrow> ring = [] \<and> l = Leaf \<and> r = Leaf"
  by (auto split: prod.splits)

lemma replaces_Leaf:
  assumes "replaces s X R T" "0 \<notin> chunks T"
  shows "R = 0 \<longleftrightarrow> T = Leaf"
  using assms by (cases T) (auto simp: replaces_def)

text \<open>The three ways in which a chunk leaves the tree of its bin.\<close>

lemma unlink_large_member:
  assumes T: "tree_at s p par T" "X \<in> chunks T" "X \<notin> heads T" "proper T" "spread (chunks T)"
    and tc: "\<And>q. q \<in> chunks T \<Longrightarrow> tree_chunk m s q"
  shows "\<exists>s'. unlink_large_chunk m X s = Some s' \<and> inside m (chunks T) s s' \<and>
    tree_at s' p par (remove_chunk X T)"
proof -
  note R = ring_member_tree [OF T]
  let ?s = "set_fd (bk s X) (fd s X) (set_bk (fd s X) (bk s X) s)"
  have FN: "fd s X \<in> chunks T" "bk s X \<in> chunks T" using R by auto
  have "unlink_large_replacement X s = Some (bk s X, ?s)"
    using R tree_chunkD(1) [OF tc [OF FN(1)]] by (simp add: unlink_large_replacement_def Let_def)
  then have "unlink_large_chunk m X s = Some ?s"
    using R by (simp add: unlink_large_chunk_def unlink_large_relink_def)
  moreover have "inside m (chunks T) s ?s"
    using FN T(5) tree_chunkD(2) [OF tc] by (intro inside_set(1,2) inside_refl) auto
  ultimately show ?thesis using R by blast
qed

lemma unlink_large_inner:
  assumes T: "tree_at s p par T" "X \<in> heads T" "X \<noteq> p" "proper T" "spread (chunks T)"
    and tc: "\<And>q. q \<in> chunks T \<Longrightarrow> tree_chunk m s q"
    and bin: "index s X < 32" "load s (treebin_at m (index s X)) = p"
  shows "\<exists>s'. unlink_large_chunk m X s = Some s' \<and> inside m (chunks T) s s' \<and>
    tree_at s' p par (remove_chunk X T)"
proof -
  let ?XP = "parent s X" and ?H = "treebin_at m (index s X)"
  have z: "0 \<notin> chunks T" using tc by (auto simp: tree_chunk_def)
  have X: "X \<in> chunks T" using T(2) heads_chunks by blast
  obtain i U where H: "U \<noteq> Leaf" "trie_root U = X" "tree_at s X ?XP U" "proper U"
    "chunks U \<subseteq> chunks T - {?XP}" "?XP \<in> heads T" "i = 0 \<or> i = 1" "child s ?XP i = X"
    "child s ?XP (1 - i) \<noteq> X"
    "\<And>s'. (\<forall>q \<in> chunks T - insert ?XP (chunks U). same_node s s' q) \<Longrightarrow>
      same_but_child s s' ?XP i \<Longrightarrow> tree_at s' (child s' ?XP i) ?XP (drop_root U) \<Longrightarrow>
      tree_at s' p par (remove_chunk X T)"
    using hangs_in [OF T(1-4) z] unfolding hangs_def by blast
  obtain ring l r where U: "U = Node X ring l r" using H(1,2) by (cases U) auto
  let ?N = "chunks U" and ?U = "drop_root U"
  have XP: "?XP \<in> chunks T" "?XP \<notin> ?N" "?XP \<noteq> 0" using H(5,6) heads_chunks [of T] z by auto
  have sub: "?N \<subseteq> chunks T" using H(5) by blast
  have spU: "spread ?N" by (rule spread_subset [OF T(5) sub])
  have tcU: "tree_chunk m s q" if "q \<in> ?N" for q using that sub tc by blast
  obtain R s1 where R: "unlink_large_replacement X s = Some (R, s1)" "inside m ?N s s1"
    "parent s1 X = ?XP" "replaces s1 X R ?U"
    using unlink_replacement [of s X ?XP ring l r m] H(3,4) spU tcU unfolding U by auto
  define s2 where "s2 = set_child ?XP i R s1"
  have same1: "same_node s s1 q" if "q \<in> chunks T" "q \<notin> ?N" for q
    by (rule inside_same_node [OF R(2) T(5) sub that])
  have same2: "same_node s1 s2 q" if "q \<in> chunks T" "q \<noteq> ?XP" for q
    using spreadD [OF T(5) that(1) XP(1) that(2)] H(7) unfolding s2_def
    by (intro same_node_clear_child [THEN iffD2]) auto
  have XPout: "outside_state m ?XP" by (rule tree_chunkD(2) [OF tc [OF XP(1)]])
  have in1: "inside m (chunks T) s s1" by (rule inside_mono [OF R(2) sub T(5)])
  have in2: "inside m (chunks T) s1 s2"
    unfolding s2_def by (rule inside_set(4) [OF inside_refl T(5) XP(1) XPout H(7)])
  have tc2: "tree_chunk m s2 q" if "q \<in> ?N" for q
    using tcU [OF that] inside_tree_chunk [OF inside_trans [OF in1 in2]] by blast
  have dU: "chunks ?U = ?N - {X}" "proper ?U"
    using drop_root_proper H(4) unfolding U by blast+
  have rp: "replaces s2 X R ?U"
    by (rule replaces_frame [OF R(4)], rule same2) (use dU(1) sub XP X U in auto)
  have XU: "X \<in> ?N" by (simp add: U)
  obtain s3 where s3: "hand_over X ?XP R s2 = Some s3" "tree_at s3 R ?XP ?U" "inside m ?N s2 s3"
    using hand_over_tree [OF rp spU XU equalityD1 [OF dU(1)] tc2 dU(2), of ?XP] by blast
  have in3: "inside m (chunks T) s2 s3" by (rule inside_mono [OF s3(3) sub T(5)])
  have same3: "same_node s2 s3 q" if "q \<in> chunks T" "q \<notin> ?N" for q
    by (rule inside_same_node [OF s3(3) T(5) sub that])
  have idx: "index s1 X = index s X" using in1 X by (simp add: inside_def)
  have "load s1 ?H \<noteq> X" using in1 bin T(3) by (simp add: inside_def)
  moreover have "ok_address s1 ?XP"
    using tree_chunkD(1) [OF tc [OF XP(1)]] in1 by (simp add: inside_def ok_address_def)
  moreover have "(if child s1 ?XP 0 = X then set_child ?XP 0 R s1 else set_child ?XP 1 R s1) = s2"
    using H(7-9) same_node_fields(4) [OF same1 [OF XP(1,2)]] unfolding s2_def by auto
  ultimately have "unlink_large_relink m X ?XP R s1 = Some s3"
    using XP(3) s3(1) by (auto simp: unlink_large_relink_eq Let_def idx)
  then have "unlink_large_chunk m X s = Some s3" using R(1) by (simp add: unlink_large_chunk_def)
  moreover have "inside m (chunks T) s s3" using inside_trans [OF inside_trans [OF in1 in2] in3] .
  moreover have "tree_at s3 p par (remove_chunk X T)"
  proof (rule H(10))
    show "\<forall>q \<in> chunks T - insert ?XP ?N. same_node s s3 q"
      using same_node_trans [OF same_node_trans [OF same1 same2] same3] by blast
    have f: "fd s2 ?XP = fd s1 ?XP" "bk s2 ?XP = bk s1 ?XP" "chunksize s2 ?XP = chunksize s1 ?XP"
      "parent s2 ?XP = parent s1 ?XP" "child s2 ?XP (1 - i) = child s1 ?XP (1 - i)" "child s2 ?XP i = R"
      using H(7) XP(1) by (auto simp: s2_def node_cells [OF T(5)])
    note g = same_node_fields [OF same1 [OF XP(1,2)]] same_node_fields [OF same3 [OF XP(1,2)]]
    show "same_but_child s s3 ?XP i" using f(1-5) g H(7) by (auto simp: same_but_child_def)
    have "child s3 ?XP i = R" using f(6) g H(7) by auto
    then show "tree_at s3 (child s3 ?XP i) ?XP ?U" using s3(2) by simp
  qed
  ultimately show ?thesis by blast
qed

lemma unlink_large_root:
  assumes T: "tree_at s X (treebin_at m i) T" "T \<noteq> Leaf" "proper T" "spread (chunks T)"
    and tc: "\<And>q. q \<in> chunks T \<Longrightarrow> tree_chunk m s q"
    and bin: "i < 32" "index s X = i" "load s (treebin_at m i) = X" "treebin_at m i \<noteq> 0"
  shows "\<exists>s'. unlink_large_chunk m X s = Some s' \<and>
    tree_at s' (load s' (treebin_at m i)) (treebin_at m i) (remove_chunk X T) \<and>
    only_nodes m i (chunks T) s s' \<and>
    (\<forall>q \<in> chunks T. index s' q = index s q \<and> chunksize s' q = chunksize s q) \<and>
    (treemap_is_marked s' i \<longleftrightarrow> remove_chunk X T \<noteq> Leaf \<and> treemap_is_marked s i)"
proof -
  let ?H = "treebin_at m i" and ?N = "chunks T" and ?T = "drop_root T"
  obtain ring l r where U: "T = Node X ring l r" using T(1,2) by (cases T) (auto simp: tree_at_Node)
  have XN: "X \<in> ?N" and rm: "remove_chunk X T = ?T" and XP: "parent s X = ?H"
    using T(1) by (simp_all add: U tree_at_Node)
  obtain R s1 where R: "unlink_large_replacement X s = Some (R, s1)" "inside m ?N s s1"
    "parent s1 X = ?H" "replaces s1 X R ?T"
    using unlink_replacement [of s X ?H ring l r m] T tc unfolding U by auto
  have dT: "chunks ?T = ?N - {X}" "proper ?T" using drop_root_proper T(3) unfolding U by blast+
  have z: "0 \<notin> chunks ?T" using tc dT(1) by (auto simp: tree_chunk_def)
  have R0: "R = 0 \<longleftrightarrow> ?T = Leaf" by (rule replaces_Leaf [OF R(4) z])
  define s2 where "s2 = (if R = 0 then clear_treemap i (store ?H R s1) else store ?H R s1)"
  have same2: "same_node s1 s2 q" if "outside_state m q" for q
    using that by (simp add: s2_def same_node_treebin [OF bin(1)])
  have out: "outside_state m q" if "q \<in> ?N" for q using tc [OF that] tree_chunkD(2) by blast
  have least2: "least_addr s2 = least_addr s1" by (simp add: s2_def)
  have tc2: "tree_chunk m s2 q" if "q \<in> ?N" for q
    using tc [OF that] inside_tree_chunk [OF R(2)] tree_chunk_frame [OF least2] by blast
  have rp: "replaces s2 X R ?T"
    by (rule replaces_frame [OF R(4)], rule same2, rule out) (use dT(1) XN in auto)
  obtain s3 where s3: "hand_over X ?H R s2 = Some s3" "tree_at s3 R ?H ?T" "inside m ?N s2 s3"
    using hand_over_tree [OF rp T(4) XN equalityD1 [OF dT(1)] tc2 dT(2), of ?H] by blast
  have idx: "index s1 X = i" "load s1 ?H = X" using R(2) XN bin by (simp_all add: inside_def)
  have "same_node s1 (store ?H v s1) X" for v
    using same_node_treebin [OF bin(1) out [OF XN], of s1 v s1] by simp
  then have "index (store ?H v s1) X = i" for v using idx(1) same_node_fields(7) by metis
  then have "unlink_large_relink m X ?H R s1 = Some s3"
    using s3(1) bin(4) by (auto simp: unlink_large_relink_eq Let_def idx s2_def)
  then have run: "unlink_large_chunk m X s = Some s3" using R(1) by (simp add: unlink_large_chunk_def XP)
  have "load s2 ?H = R" by (simp add: s2_def load_store)
  then have "load s3 ?H = R" using s3(3) bin(1) by (simp add: inside_def)
  moreover have "same_node s s3 q" if q: "\<forall>p \<in> ?N. far q p" "outside_state m q" for q
  proof -
    have "same_node s s1 q" "same_node s2 s3 q" using R(2) s3(3) q(1) by (simp_all add: inside_def)
    then show ?thesis using same2 [OF q(2)] same_node_trans by blast
  qed
  moreover have "index s3 q = index s q \<and> chunksize s3 q = chunksize s q" if "q \<in> ?N" for q
    using R(2) s3(3) that same_node_fields(7,8) [OF same2 [OF out [OF that]]] by (simp add: inside_def)
  moreover have "load s3 (treebin_at m j) = load s (treebin_at m j) \<and>
      treemap_is_marked s3 j = treemap_is_marked s j" if "j < 32" "j \<noteq> i" for j
    using R(2) s3(3) that bin(1) by (simp add: inside_def s2_def load_store treebin_inj)
  moreover have "treemap_is_marked s3 i \<longleftrightarrow> ?T \<noteq> Leaf \<and> treemap_is_marked s i"
    using R(2) s3(3) bin(1) R0 by (simp add: inside_def s2_def)
  moreover have "least_addr s3 = least_addr s" using R(2) s3(3) least2 by (simp add: inside_def)
  moreover have "small_same m s s3"
    by (intro small_same_trans [OF inside_small [OF R(2) out]] small_same_trans [OF _ inside_small [OF s3(3) out]])
      (simp_all add: s2_def small_same_treebin [OF bin(1)])
  moreover have "cells_same {?H} ?N s s3"
  proof -
    have "cells_same {?H} ?N s s1" "cells_same {?H} ?N s2 s3"
      using R(2) s3(3) by (auto simp: inside_def intro: cells_same_mono)
    moreover have "cells_same {?H} ?N s1 s2" by (simp add: s2_def cells_same_store)
    ultimately show ?thesis using cells_same_trans by blast
  qed
  ultimately show ?thesis using run s3(2) unfolding rm only_nodes_def by (intro exI [of _ s3]) simp
qed

end
