(* ===== verification/Bins.thy ===== *)
theory Bins
  imports TreeUnlink
begin

text \<open>
  The bins as stores of free chunks: inserting into and unlinking from the tree bins keep
  their invariant and change the set of chunks of one size; \<open>insert_chunk\<close> and
  \<open>unlink_chunk\<close> do the same on small and tree bins together.
\<close>

subsection \<open>The tree bins\<close>

lemma only_nodes_bins:
  assumes inv: "tree_bins m Ts s" and i: "i < 32" and new: "tree_bin m s' i T"
    and T: "chunks T \<subseteq> insert X (chunks (Ts i))" "only_nodes m i (insert X (chunks (Ts i))) s s'"
    and X: "\<And>q. q \<in> tree_chunks Ts \<Longrightarrow> q \<noteq> X \<Longrightarrow> far q X" "\<And>j. j < 32 \<Longrightarrow> j \<noteq> i \<Longrightarrow> X \<notin> chunks (Ts j)"
  shows "tree_bins m (Ts(i := T)) s'"
    "\<And>j q. j < 32 \<Longrightarrow> j \<noteq> i \<Longrightarrow> q \<in> chunks (Ts j) \<Longrightarrow> same_node s s' q"
proof -
  show other: "same_node s s' q" if j: "j < 32" "j \<noteq> i" and q: "q \<in> chunks (Ts j)" for j q
  proof -
    have qT: "q \<in> tree_chunks Ts" using tree_binsD(7) [OF inv j(1)] q by blast
    have "far q X" using X(1) [OF qT] X(2) [OF j] q by blast
    moreover have "far q p" if "p \<in> chunks (Ts i)" for p
      using spreadD [OF tree_binsD(6) [OF inv i] qT] tree_binsD(7) [OF inv i] tree_binsD(8) [OF inv i j] that q
      by blast
    moreover have "outside_state m q" using tree_chunkD(2) [OF tree_chunks_outside [OF inv qT]] .
    ultimately show ?thesis using T(2) by (simp add: only_nodes_def)
  qed
  show "tree_bins m (Ts(i := T)) s'"
    using T(2) by (intro tree_bins_update [OF inv i new T(1) X] other) (auto simp: only_nodes_def)
qed

lemma insert_large_bins:
  assumes inv: "tree_bins m Ts s" and X: "tree_chunk m s X" "chunksize s X = S" "S < 2 ^ 40" "MIN_LARGE_SIZE \<le> S"
    and fresh: "\<And>q. q \<in> tree_chunks Ts \<Longrightarrow> far q X"
  defines "I \<equiv> compute_tree_index S"
  defines "T \<equiv> ins (chunksize s) (unat (leftshift_for_tree_index I)) X (Ts I)"
  shows "\<exists>s'. insert_large_chunk m X S s = Some s' \<and> tree_bins m (Ts(I := T)) s' \<and>
    (\<forall>q \<in> insert X (tree_chunks Ts). chunksize s' q = chunksize s q) \<and>
    only_nodes m I (insert X (chunks (Ts I))) s s'"
proof -
  have I: "I < 32" unfolding I_def by (rule compute_tree_index_less [OF X(3,4)])
  obtain s' where s': "insert_large_chunk m X S s = Some s'" "tree_bin m s' I T"
    "only_nodes m I (insert X (chunks (Ts I))) s s'"
    "\<And>q. q \<in> insert X (chunks (Ts I)) \<Longrightarrow> chunksize s' q = chunksize s q"
    using insert_large_tree [OF inv X(1,3,4,2) fresh] unfolding I_def T_def by blast
  have Xn: "X \<notin> chunks (Ts j)" if "j < 32" for j
    using fresh [of X] tree_binsD(7) [OF inv that] by auto
  have sub: "chunks T \<subseteq> insert X (chunks (Ts I))" by (simp add: T_def)
  note B = only_nodes_bins [OF inv I s'(2) sub s'(3) fresh Xn]
  have "chunksize s' q = chunksize s q" if q: "q \<in> insert X (tree_chunks Ts)" for q
  proof (cases "q \<in> insert X (chunks (Ts I))")
    case False
    then obtain j where "j < 32" "j \<noteq> I" "q \<in> chunks (Ts j)" using q by (auto simp: tree_chunks_def)
    then show ?thesis using same_node_fields(8) [OF B(2)] by blast
  qed (rule s'(4))
  then show ?thesis using s'(1,3) B(1) by blast
qed

lemma unlinked_bin:
  assumes inv: "tree_bins m Ts s" and i: "i < 32"
    and T: "tree_at s' (load s' (treebin_at m i)) (treebin_at m i) (remove_chunk X (Ts i))"
    and mark: "treemap_is_marked s' i \<longleftrightarrow> remove_chunk X (Ts i) \<noteq> Leaf"
    and z: "\<And>q. q \<in> chunks (Ts i) \<Longrightarrow> index s' q = index s q \<and> chunksize s' q = chunksize s q"
    and least: "least_addr s' = least_addr s"
  shows "tree_bin m s' i (remove_chunk X (Ts i))"
proof -
  note D = tree_binsD [OF inv i]
  have sub: "chunks (remove_chunk X (Ts i)) \<subseteq> chunks (Ts i)" "proper (remove_chunk X (Ts i))"
    using remove_chunk_proper [OF D(3)] by auto
  have "steered (chunksize s') d (remove_chunk X (Ts i)) = steered (chunksize s) d (remove_chunk X (Ts i))" for d
    using z sub(1) by (intro steered_cong) auto
  then have "steered (chunksize s') (unat (leftshift_for_tree_index i)) (remove_chunk X (Ts i))"
    using remove_chunk_steered [OF D(3,4)] by blast
  moreover have "tree_chunk m s' q \<and> index s' q = i \<and> compute_tree_index (chunksize s' q) = i"
    if "q \<in> chunks (remove_chunk X (Ts i))" for q
    using that sub(1) D(5) z tree_chunk_frame [OF least] by auto
  ultimately show ?thesis using T mark sub(2) by (simp add: tree_bin_def)
qed

lemma treebin_nonzero: "m \<le> - 936 \<Longrightarrow> i < 32 \<Longrightarrow> treebin_at m i \<noteq> 0"
proof
  assume m: "m \<le> - 936" and i: "i < 32" and "treebin_at m i = 0"
  then have "unat (- m) = 600 + 8 * unat i" using treebin_offset [OF i, of 0 m] by simp
  moreover have "unat i < 32" using i by (simp add: word_less_nat_alt)
  moreover have "unat m \<le> 2 ^ 64 - 936" using m by (simp add: word_le_nat_alt)
  ultimately show False using unat_neg [of m] by (cases "m = 0") auto
qed

lemma unlink_large_bins:
  assumes inv: "tree_bins m Ts s" and i: "i < 32" and X: "X \<in> chunks (Ts i)"
  shows "\<exists>s'. unlink_large_chunk m X s = Some s' \<and> tree_bins m (Ts(i := remove_chunk X (Ts i))) s' \<and>
    (\<forall>q \<in> tree_chunks Ts. chunksize s' q = chunksize s q) \<and> only_nodes m i (chunks (Ts i)) s s'"
proof -
  let ?T = "Ts i" and ?H = "treebin_at m i"
  let ?p = "load s ?H"
  note D = tree_binsD [OF inv i]
  have sp: "spread (chunks ?T)" by (rule spread_subset [OF D(6,7)])
  have tc: "tree_chunk m s q" if "q \<in> chunks ?T" for q using D(5) [OF that] by blast
  have out: "outside_state m q" if "q \<in> chunks ?T" for q using tree_chunkD(2) [OF tc [OF that]] .
  have ne: "?T \<noteq> Leaf" using X by auto
  have ix: "index s X = i" using D(5) [OF X] by blast
  have p: "?p \<noteq> 0" using tree_at_root [OF D(1)] ne tc by (auto simp: tree_chunk_def)
  have step: "\<exists>s'. unlink_large_chunk m X s = Some s' \<and> tree_bin m s' i (remove_chunk X ?T) \<and>
    only_nodes m i (chunks ?T) s s' \<and> (\<forall>q \<in> chunks ?T. chunksize s' q = chunksize s q)"
    if "\<exists>s'. unlink_large_chunk m X s = Some s' \<and> inside m (chunks ?T) s s' \<and> tree_at s' ?p ?H (remove_chunk X ?T)"
  proof -
    from that obtain s' where s': "unlink_large_chunk m X s = Some s'" "inside m (chunks ?T) s s'"
      "tree_at s' ?p ?H (remove_chunk X ?T)" by blast
    have "remove_chunk X ?T \<noteq> Leaf" using s'(3) p by auto
    then have "tree_bin m s' i (remove_chunk X ?T)"
      using s'(2,3) D(2) ne i by (intro unlinked_bin [OF inv i]) (auto simp: inside_def)
    then show ?thesis using s' inside_only_nodes [OF s'(2) out] by (auto simp: inside_def)
  qed
  have "\<exists>s'. unlink_large_chunk m X s = Some s' \<and> tree_bin m s' i (remove_chunk X ?T) \<and>
    only_nodes m i (chunks ?T) s s' \<and> (\<forall>q \<in> chunks ?T. chunksize s' q = chunksize s q)"
  proof (cases "X \<in> heads ?T")
    case False
    then show ?thesis by (intro step unlink_large_member [OF D(1) X _ D(3) sp tc])
  next
    case True
    show ?thesis
    proof (cases "X = ?p")
      case False
      have "load s (treebin_at m (index s X)) = ?p" "index s X < 32" by (simp_all add: ix i)
      then show ?thesis by (intro step unlink_large_inner [OF D(1) True False D(3) sp tc])
    next
      case root: True
      have H: "?H \<noteq> 0" using inv i by (intro treebin_nonzero) (simp_all add: tree_bins_def)
      obtain s' where s': "unlink_large_chunk m X s = Some s'"
        "tree_at s' (load s' ?H) ?H (remove_chunk X ?T)" "only_nodes m i (chunks ?T) s s'"
        "\<And>q. q \<in> chunks ?T \<Longrightarrow> index s' q = index s q \<and> chunksize s' q = chunksize s q"
        "treemap_is_marked s' i \<longleftrightarrow> remove_chunk X ?T \<noteq> Leaf \<and> treemap_is_marked s i"
        using unlink_large_root [OF _ ne D(3) sp tc i ix root [symmetric] H] D(1) root by auto
      have "tree_bin m s' i (remove_chunk X ?T)"
        using s'(3,5) D(2) ne by (intro unlinked_bin [OF inv i s'(2) _ s'(4)]) (auto simp: only_nodes_def)
      then show ?thesis using s' by blast
    qed
  qed
  then obtain s' where s': "unlink_large_chunk m X s = Some s'" "tree_bin m s' i (remove_chunk X ?T)"
    "only_nodes m i (chunks ?T) s s'" "\<And>q. q \<in> chunks ?T \<Longrightarrow> chunksize s' q = chunksize s q" by blast
  have ins: "insert X (chunks ?T) = chunks ?T" using X by blast
  have "tree_bins m (Ts(i := remove_chunk X ?T)) s' \<and>
    (\<forall>j q. j < 32 \<longrightarrow> j \<noteq> i \<longrightarrow> q \<in> chunks (Ts j) \<longrightarrow> same_node s s' q)"
  proof -
    have a: "chunks (remove_chunk X ?T) \<subseteq> insert X (chunks ?T)"
      using remove_chunk_proper [OF D(3)] by auto
    have b: "only_nodes m i (insert X (chunks ?T)) s s'" using s'(3) by (simp only: ins)
    have c: "far q X" if "q \<in> tree_chunks Ts" "q \<noteq> X" for q
      using spreadD [OF D(6) that(1) _ that(2)] D(7) X by blast
    have d: "X \<notin> chunks (Ts j)" if "j < 32" "j \<noteq> i" for j using D(8) [OF that] X by blast
    show ?thesis using only_nodes_bins [OF inv i s'(2) a b c d] by blast
  qed
  then have B: "tree_bins m (Ts(i := remove_chunk X ?T)) s'"
    "\<And>j q. j < 32 \<Longrightarrow> j \<noteq> i \<Longrightarrow> q \<in> chunks (Ts j) \<Longrightarrow> same_node s s' q" by blast+
  have "chunksize s' q = chunksize s q" if q: "q \<in> tree_chunks Ts" for q
  proof (cases "q \<in> chunks ?T")
    case False
    then obtain j where "j < 32" "j \<noteq> i" "q \<in> chunks (Ts j)" using q by (auto simp: tree_chunks_def)
    then show ?thesis using same_node_fields(8) [OF B(2)] by blast
  qed (rule s'(4))
  then show ?thesis using s'(1,3) B(1) by blast
qed

subsection \<open>Small and tree bins together\<close>

text \<open>The chunks \<open>p\<close> of size \<open>S\<close> and \<open>q\<close> of size \<open>R\<close> have no byte in common.\<close>

definition no_overlap :: "u64 \<Rightarrow> u64 \<Rightarrow> u64 \<Rightarrow> u64 \<Rightarrow> bool" where
  "no_overlap p S q R \<longleftrightarrow> S \<le> q - p \<and> R \<le> p - q"

lemma no_overlap_sym: "no_overlap p S q R \<longleftrightarrow> no_overlap q R p S"
  by (auto simp: no_overlap_def)

lemma no_overlap_cell:
  assumes "no_overlap p S q R" "a < S" "b < R"
  shows "p + a \<noteq> q + b"
proof
  assume e: "p + a = q + b"
  then have d: "q - p = a - b" "p - q = b - a" by (simp_all add: algebra_simps)
  show False
  proof (cases "b \<le> a")
    case True
    then have "a - b \<le> a" by (simp add: word_le_nat_alt unat_sub)
    then have "S \<le> a" using assms(1) d by (auto simp: no_overlap_def intro: order_trans)
    then show False using assms(2) by simp
  next
    case False
    then have "b - a \<le> b" by (simp add: word_le_nat_alt unat_sub)
    then have "R \<le> b" using assms(1) d by (auto simp: no_overlap_def intro: order_trans)
    then show False using assms(3) by simp
  qed
qed

lemma no_overlap_mono: "no_overlap p S q R \<Longrightarrow> S' \<le> S \<Longrightarrow> R' \<le> R \<Longrightarrow> no_overlap p S' q R'"
  by (auto simp: no_overlap_def)

lemma far_no_overlap: "far p q \<longleftrightarrow> no_overlap p 64 q 64"
  by (auto simp: far_def no_overlap_def)

definition small_chunks :: "(u32 \<Rightarrow> u64 list) \<Rightarrow> u64 set" where
  "small_chunks L = (\<Union>i \<in> {i. i < NSMALLBINS}. set (L i))"

text \<open>A write to the links of the nodes \<open>M\<close> and to the marks of the small bins.\<close>

definition links_only :: "u64 set \<Rightarrow> 'w heap \<Rightarrow> 'w heap \<Rightarrow> bool" where
  "links_only M s s' \<longleftrightarrow>
     (\<forall>a. (\<forall>p \<in> M. a \<noteq> p + 16 \<and> a \<noteq> p + 24) \<longrightarrow> load s' a = load s a) \<and>
     treemap s' = treemap s \<and> least_addr s' = least_addr s \<and> same_scalars s s'"

lemma links_only_store:
  assumes "links_only M s s'" "p \<in> M"
  shows "links_only M s (set_fd p v s')" "links_only M s (set_bk p v s')"
  using assms by (auto simp: links_only_def set_field_defs load_store)

lemma smallmap_cells [simp]:
  "load (mark_smallmap i s) a = load s a" "load (clear_smallmap i s) a = load s a"
  "treemap (mark_smallmap i s) = treemap s" "treemap (clear_smallmap i s) = treemap s"
  by (simp_all add: load_def mark_smallmap_def clear_smallmap_def)

lemma links_only_maps [simp]:
  "links_only M s (mark_smallmap i s') = links_only M s s'"
  "links_only M s (clear_smallmap i s') = links_only M s s'"
  "links_only M s s"
  by (simp_all add: links_only_def)

lemma insert_small_links:
  assumes inv: "small_bins m L s" and S: "is_small S" and run: "insert_small_chunk m P S s = Some s'"
  shows "links_only (headers m \<union> small_chunks L \<union> {P}) s s'"
proof -
  let ?i = "small_index S" and ?M = "headers m \<union> small_chunks L \<union> {P}"
  let ?B = "smallbin_at m ?i"
  have i: "?i < 32" by (rule small_index_less [OF S])
  have B: "?B \<in> ?M" using i by (auto simp: headers_def)
  have "fd s ?B \<in> ?M" if "smallmap_is_marked s ?i"
    using small_binsD(1) [OF inv i] that i
    by (auto simp: small_bin_def small_chunks_def dest!: dlinks_hd_last(1) intro!: bexI [of _ ?i])
  then show ?thesis
    using run B by (auto simp: insert_small_chunk_def Let_def intro!: links_only_store split: if_splits)
qed

lemma unlink_small_links:
  assumes inv: "small_bins m L s" and S: "is_small S" and P: "P \<in> set (L (small_index S))"
    and run: "unlink_small_chunk m P S s = Some s'"
  shows "links_only (headers m \<union> small_chunks L) s s'"
proof -
  let ?i = "small_index S" and ?M = "headers m \<union> small_chunks L"
  let ?B = "smallbin_at m ?i"
  have i: "?i < 32" by (rule small_index_less [OF S])
  obtain xs ys where L: "L ?i = xs @ P # ys" using split_list [OF P] by blast
  have "dlinks s ?B xs P" "dlinks s P ys ?B"
    using small_binsD(1) [OF inv i] by (auto simp: small_bin_def L dlinks_append)
  then have "fd s P \<in> insert ?B (set (L ?i))" "bk s P \<in> insert ?B (set (L ?i))"
    using dlinks_members(1) [of s P ys ?B] dlinks_members(2) [of s ?B xs P] by (auto simp: L)
  moreover have "insert ?B (set (L ?i)) \<subseteq> ?M" using i by (auto simp: headers_def small_chunks_def)
  ultimately have "fd s P \<in> ?M" "bk s P \<in> ?M" by blast+
  then show ?thesis
    using run by (auto simp: unlink_small_chunk_def Let_def intro!: links_only_store split: if_splits)
qed

text \<open>Sizes the bins hold, and the invariant of all bins.\<close>

definition good_size :: "u64 \<Rightarrow> bool" where
  "good_size S \<longleftrightarrow> is_aligned S \<and> MIN_CHUNK_SIZE \<le> S \<and> S < 2 ^ 40"

text \<open>The chunk \<open>P\<close> of size \<open>S\<close> is clear of the state and of the end of the address space.\<close>

definition clear_of_state :: "u64 \<Rightarrow> u64 \<Rightarrow> u64 \<Rightarrow> bool" where
  "clear_of_state m P S \<longleftrightarrow> no_overlap m 936 P S \<and> S \<le> - 64 - P"

definition sized_chunk :: "u64 \<Rightarrow> 'w heap \<Rightarrow> u64 \<Rightarrow> u64 \<Rightarrow> bool" where
  "sized_chunk m s P S \<longleftrightarrow> tree_chunk m s P \<and> chunksize s P = S \<and> clear_of_state m P S"

definition bin_chunks :: "(u32 \<Rightarrow> u64 list) \<Rightarrow> (u32 \<Rightarrow> trie) \<Rightarrow> u64 set" where
  "bin_chunks L Ts = small_chunks L \<union> tree_chunks Ts"

definition bins_hold :: "u64 \<Rightarrow> (u32 \<Rightarrow> u64 list) \<Rightarrow> (u32 \<Rightarrow> trie) \<Rightarrow> 'w heap \<Rightarrow> bool" where
  "bins_hold m L Ts s \<longleftrightarrow>
     small_bins m L s \<and> tree_bins m Ts s \<and>
     (\<forall>i < NSMALLBINS. \<forall>p \<in> set (L i). is_small (chunksize s p) \<and> small_index (chunksize s p) = i) \<and>
     (\<forall>p \<in> tree_chunks Ts. \<not> is_small (chunksize s p)) \<and>
     (\<forall>p \<in> bin_chunks L Ts. tree_chunk m s p \<and> good_size (chunksize s p) \<and> clear_of_state m p (chunksize s p)) \<and>
     (\<forall>p \<in> bin_chunks L Ts. \<forall>q \<in> bin_chunks L Ts. p \<noteq> q \<longrightarrow> no_overlap p (chunksize s p) q (chunksize s q))"

text \<open>The free chunks of each size.\<close>

definition free_table :: "u64 \<Rightarrow> (u64 \<Rightarrow> u64 set) \<Rightarrow> 'w heap \<Rightarrow> bool" where
  "free_table m T s \<longleftrightarrow>
     (\<exists>L Ts. bins_hold m L Ts s \<and> T = (\<lambda>S. {p \<in> bin_chunks L Ts. chunksize s p = S}))"

lemma small_or_large: "is_small S \<longleftrightarrow> S < MIN_LARGE_SIZE"
  by (simp add: is_small_def word_less_nat_alt unat_drop_bit) arith

text \<open>Each kind of bin is left alone by the operations on the other.\<close>

definition link_node :: "u64 \<Rightarrow> u64 set \<Rightarrow> u64 \<Rightarrow> bool" where
  "link_node m N p \<longleftrightarrow> (\<exists>j < 32. p = smallbin_at m j) \<or>
     (outside_state m p \<and> (\<forall>q \<in> N. no_overlap p 32 q 64))"

lemma link_node_overlap:
  assumes "link_node m N p" "q \<in> N" "outside_state m q"
  shows "no_overlap p 32 q 64"
  using assms header_far [of _ m q] no_overlap_mono [of p 64 q 64 32 64] by (auto simp: link_node_def far_no_overlap)

lemma links_only_same_node:
  assumes "links_only M s s'" "\<And>p. p \<in> M \<Longrightarrow> link_node m N p" "q \<in> N" "outside_state m q"
  shows "same_node s s' q"
  unfolding same_node_def
proof (intro allI impI)
  fix a :: u64 assume a: "8 \<le> a" "a \<le> 56"
  have a: "a < 64" using a by (simp add: word_le_nat_alt word_less_nat_alt)
  have "q + a \<noteq> p + 16 \<and> q + a \<noteq> p + 24" if "p \<in> M" for p
    using no_overlap_cell [OF link_node_overlap [OF assms(2) [OF that] assms(3,4)] _ a, of 16]
      no_overlap_cell [OF link_node_overlap [OF assms(2) [OF that] assms(3,4)] _ a, of 24] by auto
  then show "load s' (q + a) = load s (q + a)" using assms(1) by (simp add: links_only_def)
qed

lemma links_only_tree_bins:
  assumes "tree_bins m Ts s" "links_only M s s'" "\<And>p. p \<in> M \<Longrightarrow> link_node m (tree_chunks Ts) p"
  shows "tree_bins m Ts s'"
proof -
  have "tree_bin m s' j (Ts j)" if j: "j < 32" for j
  proof -
    have "same_node s s' q" if "q \<in> chunks (Ts j)" for q
    proof -
      have "q \<in> tree_chunks Ts" using that tree_binsD(7) [OF assms(1) j] by blast
      then show ?thesis
        by (intro links_only_same_node [OF assms(2,3)] tree_chunkD(2) [OF tree_chunks_outside [OF assms(1)]])
    qed
    moreover have "treebin_at m j \<noteq> p + 16 \<and> treebin_at m j \<noteq> p + 24" if "p \<in> M" for p
    proof (cases "\<exists>k < 32. p = smallbin_at m k")
      case True
      then show ?thesis using header_cells [OF j] by (auto simp: eq_commute [of "treebin_at m j"])
    next
      case False
      then have "outside_state m p" using assms(3) [OF that] by (auto simp: link_node_def)
      then show ?thesis using treebin_not_cell [OF j, of m p 16] treebin_not_cell [OF j, of m p 24] by auto
    qed
    then have "load s' (treebin_at m j) = load s (treebin_at m j)"
      using assms(2) by (simp add: links_only_def)
    moreover have "treemap_is_marked s' j = treemap_is_marked s j" "least_addr s' = least_addr s"
      using assms(2) by (simp_all add: links_only_def treemap_is_marked_def)
    ultimately have "tree_bin m s' j (Ts j) = tree_bin m s j (Ts j)" by (intro tree_bin_frame)
    then show ?thesis using assms(1) j by (simp add: tree_bins_def)
  qed
  then show ?thesis using assms(1) by (simp add: tree_bins_def)
qed

lemma cells_same_small:
  assumes "cells_same {treebin_at m i} N s s'" "i < 32" "outside_state m p" "\<And>q. q \<in> N \<Longrightarrow> no_overlap p 32 q 64"
  shows "fd s' p = fd s p" "bk s' p = bk s p" "chunksize s' p = chunksize s p"
proof -
  have "load s' (p + a) = load s (p + a)" if a: "a \<le> 24" for a
  proof -
    have "a < 32" "a \<le> 56" using a by (simp_all add: word_le_nat_alt word_less_nat_alt)
    moreover have "x < 64" if "x \<le> 56" for x :: u64 using that by (simp add: word_le_nat_alt word_less_nat_alt)
    ultimately have "p + a \<noteq> q + x" if "q \<in> N" "16 \<le> x" "x \<le> 56" for q x
      using that assms(4) by (intro no_overlap_cell) auto
    moreover have "p + a \<noteq> treebin_at m i" using \<open>a \<le> 56\<close> by (rule treebin_not_cell [OF assms(2,3)])
    ultimately show ?thesis using assms(1) by (simp add: cells_same_def)
  qed
  then show "fd s' p = fd s p" "bk s' p = bk s p" "chunksize s' p = chunksize s p"
    by (simp_all add: fd_def bk_def chunksize_def head_def)
qed

lemma only_nodes_small_bins:
  assumes inv: "small_bins m L s" and N: "only_nodes m i N s s'" "i < 32"
    and L: "\<And>p q. p \<in> small_chunks L \<Longrightarrow> q \<in> N \<Longrightarrow> no_overlap p 32 q 64"
  shows "small_bins m L s'" "\<And>p. p \<in> small_chunks L \<Longrightarrow> chunksize s' p = chunksize s p"
proof -
  have c: "cells_same {treebin_at m i} N s s'" "small_same m s s'" "least_addr s' = least_addr s"
    using N(1) by (simp_all add: only_nodes_def)
  have out: "outside_state m p" if "p \<in> small_chunks L" for p
    using that small_binsD(3) [OF inv] by (auto simp: small_chunks_def chunk_at_def)
  note same = cells_same_small [OF c(1) N(2) out L]
  then show "\<And>p. p \<in> small_chunks L \<Longrightarrow> chunksize s' p = chunksize s p" by blast
  have "small_bin m s' j (L j)" if j: "j < 32" for j
  proof -
    have sub: "set (L j) \<subseteq> small_chunks L" using j by (auto simp: small_chunks_def)
    have "links_agree (insert (smallbin_at m j) (set (L j))) s s'"
      using c(2) j sub same(1,2) by (auto simp: links_agree_def small_same_def)
    moreover have "smallmap_is_marked s' j = smallmap_is_marked s j"
      using c(2) by (simp add: small_same_def smallmap_is_marked_def)
    ultimately show ?thesis
      using small_bin_frame [of "insert (smallbin_at m j) (set (L j))" s s' m j "L j"] small_binsD(1) [OF inv j] by auto
  qed
  then show "small_bins m L s'" using inv chunk_at_frame [OF c(3)] by (simp add: small_bins_def)
qed

lemma bins_holdD:
  assumes "bins_hold m L Ts s"
  shows "small_bins m L s" "tree_bins m Ts s"
    "\<And>i p. i < 32 \<Longrightarrow> p \<in> set (L i) \<Longrightarrow> is_small (chunksize s p) \<and> small_index (chunksize s p) = i"
    "\<And>p. p \<in> tree_chunks Ts \<Longrightarrow> \<not> is_small (chunksize s p)"
    "\<And>p. p \<in> bin_chunks L Ts \<Longrightarrow> tree_chunk m s p \<and> good_size (chunksize s p) \<and> clear_of_state m p (chunksize s p)"
    "\<And>p q. p \<in> bin_chunks L Ts \<Longrightarrow> q \<in> bin_chunks L Ts \<Longrightarrow> p \<noteq> q \<Longrightarrow>
      no_overlap p (chunksize s p) q (chunksize s q)"
  using assms by (simp_all add: bins_hold_def)

lemma bins_hold_step:
  assumes inv: "bins_hold m L Ts s" and new: "small_bins m L' s'" "tree_bins m Ts' s'"
    and P: "tree_chunk m s P" "good_size (chunksize s P) \<and> clear_of_state m P (chunksize s P)"
      "\<And>q. q \<in> bin_chunks L Ts \<Longrightarrow> q \<noteq> P \<Longrightarrow> no_overlap P (chunksize s P) q (chunksize s q)"
    and L: "\<And>i p. i < 32 \<Longrightarrow> p \<in> set (L' i) \<Longrightarrow>
      p \<in> set (L i) \<or> p = P \<and> is_small (chunksize s P) \<and> i = small_index (chunksize s P)"
    and Ts: "\<And>p. p \<in> tree_chunks Ts' \<Longrightarrow> p \<in> tree_chunks Ts \<or> p = P \<and> \<not> is_small (chunksize s P)"
    and z: "\<And>q. q \<in> insert P (bin_chunks L Ts) \<Longrightarrow> chunksize s' q = chunksize s q"
    and least: "least_addr s' = least_addr s"
  shows "bins_hold m L' Ts' s'"
proof -
  note D = bins_holdD [OF inv]
  let ?B = "insert P (bin_chunks L Ts)"
  have small: "p \<in> ?B" if "i < 32" "p \<in> set (L' i)" for i p
    using L [OF that] that(1) by (auto simp: bin_chunks_def small_chunks_def)
  have sub: "p \<in> ?B" if "p \<in> bin_chunks L' Ts'" for p
    using that small Ts by (auto simp: bin_chunks_def small_chunks_def)
  have "is_small (chunksize s' p) \<and> small_index (chunksize s' p) = i" if "i < 32" "p \<in> set (L' i)" for i p
    using L [OF that] D(3) [OF that(1)] z [OF small [OF that]] by auto
  moreover have "\<not> is_small (chunksize s' p)" if "p \<in> tree_chunks Ts'" for p
    using Ts [OF that] D(4) z [of p] by (auto simp: bin_chunks_def)
  moreover have "tree_chunk m s' p \<and> good_size (chunksize s' p) \<and> clear_of_state m p (chunksize s' p)"
    if "p \<in> bin_chunks L' Ts'" for p
    using sub [OF that] z P(1,2) D(5) tree_chunk_frame [OF least] by auto
  moreover have "no_overlap p (chunksize s' p) q (chunksize s' q)"
    if pq: "p \<in> bin_chunks L' Ts'" "q \<in> bin_chunks L' Ts'" "p \<noteq> q" for p q
    using sub [OF pq(1)] sub [OF pq(2)] pq(3) z P(3) P(3) [THEN no_overlap_sym [THEN iffD1]] D(6) by auto
  ultimately show ?thesis using new by (simp add: bins_hold_def)
qed

lemma no_overlap_nodes:
  assumes "no_overlap p S q R" "good_size S" "good_size R"
  shows "no_overlap p 32 q 32" "\<not> is_small R \<Longrightarrow> no_overlap p 32 q 64"
    "\<not> is_small S \<Longrightarrow> \<not> is_small R \<Longrightarrow> far p q"
proof -
  have S: "32 \<le> S" "32 \<le> R" using assms(2,3) by (simp_all add: good_size_def)
  have big: "64 \<le> z" if "\<not> is_small z" for z :: u64
    using that by (simp add: small_or_large word_le_nat_alt word_less_nat_alt)
  show "no_overlap p 32 q 32" "\<not> is_small R \<Longrightarrow> no_overlap p 32 q 64" 
    using no_overlap_mono [OF assms(1)] S big by blast+
  show "\<not> is_small S \<Longrightarrow> \<not> is_small R \<Longrightarrow> far p q"
    unfolding far_no_overlap using no_overlap_mono [OF assms(1)] big by blast
qed

lemma links_only_size:
  assumes "links_only M s s'" "outside_state m q"
    "\<And>p. p \<in> M \<Longrightarrow> (\<exists>j < 32. p = smallbin_at m j) \<or> p = q \<or> no_overlap p 32 q 32"
  shows "chunksize s' q = chunksize s q"
proof -
  have "q + 8 \<noteq> p + 16 \<and> q + 8 \<noteq> p + 24" if "p \<in> M" for p
    using assms(3) [OF that]
  proof (elim disjE exE conjE)
    fix j assume "j < 32" "p = smallbin_at m j"
    then have "no_overlap p 64 q 64" using header_far [of j m q] assms(2) by (simp add: far_no_overlap)
    then show ?thesis using no_overlap_cell [of p 64 q 64 16 8] no_overlap_cell [of p 64 q 64 24 8] by auto
  next
    assume "no_overlap p 32 q 32"
    then show ?thesis using no_overlap_cell [of p 32 q 32 16 8] no_overlap_cell [of p 32 q 32 24 8] by auto
  qed simp
  then show ?thesis using assms(1) by (simp add: links_only_def chunksize_def head_def)
qed

lemma only_nodes_size:
  assumes "only_nodes m i N s s'" "i < 32" "outside_state m q"
    "\<And>p. p \<in> N \<Longrightarrow> no_overlap q 32 p 64"
  shows "chunksize s' q = chunksize s q"
  using assms cells_same_small(3) [of m i N s s' q] by (simp add: only_nodes_def)

text \<open>Only the state and the cells of the chunks \<open>B\<close> behind their heads are written.\<close>

definition links_written :: "u64 \<Rightarrow> u64 set \<Rightarrow> 'w heap \<Rightarrow> 'w heap \<Rightarrow> bool" where
  "links_written m B s s' \<longleftrightarrow> same_scalars s s' \<and>
     (\<forall>a. (\<forall>q \<in> B. \<forall>x. 16 \<le> x \<longrightarrow> x < chunksize s q \<longrightarrow> a \<noteq> q + x) \<longrightarrow> a - m < 72 \<or> 936 \<le> a - m \<longrightarrow>
       load s' a = load s a)"

lemma header_in_state:
  assumes "j < 32"
  shows "\<not> (smallbin_at m j + 16 - m < 72 \<or> 936 \<le> smallbin_at m j + 16 - m)"
    "\<not> (smallbin_at m j + 24 - m < 72 \<or> 936 \<le> smallbin_at m j + 24 - m)"
    "\<not> (treebin_at m j - m < 72 \<or> 936 \<le> treebin_at m j - m)"
proof -
  have j: "unat j < 32" using assms by (simp add: word_less_nat_alt)
  have e: "smallbin_at m j + a - m = (smallbin_at m j - m) + a" for a by simp
  have h: "unat (smallbin_at m j - m) = 72 + 16 * unat j" using header_diff(1) [OF assms, of 0 m] by simp
  then have "unat (smallbin_at m j - m + 16) = 88 + 16 * unat j" "unat (smallbin_at m j - m + 24) = 96 + 16 * unat j"
    using j by (simp_all add: unat_plus_if')
  then show "\<not> (smallbin_at m j + 16 - m < 72 \<or> 936 \<le> smallbin_at m j + 16 - m)"
    "\<not> (smallbin_at m j + 24 - m < 72 \<or> 936 \<le> smallbin_at m j + 24 - m)"
    using j unfolding e by (simp_all add: word_less_nat_alt word_le_nat_alt)
  show "\<not> (treebin_at m j - m < 72 \<or> 936 \<le> treebin_at m j - m)"
    using treebin_offset [OF assms, of 0 m] j by (simp add: word_less_nat_alt word_le_nat_alt)
qed

lemma links_only_written:
  assumes "links_only M s s'" "\<And>p. p \<in> M \<Longrightarrow> (\<exists>j < 32. p = smallbin_at m j) \<or> p \<in> B \<and> 32 \<le> chunksize s p"
  shows "links_written m B s s'"
  unfolding links_written_def
proof (intro conjI allI impI)
  show "same_scalars s s'" using assms(1) by (simp add: links_only_def)
  fix a assume a: "\<forall>q \<in> B. \<forall>x. 16 \<le> x \<longrightarrow> x < chunksize s q \<longrightarrow> a \<noteq> q + x" "a - m < 72 \<or> 936 \<le> a - m"
  have "a \<noteq> p + 16 \<and> a \<noteq> p + 24" if "p \<in> M" for p
    using assms(2) [OF that]
  proof
    assume "\<exists>j < 32. p = smallbin_at m j"
    then show ?thesis using header_in_state(1,2) a(2) by blast
  next
    assume p: "p \<in> B \<and> 32 \<le> chunksize s p"
    then have "16 < chunksize s p" "24 < chunksize s p" by (auto simp: word_less_nat_alt word_le_nat_alt)
    then show ?thesis using a(1) p by simp
  qed
  then show "load s' a = load s a" using assms(1) by (simp add: links_only_def)
qed

lemma only_nodes_written:
  assumes "only_nodes m i N s s'" "i < 32" "\<And>p. p \<in> N \<Longrightarrow> p \<in> B \<and> 64 \<le> chunksize s p"
  shows "links_written m B s s'"
  unfolding links_written_def
proof (intro conjI allI impI)
  have c: "cells_same {treebin_at m i} N s s'" using assms(1) by (simp add: only_nodes_def)
  then show "same_scalars s s'" by (simp add: cells_same_def)
  fix a assume a: "\<forall>q \<in> B. \<forall>x. 16 \<le> x \<longrightarrow> x < chunksize s q \<longrightarrow> a \<noteq> q + x" "a - m < 72 \<or> 936 \<le> a - m"
  have "a \<noteq> p + x" if "p \<in> N" "16 \<le> x" "x \<le> 56" for p x
  proof -
    have "x < chunksize s p" using assms(3) [OF that(1)] that(3) by (auto simp: word_less_nat_alt word_le_nat_alt)
    then show ?thesis using a(1) assms(3) [OF that(1)] that(2) by simp
  qed
  moreover have "a \<noteq> treebin_at m i" using header_in_state(3) [OF assms(2)] a(2) by blast
  ultimately show "load s' a = load s a" using c by (simp add: cells_same_def)
qed

lemma large_64: "\<not> is_small z \<Longrightarrow> 64 \<le> z"
  by (simp add: small_or_large word_le_nat_alt word_less_nat_alt)

text \<open>Inserting into and unlinking from the bins.\<close>

lemma insert_chunk_bins:
  assumes inv: "bins_hold m L Ts s" and P: "tree_chunk m s P" "chunksize s P = S" "good_size S" "clear_of_state m P S"
    and clear: "\<And>q. q \<in> bin_chunks L Ts \<Longrightarrow> no_overlap P S q (chunksize s q)"
  shows "\<exists>s' L' Ts'. insert_chunk m P S s = Some s' \<and> bins_hold m L' Ts' s' \<and>
    bin_chunks L' Ts' = insert P (bin_chunks L Ts) \<and> least_addr s' = least_addr s \<and>
    links_written m (insert P (bin_chunks L Ts)) s s' \<and>
    (\<forall>q. outside_state m q \<and> (\<forall>p \<in> insert P (bin_chunks L Ts). p = q \<or>
        (\<exists>R. good_size R \<and> no_overlap p (chunksize s p) q R)) \<longrightarrow> chunksize s' q = chunksize s q)"
proof -
  note D = bins_holdD [OF inv]
  let ?B = "bin_chunks L Ts"
  have gs: "good_size (chunksize s p)" if "p \<in> insert P ?B" for p using that D(5) P by auto
  have out: "outside_state m p" if "p \<in> insert P ?B" for p using that D(5) P(1) tree_chunkD(2) [of m s p] by auto
  have clear': "no_overlap q (chunksize s q) P (chunksize s P)" if "q \<in> ?B" for q
    using clear [OF that] by (simp add: P(2) no_overlap_sym)
  have PB: "P \<notin> ?B" using clear [of P] P(3) by (auto simp: no_overlap_def good_size_def)
  have sizes: "q = p \<or> (\<exists>R. good_size R \<and> no_overlap p (chunksize s p) q R)"
    if "q \<in> insert P ?B" "p \<in> insert P ?B" for p q
    using that gs [OF that(1)] D(6) [of p q] clear clear' P(2) by auto
  show ?thesis
  proof (cases "is_small S")
    case True
    let ?i = "small_index S"
    have i: "?i < 32" by (rule small_index_less [OF True])
    have ca: "chunk_at m s P" using P(1) by (simp add: tree_chunk_def)
    have "\<forall>j < NSMALLBINS. P \<notin> set (L j)" using PB by (auto simp: bin_chunks_def small_chunks_def)
    then obtain s' where s': "insert_small_chunk m P S s = Some s'" "small_bins m (L(?i := P # L ?i)) s'"
      using insert_small_chunk_bins [OF D(1) ca True] by blast
    note lo = insert_small_links [OF D(1) True s'(1)]
    let ?M = "headers m \<union> small_chunks L \<union> {P}"
    have M: "(\<exists>j < 32. p = smallbin_at m j) \<or> p \<in> insert P ?B" if "p \<in> ?M" for p
      using that by (auto simp: headers_def bin_chunks_def)
    have "link_node m (tree_chunks Ts) p" if "p \<in> ?M" for p
    proof (cases "\<exists>j < 32. p = smallbin_at m j")
      case False
      then have p: "p \<in> insert P ?B" using M [OF that] by blast
      have p': "p \<in> insert P (small_chunks L)" using that False by (auto simp: headers_def)
      have "no_overlap p 32 q 64" if "q \<in> tree_chunks Ts" for q
      proof -
        have "p \<noteq> q" using p' that D(3,4) PB by (auto simp: bin_chunks_def small_chunks_def)
        then have "no_overlap p (chunksize s p) q (chunksize s q)"
          using p that clear [of q] D(6) [of p q] P(2) by (auto simp: bin_chunks_def)
        then show ?thesis
          using no_overlap_nodes(2) [OF _ gs [OF p] gs D(4)] that by (auto simp: bin_chunks_def)
      qed
      then show ?thesis using out [OF p] by (simp add: link_node_def)
    qed (simp add: link_node_def)
    note tb = links_only_tree_bins [OF D(2) lo this]
    have size: "chunksize s' q = chunksize s q"
      if q: "outside_state m q" "\<And>p. p \<in> insert P ?B \<Longrightarrow> p = q \<or> (\<exists>R. good_size R \<and> no_overlap p (chunksize s p) q R)" for q
    proof (rule links_only_size [OF lo q(1)])
      fix p assume "p \<in> ?M"
      from M [OF this] show "(\<exists>j < 32. p = smallbin_at m j) \<or> p = q \<or> no_overlap p 32 q 32"
        using q(2) gs no_overlap_nodes(1) by blast
    qed
    have z: "chunksize s' q = chunksize s q" if "q \<in> insert P ?B" for q
      by (rule size [OF out [OF that]]) (use sizes [OF that] in blast)
    have least: "least_addr s' = least_addr s" by (rule insert_least_addr [OF s'(1)])
    have sc: "small_chunks (L(?i := P # L ?i)) = insert P (small_chunks L)"
      using i by (auto simp: small_chunks_def split: if_splits)
    have "bins_hold m (L(?i := P # L ?i)) Ts s'"
      using P True clear by (intro bins_hold_step [OF inv s'(2) tb P(1) _ _ _ _ z least]) (auto split: if_splits)
    moreover have "insert_chunk m P S s = Some s'" using s'(1) True by (simp add: insert_chunk_def)
    moreover have "bin_chunks (L(?i := P # L ?i)) Ts = insert P ?B" using sc by (simp add: bin_chunks_def)
    moreover have "links_written m (insert P ?B) s s'"
      using M gs by (intro links_only_written [OF lo]) (auto simp: good_size_def)
    ultimately show ?thesis using size least by blast
  next
    case False
    let ?I = "compute_tree_index S"
    let ?T = "ins (chunksize s) (unat (leftshift_for_tree_index ?I)) P (Ts ?I)"
    have S: "S < 2 ^ 40" "MIN_LARGE_SIZE \<le> S" using P(3) False by (simp_all add: good_size_def small_or_large)
    have I: "?I < 32" by (rule compute_tree_index_less [OF S])
    have fresh: "far q P" if "q \<in> tree_chunks Ts" for q
      using no_overlap_nodes(3) [OF clear' gs gs D(4)] that False P(2) by (auto simp: bin_chunks_def)
    obtain s' where s': "insert_large_chunk m P S s = Some s'" "tree_bins m (Ts(?I := ?T)) s'"
      "\<And>q. q \<in> insert P (tree_chunks Ts) \<Longrightarrow> chunksize s' q = chunksize s q"
      "only_nodes m ?I (insert P (chunks (Ts ?I))) s s'"
      using insert_large_bins [OF D(2) P(1,2) S fresh] by blast
    let ?N = "insert P (chunks (Ts ?I))"
    have N: "p \<in> insert P ?B" "\<not> is_small (chunksize s p)" if "p \<in> ?N" for p
      using that tree_binsD(7) [OF D(2) I] D(4) False P(2) by (auto simp: bin_chunks_def)
    have sm: "no_overlap p 32 q 64" if "p \<in> small_chunks L" "q \<in> ?N" for p q
    proof -
      have p: "p \<in> ?B" using that by (simp add: bin_chunks_def)
      have "p \<noteq> q" using that D(3) N(2) [OF that(2)] by (auto simp: small_chunks_def)
      then have "no_overlap p (chunksize s p) q (chunksize s q)"
        using p N(1) [OF that(2)] clear' [of p] D(6) [of p q] by auto
      then show ?thesis using no_overlap_nodes(2) gs p N [OF that(2)] by blast
    qed
    note sb = only_nodes_small_bins [OF D(1) s'(4) I sm]
    have size: "chunksize s' q = chunksize s q"
      if q: "outside_state m q" "\<And>p. p \<in> insert P ?B \<Longrightarrow> p = q \<or> (\<exists>R. good_size R \<and> no_overlap p (chunksize s p) q R)" for q
    proof (cases "q \<in> ?N")
      case True
      then show ?thesis using s'(3) tree_binsD(7) [OF D(2) I] by auto
    next
      case False
      then have "no_overlap q 32 p 64" if "p \<in> ?N" for p
        using q(2) [OF N(1) [OF that]] that no_overlap_nodes(2) [OF _ _ gs [OF N(1) [OF that]] N(2) [OF that]]
        by (metis no_overlap_sym)
      then show ?thesis by (rule only_nodes_size [OF s'(4) I q(1)])
    qed
    have z: "chunksize s' q = chunksize s q" if "q \<in> insert P ?B" for q
      by (rule size [OF out [OF that]]) (use sizes [OF that] in blast)
    have least: "least_addr s' = least_addr s" using s'(4) by (simp add: only_nodes_def)
    have tc: "tree_chunks (Ts(?I := ?T)) = insert P (tree_chunks Ts)"
      using I by (auto simp: tree_chunks_def split: if_splits)
    have "bins_hold m L (Ts(?I := ?T)) s'"
      using P False clear tc by (intro bins_hold_step [OF inv sb(1) s'(2) P(1) _ _ _ _ z least]) auto
    moreover have "insert_chunk m P S s = Some s'" using s'(1) False by (simp add: insert_chunk_def)
    moreover have "bin_chunks L (Ts(?I := ?T)) = insert P ?B" using tc by (simp add: bin_chunks_def)
    moreover have "links_written m (insert P ?B) s s'"
      by (rule only_nodes_written [OF s'(4) I]) (use N large_64 in blast)
    ultimately show ?thesis using size least by blast
  qed
qed

lemma unlink_chunk_bins:
  assumes inv: "bins_hold m L Ts s" and P: "P \<in> bin_chunks L Ts" "chunksize s P = S"
  shows "\<exists>s' L' Ts'. unlink_chunk m P S s = Some s' \<and> bins_hold m L' Ts' s' \<and>
    bin_chunks L' Ts' = bin_chunks L Ts - {P} \<and> least_addr s' = least_addr s \<and>
    links_written m (bin_chunks L Ts) s s' \<and>
    (\<forall>q \<in> bin_chunks L Ts. chunksize s' q = chunksize s q)"
proof -
  note D = bins_holdD [OF inv]
  let ?B = "bin_chunks L Ts"
  have gs: "good_size (chunksize s p)" and tc: "tree_chunk m s p"
    and pl: "good_size (chunksize s p) \<and> clear_of_state m p (chunksize s p)" if "p \<in> ?B" for p using that D(5) by auto
  have out: "outside_state m p" if "p \<in> ?B" for p using tree_chunkD(2) [OF tc [OF that]] .
  have clear: "no_overlap P (chunksize s P) q (chunksize s q)" if "q \<in> ?B" "q \<noteq> P" for q
    using D(6) [OF P(1)] that by blast
  show ?thesis
  proof (cases "is_small S")
    case True
    let ?i = "small_index S"
    have i: "?i < 32" by (rule small_index_less [OF True])
    have Ps: "P \<in> small_chunks L" using P True D(4) by (auto simp: bin_chunks_def)
    then have PL: "P \<in> set (L ?i)" using D(3) P(2) by (auto simp: small_chunks_def)
    obtain s' where s': "unlink_small_chunk m P S s = Some s'" "small_bins m (L(?i := remove1 P (L ?i))) s'"
      using unlink_small_chunk_bins [OF D(1) True PL] by blast
    note lo = unlink_small_links [OF D(1) True PL s'(1)]
    let ?M = "headers m \<union> small_chunks L"
    have M: "(\<exists>j < 32. p = smallbin_at m j) \<or> p \<in> small_chunks L" if "p \<in> ?M" for p
      using that by (auto simp: headers_def)
    have "link_node m (tree_chunks Ts) p" if "p \<in> ?M" for p
      using M [OF that]
    proof
      assume p: "p \<in> small_chunks L"
      then have pB: "p \<in> ?B" by (simp add: bin_chunks_def)
      have "no_overlap p 32 q 64" if "q \<in> tree_chunks Ts" for q
      proof -
        have q: "q \<in> ?B" using that by (simp add: bin_chunks_def)
        have "p \<noteq> q" using p that D(3,4) by (auto simp: small_chunks_def)
        then show ?thesis using no_overlap_nodes(2) [OF D(6) [OF pB q] gs [OF pB] gs [OF q] D(4)] that by blast
      qed
      then show ?thesis using out [OF pB] by (simp add: link_node_def)
    qed (simp add: link_node_def)
    note tb = links_only_tree_bins [OF D(2) lo this]
    have z: "chunksize s' q = chunksize s q" if "q \<in> insert P ?B" for q
    proof (rule links_only_size [OF lo])
      have q: "q \<in> ?B" using that P(1) by blast
      then show "outside_state m q" by (rule out)
      fix p assume "p \<in> ?M"
      from M [OF this] show "(\<exists>j < 32. p = smallbin_at m j) \<or> p = q \<or> no_overlap p 32 q 32"
        using no_overlap_nodes(1) [OF D(6) [OF _ q] gs gs [OF q], of p] by (auto simp: bin_chunks_def)
    qed
    have least: "least_addr s' = least_addr s" by (rule unlink_least_addr [OF s'(1)])
    have "small_chunks (L(?i := remove1 P (L ?i))) = small_chunks L - {P}"
      using i small_binsD(2,4) [OF D(1) i] PL by (auto simp: small_chunks_def set_remove1_eq split: if_splits)
    moreover have "P \<notin> tree_chunks Ts" using D(4) True P(2) by auto
    ultimately have B: "bin_chunks (L(?i := remove1 P (L ?i))) Ts = ?B - {P}" by (auto simp: bin_chunks_def)
    have "bins_hold m (L(?i := remove1 P (L ?i))) Ts s'"
      using clear by (intro bins_hold_step [OF inv s'(2) tb tc [OF P(1)] pl [OF P(1)] _ _ _ z least])
        (auto dest: notin_set_remove1 split: if_splits)
    moreover have "unlink_chunk m P S s = Some s'" using s'(1) True by (simp add: unlink_chunk_def)
    moreover have "links_written m ?B s s'"
      using M gs by (intro links_only_written [OF lo]) (auto simp: good_size_def bin_chunks_def)
    ultimately show ?thesis using z least B by blast
  next
    case False
    have Pt: "P \<in> tree_chunks Ts" using P False D(3) by (auto simp: bin_chunks_def small_chunks_def)
    then obtain i where i: "i < 32" "P \<in> chunks (Ts i)" by (auto simp: tree_chunks_def)
    let ?T = "remove_chunk P (Ts i)" and ?N = "chunks (Ts i)"
    obtain s' where s': "unlink_large_chunk m P s = Some s'" "tree_bins m (Ts(i := ?T)) s'"
      "\<And>q. q \<in> tree_chunks Ts \<Longrightarrow> chunksize s' q = chunksize s q" "only_nodes m i ?N s s'"
      using unlink_large_bins [OF D(2) i] by blast
    have N: "p \<in> ?B" "p \<in> tree_chunks Ts" if "p \<in> ?N" for p
      using that tree_binsD(7) [OF D(2) i(1)] by (auto simp: bin_chunks_def)
    have sm: "no_overlap p 32 q 64" if "p \<in> small_chunks L" "q \<in> ?N" for p q
    proof -
      have p: "p \<in> ?B" using that by (simp add: bin_chunks_def)
      have "p \<noteq> q" using that D(3) D(4) [OF N(2) [OF that(2)]] by (auto simp: small_chunks_def)
      then show ?thesis
        using no_overlap_nodes(2) [OF D(6) [OF p N(1) [OF that(2)]] gs [OF p] gs [OF N(1) [OF that(2)]]]
          D(4) [OF N(2) [OF that(2)]] by blast
    qed
    note sb = only_nodes_small_bins [OF D(1) s'(4) i(1) sm]
    have z: "chunksize s' q = chunksize s q" if "q \<in> insert P ?B" for q
      using that P(1) s'(3) sb(2) by (auto simp: bin_chunks_def)
    have least: "least_addr s' = least_addr s" using s'(4) by (simp add: only_nodes_def)
    have "chunks ?T = ?N - {P}" using remove_chunk_proper [OF tree_binsD(3) [OF D(2) i(1)]] by blast
    moreover have "P \<notin> chunks (Ts j)" if "j < 32" "j \<noteq> i" for j
      using tree_binsD(8) [OF D(2) i(1) that] i(2) by blast
    ultimately have tc': "tree_chunks (Ts(i := ?T)) = tree_chunks Ts - {P}"
      using i by (auto simp: tree_chunks_def split: if_splits)
    have "P \<notin> small_chunks L" using D(3) False P(2) by (auto simp: small_chunks_def)
    with tc' have B: "bin_chunks L (Ts(i := ?T)) = ?B - {P}" by (auto simp: bin_chunks_def)
    have "bins_hold m L (Ts(i := ?T)) s'"
      using clear tc' by (intro bins_hold_step [OF inv sb(1) s'(2) tc [OF P(1)] pl [OF P(1)] _ _ _ z least]) auto
    moreover have "unlink_chunk m P S s = Some s'" using s'(1) False by (simp add: unlink_chunk_def)
    moreover have "links_written m ?B s s'"
      by (rule only_nodes_written [OF s'(4) i(1)]) (use N large_64 D(4) in blast)
    ultimately show ?thesis using z least B by blast
  qed
qed

subsection \<open>The bins are a store of free chunks\<close>

lemma free_tableE:
  assumes "free_table m T s"
  obtains L Ts where "bins_hold m L Ts s" "T = (\<lambda>S. {p \<in> bin_chunks L Ts. chunksize s p = S})"
    "\<And>p. p \<in> bin_chunks L Ts \<longleftrightarrow> p \<in> T (chunksize s p)"
  using assms by (auto simp: free_table_def)

lemma good_size_not_zero: "good_size S \<Longrightarrow> \<not> no_overlap P S P S"
  by (auto simp: good_size_def no_overlap_def)

text \<open>The same for the chunks of a table.\<close>

definition table_written :: "u64 \<Rightarrow> (u64 \<Rightarrow> u64 set) \<Rightarrow> 'w heap \<Rightarrow> 'w heap \<Rightarrow> bool" where
  "table_written m T s s' \<longleftrightarrow> same_scalars s s' \<and>
     (\<forall>a. (\<forall>S. \<forall>q \<in> T S. \<forall>x. 16 \<le> x \<longrightarrow> x < S \<longrightarrow> a \<noteq> q + x) \<longrightarrow> a - m < 72 \<or> 936 \<le> a - m \<longrightarrow>
       load s' a = load s a)"

lemma links_written_table:
  assumes "links_written m B s s'" "\<And>q. q \<in> B \<Longrightarrow> q \<in> T (chunksize s q)"
  shows "table_written m T s s'"
  using assms unfolding links_written_def table_written_def by blast

lemma insert_chunk_table:
  assumes "free_table m T s" "good_size S" "sized_chunk m s P S" "\<forall>R. \<forall>Q \<in> T R. no_overlap P S Q R"
  shows "\<exists>s'. insert_chunk m P S s = Some s' \<and> free_table m (T(S := insert P (T S))) s' \<and>
    table_written m (T(S := insert P (T S))) s s' \<and>
    (\<forall>Q R. sized_chunk m s Q R \<and> good_size R \<and> (\<forall>k. \<forall>P' \<in> T k. no_overlap Q R P' k) \<and> no_overlap Q R P S
      \<longrightarrow> sized_chunk m s' Q R)"
proof -
  obtain L Ts where L: "bins_hold m L Ts s" "T = (\<lambda>S. {p \<in> bin_chunks L Ts. chunksize s p = S})"
    "\<And>p. p \<in> bin_chunks L Ts \<longleftrightarrow> p \<in> T (chunksize s p)"
    using free_tableE [OF assms(1)] by blast
  have P: "tree_chunk m s P" "chunksize s P = S" "clear_of_state m P S" using assms(3) by (simp_all add: sized_chunk_def)
  have clear: "no_overlap P S q (chunksize s q)" if "q \<in> bin_chunks L Ts" for q
    using assms(4) that L(3) by blast
  obtain s' L' Ts' where s': "insert_chunk m P S s = Some s'" "bins_hold m L' Ts' s'"
    "bin_chunks L' Ts' = insert P (bin_chunks L Ts)" "least_addr s' = least_addr s"
    "links_written m (insert P (bin_chunks L Ts)) s s'"
    "\<forall>q. outside_state m q \<and> (\<forall>p \<in> insert P (bin_chunks L Ts). p = q \<or>
        (\<exists>R. good_size R \<and> no_overlap p (chunksize s p) q R)) \<longrightarrow> chunksize s' q = chunksize s q"
    using insert_chunk_bins [OF L(1) P(1,2) assms(2) P(3) clear] by blast
  have z: "chunksize s' q = chunksize s q" if "q \<in> insert P (bin_chunks L Ts)" for q
  proof (rule s'(6) [rule_format], intro conjI ballI)
    show "outside_state m q" using that P(1) bins_holdD(5) [OF L(1)] tree_chunkD(2) [of m s q] by auto
    show "p = q \<or> (\<exists>R. good_size R \<and> no_overlap p (chunksize s p) q R)" if p: "p \<in> insert P (bin_chunks L Ts)" for p
    proof (cases "p = q")
      case False
      have "good_size (chunksize s q)" using \<open>q \<in> insert P (bin_chunks L Ts)\<close> bins_holdD(5) [OF L(1)] P(2) assms(2) by blast
      moreover have "no_overlap p (chunksize s p) q (chunksize s q)"
      proof (cases "p = P \<or> q = P")
        case True
        then show ?thesis using False p \<open>q \<in> insert P (bin_chunks L Ts)\<close> P(2) clear clear [THEN no_overlap_sym [THEN iffD1]]
          by blast
      qed (use False p \<open>q \<in> insert P (bin_chunks L Ts)\<close> bins_holdD(6) [OF L(1)] in blast)
      ultimately show ?thesis by blast
    qed simp
  qed
  have "T(S := insert P (T S)) = (\<lambda>S. {p \<in> bin_chunks L' Ts'. chunksize s' p = S})"
    unfolding s'(3) using z P(2) by (auto simp: L(2) fun_eq_iff)
  then have "free_table m (T(S := insert P (T S))) s'" using s'(2) by (auto simp: free_table_def)
  moreover have "sized_chunk m s' Q R"
    if Q: "sized_chunk m s Q R" "good_size R" "\<forall>k. \<forall>P' \<in> T k. no_overlap Q R P' k" "no_overlap Q R P S" for Q R
  proof -
    have "chunksize s' Q = chunksize s Q"
    proof (rule s'(6) [rule_format], intro conjI ballI)
      show "outside_state m Q" using Q(1) tree_chunkD(2) by (auto simp: sized_chunk_def)
      show "p = Q \<or> (\<exists>R. good_size R \<and> no_overlap p (chunksize s p) Q R)" if "p \<in> insert P (bin_chunks L Ts)" for p
        using that Q(2-4) L(3) P(2) no_overlap_sym by blast
    qed
    then show ?thesis using Q(1) tree_chunk_frame [OF s'(4)] by (simp add: sized_chunk_def)
  qed
  moreover have "table_written m (T(S := insert P (T S))) s s'"
    by (rule links_written_table [OF s'(5)]) (use L(3) P(2) in auto)
  ultimately show ?thesis using s'(1) by blast
qed

lemma unlink_chunk_table:
  assumes "free_table m T s" "P \<in> T S"
  shows "\<exists>s'. unlink_chunk m P S s = Some s' \<and> free_table m (T(S := T S - {P})) s' \<and> table_written m T s s'"
proof -
  obtain L Ts where L: "bins_hold m L Ts s" "T = (\<lambda>S. {p \<in> bin_chunks L Ts. chunksize s p = S})"
    using free_tableE [OF assms(1)] by blast
  have P: "P \<in> bin_chunks L Ts" "chunksize s P = S" using assms(2) by (simp_all add: L(2))
  obtain s' L' Ts' where s': "unlink_chunk m P S s = Some s'" "bins_hold m L' Ts' s'"
    "bin_chunks L' Ts' = bin_chunks L Ts - {P}" "links_written m (bin_chunks L Ts) s s'" "\<And>q. q \<in> bin_chunks L Ts \<Longrightarrow> chunksize s' q = chunksize s q"
    using unlink_chunk_bins [OF L(1) P] by blast
  have "T(S := T S - {P}) = (\<lambda>S. {p \<in> bin_chunks L' Ts'. chunksize s' p = S})"
    unfolding s'(3) using s'(5) P(2) by (auto simp: L(2) fun_eq_iff)
  moreover have "table_written m T s s'"
    by (rule links_written_table [OF s'(4)]) (simp add: L(2))
  ultimately show ?thesis using s'(1,2) by (auto simp: free_table_def)
qed

interpretation freed: chunk_store "free_table m" "sized_chunk m" good_size "\<lambda>S. S" no_overlap
  "insert_chunk m" "unlink_chunk m" for m
proof
  fix T :: "u64 \<Rightarrow> u64 set" and s s' :: "'w heap" and P S Q R
  show "\<exists>s'. insert_chunk m P S s = Some s' \<and> free_table m (T(S := insert P (T S))) s'"
    if "free_table m T s" "good_size S" "sized_chunk m s P S" "\<forall>R. \<forall>Q \<in> T R. no_overlap P S Q R"
    using insert_chunk_table [OF that] by blast
  show "\<exists>s'. unlink_chunk m P S s = Some s' \<and> free_table m (T(S := T S - {P})) s'"
    if "free_table m T s" "P \<in> T S"
    using unlink_chunk_table [OF that] by blast
  show "sized_chunk m s' Q R"
    if "free_table m T s" "good_size S" "sized_chunk m s P S" "\<forall>R. \<forall>Q \<in> T R. no_overlap P S Q R"
      "insert_chunk m P S s = Some s'" "sized_chunk m s Q R" "good_size R"
      "\<forall>k. \<forall>P' \<in> T k. no_overlap Q R P' k" "no_overlap Q R P S"
    using insert_chunk_table [OF that(1-4)] that(5-9) by auto
qed (rule good_size_not_zero)

lemma free_table_empty:
  assumes "m \<le> - 936" "smallmap s = 0" "treemap s = 0" "\<And>i. i < NTREEBINS \<Longrightarrow> load s (treebin_at m i) = 0"
  shows "free_table m (\<lambda>_. {}) s"
proof -
  have "bins_hold m (\<lambda>_. []) (\<lambda>_. Leaf) s"
    using assms by (simp add: bins_hold_def small_bins_def small_bin_def tree_bins_def tree_bin_def
      smallmap_is_marked_def treemap_is_marked_def bin_chunks_def small_chunks_def tree_chunks_def spread_def)
  then show ?thesis
    unfolding free_table_def by (intro exI conjI) (auto simp: bin_chunks_def small_chunks_def tree_chunks_def)
qed

text \<open>Writes to other chunks than those of the table leave the bins alone.\<close>

lemma bins_hold_frame:
  fixes s s' :: "'w heap"
  assumes inv: "bins_hold m L Ts s" and maps: "smallmap s' = smallmap s" "treemap s' = treemap s" "least_addr s' = least_addr s"
    and cell: "\<And>q x. q \<in> bin_chunks L Ts \<Longrightarrow> 8 \<le> x \<Longrightarrow> x < chunksize s q \<Longrightarrow> load s' (q + x) = load s (q + x)"
    and state: "\<And>a. \<not> (a - m < 72 \<or> 936 \<le> a - m) \<Longrightarrow> load s' a = load s a"
  shows "bins_hold m L Ts s'" "\<And>q. q \<in> bin_chunks L Ts \<Longrightarrow> chunksize s' q = chunksize s q"
proof -
  note D = bins_holdD [OF inv]
  have c: "load s' (q + x) = load s (q + x)" if "q \<in> bin_chunks L Ts" "8 \<le> x" "x \<le> 24" for q x
  proof (rule cell [OF that(1,2)])
    have "32 \<le> chunksize s q" using D(5) [OF that(1)] by (simp add: good_size_def)
    then show "x < chunksize s q" using that(3) by (auto simp: word_less_nat_alt word_le_nat_alt)
  qed
  show z: "chunksize s' q = chunksize s q" if "q \<in> bin_chunks L Ts" for q
    using c [OF that] by (simp add: chunksize_def head_def)
  have node: "same_node s s' q" if q: "q \<in> tree_chunks Ts" for q
    unfolding same_node_def
  proof (intro allI impI)
    fix a :: u64 assume "8 \<le> a" and "a \<le> 56"
    moreover have "64 \<le> chunksize s q" using D(4) [OF q] by (rule large_64)
    ultimately have "a < chunksize s q" by (auto simp: word_less_nat_alt word_le_nat_alt)
    then show "load s' (q + a) = load s (q + a)" using q \<open>8 \<le> a\<close> by (intro cell) (simp add: bin_chunks_def)
  qed
  have "tree_bin m s' j (Ts j)" if j: "j < 32" for j
  proof -
    have "tree_bin m s' j (Ts j) = tree_bin m s j (Ts j)"
    proof (rule tree_bin_frame)
      show "same_node s s' q" if "q \<in> chunks (Ts j)" for q
        using that tree_binsD(7) [OF D(2) j] by (intro node) blast
      show "load s' (treebin_at m j) = load s (treebin_at m j)" using header_in_state(3) [OF j] by (rule state)
    qed (simp_all add: maps treemap_is_marked_def)
    then show ?thesis using D(2) j by (simp add: tree_bins_def)
  qed
  then have "tree_bins m Ts s'" using D(2) by (simp add: tree_bins_def)
  moreover have "small_bins m L s'"
  proof -
    have "small_bin m s' j (L j) = small_bin m s j (L j)" if j: "j < 32" for j
    proof (rule small_bin_frame)
      show "smallmap_is_marked s' j = smallmap_is_marked s j" by (simp add: smallmap_is_marked_def maps)
      have h: "load s' (smallbin_at m j + 16) = load s (smallbin_at m j + 16)"
        "load s' (smallbin_at m j + 24) = load s (smallbin_at m j + 24)"
        using header_in_state(1,2) [OF j] state by blast+
      have "set (L j) \<subseteq> bin_chunks L Ts" using j by (auto simp: bin_chunks_def small_chunks_def)
      then show "links_agree (insert (smallbin_at m j) (set (L j))) s s'"
        using h c by (auto simp: links_agree_def fd_def bk_def)
    qed auto
    then show ?thesis using D(1) chunk_at_frame [OF maps(3)] by (simp add: small_bins_def)
  qed
  moreover have "p \<in> bin_chunks L Ts" if "p \<in> set (L i)" "i < 32" for p i
    using that by (auto simp: bin_chunks_def small_chunks_def)
  ultimately show "bins_hold m L Ts s'"
    using inv z tree_chunk_frame [OF maps(3)] unfolding bins_hold_def by (auto simp: bin_chunks_def)
qed

lemma free_table_frame:
  fixes s s' :: "'w heap"
  assumes "free_table m T s" "smallmap s' = smallmap s" "treemap s' = treemap s" "least_addr s' = least_addr s"
    and cell: "\<And>q z x. q \<in> T z \<Longrightarrow> 8 \<le> x \<Longrightarrow> x < z \<Longrightarrow> load s' (q + x) = load s (q + x)"
    and state: "\<And>a. \<not> (a - m < 72 \<or> 936 \<le> a - m) \<Longrightarrow> load s' a = load s a"
  shows "free_table m T s'"
proof -
  obtain L Ts where L: "bins_hold m L Ts s" "T = (\<lambda>S. {p \<in> bin_chunks L Ts. chunksize s p = S})"
    using free_tableE [OF assms(1)] by blast
  have "load s' (q + x) = load s (q + x)" if "q \<in> bin_chunks L Ts" "8 \<le> x" "x < chunksize s q" for q x
    using that by (intro cell [of q "chunksize s q"]) (simp_all add: L(2))
  note F = bins_hold_frame [OF L(1) assms(2-4) this state]
  have "T = (\<lambda>S. {p \<in> bin_chunks L Ts. chunksize s' p = S})" using F(2) by (auto simp: L(2) fun_eq_iff)
  then show ?thesis using F(1) by (auto simp: free_table_def)
qed

subsection \<open>Properties\<close>

text \<open>A space with two chunks that are free but not yet in a bin.\<close>

definition two_free :: "unit heap" where
  "two_free = set_head 0x20000 512 (set_head 0x10000 48 (static_heap ()))"

lemma two_free_treebin:
  assumes "i < 32"
  shows "load two_free (treebin_at 0x1000 i) = 0"
proof -
  have "outside_state 0x1000 0x10000" "outside_state 0x1000 0x20000" by (simp_all add: outside_state_def)
  then show ?thesis
    using treebin_not_cell [OF assms, of "0x1000" "0x10000" 8] treebin_not_cell [OF assms, of "0x1000" "0x20000" 8]
    by (auto simp: two_free_def set_head_def load_store) (simp add: static_heap_def load_def)
qed

lemma two_free_table: "free_table 0x1000 (\<lambda>_. {}) two_free"
  by (rule free_table_empty) (simp_all add: two_free_treebin, simp_all add: two_free_def set_head_def static_heap_def)

lemma two_free_chunks: "sized_chunk 0x1000 two_free 0x10000 48" "sized_chunk 0x1000 two_free 0x20000 512"
  by (simp_all add: sized_chunk_def clear_of_state_def tree_chunk_def chunk_at_def is_aligned_def ok_address_def
      outside_state_def no_overlap_def chunksize_def head_def two_free_def set_head_def static_heap_def
      load_def store_def)

text \<open>
  Property C8. \<open>insert_chunk\<close> of a free chunk that overlaps no free chunk does not abort: afterwards
  the small and tree bins hold the same chunks and this one, filed under its size. The size is a
  multiple of 16 from 32 bytes to below \<open>2^40\<close> bytes; from there on the gcc variant of
  \<open>compute_tree_index\<close> files chunks by the low bits of their size.
\<close>

theorem insert_chunk_refines:
  assumes "free_table m T s" "good_size S" "sized_chunk m s P S" "\<forall>R. \<forall>Q \<in> T R. no_overlap P S Q R"
  shows "\<exists>s'. insert_chunk m P S s = Some s' \<and> free_table m (T(S := insert P (T S))) s'"
  using freed.put_law [OF assms] .

theorem insert_chunk_refines_witness:
  "\<exists>s'. insert_chunk 0x1000 0x20000 512 two_free = Some s' \<and>
    free_table 0x1000 ((\<lambda>_. {})(512 := {0x20000})) s'"
  using insert_chunk_refines [OF two_free_table _ two_free_chunks(2)]
  by (simp add: good_size_def is_aligned_def)

text \<open>
  Property C9. \<open>unlink_chunk\<close> of a chunk of the bins, of a size that is a multiple of 16 from 32
  bytes to below \<open>2^40\<close> bytes, does not abort and takes exactly that chunk out.
\<close>

theorem unlink_chunk_refines:
  assumes "free_table m T s" "good_size S" "P \<in> T S"
  shows "\<exists>s'. unlink_chunk m P S s = Some s' \<and> free_table m (T(S := T S - {P})) s'"
  using freed.take_law [OF assms] .

theorem unlink_chunk_refines_witness:
  "\<exists>(s :: unit heap) s'. unlink_chunk 0x1000 0x20000 512 s = Some s' \<and> free_table 0x1000 (\<lambda>_. {}) s'"
proof -
  have g: "good_size 512" by (simp add: good_size_def is_aligned_def)
  obtain s where s: "free_table 0x1000 ((\<lambda>_. {})(512 := {0x20000})) (s :: unit heap)"
    using freed.put_law [OF two_free_table g two_free_chunks(2)] by auto
  then show ?thesis using unlink_chunk_refines [OF s g, of "0x20000"] by (auto simp: fun_upd_idem)
qed

lemma two_free_trees: "tree_bins 0x1000 (\<lambda>_. Leaf) two_free"
  by (simp add: tree_bins_def tree_bin_def tree_chunks_def spread_def treemap_is_marked_def two_free_treebin)
    (simp add: two_free_def set_head_def static_heap_def)

text \<open>
  Property C11. Inserting a free chunk and unlinking it again restores the table of free chunks.
\<close>

theorem chunk_insert_unlink:
  assumes "free_table m T s" "good_size S" "sized_chunk m s P S" "\<forall>R. \<forall>Q \<in> T R. no_overlap P S Q R"
  shows "\<exists>s' s''. insert_chunk m P S s = Some s' \<and> unlink_chunk m P S s' = Some s'' \<and> free_table m T s''"
  using freed.put_take [OF assms] .

theorem chunk_insert_unlink_witness:
  "\<exists>s' s''. insert_chunk 0x1000 0x20000 512 two_free = Some s' \<and>
    unlink_chunk 0x1000 0x20000 512 s' = Some s'' \<and> free_table 0x1000 (\<lambda>_. {}) s''"
  using chunk_insert_unlink [OF two_free_table _ two_free_chunks(2)] by (simp add: good_size_def is_aligned_def)

end
