(* ===== verification/BestFit.thy ===== *)
theory BestFit
  imports Alloc Bins
begin

text \<open>
  The searches of the trees by \<open>tmalloc_large\<close> and \<open>tmalloc_small\<close> end and find the smallest
  chunk that is large enough: the descent along the bits of the request, the leftmost path of
  the subtree it leaves, and the next larger bin.
\<close>

subsection \<open>Sizes and bits\<close>

text \<open>The sizes agree on all bits above bit \<open>63 - d\<close>.\<close>

definition agree :: "nat \<Rightarrow> u64 \<Rightarrow> u64 \<Rightarrow> bool" where
  "agree d a b \<longleftrightarrow> unat a div 2 ^ (64 - d) = unat b div 2 ^ (64 - d)"

lemma turns_right_div:
  assumes "d < 64"
  shows "unat a div 2 ^ (64 - Suc d) = 2 * (unat a div 2 ^ (64 - d)) + (if turns_right d a then 1 else 0)"
proof -
  have s: "64 - d = Suc (64 - Suc d)" using assms by simp
  have "turns_right d a \<longleftrightarrow> bit a (64 - Suc d)"
    using assms by (simp add: turns_right_def bit_push_bit_iff)
  also have "\<dots> \<longleftrightarrow> odd (unat a div 2 ^ (64 - Suc d))" by (rule bit_unat_div)
  finally have t: "turns_right d a \<longleftrightarrow> odd (unat a div 2 ^ (64 - Suc d))" .
  have "unat a div 2 ^ (64 - d) = unat a div 2 ^ (64 - Suc d) div 2"
    unfolding s power_Suc2 div_mult2_eq ..
  then show ?thesis unfolding t by (auto simp: odd_iff_mod_2_eq_one elim!: evenE dest!: mod_0_imp_dvd)
qed

lemma agree_step: "agree d a b \<Longrightarrow> d < 64 \<Longrightarrow> turns_right d a = turns_right d b \<Longrightarrow> agree (Suc d) a b"
  using turns_right_div [of d a] turns_right_div [of d b] by (simp add: agree_def)

lemma agree_less:
  assumes "agree d a b" "d < 64" "\<not> turns_right d a" "turns_right d b"
  shows "a < b"
proof (rule ccontr)
  assume "\<not> a < b"
  then have "unat b \<le> unat a" by (simp add: word_le_nat_alt not_less)
  then have "unat b div 2 ^ (64 - Suc d) \<le> unat a div 2 ^ (64 - Suc d)" by (rule div_le_mono)
  then show False
    using assms turns_right_div [of d a] turns_right_div [of d b] by (simp add: agree_def)
qed

lemma agree_all: "agree 64 a b \<Longrightarrow> a = b"
  by (simp add: agree_def word_unat_eq_iff)

lemma tree_index_mono:
  assumes "a < 2 ^ 40" "MIN_LARGE_SIZE \<le> a" "b < 2 ^ 40" "MIN_LARGE_SIZE \<le> b"
    and "compute_tree_index a < compute_tree_index b"
  shows "a < b"
  using assms(1,2)
proof (cases rule: tree_index_cases)
  case last
  have "compute_tree_index b < 32" by (rule compute_tree_index_less [OF assms(3,4)])
  then show ?thesis using assms(5) last(2) by (simp add: word_less_nat_alt)
next
  case (bin j c)
  have up: "unat a < 4 * 2 ^ (j + 7)"
  proof -
    have "unat a div 2 ^ (j + 7) < 4" using bin by simp
    then show ?thesis by (simp add: div_less_iff_less_mult)
  qed
  show ?thesis
    using assms(3,4)
  proof (cases rule: tree_index_cases)
    case last
    have "(4 :: nat) * 2 ^ (j + 7) \<le> 4 * 2 ^ 22" using bin(1) by (intro mult_left_mono power_increasing) auto
    moreover have "65536 * 256 \<le> unat b" using last(1) by simp
    ultimately show ?thesis using up by (simp add: word_less_nat_alt)
  next
    case b: (bin j' c')
    have lt: "2 * j + c < 2 * j' + c'" using assms(5) bin(3) b(3) by (simp add: word_less_nat_alt)
    show ?thesis
    proof (cases "j = j'")
      case True
      then have "unat a div 2 ^ (j + 7) < unat b div 2 ^ (j + 7)" using lt bin(4) b(4) by simp
      then show ?thesis by (metis div_le_mono not_less word_less_nat_alt)
    next
      case False
      then have "Suc j \<le> j'" using lt bin(2) b(2) by linarith
      then have "(2 :: nat) ^ (Suc j + 7) \<le> 2 ^ (j' + 7)" by (intro power_increasing) auto
      then have "(4 :: nat) * 2 ^ (j + 7) \<le> 2 * 2 ^ (j' + 7)" by (simp only: add_Suc power_Suc mult.assoc)
      also have "\<dots> \<le> unat b"
        using b(4) by (metis div_times_less_eq_dividend le_add1 mult_le_mono1 order_trans)
      finally show ?thesis using up by (simp add: word_less_nat_alt)
    qed
  qed
qed

lemma bin_agree:
  assumes "a < 2 ^ 40" "MIN_LARGE_SIZE \<le> a" "b < 2 ^ 40" "MIN_LARGE_SIZE \<le> b"
    and "compute_tree_index a = i" "compute_tree_index b = i"
  shows "agree (unat (leftshift_for_tree_index i)) a b"
proof (cases "i = 31")
  case True
  have "unat a < 2 ^ 64" "unat b < 2 ^ 64" using unat_less_exp [of a] unat_less_exp [of b] by simp_all
  then show ?thesis using True by (simp add: leftshift_for_tree_index_def agree_def)
next
  case False
  obtain j c where S: "j < 16" "c < 2" "unat i = 2 * j + c" "unat a div 2 ^ (j + 7) = 2 + c"
    using assms(1,2) by (cases rule: tree_index_cases) (use assms(5) False in auto)
  obtain j' c' where T: "j' < 16" "c' < 2" "unat i = 2 * j' + c'" "unat b div 2 ^ (j' + 7) = 2 + c'"
    using assms(3,4) by (cases rule: tree_index_cases) (use assms(6) False in auto)
  have jj: "j' = j" "c' = c" using S(2,3) T(2,3) by presburger+
  have "unat (leftshift_for_tree_index i) = 57 - j"
    using leftshift_value [OF S(3,2,1)] False by simp
  then show ?thesis using S T jj by (simp add: agree_def add.commute [of j 7])
qed

subsection \<open>The search of one tree\<close>

text \<open>
  From a candidate \<open>(v0, r0)\<close> a search of the chunks \<open>C\<close> gives \<open>(v, r)\<close>: one of them or the
  old one, and no remainder is smaller. A size below the request has a remainder that wraps.
\<close>

definition taken :: "'w heap \<Rightarrow> u64 \<Rightarrow> u64 set \<Rightarrow> u64 \<times> u64 \<Rightarrow> u64 \<times> u64 \<Rightarrow> bool" where
  "taken s nb C c0 c \<longleftrightarrow> c = c0 \<or> fst c \<in> C \<and> snd c = chunksize s (fst c) - nb \<and> snd c < snd c0"

definition fit_in :: "'w heap \<Rightarrow> u64 \<Rightarrow> u64 set \<Rightarrow> u64 \<times> u64 \<Rightarrow> u64 \<times> u64 \<Rightarrow> bool" where
  "fit_in s nb C c0 c \<longleftrightarrow> taken s nb C c0 c \<and> (\<forall>q \<in> C. snd c \<le> chunksize s q - nb)"

lemma taken_le: "taken s nb C c0 c \<Longrightarrow> snd c \<le> snd c0"
  by (auto simp: taken_def)

lemma taken_trans: "taken s nb C c0 c1 \<Longrightarrow> taken s nb C' c1 c \<Longrightarrow> C \<subseteq> D \<Longrightarrow> C' \<subseteq> D \<Longrightarrow> taken s nb D c0 c"
  by (auto simp: taken_def)

definition better :: "'w heap \<Rightarrow> u64 \<Rightarrow> u64 \<Rightarrow> u64 \<times> u64 \<Rightarrow> u64 \<times> u64" where
  "better s nb t c = (if chunksize s t - nb < snd c then (t, chunksize s t - nb) else c)"

lemma taken_better: "taken s nb {t} c (better s nb t c)" "snd (better s nb t c) \<le> chunksize s t - nb"
  by (auto simp: taken_def better_def)

lemma rem_mono: "nb \<le> a \<Longrightarrow> a \<le> b \<Longrightarrow> a - nb \<le> b - (nb :: u64)"
  by (auto simp: word_le_nat_alt unat_sub)

lemma rem_wrap:
  assumes "a < nb"
  shows "- nb \<le> a - (nb :: u64)"
proof -
  have "nb \<noteq> 0" using assms by auto
  then have "unat (- nb) \<le> unat (a - nb)"
    using assms unat_neg [of nb] unat_sub_if_size [of a nb] by (auto simp: word_less_nat_alt word_size)
  then show ?thesis by (simp add: word_le_nat_alt)
qed

text \<open>A subtree that the search may continue in.\<close>

definition searchable :: "'w heap \<Rightarrow> u64 \<Rightarrow> trie \<Rightarrow> bool" where
  "searchable s t R \<longleftrightarrow> R \<noteq> Leaf \<and> t \<noteq> 0 \<and> (\<exists>par d c. tree_at s t par R \<and> steered (chunksize s) d R \<and>
     proper R \<and> 0 \<notin> chunks R \<and> d \<le> 64 \<and> (\<forall>q \<in> chunks R. agree d (chunksize s q) c))"

lemma Leaf_chunk: "T \<noteq> Leaf \<Longrightarrow> \<exists>x. x \<in> chunks T"
  by (cases T) auto

lemma agree_deep:
  assumes "steered z d (Node t ring l r)" "\<forall>q \<in> chunks (Node t ring l r). agree d (z q) c" "d \<le> 64"
    "l \<noteq> Leaf \<or> r \<noteq> Leaf"
  shows "d < 64"
proof (rule ccontr)
  assume "\<not> d < 64"
  then have "z q = c" if "q \<in> chunks (Node t ring l r)" for q using assms(2,3) that agree_all by auto
  moreover obtain x where "x \<in> chunks l \<union> chunks r" using assms(4) Leaf_chunk by blast
  ultimately have "z x = z t" by auto
  then show False using assms(1) \<open>x \<in> chunks l \<union> chunks r\<close> by auto
qed

lemma agree_trans: "agree d a c \<Longrightarrow> agree d b c \<Longrightarrow> agree d a b"
  by (simp add: agree_def)

text \<open>In a subtree the sizes on the left are below those on the right.\<close>

lemma steered_order:
  assumes st: "steered z d (Node t ring l r)" and ag: "\<forall>q \<in> chunks (Node t ring l r). agree d (z q) c" and d: "d \<le> 64"
  shows "\<And>p q. p \<in> chunks l \<Longrightarrow> q \<in> chunks r \<Longrightarrow> z p < z q"
    "l \<noteq> Leaf \<or> r \<noteq> Leaf \<Longrightarrow> d < 64"
    "\<And>p q. p \<in> chunks l \<Longrightarrow> q \<in> chunks l \<Longrightarrow> agree (Suc d) (z p) (z q)"
    "\<And>p q. p \<in> chunks r \<Longrightarrow> q \<in> chunks r \<Longrightarrow> agree (Suc d) (z p) (z q)"
proof -
  show deep: "d < 64" if "l \<noteq> Leaf \<or> r \<noteq> Leaf" using agree_deep [OF st ag d that] .
  have a: "agree d (z p) (z q)" if "p \<in> chunks l \<union> chunks r" "q \<in> chunks l \<union> chunks r" for p q
    by (rule agree_trans [of d _ c]) (use that ag in auto)
  show "z p < z q" if "p \<in> chunks l" "q \<in> chunks r" for p q
    using that st a [of p q] deep by (intro agree_less [of d]) auto
  show "agree (Suc d) (z p) (z q)" if "p \<in> chunks l" "q \<in> chunks l" for p q
    using that st a [of p q] deep by (intro agree_step) auto
  show "agree (Suc d) (z p) (z q)" if "p \<in> chunks r" "q \<in> chunks r" for p q
    using that st a [of p q] deep by (intro agree_step) auto
qed

lemma searchable_children:
  assumes "searchable s t (Node t ring l r)"
  shows "child s t 0 = 0 \<longleftrightarrow> l = Leaf" "child s t 1 = 0 \<longleftrightarrow> r = Leaf"
    "l \<noteq> Leaf \<Longrightarrow> searchable s (child s t 0) l" "r \<noteq> Leaf \<Longrightarrow> searchable s (child s t 1) r"
    "\<And>p q. p \<in> chunks l \<Longrightarrow> q \<in> chunks r \<Longrightarrow> chunksize s p < chunksize s q"
    "\<And>q. q \<in> set ring \<Longrightarrow> chunksize s q = chunksize s t"
proof -
  obtain par d c where a: "tree_at s t par (Node t ring l r)" "steered (chunksize s) d (Node t ring l r)"
    "proper (Node t ring l r)" "0 \<notin> chunks (Node t ring l r)" "d \<le> 64"
    "\<forall>q \<in> chunks (Node t ring l r). agree d (chunksize s q) c"
    using assms unfolding searchable_def by blast
  have T: "tree_at s (child s t 0) t l" "tree_at s (child s t 1) t r" "ring_ok s t ring"
    using a(1) unfolding tree_at_Node by blast+
  show r0: "child s t 0 = 0 \<longleftrightarrow> l = Leaf" "child s t 1 = 0 \<longleftrightarrow> r = Leaf"
    using tree_at_root [OF T(1)] tree_at_root [OF T(2)] a(4) by simp_all
  note O = steered_order [OF a(2,6,5)]
  have sub: "steered (chunksize s) (Suc d) l" "steered (chunksize s) (Suc d) r" "proper l" "proper r"
    "0 \<notin> chunks l" "0 \<notin> chunks r" using a(2-4) by simp_all
  show "searchable s (child s t 0) l" if "l \<noteq> Leaf"
  proof -
    obtain x where x: "x \<in> chunks l" using Leaf_chunk [OF \<open>l \<noteq> Leaf\<close>] by blast
    have "\<forall>q \<in> chunks l. agree (Suc d) (chunksize s q) (chunksize s x)" using O(3) x by blast
    moreover have "Suc d \<le> 64" using O(2) that by simp
    ultimately show ?thesis using that T(1) sub r0 unfolding searchable_def by blast
  qed
  show "searchable s (child s t 1) r" if "r \<noteq> Leaf"
  proof -
    obtain x where x: "x \<in> chunks r" using Leaf_chunk [OF \<open>r \<noteq> Leaf\<close>] by blast
    have "\<forall>q \<in> chunks r. agree (Suc d) (chunksize s q) (chunksize s x)" using O(4) x by blast
    moreover have "Suc d \<le> 64" using O(2) that by simp
    ultimately show ?thesis using that T(2) sub r0 unfolding searchable_def by blast
  qed
  show "chunksize s p < chunksize s q" if "p \<in> chunks l" "q \<in> chunks r" for p q using O(1) [OF that] .
  show "chunksize s q = chunksize s t" if "q \<in> set ring" for q using T(3) that by (simp add: ring_ok_def)
qed

lemma leftmost_step:
  "leftmost_fit s nb t v r = (if t \<noteq> 0 then
     case better s nb t (v, r) of (v, r) \<Rightarrow> leftmost_fit s nb (leftmost_child s t) v r else Some (v, r))"
  by (subst leftmost_fit.simps) (simp add: better_def Let_def)

text \<open>The leftmost path meets the smallest chunk.\<close>

lemma leftmost_fit_tree:
  assumes "searchable s t T" "(\<forall>q \<in> chunks T. nb \<le> chunksize s q) \<or> r0 = 0"
  shows "\<exists>c. leftmost_fit s nb t v0 r0 = Some c \<and> fit_in s nb (chunks T) (v0, r0) c"
  using assms
proof (induction T arbitrary: t v0 r0)
  case Leaf
  then show ?case by (simp add: searchable_def)
next
  case (Node t' ring l r)
  have t: "t' = t" using Node.prems(1) by (auto simp: searchable_def tree_at_Node)
  note S = searchable_children [OF Node.prems(1) [unfolded t]]
  have t0: "t \<noteq> 0" using Node.prems(1) by (simp add: searchable_def)
  obtain v1 r1 where c1: "better s nb t (v0, r0) = (v1, r1)" by fastforce
  note b = taken_better [of s nb t "(v0, r0)", unfolded c1]
  have run: "leftmost_fit s nb t v0 r0 = leftmost_fit s nb (leftmost_child s t) v1 r1"
    using t0 c1 leftmost_step [of s nb t v0 r0] by simp
  have here: "r1 \<le> chunksize s q - nb" if "q \<in> insert t (set ring)" for q
    using that b(2) S(6) by auto
  have zero: "r1 = 0" if "r0 = 0" using that taken_le [OF b(1)] by simp
  consider "l \<noteq> Leaf" | "l = Leaf" "r \<noteq> Leaf" | "l = Leaf" "r = Leaf" by blast
  then show ?case
  proof cases
    case 1
    have "(\<forall>q \<in> chunks l. nb \<le> chunksize s q) \<or> r1 = 0" using Node.prems(2) zero by auto
    then obtain c where c: "leftmost_fit s nb (child s t 0) v1 r1 = Some c" "fit_in s nb (chunks l) (v1, r1) c"
      using Node.IH(1) [OF S(3) [OF 1]] by blast
    have le: "snd c \<le> r1" using c(2) taken_le by (fastforce simp: fit_in_def)
    have "snd c \<le> chunksize s q - nb" if q: "q \<in> chunks r" for q
      using Node.prems(2)
    proof
      assume big: "\<forall>q \<in> chunks (Node t' ring l r). nb \<le> chunksize s q"
      obtain x where x: "x \<in> chunks l" using Leaf_chunk [OF 1] by blast
      have "snd c \<le> chunksize s x - nb" using c(2) x by (simp add: fit_in_def)
      also have "\<dots> \<le> chunksize s q - nb" using big x q S(5) [OF x q] by (intro rem_mono) auto
      finally show ?thesis .
    qed (use zero le in simp)
    moreover have "snd c \<le> chunksize s q - nb" if "q \<in> insert t (set ring)" for q
      using here [OF that] le by simp
    moreover have "taken s nb (chunks (Node t' ring l r)) (v0, r0) c"
      using c(2) by (intro taken_trans [OF b(1)]) (auto simp: fit_in_def t)
    ultimately have "fit_in s nb (chunks (Node t' ring l r)) (v0, r0) c"
      using c(2) by (auto simp: fit_in_def t)
    moreover have "leftmost_child s t = child s t 0" using S(1) 1 by (simp add: leftmost_child_def)
    ultimately show ?thesis using run c(1) by auto
  next
    case 2
    have "(\<forall>q \<in> chunks r. nb \<le> chunksize s q) \<or> r1 = 0" using Node.prems(2) zero by auto
    then obtain c where c: "leftmost_fit s nb (child s t 1) v1 r1 = Some c" "fit_in s nb (chunks r) (v1, r1) c"
      using Node.IH(2) [OF S(4) [OF 2(2)]] by blast
    have le: "snd c \<le> r1" using c(2) taken_le by (fastforce simp: fit_in_def)
    have "snd c \<le> chunksize s q - nb" if "q \<in> insert t (set ring)" for q
      using here [OF that] le by simp
    moreover have "taken s nb (chunks (Node t' ring l r)) (v0, r0) c"
      using c(2) by (intro taken_trans [OF b(1)]) (auto simp: fit_in_def t)
    ultimately have "fit_in s nb (chunks (Node t' ring l r)) (v0, r0) c"
      using c(2) 2 by (auto simp: fit_in_def t)
    moreover have "leftmost_child s t = child s t 1" using S(1) 2 by (simp add: leftmost_child_def)
    ultimately show ?thesis using run c(1) by auto
  next
    case 3
    have "leftmost_child s t = 0" using S(1,2) 3 by (simp add: leftmost_child_def)
    then have "leftmost_fit s nb t v0 r0 = Some (v1, r1)" using run leftmost_step [of s nb 0 v1 r1] by simp
    moreover have "fit_in s nb (chunks (Node t' ring l r)) (v0, r0) (v1, r1)"
      using here 3 taken_trans [OF b(1), of "{}" "(v1, r1)"] by (auto simp: fit_in_def t taken_def)
    ultimately show ?thesis by blast
  qed
qed

text \<open>The tree \<open>T\<close> at \<open>t\<close>, where the descent along the bits of \<open>nb\<close> is at depth \<open>d\<close>.\<close>

definition at_depth :: "'w heap \<Rightarrow> u64 \<Rightarrow> nat \<Rightarrow> u64 \<Rightarrow> trie \<Rightarrow> bool" where
  "at_depth s nb d t T \<longleftrightarrow> T \<noteq> Leaf \<and> (\<exists>par. tree_at s t par T) \<and> steered (chunksize s) d T \<and>
     proper T \<and> 0 \<notin> chunks T \<and> d \<le> 64 \<and> (\<forall>q \<in> chunks T. agree d (chunksize s q) nb)"

lemma at_depth_searchable: "at_depth s nb d t T \<Longrightarrow> searchable s t T"
  using tree_at_root [of s t _ T] unfolding at_depth_def searchable_def by metis

lemma at_depth_children:
  assumes "at_depth s nb d t (Node t' ring l r)"
  shows "t' = t" "l \<noteq> Leaf \<Longrightarrow> \<not> turns_right d nb \<Longrightarrow> at_depth s nb (Suc d) (child s t 0) l"
    "r \<noteq> Leaf \<Longrightarrow> turns_right d nb \<Longrightarrow> at_depth s nb (Suc d) (child s t 1) r"
    "turns_right d nb \<Longrightarrow> q \<in> chunks l \<Longrightarrow> chunksize s q < nb"
    "\<not> turns_right d nb \<Longrightarrow> q \<in> chunks r \<Longrightarrow> nb < chunksize s q"
proof -
  let ?T = "Node t' ring l r"
  obtain par where a: "tree_at s t par ?T" "steered (chunksize s) d ?T" "proper ?T" "0 \<notin> chunks ?T" "d \<le> 64"
    "\<forall>q \<in> chunks ?T. agree d (chunksize s q) nb"
    using assms unfolding at_depth_def by blast
  show t: "t' = t" using a(1) by (simp add: tree_at_Node)
  have T: "tree_at s (child s t 0) t l" "tree_at s (child s t 1) t r"
    using a(1) unfolding tree_at_Node t by blast+
  note O = steered_order [OF a(2,6,5)]
  show "at_depth s nb (Suc d) (child s t 0) l" if h: "l \<noteq> Leaf" "\<not> turns_right d nb"
  proof -
    have d: "d < 64" using O(2) h by blast
    have "agree (Suc d) (chunksize s q) nb" if "q \<in> chunks l" for q
      using that a(2,6) d h(2) by (intro agree_step) auto
    then show ?thesis using T(1) a d h(1) unfolding at_depth_def by auto
  qed
  show "at_depth s nb (Suc d) (child s t 1) r" if h: "r \<noteq> Leaf" "turns_right d nb"
  proof -
    have d: "d < 64" using O(2) h by blast
    have "agree (Suc d) (chunksize s q) nb" if "q \<in> chunks r" for q
      using that a(2,6) d h(2) by (intro agree_step) auto
    then show ?thesis using T(2) a d h(1) unfolding at_depth_def by auto
  qed
  show "chunksize s q < nb" if h: "turns_right d nb" "q \<in> chunks l"
  proof -
    have "l \<noteq> Leaf" using h(2) by auto
    then have "d < 64" using O(2) by blast
    then show ?thesis using a(2,6) h by (intro agree_less [of d]) auto
  qed
  show "nb < chunksize s q" if h: "\<not> turns_right d nb" "q \<in> chunks r"
  proof -
    have "r \<noteq> Leaf" using h(2) by auto
    then have "d < 64" using O(2) by blast
    moreover have "agree d nb (chunksize s q)" using a(6) h(2) by (simp add: agree_def)
    ultimately show ?thesis using a(2) h by (intro agree_less [of d]) auto
  qed
qed

text \<open>What the descent leaves: an exact fit, nothing more to look at, or a subtree of
  larger sizes that holds the best fit if the candidate is not it.\<close>

definition bits_done :: "'w heap \<Rightarrow> u64 \<Rightarrow> u64 set \<Rightarrow> u64 \<Rightarrow> u64 \<times> u64 \<Rightarrow> u64 \<Rightarrow> u64 \<times> u64 \<Rightarrow> bool" where
  "bits_done s nb C rst c0 t c \<longleftrightarrow> taken s nb C c0 c \<and>
     (snd c = 0 \<and> fst c \<in> C \<and> (\<exists>R. searchable s t R \<and> chunks R \<subseteq> C) \<or>
      t = rst \<and> (\<forall>q \<in> C. snd c \<le> chunksize s q - nb) \<or>
      (\<exists>R. searchable s t R \<and> chunks R \<subseteq> C \<and> (\<forall>x \<in> chunks R. nb \<le> chunksize s x) \<and>
        (\<forall>q \<in> C. snd c \<le> chunksize s q - nb \<or> (\<exists>x \<in> chunks R. chunksize s x \<le> chunksize s q))))"

lemma traverse_step:
  "traverse_bits s nb t v r (push_bit d nb) rst =
     (if chunksize s t - nb < r \<and> chunksize s t - nb = 0 then Some (t, t, 0)
      else case better s nb t (v, r) of (v, r) \<Rightarrow>
        let t1 = child s t (if turns_right d nb then 1 else 0);
            rst = (if child s t 1 \<noteq> 0 \<and> child s t 1 \<noteq> t1 then child s t 1 else rst) in
        if t1 = 0 then Some (rst, v, r) else traverse_bits s nb t1 v r (push_bit (Suc d) nb) rst)"
proof -
  have k: "push_bit 1 (push_bit d nb) = push_bit (Suc d) nb" by (simp add: add.commute [of d])
  have b: "drop_bit 63 (push_bit d nb) AND 1 = (if turns_right d nb then 1 else 0)"
    by (simp add: child_bit turns_right_def)
  show ?thesis
    unfolding traverse_bits.simps [of s nb t v r] k b better_def Let_def
    by (rule if_cong [OF refl refl]) (simp split: prod.split)
qed

lemma bits_done_mono:
  assumes "bits_done s nb C rst c1 t c" "taken s nb {x} c0 c1" "insert x C \<subseteq> D"
    "\<And>q. q \<in> D - C \<Longrightarrow> snd c1 \<le> chunksize s q - nb"
  shows "bits_done s nb D rst c0 t c"
proof -
  have tk: "taken s nb C c1 c" using assms(1) by (simp add: bits_done_def)
  have le: "snd c \<le> chunksize s q - nb" if "q \<in> D - C" for q
    using taken_le [OF tk] assms(4) [OF that] by (rule order_trans)
  have tD: "taken s nb D c0 c" using assms(3) by (intro taken_trans [OF assms(2) tk]) auto
  have sub: "C \<subseteq> D" using assms(3) by blast
  consider "snd c = 0" "fst c \<in> C" "\<exists>R. searchable s t R \<and> chunks R \<subseteq> C"
    | "t = rst" "\<forall>q \<in> C. snd c \<le> chunksize s q - nb"
    | R where "searchable s t R" "chunks R \<subseteq> C" "\<forall>x \<in> chunks R. nb \<le> chunksize s x"
      "\<forall>q \<in> C. snd c \<le> chunksize s q - nb \<or> (\<exists>x \<in> chunks R. chunksize s x \<le> chunksize s q)"
    using assms(1) unfolding bits_done_def by auto
  then show ?thesis
  proof cases
    case 1
    then show ?thesis using tD sub unfolding bits_done_def by blast
  next
    case 2
    then have "\<forall>q \<in> D. snd c \<le> chunksize s q - nb" using le by blast
    then show ?thesis using 2(1) tD unfolding bits_done_def by blast
  next
    case (3 R)
    then have "\<forall>q \<in> D. snd c \<le> chunksize s q - nb \<or> (\<exists>x \<in> chunks R. chunksize s x \<le> chunksize s q)"
      using le by blast
    then show ?thesis using 3(1-3) sub tD unfolding bits_done_def by blast
  qed
qed

lemma traverse_bits_tree:
  assumes "at_depth s nb d t T" "r0 \<le> - nb"
  shows "\<exists>t' c. traverse_bits s nb t v0 r0 (push_bit d nb) rst = Some (t', c) \<and>
    bits_done s nb (chunks T) rst (v0, r0) t' c"
  using assms
proof (induction T arbitrary: t v0 r0 d rst)
  case Leaf
  then show ?case by (simp add: at_depth_def)
next
  case (Node t' ring l r)
  note D = at_depth_children [OF Node.prems(1)]
  have t: "t' = t" by (rule D(1))
  let ?C = "chunks (Node t' ring l r)"
  have se: "searchable s t (Node t ring l r)" using at_depth_searchable [OF Node.prems(1)] by (simp add: t)
  note S = searchable_children [OF se]
  show ?case
  proof (cases "chunksize s t - nb < r0 \<and> chunksize s t - nb = 0")
    case True
    then have "traverse_bits s nb t v0 r0 (push_bit d nb) rst = Some (t, t, 0)"
      by (subst traverse_step, subst if_P) (assumption, rule refl)
    moreover have "bits_done s nb ?C rst (v0, r0) t (t, 0)"
      using True se by (auto simp: bits_done_def taken_def t)
    ultimately show ?thesis by blast
  next
    case False
    obtain v1 r1 where c1: "better s nb t (v0, r0) = (v1, r1)" by fastforce
    note b = taken_better [of s nb t "(v0, r0)", unfolded c1]
    have r1: "r1 \<le> - nb" using taken_le [OF b(1)] Node.prems(2) by simp
    have here: "r1 \<le> chunksize s q - nb" if "q \<in> insert t (set ring)" for q
      using that b(2) S(6) by auto
    show ?thesis
    proof (cases "turns_right d nb")
      case right: True
      have low: "r1 \<le> chunksize s q - nb" if "q \<in> chunks l" for q
        using r1 rem_wrap [OF D(4) [OF right that]] by (rule order_trans)
      have run: "traverse_bits s nb t v0 r0 (push_bit d nb) rst =
          (if r = Leaf then Some (rst, v1, r1) else traverse_bits s nb (child s t 1) v1 r1 (push_bit (Suc d) nb) rst)"
        using right c1 S(2) by (subst traverse_step, subst if_not_P [OF False]) (simp add: Let_def)
      show ?thesis
      proof (cases "r = Leaf")
        case True
        have "bits_done s nb ?C rst (v0, r0) rst (v1, r1)"
          using True here low taken_trans [OF b(1), of "{}" "(v1, r1)"]
          by (auto simp: bits_done_def t taken_def)
        then show ?thesis using run True by auto
      next
        case F: False
        then obtain t2 c where c: "traverse_bits s nb (child s t 1) v1 r1 (push_bit (Suc d) nb) rst = Some (t2, c)"
          "bits_done s nb (chunks r) rst (v1, r1) t2 c"
          using Node.IH(2) [OF D(3) [OF F right] r1] by blast
        have "bits_done s nb ?C rst (v0, r0) t2 c"
          using here low by (intro bits_done_mono [OF c(2) b(1)]) (auto simp: t)
        then show ?thesis using run F c(1) by auto
      qed
    next
      case left: False
      let ?rst = "if r = Leaf then rst else child s t 1"
      have high: "nb < chunksize s q" if "q \<in> chunks r" for q using D(5) [OF left that] .
      have ne: "child s t 1 \<noteq> child s t 0" if "r \<noteq> Leaf"
      proof
        assume e: "child s t 1 = child s t 0"
        then have "l \<noteq> Leaf" using S(1,2) that by auto
        then have "child s t 0 \<in> chunks l" "child s t 1 \<in> chunks r"
          using S(3,4) that by (cases l; cases r; auto simp: searchable_def tree_at_Node)+
        then show False using S(5) e by auto
      qed
      have run: "traverse_bits s nb t v0 r0 (push_bit d nb) rst =
          (if l = Leaf then Some (?rst, v1, r1) else traverse_bits s nb (child s t 0) v1 r1 (push_bit (Suc d) nb) ?rst)"
        using left c1 S(1,2) ne by (subst traverse_step, subst if_not_P [OF False]) (auto simp: Let_def)
      have rest: "bits_done s nb ?C rst (v0, r0) (child s t 1) c"
        if h: "r \<noteq> Leaf" "taken s nb (chunks l) (v1, r1) c" "\<forall>q \<in> chunks l. snd c \<le> chunksize s q - nb" for c
      proof -
        have "taken s nb ?C (v0, r0) c" using h(2) by (intro taken_trans [OF b(1)]) (auto simp: t)
        moreover have "snd c \<le> chunksize s q - nb" if "q \<in> insert t (set ring)" for q
          using here [OF that] taken_le [OF h(2)] by simp
        ultimately show ?thesis
          using S(4) [OF h(1)] h(3) high unfolding bits_done_def
          by (intro conjI disjI2 exI [of _ r]) (auto simp: t less_imp_le)
      qed
      show ?thesis
      proof (cases "l = Leaf")
        case True
        have "bits_done s nb ?C rst (v0, r0) ?rst (v1, r1)"
        proof (cases "r = Leaf")
          case R: True
          then show ?thesis
            using True here taken_trans [OF b(1), of "{}" "(v1, r1)"]
            by (auto simp: bits_done_def t taken_def)
        next
          case R: False
          then show ?thesis using rest [OF R, of "(v1, r1)"] True by (simp add: taken_def)
        qed
        then show ?thesis using run True by auto
      next
        case F: False
        then obtain t2 c where c: "traverse_bits s nb (child s t 0) v1 r1 (push_bit (Suc d) nb) ?rst = Some (t2, c)"
          "bits_done s nb (chunks l) ?rst (v1, r1) t2 c"
          using Node.IH(1) [OF D(2) [OF F left] r1] by blast
        have tk: "taken s nb (chunks l) (v1, r1) c" using c(2) by (simp add: bits_done_def)
        have ring: "snd c \<le> chunksize s q - nb" if "q \<in> insert t (set ring)" for q
          using here [OF that] taken_le [OF tk] by simp
        have tk': "taken s nb ?C (v0, r0) c" using tk by (intro taken_trans [OF b(1)]) (auto simp: t)
        have "bits_done s nb ?C rst (v0, r0) t2 c"
        proof (cases "r = Leaf")
          case R: True
          then show ?thesis using here c(2) by (intro bits_done_mono [OF _ b(1)]) (auto simp: t)
        next
          case R: False
          consider (exact) "snd c = 0" "fst c \<in> chunks l" "\<exists>R. searchable s t2 R \<and> chunks R \<subseteq> chunks l"
            | (rest) "t2 = child s t 1" "\<forall>q \<in> chunks l. snd c \<le> chunksize s q - nb"
            | (deeper) R where "searchable s t2 R" "chunks R \<subseteq> chunks l" "\<forall>x \<in> chunks R. nb \<le> chunksize s x"
                "\<forall>q \<in> chunks l. snd c \<le> chunksize s q - nb \<or> (\<exists>x \<in> chunks R. chunksize s x \<le> chunksize s q)"
            using c(2) R unfolding bits_done_def by auto
          then show ?thesis
          proof cases
            case exact
            then show ?thesis using tk' unfolding bits_done_def by auto
          next
            case rest': rest
            then show ?thesis using rest [OF R tk] by simp
          next
            case (deeper R')
            have "R' \<noteq> Leaf" using deeper(1) by (simp add: searchable_def)
            then obtain x where x: "x \<in> chunks R'" using Leaf_chunk by blast
            then have "chunksize s x \<le> chunksize s q" if "q \<in> chunks r" for q
              using S(5) [OF _ that, of x] deeper(2) by auto
            with x have up: "\<exists>x \<in> chunks R'. chunksize s x \<le> chunksize s q" if "q \<in> chunks r" for q
              using that by blast
            show ?thesis
              unfolding bits_done_def
              using tk' deeper ring up by (intro conjI disjI2 exI [of _ R']) (auto simp: t)
          qed
        qed
        then show ?thesis using run F c(1) by auto
      qed
    qed
  qed
qed

subsection \<open>The search of all trees\<close>

definition large_sizes :: "'w heap \<Rightarrow> (u32 \<Rightarrow> trie) \<Rightarrow> bool" where
  "large_sizes s Ts \<longleftrightarrow> (\<forall>q \<in> tree_chunks Ts. MIN_LARGE_SIZE \<le> chunksize s q \<and> chunksize s q < 2 ^ 40)"

lemma root_at_depth:
  assumes inv: "tree_bins m Ts s" "large_sizes s Ts" and i: "i < 32" "Ts i \<noteq> Leaf"
    and c: "MIN_LARGE_SIZE \<le> c" "c < 2 ^ 40" "compute_tree_index c = i"
  shows "at_depth s c (unat (leftshift_for_tree_index i)) (load s (treebin_at m i)) (Ts i)"
proof -
  note D = tree_binsD [OF inv(1) i(1)]
  have z: "0 \<notin> chunks (Ts i)" using D(5) by (auto simp: tree_chunk_def)
  have "unat (leftshift_for_tree_index i) \<le> 64"
    using c(2,1)
  proof (cases rule: tree_index_cases)
    case last
    then show ?thesis using c(3) by (simp add: leftshift_for_tree_index_def)
  next
    case (bin j b)
    then show ?thesis using c(3) leftshift_value [of i j b] by (cases "i = 31") (auto simp: leftshift_for_tree_index_def)
  qed
  moreover have "agree (unat (leftshift_for_tree_index i)) (chunksize s q) c" if "q \<in> chunks (Ts i)" for q
    using inv(2) that D(5,7) c by (intro bin_agree) (auto simp: large_sizes_def)
  ultimately show ?thesis using D(1,3,4) i(2) z unfolding at_depth_def by blast
qed

lemma tree_size:
  assumes "tree_bins m Ts s" "large_sizes s Ts" "i < 32" "p \<in> chunks (Ts i)"
  shows "chunksize s p < 2 ^ 40" "MIN_LARGE_SIZE \<le> chunksize s p" "compute_tree_index (chunksize s p) = i"
proof -
  have "p \<in> tree_chunks Ts" using tree_binsD(7) [OF assms(1,3)] assms(4) by blast
  then show "chunksize s p < 2 ^ 40" "MIN_LARGE_SIZE \<le> chunksize s p"
    using assms(2) unfolding large_sizes_def by blast+
  show "compute_tree_index (chunksize s p) = i" using tree_binsD(5) [OF assms(1,3,4)] by blast
qed

lemma other_bins:
  assumes inv: "tree_bins m Ts s" "large_sizes s Ts" and i: "i < 32" "j < 32" "p \<in> chunks (Ts i)" "q \<in> chunks (Ts j)" "i < j"
  shows "chunksize s p < chunksize s q"
proof -
  note p = tree_size [OF inv i(1,3)] and q = tree_size [OF inv i(2,4)]
  show ?thesis by (rule tree_index_mono [OF p(1,2) q(1,2)]) (simp add: p(3) q(3) i(5))
qed

lemma tree_marks:
  assumes inv: "tree_bins m Ts s" and i: "i < 32"
  shows "bit (treemap s) (unat i) \<longleftrightarrow> Ts i \<noteq> Leaf"
  using tree_binsD(2) [OF inv i] and_idx2bit [OF i] by (simp add: treemap_is_marked_def)

text \<open>A fit in one bin is a fit in all, when it is there or nothing is between.\<close>

lemma fit_all:
  assumes inv: "tree_bins m Ts s" "large_sizes s Ts" and i: "i < 32" "compute_tree_index nb \<le> i"
    and nb: "MIN_LARGE_SIZE \<le> nb" "nb < 2 ^ 40"
    and fit: "fit_in s nb (chunks (Ts i)) (0, - nb) c"
    and up: "(\<exists>x \<in> chunks (Ts i). nb \<le> chunksize s x \<and> snd c \<le> chunksize s x - nb) \<or>
      (\<forall>j. i < j \<and> j < 32 \<longrightarrow> Ts j = Leaf)"
    and between: "\<And>j. compute_tree_index nb \<le> j \<Longrightarrow> j < i \<Longrightarrow> \<forall>q \<in> chunks (Ts j). chunksize s q < nb"
  shows "fit_in s nb (tree_chunks Ts) (0, - nb) c"
proof -
  have tk: "taken s nb (chunks (Ts i)) (0, - nb) c" using fit by (simp add: fit_in_def)
  have low: "snd c \<le> chunksize s q - nb" if "chunksize s q < nb" for q
    using taken_le [OF tk] rem_wrap [OF that] by simp
  have "snd c \<le> chunksize s q - nb" if q: "q \<in> chunks (Ts j)" "j < 32" for q j
  proof -
    consider "j = i" | "compute_tree_index nb \<le> j" "j < i" | "j < compute_tree_index nb" | "i < j"
      by (meson linorder_neqE not_le)
    then show ?thesis
    proof cases
      case 1
      then show ?thesis using fit q(1) by (simp add: fit_in_def)
    next
      case 2
      then show ?thesis using between q(1) by (intro low) blast
    next
      case 3
      note z = tree_size [OF inv q(2,1)]
      show ?thesis by (rule low, rule tree_index_mono [OF z(1,2) nb(2,1)]) (simp add: z(3) 3)
    next
      case 4
      then have "Ts j \<noteq> Leaf" using q(1) by auto
      then obtain x where x: "x \<in> chunks (Ts i)" "nb \<le> chunksize s x" "snd c \<le> chunksize s x - nb"
        using up 4 q(2) by blast
      have "chunksize s x - nb \<le> chunksize s q - nb"
        using other_bins [OF inv i(1) q(2) x(1) q(1) 4] x(2) by (intro rem_mono) auto
      then show ?thesis using x(3) by simp
    qed
  qed
  moreover have "taken s nb (tree_chunks Ts) (0, - nb) c"
    using tk i(1) unfolding taken_def by (auto simp: tree_chunks_def)
  ultimately show ?thesis unfolding fit_in_def by (simp add: tree_chunks_def)
qed

lemma taken_fits:
  assumes "taken s nb C (v0, - nb) c" "c \<noteq> (v0, - nb)"
  shows "fst c \<in> C \<and> nb \<le> chunksize s (fst c) \<and> snd c = chunksize s (fst c) - nb"
proof -
  have c: "fst c \<in> C" "snd c = chunksize s (fst c) - nb" "snd c < - nb" using assms by (auto simp: taken_def)
  have "nb \<le> chunksize s (fst c)"
  proof (rule ccontr)
    assume "\<not> nb \<le> chunksize s (fst c)"
    then have "- nb \<le> snd c" unfolding c(2) by (intro rem_wrap) simp
    then show False using c(3) by simp
  qed
  then show ?thesis using c by blast
qed

text \<open>The bin of the request, when the search ends in it.\<close>

lemma fit_here:
  assumes inv: "tree_bins m Ts s" "large_sizes s Ts" and nb: "MIN_LARGE_SIZE \<le> nb" "nb < 2 ^ 40"
    and fit: "fit_in s nb (chunks (Ts (compute_tree_index nb))) (0, - nb) c" and c: "c \<noteq> (0, - nb)"
  shows "fit_in s nb (tree_chunks Ts) (0, - nb) c"
proof -
  let ?i = "compute_tree_index nb"
  have i: "?i < 32" by (rule compute_tree_index_less [OF nb(2,1)])
  have "taken s nb (chunks (Ts ?i)) (0, - nb) c" using fit by (simp add: fit_in_def)
  note f = taken_fits [OF this c]
  show ?thesis
    by (rule fit_all [OF inv i order_refl nb fit]) (use f in auto)
qed

lemma neg_not_small: "0 < nb \<Longrightarrow> nb \<le> a \<Longrightarrow> a - nb < - nb" for nb :: u64
proof -
  assume a: "0 < nb" "nb \<le> a"
  have "unat (a - nb) = unat a - unat nb" using a(2) by (rule unat_sub)
  moreover have "unat a < 2 ^ 64" using unat_less_exp [of a] by simp
  moreover have "unat nb \<le> unat a" using a(2) by (simp add: word_le_nat_alt)
  moreover have "unat (- nb) = 2 ^ 64 - unat nb" using a(1) by (intro unat_neg) simp
  ultimately show ?thesis unfolding word_less_nat_alt by linarith
qed

lemma leftmost_fit_0: "leftmost_fit s nb 0 v r = Some (v, r)"
  by (subst leftmost_fit.simps) simp

lemma fit_trans:
  assumes "taken s nb C c0 c1" "fit_in s nb (chunks R) c1 c" "chunks R \<subseteq> C"
    "\<And>q. q \<in> C \<Longrightarrow> snd c1 \<le> chunksize s q - nb \<or> (\<exists>x \<in> chunks R. chunksize s x - nb \<le> chunksize s q - nb)"
  shows "fit_in s nb C c0 c"
proof -
  have c: "taken s nb (chunks R) c1 c" "\<And>x. x \<in> chunks R \<Longrightarrow> snd c \<le> chunksize s x - nb"
    using assms(2) by (simp_all add: fit_in_def)
  have "snd c \<le> chunksize s q - nb" if "q \<in> C" for q
    using assms(4) [OF that] taken_le [OF c(1)] c(2) by (meson order_trans)
  moreover have "taken s nb C c0 c" using taken_trans [OF assms(1) c(1) order_refl assms(3)] .
  ultimately show ?thesis by (simp add: fit_in_def)
qed

text \<open>The search in the next larger non-empty bin.\<close>

definition next_bin_root :: "u64 \<Rightarrow> 'w heap \<Rightarrow> u32 \<Rightarrow> u64" where
  "next_bin_root m s idx =
     (let leftbits = left_bits (idx2bit idx) AND treemap s in
      if leftbits \<noteq> 0 then load s (treebin_at m (compute_bit2idx (least_bit leftbits))) else 0)"

lemma next_bin_fit:
  assumes inv: "tree_bins m Ts s" "large_sizes s Ts" and nb: "MIN_LARGE_SIZE \<le> nb" "nb < 2 ^ 40"
    and here: "\<forall>q \<in> chunks (Ts (compute_tree_index nb)). chunksize s q < nb"
  shows "\<exists>c. leftmost_fit s nb (next_bin_root m s (compute_tree_index nb)) 0 (- nb) = Some c \<and>
    fit_in s nb (tree_chunks Ts) (0, - nb) c"
proof -
  let ?i = "compute_tree_index nb"
  let ?L = "left_bits (idx2bit ?i) AND treemap s"
  have i: "?i < 32" by (rule compute_tree_index_less [OF nb(2,1)])
  have low: "- nb \<le> chunksize s q - nb" if "q \<in> chunks (Ts ?i)" for q
    using here that by (intro rem_wrap) blast
  show ?thesis
  proof (cases "?L = 0")
    case True
    have up: "Ts j = Leaf" if "?i < j" "j < 32" for j
    proof (rule ccontr)
      assume "Ts j \<noteq> Leaf"
      then have "bit (treemap s) (unat j)" using tree_marks [OF inv(1) that(2)] by blast
      moreover have "unat ?i < unat j" "unat j < 32" using that by (simp_all add: word_less_nat_alt)
      ultimately have "bit ?L (unat j)" by (simp add: bit_and_iff bit_left_bits_idx2bit [OF i])
      then show False using True by simp
    qed
    have "fit_in s nb (chunks (Ts ?i)) (0, - nb) (0, - nb)" using low by (simp add: fit_in_def taken_def)
    then have "fit_in s nb (tree_chunks Ts) (0, - nb) (0, - nb)"
      by (rule fit_all [OF inv i order_refl nb]) (use up in auto)
    then show ?thesis using True by (simp add: next_bin_root_def leftmost_fit_0)
  next
    case False
    define k where "k = compute_bit2idx (least_bit ?L)"
    have k: "?i < k" "k < 32" "bit (treemap s) (unat k)"
      "\<And>j. unat ?i < j \<Longrightarrow> j < unat k \<Longrightarrow> \<not> bit (treemap s) j"
      using next_bin_first [OF i False] unfolding k_def by blast+
    have ne: "Ts k \<noteq> Leaf" using tree_marks [OF inv(1) k(2)] k(3) by blast
    then obtain x where x: "x \<in> chunks (Ts k)" using Leaf_chunk by blast
    note z = tree_size [OF inv k(2)]
    have big: "nb < chunksize s q" if "q \<in> chunks (Ts k)" for q
      by (rule tree_index_mono [OF nb(2,1) z(1,2) [OF that]]) (simp only: z(3) [OF that] k(1))
    have se: "searchable s (load s (treebin_at m k)) (Ts k)"
      using root_at_depth [OF inv k(2) ne z(2,1,3) [OF x]] by (rule at_depth_searchable)
    have "\<forall>q \<in> chunks (Ts k). nb \<le> chunksize s q" using big less_imp_le by blast
    then obtain c where c: "leftmost_fit s nb (load s (treebin_at m k)) 0 (- nb) = Some c"
      "fit_in s nb (chunks (Ts k)) (0, - nb) c"
      using leftmost_fit_tree [OF se] by blast
    have "snd c \<le> chunksize s x - nb" using c(2) x by (simp add: fit_in_def)
    then have up: "\<exists>x \<in> chunks (Ts k). nb \<le> chunksize s x \<and> snd c \<le> chunksize s x - nb"
      using x big [OF x] by (intro bexI [of _ x]) auto
    have "fit_in s nb (tree_chunks Ts) (0, - nb) c"
    proof (rule fit_all [OF inv k(2) less_imp_le [OF k(1)] nb c(2)])
      show "\<forall>q \<in> chunks (Ts j). chunksize s q < nb" if j: "?i \<le> j" "j < k" for j
      proof (cases "j = ?i")
        case False
        then have "unat ?i < unat j" "unat j < unat k" using j by (auto simp: word_less_nat_alt word_le_nat_alt
          word_unat_eq_iff)
        then have "\<not> bit (treemap s) (unat j)" by (rule k(4))
        then have "Ts j = Leaf" using tree_marks [OF inv(1), of j] j(2) k(2) by auto
        then show ?thesis by simp
      qed (use here in simp)
    qed (use up in blast)
    then show ?thesis using False c(1) by (simp add: next_bin_root_def k_def)
  qed
qed

lemma tmalloc_large_fit_eq:
  "tmalloc_large_fit m nb s =
     (let idx = compute_tree_index nb; t = load s (treebin_at m idx) in
      do {
        (t, v, rsize) \<leftarrow>
          (if t \<noteq> 0 then
             traverse_bits s nb t 0 (- nb) (push_bit (unat (leftshift_for_tree_index idx)) nb) 0
           else Some (t, 0, - nb));
        leftmost_fit s nb (if t = 0 \<and> v = 0 then next_bin_root m s idx else t) v rsize
      })"
  by (auto simp: tmalloc_large_fit_def next_bin_root_def Let_def intro!: Option.bind_cong split: prod.split)

lemma tmalloc_large_fit_best:
  assumes inv: "tree_bins m Ts s" "large_sizes s Ts" and nb: "MIN_LARGE_SIZE \<le> nb" "nb < 2 ^ 40"
  shows "\<exists>c. tmalloc_large_fit m nb s = Some c \<and> fit_in s nb (tree_chunks Ts) (0, - nb) c"
proof -
  let ?i = "compute_tree_index nb"
  let ?t = "load s (treebin_at m ?i)" and ?C = "chunks (Ts ?i)"
  have i: "?i < 32" by (rule compute_tree_index_less [OF nb(2,1)])
  note D = tree_binsD [OF inv(1) i]
  have z: "0 \<notin> ?C" using D(5) by (auto simp: tree_chunk_def)
  have none: "\<forall>q \<in> ?C. chunksize s q < nb" if "\<forall>q \<in> ?C. - nb \<le> chunksize s q - nb"
  proof (rule ccontr)
    assume "\<not> ?thesis"
    then obtain q where "q \<in> ?C" "nb \<le> chunksize s q" by auto
    moreover have "0 < nb" using nb(1) by (auto simp: word_less_nat_alt word_le_nat_alt)
    ultimately show False using that neg_not_small [of nb "chunksize s q"] by auto
  qed
  show ?thesis
  proof (cases "Ts ?i = Leaf")
    case True
    then have "?t = 0" using D(1) by simp
    then show ?thesis using next_bin_fit [OF inv nb] True by (simp add: tmalloc_large_fit_eq Let_def)
  next
    case False
    have t: "?t \<noteq> 0" using tree_at_root [OF D(1) z] False by simp
    obtain t' c where c: "traverse_bits s nb ?t 0 (- nb) (push_bit (unat (leftshift_for_tree_index ?i)) nb) 0
        = Some (t', c)" "bits_done s nb ?C 0 (0, - nb) t' c"
      using traverse_bits_tree [OF root_at_depth [OF inv i False nb refl] order_refl, of 0 0] by blast
    have run: "tmalloc_large_fit m nb s =
        leftmost_fit s nb (if t' = 0 \<and> fst c = 0 then next_bin_root m s ?i else t') (fst c) (snd c)"
      using t c(1) by (simp add: tmalloc_large_fit_eq Let_def split: prod.split)
    have tk: "taken s nb ?C (0, - nb) c" using c(2) by (simp add: bits_done_def)
    consider (exact) R where "snd c = 0" "fst c \<in> ?C" "searchable s t' R" "chunks R \<subseteq> ?C"
      | (path) "t' = 0" "\<forall>q \<in> ?C. snd c \<le> chunksize s q - nb"
      | (sub) R where "searchable s t' R" "chunks R \<subseteq> ?C" "\<forall>x \<in> chunks R. nb \<le> chunksize s x"
          "\<forall>q \<in> ?C. snd c \<le> chunksize s q - nb \<or> (\<exists>x \<in> chunks R. chunksize s x \<le> chunksize s q)"
      using c(2) unfolding bits_done_def by blast
    then show ?thesis
    proof cases
      case exact
      have "fst c \<noteq> 0" using exact(2) z by auto
      moreover obtain c' where c': "leftmost_fit s nb t' (fst c) (snd c) = Some c'"
        "fit_in s nb (chunks R) c c'"
        using leftmost_fit_tree [OF exact(3), of nb "snd c" "fst c"] exact(1) unfolding prod.collapse by blast
      moreover have fit: "fit_in s nb ?C (0, - nb) c'"
        using exact(1) by (intro fit_trans [OF tk _ exact(4)]) (use c'(2) in auto)
      moreover have "c' \<noteq> (0, - nb)"
        using c'(2) exact(1,2) z \<open>fst c \<noteq> 0\<close> by (auto simp: fit_in_def taken_def)
      ultimately show ?thesis using fit_here [OF inv nb fit] run by auto
    next
      case path
      have fit: "fit_in s nb ?C (0, - nb) c" using tk path(2) by (simp add: fit_in_def)
      show ?thesis
      proof (cases "c = (0, - nb)")
        case True
        then have "\<forall>q \<in> ?C. chunksize s q < nb" using path(2) by (intro none) simp
        then show ?thesis using next_bin_fit [OF inv nb] run path(1) True by simp
      next
        case F: False
        then have "fst c \<noteq> 0" using taken_fits [OF tk] z by auto
        then show ?thesis using fit_here [OF inv nb fit F] run path(1) by (simp add: leftmost_fit_0)
      qed
    next
      case (sub R)
      have t': "t' \<noteq> 0" using sub(1) by (simp add: searchable_def)
      obtain c' where c': "leftmost_fit s nb t' (fst c) (snd c) = Some c'"
        "fit_in s nb (chunks R) c c'"
        using leftmost_fit_tree [OF sub(1), of nb "snd c" "fst c"] sub(3) unfolding prod.collapse by blast
      have le: "\<exists>x \<in> chunks R. chunksize s x - nb \<le> chunksize s q - nb"
        if "\<exists>x \<in> chunks R. chunksize s x \<le> chunksize s q" for q
        using that sub(3) rem_mono by blast
      have fit: "fit_in s nb ?C (0, - nb) c'"
        using sub(4) le by (intro fit_trans [OF tk _ sub(2)]) (use c'(2) in auto)
      obtain x where x: "x \<in> chunks R" using sub(1) Leaf_chunk by (auto simp: searchable_def)
      have "c' \<noteq> (0, - nb)"
      proof
        assume "c' = (0, - nb)"
        then have "- nb \<le> chunksize s x - nb" using c'(2) x by (auto simp: fit_in_def)
        moreover have "0 < nb" using nb(1) by (auto simp: word_less_nat_alt word_le_nat_alt)
        ultimately show False using neg_not_small [of nb "chunksize s x"] sub(3) x by auto
      qed
      then show ?thesis using fit_here [OF inv nb fit] run t' c'(1) by auto
    qed
  qed
qed

text \<open>The search of \<open>tmalloc_small\<close>: the smallest chunk of all trees.\<close>

lemma least_tree_fit:
  assumes inv: "tree_bins m Ts s" "large_sizes s Ts" and nb: "0 < nb" "nb < MIN_LARGE_SIZE" and ne: "treemap s \<noteq> 0"
  defines "t \<equiv> load s (treebin_at m (compute_bit2idx (least_bit (treemap s))))"
  shows "t \<noteq> 0 \<and> (\<exists>c. leftmost_fit s nb (leftmost_child s t) t (chunksize s t - nb) = Some c \<and>
    fit_in s nb (tree_chunks Ts) (0, - nb) c \<and> c \<noteq> (0, - nb))"
proof -
  let ?i = "compute_bit2idx (least_bit (treemap s))"
  have u: "unat ?i = builtin_ctz (treemap s)" by (rule unat_bit2idx [OF ne])
  note z = builtin_ctz_least [OF ne]
  have i: "?i < 32" using u z(1) by (simp add: word_less_nat_alt)
  have Ti: "Ts ?i \<noteq> Leaf" using tree_marks [OF inv(1) i] z(2) u by simp
  have low: "Ts j = Leaf" if "j < ?i" for j
  proof -
    have "j < 32" using that i by simp
    moreover have "\<not> bit (treemap s) (unat j)" using that z(3) u by (simp add: word_less_nat_alt)
    ultimately show ?thesis using tree_marks [OF inv(1)] by blast
  qed
  obtain x where x: "x \<in> chunks (Ts ?i)" using Leaf_chunk [OF Ti] by blast
  note tz = tree_size [OF inv i]
  have se: "searchable s t (Ts ?i)"
    unfolding t_def using root_at_depth [OF inv i Ti tz(2,1,3) [OF x]] by (rule at_depth_searchable)
  have t0: "t \<noteq> 0" and tc: "t \<in> chunks (Ts ?i)"
  proof -
    obtain par where "tree_at s t par (Ts ?i)" using se unfolding searchable_def by blast
    then show "t \<in> chunks (Ts ?i)" by (rule tree_at_cases [OF _ Ti]) simp
    show "t \<noteq> 0" using se by (simp add: searchable_def)
  qed
  have big: "nb \<le> chunksize s q" if "q \<in> tree_chunks Ts" for q
    using that inv(2) nb(2) unfolding large_sizes_def by (meson less_imp_le less_le_trans)
  have sub: "chunks (Ts ?i) \<subseteq> tree_chunks Ts" by (rule tree_binsD(7) [OF inv(1) i])
  have "better s nb t (0, - nb) = (t, chunksize s t - nb)"
    using neg_not_small [OF nb(1) big] tc sub by (auto simp: better_def)
  then have run: "leftmost_fit s nb t 0 (- nb) = leftmost_fit s nb (leftmost_child s t) t (chunksize s t - nb)"
    using t0 leftmost_step [of s nb t 0 "- nb"] by simp
  have "\<forall>q \<in> chunks (Ts ?i). nb \<le> chunksize s q" using big sub by blast
  then obtain c where c: "leftmost_fit s nb t 0 (- nb) = Some c" "fit_in s nb (chunks (Ts ?i)) (0, - nb) c"
    using leftmost_fit_tree [OF se] by blast
  have ct: "snd c \<le> chunksize s q - nb" if q: "q \<in> tree_chunks Ts" for q
  proof -
    obtain j where j: "j < 32" "q \<in> chunks (Ts j)" using q by (auto simp: tree_chunks_def)
    have "\<not> j < ?i" using low j(2) by auto
    then consider "j = ?i" | "?i < j" by (meson linorder_neqE)
    then show ?thesis
    proof cases
      case 1
      then show ?thesis using c(2) j(2) by (simp add: fit_in_def)
    next
      case 2
      have "snd c \<le> chunksize s x - nb" using c(2) x by (simp add: fit_in_def)
      also have "\<dots> \<le> chunksize s q - nb"
        using other_bins [OF inv i j(1) x j(2) 2] big sub x by (intro rem_mono) auto
      finally show ?thesis .
    qed
  qed
  moreover have "taken s nb (tree_chunks Ts) (0, - nb) c"
    using c(2) sub unfolding fit_in_def taken_def by auto
  moreover have "c \<noteq> (0, - nb)"
  proof
    assume "c = (0, - nb)"
    then have "- nb \<le> chunksize s x - nb" using ct [of x] x sub by auto
    moreover have "chunksize s x - nb < - nb" using neg_not_small [OF nb(1) big] x sub by blast
    ultimately show False by simp
  qed
  moreover have "leftmost_fit s nb (leftmost_child s t) t (chunksize s t - nb) = Some c" using run c(1) by simp
  ultimately show ?thesis using t0 unfolding fit_in_def by blast
qed

subsection \<open>The best fit in a table of free chunks\<close>

definition best_fit :: "(u64 \<Rightarrow> u64 set) \<Rightarrow> u64 \<Rightarrow> u64 \<Rightarrow> u64 \<Rightarrow> bool" where
  "best_fit T nb v S \<longleftrightarrow> v \<in> T S \<and> nb \<le> S \<and> (\<forall>R. nb \<le> R \<and> R < S \<and> \<not> is_small R \<longrightarrow> T R = {})"

lemma bins_hold_large:
  assumes "bins_hold m L Ts s"
  shows "large_sizes s Ts" "\<not> is_small S \<Longrightarrow> p \<in> bin_chunks L Ts \<and> chunksize s p = S \<longleftrightarrow> p \<in> tree_chunks Ts \<and> chunksize s p = S"
proof -
  note D = bins_holdD [OF assms]
  show "large_sizes s Ts"
    using D(4,5) by (auto simp: large_sizes_def bin_chunks_def small_or_large good_size_def not_less)
  show "\<not> is_small S \<Longrightarrow> p \<in> bin_chunks L Ts \<and> chunksize s p = S \<longleftrightarrow> p \<in> tree_chunks Ts \<and> chunksize s p = S"
    using D(3) by (auto simp: bin_chunks_def small_chunks_def)
qed

lemma fit_in_table:
  assumes L: "bins_hold m L Ts s" "T = (\<lambda>S. {p \<in> bin_chunks L Ts. chunksize s p = S})"
    and fit: "fit_in s nb (tree_chunks Ts) (0, - nb) (v, r)" and nb: "0 < nb"
  shows "(v, r) = (0, - nb) \<and> (\<forall>S. nb \<le> S \<and> \<not> is_small S \<longrightarrow> T S = {}) \<or>
    v \<noteq> 0 \<and> (\<exists>S. \<not> is_small S \<and> r = S - nb \<and> best_fit T nb v S)"
proof -
  have tk: "taken s nb (tree_chunks Ts) (0, - nb) (v, r)" using fit by (simp add: fit_in_def)
  have le: "r \<le> chunksize s q - nb" if "q \<in> tree_chunks Ts" for q using fit that by (simp add: fit_in_def)
  have T: "q \<in> T S \<Longrightarrow> \<not> is_small S \<Longrightarrow> q \<in> tree_chunks Ts \<and> chunksize s q = S" for q S
    using bins_hold_large(2) [OF L(1)] unfolding L(2) by blast
  show ?thesis
  proof (cases "(v, r) = (0, - nb)")
    case True
    have "T S = {}" if S: "nb \<le> S" "\<not> is_small S" for S
    proof (rule ccontr)
      assume "T S \<noteq> {}"
      then obtain q where "q \<in> T S" by blast
      then have "- nb \<le> S - nb" using T [OF _ S(2)] le [of q] True by auto
      then show False using neg_not_small [OF nb S(1)] by simp
    qed
    then show ?thesis using True by blast
  next
    case False
    note f = taken_fits [OF tk False]
    let ?S = "chunksize s v"
    have v: "v \<in> tree_chunks Ts" "nb \<le> ?S" "r = ?S - nb" using f by auto
    have ns: "\<not> is_small ?S" using bins_holdD(4) [OF L(1) v(1)] .
    have "v \<noteq> 0" using tree_chunks_outside [OF bins_holdD(2) [OF L(1)] v(1)] by (simp add: tree_chunk_def)
    moreover have "T R = {}" if R: "nb \<le> R" "R < ?S" "\<not> is_small R" for R
    proof (rule ccontr)
      assume "T R \<noteq> {}"
      then obtain q where "q \<in> T R" by blast
      then have "?S - nb \<le> R - nb" using T [OF _ R(3)] le [of q] v(3) by auto
      then show False using R v(2) by (simp add: word_le_nat_alt word_less_nat_alt unat_sub)
    qed
    moreover have "v \<in> T ?S" using v(1) by (simp add: L(2) bin_chunks_def)
    ultimately show ?thesis using v ns unfolding best_fit_def by blast
  qed
qed

lemma tmalloc_large_fit_table:
  assumes "free_table m T s" "MIN_LARGE_SIZE \<le> nb" "nb < 2 ^ 40"
  shows "\<exists>v r. tmalloc_large_fit m nb s = Some (v, r) \<and>
    ((v, r) = (0, - nb) \<and> (\<forall>S. nb \<le> S \<longrightarrow> T S = {}) \<or>
     v \<noteq> 0 \<and> (\<exists>S. r = S - nb \<and> best_fit T nb v S))"
proof -
  obtain L Ts where L: "bins_hold m L Ts s" "T = (\<lambda>S. {p \<in> bin_chunks L Ts. chunksize s p = S})"
    using free_tableE [OF assms(1)] by blast
  obtain v r where c: "tmalloc_large_fit m nb s = Some (v, r)" "fit_in s nb (tree_chunks Ts) (0, - nb) (v, r)"
    using tmalloc_large_fit_best [OF bins_holdD(2) [OF L(1)] bins_hold_large(1) [OF L(1)] assms(2,3)] by auto
  have nb: "0 < nb" using assms(2) by (auto simp: word_less_nat_alt word_le_nat_alt)
  have "\<not> is_small S" if "nb \<le> S" for S using assms(2) that by (simp add: small_or_large)
  then show ?thesis using c fit_in_table [OF L c(2) nb] by blast
qed

subsection \<open>Properties\<close>

text \<open>
  Property C10. The search of \<open>tmalloc_large\<close> ends and finds the best fit: a chunk of the
  smallest size in the bins that is at least the request, with the remainder of the split, or
  0 when there is no such chunk.
\<close>

theorem tmalloc_large_finds_best_fit:
  assumes "free_table m T s" "MIN_LARGE_SIZE \<le> nb" "nb < 2 ^ 40"
  shows "\<exists>v r. tmalloc_large_fit m nb s = Some (v, r) \<and>
    (if v = 0 then \<forall>S \<ge> nb. T S = {}
     else \<exists>S \<ge> nb. v \<in> T S \<and> r = S - nb \<and> (\<forall>R. nb \<le> R \<and> R < S \<longrightarrow> T R = {}))"
proof -
  have big: "\<not> is_small R" if "nb \<le> R" for R using assms(2) that by (simp add: small_or_large)
  show ?thesis
    using tmalloc_large_fit_table [OF assms] big unfolding best_fit_def by fastforce
qed

theorem tmalloc_large_finds_best_fit_witness:
  "\<exists>s :: unit heap. tmalloc_large_fit 0x1000 304 s = Some (0x20000, 208)"
proof -
  have g: "good_size 512" by (simp add: good_size_def is_aligned_def)
  let ?T = "(\<lambda>_. {})(512 := {0x20000}) :: u64 \<Rightarrow> u64 set"
  obtain s where s: "free_table 0x1000 ?T (s :: unit heap)"
    using freed.put_law [OF two_free_table g two_free_chunks(2)] by auto
  obtain v r where v: "tmalloc_large_fit 0x1000 304 s = Some (v, r)"
    "if v = 0 then \<forall>S \<ge> 304. ?T S = {}
     else \<exists>S \<ge> 304. v \<in> ?T S \<and> r = S - 304 \<and> (\<forall>R. 304 \<le> R \<and> R < S \<longrightarrow> ?T R = {})"
    using tmalloc_large_finds_best_fit [OF s, of 304] by auto
  have "v \<noteq> 0"
  proof
    assume "v = 0"
    then have "\<forall>S \<ge> 304. ?T S = {}" using v(2) by simp
    then show False by (auto dest: spec [of _ 512])
  qed
  then have "v = 0x20000 \<and> r = 208" using v(2) by (auto split: if_splits)
  then show ?thesis using v(1) by blast
qed

end
