(* ===== verification/Layout.thy ===== *)
theory Layout
  imports BestFit
begin

text \<open>
  The layout of the heap: chunks in use, idle chunks and the top chunk, with the boundary tags
  that link each chunk to its neighbours. Taking an idle chunk, splitting it, cutting a chunk
  from top and giving one back, merged with its idle neighbours, keep the layout.
\<close>

subsection \<open>Tags\<close>

lemma tag_bits:
  fixes h :: u64
  shows "(h OR 1) AND 1 = 1" "(h OR 1) AND 2 = h AND 2" "(h OR 1) AND NOT 7 = h AND NOT 7"
    "(h AND NOT 1) AND 1 = 0" "(h AND NOT 1) AND 2 = h AND 2" "(h AND NOT 1) AND NOT 7 = h AND NOT 7"
proof -
  show "(h OR 1) AND 1 = 1" "(h OR 1) AND 2 = h AND 2" "(h OR 1) AND NOT 7 = h AND NOT 7"
    by (simp_all add: bit.conj_disj_distrib2)
  show "(h AND NOT 1) AND 1 = 0" "(h AND NOT 1) AND 2 = h AND 2" "(h AND NOT 1) AND NOT 7 = h AND NOT 7"
    by (simp_all add: and.assoc)
qed

lemma inuse_bits:
  fixes h z :: u64
  assumes "is_aligned z"
  shows "((h AND 1) OR z OR 2) AND NOT 7 = z" "((h AND 1) OR z OR 2) AND 1 = h AND 1"
    "((h AND 1) OR z OR 2) AND 2 = 2"
  by (simp_all add: bit.conj_disj_distrib2 aligned_and_low [OF assms] and.assoc)

lemma tag_fields:
  "chunksize s p = head s p AND NOT 7" "pinuse s p \<longleftrightarrow> head s p AND 1 \<noteq> 0" "cinuse s p \<longleftrightarrow> head s p AND 2 \<noteq> 0"
  by (simp_all add: chunksize_def pinuse_def cinuse_def)

text \<open>Reading tags after writing a head or a foot.\<close>

lemma tags_set_head:
  "chunksize (set_head p v s) q = (if q = p then v AND NOT 7 else chunksize s q)"
  "pinuse (set_head p v s) q \<longleftrightarrow> (if q = p then v AND 1 \<noteq> 0 else pinuse s q)"
  "cinuse (set_head p v s) q \<longleftrightarrow> (if q = p then v AND 2 \<noteq> 0 else cinuse s q)"
  "is_aligned p \<Longrightarrow> is_aligned q \<Longrightarrow> prev_foot (set_head p v s) q = prev_foot s q"
  using aligned_apart [of q p] by (auto simp: tag_fields link_cells)

lemma tags_set_foot:
  assumes "is_aligned p" "is_aligned q"
  shows "chunksize (set_prev_foot p v s) q = chunksize s q" "pinuse (set_prev_foot p v s) q = pinuse s q"
    "cinuse (set_prev_foot p v s) q = cinuse s q"
    "prev_foot (set_prev_foot p v s) q = (if q = p then v else prev_foot s q)"
  using aligned_apart [of p q] assms by (auto simp: tag_fields link_cells)

lemma set_head_scalars [simp]:
  "topc (set_head p v s) = topc s" "topsize (set_head p v s) = topsize s"
  "least_addr (set_head p v s) = least_addr s" "dv (set_head p v s) = dv s" "dvsize (set_head p v s) = dvsize s"
  "smallmap (set_head p v s) = smallmap s" "treemap (set_head p v s) = treemap s"
  by (simp_all add: set_head_def)

lemma set_foot_scalars [simp]:
  "topc (set_prev_foot p v s) = topc s" "topsize (set_prev_foot p v s) = topsize s"
  "least_addr (set_prev_foot p v s) = least_addr s" "dv (set_prev_foot p v s) = dv s" "dvsize (set_prev_foot p v s) = dvsize s"
  "smallmap (set_prev_foot p v s) = smallmap s" "treemap (set_prev_foot p v s) = treemap s"
  by (simp_all add: set_prev_foot_def)

lemmas tag_write_defs = set_inuse_and_pinuse_def set_inuse_def set_free_with_pinuse_def
  set_size_and_pinuse_of_inuse_chunk_def set_size_and_pinuse_of_free_chunk_def set_foot_def clear_pinuse_def Let_def

text \<open>What the macros write, read at chunk addresses.\<close>

lemma tags_set_pinuse:
  "chunksize (set_head p (head s p OR 1) s) q = chunksize s q"
  "pinuse (set_head p (head s p OR 1) s) q \<longleftrightarrow> q = p \<or> pinuse s q"
  "cinuse (set_head p (head s p OR 1) s) q = cinuse s q"
  unfolding tag_fields link_cells(9) using tag_bits [of "head s p"] by (auto simp del: bit.conj_disj_distrib2)

lemma tags_clear_pinuse:
  "chunksize (set_head p (head s p AND NOT 1) s) q = chunksize s q"
  "pinuse (set_head p (head s p AND NOT 1) s) q \<longleftrightarrow> q \<noteq> p \<and> pinuse s q"
  "cinuse (set_head p (head s p AND NOT 1) s) q = cinuse s q"
  unfolding tag_fields link_cells(9) using tag_bits(4-6) [of "head s p"] by (auto simp del: word_not_simps)

lemma tags_inuse_head:
  assumes "is_aligned z"
  shows "chunksize (set_head p (z OR 1 OR 2) s) q = (if q = p then z else chunksize s q)"
    "pinuse (set_head p (z OR 1 OR 2) s) q \<longleftrightarrow> q = p \<or> pinuse s q"
    "cinuse (set_head p (z OR 1 OR 2) s) q \<longleftrightarrow> q = p \<or> cinuse s q"
    "chunksize (set_head p ((head s p AND 1) OR z OR 2) s) q = (if q = p then z else chunksize s q)"
    "pinuse (set_head p ((head s p AND 1) OR z OR 2) s) q = pinuse s q"
    "cinuse (set_head p ((head s p AND 1) OR z OR 2) s) q \<longleftrightarrow> q = p \<or> cinuse s q"
    "chunksize (set_head p (z OR 1) s) q = (if q = p then z else chunksize s q)"
    "pinuse (set_head p (z OR 1) s) q \<longleftrightarrow> q = p \<or> pinuse s q"
    "cinuse (set_head p (z OR 1) s) q \<longleftrightarrow> q \<noteq> p \<and> cinuse s q"
  using head_of_inuse [OF assms] head_of_top [OF assms] inuse_bits [OF assms, of "head s p"]
  unfolding tag_fields link_cells(9) by (simp_all add: or.assoc)

lemma set_inuse_tags:
  assumes "is_aligned p" "is_aligned z"
  shows "chunksize (set_inuse p z s) q = (if q = p then z else chunksize s q)"
    "pinuse (set_inuse p z s) q \<longleftrightarrow> q = p + z \<or> pinuse s q"
    "cinuse (set_inuse p z s) q \<longleftrightarrow> q = p \<or> cinuse s q"
    "is_aligned q \<Longrightarrow> prev_foot (set_inuse p z s) q = prev_foot s q"
  using is_aligned_add [OF assms(1), of z] assms
  unfolding set_inuse_def Let_def flag_consts
  by (simp_all only: tags_set_pinuse tags_inuse_head [OF assms(2)] tags_set_head(4))

lemma set_inuse_and_pinuse_tags:
  assumes "is_aligned p" "is_aligned z"
  shows "chunksize (set_inuse_and_pinuse p z s) q = (if q = p then z else chunksize s q)"
    "pinuse (set_inuse_and_pinuse p z s) q \<longleftrightarrow> q = p + z \<or> q = p \<or> pinuse s q"
    "cinuse (set_inuse_and_pinuse p z s) q \<longleftrightarrow> q = p \<or> cinuse s q"
    "is_aligned q \<Longrightarrow> prev_foot (set_inuse_and_pinuse p z s) q = prev_foot s q"
  using is_aligned_add [OF assms(1), of z] assms
  unfolding set_inuse_and_pinuse_def Let_def flag_consts
  by (simp_all only: tags_set_pinuse tags_inuse_head [OF assms(2)] tags_set_head(4))

lemma set_free_chunk_tags:
  assumes "is_aligned p" "is_aligned z" "is_aligned q"
  shows "chunksize (set_size_and_pinuse_of_free_chunk p z s) q = (if q = p then z else chunksize s q)"
    "pinuse (set_size_and_pinuse_of_free_chunk p z s) q \<longleftrightarrow> q = p \<or> pinuse s q"
    "cinuse (set_size_and_pinuse_of_free_chunk p z s) q \<longleftrightarrow> q \<noteq> p \<and> cinuse s q"
    "prev_foot (set_size_and_pinuse_of_free_chunk p z s) q = (if q = p + z then z else prev_foot s q)"
  using is_aligned_add [OF assms(1), of z] assms
  unfolding set_size_and_pinuse_of_free_chunk_def set_foot_def flag_consts
  by (simp_all only: tags_set_foot tags_inuse_head [OF assms(2)] tags_set_head(4))

lemma clear_pinuse_tags:
  "chunksize (clear_pinuse p s) q = chunksize s q"
  "pinuse (clear_pinuse p s) q \<longleftrightarrow> q \<noteq> p \<and> pinuse s q"
  "cinuse (clear_pinuse p s) q = cinuse s q"
  "is_aligned p \<Longrightarrow> is_aligned q \<Longrightarrow> prev_foot (clear_pinuse p s) q = prev_foot s q"
  unfolding clear_pinuse_def flag_consts by (simp_all only: tags_clear_pinuse tags_set_head(4))

lemma set_free_with_pinuse_tags:
  assumes "is_aligned p" "is_aligned z" "is_aligned q" "is_aligned n"
  shows "chunksize (set_free_with_pinuse p z n s) q = (if q = p then z else chunksize s q)"
    "pinuse (set_free_with_pinuse p z n s) q \<longleftrightarrow> q = p \<or> q \<noteq> n \<and> pinuse s q"
    "cinuse (set_free_with_pinuse p z n s) q \<longleftrightarrow> q \<noteq> p \<and> cinuse s q"
    "prev_foot (set_free_with_pinuse p z n s) q = (if q = p + z then z else prev_foot s q)"
  using assms unfolding set_free_with_pinuse_def
  by (simp_all only: set_free_chunk_tags [OF assms(1-3)] clear_pinuse_tags)

lemma tag_writes_scalars [simp]:
  "topc (set_inuse p z s) = topc s" "topsize (set_inuse p z s) = topsize s"
  "least_addr (set_inuse p z s) = least_addr s"
  "topc (set_inuse_and_pinuse p z s) = topc s" "topsize (set_inuse_and_pinuse p z s) = topsize s"
  "least_addr (set_inuse_and_pinuse p z s) = least_addr s"
  "topc (set_free_with_pinuse p z n s) = topc s" "topsize (set_free_with_pinuse p z n s) = topsize s"
  "least_addr (set_free_with_pinuse p z n s) = least_addr s"
  "topc (set_size_and_pinuse_of_free_chunk p z s) = topc s" "topsize (set_size_and_pinuse_of_free_chunk p z s) = topsize s"
  "least_addr (set_size_and_pinuse_of_free_chunk p z s) = least_addr s"
  "topc (set_size_and_pinuse_of_inuse_chunk p z s) = topc s" "topsize (set_size_and_pinuse_of_inuse_chunk p z s) = topsize s"
  "least_addr (set_size_and_pinuse_of_inuse_chunk p z s) = least_addr s"
  by (simp_all add: tag_write_defs)

lemma free_tableD:
  assumes "free_table m T s" "q \<in> T z"
  shows "good_size z" "sized_chunk m s q z"
    "\<And>p w. p \<in> T w \<Longrightarrow> p \<noteq> q \<Longrightarrow> no_overlap p w q z" "\<And>w. q \<in> T w \<Longrightarrow> w = z"
proof -
  obtain L Ts where L: "bins_hold m L Ts s" "T = (\<lambda>S. {p \<in> bin_chunks L Ts. chunksize s p = S})"
    using free_tableE [OF assms(1)] by blast
  note D = bins_holdD [OF L(1)]
  have q: "q \<in> bin_chunks L Ts" "chunksize s q = z" using assms(2) by (simp_all add: L(2))
  show "good_size z" "sized_chunk m s q z" using D(5) [OF q(1)] q(2) by (simp_all add: sized_chunk_def)
  show "no_overlap p w q z" if "p \<in> T w" "p \<noteq> q" for p w
    using D(6) [OF _ q(1) that(2)] that(1) q(2) by (auto simp: L(2))
  show "w = z" if "q \<in> T w" for w using that q(2) by (simp add: L(2))
qed

subsection \<open>The layout\<close>

type_synonym sizes = "u64 \<Rightarrow> u64 option"

definition block :: "sizes \<Rightarrow> sizes \<Rightarrow> 'w heap \<Rightarrow> u64 \<Rightarrow> u64 \<Rightarrow> bool" where
  "block U G s p z \<longleftrightarrow> U p = Some z \<or> G p = Some z \<or> p = topc s \<and> z = topsize s + TOP_FOOT_SIZE"

text \<open>
  All chunks lie below top, and the space up to the end of top is clear of the state and smaller
  than \<open>2 ^ 40\<close>.
\<close>

definition below_top :: "'w heap \<Rightarrow> u64 \<Rightarrow> u64 \<Rightarrow> bool" where
  "below_top s p z \<longleftrightarrow> unat p + unat z \<le> unat (topc s)"

definition arena :: "'w heap \<Rightarrow> u64" where
  "arena s = topc s + topsize s + TOP_FOOT_SIZE - least_addr s"

definition top_ok :: "u64 \<Rightarrow> 'w heap \<Rightarrow> bool" where
  "top_ok m s \<longleftrightarrow> is_aligned (topc s) \<and> is_aligned (topsize s) \<and> 0 < topsize s \<and>
     0 < least_addr s \<and> least_addr s \<le> topc s \<and>
     unat (topc s) + unat (topsize s) < unat (least_addr s) + 2 ^ 40 \<and>
     unat (topc s) + unat (topsize s) + unat TOP_FOOT_SIZE + 64 \<le> 2 ^ 64 \<and>
     no_overlap m 936 (least_addr s) (arena s) \<and>
     chunksize s (topc s) = topsize s \<and> pinuse s (topc s) \<and> \<not> cinuse s (topc s)"

definition heap_layout :: "u64 \<Rightarrow> sizes \<Rightarrow> sizes \<Rightarrow> 'w heap \<Rightarrow> bool" where
  "heap_layout m U G s \<longleftrightarrow>
     (\<forall>p z. U p = Some z \<longrightarrow> good_size z \<and> sized_chunk m s p z \<and> below_top s p z \<and> cinuse s p \<and> pinuse s (p + z) \<and>
        (p + z \<in> dom U \<or> p + z \<in> dom G \<or> p + z = topc s)) \<and>
     (\<forall>p z. G p = Some z \<longrightarrow> good_size z \<and> sized_chunk m s p z \<and> below_top s p z \<and> pinuse s p \<and> \<not> cinuse s p \<and>
        prev_foot s (p + z) = z \<and> \<not> pinuse s (p + z) \<and> p + z \<in> dom U) \<and>
     (top_ok m s \<and> G (topc s) = None) \<and>
     (\<forall>p z. U p = Some z \<longrightarrow> \<not> pinuse s p \<longrightarrow> G (p - prev_foot s p) = Some (prev_foot s p)) \<and>
     (\<forall>p z q w. block U G s p z \<longrightarrow> block U G s q w \<longrightarrow> p \<noteq> q \<longrightarrow> no_overlap p z q w)"

lemma layoutD:
  assumes "heap_layout m U G s"
  shows "\<And>p z. U p = Some z \<Longrightarrow> good_size z \<and> sized_chunk m s p z \<and> below_top s p z \<and> cinuse s p \<and> pinuse s (p + z) \<and>
        (p + z \<in> dom U \<or> p + z \<in> dom G \<or> p + z = topc s)"
    "\<And>p z. G p = Some z \<Longrightarrow> good_size z \<and> sized_chunk m s p z \<and> below_top s p z \<and> pinuse s p \<and> \<not> cinuse s p \<and>
        prev_foot s (p + z) = z \<and> \<not> pinuse s (p + z) \<and> p + z \<in> dom U"
    "top_ok m s \<and> G (topc s) = None"
    "\<And>p z. U p = Some z \<Longrightarrow> \<not> pinuse s p \<Longrightarrow> G (p - prev_foot s p) = Some (prev_foot s p)"
    "\<And>p z q w. block U G s p z \<Longrightarrow> block U G s q w \<Longrightarrow> p \<noteq> q \<Longrightarrow> no_overlap p z q w"
  using assms by (simp_all add: heap_layout_def)

lemma good_sizeD:
  assumes "good_size z"
  shows "is_aligned z" "32 \<le> z" "z < 2 ^ 40" "z AND 1 = 0" "z AND 2 = 0" "z AND NOT 7 = z"
    "8 < z" "16 < z" "0 < z"
  using assms aligned_and_low [of z] by (auto simp: good_size_def word_less_nat_alt word_le_nat_alt)

text \<open>The kinds of chunks are told apart by their tags.\<close>

lemma layout_kinds:
  assumes "heap_layout m U G s"
  shows "U p = Some z \<Longrightarrow> G p = None" "G p = Some z \<Longrightarrow> U p = None" "U (topc s) = None" "G (topc s) = None"
    "U p = Some z \<Longrightarrow> p \<noteq> topc s" "G p = Some z \<Longrightarrow> p \<noteq> topc s"
proof -
  note D = layoutD [OF assms]
  show "G p = None" if "U p = Some z" using D(1) [OF that] D(2) [of p] by (cases "G p") auto
  then show "U p = None" if "G p = Some z" using D(1) [of p] D(2) [OF that] by (cases "U p") auto
  show "U (topc s) = None" using D(1) [of "topc s"] D(3) by (cases "U (topc s)") (auto simp: top_ok_def)
  show "G (topc s) = None" using D(3) by blast
  then show "p \<noteq> topc s" if "G p = Some z" using that by auto
  show "p \<noteq> topc s" if "U p = Some z" using \<open>U (topc s) = None\<close> that by auto
qed

lemma layout_aligned:
  assumes "heap_layout m U G s"
  shows "U p = Some z \<Longrightarrow> is_aligned p" "G p = Some z \<Longrightarrow> is_aligned p" "is_aligned (topc s)"
  using layoutD(1-3) [OF assms]
  by (auto simp: sized_chunk_def tree_chunk_def chunk_at_def top_ok_def)

text \<open>The layout depends on the heads and feet of its chunks and on the top chunk.\<close>

definition tags_same :: "u64 set \<Rightarrow> 'w heap \<Rightarrow> 'w heap \<Rightarrow> bool" where
  "tags_same N s s' \<longleftrightarrow> (\<forall>q \<in> N. chunksize s' q = chunksize s q \<and> pinuse s' q = pinuse s q \<and> cinuse s' q = cinuse s q \<and>
       prev_foot s' q = prev_foot s q) \<and>
     topc s' = topc s \<and> topsize s' = topsize s \<and> least_addr s' = least_addr s"

definition chunk_starts :: "sizes \<Rightarrow> sizes \<Rightarrow> 'w heap \<Rightarrow> u64 set" where
  "chunk_starts U G s = dom U \<union> dom G \<union> {topc s}"

lemma starts_aligned: "heap_layout m U G s \<Longrightarrow> q \<in> chunk_starts U G s \<Longrightarrow> is_aligned q"
  using layout_aligned [of m U G s] by (auto simp: chunk_starts_def)

lemma layout_frame_foot:
  assumes "heap_layout m U G s" "topc s' = topc s" "topsize s' = topsize s" "least_addr s' = least_addr s"
    and tags: "\<And>q. q \<in> chunk_starts U G s \<Longrightarrow> chunksize s' q = chunksize s q \<and> pinuse s' q = pinuse s q \<and>
      cinuse s' q = cinuse s q \<and> (\<not> pinuse s q \<longrightarrow> prev_foot s' q = prev_foot s q)"
  shows "heap_layout m U G s'"
proof -
  note D = layoutD [OF assms(1)]
  note e = assms(2-4)
  have c: "tree_chunk m s' q = tree_chunk m s q" for q by (rule tree_chunk_frame [OF e(3)])
  have h: "chunksize s' q = chunksize s q" "pinuse s' q = pinuse s q" "cinuse s' q = cinuse s q" "\<not> pinuse s q \<Longrightarrow> prev_foot s' q = prev_foot s q"
    "sized_chunk m s' q z = sized_chunk m s q z" if "q \<in> dom U \<or> q \<in> dom G \<or> q = topc s" for q z
  proof -
    have "q \<in> chunk_starts U G s" using that by (auto simp: chunk_starts_def)
    then show "chunksize s' q = chunksize s q" "pinuse s' q = pinuse s q" "cinuse s' q = cinuse s q"
      "\<not> pinuse s q \<Longrightarrow> prev_foot s' q = prev_foot s q" "sized_chunk m s' q z = sized_chunk m s q z"
      using tags [of q] by (simp_all add: sized_chunk_def c)
  qed
  show ?thesis
    unfolding heap_layout_def
  proof (intro conjI allI impI)
    fix p z assume p: "U p = Some z"
    then have P: "p \<in> dom U \<or> p \<in> dom G \<or> p = topc s" by auto
    note N = D(1) [OF p]
    then have n: "p + z \<in> dom U \<or> p + z \<in> dom G \<or> p + z = topc s" by blast
    show "good_size z" "sized_chunk m s' p z" "cinuse s' p" "pinuse s' (p + z)" "below_top s' p z"
      using N h [OF P] h [OF n] by (auto simp: below_top_def e)
    show "p + z \<in> dom U \<or> p + z \<in> dom G \<or> p + z = topc s'" using n e by simp
    show "G (p - prev_foot s' p) = Some (prev_foot s' p)" if "\<not> pinuse s' p"
      using D(4) [OF p] that h [OF P] by simp
  next
    fix p z assume p: "G p = Some z"
    then have P: "p \<in> dom U \<or> p \<in> dom G \<or> p = topc s" by auto
    note N = D(2) [OF p]
    then have n: "p + z \<in> dom U \<or> p + z \<in> dom G \<or> p + z = topc s" by blast
    show "good_size z" "sized_chunk m s' p z" "p + z \<in> dom U" "pinuse s' p" "\<not> cinuse s' p"
      "prev_foot s' (p + z) = z" "\<not> pinuse s' (p + z)" "below_top s' p z"
      using N h [OF P] h [OF n] by (auto simp: below_top_def e)
  next
    show "top_ok m s'" "G (topc s') = None"
      using D(3) h [of "topc s"] by (simp_all add: top_ok_def arena_def e c)
  next
    fix p z q w assume "block U G s' p z" "block U G s' q w" "p \<noteq> q"
    then show "no_overlap p z q w" using D(5) by (simp add: block_def e)
  qed
qed

lemma layout_frame:
  assumes "heap_layout m U G s" "tags_same (chunk_starts U G s) s s'"
  shows "heap_layout m U G s'"
  using assms(2) by (intro layout_frame_foot [OF assms(1)]) (simp_all add: tags_same_def)

subsection \<open>Taking an idle chunk\<close>

lemma layout_take:
  assumes lay: "heap_layout m U G s" and p: "G p = Some S"
  shows "heap_layout m (U(p \<mapsto> S)) (G(p := None)) (set_inuse_and_pinuse p S s)"
proof -
  let ?s = "set_inuse_and_pinuse p S s"
  note D = layoutD [OF lay] and K = layout_kinds [OF lay] and A = layout_aligned [OF lay]
  note P = D(2) [OF p]
  have good: "good_size S" using P by blast
  note z = good_sizeD [OF good]
  obtain w where w: "U (p + S) = Some w" using P by blast
  have ne: "p \<noteq> topc s" "p + S \<noteq> topc s" "U p = None" "G (p + S) = None" using K p w by blast+
  have e: "topc ?s = topc s" "topsize ?s = topsize s" "least_addr ?s = least_addr s"
    by simp_all
  note T = set_inuse_and_pinuse_tags [OF A(2) [OF p] z(1)]
  have c: "sized_chunk m ?s q y \<longleftrightarrow> (if q = p then y = S else sized_chunk m s q y)" for q y
    using P by (auto simp: sized_chunk_def tree_chunk_frame [OF e(3)] T)
  show ?thesis
    unfolding heap_layout_def
  proof (intro conjI allI impI)
    fix q y assume q: "(U(p \<mapsto> S)) q = Some y"
    have "is_aligned q" using q A(1,2) p by (auto split: if_splits)
    note f = T(4) [OF this]
    note Q = D(1) [of q y]
    show "good_size y" "sized_chunk m ?s q y" "cinuse ?s q" "pinuse ?s (q + y)" "below_top ?s q y"
      using q P Q by (auto simp: c T below_top_def e split: if_splits)
    show "q + y \<in> dom (U(p \<mapsto> S)) \<or> q + y \<in> dom (G(p := None)) \<or> q + y = topc ?s"
      using q Q w by (auto simp: e split: if_splits)
    show "(G(p := None)) (q - prev_foot ?s q) = Some (prev_foot ?s q)" if n: "\<not> pinuse ?s q"
    proof -
      have n: "q \<noteq> p" "q \<noteq> p + S" "\<not> pinuse s q" using n by (simp_all add: T)
      then have g: "G (q - prev_foot s q) = Some (prev_foot s q)" using D(4) [of q y] q by simp
      moreover have "q - prev_foot s q \<noteq> p"
      proof
        assume e: "q - prev_foot s q = p"
        then have "prev_foot s q = S" using g p by simp
        then show False using n e by (simp add: algebra_simps)
      qed
      ultimately show ?thesis by (simp add: f)
    qed
  next
    fix q y assume q: "(G(p := None)) q = Some y"
    then have q': "G q = Some y" "q \<noteq> p" by (auto split: if_splits)
    note Q = D(2) [OF q'(1)]
    obtain v where v: "U (q + y) = Some v" using Q by blast
    have n: "q \<noteq> p + S" "q + y \<noteq> p" using q' v ne by auto
    have "q + y \<noteq> p + S"
    proof
      assume "q + y = p + S"
      then show False using Q P q'(2) by (metis add_right_cancel)
    qed
    then show "good_size y" "q + y \<in> dom (U(p \<mapsto> S))" "sized_chunk m ?s q y" "pinuse ?s q" "\<not> cinuse ?s q"
      "prev_foot ?s (q + y) = y" "\<not> pinuse ?s (q + y)" "below_top ?s q y"
      using Q q'(2) n by (auto simp: c T A(1) [OF v] below_top_def e)
  next
    show "top_ok m ?s" "(G(p := None)) (topc ?s) = None"
      using D(3) ne by (simp_all add: top_ok_def arena_def e T)
  next
    fix x y q w assume b: "block (U(p \<mapsto> S)) (G(p := None)) ?s x y" "block (U(p \<mapsto> S)) (G(p := None)) ?s q w" "x \<noteq> q"
    have "block U G s x y" if "block (U(p \<mapsto> S)) (G(p := None)) ?s x y" for x y
      using that p by (auto simp: block_def e split: if_splits)
    then show "no_overlap x y q w" using D(5) b by blast
  qed
qed

subsection \<open>Giving back a chunk between chunks in use\<close>

lemma no_overlap_ends:
  assumes "no_overlap p S q R" "0 < S" "0 < R"
  shows "p + S \<noteq> q + R"
proof
  assume "p + S = q + R"
  then have d: "q - p = S - R" "p - q = R - S" by (simp_all add: algebra_simps)
  show False
  proof (cases "R \<le> S")
    case True
    then have "S - R < S" using assms(2,3) by (simp add: word_le_nat_alt word_less_nat_alt unat_sub)
    then show False using assms(1) d by (simp add: no_overlap_def flip: not_less)
  next
    case False
    then have "R - S < R" using assms(2,3) by (simp add: word_le_nat_alt word_less_nat_alt unat_sub)
    then show False using assms(1) d by (simp add: no_overlap_def flip: not_less)
  qed
qed

lemma top_bounds:
  assumes "top_ok m s"
  shows "unat (topsize s) < 2 ^ 40" "unat (topsize s + 80) = unat (topsize s) + 80"
proof -
  have "unat (least_addr s) \<le> unat (topc s)" using assms by (simp add: top_ok_def word_le_nat_alt)
  then show b: "unat (topsize s) < 2 ^ 40" using assms by (simp add: top_ok_def)
  then show "unat (topsize s + 80) = unat (topsize s) + 80" by (simp add: unat_word_ariths)
qed

lemma block_ends:
  assumes "heap_layout m U G s" "block U G s p z" "block U G s q y" "p \<noteq> q"
  shows "p + z \<noteq> q + y"
proof -
  have "0 < z" if "block U G s p z" for p z
  proof -
    have "0 < topsize s + 80" using top_bounds(2) [of m s] layoutD(3) [OF assms(1)] by (simp add: word_less_nat_alt)
    then show ?thesis
      using that layoutD(1,2) [OF assms(1)] good_sizeD(9) [of z] by (auto simp: block_def)
  qed
  then show ?thesis using no_overlap_ends layoutD(5) [OF assms(1) assms(2-4)] assms(2,3) by blast
qed

lemma layout_give:
  assumes lay: "heap_layout m U G s" and p: "U p = Some S" "pinuse s p" "p + S \<in> dom U"
  shows "heap_layout m (U(p := None)) (G(p \<mapsto> S)) (set_free_with_pinuse p S (p + S) s)"
proof -
  let ?s = "set_free_with_pinuse p S (p + S) s"
  note D = layoutD [OF lay] and K = layout_kinds [OF lay] and A = layout_aligned [OF lay]
  note P = D(1) [OF p(1)]
  have good: "good_size S" using P by blast
  note z = good_sizeD [OF good]
  obtain w where w: "U (p + S) = Some w" using p(3) by blast
  have ne: "p \<noteq> topc s" "p + S \<noteq> topc s" "G p = None" "G (p + S) = None" "p + S \<noteq> p"
    using K p w z(9) by auto
  have e: "topc ?s = topc s" "topsize ?s = topsize s" "least_addr ?s = least_addr s"
    by simp_all
  note T = set_free_with_pinuse_tags [OF A(1) [OF p(1)] z(1) _ A(1) [OF w], of _ s]
  have c: "sized_chunk m ?s q y \<longleftrightarrow> (if q = p then y = S else sized_chunk m s q y)" if "is_aligned q" for q y
    using P by (auto simp: sized_chunk_def tree_chunk_frame [OF e(3)] T [OF that])
  have ends: "q + y \<noteq> p + S" if "U q = Some y \<or> G q = Some y" "q \<noteq> p" for q y
    using block_ends [OF lay _ _ that(2), of y S] that(1) p(1) by (auto simp: block_def)
  show ?thesis
    unfolding heap_layout_def
  proof (intro conjI allI impI)
    fix q y assume q: "(U(p := None)) q = Some y"
    then have q': "U q = Some y" "q \<noteq> p" by (auto split: if_splits)
    note f = T [OF A(1) [OF q'(1)]] and Q = D(1) [OF q'(1)]
    have "is_aligned (q + y)" using Q A by auto
    then show "good_size y" "sized_chunk m ?s q y" "cinuse ?s q" "pinuse ?s (q + y)" "below_top ?s q y"
      using Q q'(2) ends [of q y] q'(1) by (auto simp: c [OF A(1) [OF q'(1)]] f T below_top_def e)
    show "q + y \<in> dom (U(p := None)) \<or> q + y \<in> dom (G(p \<mapsto> S)) \<or> q + y = topc ?s"
      using Q by (auto simp: e)
    show "(G(p \<mapsto> S)) (q - prev_foot ?s q) = Some (prev_foot ?s q)" if n: "\<not> pinuse ?s q"
      using n D(4) [OF q'(1)] ne(3) by (auto simp: f)
  next
    fix q y assume q: "(G(p \<mapsto> S)) q = Some y"
    have "is_aligned q" using q A(1,2) p by (auto split: if_splits)
    note f = T [OF this] c [OF this]
    have n: "q + y \<noteq> p" "q + y \<noteq> p + S" if "q \<noteq> p"
      using q that D(2) [of q y] p(2) ends [of q y] by auto
    have "q + y \<in> dom U" using q D(2) [of q y] p(3) by (auto split: if_splits)
    then obtain v where v: "U (q + y) = Some v" by blast
    show "good_size y" "q + y \<in> dom (U(p := None))" "sized_chunk m ?s q y" "pinuse ?s q" "\<not> cinuse ?s q"
      "prev_foot ?s (q + y) = y" "\<not> pinuse ?s (q + y)" "below_top ?s q y"
      using q D(2) [of q y] P n ne v by (auto simp: f T [OF A(1) [OF v]] below_top_def e split: if_splits)
  next
    show "top_ok m ?s" "(G(p \<mapsto> S)) (topc ?s) = None"
      using D(3) ne by (simp_all add: top_ok_def arena_def e T [OF A(3)])
  next
    fix x y q w assume b: "block (U(p := None)) (G(p \<mapsto> S)) ?s x y" "block (U(p := None)) (G(p \<mapsto> S)) ?s q w" "x \<noteq> q"
    have "block U G s x y" if "block (U(p := None)) (G(p \<mapsto> S)) ?s x y" for x y
      using that p by (auto simp: block_def e split: if_splits)
    then show "no_overlap x y q w" using D(5) b by blast
  qed
qed

subsection \<open>Cutting and joining chunks in use\<close>

lemma no_overlap_parts:
  assumes "no_overlap p S q w" "unat a + unat b \<le> unat S" "0 < b"
  shows "no_overlap (p + a) b q w"
proof -
  have d: "unat S \<le> unat (q - p)" "unat w \<le> unat (p - q)" using assms(1) by (simp_all add: no_overlap_def word_le_nat_alt)
  have b: "0 < unat b" using assms(3) by (simp add: word_less_nat_alt)
  have "q - p \<noteq> 0"
  proof
    assume "q - p = 0"
    then have "unat (q - p) = 0" by simp
    then show False using d assms(2) b by linarith
  qed
  then have m: "unat (p - q) = 2 ^ 64 - unat (q - p)" using unat_neg [of "q - p"] by simp
  have a: "unat a < unat (q - p)" using assms(2) b d(1) by linarith
  moreover have "unat (q - p) < 2 ^ 64" using unat_less_exp [of "q - p"] by simp
  ultimately have "unat (p - q + a) = unat (p - q) + unat a" using m by (simp add: unat_word_ariths)
  moreover have "unat (q - p - a) = unat (q - p) - unat a" using a by (simp add: unat_sub word_le_nat_alt)
  ultimately have "unat b \<le> unat (q - p - a)" "unat w \<le> unat (p - q + a)" using assms(2) d by linarith+
  then have "b \<le> q - p - a" "w \<le> p - q + a" by (simp_all only: word_le_nat_alt)
  then show ?thesis by (simp add: no_overlap_def algebra_simps)
qed

lemma arena_part:
  assumes top: "top_ok m s" and p: "is_aligned p" "least_addr s \<le> p" "0 < b"
    and ends: "unat p + unat b \<le> unat (topc s) + unat (topsize s) + 80" "unat p + 64 \<le> unat (topc s) + unat (topsize s) + 80"
  shows "tree_chunk m s p" "clear_of_state m p b"
proof -
  let ?l = "least_addr s" and ?A = "arena s"
  have t: "unat ?l \<le> unat (topc s)" "unat (topc s) + unat (topsize s) < unat ?l + 2 ^ 40" "0 < unat ?l"
    "no_overlap m 936 ?l ?A" "unat (topc s) + unat (topsize s) + 144 \<le> 2 ^ 64"
    using top by (simp_all add: top_ok_def word_le_nat_alt word_less_nat_alt)
  have lp: "unat ?l \<le> unat p" using p(2) by (simp add: word_le_nat_alt)
  define a where "a = p - ?l"
  have a: "unat a = unat p - unat ?l" "p = ?l + a" using p(2) by (simp_all add: a_def unat_sub)
  have "unat (topc s - ?l) = unat (topc s) - unat ?l" using t(1) by (simp add: unat_sub word_le_nat_alt)
  then have "unat (topc s - ?l + (topsize s + 80)) = unat (topc s) - unat ?l + unat (topsize s) + 80"
    using t(1,2) top_bounds(2) [OF top] by (simp add: unat_word_ariths)
  moreover have "?A = topc s - ?l + (topsize s + 80)" by (simp add: arena_def)
  ultimately have A: "unat ?A = unat (topc s) - unat ?l + unat (topsize s) + 80" by simp
  have N: "no_overlap (?l + a) c m 936" if "unat a + unat c \<le> unat ?A" "0 < c" for c
    using no_overlap_parts [OF t(4) [unfolded no_overlap_sym [of m]] that] .
  have b: "unat p + unat b + 64 \<le> 2 ^ 64" "unat p + 128 \<le> 2 ^ 64" using ends t(5) by linarith+
  have "unat (- 64 - p) = 2 ^ 64 - 64 - unat p" using b(2) by (subst unat_sub) (simp_all add: word_le_nat_alt)
  then have "b \<le> - 64 - p" using b(1) by (simp add: word_le_nat_alt)
  moreover have "no_overlap p b m 936" using N [of b] ends(1) p(3) lp A a by simp
  ultimately show "clear_of_state m p b" by (simp add: clear_of_state_def no_overlap_sym [of m])
  have "no_overlap p 64 m 936" using N [of 64] ends(2) lp A a by simp
  then have "outside_state m p" by (simp add: outside_state_def no_overlap_def)
  moreover have "p \<noteq> 0" "p \<le> - 64" using lp t(3) b(2) by (auto simp: word_le_nat_alt)
  ultimately show "tree_chunk m s p" using p(1,2) by (simp add: tree_chunk_def chunk_at_def ok_address_def)
qed

lemma layout_part:
  assumes lay: "heap_layout m U G s" and p: "U p = Some S \<or> G p = Some S"
    and ab: "unat a + unat b \<le> unat S" "0 < b" "is_aligned a"
  shows "unat (p + a) = unat p + unat a" "tree_chunk m s (p + a)" "clear_of_state m (p + a) b" "below_top s (p + a) b"
    "\<And>q w. block U G s q w \<Longrightarrow> q \<noteq> p \<Longrightarrow> no_overlap (p + a) b q w"
proof -
  have P: "sized_chunk m s p S" "below_top s p S" "is_aligned p"
    using p layoutD(1,2) [OF lay] layout_aligned(1,2) [OF lay] by blast+
  have top: "top_ok m s" using layoutD(3) [OF lay] by blast
  have e: "unat p + unat S \<le> unat (topc s)" using P(2) by (simp add: below_top_def)
  then show pa: "unat (p + a) = unat p + unat a"
    using ab(1) unat_less_exp [of "topc s"] by (simp add: unat_word_ariths)
  have "least_addr s \<le> p + a"
    using P(1) pa by (simp add: sized_chunk_def tree_chunk_def chunk_at_def ok_address_def word_le_nat_alt)
  moreover have "unat (p + a) + unat b \<le> unat (topc s)" using pa ab(1) e by simp
  moreover have "unat (p + a) + 64 \<le> unat (topc s) + unat (topsize s) + 80" using pa ab(1) e by simp
  ultimately show "tree_chunk m s (p + a)" "clear_of_state m (p + a) b" "below_top s (p + a) b"
    using arena_part [OF top _ _ ab(2)] P(3) ab(3) by (simp_all add: is_aligned_add below_top_def)
  show "no_overlap (p + a) b q w" if "block U G s q w" "q \<noteq> p" for q w
    using p layoutD(5) [OF lay _ that(1)] that(2) by (intro no_overlap_parts [OF _ ab(1,2)]) (auto simp: block_def)
qed

lemma layout_cut:
  assumes lay: "heap_layout m U G s" and p: "U p = Some (nb + R)" and g: "good_size nb" "good_size R"
  shows "heap_layout m (U(p \<mapsto> nb, p + nb \<mapsto> R)) G (set_inuse (p + nb) R (set_inuse p nb s))"
proof -
  let ?s = "set_inuse (p + nb) R (set_inuse p nb s)" and ?r = "p + nb"
  note D = layoutD [OF lay] and K = layout_kinds [OF lay] and A = layout_aligned [OF lay]
  note P = D(1) [OF p] and zn = good_sizeD [OF g(1)] and zr = good_sizeD [OF g(2)]
  have S: "unat (nb + R) = unat nb + unat R"
    using zn(3) zr(3) by (simp add: unat_word_ariths word_less_nat_alt)
  note R = layout_part [OF lay disjI1 [OF p] _ zr(9) zn(1), unfolded S, OF le_refl]
  have "unat (0 :: u64) + unat nb \<le> unat (nb + R)" "is_aligned 0" by (simp_all add: S is_aligned_def)
  note N = layout_part [OF lay disjI1 [OF p] this(1) zn(9) this(2), unfolded add_0_right]
  have al: "is_aligned ?r" using zn(1) A(1) [OF p] by (simp add: is_aligned_add)
  have out: "x \<noteq> ?r" if "block U G s x w" "0 < w" for x w
  proof (cases "x = p")
    case False
    then have "no_overlap ?r R x w" using R(5) that(1) by blast
    then show ?thesis using that(2) by (auto simp: no_overlap_def)
  qed (use zn(9) in auto)
  have r: "U ?r = None" "G ?r = None" "?r \<noteq> topc s" "?r \<noteq> p"
  proof -
    show "U ?r = None" using out [of ?r] D(1) [of ?r] good_sizeD(9) by (cases "U ?r") (auto simp: block_def)
    show "G ?r = None" using out [of ?r] D(2) [of ?r] good_sizeD(9) by (cases "G ?r") (auto simp: block_def)
    show "?r \<noteq> topc s" using out [of "topc s" "topsize s + 80"] D(3) top_bounds(2) [of m s]
      by (auto simp: block_def word_less_nat_alt)
    show "?r \<noteq> p" using zn(9) by auto
  qed
  have e: "topc ?s = topc s" "topsize ?s = topsize s" "least_addr ?s = least_addr s" by simp_all
  note T = set_inuse_tags [OF al zr(1)] set_inuse_tags [OF A(1) [OF p] zn(1)]
  have pin: "pinuse s (?r + R)" using P by (simp add: add.assoc)
  have c: "sized_chunk m ?s q y \<longleftrightarrow>
      (if q = ?r then y = R else if q = p then y = nb else sized_chunk m s q y)" for q y
    using P R(2,3) N(3) r(4) by (auto simp: sized_chunk_def tree_chunk_frame [OF e(3)] T)
  have below: "below_top ?s q y = below_top s q y" for q y by (simp add: below_top_def)
  show ?thesis
    unfolding heap_layout_def
  proof (intro conjI allI impI)
    fix q y assume q: "(U(p \<mapsto> nb, ?r \<mapsto> R)) q = Some y"
    have "is_aligned q" using q A(1) p al by (auto split: if_splits)
    note f = T(4,8) [OF this]
    note Q = D(1) [of q y]
    show "good_size y" "sized_chunk m ?s q y" "cinuse ?s q" "pinuse ?s (q + y)" "below_top ?s q y"
      using q g P pin R(4) N(4) Q by (auto simp: c T below split: if_splits)
    show "q + y \<in> dom (U(p \<mapsto> nb, ?r \<mapsto> R)) \<or> q + y \<in> dom G \<or> q + y = topc ?s"
      using q Q P by (auto simp: e add.assoc split: if_splits)
    show "G (q - prev_foot ?s q) = Some (prev_foot ?s q)" if n: "\<not> pinuse ?s q"
      using n q D(4) [of q y] D(4) [OF p] by (auto simp: f T split: if_splits)
  next
    fix q y assume q: "G q = Some y"
    note Q = D(2) [OF q]
    obtain v where v: "U (q + y) = Some v" using Q by blast
    have n: "q \<noteq> p" "q \<noteq> ?r" "q + y \<noteq> ?r" "q + y \<noteq> ?r + R" using q K(1) [OF p] r v Q pin by auto
    show "good_size y" "q + y \<in> dom (U(p \<mapsto> nb, ?r \<mapsto> R))" "sized_chunk m ?s q y" "pinuse ?s q" "\<not> cinuse ?s q"
      "prev_foot ?s (q + y) = y" "\<not> pinuse ?s (q + y)" "below_top ?s q y"
      using Q n by (auto simp: c T A(1) [OF v] below)
  next
    show "top_ok m ?s" "G (topc ?s) = None"
      using D(3) r(3) K(5) [OF p] by (auto simp: top_ok_def arena_def e T)
  next
    fix x y q w assume b: "block (U(p \<mapsto> nb, ?r \<mapsto> R)) G ?s x y" "block (U(p \<mapsto> nb, ?r \<mapsto> R)) G ?s q w" "x \<noteq> q"
    have old: "block U G s x y \<and> x \<noteq> p \<or> x = p \<and> y = nb \<or> x = ?r \<and> y = R"
      if "block (U(p \<mapsto> nb, ?r \<mapsto> R)) G ?s x y" for x y
      using that p r K(1,5) [OF p] by (auto simp: block_def e split: if_splits)
    have nr: "no_overlap p nb ?r R"
    proof -
      have "unat (p - ?r) = 2 ^ 64 - unat nb" using unat_neg [of nb] zn(9) by simp
      then have "R \<le> p - ?r" using zn(3) zr(3) by (simp add: word_le_nat_alt word_less_nat_alt)
      then show ?thesis by (simp add: no_overlap_def)
    qed
    show "no_overlap x y q w"
      using old [OF b(1)] old [OF b(2)] b(3) D(5) N(5) R(5) nr no_overlap_sym by metis
  qed
qed

lemma no_overlap_join:
  assumes "no_overlap p S q w" "no_overlap (p + S) R q w" "unat (S + R) = unat S + unat R"
  shows "no_overlap p (S + R) q w"
proof -
  have "S \<le> q - p" "R \<le> q - p - S" "w \<le> p - q"
    using assms(1,2) by (simp_all add: no_overlap_def algebra_simps)
  then have "S + R \<le> q - p" using assms(3) by (simp add: word_le_nat_alt unat_sub)
  then show ?thesis using \<open>w \<le> p - q\<close> by (simp add: no_overlap_def)
qed

lemma layout_extent:
  assumes lay: "heap_layout m U G s" and p: "U p = Some S \<or> G p = Some S"
  shows "unat (p + S) = unat p + unat S" "unat p + unat S \<le> unat (topc s)" "unat (least_addr s) \<le> unat p"
    "unat (topc s) + unat (topsize s) < unat (least_addr s) + 2 ^ 40"
proof -
  have P: "sized_chunk m s p S" "below_top s p S" using p layoutD(1,2) [OF lay] by blast+
  then show e: "unat p + unat S \<le> unat (topc s)" "unat (least_addr s) \<le> unat p"
    by (simp_all add: below_top_def sized_chunk_def tree_chunk_def chunk_at_def ok_address_def word_le_nat_alt)
  then show "unat (p + S) = unat p + unat S" using unat_less_exp [of "topc s"] by (simp add: unat_word_ariths)
  show "unat (topc s) + unat (topsize s) < unat (least_addr s) + 2 ^ 40"
    using layoutD(3) [OF lay] by (simp add: top_ok_def)
qed

lemma layout_join:
  assumes lay: "heap_layout m U G s" and p: "U p = Some S" and r: "U (p + S) = Some R"
  shows "heap_layout m (U(p + S := None, p \<mapsto> S + R)) G (set_inuse p (S + R) s)"
proof -
  let ?r = "p + S" and ?z = "S + R"
  let ?s = "set_inuse p ?z s" and ?U = "U(p + S := None, p \<mapsto> S + R)"
  note D = layoutD [OF lay] and K = layout_kinds [OF lay] and A = layout_aligned [OF lay]
  note P = D(1) [OF p] and R = D(1) [OF r]
  have gS: "good_size S" and gR: "good_size R" using P R by blast+
  note zS = good_sizeD [OF gS] and zR = good_sizeD [OF gR]
  note XS = layout_extent [OF lay disjI1 [OF p]] and XR = layout_extent [OF lay disjI1 [OF r]]
  have z: "unat ?z = unat S + unat R" using zS(3) zR(3) by (simp add: unat_word_ariths word_less_nat_alt)
  have g: "good_size ?z"
    using XS XR z zS(1,2) zR(1) is_aligned_add [OF zS(1)]
    by (simp add: good_size_def word_le_nat_alt word_less_nat_alt)
  note zz = good_sizeD [OF g]
  have ne: "?r \<noteq> p" using zS(9) by auto
  have part: "tree_chunk m s p" "clear_of_state m p ?z"
  proof -
    show "tree_chunk m s p" using P by (simp add: sized_chunk_def)
    show "clear_of_state m p ?z"
      by (rule arena_part(2) [OF conjunct1 [OF D(3)] A(1) [OF p] _ zz(9)])
        (use XS XR z in \<open>simp_all add: word_le_nat_alt\<close>)
  qed
  have below: "below_top s p ?z" using XR XS z by (simp add: below_top_def)
  have e: "topc ?s = topc s" "topsize ?s = topsize s" "least_addr ?s = least_addr s" by simp_all
  have e': "below_top ?s q y = below_top s q y" for q y by (simp add: below_top_def)
  note T = set_inuse_tags [OF A(1) [OF p] zz(1)]
  have pin: "pinuse s (p + ?z)" using R by (simp add: add.assoc)
  have c: "sized_chunk m ?s q y \<longleftrightarrow> (if q = p then y = ?z else sized_chunk m s q y)" for q y
    using part by (auto simp: sized_chunk_def tree_chunk_frame [OF e(3)] T)
  have ends: "q + y \<noteq> ?r" if "U q = Some y \<or> G q = Some y" "q \<noteq> p" for q y
    using block_ends [OF lay _ _ that(2), of y S] that(1) p by (auto simp: block_def)
  show ?thesis
    unfolding heap_layout_def
  proof (intro conjI allI impI)
    fix q y assume q: "?U q = Some y"
    then have q': "q = p \<and> y = ?z \<or> U q = Some y \<and> q \<noteq> p \<and> q \<noteq> ?r" by (auto split: if_splits)
    then have al: "is_aligned q" using A(1) p by auto
    show "good_size y" "sized_chunk m ?s q y" "cinuse ?s q" "pinuse ?s (q + y)" "below_top ?s q y"
      using q' g pin below D(1) [of q y] by (auto simp: c T e')
    show "q + y \<in> dom ?U \<or> q + y \<in> dom G \<or> q + y = topc ?s"
    proof (cases "q = p")
      case True
      have "?r + R \<noteq> ?r" using zR(9) by auto
      then show ?thesis using True q' R by (auto simp: e add.assoc)
    next
      case False
      then show ?thesis using q' D(1) [of q y] ends [of q y] by (auto simp: e)
    qed
    show "G (q - prev_foot ?s q) = Some (prev_foot ?s q)" if n: "\<not> pinuse ?s q"
      using n q' D(4) [of q y] D(4) [OF p] by (auto simp: T(4) [OF al] T)
  next
    fix q y assume q: "G q = Some y"
    note Q = D(2) [OF q]
    obtain v where v: "U (q + y) = Some v" using Q by blast
    have n: "q \<noteq> p" "q \<noteq> ?r" "q + y \<noteq> ?r" "q + y \<noteq> p + ?z" using q K(1) [OF p] K(1) [OF r] P pin Q by auto
    show "good_size y" "q + y \<in> dom ?U" "sized_chunk m ?s q y" "pinuse ?s q" "\<not> cinuse ?s q"
      "prev_foot ?s (q + y) = y" "\<not> pinuse ?s (q + y)" "below_top ?s q y"
      using Q n by (auto simp: c T A(1) [OF v] e')
  next
    show "top_ok m ?s" "G (topc ?s) = None"
      using D(3) K(5) [OF p] by (auto simp: top_ok_def arena_def e T)
  next
    fix x y q w assume b: "block ?U G ?s x y" "block ?U G ?s q w" "x \<noteq> q"
    have old: "block U G s x y \<and> x \<noteq> p \<and> x \<noteq> ?r \<or> x = p \<and> y = ?z" if "block ?U G ?s x y" for x y
      using that K(1,5) [OF p] K(1,5) [OF r] by (auto simp: block_def e split: if_splits)
    have new: "no_overlap p ?z x y" if "block U G s x y" "x \<noteq> p" "x \<noteq> ?r" for x y
      using that p r D(5) by (intro no_overlap_join z) (auto simp: block_def)
    show "no_overlap x y q w"
      using old [OF b(1)] old [OF b(2)] b(3) D(5) new no_overlap_sym by metis
  qed
qed

subsection \<open>Cutting from top, and giving back to top\<close>

lemma malloc_from_top_tags:
  assumes "is_aligned (topc s)" "is_aligned nb" "is_aligned (topsize s - nb)" "nb \<noteq> 0"
  defines "t \<equiv> snd (malloc_from_top nb s)"
  shows "topc t = topc s + nb" "topsize t = topsize s - nb" "least_addr t = least_addr s"
    "chunksize t q = (if q = topc s then nb else if q = topc s + nb then topsize s - nb else chunksize s q)"
    "pinuse t q \<longleftrightarrow> q = topc s \<or> q = topc s + nb \<or> pinuse s q"
    "cinuse t q \<longleftrightarrow> q = topc s \<or> q \<noteq> topc s + nb \<and> cinuse s q"
    "is_aligned q \<Longrightarrow> prev_foot t q = prev_foot s q"
proof -
  have al: "is_aligned (topc s + nb)" using assms(1,2) by (simp add: is_aligned_add)
  have r: "chunksize (s\<lparr>topsize := a, topc := b\<rparr>) q = chunksize s q" "pinuse (s\<lparr>topsize := a, topc := b\<rparr>) q = pinuse s q"
    "cinuse (s\<lparr>topsize := a, topc := b\<rparr>) q = cinuse s q" "prev_foot (s\<lparr>topsize := a, topc := b\<rparr>) q = prev_foot s q" for a b q
    by (simp_all add: tag_fields head_def prev_foot_def load_def)
  have t: "t = set_head (topc s) (nb OR 1 OR 2) (set_head (topc s + nb) ((topsize s - nb) OR 1)
      (s\<lparr>topsize := topsize s - nb, topc := topc s + nb\<rparr>))"
    by (simp add: t_def malloc_from_top_def chunk_plus_offset_def set_size_and_pinuse_of_inuse_chunk_def Let_def del: or.assoc)
  show "topc t = topc s + nb" "topsize t = topsize s - nb" "least_addr t = least_addr s"
    unfolding t by simp_all
  show "chunksize t q = (if q = topc s then nb else if q = topc s + nb then topsize s - nb else chunksize s q)"
    "pinuse t q \<longleftrightarrow> q = topc s \<or> q = topc s + nb \<or> pinuse s q"
    "cinuse t q \<longleftrightarrow> q = topc s \<or> q \<noteq> topc s + nb \<and> cinuse s q"
    unfolding t using assms(4) by (simp_all only: tags_inuse_head [OF assms(2)] tags_inuse_head [OF assms(3)] r)
  show "prev_foot t q = prev_foot s q" if "is_aligned q"
    unfolding t using that al assms(1) by (simp only: tags_set_head r)
qed

lemma layout_top_cut:
  assumes lay: "heap_layout m U G s" and g: "good_size nb" "nb < topsize s"
  shows "heap_layout m (U(topc s \<mapsto> nb)) G (snd (malloc_from_top nb s))"
proof -
  let ?s = "snd (malloc_from_top nb s)" and ?p = "topc s" and ?U = "U(topc s \<mapsto> nb)"
  note D = layoutD [OF lay] and K = layout_kinds [OF lay] and A = layout_aligned [OF lay] and z = good_sizeD [OF g(1)]
  have top: "top_ok m s" using D(3) by blast
  have st: "is_aligned (topsize s)" using top by (simp add: top_ok_def)
  have al: "is_aligned (topsize s - nb)" "is_aligned (?p + nb)" "nb \<noteq> 0"
    using is_aligned_add [of nb "topsize s - nb"] st z(1,9) A(3) by (simp_all add: is_aligned_add)
  note T = malloc_from_top_tags [OF A(3) z(1) al(1,3)]
  note e = T(1-3)
  have tb: "unat (?p) + unat (topsize s) + 144 \<le> 2 ^ 64" "unat ?p + unat (topsize s) < unat (least_addr s) + 2 ^ 40"
    "0 < least_addr s" "least_addr s \<le> ?p"
    using top by (simp_all add: top_ok_def)
  have nb: "unat nb < unat (topsize s)" "32 \<le> unat nb" using g(2) z(2) by (simp_all add: word_less_nat_alt word_le_nat_alt)
  have pn: "unat (?p + nb) = unat ?p + unat nb" "unat (topsize s - nb) = unat (topsize s) - unat nb"
    using tb nb by (simp_all add: unat_word_ariths unat_sub word_le_nat_alt)
  have part: "tree_chunk m s ?p" "clear_of_state m ?p nb"
    using arena_part [OF top A(3) tb(4) z(9)] nb by simp_all
  have below: "below_top ?s q y" if "U q = Some y \<or> G q = Some y" for q y
    using layout_extent(2) [OF lay that] by (simp add: below_top_def e pn(1))
  have out: "q \<noteq> ?p + nb" if "U q = Some y \<or> G q = Some y" for q y
    using layout_extent(2) [OF lay that] pn(1) nb by auto
  have out': "q + y \<noteq> ?p + nb" if "U q = Some y \<or> G q = Some y" for q y
    using layout_extent(1,2) [OF lay that] pn(1) nb by auto
  have c: "sized_chunk m ?s q y \<longleftrightarrow> (if q = ?p then y = nb else sized_chunk m s q y)" if "q \<noteq> ?p + nb" for q y
    using part that by (auto simp: sized_chunk_def tree_chunk_frame [OF e(3)] T)
  have ne: "?p \<noteq> ?p + nb" using al(3) by auto
  show ?thesis
    unfolding heap_layout_def
  proof (intro conjI allI impI)
    fix q y assume q: "?U q = Some y"
    then have q': "q = ?p \<and> y = nb \<or> U q = Some y \<and> q \<noteq> ?p \<and> q \<noteq> ?p + nb" using out by (auto split: if_splits)
    then have al: "is_aligned q" using A by auto
    show "good_size y" "sized_chunk m ?s q y" "cinuse ?s q" "pinuse ?s (q + y)"
      using q' g D(1) [of q y] c [of q y] ne by (auto simp: T)
    show "below_top ?s q y" using q' below pn(1) by (auto simp: below_top_def e)
    show "q + y \<in> dom ?U \<or> q + y \<in> dom G \<or> q + y = topc ?s" using q' D(1) [of q y] by (auto simp: e)
    show "G (q - prev_foot ?s q) = Some (prev_foot ?s q)" if n: "\<not> pinuse ?s q"
      using n q' D(4) [of q y] by (auto simp: T(7) [OF al] T(5))
  next
    fix q y assume q: "G q = Some y"
    note Q = D(2) [OF q]
    obtain v where v: "U (q + y) = Some v" using Q by blast
    have n: "q \<noteq> ?p" "q \<noteq> ?p + nb" "q + y \<noteq> ?p" "q + y \<noteq> ?p + nb" using q K(5) [OF v] K(6) [OF q] out out' by auto
    show "good_size y" "q + y \<in> dom ?U" "sized_chunk m ?s q y" "pinuse ?s q" "\<not> cinuse ?s q"
      "prev_foot ?s (q + y) = y" "\<not> pinuse ?s (q + y)" "below_top ?s q y"
      using Q n below q by (auto simp: c T A(1) [OF v])
  next
    have ar: "arena ?s = arena s" by (simp add: arena_def e)
    have "0 < topsize s - nb" "least_addr s \<le> ?p + nb"
      using pn nb tb by (simp_all add: word_less_nat_alt word_le_nat_alt)
    then show "top_ok m ?s"
      using top al ne pn nb unfolding top_ok_def ar e by (simp add: T)
    show "G (topc ?s) = None" using out [of "?p + nb"] by (cases "G (?p + nb)") (auto simp: e)
  next
    fix x y q w assume b: "block ?U G ?s x y" "block ?U G ?s q w" "x \<noteq> q"
    have old: "block U G s x y \<and> x \<noteq> ?p \<or> x = ?p \<and> y = nb \<or> x = ?p + nb \<and> y = topsize s - nb + 80"
      if "block ?U G ?s x y" for x y
      using that K by (auto simp: block_def e split: if_splits)
    have t80: "unat (topsize s + 80) = unat (topsize s) + 80" "unat (topsize s - nb + 80) = unat (topsize s) - unat nb + 80"
      using top_bounds(2) [OF top] pn tb by (simp_all add: unat_word_ariths)
    have new: "no_overlap ?p nb x y" "no_overlap (?p + nb) (topsize s - nb + 80) x y" if "block U G s x y" "x \<noteq> ?p" for x y
    proof -
      have o: "no_overlap ?p (topsize s + 80) x y" using D(5) that by (simp add: block_def)
      show "no_overlap ?p nb x y" using no_overlap_parts [OF o, of 0 nb] nb z(9) t80 by simp
      show "no_overlap (?p + nb) (topsize s - nb + 80) x y"
        using no_overlap_parts [OF o, of nb "topsize s - nb + 80"] nb t80 by (simp add: word_less_nat_alt)
    qed
    have nr: "no_overlap ?p nb (?p + nb) (topsize s - nb + 80)"
    proof -
      have "unat (?p - (?p + nb)) = 2 ^ 64 - unat nb" using unat_neg [of nb] z(9) by simp
      then have "topsize s - nb + 80 \<le> ?p - (?p + nb)" using nb t80 tb by (simp add: word_le_nat_alt)
      then show ?thesis by (simp add: no_overlap_def)
    qed
    show "no_overlap x y q w"
      using old [OF b(1)] old [OF b(2)] b(3) D(5) new nr no_overlap_sym by metis
  qed
qed

text \<open>The write of \<open>dlfree\<close> that merges the chunk \<open>p\<close> of size \<open>S\<close> into top.\<close>

definition give_top :: "u64 \<Rightarrow> u64 \<Rightarrow> 'w heap \<Rightarrow> 'w heap" where
  "give_top p S s = set_head p ((topsize s + S) OR PINUSE_BIT) (s\<lparr>topsize := topsize s + S, topc := p\<rparr>)"

lemma give_top_tags:
  assumes "is_aligned p" "is_aligned (topsize s + S)"
  shows "topc (give_top p S s) = p" "topsize (give_top p S s) = topsize s + S" "least_addr (give_top p S s) = least_addr s"
    "chunksize (give_top p S s) q = (if q = p then topsize s + S else chunksize s q)"
    "pinuse (give_top p S s) q \<longleftrightarrow> q = p \<or> pinuse s q"
    "cinuse (give_top p S s) q \<longleftrightarrow> q \<noteq> p \<and> cinuse s q"
    "is_aligned q \<Longrightarrow> prev_foot (give_top p S s) q = prev_foot s q"
proof -
  have r: "chunksize (s\<lparr>topsize := a, topc := b\<rparr>) q = chunksize s q" "pinuse (s\<lparr>topsize := a, topc := b\<rparr>) q = pinuse s q"
    "cinuse (s\<lparr>topsize := a, topc := b\<rparr>) q = cinuse s q" "prev_foot (s\<lparr>topsize := a, topc := b\<rparr>) q = prev_foot s q" for a b q
    by (simp_all add: tag_fields head_def prev_foot_def load_def)
  show "topc (give_top p S s) = p" "topsize (give_top p S s) = topsize s + S" "least_addr (give_top p S s) = least_addr s"
    by (simp_all add: give_top_def)
  show "chunksize (give_top p S s) q = (if q = p then topsize s + S else chunksize s q)"
    "pinuse (give_top p S s) q \<longleftrightarrow> q = p \<or> pinuse s q"
    "cinuse (give_top p S s) q \<longleftrightarrow> q \<noteq> p \<and> cinuse s q"
    unfolding give_top_def flag_consts by (simp_all only: tags_inuse_head [OF assms(2)] r)
  show "prev_foot (give_top p S s) q = prev_foot s q" if "is_aligned q"
    unfolding give_top_def using that assms(1) by (simp only: tags_set_head r)
qed

lemma layout_top_join:
  assumes lay: "heap_layout m U G s" and p: "U p = Some S" "p + S = topc s" "pinuse s p"
  shows "heap_layout m (U(p := None)) G (give_top p S s)"
proof -
  let ?s = "give_top p S s" and ?U = "U(p := None)"
  note D = layoutD [OF lay] and K = layout_kinds [OF lay] and A = layout_aligned [OF lay]
  note P = D(1) [OF p(1)] and X = layout_extent [OF lay disjI1 [OF p(1)]]
  have gS: "good_size S" using P by blast
  note z = good_sizeD [OF gS]
  have top: "top_ok m s" using D(3) by blast
  have st: "is_aligned (topsize s + S)" using top z(1) by (simp add: top_ok_def is_aligned_add)
  note T = give_top_tags [OF A(1) [OF p(1)] st]
  note e = T(1-3)
  have pS: "unat (topc s) = unat p + unat S" using X(1) p(2) by simp
  have S0: "0 < unat S" using z(9) by (simp add: word_less_nat_alt)
  have ts: "unat (topsize s + S) = unat (topsize s) + unat S"
    using X pS top_bounds(1) [OF top] z(3) by (simp add: unat_word_ariths word_less_nat_alt)
  have ends: "q + y \<noteq> topc s" if "U q = Some y \<or> G q = Some y" "q \<noteq> p" for q y
    using block_ends [OF lay _ _ that(2), of y S] that(1) p by (auto simp: block_def)
  have below: "below_top ?s q y" if "U q = Some y \<or> G q = Some y" "q \<noteq> p" for q y
  proof -
    note Y = layout_extent(1,2) [OF lay that(1)]
    have n: "no_overlap p S q y" using D(5) [of p S q y] that p(1) by (auto simp: block_def)
    have y: "0 < unat y" using that(1) D(1,2) good_sizeD(9) [of y] by (auto simp: word_less_nat_alt)
    have "unat q \<le> unat p"
    proof (rule ccontr)
      assume gt: "\<not> unat q \<le> unat p"
      then have "unat (q - p) = unat q - unat p" by (simp add: unat_sub word_le_nat_alt)
      then have "unat S \<le> unat q - unat p" using n by (simp add: no_overlap_def word_le_nat_alt)
      then show False using Y(2) y pS gt by linarith
    qed
    then have "unat (p - q) = unat p - unat q" by (simp add: unat_sub word_le_nat_alt)
    then have "unat y \<le> unat p - unat q" using n by (simp add: no_overlap_def word_le_nat_alt)
    then have "unat q + unat y \<le> unat p" using \<open>unat q \<le> unat p\<close> by linarith
    then show ?thesis by (simp add: below_top_def e)
  qed
  have c: "sized_chunk m ?s q y = sized_chunk m s q y" if "q \<noteq> p" for q y
    using that by (auto simp: sized_chunk_def tree_chunk_frame [OF e(3)] T)
  show ?thesis
    unfolding heap_layout_def
  proof (intro conjI allI impI)
    fix q y assume q: "?U q = Some y"
    then have q': "U q = Some y" "q \<noteq> p" by (auto split: if_splits)
    note Q = D(1) [OF q'(1)]
    show "good_size y" "sized_chunk m ?s q y" "cinuse ?s q" "pinuse ?s (q + y)" "below_top ?s q y"
      using q' Q below by (auto simp: c T)
    show "q + y \<in> dom ?U \<or> q + y \<in> dom G \<or> q + y = topc ?s" using q' Q ends [of q y] by (auto simp: e)
    show "G (q - prev_foot ?s q) = Some (prev_foot ?s q)" if n: "\<not> pinuse ?s q"
      using n D(4) [OF q'(1)] by (auto simp: T(7) [OF A(1) [OF q'(1)]] T(5))
  next
    fix q y assume q: "G q = Some y"
    note Q = D(2) [OF q]
    obtain v where v: "U (q + y) = Some v" using Q by blast
    have n: "q \<noteq> p" "q + y \<noteq> p" using q K(1) [OF p(1)] Q p(3) by auto
    show "good_size y" "q + y \<in> dom ?U" "sized_chunk m ?s q y" "pinuse ?s q" "\<not> cinuse ?s q"
      "prev_foot ?s (q + y) = y" "\<not> pinuse ?s (q + y)" "below_top ?s q y"
      using Q n below q by (auto simp: c T A(1) [OF v])
  next
    have ar: "arena ?s = arena s" using p(2) by (simp add: arena_def e algebra_simps)
    have "0 < topsize s + S" "least_addr s \<le> p" using S0 ts X(3) by (simp_all add: word_less_nat_alt word_le_nat_alt)
    then show "top_ok m ?s"
      using top st A(1) [OF p(1)] pS ts unfolding top_ok_def ar e by (simp add: T p(2))
    show "G (topc ?s) = None" using K(1) [OF p(1)] by (simp add: e)
  next
    fix x y q w assume b: "block ?U G ?s x y" "block ?U G ?s q w" "x \<noteq> q"
    have old: "block U G s x y \<and> x \<noteq> p \<and> x \<noteq> topc s \<or> x = p \<and> y = S + (topsize s + 80)" if "block ?U G ?s x y" for x y
      using that K p by (auto simp: block_def e algebra_simps split: if_splits)
    have tz: "unat (S + (topsize s + 80)) = unat S + unat (topsize s + 80)"
      using top_bounds [OF top] z(3) by (simp add: unat_word_ariths word_less_nat_alt)
    have new: "no_overlap p (S + (topsize s + 80)) x y" if "block U G s x y" "x \<noteq> p" "x \<noteq> topc s" for x y
      using that p D(5) by (intro no_overlap_join [OF _ _ tz]) (auto simp: block_def)
    show "no_overlap x y q w"
      using old [OF b(1)] old [OF b(2)] b(3) D(5) new no_overlap_sym by metis
  qed
qed

subsection \<open>Splitting an idle chunk\<close>

lemma set_size_tags:
  assumes "is_aligned p" "is_aligned z" "is_aligned q"
  shows "chunksize (set_size_and_pinuse_of_inuse_chunk p z s) q = (if q = p then z else chunksize s q)"
    "pinuse (set_size_and_pinuse_of_inuse_chunk p z s) q \<longleftrightarrow> q = p \<or> pinuse s q"
    "cinuse (set_size_and_pinuse_of_inuse_chunk p z s) q \<longleftrightarrow> q = p \<or> cinuse s q"
    "prev_foot (set_size_and_pinuse_of_inuse_chunk p z s) q = prev_foot s q"
  using assms unfolding set_size_and_pinuse_of_inuse_chunk_def flag_consts
  by (simp_all only: tags_inuse_head [OF assms(2)] tags_set_head(4))

lemma layout_split:
  fixes s s' :: "'w heap"
  assumes lay: "heap_layout m U G s" and p: "G p = Some (nb + R)" and g: "good_size nb" "good_size R"
    and tags: "topc s' = topc s" "topsize s' = topsize s" "least_addr s' = least_addr s"
      "\<And>q. is_aligned q \<Longrightarrow> chunksize s' q = (if q = p + nb then R else if q = p then nb else chunksize s q) \<and>
        (pinuse s' q \<longleftrightarrow> q = p + nb \<or> q = p \<or> pinuse s q) \<and> (cinuse s' q \<longleftrightarrow> q \<noteq> p + nb \<and> (q = p \<or> cinuse s q)) \<and>
        prev_foot s' q = (if q = p + nb + R then R else prev_foot s q)"
  shows "heap_layout m (U(p \<mapsto> nb)) (G(p := None, p + nb \<mapsto> R)) s'"
proof -
  let ?r = "p + nb" and ?S = "nb + R"
  note D = layoutD [OF lay] and K = layout_kinds [OF lay] and A = layout_aligned [OF lay]
  note P = D(2) [OF p] and zn = good_sizeD [OF g(1)] and zr = good_sizeD [OF g(2)]
  have zS: "is_aligned ?S" using P good_sizeD(1) by blast
  have al: "is_aligned p" "is_aligned ?r" "is_aligned (?r + R)" using A(2) [OF p] zn zr by (simp_all add: is_aligned_add)
  define s1 where "s1 = set_inuse_and_pinuse p ?S s"
  define s2 where "s2 = set_inuse ?r R (set_inuse p nb s1)"
  define v where "v = set_free_with_pinuse ?r R (?r + R) s2"
  have n: "p \<noteq> ?r" "?r \<noteq> ?r + R" "p \<noteq> p + ?S" using zn(9) zr(9) P K(1) p by auto
  have l1: "heap_layout m (U(p \<mapsto> ?S)) (G(p := None)) s1" unfolding s1_def by (rule layout_take [OF lay p])
  have l2: "heap_layout m (U(p \<mapsto> nb, ?r \<mapsto> R)) (G(p := None)) s2"
    using layout_cut [OF l1 _ g, of p] by (simp add: s2_def)
  have T2: "pinuse s2 q \<longleftrightarrow> q = ?r + R \<or> q = ?r \<or> q = p \<or> pinuse s q" "chunksize s2 q = (if q = ?r then R else if q = p then nb else chunksize s q)"
    "cinuse s2 q \<longleftrightarrow> q = ?r \<or> q = p \<or> cinuse s q" "is_aligned q \<Longrightarrow> prev_foot s2 q = prev_foot s q" for q
    unfolding s2_def s1_def
    by (auto simp: set_inuse_tags [OF al(2) zr(1)] set_inuse_tags [OF al(1) zn(1)] set_inuse_and_pinuse_tags [OF al(1) zS] add.assoc)
  have rR: "?r + R \<in> dom (U(p \<mapsto> nb, ?r \<mapsto> R))" using P n by (auto simp: add.assoc)
  have "heap_layout m ((U(p \<mapsto> nb, ?r \<mapsto> R))(?r := None)) ((G(p := None))(?r \<mapsto> R)) v"
    unfolding v_def by (rule layout_give [OF l2]) (use rR in \<open>simp_all add: T2\<close>)
  moreover have "(U(p \<mapsto> nb, ?r \<mapsto> R))(?r := None) = U(p \<mapsto> nb)"
  proof -
    have "unat ?S = unat nb + unat R" using zn(3) zr(3) by (simp add: unat_word_ariths word_less_nat_alt)
    then have "\<not> ?S \<le> nb" using zr(9) by (simp add: word_le_nat_alt word_less_nat_alt)
    then have "U ?r = None"
      using layout_kinds(1) [OF l1, of ?r] layoutD(5) [OF l1, of p ?S ?r] n zn zr
      by (cases "U ?r") (auto simp: block_def no_overlap_def)
    then show ?thesis using n by (auto simp: fun_eq_iff)
  qed
  ultimately have l3: "heap_layout m (U(p \<mapsto> nb)) (G(p := None, ?r \<mapsto> R)) v" by simp
  have Tv: "chunksize v q = (if q = ?r then R else chunksize s2 q)" "pinuse v q \<longleftrightarrow> q = ?r \<or> q \<noteq> ?r + R \<and> pinuse s2 q"
    "cinuse v q \<longleftrightarrow> q \<noteq> ?r \<and> cinuse s2 q" "prev_foot v q = (if q = ?r + R then R else prev_foot s2 q)"
    if "is_aligned q" for q
    unfolding v_def by (rule set_free_with_pinuse_tags [OF al(2) zr(1) that al(3)])+
  have Sf: "\<not> pinuse s (?r + R)" using P by (simp add: add.assoc)
  have "tags_same (chunk_starts (U(p \<mapsto> nb)) (G(p := None, ?r \<mapsto> R)) v) v s'"
    unfolding tags_same_def
  proof (intro conjI ballI)
    fix q assume "q \<in> chunk_starts (U(p \<mapsto> nb)) (G(p := None, ?r \<mapsto> R)) v"
    then have "is_aligned q" by (rule starts_aligned [OF l3])
    note f = Tv [OF this] T2(1-3) T2(4) [OF this] tags(4) [OF this]
    show "chunksize s' q = chunksize v q" "cinuse s' q = cinuse v q" "prev_foot s' q = prev_foot v q" using f by auto
    show "pinuse s' q = pinuse v q" using f Sf n by (auto simp: add.assoc)
  qed (simp_all add: tags v_def s2_def s1_def)
  then show ?thesis by (rule layout_frame [OF l3])
qed

end
