(* ===== verification/HeapInv.thy ===== *)
theory HeapInv
  imports Layout
begin

text \<open>
  The invariant of a whole heap, \<open>heap_ok\<close>: the layout of all chunks, the bins that hold the
  idle chunks, and the designated victim. Operations write tags of system cells and links of
  idle chunks; both leave the payload of every other chunk in use as it was.
\<close>

subsection \<open>The invariant\<close>

definition table_of :: "sizes \<Rightarrow> u64 \<Rightarrow> u64 set" where
  "table_of F S = {p. F p = Some S}"

text \<open>The idle chunks: those of the bins and the designated victim.\<close>

definition with_dv :: "sizes \<Rightarrow> 'w heap \<Rightarrow> sizes" where
  "with_dv F s = (if dvsize s = 0 then F else F(dv s \<mapsto> dvsize s))"

definition heap_ok :: "u64 \<Rightarrow> sizes \<Rightarrow> sizes \<Rightarrow> 'w heap \<Rightarrow> bool" where
  "heap_ok m U F s \<longleftrightarrow> free_table m (table_of F) s \<and> heap_layout m U (with_dv F s) s \<and>
     (if dvsize s = 0 then dv s = 0 else F (dv s) = None)"

text \<open>The payload of the chunks \<open>U\<close>: from the end of the head to the end of the next foot.\<close>

definition payload_kept :: "sizes \<Rightarrow> 'w heap \<Rightarrow> 'w heap \<Rightarrow> bool" where
  "payload_kept U s s' \<longleftrightarrow>
     (\<forall>q w x. U q = Some w \<longrightarrow> 16 \<le> x \<longrightarrow> x < w + 8 \<longrightarrow> load s' (q + x) = load s (q + x))"

lemma payload_kept_refl [simp]: "payload_kept U s s"
  by (simp add: payload_kept_def)

lemma payload_kept_trans: "payload_kept U s s' \<Longrightarrow> payload_kept U s' s'' \<Longrightarrow> payload_kept U s s''"
  by (simp add: payload_kept_def)

lemma payload_kept_mono: "payload_kept U s s' \<Longrightarrow> W \<subseteq>\<^sub>m U \<Longrightarrow> payload_kept W s s'"
  unfolding payload_kept_def map_le_def by (metis domI)

subsection \<open>Writes of tags and of links\<close>

text \<open>
  The cells that hold tags: the head of any chunk outside the bins, any cell of an idle chunk or
  of top outside the bins, and the foot of an idle predecessor.
\<close>

definition tag_cell :: "sizes \<Rightarrow> sizes \<Rightarrow> sizes \<Rightarrow> 'w heap \<Rightarrow> u64 \<Rightarrow> bool" where
  "tag_cell U G F s a \<longleftrightarrow> (\<exists>b w x. a = b + x \<and> block U G s b w \<and> x < w \<and> F b = None \<and>
     (8 \<le> x \<or> \<not> pinuse s b) \<and> (b \<in> dom U \<longrightarrow> x \<le> 8))"

text \<open>The layout that says which cells these are may be that of another state \<open>t\<close>.\<close>

definition tag_writes :: "sizes \<Rightarrow> sizes \<Rightarrow> sizes \<Rightarrow> 'w heap \<Rightarrow> 'w heap \<Rightarrow> 'w heap \<Rightarrow> bool" where
  "tag_writes U G F t s s' \<longleftrightarrow> smallmap s' = smallmap s \<and> treemap s' = treemap s \<and> least_addr s' = least_addr s \<and>
     (\<forall>a. load s' a = load s a \<or> tag_cell U G F t a)"

lemma block_clear:
  assumes lay: "heap_layout m U G s" and b: "block U G s b z" "x < z"
  shows "936 \<le> b + x - m"
proof -
  have "clear_of_state m b z"
  proof (cases "U b = Some z \<or> G b = Some z")
    case True
    then show ?thesis using layoutD(1,2) [OF lay] by (auto simp: sized_chunk_def)
  next
    case False
    have top: "top_ok m s" using layoutD(3) [OF lay] by blast
    have t: "b = topc s" "z = topsize s + 80" using b(1) False by (simp_all add: block_def)
    show ?thesis unfolding t
      using top top_bounds [OF top] by (intro arena_part(2) [OF top]) (simp_all add: top_ok_def word_less_nat_alt)
  qed
  then have "no_overlap m 936 b z" by (simp add: clear_of_state_def)
  then have "m + (b + x - m) \<noteq> b + x" if "b + x - m < 936" using no_overlap_cell b(2) that by blast
  then show ?thesis by force
qed

lemma block_size: "heap_layout m U G s \<Longrightarrow> block U G s b z \<Longrightarrow> 16 < z"
  using layoutD(1,2) [of m U G s] good_sizeD(8) [of z] top_bounds(2) [of m s] layoutD(3) [of m U G s]
  by (auto simp: block_def word_less_nat_alt)

lemma block_unique: "heap_layout m U G s \<Longrightarrow> block U G s b z \<Longrightarrow> block U G s b w \<Longrightarrow> z = w"
  using layout_kinds [of m U G s] by (auto simp: block_def)

text \<open>A payload cell lies in its chunk or in the unused foot of the next one.\<close>

lemma payload_cell:
  assumes lay: "heap_layout m U G s" and q: "U q = Some w" "16 \<le> x" "x < w + 8"
  obtains n z y where "block U G s n z" "y < z" "q + x = n + y" "n = q \<and> 16 \<le> y \<or> n = q + w \<and> y < 8 \<and> pinuse s n"
proof (cases "x < w")
  case True
  then show ?thesis using q that [of q w x] by (simp add: block_def)
next
  case False
  note Q = layoutD(1) [OF lay q(1)]
  obtain z where z: "block U G s (q + w) z" using Q by (auto simp: block_def)
  have "unat (w + 8) \<le> unat w + 8" by (simp add: unat_word_ariths)
  then have "x - w < 8" using False q(3) by (simp add: word_less_nat_alt unat_sub word_le_nat_alt)
  moreover have "x - w < z" using calculation block_size [OF lay z] by (simp add: word_less_nat_alt)
  ultimately show ?thesis using that [of "q + w" z "x - w"] z Q by simp
qed

lemma payload_not_tag:
  assumes lay: "heap_layout m U G s" and q: "U q = Some w" "16 \<le> x" "x < w + 8"
  shows "\<not> tag_cell U G F s (q + x)"
proof
  assume "tag_cell U G F s (q + x)"
  then obtain b v y where b: "q + x = b + y" "block U G s b v" "y < v" "8 \<le> y \<or> \<not> pinuse s b" "b \<in> dom U \<longrightarrow> y \<le> 8"
    by (auto simp: tag_cell_def)
  obtain n z y' where n: "block U G s n z" "y' < z" "q + x = n + y'" "n = q \<and> 16 \<le> y' \<or> y' < 8 \<and> pinuse s n"
    using payload_cell [OF lay q] by blast
  have "n = b"
  proof (rule ccontr)
    assume "n \<noteq> b"
    then have "n + y' \<noteq> b + y" using no_overlap_cell [OF layoutD(5) [OF lay n(1) b(2)] n(2) b(3)] by blast
    then show False using n(3) b(1) by simp
  qed
  then have "y = y'" using n(3) b(1) by simp
  then show False using n(4) b(4,5) q(1) \<open>n = b\<close> by (auto simp: word_le_nat_alt word_less_nat_alt)
qed

lemma tag_writes_payload:
  assumes "heap_layout m U G t" "tag_writes U G F t s s'"
  shows "payload_kept U s s'"
  using payload_not_tag [OF assms(1)] assms(2) unfolding payload_kept_def tag_writes_def by blast

lemma tag_writes_table:
  fixes s s' t :: "'w heap"
  assumes lay: "heap_layout m U G t" and T: "free_table m (table_of F) s" and F: "F \<subseteq>\<^sub>m G" and tw: "tag_writes U G F t s s'"
  shows "free_table m (table_of F) s'"
proof (rule free_table_frame [OF T])
  show "smallmap s' = smallmap s" "treemap s' = treemap s" "least_addr s' = least_addr s"
    using tw by (simp_all add: tag_writes_def)
  show "load s' (q + x) = load s (q + x)" if q: "q \<in> table_of F z" "x < z" for q z x
  proof -
    have g: "F q = Some z" "block U G t q z" using q(1) F by (auto simp: table_of_def map_le_def block_def dom_def)
    have "\<not> tag_cell U G F t (q + x)"
    proof
      assume "tag_cell U G F t (q + x)"
      then obtain b v y where b: "q + x = b + y" "block U G t b v" "y < v" "F b = None"
        by (auto simp: tag_cell_def)
      have "b \<noteq> q" using b(4) g(1) by auto
      then show False using no_overlap_cell [OF layoutD(5) [OF lay b(2) g(2)] b(3) q(2)] b(1) by simp
    qed
    then show ?thesis using tw by (auto simp: tag_writes_def)
  qed
  show "load s' a = load s a" if "\<not> (a - m < 72 \<or> 936 \<le> a - m)" for a
  proof -
    have "\<not> tag_cell U G F t a" using that block_clear [OF lay] by (auto simp: tag_cell_def)
    then show ?thesis using tw by (auto simp: tag_writes_def)
  qed
qed

text \<open>Cells that the operations on the bins do not write.\<close>

lemma table_writes_cell:
  assumes lay: "heap_layout m U G s" and F: "F \<subseteq>\<^sub>m G" and tw: "table_written m (table_of F) s s'"
    and b: "block U G s b z" "x < z" "F b = None \<or> x < 16"
  shows "load s' (b + x) = load s (b + x)"
proof -
  have "b + x \<noteq> q + y" if "q \<in> table_of F S" "16 \<le> y" "y < S" for q S y
  proof (cases "q = b")
    case True
    have "F b = Some S" using that(1) True by (simp add: table_of_def)
    then have "x < 16" using b(3) by simp
    then show ?thesis using True that(2) by auto
  next
    case False
    have "block U G s q S" using that(1) F by (auto simp: table_of_def map_le_def block_def dom_def)
    then show ?thesis using no_overlap_cell [OF layoutD(5) [OF lay b(1)] b(2) that(3)] False by blast
  qed
  then show ?thesis using tw block_clear [OF lay b(1,2)] unfolding table_written_def by blast
qed

lemma table_written_payload:
  assumes "heap_layout m U G s" "F \<subseteq>\<^sub>m G" "table_written m (table_of F) s s'"
  shows "payload_kept U s s'"
  unfolding payload_kept_def
proof (intro allI impI)
  fix q w x assume q: "U q = Some w" "16 \<le> x" "x < w + 8"
  obtain n z y where n: "block U G s n z" "y < z" "q + x = n + y" "n = q \<and> 16 \<le> y \<or> y < 8 \<and> pinuse s n"
    using payload_cell [OF assms(1) q] by blast
  have "F n = None \<or> y < 16"
    using n(4) layout_kinds(1) [OF assms(1) q(1)] assms(2) by (cases "F n") (auto simp: map_le_def dom_def word_less_nat_alt)
  then show "load s' (q + x) = load s (q + x)" using table_writes_cell [OF assms n(1,2)] n(3) by simp
qed

lemma table_written_tags:
  assumes "heap_layout m U G s" "F \<subseteq>\<^sub>m G" "table_written m (table_of F) s s'"
  shows "tags_same (chunk_starts U G s) s s'"
  unfolding tags_same_def
proof (intro conjI ballI)
  fix q assume "q \<in> chunk_starts U G s"
  then obtain z where b: "block U G s q z" by (auto simp: chunk_starts_def block_def)
  have "8 < z" "0 < z" using block_size [OF assms(1) b] by (auto simp: word_less_nat_alt)
  then have "load s' (q + 8) = load s (q + 8)" "load s' (q + 0) = load s (q + 0)"
    using table_writes_cell [OF assms b, of 8] table_writes_cell [OF assms b, of 0] by simp_all
  then show "chunksize s' q = chunksize s q" "pinuse s' q = pinuse s q" "cinuse s' q = cinuse s q"
    "prev_foot s' q = prev_foot s q"
    by (simp_all add: tag_fields head_def prev_foot_def)
qed (use assms(3) same_scalarsD [of s s'] in \<open>simp_all add: table_written_def\<close>)

lemma table_written_layout:
  assumes "heap_layout m U G s" "F \<subseteq>\<^sub>m G" "table_written m (table_of F) s s'"
  shows "heap_layout m U G s'"
  using layout_frame [OF assms(1) table_written_tags [OF assms]] .

subsection \<open>Taking chunks from the bins and filing them\<close>

lemma table_of_upd:
  "F p = Some S \<Longrightarrow> table_of (F(p := None)) = (table_of F)(S := table_of F S - {p})"
  "F p = None \<Longrightarrow> table_of (F(p \<mapsto> S)) = (table_of F)(S := insert p (table_of F S))"
  by (auto simp: table_of_def fun_eq_iff)

lemma heap_unlink:
  assumes "free_table m (table_of F) s" "heap_layout m U G s" "F \<subseteq>\<^sub>m G" "F p = Some S"
  shows "\<exists>s'. unlink_chunk m p S s = Some s' \<and> free_table m (table_of (F(p := None))) s' \<and> heap_layout m U G s' \<and>
    payload_kept U s s' \<and> same_scalars s s' \<and> tags_same (chunk_starts U G s) s s'"
proof -
  have "p \<in> table_of F S" using assms(4) by (simp add: table_of_def)
  then obtain s' where s': "unlink_chunk m p S s = Some s'" "free_table m (table_of (F(p := None))) s'"
    "table_written m (table_of F) s s'"
    using unlink_chunk_table [OF assms(1)] table_of_upd(1) [of F p S, OF assms(4)] by auto
  then show ?thesis
    using table_written_layout [OF assms(2,3) s'(3)] table_written_payload [OF assms(2,3) s'(3)]
      table_written_tags [OF assms(2,3) s'(3)] by (auto simp: table_written_def)
qed

lemma heap_insert:
  assumes "free_table m (table_of F) s" "heap_layout m U G s" "F \<subseteq>\<^sub>m G" "G p = Some S" "F p = None"
  shows "\<exists>s'. insert_chunk m p S s = Some s' \<and> free_table m (table_of (F(p \<mapsto> S))) s' \<and> heap_layout m U G s' \<and>
    payload_kept U s s' \<and> same_scalars s s'"
proof -
  note P = layoutD(2) [OF assms(2,4)]
  have "no_overlap p S q z" if "q \<in> table_of F z" for q z
  proof -
    have "F q = Some z" using that by (simp add: table_of_def)
    then have "q \<noteq> p" "block U G s q z" using assms(3,5) by (auto simp: block_def map_le_def dom_def)
    then show ?thesis using layoutD(5) [OF assms(2)] assms(4) by (auto simp: block_def)
  qed
  then obtain s' where s': "insert_chunk m p S s = Some s'" "free_table m (table_of (F(p \<mapsto> S))) s'"
    "table_written m (table_of (F(p \<mapsto> S))) s s'"
    using insert_chunk_table [OF assms(1), of S p] P table_of_upd(2) [of F p S, OF assms(5)] by metis
  have "F(p \<mapsto> S) \<subseteq>\<^sub>m G" using assms(3,4) by (auto simp: map_le_def)
  then show ?thesis
    using s' table_written_layout [OF assms(2) _ s'(3)] table_written_payload [OF assms(2) _ s'(3)]
    by (auto simp: table_written_def)
qed

lemma layout_fields:
  fixes s s' :: "'w heap"
  assumes "heap_layout m U G s" "topc s' = topc s" "topsize s' = topsize s" "least_addr s' = least_addr s" "\<And>a. load s' a = load s a"
  shows "heap_layout m U G s'"
  using assms(2-5) by (intro layout_frame [OF assms(1)]) (auto simp: tags_same_def tag_fields head_def prev_foot_def)

lemma free_table_fields:
  fixes s s' :: "'w heap"
  assumes "free_table m T s" "smallmap s' = smallmap s" "treemap s' = treemap s" "least_addr s' = least_addr s"
    "\<And>a. load s' a = load s a"
  shows "free_table m T s'"
  using free_table_frame [OF assms(1-4)] assms(5) by blast

subsection \<open>Tag writes of the operations\<close>

lemma tag_writes_refl [simp]: "tag_writes U G F t s s"
  by (simp add: tag_writes_def)

lemma tag_writes_store:
  assumes "tag_writes U G F t s s'" "tag_cell U G F t a"
  shows "tag_writes U G F t s (store a v s')"
  using assms by (auto simp: tag_writes_def load_store)

text \<open>The heads and feet around an idle chunk outside the bins.\<close>

lemma idle_tag_cells:
  assumes lay: "heap_layout m U G s" and p: "G p = Some S" "F p = None" and F: "F \<subseteq>\<^sub>m G"
  shows "8 \<le> x \<Longrightarrow> x < S \<Longrightarrow> tag_cell U G F s (p + x)" "tag_cell U G F s (p + S)" "tag_cell U G F s (p + S + 8)"
proof -
  note P = layoutD(2) [OF lay p(1)]
  show "tag_cell U G F s (p + x)" if "8 \<le> x" "x < S"
    using that p layout_kinds(2) [OF lay p(1)] unfolding tag_cell_def block_def by blast
  obtain w where w: "U (p + S) = Some w" using P by blast
  then have b: "block U G s (p + S) w" "8 < w" "0 < w" using layoutD(1) [OF lay w] good_sizeD(7,9) [of w] by (auto simp: block_def)
  have "F (p + S) = None" using F layout_kinds(1) [OF lay w] by (cases "F (p + S)") (auto simp: map_le_def dom_def)
  then show "tag_cell U G F s (p + S)" "tag_cell U G F s (p + S + 8)"
    using b P unfolding tag_cell_def
    by - (rule exI [of _ "p + S"], rule exI [of _ w], rule exI [of _ 0], simp,
      rule exI [of _ "p + S"], rule exI [of _ w], rule exI [of _ 8], simp)
qed

lemma map_le_without: "F \<subseteq>\<^sub>m G \<Longrightarrow> F p = None \<Longrightarrow> F \<subseteq>\<^sub>m G(p := x)"
  by (auto simp: map_le_def)

text \<open>An idle chunk outside the bins becomes a chunk in use.\<close>

lemma use_whole:
  assumes T: "free_table m (table_of F) s" and lay: "heap_layout m U G s" and F: "F \<subseteq>\<^sub>m G" and p: "G p = Some S" "F p = None"
  defines "s' \<equiv> set_inuse_and_pinuse p S s"
  shows "free_table m (table_of F) s'" "heap_layout m (U(p \<mapsto> S)) (G(p := None)) s'" "payload_kept U s s'" "F \<subseteq>\<^sub>m G(p := None)"
proof -
  have "8 < S" using layoutD(2) [OF lay p(1)] good_sizeD(7) by blast
  then have tw: "tag_writes U G F s s s'"
    using idle_tag_cells [OF lay p F]
    unfolding s'_def set_inuse_and_pinuse_def Let_def set_head_def by (intro tag_writes_store tag_writes_refl) simp_all
  show "free_table m (table_of F) s'" "payload_kept U s s'"
    using tag_writes_table [OF lay T F tw] tag_writes_payload [OF lay tw] by blast+
  show "heap_layout m (U(p \<mapsto> S)) (G(p := None)) s'" unfolding s'_def by (rule layout_take [OF lay p(1)])
  show "F \<subseteq>\<^sub>m G(p := None)" using map_le_without [OF F p(2)] .
qed

lemma layout_inside:
  assumes lay: "heap_layout m U G s" and b: "block U G s p S" and x: "0 < x" "x < S"
  shows "U (p + x) = None" "G (p + x) = None" "p + x \<noteq> topc s"
proof -
  have n: "\<not> block U G s (p + x) w" for w
  proof
    assume w: "block U G s (p + x) w"
    have "p \<noteq> p + x" using x(1) by auto
    moreover have "0 < w" using block_size [OF lay w] by (auto simp: word_less_nat_alt)
    ultimately have "p + x \<noteq> p + x + 0" using no_overlap_cell [OF layoutD(5) [OF lay b w] x(2)] by blast
    then show False by simp
  qed
  show "U (p + x) = None" using n unfolding block_def by (cases "U (p + x)") blast+
  show "G (p + x) = None" using n unfolding block_def by (cases "G (p + x)") blast+
  show "p + x \<noteq> topc s" using n unfolding block_def by blast
qed

text \<open>
  The first part of an idle chunk becomes a chunk in use, the rest an idle chunk that is not yet
  in the bins; the two heads may be written in either order.
\<close>

definition split_tags :: "u64 \<Rightarrow> u64 \<Rightarrow> u64 \<Rightarrow> 'w heap \<Rightarrow> 'w heap" where
  "split_tags p nb R s = set_size_and_pinuse_of_free_chunk (p + nb) R (set_size_and_pinuse_of_inuse_chunk p nb s)"

lemma use_part:
  assumes T: "free_table m (table_of F) s" and lay: "heap_layout m U G s" and F: "F \<subseteq>\<^sub>m G"
    and p: "G p = Some (nb + R)" "F p = None" and g: "good_size nb" "good_size R"
  defines "s' \<equiv> split_tags p nb R s"
  shows "free_table m (table_of F) s'" "heap_layout m (U(p \<mapsto> nb)) (G(p := None, p + nb \<mapsto> R)) s'" "payload_kept U s s'"
    "F \<subseteq>\<^sub>m G(p := None, p + nb \<mapsto> R)" "F (p + nb) = None" "U (p + nb) = None"
proof -
  have z: "unat (nb + R) = unat nb + unat R" "32 \<le> unat R" "32 \<le> unat nb"
    using g good_sizeD(2,3) [OF g(1)] good_sizeD(2,3) [OF g(2)] by (simp_all add: unat_word_ariths word_less_nat_alt word_le_nat_alt)
  have "0 < nb" "nb < nb + R" using z by (simp_all add: word_less_nat_alt)
  note I = layout_inside [OF lay _ this, of p]
  have r: "U (p + nb) = None" "G (p + nb) = None" using I p(1) by (simp_all add: block_def)
  then show "U (p + nb) = None" "F (p + nb) = None" using F by (auto simp: map_le_def dom_def)
  then show "F \<subseteq>\<^sub>m G(p := None, p + nb \<mapsto> R)" using F p(2) by (intro map_le_without) auto
  have c: "tag_cell U G F s (p + 8)" "tag_cell U G F s (p + (nb + 8))" "tag_cell U G F s (p + (nb + R))"
    using idle_tag_cells(1,2) [OF lay p F] z by (simp_all add: word_less_nat_alt word_le_nat_alt unat_word_ariths)
  then have tw: "tag_writes U G F s s s'"
    unfolding s'_def split_tags_def tag_write_defs set_head_def set_prev_foot_def add.assoc
    by (intro tag_writes_store tag_writes_refl)
  show "free_table m (table_of F) s'" "payload_kept U s s'"
    using tag_writes_table [OF lay T F tw] tag_writes_payload [OF lay tw] by blast+
  have al: "is_aligned p" "is_aligned (p + nb)" "is_aligned nb" "is_aligned R"
    using layout_aligned(2) [OF lay p(1)] good_sizeD(1) g by (simp_all add: is_aligned_add)
  show "heap_layout m (U(p \<mapsto> nb)) (G(p := None, p + nb \<mapsto> R)) s'"
    by (rule layout_split [OF lay p(1) g])
      (auto simp: s'_def split_tags_def set_free_chunk_tags [OF al(2,4)] set_size_tags [OF al(1,3)])
qed

subsection \<open>What an allocation promises\<close>

text \<open>The space as a whole: its bounds and the thresholds for trimming.\<close>

definition same_space :: "'w heap \<Rightarrow> 'w heap \<Rightarrow> bool" where
  "same_space s s' \<longleftrightarrow> least_addr s' = least_addr s \<and> topc s' + topsize s' = topc s + topsize s \<and>
     trim_check s' = trim_check s"

lemma same_space_trans: "same_space s s' \<Longrightarrow> same_space s' s'' \<Longrightarrow> same_space s s''"
  by (simp add: same_space_def)

lemma same_scalars_space: "same_scalars s s' \<Longrightarrow> same_space s s' \<and> release_checks s' = release_checks s"
  using same_scalarsD [of s s'] by (simp add: same_space_def)

lemma tag_writes_space [simp]:
  "same_space s (set_inuse_and_pinuse p z s') = same_space s s'" "same_space s (split_tags p z r s') = same_space s s'"
  "same_space s (set_free_with_pinuse p z n s') = same_space s s'"
  "same_space s (set_size_and_pinuse_of_free_chunk p z s') = same_space s s'"
  "release_checks (set_inuse_and_pinuse p z s') = release_checks s'" "release_checks (split_tags p z r s') = release_checks s'"
  "release_checks (set_free_with_pinuse p z n s') = release_checks s'"
  "release_checks (set_size_and_pinuse_of_free_chunk p z s') = release_checks s'"
  by (simp_all add: same_space_def split_tags_def tag_write_defs set_head_def set_prev_foot_def)

text \<open>
  The chunk at \<open>p\<close> is new, at least as large as the padded request \<open>nb\<close> and less than a
  minimal chunk larger; the heap keeps its invariant and the chunks in use their payload.
\<close>

definition allocated :: "u64 \<Rightarrow> sizes \<Rightarrow> 'w heap \<Rightarrow> u64 \<Rightarrow> u64 \<Rightarrow> 'w heap \<Rightarrow> bool" where
  "allocated m U s nb p s' \<longleftrightarrow> U p = None \<and> payload_kept U s s' \<and> same_space s s' \<and>
     release_checks s' = release_checks s \<and>
     (\<exists>z F. nb \<le> z \<and> z < nb + MIN_CHUNK_SIZE \<and> heap_ok m (U(p \<mapsto> z)) F s')"

lemma heap_okD:
  assumes "heap_ok m U F s"
  shows "free_table m (table_of F) s" "heap_layout m U (with_dv F s) s" "F \<subseteq>\<^sub>m with_dv F s"
    "dvsize s \<noteq> 0 \<Longrightarrow> F (dv s) = None" "dvsize s = 0 \<Longrightarrow> dv s = 0"
  using assms by (auto simp: heap_ok_def with_dv_def map_le_def dom_def split: if_splits)

lemma bin_entry:
  assumes "heap_ok m U F s" "p \<in> table_of F S"
  shows "F p = Some S" "with_dv F s p = Some S" "good_size S" "ok_address s p" "p \<noteq> 0" "dvsize s = 0 \<or> dv s \<noteq> p"
proof -
  note H = heap_okD [OF assms(1)]
  show F: "F p = Some S" using assms(2) by (simp add: table_of_def)
  then show G: "with_dv F s p = Some S" using H(3) by (auto simp: map_le_def dom_def)
  show "dvsize s = 0 \<or> dv s \<noteq> p" using F H(4) by auto
  note L = layoutD(2) [OF H(2) G]
  then show "good_size S" "ok_address s p" "p \<noteq> 0" by (auto simp: sized_chunk_def tree_chunk_def chunk_at_def)
qed

end
