(* ===== verification/HeapAlloc.thy ===== *)
theory HeapAlloc
  imports HeapInv
begin

text \<open>
  Allocation keeps the heap: \<open>tmalloc_large\<close>, \<open>tmalloc_small\<close>, the small bins, the designated
  victim and top each hand out a new chunk of the padded size.
\<close>

subsection \<open>From the bins\<close>

lemma with_dv_upd: "dvsize s = 0 \<or> dv s \<noteq> p \<Longrightarrow> with_dv (F(p := x)) s = (with_dv F s)(p := x)"
  by (auto simp: with_dv_def fun_upd_twist)

lemma with_dv_cong: "dv s' = dv s \<Longrightarrow> dvsize s' = dvsize s \<Longrightarrow> with_dv F s' = with_dv F s"
  by (simp add: with_dv_def)

lemma tag_writes_dv [simp]:
  "dv (set_inuse_and_pinuse p z s) = dv s" "dvsize (set_inuse_and_pinuse p z s) = dvsize s"
  "dv (split_tags p z r s) = dv s" "dvsize (split_tags p z r s) = dvsize s"
  by (simp_all add: tag_write_defs split_tags_def)

lemma heap_okI:
  assumes "free_table m (table_of F) s" "heap_layout m U G s" "G = with_dv F s" "if dvsize s = 0 then dv s = 0 else F (dv s) = None"
  shows "heap_ok m U F s"
  using assms by (simp add: heap_ok_def)

text \<open>The state after a chunk has left the bins, before its tags are written.\<close>

definition bin_left :: "u64 \<Rightarrow> sizes \<Rightarrow> sizes \<Rightarrow> 'w heap \<Rightarrow> u64 \<Rightarrow> u64 \<Rightarrow> 'w heap \<Rightarrow> bool" where
  "bin_left m U F s p S s' \<longleftrightarrow> heap_ok m U F s \<and> F p = Some S \<and> free_table m (table_of (F(p := None))) s' \<and>
     heap_layout m U (with_dv F s) s' \<and> payload_kept U s s' \<and> same_scalars s s'"

lemma take_bin_chunk:
  assumes "heap_ok m U F s" "F p = Some S"
  shows "\<exists>s'. unlink_chunk m p S s = Some s' \<and> bin_left m U F s p S s'"
  using heap_unlink [OF heap_okD(1,2,3) [OF assms(1)] assms(2)] assms unfolding bin_left_def by blast

lemma bin_leftD:
  assumes "bin_left m U F s p S s'"
  shows "free_table m (table_of (F(p := None))) s'" "heap_layout m U (with_dv F s) s'" "F(p := None) \<subseteq>\<^sub>m with_dv F s"
    "with_dv F s p = Some S" "(F(p := None)) p = None" "payload_kept U s s'" "dv s' = dv s" "dvsize s' = dvsize s"
    "dvsize s = 0 \<or> dv s \<noteq> p" "U p = None" "good_size S" "same_space s s'" "release_checks s' = release_checks s"
proof -
  have "same_scalars s s'" using assms by (simp add: bin_left_def)
  then show "same_space s s'" "release_checks s' = release_checks s" using same_scalars_space by blast+
  have h: "heap_ok m U F s" "p \<in> table_of F S" using assms by (simp_all add: bin_left_def table_of_def)
  show "free_table m (table_of (F(p := None))) s'" "heap_layout m U (with_dv F s) s'" "payload_kept U s s'"
    using assms by (simp_all add: bin_left_def)
  show "dv s' = dv s" "dvsize s' = dvsize s" using assms same_scalarsD(4,5) by (auto simp: bin_left_def)
  show "with_dv F s p = Some S" "dvsize s = 0 \<or> dv s \<noteq> p" "good_size S" using bin_entry [OF h] by blast+
  then show "U p = None" using layout_kinds(2) [OF heap_okD(2) [OF h(1)]] by blast
  show "F(p := None) \<subseteq>\<^sub>m with_dv F s" using heap_okD(3) [OF h(1)] by (auto simp: map_le_def)
qed simp

lemma allocated_whole:
  assumes "bin_left m U F s p S s'" "nb \<le> S" "S < nb + 32"
  shows "allocated m U s nb p (set_inuse_and_pinuse p S s')"
proof -
  note B = bin_leftD [OF assms(1)]
  note W = use_whole [OF B(1,2,3,4,5)]
  have h: "heap_ok m U F s" using assms(1) by (simp add: bin_left_def)
  have "heap_ok m (U(p \<mapsto> S)) (F(p := None)) (set_inuse_and_pinuse p S s')"
    using W(1,2)
  proof (rule heap_okI)
    show "(with_dv F s)(p := None) = with_dv (F(p := None)) (set_inuse_and_pinuse p S s')"
      using with_dv_upd [OF B(9)] with_dv_cong [of "set_inuse_and_pinuse p S s'" s] B(7,8) by simp
  qed (use heap_okD(4,5) [OF h] B(7,8) in auto)
  then show ?thesis
    using B(10,12,13) assms(2,3) payload_kept_trans [OF B(6) W(3)] unfolding allocated_def by auto
qed

lemma part_free:
  assumes "heap_layout m U G s" "G p = Some (nb + R)" "good_size nb" "good_size R"
  shows "0 < nb" "G (p + nb) = None"
proof -
  show "0 < nb" using good_sizeD(9) [OF assms(3)] .
  moreover have "nb < nb + R"
    using good_sizeD(3) [OF assms(3)] good_sizeD(2,3) [OF assms(4)]
    by (simp add: unat_word_ariths word_less_nat_alt word_le_nat_alt)
  moreover have "block U G s p (nb + R)" using assms(2) by (simp add: block_def)
  ultimately show "G (p + nb) = None" using layout_inside(2) [OF assms(1)] by blast
qed

lemma allocated_part:
  assumes left: "bin_left m U F s p (nb + R) s'" and g: "good_size nb" "good_size R"
  shows "\<exists>s2. insert_chunk m (p + nb) R (split_tags p nb R s') = Some s2 \<and> allocated m U s nb p s2"
proof -
  let ?s = "split_tags p nb R s'" and ?r = "p + nb"
  note B = bin_leftD [OF left]
  note P = use_part [OF B(1,2,3,4,5) g]
  have h: "heap_ok m U F s" using left by (simp add: bin_left_def)
  have e: "((with_dv F s)(p := None, ?r \<mapsto> R)) ?r = Some R" by simp
  obtain s2 where s2: "insert_chunk m ?r R ?s = Some s2" "free_table m (table_of (F(p := None, ?r \<mapsto> R))) s2"
    "heap_layout m (U(p \<mapsto> nb)) ((with_dv F s)(p := None, ?r \<mapsto> R)) s2" "payload_kept (U(p \<mapsto> nb)) ?s s2" "same_scalars ?s s2"
    using heap_insert [OF P(1,2,4) e P(5)] by blast
  have d: "dv s2 = dv s" "dvsize s2 = dvsize s" using same_scalarsD(4,5) [OF s2(5)] B(7,8) by simp_all
  have "dvsize s = 0 \<or> dv s \<noteq> ?r"
    using part_free(2) [OF B(2,4) g] by (auto simp: with_dv_def)
  then have w: "(with_dv F s)(p := None, ?r \<mapsto> R) = with_dv (F(p := None, ?r \<mapsto> R)) s2"
    using with_dv_upd [OF B(9)] with_dv_upd [of s ?r] with_dv_cong [OF d] by simp
  have "heap_ok m (U(p \<mapsto> nb)) (F(p := None, ?r \<mapsto> R)) s2"
    by (rule heap_okI [OF s2(2,3) w]) (use heap_okD(4,5) [OF h] d \<open>dvsize s = 0 \<or> dv s \<noteq> ?r\<close> in auto)
  moreover have "payload_kept U s s2"
  proof -
    have "U \<subseteq>\<^sub>m U(p \<mapsto> nb)" using B(10) by (simp add: map_le_without)
    then have "payload_kept U ?s s2" using payload_kept_mono [OF s2(4)] by blast
    then show ?thesis using payload_kept_trans [OF payload_kept_trans [OF B(6) P(3)]] by blast
  qed
  moreover have "nb < nb + 32" using good_sizeD(3) [OF g(1)] by (simp add: unat_word_ariths word_less_nat_alt)
  moreover have "same_space s s2" "release_checks s2 = release_checks s"
    using same_scalars_space [OF s2(5)] same_space_trans [of s ?s s2] B(12,13) by simp_all
  ultimately show ?thesis using s2(1) B(10) unfolding allocated_def by auto
qed

lemma allocated_part_dv:
  assumes left: "bin_left m U F s p (nb + R) s'" and g: "good_size nb" "good_size R" and small: "is_small (dvsize s)"
  shows "\<exists>s2. replace_dv m (p + nb) R (split_tags p nb R s') = Some s2 \<and> allocated m U s nb p s2"
proof -
  let ?s = "split_tags p nb R s'" and ?r = "p + nb" and ?F = "F(p := None)"
  let ?G = "(with_dv F s)(p := None, ?r \<mapsto> R)"
  note B = bin_leftD [OF left]
  note P = use_part [OF B(1,2,3,4,5) g]
  have h: "heap_ok m U F s" using left by (simp add: bin_left_def)
  note Z = part_free [OF B(2,4) g]
  note wr = Z(2)
  have R0: "R \<noteq> 0" using good_sizeD(9) [OF g(2)] by auto
  have pr: "p \<noteq> ?r" using Z(1) by auto
  have UU: "U \<subseteq>\<^sub>m U(p \<mapsto> nb)" using B(10) by (simp add: map_le_without)
  have lt: "nb < nb + 32" using good_sizeD(3) [OF g(1)] by (simp add: unat_word_ariths word_less_nat_alt)
  have fin: "allocated m U s nb p s3"
    if run: "free_table m (table_of F') s2" "heap_layout m (U(p \<mapsto> nb)) ?G s2" "payload_kept (U(p \<mapsto> nb)) ?s s2"
        "same_scalars ?s s2"
      and F': "F'(?r \<mapsto> R) = ?G" "F' ?r = None" and s3: "s3 = s2\<lparr>dvsize := R, dv := ?r\<rparr>" for F' s2 s3
  proof -
    have l: "load s3 a = load s2 a" for a by (simp add: s3 load_def)
    have "free_table m (table_of F') s3" using free_table_fields [OF run(1) _ _ _ l] by (simp add: s3)
    moreover have "heap_layout m (U(p \<mapsto> nb)) ?G s3" using layout_fields [OF run(2) _ _ _ l] by (simp add: s3)
    ultimately have "heap_ok m (U(p \<mapsto> nb)) F' s3"
      by (rule heap_okI) (use R0 F' in \<open>simp_all add: s3 with_dv_def\<close>)
    moreover have "payload_kept U s s3"
      using payload_kept_trans [OF payload_kept_trans [OF B(6) P(3)] payload_kept_mono [OF run(3) UU]] l
      by (simp add: payload_kept_def)
    moreover have "same_space s s3" "release_checks s3 = release_checks s"
    proof -
      have "same_space s s2" "release_checks s2 = release_checks s"
        using same_scalars_space [OF run(4)] same_space_trans [of s ?s s2] B(12,13) by simp_all
      then show "same_space s s3" "release_checks s3 = release_checks s" by (simp_all add: s3 same_space_def)
    qed
    ultimately show ?thesis using B(10) lt unfolding allocated_def by auto
  qed
  show ?thesis
  proof (cases "dvsize s = 0")
    case True
    have F: "?F(?r \<mapsto> R) = ?G" "?F ?r = None" using True wr pr by (auto simp: with_dv_def)
    have "allocated m U s nb p (?s\<lparr>dvsize := R, dv := ?r\<rparr>)" by (rule fin [OF P(1,2) payload_kept_refl same_scalars_refl F refl])
    then show ?thesis using True B(8) by (simp add: replace_dv_def Let_def)
  next
    case False
    have dv: "?G (dv s) = Some (dvsize s)" "?F (dv s) = None" "dv s \<noteq> p" "dv s \<noteq> ?r"
      using False B(9) wr heap_okD(4) [OF h] by (auto simp: with_dv_def)
    obtain s2 where s2: "insert_chunk m (dv s) (dvsize s) ?s = Some s2" "free_table m (table_of (?F(dv s \<mapsto> dvsize s))) s2"
      "heap_layout m (U(p \<mapsto> nb)) ?G s2" "payload_kept (U(p \<mapsto> nb)) ?s s2"
      "same_scalars ?s s2"
      using heap_insert [OF P(1,2,4) dv(1,2)] by blast
    have F: "(?F(dv s \<mapsto> dvsize s))(?r \<mapsto> R) = ?G" "(?F(dv s \<mapsto> dvsize s)) ?r = None"
      using False dv wr pr by (auto simp: with_dv_def fun_upd_twist)
    have "allocated m U s nb p (s2\<lparr>dvsize := R, dv := ?r\<rparr>)" by (rule fin [OF s2(2,3,4,5) F refl])
    then show ?thesis using False B(7,8) s2(1) small by (simp add: replace_dv_def insert_chunk_def)
  qed
qed

subsection \<open>From the designated victim and from top\<close>

lemma split_tags_other_order:
  assumes "is_aligned p" "is_aligned nb" "is_aligned R" "nb \<noteq> 0"
  shows "set_size_and_pinuse_of_inuse_chunk p nb (set_size_and_pinuse_of_free_chunk (p + nb) R s) = split_tags p nb R s"
proof -
  have al: "is_aligned (p + nb + R)" using assms by (simp add: is_aligned_add)
  have n: "p + 8 \<noteq> p + nb + R" "p + 8 \<noteq> p + nb + 8"
    using aligned_apart [OF al assms(1)] assms(4) by (auto simp: add.assoc add.commute [of _ "8"])
  show ?thesis
    by (simp only: split_tags_def tag_write_defs set_head_def set_prev_foot_def store_commute [OF n(1)] store_commute [OF n(2)])
qed

lemma allocated_dv:
  assumes h: "heap_ok m U F s" and nb: "good_size nb" "nb \<le> dvsize s"
  shows "\<exists>s'. malloc_from_dv nb s = (chunk2mem (dv s), s') \<and> allocated m U s nb (dv s) s'"
proof -
  let ?p = "dv s" and ?S = "dvsize s"
  note H = heap_okD [OF h] and zn = good_sizeD [OF nb(1)]
  have S0: "?S \<noteq> 0" using nb(2) zn(9) by auto
  have G: "with_dv F s ?p = Some ?S" "F ?p = None" "with_dv F s = F(?p \<mapsto> ?S)" using S0 H(4) by (simp_all add: with_dv_def)
  have gS: "good_size ?S" using layoutD(2) [OF H(2) G(1)] by blast
  have Up: "U ?p = None" using layout_kinds(2) [OF H(2) G(1)] .
  show ?thesis
  proof (cases "32 \<le> ?S - nb")
    case True
    define R where "R = ?S - nb"
    define s0 where "s0 = s\<lparr>dv := ?p + nb, dvsize := R\<rparr>"
    have R: "nb + R = ?S" "32 \<le> R" using True by (simp_all add: R_def)
    have "unat R = unat ?S - unat nb" using nb(2) by (simp add: R_def unat_sub)
    then have "R < 2 ^ 40" using good_sizeD(3) [OF gS] by (simp add: word_less_nat_alt)
    then have gR: "good_size R"
      using R(2) is_aligned_add [OF zn(1), of R] good_sizeD(1) [OF gS] by (simp add: good_size_def R(1))
    have l: "load s0 a = load s a" for a by (simp add: s0_def load_def)
    have T: "free_table m (table_of F) s0" using free_table_fields [OF H(1) _ _ _ l] by (simp add: s0_def)
    have L: "heap_layout m U (with_dv F s) s0" using layout_fields [OF H(2) _ _ _ l] by (simp add: s0_def)
    note P = use_part [OF T L H(3) G(1) [folded R(1)] G(2) nb(1) gR]
    let ?s = "split_tags ?p nb R s0"
    have "malloc_from_dv nb s = (chunk2mem ?p, ?s)"
      using True zn(9) layout_aligned(2) [OF H(2) G(1)] good_sizeD(1) [OF gR] zn(1)
      unfolding s0_def by (subst split_tags_other_order [symmetric])
        (simp_all add: malloc_from_dv_def Let_def chunk_plus_offset_def R_def)
    moreover have "heap_ok m (U(?p \<mapsto> nb)) F ?s"
      using P(1,2)
    proof (rule heap_okI)
      have "dv ?s = ?p + nb" "dvsize ?s = R" "R \<noteq> 0" using good_sizeD(9) [OF gR] by (auto simp: s0_def)
      then show "(with_dv F s)(?p := None, ?p + nb \<mapsto> R) = with_dv F ?s" "if dvsize ?s = 0 then dv ?s = 0 else F (dv ?s) = None"
        using G(2) P(5) by (auto simp: G(3) with_dv_def fun_eq_iff)
    qed
    moreover have "payload_kept U s ?s" using P(3) l by (simp add: payload_kept_def)
    moreover have "nb < nb + 32" using zn(3) by (simp add: unat_word_ariths word_less_nat_alt)
    moreover have "same_space s s0" "release_checks s0 = release_checks s" by (simp_all add: s0_def same_space_def)
    then have "same_space s ?s" "release_checks ?s = release_checks s" by simp_all
    ultimately show ?thesis using Up unfolding allocated_def by auto
  next
    case False
    define s0 where "s0 = s\<lparr>dvsize := 0, dv := 0\<rparr>"
    have l: "load s0 a = load s a" for a by (simp add: s0_def load_def)
    have T: "free_table m (table_of F) s0" using free_table_fields [OF H(1) _ _ _ l] by (simp add: s0_def)
    have L: "heap_layout m U (with_dv F s) s0" using layout_fields [OF H(2) _ _ _ l] by (simp add: s0_def)
    note W = use_whole [OF T L H(3) G(1,2)]
    let ?s = "set_inuse_and_pinuse ?p ?S s0"
    have "malloc_from_dv nb s = (chunk2mem ?p, ?s)"
      using False by (simp add: malloc_from_dv_def Let_def s0_def)
    moreover have "heap_ok m (U(?p \<mapsto> ?S)) F ?s"
      using W(1,2)
    proof (rule heap_okI)
      have "dv ?s = 0" "dvsize ?s = 0" by (simp_all add: s0_def)
      then show "(with_dv F s)(?p := None) = with_dv F ?s" "if dvsize ?s = 0 then dv ?s = 0 else F (dv ?s) = None"
        using G(2) by (auto simp: G(3) with_dv_def fun_eq_iff)
    qed
    moreover have "payload_kept U s ?s" using W(3) l by (simp add: payload_kept_def)
    moreover have "?S < nb + 32"
      using False nb(2) zn(3) by (simp add: unat_word_ariths word_less_nat_alt word_le_nat_alt unat_sub)
    moreover have "same_space s s0" "release_checks s0 = release_checks s" by (simp_all add: s0_def same_space_def)
    then have "same_space s ?s" "release_checks ?s = release_checks s" by simp_all
    ultimately show ?thesis using Up nb(2) unfolding allocated_def by auto
  qed
qed

lemma allocated_top:
  assumes h: "heap_ok m U F s" and nb: "good_size nb" "nb < topsize s"
  shows "\<exists>s'. malloc_from_top nb s = (chunk2mem (topc s), s') \<and> allocated m U s nb (topc s) s'"
proof -
  let ?p = "topc s" and ?s = "snd (malloc_from_top nb s)"
  note H = heap_okD [OF h] and zn = good_sizeD [OF nb(1)]
  have top: "top_ok m s" using layoutD(3) [OF H(2)] by blast
  have Fp: "F ?p = None" "U ?p = None" using layout_kinds(3,4) [OF H(2)] H(3) by (auto simp: map_le_def dom_def)
  have x: "8 < topsize s + 80" "nb + 8 < topsize s + 80" "8 \<le> nb + 8"
    using top_bounds [OF top] nb(2) zn(3) by (simp_all add: word_less_nat_alt word_le_nat_alt unat_word_ariths)
  have c: "tag_cell U (with_dv F s) F s (?p + y)" if "y < topsize s + 80" "8 \<le> y" for y
    using that Fp unfolding tag_cell_def block_def by auto
  have eq: "?s = store (?p + 8) (nb OR 1 OR 2) (store (?p + (nb + 8)) ((topsize s - nb) OR 1)
      (s\<lparr>topsize := topsize s - nb, topc := ?p + nb\<rparr>))"
    by (simp add: malloc_from_top_def Let_def set_size_and_pinuse_of_inuse_chunk_def set_head_def chunk_plus_offset_def add.assoc)
  have "tag_writes U (with_dv F s) F s s (s\<lparr>topsize := topsize s - nb, topc := ?p + nb\<rparr>)"
    by (simp add: tag_writes_def load_def)
  then have tw: "tag_writes U (with_dv F s) F s s ?s"
    unfolding eq by (intro tag_writes_store c x) simp_all
  have d: "dv ?s = dv s" "dvsize ?s = dvsize s" unfolding eq by simp_all
  have "heap_ok m (U(?p \<mapsto> nb)) F ?s"
    using tag_writes_table [OF H(2,1,3) tw] layout_top_cut [OF H(2) nb]
    by (rule heap_okI) (use d H(4,5) in \<open>simp_all add: with_dv_def\<close>)
  moreover have "fst (malloc_from_top nb s) = chunk2mem ?p" by (simp add: malloc_from_top_def Let_def)
  moreover have "nb < nb + 32" using zn(3) by (simp add: unat_word_ariths word_less_nat_alt)
  moreover have "same_space s ?s" "release_checks ?s = release_checks s" unfolding eq by (simp_all add: same_space_def)
  ultimately show ?thesis
    using Fp tag_writes_payload [OF H(2) tw] unfolding allocated_def by (intro exI [of _ ?s]) (auto simp: prod_eq_iff)
qed

subsection \<open>From the trees\<close>

text \<open>A chunk of the bins that is large enough splits as the request and the remainder.\<close>

lemma bin_fit:
  assumes h: "heap_ok m U F s" and v: "F v = Some S" and nb: "good_size nb" "nb \<le> S"
  shows "ok_address s v" "ok_next v (v + nb)" "v + 16 \<noteq> 0" "S < nb + 32 \<longleftrightarrow> S - nb < 32" "nb + (S - nb) = S"
    "\<not> S - nb < 32 \<Longrightarrow> good_size (S - nb)"
proof -
  have "v \<in> table_of F S" using v by (simp add: table_of_def)
  note E = bin_entry [OF h this]
  show "ok_address s v" by (rule E(4))
  note z = good_sizeD [OF nb(1)] and zS = good_sizeD [OF E(3)]
  have X: "unat (v + S) = unat v + unat S" using layout_extent(1) [OF heap_okD(2) [OF h] disjI2 [OF E(2)]] .
  have lt: "unat v + unat nb < 2 ^ 64" using X unat_less_exp [of "v + S"] nb(2) by (simp add: word_le_nat_alt)
  then show "ok_next v (v + nb)" using z(9) by (simp add: ok_next_def word_less_nat_alt unat_word_ariths)
  have "tree_chunk m s v" using layoutD(2) [OF heap_okD(2) [OF h] E(2)] by (auto simp: sized_chunk_def)
  then have "v \<le> - 64" by (simp add: tree_chunk_def)
  then have "unat (v + 16) = unat v + 16" by (simp add: unat_word_ariths word_le_nat_alt)
  then show "v + 16 \<noteq> 0" by auto
  have d: "unat (S - nb) = unat S - unat nb" using nb(2) by (simp add: unat_sub)
  show "S < nb + 32 \<longleftrightarrow> S - nb < 32"
    using z(3) nb(2) d by (auto simp: word_less_nat_alt word_le_nat_alt unat_word_ariths)
  show e: "nb + (S - nb) = S" by simp
  show "good_size (S - nb)" if "\<not> S - nb < 32"
  proof -
    have "unat (S - nb) < 2 ^ 40" using d zS(3) by (simp add: word_less_nat_alt)
    then have "S - nb < 2 ^ 40" by (simp add: word_less_nat_alt)
    then show ?thesis
      using that zS(1) is_aligned_add [OF z(1), of "S - nb"] by (simp add: good_size_def e not_less)
  qed
qed

text \<open>The end of \<open>tmalloc_large\<close>: the chunk is used whole or split, with the rest filed.\<close>

lemma bin_chunk_used:
  assumes h: "heap_ok m U F s" and v: "F v = Some S" and nb: "good_size nb" "nb \<le> S"
  shows "\<exists>s1. unlink_chunk m v S s = Some s1 \<and>
    (if S - nb < 32 then allocated m U s nb v (set_inuse_and_pinuse v S s1)
     else (\<exists>s2. insert_chunk m (v + nb) (S - nb) (split_tags v nb (S - nb) s1) = Some s2 \<and> allocated m U s nb v s2) \<and>
       (is_small (dvsize s) \<longrightarrow>
         (\<exists>s2. replace_dv m (v + nb) (S - nb) (split_tags v nb (S - nb) s1) = Some s2 \<and> allocated m U s nb v s2)))"
proof -
  note B = bin_fit [OF assms]
  obtain s1 where s1: "unlink_chunk m v S s = Some s1" "bin_left m U F s v S s1"
    using take_bin_chunk [OF h v] by blast
  then have l: "bin_left m U F s v (nb + (S - nb)) s1" by (simp only: B(5))
  show ?thesis
    using s1(1) allocated_whole [OF s1(2) nb(2)] B(4) allocated_part [OF l nb(1) B(6)] allocated_part_dv [OF l nb(1) B(6)]
    by auto
qed

lemma tmalloc_large_allocates:
  assumes h: "heap_ok m U F s" and nb: "good_size nb" "MIN_LARGE_SIZE \<le> nb"
  shows "\<exists>mm s'. tmalloc_large m nb s = Some (mm, s') \<and>
    (mm = 0 \<and> s' = s \<or> mm \<noteq> 0 \<and> (\<exists>p. mm = chunk2mem p \<and> allocated m U s nb p s'))"
proof -
  note z = good_sizeD [OF nb(1)]
  obtain v r where fit: "tmalloc_large_fit m nb s = Some (v, r)"
    "(v, r) = (0, - nb) \<and> (\<forall>S. nb \<le> S \<longrightarrow> table_of F S = {}) \<or>
     v \<noteq> 0 \<and> (\<exists>S. r = S - nb \<and> best_fit (table_of F) nb v S)"
    using tmalloc_large_fit_table [OF heap_okD(1) [OF h] nb(2) z(3)] by blast
  show ?thesis
  proof (cases "v \<noteq> 0 \<and> r < dvsize s - nb")
    case False
    then show ?thesis using fit(1) by (auto simp: tmalloc_large_def)
  next
    case True
    then obtain S where S: "r = S - nb" "F v = Some S" "nb \<le> S"
      using fit(2) by (auto simp: best_fit_def table_of_def)
    note B = bin_fit [OF h S(2) nb(1) S(3)]
    have "\<not> is_small S" using S(3) nb(2) by (simp add: small_or_large)
    then have u: "unlink_chunk m v S s = unlink_large_chunk m v s" by (simp add: unlink_chunk_def)
    obtain s1 where s1: "unlink_large_chunk m v s = Some s1"
      "if S - nb < 32 then allocated m U s nb v (set_inuse_and_pinuse v S s1)
       else \<exists>s2. insert_chunk m (v + nb) (S - nb) (split_tags v nb (S - nb) s1) = Some s2 \<and> allocated m U s nb v s2"
      using bin_chunk_used [OF h S(2) nb(1) S(3)] unfolding u by (auto split: if_splits)
    have "S - nb + nb = S" by simp
    then show ?thesis
      using fit(1) True s1 B(1-3)
      by (cases "S - nb < 32") (auto simp: tmalloc_large_def S(1) chunk_plus_offset_def chunk2mem_def split_tags_def Let_def)
  qed
qed

lemma tmalloc_small_allocates:
  assumes h: "heap_ok m U F s" and nb: "good_size nb" "is_small nb" and ne: "treemap s \<noteq> 0" and dvs: "dvsize s < nb"
  shows "\<exists>p s'. tmalloc_small m nb s = Some (chunk2mem p, s') \<and> chunk2mem p \<noteq> 0 \<and> allocated m U s nb p s'"
proof -
  note z = good_sizeD [OF nb(1)]
  have lt: "nb < MIN_LARGE_SIZE" using nb(2) by (simp only: small_or_large)
  then have sd: "is_small (dvsize s)" using dvs by (simp add: small_or_large)
  let ?t = "load s (treebin_at m (compute_bit2idx (least_bit (treemap s))))"
  obtain L Ts where L: "bins_hold m L Ts s" "table_of F = (\<lambda>S. {p \<in> bin_chunks L Ts. chunksize s p = S})"
    using free_tableE [OF heap_okD(1) [OF h]] by blast
  obtain v r where c: "leftmost_fit s nb (leftmost_child s ?t) ?t (chunksize s ?t - nb) = Some (v, r)"
    "fit_in s nb (tree_chunks Ts) (0, - nb) (v, r)" "(v, r) \<noteq> (0, - nb)"
    using least_tree_fit [OF bins_holdD(2) [OF L(1)] bins_hold_large(1) [OF L(1)] z(9) lt ne] by auto
  obtain S where S: "\<not> is_small S" "r = S - nb" "F v = Some S" "nb \<le> S"
    using fit_in_table [OF L c(2) z(9)] c(3) by (auto simp: best_fit_def table_of_def)
  note B = bin_fit [OF h S(3) nb(1) S(4)]
  have u: "unlink_chunk m v S s = unlink_large_chunk m v s" using S(1) by (simp add: unlink_chunk_def)
  obtain s1 where s1: "unlink_large_chunk m v s = Some s1"
    "if S - nb < 32 then allocated m U s nb v (set_inuse_and_pinuse v S s1)
     else \<exists>s2. replace_dv m (v + nb) (S - nb) (split_tags v nb (S - nb) s1) = Some s2 \<and> allocated m U s nb v s2"
    using bin_chunk_used [OF h S(3) nb(1) S(4)] sd unfolding u by (auto split: if_splits)
  have "S - nb + nb = S" by simp
  then show ?thesis
    using c(1) s1 B(1-3)
    by (cases "S - nb < 32") (auto simp: tmalloc_small_def S(2) chunk_plus_offset_def chunk2mem_def split_tags_def Let_def)
qed

subsection \<open>From the small bins\<close>

lemma unat_class_size:
  assumes "i < 32"
  shows "unat (ucast (small_index2size i) :: u64) = 8 * unat i"
proof -
  have "unat i < 32" using assms by (simp add: word_less_nat_alt)
  then show ?thesis
    by (simp add: small_index2size_def push_bit_eq_mult unsigned_ucast_eq unat_word_ariths take_bit_nat_eq_self)
qed

lemma unat_small_index:
  assumes "is_small S"
  shows "unat (small_index S) = unat S div 8" "unat S < 256"
proof -
  show "unat S < 256" using assms by (simp add: small_or_large word_less_nat_alt)
  then show "unat (small_index S) = unat S div 8"
    by (simp add: small_index_def unsigned_ucast_eq unat_drop_bit take_bit_nat_eq_self)
qed

text \<open>A marked small bin holds a chunk, and all its chunks have the size of its class.\<close>

lemma marked_bin:
  assumes h: "heap_ok m U F s" and i: "i < 32" "bit (smallmap s) (unat i)"
  defines "p \<equiv> fd s (smallbin_at m i)" and "Z \<equiv> ucast (small_index2size i) :: u64"
  shows "F p = Some Z" "unlink_first_small_chunk (smallbin_at m i) p i s = unlink_chunk m p Z s" "unat Z = 8 * unat i"
proof -
  obtain L Ts where L: "bins_hold m L Ts s" "table_of F = (\<lambda>S. {p \<in> bin_chunks L Ts. chunksize s p = S})"
    using free_tableE [OF heap_okD(1) [OF h]] by blast
  note D = bins_holdD [OF L(1)]
  have "smallmap_is_marked s i" using i(2) by (simp add: smallmap_is_marked_def and_idx2bit [OF i(1)])
  then have "L i \<noteq> []" using small_binsD(1) [OF D(1) i(1)] by (simp add: small_bin_def)
  then obtain P qs where P: "L i = P # qs" by (cases "L i") auto
  have c: "P \<in> bin_chunks L Ts" using P i(1) by (auto simp: bin_chunks_def small_chunks_def)
  show Z: "unat Z = 8 * unat i" unfolding Z_def by (rule unat_class_size [OF i(1)])
  have s: "is_small (chunksize s P)" "small_index (chunksize s P) = i" using D(3) [OF i(1), of P] P by simp_all
  have "is_aligned (chunksize s P)" using D(5) [OF c] by (simp add: good_size_def)
  then have "unat (chunksize s P) = 8 * unat i"
    using unat_small_index [OF s(1)] s(2) by (simp add: is_aligned_iff) presburger
  then have "chunksize s P = Z" using Z by (simp add: word_unat_eq_iff)
  moreover have "p = P" unfolding p_def by (rule unlink_first_same(1) [OF D(1) i(1) P s(2)])
  moreover have "P \<in> table_of F (chunksize s P)" using c by (simp add: L(2))
  then have "F P = Some (chunksize s P)" by (simp add: table_of_def)
  ultimately show "F p = Some Z" "unlink_first_small_chunk (smallbin_at m i) p i s = unlink_chunk m p Z s"
    using unlink_first_same(2) [OF D(1) i(1) P s(2)] s(1) c
    by (simp_all add: unlink_chunk_def)
qed

lemma low_bits_of:
  fixes x :: u32
  shows "NOT x AND 1 = (if bit x 0 then 0 else 1)" "x AND 3 \<noteq> 0 \<longleftrightarrow> bit x 0 \<or> bit x 1"
proof -
  show "NOT x AND 1 = (if bit x 0 then 0 else 1)"
    by (rule bit_word_eqI) (auto simp: bit_and_iff bit_not_iff bit_1_iff)
  have "bit (x AND 3) n \<longleftrightarrow> bit x n \<and> n < 2" for n
  proof -
    have "(3 :: u32) = mask 2" by (simp add: mask_eq_exp_minus_1)
    then show ?thesis unfolding bit_and_iff by (simp only: bit_mask_iff) auto
  qed
  moreover have "n < 2 \<longleftrightarrow> n = 0 \<or> n = 1" for n :: nat by auto
  ultimately show "x AND 3 \<noteq> 0 \<longleftrightarrow> bit x 0 \<or> bit x 1" by (metis bit_0_eq bot_apply bot_bool_def bit_word_eqI)
qed

text \<open>The result of the part of \<open>dlmalloc\<close> that uses the bins.\<close>

definition found_chunk :: "u64 \<Rightarrow> sizes \<Rightarrow> 'w heap \<Rightarrow> u64 \<Rightarrow> (u64 option \<times> 'w heap) option \<Rightarrow> bool" where
  "found_chunk m U s nb r \<longleftrightarrow> r = Some (None, s) \<or> (\<exists>p s'. r = Some (Some (chunk2mem p), s') \<and> allocated m U s nb p s')"

lemma small_bins_allocate:
  assumes h: "heap_ok m U F s" and nb: "good_size nb" "is_small nb"
  shows "found_chunk m U s nb (malloc_small_bins m nb s)"
proof -
  let ?idx = "small_index nb" and ?sb = "drop_bit (unat (small_index nb)) (smallmap s)"
  note z = good_sizeD [OF nb(1)] and u = unat_small_index [OF nb(2)]
  have i32: "?idx < 32" using u by (simp add: word_less_nat_alt)
  have d8: "8 * unat ?idx = unat nb" using u(1) z(1) by (simp add: is_aligned_iff) presburger
  show ?thesis
  proof (cases "?sb AND 3 = 0")
    case False
    define i where "i = ?idx + (NOT ?sb AND 1)"
    have low: "bit ?sb 0 \<or> bit ?sb 1" using False low_bits_of(2) by blast
    have i: "bit (smallmap s) (unat i)" "unat i = unat ?idx + (if bit ?sb 0 then 0 else 1)"
    proof -
      have "unat ?idx + 1 < 2 ^ 32" using u by simp
      then show "unat i = unat ?idx + (if bit ?sb 0 then 0 else 1)"
        unfolding i_def low_bits_of by (simp add: unat_word_ariths)
      then show "bit (smallmap s) (unat i)" using low by (auto simp: bit_drop_bit_eq split: if_splits)
    qed
    have "unat i < 32" using bit_imp_le_length [OF i(1)] by simp
    then have lt: "i < 32" by (simp add: word_less_nat_alt)
    define p where "p = fd s (smallbin_at m i)"
    define S :: u64 where "S = ucast (small_index2size i)"
    note M = marked_bin [OF h lt i(1), folded p_def S_def]
    have S: "nb \<le> S" "S < nb + 32"
      using M(3) i(2) d8 z(3) by (auto simp: word_le_nat_alt word_less_nat_alt unat_word_ariths)
    obtain s1 where s1: "unlink_chunk m p S s = Some s1" "bin_left m U F s p S s1"
      using take_bin_chunk [OF h M(1)] by blast
    have "malloc_small_bins m nb s = Some (Some (chunk2mem p), set_inuse_and_pinuse p S s1)"
      using False s1(1) M(2) by (simp add: malloc_small_bins_def Let_def i_def [symmetric] p_def [symmetric] S_def [symmetric])
    then show ?thesis using allocated_whole [OF s1(2) S] unfolding found_chunk_def by blast
  next
    case True
    then have low: "\<not> bit ?sb 0" "\<not> bit ?sb 1" using low_bits_of(2) by blast+
    show ?thesis
    proof (cases "dvsize s < nb")
      case False
      then show ?thesis using True by (simp add: malloc_small_bins_def Let_def found_chunk_def)
    next
      case dv: True
      show ?thesis
      proof (cases "?sb = 0")
        case True
        show ?thesis
        proof (cases "treemap s = 0")
          case True
          then show ?thesis
            using dv \<open>?sb = 0\<close> by (simp add: malloc_small_bins_def Let_def found_chunk_def)
        next
          case False
          obtain p s' where "tmalloc_small m nb s = Some (chunk2mem p, s')" "chunk2mem p \<noteq> 0" "allocated m U s nb p s'"
            using tmalloc_small_allocates [OF h nb False dv] by blast
          then show ?thesis
            using dv \<open>?sb = 0\<close> False by (auto simp: malloc_small_bins_def Let_def found_chunk_def)
        qed
      next
        case False
        let ?bm = "push_bit (unat ?idx) ?sb"
        obtain k where k: "bit ?sb k" using False by (metis bit_0_eq bot_apply bot_bool_def bit_word_eqI)
        then have kb: "bit (smallmap s) (unat ?idx + k)" by (simp add: bit_drop_bit_eq add.commute)
        then have kl: "unat ?idx + k < 32" using bit_imp_le_length by fastforce
        have "k \<noteq> 0" using k low(1) by (cases "k = 0") auto
        then have "bit (left_bits (idx2bit ?idx) AND ?bm) (unat ?idx + k)"
          using k kl by (simp add: bit_and_iff bit_left_bits_idx2bit [OF i32] bit_push_bit_iff)
        then have L: "left_bits (idx2bit ?idx) AND ?bm \<noteq> 0" by auto
        define i where "i = compute_bit2idx (least_bit (left_bits (idx2bit ?idx) AND ?bm))"
        have i: "?idx < i" "i < 32" "bit ?bm (unat i)" using next_bin_first [OF i32 L] unfolding i_def by blast+
        then have b: "bit (smallmap s) (unat i)" by (auto simp: bit_push_bit_iff bit_drop_bit_eq)
        define p where "p = fd s (smallbin_at m i)"
        define S :: u64 where "S = ucast (small_index2size i)"
        note M = marked_bin [OF h i(2) b, folded p_def S_def]
        have S: "nb \<le> S" using M(3) i(1) d8 by (auto simp: word_le_nat_alt word_less_nat_alt)
        have sd: "is_small (dvsize s)" using nb(2) dv by (simp add: small_or_large)
        have run: "malloc_small_bins m nb s = do {
            s1 \<leftarrow> unlink_chunk m p S s;
            if S - nb < 32 then Some (Some (chunk2mem p), set_inuse_and_pinuse p S s1)
            else do { s2 \<leftarrow> replace_dv m (p + nb) (S - nb) (split_tags p nb (S - nb) s1); Some (Some (chunk2mem p), s2) } }"
          unfolding malloc_small_bins_def Let_def and.commute [of ?bm] i_def [symmetric] p_def [symmetric] S_def [symmetric]
            chunk_plus_offset_def split_tags_def
          using True False dv M(2) by (simp cong: if_cong)
        show ?thesis
          using bin_chunk_used [OF h M(1) nb(1) S] sd unfolding run found_chunk_def by (auto split: if_splits)
      qed
    qed
  qed
qed

lemma large_bins_allocate:
  assumes "heap_ok m U F s" "good_size nb" "MIN_LARGE_SIZE \<le> nb"
  shows "found_chunk m U s nb (malloc_large_bins m nb s)"
  using tmalloc_large_allocates [OF assms] by (auto simp: malloc_large_bins_def found_chunk_def)

subsection \<open>dlmalloc\<close>

lemma malloc_from_bins_request:
  assumes "bytes < MAX_REQUEST"
  defines "nb \<equiv> request2size bytes"
  shows "malloc_from_bins m bytes s = do { (found, s) \<leftarrow>
      (if is_small nb then malloc_small_bins m nb s else malloc_large_bins m nb s); Some (nb, found, s) }"
proof -
  note r = unat_request2size [OF assms(1), folded nb_def]
  have "bytes \<le> MAX_SMALL_REQUEST \<longleftrightarrow> is_small nb"
    using r by (simp add: small_or_large word_le_nat_alt word_less_nat_alt) presburger
  moreover have "nb = (if bytes < MIN_REQUEST then MIN_CHUNK_SIZE else pad_request bytes)"
    by (simp add: nb_def request2size_def)
  moreover have "bytes \<le> MAX_SMALL_REQUEST" if "bytes < MIN_REQUEST"
    using that by (simp add: word_less_nat_alt word_le_nat_alt)
  ultimately show ?thesis
    using assms(1) by (auto simp: malloc_from_bins_def Let_def not_le)
qed

lemma dlmalloc_heap:
  assumes h: "heap_ok m U F s" and req: "bytes < MAX_REQUEST" "request2size bytes < topsize s"
  shows "\<exists>p s'. dlmalloc m E bytes s = Some (chunk2mem p, s') \<and> allocated m U s (request2size bytes) p s'"
proof -
  let ?nb = "request2size bytes"
  have "top_ok m s" using layoutD(3) [OF heap_okD(2) [OF h]] by blast
  then have "unat (topsize s) < 2 ^ 40" by (rule top_bounds(1))
  then have nb: "good_size ?nb"
    using request2size_least [OF req(1)] req(2) by (simp add: good_size_def word_less_nat_alt)
  have f: "found_chunk m U s ?nb (if is_small ?nb then malloc_small_bins m ?nb s else malloc_large_bins m ?nb s)"
    using small_bins_allocate [OF h nb] large_bins_allocate [OF h nb] by (simp add: small_or_large not_less)
  show ?thesis
    using f unfolding found_chunk_def
  proof
    assume r: "(if is_small ?nb then malloc_small_bins m ?nb s else malloc_large_bins m ?nb s) = Some (None, s)"
    then have "dlmalloc m E bytes s = Some (if ?nb \<le> dvsize s then malloc_from_dv ?nb s else malloc_from_top ?nb s)"
      using req(2) by (simp add: dlmalloc_def malloc_from_bins_request [OF req(1)])
    then show ?thesis using allocated_dv [OF h nb] allocated_top [OF h nb req(2)] by (cases "?nb \<le> dvsize s") auto
  qed (auto simp: dlmalloc_def malloc_from_bins_request [OF req(1)])
qed

subsection \<open>Properties\<close>

text \<open>A space that is all top satisfies the invariant.\<close>

lemma top_heap_ok: "heap_ok 0x1000 (\<lambda>_. None) (\<lambda>_. None) (top_heap 0x10000 4096)"
proof -
  let ?s = "top_heap 0x10000 4096"
  have "load ?s (treebin_at 0x1000 i) = 0" if i: "i < 32" for i
  proof -
    have "outside_state 0x1000 0x10000" by (simp add: outside_state_def)
    then show ?thesis using treebin_not_cell [OF i, of "0x1000" "0x10000" 8] by (auto simp: top_heap_def load_def)
  qed
  then have "free_table 0x1000 (\<lambda>_. {}) ?s" by (intro free_table_empty) (simp_all add: top_heap_def)
  moreover have "table_of (\<lambda>_. None) = (\<lambda>_. {})" by (simp add: table_of_def fun_eq_iff)
  moreover have "top_ok 0x1000 ?s"
    by (simp add: top_ok_def top_heap_def is_aligned_def arena_def no_overlap_def tag_fields head_def load_def)
  then have "heap_layout 0x1000 (\<lambda>_. None) (\<lambda>_. None) ?s" by (simp add: heap_layout_def block_def)
  ultimately show ?thesis by (simp add: heap_ok_def with_dv_def) (simp add: top_heap_def)
qed

text \<open>
  Property C1. In a heap with the invariant, \<open>dlmalloc\<close> of any request whose padded size is
  below the size of top succeeds, whichever of the small bins, the trees, the designated victim
  and top serves it: it turns one chunk that was not in use into a chunk in use of at least the
  padded size, less than a minimal chunk larger, restores the invariant of the bins, of the
  boundary tags and of top, and leaves the payload of every chunk in use as it was.
\<close>

theorem dlmalloc_allocates:
  assumes "heap_ok m U F s" "bytes < MAX_REQUEST" "request2size bytes < topsize s"
  shows "\<exists>p z F' s'. dlmalloc m E bytes s = Some (chunk2mem p, s') \<and> U p = None \<and>
    request2size bytes \<le> z \<and> z < request2size bytes + MIN_CHUNK_SIZE \<and>
    heap_ok m (U(p \<mapsto> z)) F' s' \<and> payload_kept U s s'"
  using dlmalloc_heap [OF assms] unfolding allocated_def by blast

theorem dlmalloc_allocates_witness:
  "\<exists>p z F s. dlmalloc 0x1000 no_env 100 (top_heap 0x10000 4096) = Some (chunk2mem p, s) \<and>
    112 \<le> z \<and> heap_ok 0x1000 ((\<lambda>_. None)(p \<mapsto> z)) F s"
proof -
  have "request2size 100 = 112" "(100 :: u64) < MAX_REQUEST"
    by (simp_all add: request2size_def pad_request_def max_consts)
  then show ?thesis using dlmalloc_allocates [OF top_heap_ok, of 100 no_env] by (fastforce simp: top_heap_def)
qed

text \<open>
  Property C6. In a heap with the invariant and for a request whose padded size is below the size of
  top, so that no memory is needed from the system, the block that \<open>dlmalloc\<close> returns is not
  null, aligned to 16 bytes, has room for the requested bytes, and overlaps no block that is in use.
\<close>

theorem dlmalloc_block:
  assumes "heap_ok m U F s" "bytes < MAX_REQUEST" "request2size bytes < topsize s"
  shows "\<exists>p z s'. dlmalloc m E bytes s = Some (chunk2mem p, s') \<and> chunk2mem p \<noteq> 0 \<and> is_aligned (chunk2mem p) \<and>
    unat bytes + unat CHUNK_OVERHEAD \<le> unat z \<and> (\<forall>q w. U q = Some w \<longrightarrow> no_overlap p z q w)"
proof -
  obtain p s' where p: "dlmalloc m E bytes s = Some (chunk2mem p, s')" "allocated m U s (request2size bytes) p s'"
    using dlmalloc_heap [OF assms] by blast
  then obtain z F' where z: "request2size bytes \<le> z" "heap_ok m (U(p \<mapsto> z)) F' s'" "U p = None"
    by (auto simp: allocated_def)
  note L = heap_okD(2) [OF z(2)]
  have c: "tree_chunk m s' p" "is_aligned p"
    using layoutD(1) [OF L, of p z] layout_aligned(1) [OF L, of p z] by (simp_all add: sized_chunk_def)
  then have "p \<le> - 64" by (simp add: tree_chunk_def)
  then have "unat (chunk2mem p) = unat p + 16" by (simp add: chunk2mem_def unat_word_ariths word_le_nat_alt)
  then have "chunk2mem p \<noteq> 0" by auto
  moreover have "unat bytes + 8 \<le> unat z"
    using request2size_least [OF assms(2)] z(1) by (simp add: word_le_nat_alt)
  moreover have "no_overlap p z q w" if "U q = Some w" for q w
    using layoutD(5) [OF L, of p z q w] that z(3) by (cases "q = p") (auto simp: block_def)
  ultimately show ?thesis using p(1) c(2) by auto
qed

theorem dlmalloc_block_witness:
  "\<exists>p (z :: u64) s. dlmalloc 0x1000 no_env 100 (top_heap 0x10000 4096) = Some (chunk2mem p, s) \<and>
    is_aligned (chunk2mem p) \<and> 108 \<le> unat z"
proof -
  have h: "(100 :: u64) < MAX_REQUEST" "request2size 100 < topsize (top_heap 0x10000 4096)"
    by (simp_all add: request2size_def pad_request_def max_consts top_heap_def)
  then obtain p s and z :: u64 where "dlmalloc 0x1000 no_env 100 (top_heap 0x10000 4096) = Some (chunk2mem p, s)"
    "is_aligned (chunk2mem p)" "unat (100 :: u64) + unat CHUNK_OVERHEAD \<le> unat z"
    using dlmalloc_block [OF top_heap_ok h, of no_env] by blast
  moreover from this(3) have "108 \<le> unat z" by simp
  ultimately show ?thesis by blast
qed

end
