(* ===== verification/HeapFree.thy ===== *)
theory HeapFree
  imports HeapAlloc Free
begin

text \<open>
  Freeing keeps the heap: \<open>dlfree\<close> merges the freed chunk with its idle neighbours or with top,
  files the result, and leaves every other chunk in use alone.
\<close>

subsection \<open>Merging with idle neighbours\<close>

text \<open>
  While \<open>dlfree\<close> merges, the freed chunk \<open>p\<close> and its idle neighbours count as one chunk \<open>q\<close>
  of size \<open>z\<close> that is still in use. The state \<open>v\<close> has the tags of that chunk; elsewhere its
  tags are those of \<open>s\<close>.
\<close>

definition merging :: "u64 \<Rightarrow> sizes \<Rightarrow> 'w heap \<Rightarrow> u64 \<Rightarrow> u64 \<Rightarrow> u64 \<Rightarrow> sizes \<Rightarrow> 'w heap \<Rightarrow> bool" where
  "merging m U s p q z G v \<longleftrightarrow> heap_layout m (U(p := None, q \<mapsto> z)) G v \<and> pinuse v q \<and> (q = p \<or> U q = None) \<and>
     topc v = topc s \<and> topsize v = topsize s \<and> least_addr v = least_addr s \<and>
     (\<forall>x. is_aligned x \<longrightarrow> prev_foot v x = prev_foot s x) \<and>
     (\<forall>x \<in> chunk_starts (U(p := None)) G s. chunksize v x = chunksize s x \<and> cinuse v x = cinuse s x \<and>
        (x \<noteq> q + z \<longrightarrow> pinuse v x = pinuse s x))"

lemma merging_start:
  assumes "heap_layout m U G s" "U p = Some S" "pinuse s p"
  shows "merging m U s p p S G s"
  using assms by (simp add: merging_def fun_upd_idem)

lemma merging_other:
  assumes "merging m U s p q z G v" "x \<in> chunk_starts (U(p := None)) G s"
  shows "x \<noteq> q"
proof
  assume "x = q"
  have "heap_layout m (U(p := None, q \<mapsto> z)) G v" "q = p \<or> U q = None" "topc v = topc s" using assms(1) by (auto simp: merging_def)
  then show False
    using assms(2) \<open>x = q\<close> layout_kinds(1,5) [of m "U(p := None, q \<mapsto> z)" G v q z] by (auto simp: chunk_starts_def)
qed

lemma merging_back:
  assumes lay: "heap_layout m U G s" and p: "U p = Some S" "\<not> pinuse s p"
  defines "q \<equiv> p - prev_foot s p" and "z \<equiv> prev_foot s p + S"
  shows "\<exists>v. merging m U s p q z (G(q := None)) v" "G q = Some (prev_foot s p)"
proof -
  let ?f = "prev_foot s p"
  let ?v1 = "set_inuse_and_pinuse q ?f s"
  let ?v = "set_inuse q (?f + S) ?v1"
  note D = layoutD [OF lay] and K = layout_kinds [OF lay] and A = layout_aligned [OF lay]
  show q: "G q = Some ?f" using D(4) [OF p] by (simp add: q_def)
  have e: "q + ?f = p" by (simp add: q_def)
  have zf: "is_aligned ?f" "?f \<noteq> 0" "is_aligned (?f + S)"
    using D(2) [OF q] D(1) [OF p(1)] good_sizeD(1,9) by (auto simp: is_aligned_add)
  have ne: "q \<noteq> p" "U q = None" "q \<noteq> topc s" "p \<noteq> topc s" "G p = None" using K q p e zf by auto
  have l1: "heap_layout m (U(q \<mapsto> ?f)) (G(q := None)) ?v1" by (rule layout_take [OF lay q])
  have "heap_layout m ((U(q \<mapsto> ?f))(q + ?f := None, q \<mapsto> ?f + S)) (G(q := None)) ?v"
    by (rule layout_join [OF l1]) (use e p ne in auto)
  moreover have "(U(q \<mapsto> ?f))(q + ?f := None, q \<mapsto> ?f + S) = U(p := None, q \<mapsto> z)"
    using ne by (auto simp: e z_def fun_eq_iff)
  ultimately have l: "heap_layout m (U(p := None, q \<mapsto> z)) (G(q := None)) ?v" by simp
  note T = set_inuse_tags [OF A(2) [OF q] zf(3)] set_inuse_and_pinuse_tags [OF A(2) [OF q] zf(1)]
  have "merging m U s p q z (G(q := None)) ?v"
    unfolding merging_def
  proof (intro conjI l ballI)
    fix x assume "x \<in> chunk_starts (U(p := None)) (G(q := None)) s"
    then have "x \<noteq> p" "x \<noteq> q" using ne by (auto simp: chunk_starts_def)
    then show "chunksize ?v x = chunksize s x" "cinuse ?v x = cinuse s x" "x \<noteq> q + z \<longrightarrow> pinuse ?v x = pinuse s x"
      by (auto simp: T e z_def)
  qed (use ne in \<open>simp_all add: T\<close>)
  then show "\<exists>v. merging m U s p q z (G(q := None)) v" by blast
qed

lemma merging_next:
  assumes mg: "merging m U s p q z G v" and n: "G (q + z) = Some w"
  shows "\<exists>v'. merging m U s p q (z + w) (G(q + z := None)) v'"
proof -
  let ?n = "q + z"
  let ?v1 = "set_inuse_and_pinuse ?n w v"
  let ?v = "set_inuse q (z + w) ?v1"
  have M: "heap_layout m (U(p := None, q \<mapsto> z)) G v" "pinuse v q" "q = p \<or> U q = None" using mg by (simp_all add: merging_def)
  note D = layoutD [OF M(1)] and K = layout_kinds [OF M(1)] and A = layout_aligned [OF M(1)]
  have q: "(U(p := None, q \<mapsto> z)) q = Some z" by simp
  have Un: "(U(p := None, q \<mapsto> z)) ?n = None" by (rule K(2) [OF n])
  have nq: "?n \<noteq> q" using Un by auto
  have zf: "is_aligned w" "is_aligned (z + w)" "is_aligned q"
    using D(2) [OF n] D(1) [OF q] good_sizeD(1) A(1) [OF q] by (auto simp: is_aligned_add)
  have l1: "heap_layout m ((U(p := None, q \<mapsto> z))(?n \<mapsto> w)) (G(?n := None)) ?v1" by (rule layout_take [OF M(1) n])
  have "heap_layout m ((U(p := None, q \<mapsto> z))(?n \<mapsto> w, ?n := None, q \<mapsto> z + w)) (G(?n := None)) ?v"
    by (rule layout_join [OF l1]) (use nq in auto)
  moreover have "(U(p := None, q \<mapsto> z))(?n \<mapsto> w, ?n := None, q \<mapsto> z + w) = U(p := None, q \<mapsto> z + w)"
    using Un nq by (auto simp: fun_eq_iff)
  ultimately have l: "heap_layout m (U(p := None, q \<mapsto> z + w)) (G(?n := None)) ?v" by simp
  note T = set_inuse_tags [OF zf(3,2)] set_inuse_and_pinuse_tags [OF A(2) [OF n] zf(1)]
  have "merging m U s p q (z + w) (G(?n := None)) ?v"
    unfolding merging_def
  proof (intro conjI l ballI)
    fix x assume x: "x \<in> chunk_starts (U(p := None)) (G(?n := None)) s"
    then have x': "x \<in> chunk_starts (U(p := None)) G s" by (auto simp: chunk_starts_def split: if_splits)
    have "?n \<notin> dom (U(p := None))" using Un nq by (auto split: if_splits)
    moreover have "?n \<noteq> topc s" using K(6) [OF n] mg by (simp add: merging_def)
    ultimately have "x \<noteq> ?n" using x by (auto simp: chunk_starts_def)
    moreover have "x \<noteq> q" using merging_other [OF mg x'] .
    moreover have "chunksize v x = chunksize s x" "cinuse v x = cinuse s x" "x \<noteq> ?n \<longrightarrow> pinuse v x = pinuse s x"
      using mg x' by (simp_all add: merging_def)
    ultimately show "chunksize ?v x = chunksize s x" "cinuse ?v x = cinuse s x" "x \<noteq> q + (z + w) \<longrightarrow> pinuse ?v x = pinuse s x"
      by (auto simp: T add.assoc)
  qed (use mg M in \<open>auto simp: T merging_def\<close>)
  then show ?thesis by blast
qed

text \<open>The merged chunk becomes idle, or part of top.\<close>

lemma merging_idle:
  fixes s s' v :: "'w heap"
  assumes mg: "merging m U s p q z G v" and n: "q + z \<in> dom (U(p := None))"
    and s': "topc s' = topc s" "topsize s' = topsize s" "least_addr s' = least_addr s"
      "\<And>x. x \<in> chunk_starts (U(p := None)) G s \<Longrightarrow> x \<noteq> q \<Longrightarrow> chunksize s' x = chunksize s x \<and> cinuse s' x = cinuse s x \<and>
        (pinuse s' x \<longleftrightarrow> x \<noteq> q + z \<and> pinuse s x) \<and> prev_foot s' x = (if x = q + z then z else prev_foot s x)"
      "chunksize s' q = z" "pinuse s' q" "\<not> cinuse s' q" "prev_foot s' q = prev_foot s q"
  shows "heap_layout m (U(p := None)) (G(q \<mapsto> z)) s'"
proof -
  let ?v = "set_free_with_pinuse q z (q + z) v"
  have M: "heap_layout m (U(p := None, q \<mapsto> z)) G v" "pinuse v q" "q = p \<or> U q = None" "topc v = topc s"
    "\<And>x. is_aligned x \<Longrightarrow> prev_foot v x = prev_foot s x"
    using mg by (simp_all add: merging_def)
  note D = layoutD [OF M(1)] and K = layout_kinds [OF M(1)] and A = layout_aligned [OF M(1)]
  have q: "(U(p := None, q \<mapsto> z)) q = Some z" by simp
  note Q = D(1) [OF q]
  have z0: "z \<noteq> 0" "is_aligned z" using Q good_sizeD(1,9) by auto
  have l: "heap_layout m ((U(p := None, q \<mapsto> z))(q := None)) (G(q \<mapsto> z)) ?v"
    by (rule layout_give [OF M(1) q M(2)]) (use n in auto)
  moreover have "(U(p := None, q \<mapsto> z))(q := None) = U(p := None)" using M(3) by (auto simp: fun_eq_iff)
  ultimately have l: "heap_layout m (U(p := None)) (G(q \<mapsto> z)) ?v" by simp
  have nal: "is_aligned (q + z)" using A(1) [OF q] z0 by (simp add: is_aligned_add)
  note T = set_free_with_pinuse_tags [OF A(1) [OF q] z0(2) _ nal]
  show ?thesis
  proof (rule layout_frame [OF l], unfold tags_same_def, intro conjI ballI)
    fix x assume x: "x \<in> chunk_starts (U(p := None)) (G(q \<mapsto> z)) ?v"
    note t = T [OF starts_aligned [OF l x]]
    show "chunksize s' x = chunksize ?v x" "pinuse s' x = pinuse ?v x" "cinuse s' x = cinuse ?v x" "prev_foot s' x = prev_foot ?v x"
    proof -
      have "chunksize s' x = chunksize ?v x \<and> pinuse s' x = pinuse ?v x \<and> cinuse s' x = cinuse ?v x \<and> prev_foot s' x = prev_foot ?v x"
      proof (cases "x = q")
        case True
        then show ?thesis unfolding t using s'(5-8) z0 M(5) [OF A(1) [OF q]] by simp
      next
        case False
        then have x': "x \<in> chunk_starts (U(p := None)) G s" using x M(4) by (auto simp: chunk_starts_def split: if_splits)
        then show ?thesis
          using s'(4) [OF x' False] False mg M(5) [OF starts_aligned [OF l x]] by (simp add: t merging_def)
      qed
      then show "chunksize s' x = chunksize ?v x" "pinuse s' x = pinuse ?v x" "cinuse s' x = cinuse ?v x" "prev_foot s' x = prev_foot ?v x"
        by blast+
    qed
  qed (use s' mg in \<open>simp_all add: merging_def\<close>)
qed

lemma merging_top:
  fixes s s' v :: "'w heap"
  assumes mg: "merging m U s p q z G v" and n: "q + z = topc s"
    and s': "topc s' = q" "topsize s' = topsize s + z" "least_addr s' = least_addr s"
      "\<And>x. x \<in> chunk_starts (U(p := None)) G s \<Longrightarrow> x \<noteq> q \<Longrightarrow> x \<noteq> topc s \<Longrightarrow> chunksize s' x = chunksize s x \<and>
        cinuse s' x = cinuse s x \<and> pinuse s' x = pinuse s x \<and> prev_foot s' x = prev_foot s x"
      "chunksize s' q = topsize s + z" "pinuse s' q" "\<not> cinuse s' q" "prev_foot s' q = prev_foot s q"
  shows "heap_layout m (U(p := None)) G s'"
proof -
  let ?v = "give_top q z v"
  have M: "heap_layout m (U(p := None, q \<mapsto> z)) G v" "pinuse v q" "q = p \<or> U q = None" "topc v = topc s" "topsize v = topsize s"
    "least_addr v = least_addr s" "\<And>x. is_aligned x \<Longrightarrow> prev_foot v x = prev_foot s x"
    using mg by (simp_all add: merging_def)
  note D = layoutD [OF M(1)] and K = layout_kinds [OF M(1)] and A = layout_aligned [OF M(1)]
  have q: "(U(p := None, q \<mapsto> z)) q = Some z" by simp
  have "heap_layout m ((U(p := None, q \<mapsto> z))(q := None)) G ?v"
    by (rule layout_top_join [OF M(1) q _ M(2)]) (simp add: M(4) n)
  moreover have "(U(p := None, q \<mapsto> z))(q := None) = U(p := None)" using M(3) by (auto simp: fun_eq_iff)
  ultimately have l: "heap_layout m (U(p := None)) G ?v" by simp
  have "is_aligned (topsize v + z)" using D(3) D(1) [OF q] good_sizeD(1) by (auto simp: top_ok_def is_aligned_add)
  note T = give_top_tags [OF A(1) [OF q] this]
  show ?thesis
  proof (rule layout_frame [OF l], unfold tags_same_def, intro conjI ballI)
    fix x assume x: "x \<in> chunk_starts (U(p := None)) G ?v"
    have al: "is_aligned x" using starts_aligned [OF l x] .
    have "chunksize s' x = chunksize ?v x \<and> pinuse s' x = pinuse ?v x \<and> cinuse s' x = cinuse ?v x \<and> prev_foot s' x = prev_foot ?v x"
    proof (cases "x = q")
      case True
      then show ?thesis using s'(5-8) M(5,7) al by (simp add: T)
    next
      case False
      then have x': "x \<in> chunk_starts (U(p := None)) G s" "x \<noteq> topc s"
        using x K(3,4) M(4) by (auto simp: chunk_starts_def T split: if_splits)
      then show ?thesis using s'(4) [OF x'(1) False x'(2)] False mg al n by (simp add: T merging_def)
    qed
    then show "chunksize s' x = chunksize ?v x" "pinuse s' x = pinuse ?v x" "cinuse s' x = cinuse ?v x" "prev_foot s' x = prev_foot ?v x"
      by blast+
  qed (use s' M in \<open>simp_all add: T\<close>)
qed

subsection \<open>Writing the tags of the merged chunk\<close>

text \<open>The chunk becomes idle: its neighbour's \<open>PINUSE\<close> bit is cleared, or was clear.\<close>

lemma idle_finish:
  fixes s s3 v :: "'w heap"
  assumes mg: "merging m U s p q z G v" and n: "q + z \<in> dom (U(p := None))"
    and F: "F \<subseteq>\<^sub>m G" "F q = None" and T: "free_table m (table_of F) s3"
    and tags: "tags_same (insert q (chunk_starts (U(p := None)) G s)) s s3"
    and s': "s' = set_free_with_pinuse q z (q + z) s3 \<or> s' = set_size_and_pinuse_of_free_chunk q z s3 \<and> \<not> pinuse s3 (q + z)"
  shows "heap_layout m (U(p := None)) (G(q \<mapsto> z)) s'" "free_table m (table_of F) s'" "payload_kept (U(p := None)) s3 s'"
    "F \<subseteq>\<^sub>m G(q \<mapsto> z)"
proof -
  have M: "heap_layout m (U(p := None, q \<mapsto> z)) G v" using mg by (simp add: merging_def)
  have q: "(U(p := None, q \<mapsto> z)) q = Some z" by simp
  have al: "is_aligned q" "is_aligned z" "is_aligned (q + z)" "z \<noteq> 0"
    using layout_aligned(1) [OF M q] layoutD(1) [OF M q] good_sizeD(1,9) by (auto simp: is_aligned_add)
  have sc: "topc s' = topc s" "topsize s' = topsize s" "least_addr s' = least_addr s"
    using s' tags by (auto simp: tags_same_def)
  have t: "chunksize s' x = (if x = q then z else chunksize s3 x)" "cinuse s' x \<longleftrightarrow> x \<noteq> q \<and> cinuse s3 x"
    "pinuse s' x \<longleftrightarrow> x = q \<or> x \<noteq> q + z \<and> pinuse s3 x" "prev_foot s' x = (if x = q + z then z else prev_foot s3 x)"
    if "is_aligned x" for x
    using s' that al(4) by (auto simp: set_free_with_pinuse_tags [OF al(1,2) _ al(3)] set_free_chunk_tags [OF al(1,2)] al(1,3))
  have starts: "is_aligned x" if "x \<in> chunk_starts (U(p := None)) G s" for x
  proof (rule starts_aligned [OF M])
    show "x \<in> chunk_starts (U(p := None, q \<mapsto> z)) G v" using that mg by (auto simp: chunk_starts_def merging_def)
  qed
  show L: "heap_layout m (U(p := None)) (G(q \<mapsto> z)) s'"
  proof (rule merging_idle [OF mg n sc])
    show "chunksize s' x = chunksize s x \<and> cinuse s' x = cinuse s x \<and> (pinuse s' x \<longleftrightarrow> x \<noteq> q + z \<and> pinuse s x) \<and>
        prev_foot s' x = (if x = q + z then z else prev_foot s x)"
      if "x \<in> chunk_starts (U(p := None)) G s" "x \<noteq> q" for x
      using that tags starts [OF that(1)] by (simp add: t tags_same_def)
    show "chunksize s' q = z" "pinuse s' q" "\<not> cinuse s' q" using al(1) by (simp_all add: t)
    show "prev_foot s' q = prev_foot s q" using al tags by (simp add: t tags_same_def)
  qed
  show F': "F \<subseteq>\<^sub>m G(q \<mapsto> z)" using map_le_without [OF F] .
  have "(G(q \<mapsto> z)) q = Some z" by simp
  note C = idle_tag_cells [OF L this F(2) F']
  have "8 < z" using layoutD(1) [OF M q] good_sizeD(7) by blast
  then have w: "tag_writes (U(p := None)) (G(q \<mapsto> z)) F s' s3 (set_size_and_pinuse_of_free_chunk q z s4)"
    if "tag_writes (U(p := None)) (G(q \<mapsto> z)) F s' s3 s4" for s4
    unfolding set_size_and_pinuse_of_free_chunk_def set_foot_def set_head_def set_prev_foot_def
    by (intro tag_writes_store that C) simp_all
  have "tag_writes (U(p := None)) (G(q \<mapsto> z)) F s' s3 (clear_pinuse (q + z) s3)"
    unfolding clear_pinuse_def set_head_def by (intro tag_writes_store tag_writes_refl C)
  from w [OF this] w [OF tag_writes_refl] have "tag_writes (U(p := None)) (G(q \<mapsto> z)) F s' s3 s'"
    using s' unfolding set_free_with_pinuse_def by blast
  then show "free_table m (table_of F) s'" "payload_kept (U(p := None)) s3 s'"
    using tag_writes_table [OF L T F'] tag_writes_payload [OF L] by blast+
qed

lemma top_finish:
  fixes s s3 v :: "'w heap"
  assumes mg: "merging m U s p q z G v" and n: "q + z = topc s"
    and F: "F \<subseteq>\<^sub>m G" "F q = None" and T: "free_table m (table_of F) s3"
    and tags: "tags_same (insert q (chunk_starts (U(p := None)) G s)) s s3"
  shows "heap_layout m (U(p := None)) G (give_top q z s3)" "free_table m (table_of F) (give_top q z s3)"
    "payload_kept (U(p := None)) s3 (give_top q z s3)"
proof -
  let ?s = "give_top q z s3"
  have M: "heap_layout m (U(p := None, q \<mapsto> z)) G v" using mg by (simp add: merging_def)
  have q: "(U(p := None, q \<mapsto> z)) q = Some z" by simp
  note Q = layoutD(1) [OF M q]
  have sc: "topc s3 = topc s" "topsize s3 = topsize s" "least_addr s3 = least_addr s" using tags by (simp_all add: tags_same_def)
  have "is_aligned (topsize s3 + z)"
    using layoutD(3) [OF M] Q good_sizeD(1) mg sc by (auto simp: top_ok_def is_aligned_add merging_def)
  note t = give_top_tags [OF layout_aligned(1) [OF M q] this]
  have al: "is_aligned q" by (rule layout_aligned(1) [OF M q])
  show L: "heap_layout m (U(p := None)) G ?s"
  proof (rule merging_top [OF mg n])
    show "topc ?s = q" "topsize ?s = topsize s + z" "least_addr ?s = least_addr s" using sc by (simp_all add: t)
    show "chunksize ?s x = chunksize s x \<and> cinuse ?s x = cinuse s x \<and> pinuse ?s x = pinuse s x \<and> prev_foot ?s x = prev_foot s x"
      if x: "x \<in> chunk_starts (U(p := None)) G s" "x \<noteq> q" for x
    proof -
      have "x \<in> chunk_starts (U(p := None, q \<mapsto> z)) G v" using x mg by (auto simp: chunk_starts_def merging_def)
      then show ?thesis using x tags starts_aligned [OF M] by (simp add: t tags_same_def)
    qed
    show "chunksize ?s q = topsize s + z" "pinuse ?s q" "\<not> cinuse ?s q" "prev_foot ?s q = prev_foot s q"
      using sc tags al by (simp_all add: t tags_same_def)
  qed
  have "block (U(p := None)) G ?s q (topsize ?s + 80)" by (simp add: block_def t)
  moreover from block_size [OF L this] have "8 < topsize ?s + 80" by (auto simp: word_less_nat_alt)
  moreover have "(U(p := None)) q = None" using layout_kinds(3) [OF L] by (simp add: t)
  ultimately have c: "tag_cell (U(p := None)) G F ?s (q + 8)" using F(2) unfolding tag_cell_def by auto
  have "tag_writes (U(p := None)) G F ?s s3 (s3\<lparr>topsize := topsize s3 + z, topc := q\<rparr>)"
    by (simp add: tag_writes_def load_def)
  from tag_writes_store [OF this c] have "tag_writes (U(p := None)) G F ?s s3 ?s"
    by (simp add: give_top_def set_head_def)
  then show "free_table m (table_of F) ?s" "payload_kept (U(p := None)) s3 ?s"
    using tag_writes_table [OF L T F(1)] tag_writes_payload [OF L] by blast+
qed

lemma tags_same_fields:
  fixes s s' :: "'w heap"
  assumes "topc s' = topc s" "topsize s' = topsize s" "least_addr s' = least_addr s" "\<And>a. load s' a = load s a"
  shows "tags_same N s s'"
  using assms by (simp add: tags_same_def tag_fields head_def prev_foot_def)

lemma free_bin_ok:
  assumes "free_table m (table_of F) s" "heap_layout m U G s" "F \<subseteq>\<^sub>m G" "G q = Some z" "F q = None" "release_checks s \<noteq> 1"
  shows "\<exists>s'. free_bin m q z s = Some s' \<and> free_table m (table_of (F(q \<mapsto> z))) s' \<and> heap_layout m U G s' \<and>
    payload_kept U s s' \<and> dv s' = dv s \<and> dvsize s' = dvsize s \<and> same_space s s' \<and>
    release_checks s' \<in> {release_checks s, release_checks s - 1}"
proof -
  obtain s1 where s1: "insert_chunk m q z s = Some s1" "free_table m (table_of (F(q \<mapsto> z))) s1" "heap_layout m U G s1"
    "payload_kept U s s1" "same_scalars s s1"
    using heap_insert [OF assms(1-5)] by blast
  note d = same_scalarsD [OF s1(5)]
  have sp: "same_space s s1" using same_scalars_space [OF s1(5)] by blast
  show ?thesis
  proof (cases "is_small z")
    case True
    then show ?thesis using s1 d sp by (auto simp: free_bin_def insert_chunk_def)
  next
    case False
    let ?s = "s1\<lparr>release_checks := release_checks s1 - 1\<rparr>"
    have l: "load ?s a = load s1 a" for a by (simp add: load_def)
    have "free_bin m q z s = Some ?s" using False s1(1) d(6) assms(6) by (simp add: free_bin_def insert_chunk_def Let_def)
    moreover have "free_table m (table_of (F(q \<mapsto> z))) ?s" by (rule free_table_fields [OF s1(2) _ _ _ l]) simp_all
    moreover have "heap_layout m U G ?s" by (rule layout_fields [OF s1(3) _ _ _ l]) simp_all
    moreover have "payload_kept U s ?s" using s1(4) l by (simp add: payload_kept_def)
    moreover have "same_space s ?s" using sp by (simp add: same_space_def)
    ultimately show ?thesis using d by auto
  qed
qed

subsection \<open>dlfree\<close>

definition chunk_freed :: "u64 \<Rightarrow> sizes \<Rightarrow> 'w heap \<Rightarrow> u64 \<Rightarrow> 'w heap \<Rightarrow> bool" where
  "chunk_freed m U s p s' \<longleftrightarrow> (\<exists>F. heap_ok m (U(p := None)) F s') \<and> payload_kept (U(p := None)) s s' \<and>
     same_space s s' \<and> release_checks s' \<in> {release_checks s, release_checks s - 1}"

text \<open>
  The state after backward consolidation: the merged chunk \<open>q\<close> of size \<open>z\<close>, the chunks \<open>F\<close>
  left in the bins and the idle chunks \<open>G\<close> beside \<open>q\<close>.
\<close>

definition backed :: "u64 \<Rightarrow> sizes \<Rightarrow> sizes \<Rightarrow> 'w heap \<Rightarrow> u64 \<Rightarrow> u64 \<Rightarrow> u64 \<Rightarrow> 'w heap \<Rightarrow> sizes \<Rightarrow> sizes \<Rightarrow> bool" where
  "backed m U F0 s p q z s1 F G \<longleftrightarrow> heap_ok m U F0 s \<and> same_scalars s s1 \<and> payload_kept U s s1 \<and>
     heap_layout m U (with_dv F0 s) s1 \<and> free_table m (table_of F) s1 \<and> (\<exists>v. merging m U s1 p q z G v) \<and>
     (\<exists>S. U p = Some S \<and> q + z = p + S) \<and> F q = None \<and> F \<subseteq>\<^sub>m F0 \<and> F \<subseteq>\<^sub>m G \<and> G \<subseteq>\<^sub>m with_dv F0 s \<and>
     q \<in> chunk_starts U (with_dv F0 s) s1 \<and> (if q = dv s then G = F else G = with_dv F s)"

lemma inuse_kinds:
  "cinuse s p \<Longrightarrow> is_inuse s p" "cinuse s p \<Longrightarrow> \<not> is_mmapped s p"
  "head s p AND INUSE_BITS = INUSE_BITS \<longleftrightarrow> pinuse s p \<and> cinuse s p"
proof -
  let ?h = "head s p"
  have e: "(?h AND 3) AND 1 = ?h AND 1" "(?h AND 3) AND 2 = ?h AND 2" by (simp_all add: and.assoc)
  show "cinuse s p \<Longrightarrow> is_inuse s p" "cinuse s p \<Longrightarrow> \<not> is_mmapped s p"
    using e by (auto simp: is_inuse_def is_mmapped_def tag_fields)
  have three: "?h AND 3 = (?h AND 1) OR (?h AND 2)"
  proof -
    have "(3 :: u64) = 1 OR 2" by simp
    then show ?thesis by (simp only: bit.conj_disj_distrib)
  qed
  have b: "bit (2 :: u64) n \<longleftrightarrow> n = 1" for n by (auto simp: bit_2_iff)
  have c: "bit (?h AND 2) n \<longleftrightarrow> bit ?h 1 \<and> n = 1" for n unfolding bit_and_iff b by auto
  have two: "?h AND 2 = 0 \<or> ?h AND 2 = 2"
  proof (cases "bit ?h 1")
    case True
    have "?h AND 2 = 2" by (rule bit_word_eqI) (simp only: b c True simp_thms)
    then show ?thesis by simp
  next
    case False
    have "?h AND 2 = 0" by (rule bit_word_eqI) (simp only: c False bit_0_eq bot_apply bot_bool_def simp_thms)
    then show ?thesis by simp
  qed
  have one: "?h AND 1 = 0 \<or> ?h AND 1 = 1" by (auto simp: and_one_eq)
  have "a OR b = 3 \<longleftrightarrow> a \<noteq> 0 \<and> b \<noteq> 0" if "a = 0 \<or> a = 1" "b = 0 \<or> b = 2" for a b :: u64
    using that by auto
  from this [OF one two] show "?h AND INUSE_BITS = INUSE_BITS \<longleftrightarrow> pinuse s p \<and> cinuse s p"
    unfolding flag_consts tag_fields three .
qed

lemma heap_chunk:
  assumes h: "heap_ok m U F s" and p: "U p = Some S"
  shows "good_size S" "chunksize s p = S" "cinuse s p" "pinuse s (p + S)" "ok_address s p" "p \<noteq> 0" "p \<noteq> dv s"
    "F p = None" "with_dv F s p = None"
proof -
  note P = layoutD(1) [OF heap_okD(2) [OF h] p]
  then show "good_size S" "chunksize s p = S" "cinuse s p" "pinuse s (p + S)" "ok_address s p" "p \<noteq> 0"
    by (auto simp: sized_chunk_def tree_chunk_def chunk_at_def)
  show g: "with_dv F s p = None" using layout_kinds(1) [OF heap_okD(2) [OF h] p] .
  then show "F p = None" using heap_okD(3) [OF h] by (auto simp: map_le_def dom_def)
  show "p \<noteq> dv s" using g heap_okD(5) [OF h] \<open>p \<noteq> 0\<close> by (auto simp: with_dv_def split: if_splits)
qed

lemma free_backward_ok:
  assumes h: "heap_ok m U F s" and p: "U p = Some S"
  shows "(\<exists>s'. free_backward m p S (p + S) s = Some (Return s') \<and> chunk_freed m U s p s') \<or>
    (\<exists>q z s1 F1 G1. free_backward m p S (p + S) s = Some (Go_On q z s1) \<and> backed m U F s p q z s1 F1 G1 \<and>
      (q = dv s \<longrightarrow> \<not> cinuse s (p + S)))"
proof -
  let ?G = "with_dv F s"
  note H = heap_okD [OF h] and C = heap_chunk [OF h p]
  note lay = H(2)
  show ?thesis
  proof (cases "pinuse s p")
    case True
    have "backed m U F s p p S s F ?G"
      using h H C p merging_start [OF lay p True] by (auto simp: backed_def chunk_starts_def)
    then show ?thesis using True C(7) by (auto simp: free_backward_def)
  next
    case False
    let ?ps = "prev_foot s p"
    let ?q = "p - ?ps"
    obtain v where v: "merging m U s p ?q (?ps + S) (?G(?q := None)) v" "?G ?q = Some ?ps"
      using merging_back [OF lay p False] by blast
    have q: "ok_address s ?q" "?q \<noteq> 0"
      using layoutD(2) [OF lay v(2)] by (auto simp: sized_chunk_def tree_chunk_def chunk_at_def)
    have e: "?q + (?ps + S) = p + S" by simp
    have st: "?q \<in> chunk_starts U ?G s" using v(2) by (auto simp: chunk_starts_def)
    show ?thesis
    proof (cases "?q = dv s")
      case dv: True
      then have d: "dvsize s \<noteq> 0" "?ps = dvsize s" "F ?q = None"
        using v(2) q(2) H(4,5) by (auto simp: with_dv_def split: if_splits)
      then have G1: "?G(?q := None) = F" using dv by (auto simp: with_dv_def fun_eq_iff)
      show ?thesis
      proof (cases "head s (p + S) AND INUSE_BITS = INUSE_BITS")
        case True
        let ?s0 = "s\<lparr>dvsize := S + ?ps\<rparr>"
        let ?s1 = "set_free_with_pinuse ?q (?ps + S) (p + S) ?s0"
        have l: "load ?s0 a = load s a" for a by (simp add: load_def)
        have T0: "free_table m (table_of F) ?s0" by (rule free_table_fields [OF H(1) _ _ _ l]) simp_all
        have n: "p + S \<in> dom (U(p := None))"
        proof -
          have "cinuse s (p + S)" using True inuse_kinds(3) by blast
          then have "p + S \<in> dom U"
            using layoutD(1) [OF lay p] layoutD(2) [OF lay, of "p + S"] layoutD(3) [OF lay] by (auto simp: top_ok_def)
          moreover have "p + S \<noteq> p" using good_sizeD(9) [OF C(1)] by auto
          ultimately show ?thesis by simp
        qed
        have tg: "tags_same (insert ?q (chunk_starts (U(p := None)) F s)) s ?s0"
          by (rule tags_same_fields [OF _ _ _ l]) simp_all
        note I = idle_finish [OF v(1) [unfolded G1] n [folded e] map_le_refl d(3) T0 tg disjI1 [OF refl], unfolded e]
        have "dv ?s1 = ?q" "dvsize ?s1 = ?ps + S" using dv by (simp_all add: tag_write_defs)
        moreover have "?ps + S \<noteq> 0"
          using v(1) layoutD(1) [of m "U(p := None, ?q \<mapsto> ?ps + S)" _ v ?q "?ps + S"] good_sizeD(9) [of "?ps + S"]
          by (auto simp: merging_def)
        ultimately have "heap_ok m (U(p := None)) F ?s1"
          by (intro heap_okI [OF I(2,1)]) (simp_all add: with_dv_def d(3))
        moreover have "payload_kept (U(p := None)) s ?s1" using I(3) l by (simp add: payload_kept_def)
        moreover have "same_space s ?s0" "release_checks ?s0 = release_checks s" by (simp_all add: same_space_def)
        then have "same_space s ?s1" "release_checks ?s1 = release_checks s" by simp_all
        ultimately have "chunk_freed m U s p ?s1" by (auto simp: chunk_freed_def)
        moreover have "free_backward m p S (p + S) s = Some (Return ?s1)"
          using False True dv q inuse_kinds(2) [OF C(3)]
          by (simp add: free_backward_def Let_def chunk_minus_offset_def add.commute [of S])
        ultimately show ?thesis by blast
      next
        case ni: False
        then have "\<not> cinuse s (p + S)" using C(4) inuse_kinds(3) by blast
        moreover have "backed m U F s p ?q (?ps + S) s F F"
          unfolding backed_def using h H(1,2) p v(1) [unfolded G1] d(3) dv st e map_le_refl H(3) by auto
        moreover have "free_backward m p S (p + S) s = Some (Go_On ?q (?ps + S) s)"
          using False ni dv q inuse_kinds(2) [OF C(3)]
          by (simp add: free_backward_def Let_def chunk_minus_offset_def add.commute [of S])
        ultimately show ?thesis by blast
      qed
    next
      case dv: False
      then have Fq: "F ?q = Some ?ps" using v(2) by (auto simp: with_dv_def split: if_splits)
      obtain s1 where s1: "unlink_chunk m ?q ?ps s = Some s1" "free_table m (table_of (F(?q := None))) s1" "heap_layout m U ?G s1"
        "payload_kept U s s1" "same_scalars s s1" "tags_same (chunk_starts U ?G s) s s1"
        using heap_unlink [OF H(1,2,3) Fq] by blast
      have "\<not> pinuse s1 p" "prev_foot s1 p = ?ps"
        using s1(6) p False by (auto simp: tags_same_def chunk_starts_def)
      then obtain v1 where "merging m U s1 p ?q (?ps + S) (?G(?q := None)) v1"
        using merging_back [OF s1(3) p] by auto
      moreover have "?G(?q := None) = with_dv (F(?q := None)) s" using dv by (simp add: with_dv_upd)
      moreover have "?q \<in> chunk_starts U ?G s1" using v(2) by (auto simp: chunk_starts_def)
      moreover have "F(?q := None) \<subseteq>\<^sub>m ?G(?q := None)" using H(3) by (auto simp: map_le_def)
      moreover have "?G(?q := None) \<subseteq>\<^sub>m ?G" by (auto simp: map_le_def)
      moreover have "F(?q := None) \<subseteq>\<^sub>m F" by (auto simp: map_le_def)
      ultimately have "backed m U F s p ?q (?ps + S) s1 (F(?q := None)) (?G(?q := None))"
        using h p s1 dv e by (auto simp: backed_def)
      moreover have "free_backward m p S (p + S) s = Some (Go_On ?q (?ps + S) s1)"
        using False dv q s1(1) inuse_kinds(2) [OF C(3)]
        by (simp add: free_backward_def Let_def chunk_minus_offset_def add.commute [of S])
      ultimately show ?thesis using dv by blast
    qed
  qed
qed

lemma backedD:
  assumes "backed m U F0 s p q z s1 F G"
  shows "heap_ok m U F0 s" "payload_kept U s s1" "heap_layout m U (with_dv F0 s) s1" "free_table m (table_of F) s1"
    "F q = None" "F \<subseteq>\<^sub>m G" "G \<subseteq>\<^sub>m with_dv F0 s" "q \<in> chunk_starts U (with_dv F0 s) s1"
    "q = dv s \<Longrightarrow> G = F" "q \<noteq> dv s \<Longrightarrow> G = with_dv F s" "dv s1 = dv s" "dvsize s1 = dvsize s" "topc s1 = topc s"
    "release_checks s1 = release_checks s" "trim_check s1 = trim_check s" "topsize s1 = topsize s" "least_addr s1 = least_addr s"
    "dvsize s = 0 \<Longrightarrow> dv s = 0" "dvsize s \<noteq> 0 \<Longrightarrow> F (dv s) = None" "q \<noteq> 0"
    "same_space s s1"
proof -
  show h: "heap_ok m U F0 s" "payload_kept U s s1" "heap_layout m U (with_dv F0 s) s1" "free_table m (table_of F) s1"
    "F q = None" "F \<subseteq>\<^sub>m G" "G \<subseteq>\<^sub>m with_dv F0 s" "q \<in> chunk_starts U (with_dv F0 s) s1"
    "q = dv s \<Longrightarrow> G = F" "q \<noteq> dv s \<Longrightarrow> G = with_dv F s"
    using assms by (auto simp: backed_def)
  have "same_scalars s s1" using assms by (simp add: backed_def)
  then show "same_space s s1" using same_scalars_space by blast
  from same_scalarsD [OF \<open>same_scalars s s1\<close>] show "dv s1 = dv s" "dvsize s1 = dvsize s" "topc s1 = topc s"
    "release_checks s1 = release_checks s" "trim_check s1 = trim_check s" "topsize s1 = topsize s" "least_addr s1 = least_addr s"
    by blast+
  show "dvsize s = 0 \<Longrightarrow> dv s = 0" by (rule heap_okD(5) [OF h(1)])
  obtain v where v: "merging m U s1 p q z G v" using assms by (auto simp: backed_def)
  then have L: "heap_layout m (U(p := None, q \<mapsto> z)) G v" by (simp add: merging_def)
  then show "q \<noteq> 0" using layoutD(1) [OF L, of q z] by (auto simp: sized_chunk_def tree_chunk_def)
  have "F \<subseteq>\<^sub>m F0" using assms by (simp add: backed_def)
  then show "F (dv s) = None" if d: "dvsize s \<noteq> 0"
    using heap_okD(4) [OF h(1) d] by (auto simp: map_le_def dom_def)
qed

text \<open>Filing the merged chunk, after its tags are written.\<close>

lemma free_bin_finish:
  assumes b: "backed m U F0 s p q z s1 F G" and q: "q \<noteq> dv s" and rel: "release_checks s \<noteq> 1"
    and s2: "free_table m (table_of F') s2" "heap_layout m (U(p := None)) (G'(q \<mapsto> z')) s2" "F' \<subseteq>\<^sub>m G'(q \<mapsto> z')"
      "F' q = None" "payload_kept (U(p := None)) s1 s2" "G' = with_dv F' s" "dvsize s \<noteq> 0 \<Longrightarrow> F' (dv s) = None"
    and sc: "dv s2 = dv s" "dvsize s2 = dvsize s" "release_checks s2 = release_checks s" "same_space s s2"
  shows "\<exists>s'. free_bin m q z' s2 = Some s' \<and> chunk_freed m U s p s'"
proof -
  note B = backedD [OF b]
  have e: "(G'(q \<mapsto> z')) q = Some z'" by simp
  obtain s' where s': "free_bin m q z' s2 = Some s'" "free_table m (table_of (F'(q \<mapsto> z'))) s'"
    "heap_layout m (U(p := None)) (G'(q \<mapsto> z')) s'" "payload_kept (U(p := None)) s2 s'" "dv s' = dv s2" "dvsize s' = dvsize s2"
    "same_space s2 s'" "release_checks s' \<in> {release_checks s2, release_checks s2 - 1}"
    using free_bin_ok [OF s2(1,2,3) e s2(4)] rel unfolding sc(3) by blast
  have "heap_ok m (U(p := None)) (F'(q \<mapsto> z')) s'"
  proof (rule heap_okI [OF s'(2,3)])
    show "G'(q \<mapsto> z') = with_dv (F'(q \<mapsto> z')) s'"
      using with_dv_upd [of s q F' "Some z'"] with_dv_cong [of s' s "F'(q \<mapsto> z')"] s'(5,6) sc q s2(6) by simp
    show "if dvsize s' = 0 then dv s' = 0 else (F'(q \<mapsto> z')) (dv s') = None"
      using s'(5,6) sc B(18) s2(7) q by auto
  qed
  moreover have "payload_kept (U(p := None)) s s'"
  proof -
    have "U(p := None) \<subseteq>\<^sub>m U" by (auto simp: map_le_def)
    then show ?thesis using payload_kept_mono [OF B(2)] payload_kept_trans s2(5) s'(4) by blast
  qed
  ultimately show ?thesis using s'(1,8) same_space_trans [OF sc(4) s'(7)] sc(3) by (auto simp: chunk_freed_def)
qed

text \<open>The merged chunk as the designated victim.\<close>

lemma victim_finish:
  assumes b: "backed m U F0 s p q z s1 F G"
    and s2: "free_table m (table_of F') s2" "heap_layout m (U(p := None)) (F'(q \<mapsto> z')) s2" "F' q = None"
      "payload_kept (U(p := None)) s1 s2"
    and s': "dv s' = q" "dvsize s' = z'" "\<And>a. load s' a = load s2 a" "smallmap s' = smallmap s2" "treemap s' = treemap s2"
      "least_addr s' = least_addr s2" "topc s' = topc s2" "topsize s' = topsize s2"
    and sp: "same_space s s'" "release_checks s' = release_checks s"
  shows "chunk_freed m U s p s'"
proof -
  have "z' \<noteq> 0" using layoutD(2) [OF s2(2), of q z'] good_sizeD(9) [of z'] by auto
  then have "heap_ok m (U(p := None)) F' s'"
    by (intro heap_okI [OF free_table_fields [OF s2(1) s'(4,5,6,3)] layout_fields [OF s2(2) s'(7,8,6,3)]])
      (simp_all add: with_dv_def s' s2(3))
  moreover have "payload_kept (U(p := None)) s s'"
  proof -
    have "U(p := None) \<subseteq>\<^sub>m U" by (auto simp: map_le_def)
    then have "payload_kept (U(p := None)) s s2"
      using payload_kept_mono [OF backedD(2) [OF b]] payload_kept_trans s2(4) by blast
    then show ?thesis using s'(3) by (simp add: payload_kept_def)
  qed
  ultimately show ?thesis using sp by (auto simp: chunk_freed_def)
qed

lemma backed_next:
  assumes b: "backed m U F0 s p q z s1 F G"
  shows "ok_next q (q + z)" "ok_pinuse s1 (q + z)" "q + z \<noteq> q"
    "q + z \<in> dom (U(p := None)) \<or> q + z \<in> dom G \<or> q + z = topc s"
    "q + z \<in> dom (U(p := None)) \<Longrightarrow> cinuse s1 (q + z)" "q + z \<in> dom G \<Longrightarrow> \<not> cinuse s1 (q + z) \<and> q + z \<noteq> topc s"
    "q + z = topc s \<Longrightarrow> \<not> cinuse s1 (q + z)"
    "unat q + unat z \<le> unat (topc s)" "unat (q + z) = unat q + unat z" "least_addr s \<le> q"
proof -
  note B = backedD [OF b]
  obtain v S where v: "merging m U s1 p q z G v" and S: "U p = Some S" "q + z = p + S" using b by (auto simp: backed_def)
  have L: "heap_layout m (U(p := None, q \<mapsto> z)) G v" "topc v = topc s" "least_addr v = least_addr s"
    using v B by (simp_all add: merging_def)
  have q: "(U(p := None, q \<mapsto> z)) q = Some z" by simp
  note Q = layoutD(1) [OF L(1) q] and X = layout_extent [OF L(1) disjI1 [OF q]]
  have z: "0 < z" using Q good_sizeD(9) by blast
  show e: "unat (q + z) = unat q + unat z" "unat q + unat z \<le> unat (topc s)" using X L(2) by simp_all
  show "least_addr s \<le> q" using X(3) L(3) by (simp add: word_le_nat_alt)
  show "ok_next q (q + z)" using e z by (simp add: ok_next_def word_less_nat_alt)
  show "ok_pinuse s1 (q + z)" using layoutD(1) [OF B(3) S(1)] by (simp add: ok_pinuse_def S(2))
  show n: "q + z \<noteq> q" using z by auto
  show "q + z \<in> dom (U(p := None)) \<or> q + z \<in> dom G \<or> q + z = topc s"
    using Q n L(2) by (auto split: if_splits)
  show "q + z \<in> dom (U(p := None)) \<Longrightarrow> cinuse s1 (q + z)"
    using layoutD(1) [OF B(3), of "q + z"] by (auto split: if_splits)
  show "q + z = topc s \<Longrightarrow> \<not> cinuse s1 (q + z)"
    using layoutD(3) [OF B(3)] B(13) by (auto simp: top_ok_def)
  show "\<not> cinuse s1 (q + z) \<and> q + z \<noteq> topc s" if "q + z \<in> dom G"
  proof -
    have "q + z \<in> dom (with_dv F0 s)" using that B(7) unfolding map_le_def by (metis domIff)
    then show ?thesis using layoutD(2) [OF B(3), of "q + z"] layout_kinds(6) [OF B(3), of "q + z"] B(13) by auto
  qed
qed

text \<open>The three cases of forward consolidation: the next chunk is in use, top, or idle.\<close>

lemma free_forward_used:
  assumes b: "backed m U F0 s p q z s1 F G" and n: "q + z \<in> dom (U(p := None))" and q: "q \<noteq> dv s"
    and rel: "release_checks s \<noteq> 1"
  shows "\<exists>s'. free_forward m E (q + z) q z s1 = Some s' \<and> chunk_freed m U s p s'"
proof -
  note B = backedD [OF b] and N = backed_next [OF b]
  obtain v where v: "merging m U s1 p q z G v" using b by (auto simp: backed_def)
  have t: "tags_same (insert q (chunk_starts (U(p := None)) G s1)) s1 s1" by (rule tags_same_fields) simp_all
  note I = idle_finish [OF v n B(6,5,4) t disjI1 [OF refl]]
  let ?s = "set_free_with_pinuse q z (q + z) s1"
  have d: "dv ?s = dv s" "dvsize ?s = dvsize s" "release_checks ?s = release_checks s" "same_space s ?s"
    using B(11,12,14) B(21) by (simp_all) (simp_all add: tag_write_defs set_head_def set_prev_foot_def)
  have "\<exists>s'. free_bin m q z ?s = Some s' \<and> chunk_freed m U s p s'"
    by (rule free_bin_finish [OF b q rel I(2,1,4) B(5) I(3) B(10) [OF q] B(19) d])
  then show ?thesis using N(1,2) N(5) [OF n] by (auto simp: free_forward_def)
qed

lemma free_forward_top:
  assumes b: "backed m U F0 s p q z s1 F G" and n: "q + z = topc s"
    and trim: "topc s + topsize s - least_addr s \<le> trim_check s"
  shows "\<exists>s'. free_forward m E (q + z) q z s1 = Some s' \<and> chunk_freed m U s p s'"
proof -
  note B = backedD [OF b] and N = backed_next [OF b]
  obtain v where v: "merging m U s1 p q z G v" using b by (auto simp: backed_def)
  have t: "tags_same (insert q (chunk_starts (U(p := None)) G s1)) s1 s1" by (rule tags_same_fields) simp_all
  have n1: "q + z = topc s1" using n B(13) by simp
  note I = top_finish [OF v n1 B(6,5,4) t]
  let ?g = "give_top q z s1"
  let ?s = "if q = dv s then ?g\<lparr>dv := 0, dvsize := 0\<rparr> else ?g"
  have l: "load ?s a = load ?g a" for a by (simp add: load_def)
  have T: "free_table m (table_of F) ?s" by (rule free_table_fields [OF I(2) _ _ _ l]) simp_all
  have L: "heap_layout m (U(p := None)) G ?s" by (rule layout_fields [OF I(1) _ _ _ l]) simp_all
  have d: "dv ?g = dv s" "dvsize ?g = dvsize s" "trim_check ?g = trim_check s" "topsize ?g = topsize s + z"
    using B(11,12,15,16) by (simp_all add: give_top_def set_head_def)
  have "heap_ok m (U(p := None)) F ?s"
  proof (rule heap_okI [OF T L])
    show "G = with_dv F ?s" using B(9,10) with_dv_cong [of ?g s F] d by (auto simp: with_dv_def)
    show "if dvsize ?s = 0 then dv ?s = 0 else F (dv ?s) = None" using B(18,19) d by auto
  qed
  moreover have "payload_kept (U(p := None)) s ?s"
  proof -
    have "U(p := None) \<subseteq>\<^sub>m U" by (auto simp: map_le_def)
    then have "payload_kept (U(p := None)) s ?g" using payload_kept_mono [OF B(2)] payload_kept_trans I(3) by blast
    then show ?thesis using l by (simp add: payload_kept_def)
  qed
  moreover have "same_space s ?s" "release_checks ?s = release_checks s"
    using B(14,15,16,17) n by (auto simp: same_space_def give_top_def set_head_def algebra_simps)
  ultimately have c: "chunk_freed m U s p ?s" by (auto simp: chunk_freed_def)
  have top: "top_ok m s" using layoutD(3) [OF heap_okD(2) [OF B(1)]] by blast
  have "topsize s + z \<le> topc s + topsize s - least_addr s"
  proof -
    have "unat (topc s) + unat (topsize s) < 2 ^ 64" using top by (simp add: top_ok_def)
    then have "unat (topc s + topsize s) = unat (topc s) + unat (topsize s)" "unat (topsize s + z) = unat (topsize s) + unat z"
      using N(9) n by (simp_all add: unat_word_ariths)
    moreover have "unat (least_addr s) \<le> unat q" using N(10) by (simp add: word_le_nat_alt)
    ultimately show ?thesis using N(9) n by (simp add: word_le_nat_alt unat_sub)
  qed
  then have "\<not> trim_check s < topsize s + z" using trim by simp
  then have "free_forward m E (q + z) q z s1 = Some ?s"
    using N(1,2) N(7) [OF n] n1 B(11,15,16)
    by (simp add: free_forward_def Let_def give_top_def should_trim_def set_head_def)
  then show ?thesis using c by blast
qed

lemma free_forward_idle:
  assumes b: "backed m U F0 s p q z s1 F G" and n: "G (q + z) = Some w" and rel: "release_checks s \<noteq> 1"
  shows "\<exists>s'. free_forward m E (q + z) q z s1 = Some s' \<and> chunk_freed m U s p s'"
proof -
  let ?n = "q + z" and ?G = "G(q + z := None)"
  note B = backedD [OF b] and N = backed_next [OF b]
  have nd: "?n \<in> dom G" using n by auto
  have ni: "\<not> cinuse s1 ?n" "?n \<noteq> topc s1" using N(6) [OF nd] B(13) by simp_all
  obtain v where "merging m U s1 p q z G v" using b by (auto simp: backed_def)
  then obtain v where v: "merging m U s1 p q (z + w) ?G v" using merging_next [of m U s1 p q z G _ w] n by blast
  have G0: "with_dv F0 s ?n = Some w" using n B(7) unfolding map_le_def by (metis domIff option.distinct(1))
  note W = layoutD(2) [OF B(3) G0]
  have w: "chunksize s1 ?n = w" using W by (simp add: sized_chunk_def)
  have end1: "q + (z + w) \<in> dom (U(p := None))" "\<not> pinuse s1 (q + (z + w))"
  proof -
    have L: "heap_layout m (U(p := None, q \<mapsto> z + w)) ?G v" using v by (simp add: merging_def)
    have e: "?n + w = q + (z + w)" by (simp add: add.assoc)
    show f: "\<not> pinuse s1 (q + (z + w))" using W by (simp add: e)
    have u: "q + (z + w) \<in> dom U" using W by (simp add: e)
    obtain S where S: "U p = Some S" "q + z = p + S" using b by (auto simp: backed_def)
    have "q + (z + w) \<noteq> p"
    proof
      assume "q + (z + w) = p"
      then have "p + (S + w) = p" using S(2) by (simp add: add.assoc [symmetric])
      then have "S + w = 0" by simp
      moreover have "unat (S + w) = unat S + unat w"
        using good_sizeD(3) [of S] good_sizeD(3) [of w] layoutD(1) [OF B(3) S(1)] W
        by (simp add: unat_word_ariths word_less_nat_alt)
      moreover have "0 < unat w" using W good_sizeD(9) [of w] by (simp add: word_less_nat_alt)
      ultimately show False by simp
    qed
    then show "q + (z + w) \<in> dom (U(p := None))" using u by simp
  qed
  have sub: "insert q (chunk_starts (U(p := None)) ?G s1) \<subseteq> chunk_starts U (with_dv F0 s) s1"
    using map_le_implies_dom_le [OF B(7)] B(8) unfolding chunk_starts_def by auto
  have Fle: "F(?n := None) \<subseteq>\<^sub>m ?G" using B(6) by (auto simp: map_le_def)
  have nq: "(F(?n := None)) q = None" using B(5) by simp
  show ?thesis
  proof (cases "?n = dv s")
    case True
    have q: "q \<noteq> dv s" using N(3) True by auto
    have "?n \<noteq> 0" using W by (auto simp: sized_chunk_def tree_chunk_def)
    then have "dvsize s \<noteq> 0" using B(18) True by auto
    then have d: "dvsize s = w" "?G = F"
      using n B(10) [OF q] B(19) True by (auto simp: with_dv_def fun_eq_iff)
    let ?s3 = "s1\<lparr>dvsize := w + z, dv := q\<rparr>"
    let ?s = "set_size_and_pinuse_of_free_chunk q (z + w) ?s3"
    have l: "load ?s3 a = load s1 a" for a by (simp add: load_def)
    have T3: "free_table m (table_of F) ?s3" by (rule free_table_fields [OF B(4) _ _ _ l]) simp_all
    have t: "tags_same N s1 ?s3" for N by (rule tags_same_fields [OF _ _ _ l]) simp_all
    have np: "\<not> pinuse ?s3 (q + (z + w))" using end1(2) by (simp add: pinuse_def head_def l)
    note I = idle_finish [OF v end1(1) _ _ T3 t disjI2 [OF conjI [OF refl np]], unfolded d, OF map_le_refl B(5)]
    have pk: "payload_kept (U(p := None)) s1 ?s" using I(3) l by (simp add: payload_kept_def)
    have sp: "same_space s ?s3" using B(21) by (simp add: same_space_def)
    have "chunk_freed m U s p ?s"
      by (rule victim_finish [OF b I(2,1) B(5) pk])
        (use B(14) sp in simp_all, simp_all add: tag_write_defs add.commute)
    moreover have "free_forward m E ?n q z s1 = Some ?s"
      using N(1,2) ni True B(11,12) d by (simp add: free_forward_def Let_def add.commute [of w])
    ultimately show ?thesis by blast
  next
    case False
    have Fn: "F ?n = Some w" using n B(9,10) False by (cases "q = dv s") (auto simp: with_dv_def split: if_splits)
    have FG0: "F \<subseteq>\<^sub>m with_dv F0 s" using map_le_trans [OF B(6,7)] .
    obtain s2 where s2: "unlink_chunk m ?n w s1 = Some s2" "free_table m (table_of (F(?n := None))) s2"
      "payload_kept U s1 s2" "same_scalars s1 s2" "tags_same (chunk_starts U (with_dv F0 s) s1) s1 s2"
      using heap_unlink [OF B(4,3) FG0 Fn] by blast
    note sc = same_scalarsD [OF s2(4)]
    have t: "tags_same (insert q (chunk_starts (U(p := None)) ?G s1)) s1 s2"
      using s2(5) sub unfolding tags_same_def by blast
    have "q + (z + w) \<in> chunk_starts U (with_dv F0 s) s1" using end1(1) by (auto simp: chunk_starts_def split: if_splits)
    then have np: "\<not> pinuse s2 (q + (z + w))" using end1(2) s2(5) by (simp add: tags_same_def)
    note I = idle_finish [OF v end1(1) Fle nq s2(2) t disjI2 [OF conjI [OF refl np]]]
    let ?s = "set_size_and_pinuse_of_free_chunk q (z + w) s2"
    have "U(p := None) \<subseteq>\<^sub>m U" by (auto simp: map_le_def)
    then have pk: "payload_kept (U(p := None)) s1 ?s" using payload_kept_mono [OF s2(3)] payload_kept_trans I(3) by blast
    have "same_space s s2" using same_space_trans [OF B(21)] same_scalars_space [OF s2(4)] by blast
    then have d: "dv ?s = dv s" "dvsize ?s = dvsize s" "release_checks ?s = release_checks s" "same_space s ?s"
      using B(11,12,14) sc by simp_all (simp_all add: tag_write_defs set_head_def set_prev_foot_def)
    have run: "free_forward m E ?n q z s1 =
        (if q = dv s then Some (?s\<lparr>dvsize := z + w\<rparr>) else free_bin m q (z + w) ?s)"
      using N(1,2) ni False B(11) d(1) s2(1) by (simp add: free_forward_def Let_def w)
    show ?thesis
    proof (cases "q = dv s")
      case True
      have "chunk_freed m U s p (?s\<lparr>dvsize := z + w\<rparr>)"
        by (rule victim_finish [OF b I(2) I(1) [unfolded B(9) [OF True]] nq pk])
          (use True d in \<open>simp_all add: load_def same_space_def\<close>)
      then show ?thesis using run True by simp
    next
      case q: False
      have G': "?G = with_dv (F(?n := None)) s" using B(10) [OF q] with_dv_upd [of s ?n F None] False by simp
      have dvN: "(F(?n := None)) (dv s) = None" if "dvsize s \<noteq> 0" using B(19) [OF that] by simp
      show ?thesis
        using free_bin_finish [OF b q rel I(2,1,4) nq pk G' dvN d] run q by simp
    qed
  qed
qed

lemma dlfree_heap:
  assumes h: "heap_ok m U F s" and p: "U p = Some S" and rel: "release_checks s \<noteq> 1"
    and trim: "topc s + topsize s - least_addr s \<le> trim_check s"
  shows "\<exists>s'. dlfree m E (chunk2mem p) s = Some s' \<and> chunk_freed m U s p s'"
proof -
  note C = heap_chunk [OF h p]
  have "tree_chunk m s p" using layoutD(1) [OF heap_okD(2) [OF h] p] by (auto simp: sized_chunk_def)
  then have "p \<le> - 64" by (simp add: tree_chunk_def)
  then have "unat (p + 16) = unat p + 16" by (simp add: unat_word_ariths word_le_nat_alt)
  then have "p + 16 \<noteq> 0" by auto
  then have run: "dlfree m E (chunk2mem p) s = do {
      fl \<leftarrow> free_backward m p S (p + S) s;
      (case fl of Return s \<Rightarrow> Some s | Go_On q z s \<Rightarrow> free_forward m E (p + S) q z s) }"
    using C(2,3,5) inuse_kinds(1) [OF C(3)]
    by (simp add: dlfree_def Let_def chunk2mem_def mem2chunk_def ok_inuse_def chunk_plus_offset_def)
  have "(\<exists>s'. free_backward m p S (p + S) s = Some (Return s') \<and> chunk_freed m U s p s') \<or>
    (\<exists>q z s1 F1 G1. free_backward m p S (p + S) s = Some (Go_On q z s1) \<and> backed m U F s p q z s1 F1 G1 \<and>
      (q = dv s \<longrightarrow> \<not> cinuse s (p + S)))"
    by (rule free_backward_ok [OF h p])
  then show ?thesis
  proof (elim disjE exE conjE)
    fix s' assume "free_backward m p S (p + S) s = Some (Return s')" "chunk_freed m U s p s'"
    then show ?thesis by (simp add: run)
  next
    fix q z s1 F1 G1
    assume r: "free_backward m p S (p + S) s = Some (Go_On q z s1)" and b: "backed m U F s p q z s1 F1 G1"
      and dv: "q = dv s \<longrightarrow> \<not> cinuse s (p + S)"
    have e: "p + S = q + z" using b p by (auto simp: backed_def)
    have "\<exists>s'. free_forward m E (q + z) q z s1 = Some s' \<and> chunk_freed m U s p s'"
      using backed_next(4) [OF b]
    proof (elim disjE)
      assume n: "q + z \<in> dom (U(p := None))"
      then have "cinuse s (q + z)" using heap_chunk(3) [OF h] by (auto split: if_splits)
      then show ?thesis using free_forward_used [OF b n _ rel] dv e by metis
    next
      assume "q + z \<in> dom G1"
      then show ?thesis using free_forward_idle [OF b _ rel] by blast
    next
      assume "q + z = topc s"
      then show ?thesis using free_forward_top [OF b _ trim] by blast
    qed
    then show ?thesis unfolding run r by (simp add: e)
  qed
qed

end
