(* ===== verification/HeapTrace.thy ===== *)
theory HeapTrace
  imports HeapFree
begin

text \<open>
  Programs that call \<open>dlmalloc\<close> and \<open>dlfree\<close>: a step relation on the blocks in use and the
  state of the allocator, and what holds after any number of calls.
\<close>

subsection \<open>Freeing\<close>

text \<open>
  Property C2. In a heap with the invariant, \<open>dlfree\<close> of a chunk in use does not abort,
  whichever of its neighbours are idle, in the bins, the designated victim or top: the chunk
  is no longer in use, every other chunk in use stays in use with its payload, and the merged
  free memory is filed so that the invariant holds again. This is for the calls that give no memory
  back to the system: the space, from its first byte to the end of top, is not larger than the
  trim threshold, so that \<open>sys_trim\<close> is not called, and the free is not the one on which
  \<open>release_unused_segments\<close> is due (in this build one in \<open>2^64 - 1\<close> frees of large chunks).
\<close>

theorem dlfree_releases:
  assumes "heap_ok m U F s" "U p = Some S" "release_checks s \<noteq> 1" "topc s + topsize s - least_addr s \<le> trim_check s"
  shows "\<exists>F' s'. dlfree m E (chunk2mem p) s = Some s' \<and> heap_ok m (U(p := None)) F' s' \<and> payload_kept (U(p := None)) s s'"
  using dlfree_heap [OF assms] unfolding chunk_freed_def by blast

text \<open>One block of a space that was all top.\<close>

lemma one_block:
  "\<exists>p z F s'. dlmalloc 0x1000 no_env 100 (top_heap 0x10000 4096) = Some (chunk2mem p, s') \<and>
    heap_ok 0x1000 ((\<lambda>_. None)(p \<mapsto> z)) F s' \<and> release_checks s' \<noteq> 1 \<and>
    topc s' + topsize s' - least_addr s' \<le> trim_check s'"
proof -
  let ?s = "top_heap 0x10000 4096"
  have h: "(100 :: u64) < MAX_REQUEST" "request2size 100 < topsize ?s"
    by (simp_all add: request2size_def pad_request_def max_consts top_heap_def)
  obtain p s' where p: "dlmalloc 0x1000 no_env 100 ?s = Some (chunk2mem p, s')"
    "allocated 0x1000 (\<lambda>_. None) ?s (request2size 100) p s'"
    using dlmalloc_heap [OF top_heap_ok h] by blast
  have t: "release_checks ?s \<noteq> 1" "topc ?s + topsize ?s - least_addr ?s \<le> trim_check ?s"
    by (simp_all add: top_heap_def MAX_RELEASE_CHECK_RATE_def DEFAULT_TRIM_THRESHOLD_def max_consts)
  show ?thesis
    using p t unfolding allocated_def same_space_def by (elim conjE exE) (intro exI conjI, assumption+, simp_all)
qed

theorem dlfree_releases_witness:
  "\<exists>mm F s s'. dlmalloc 0x1000 no_env 100 (top_heap 0x10000 4096) = Some (mm, s) \<and>
    dlfree 0x1000 no_env mm s = Some s' \<and> heap_ok 0x1000 (\<lambda>_. None) F s'"
proof -
  obtain p z F s where p: "dlmalloc 0x1000 no_env 100 (top_heap 0x10000 4096) = Some (chunk2mem p, s)"
    "heap_ok 0x1000 ((\<lambda>_. None)(p \<mapsto> z)) F s" "release_checks s \<noteq> 1" "topc s + topsize s - least_addr s \<le> trim_check s"
    using one_block by blast
  have e: "((\<lambda>_. None)(p \<mapsto> z)) p = Some z" "((\<lambda>_. None)(p \<mapsto> z))(p := None) = (\<lambda>_. None)" by auto
  show ?thesis using dlfree_releases [OF p(2) e(1) p(3,4), of no_env] p(1) unfolding e(2) by blast
qed

subsection \<open>Sequences of calls\<close>

text \<open>
  A call on the blocks \<open>U\<close> in use and the state: a request that top can serve, or the release of
  a block in use that is not one of \<open>W\<close>.
\<close>

inductive heap_step :: "u64 \<Rightarrow> 'w env \<Rightarrow> sizes \<Rightarrow> sizes \<times> 'w heap \<Rightarrow> sizes \<times> 'w heap \<Rightarrow> bool"
  for m :: u64 and E :: "'w env" and W :: sizes where
  malloc_step: "bytes < MAX_REQUEST \<Longrightarrow> request2size bytes < topsize s \<Longrightarrow> dlmalloc m E bytes s = Some (chunk2mem p, s') \<Longrightarrow>
    heap_step m E W (U, s) (U(p \<mapsto> chunksize s' p), s')"
| free_step: "U p = Some z \<Longrightarrow> W p = None \<Longrightarrow> dlfree m E (chunk2mem p) s = Some s' \<Longrightarrow>
    heap_step m E W (U, s) (U(p := None), s')"

inductive_cases heap_stepE: "heap_step m E W (U, s) (U', s')"

text \<open>The space is below the trim threshold, and \<open>n\<close> frees do not make a release due.\<close>

definition quiet :: "nat \<Rightarrow> 'w heap \<Rightarrow> bool" where
  "quiet n s \<longleftrightarrow> n + 1 < unat (release_checks s) \<and> topc s + topsize s - least_addr s \<le> trim_check s"

lemma heap_step_ok:
  assumes "heap_step m E W (U, s) (U', s')" "heap_ok m U F s" "W \<subseteq>\<^sub>m U" "quiet (Suc n) s"
  shows "(\<exists>F'. heap_ok m U' F' s') \<and> W \<subseteq>\<^sub>m U' \<and> payload_kept W s s' \<and> quiet n s'"
  using assms(1)
proof (elim heap_stepE)
  fix bytes p assume u: "U' = U(p \<mapsto> chunksize s' p)" and req: "bytes < MAX_REQUEST" "request2size bytes < topsize s"
    and run: "dlmalloc m E bytes s = Some (chunk2mem p, s')"
  obtain p' where p': "chunk2mem p' = chunk2mem p" "allocated m U s (request2size bytes) p' s'"
    using dlmalloc_heap [OF assms(2) req, of E] run by auto
  then have "p' = p" by (simp add: chunk2mem_def)
  then obtain z F' where z: "heap_ok m (U(p \<mapsto> z)) F' s'" "U p = None" "payload_kept U s s'" "same_space s s'"
    "release_checks s' = release_checks s"
    using p'(2) by (auto simp: allocated_def)
  have "chunksize s' p = z" using heap_chunk(2) [OF z(1), of p z] by simp
  moreover have "W \<subseteq>\<^sub>m U(p \<mapsto> z)" using assms(3) z(2) unfolding map_le_def by (metis domIff fun_upd_apply)
  ultimately show ?thesis
    using z payload_kept_mono [OF z(3) assms(3)] assms(4) u by (auto simp: quiet_def same_space_def)
next
  fix p z assume u: "U' = U(p := None)" and p: "U p = Some z" "W p = None" and run: "dlfree m E (chunk2mem p) s = Some s'"
  have q: "release_checks s \<noteq> 1" "topc s + topsize s - least_addr s \<le> trim_check s"
    using assms(4) by (auto simp: quiet_def)
  have c: "chunk_freed m U s p s'"
    using dlfree_heap [OF assms(2) p(1) q, of E] run by auto
  have W: "W \<subseteq>\<^sub>m U(p := None)" using map_le_without [OF assms(3) p(2)] .
  have "n + 1 < unat (release_checks s')"
  proof -
    have r: "Suc n + 1 < unat (release_checks s)" using assms(4) by (simp add: quiet_def)
    then have "unat (release_checks s - 1) = unat (release_checks s) - 1" by (simp add: unat_sub word_le_nat_alt)
    then show ?thesis using r c by (auto simp: chunk_freed_def)
  qed
  then show ?thesis
    using c W payload_kept_mono [of "U(p := None)" s s' W] u q(2) by (auto simp: chunk_freed_def quiet_def same_space_def)
qed

lemma heap_trace_ok:
  assumes "(heap_step m E W ^^ n) (U, s) (U', s')" "heap_ok m U F s" "W \<subseteq>\<^sub>m U" "quiet (n + k) s"
  shows "(\<exists>F'. heap_ok m U' F' s') \<and> W \<subseteq>\<^sub>m U' \<and> payload_kept W s s' \<and> quiet k s'"
  using assms
proof (induction n arbitrary: U s F)
  case 0
  then show ?case by auto
next
  case (Suc n)
  obtain U1 s1 where st: "heap_step m E W (U, s) (U1, s1)" "(heap_step m E W ^^ n) (U1, s1) (U', s')"
    using relpowp_Suc_D2 [OF Suc.prems(1)] by auto
  have q: "quiet (Suc (n + k)) s" using Suc.prems(4) by simp
  obtain F1 where F1: "heap_ok m U1 F1 s1" "W \<subseteq>\<^sub>m U1" "payload_kept W s s1" "quiet (n + k) s1"
    using heap_step_ok [OF st(1) Suc.prems(2,3) q] by blast
  then show ?case using Suc.IH [OF st(2) F1(1,2,4)] payload_kept_trans by blast
qed

subsection \<open>Properties\<close>

text \<open>
  Property C3. After a sequence of calls of \<open>dlmalloc\<close> and \<open>dlfree\<close>, in any order, that gets no memory
  from the system and gives none back, the heap still has the invariant, and the blocks that were
  not freed meanwhile are still in use with the contents they had. Such a sequence frees blocks in
  use, asks each time for less than the padded size that top could serve, has fewer calls
  than are left until the next release of segments, and runs in a space below the trim threshold.
\<close>

theorem heap_trace_invariant:
  assumes "(heap_step m E W ^^ n) (U, s) (U', s')" "heap_ok m U F s" "W \<subseteq>\<^sub>m U" "quiet n s"
  shows "(\<exists>F'. heap_ok m U' F' s') \<and> W \<subseteq>\<^sub>m U' \<and> payload_kept W s s'"
  using heap_trace_ok [OF assms(1-3), of 0] assms(4) by simp

lemma quiet_top: "quiet 2 (top_heap 0x10000 4096)"
  by (simp add: quiet_def top_heap_def MAX_RELEASE_CHECK_RATE_def DEFAULT_TRIM_THRESHOLD_def max_consts)

lemma two_steps:
  "\<exists>s'. (heap_step 0x1000 no_env (\<lambda>_. None) ^^ 2) (\<lambda>_. None, top_heap 0x10000 4096) (\<lambda>_. None, s')"
proof -
  obtain p z F s where p: "dlmalloc 0x1000 no_env 100 (top_heap 0x10000 4096) = Some (chunk2mem p, s)"
    "heap_ok 0x1000 ((\<lambda>_. None)(p \<mapsto> z)) F s" "release_checks s \<noteq> 1" "topc s + topsize s - least_addr s \<le> trim_check s"
    using one_block by blast
  have h: "(100 :: u64) < MAX_REQUEST" "request2size 100 < topsize (top_heap 0x10000 4096)"
    by (simp_all add: request2size_def pad_request_def max_consts top_heap_def)
  have 1: "heap_step 0x1000 no_env (\<lambda>_. None) (\<lambda>_. None, top_heap 0x10000 4096) ((\<lambda>_. None)(p \<mapsto> chunksize s p), s)"
    by (rule malloc_step [OF h p(1)])
  obtain s' where s': "dlfree 0x1000 no_env (chunk2mem p) s = Some s'"
    using dlfree_heap [OF p(2) _ p(3,4), of p z no_env] by auto
  have "heap_step 0x1000 no_env (\<lambda>_. None) ((\<lambda>_. None)(p \<mapsto> chunksize s p), s) (((\<lambda>_. None)(p \<mapsto> chunksize s p))(p := None), s')"
    by (rule free_step [OF _ _ s']) simp_all
  then have "(heap_step 0x1000 no_env (\<lambda>_. None) ^^ 2) (\<lambda>_. None, top_heap 0x10000 4096) (\<lambda>_. None, s')"
    using 1 by (auto simp: numeral_2_eq_2 relpowp.simps OO_def fun_upd_idem)
  then show ?thesis by blast
qed

theorem heap_trace_invariant_witness:
  "\<exists>F s. (heap_step 0x1000 no_env (\<lambda>_. None) ^^ 2) (\<lambda>_. None, top_heap 0x10000 4096) (\<lambda>_. None, s) \<and>
    heap_ok 0x1000 (\<lambda>_. None) F s"
  using two_steps heap_trace_invariant [OF _ top_heap_ok map_le_refl quiet_top] by blast

text \<open>
  Property C4. After a sequence of calls as in \<open>heap_trace_invariant\<close>, with requests that top can
  serve, below the trim threshold and before the next release of segments, no two blocks in use
  overlap, and the next call does not abort: a request that top can serve gets a block, and any
  block in use can be freed.
\<close>

theorem heap_trace_progress:
  assumes "(heap_step m E W ^^ n) (U, s) (U', s')" "heap_ok m U F s" "W \<subseteq>\<^sub>m U" "quiet n s"
  shows "(\<forall>p z q w. U' p = Some z \<and> U' q = Some w \<and> p \<noteq> q \<longrightarrow> no_overlap p z q w) \<and>
    (\<forall>bytes < MAX_REQUEST. request2size bytes < topsize s' \<longrightarrow>
      (\<exists>p s''. dlmalloc m E bytes s' = Some (chunk2mem p, s'') \<and> U' p = None)) \<and>
    (\<forall>p z. U' p = Some z \<longrightarrow> (\<exists>s''. dlfree m E (chunk2mem p) s' = Some s''))"
proof -
  obtain F' where h: "heap_ok m U' F' s'" "quiet 0 s'" using heap_trace_ok [OF assms(1-3), of 0] assms(4) by auto
  have q: "release_checks s' \<noteq> 1" "topc s' + topsize s' - least_addr s' \<le> trim_check s'"
    using h(2) by (auto simp: quiet_def)
  show ?thesis
  proof (intro conjI allI impI)
    show "no_overlap p z q w" if "U' p = Some z \<and> U' q = Some w \<and> p \<noteq> q" for p z q w
      using layoutD(5) [OF heap_okD(2) [OF h(1)], of p z q w] that by (simp add: block_def)
    show "\<exists>p s''. dlmalloc m E bytes s' = Some (chunk2mem p, s'') \<and> U' p = None"
      if "bytes < MAX_REQUEST" "request2size bytes < topsize s'" for bytes
      using dlmalloc_heap [OF h(1) that, of E] by (auto simp: allocated_def)
    show "\<exists>s''. dlfree m E (chunk2mem p) s' = Some s''" if "U' p = Some z" for p z
      using dlfree_heap [OF h(1) that q, of E] by blast
  qed
qed

theorem heap_trace_progress_witness:
  "\<exists>p z s s'. (heap_step 0x1000 no_env (\<lambda>_. None) ^^ 1) (\<lambda>_. None, top_heap 0x10000 4096) ((\<lambda>_. None)(p \<mapsto> z), s) \<and>
    dlfree 0x1000 no_env (chunk2mem p) s = Some s'"
proof -
  have h: "(100 :: u64) < MAX_REQUEST" "request2size 100 < topsize (top_heap 0x10000 4096)"
    by (simp_all add: request2size_def pad_request_def max_consts top_heap_def)
  obtain p s where "dlmalloc 0x1000 no_env 100 (top_heap 0x10000 4096) = Some (chunk2mem p, s)" using one_block by blast
  then have s: "(heap_step 0x1000 no_env (\<lambda>_. None) ^^ 1) (\<lambda>_. None, top_heap 0x10000 4096)
      ((\<lambda>_. None)(p \<mapsto> chunksize s p), s)"
    using malloc_step [OF h] by (simp add: eq_OO)
  have "quiet 1 (top_heap 0x10000 4096)"
    using quiet_top by (simp add: quiet_def)
  then show ?thesis using heap_trace_progress [OF s top_heap_ok map_le_refl] s by fastforce
qed

end
