(* ===== verification/HeapCalloc.thy ===== *)
theory HeapCalloc
  imports HeapFree
begin

text \<open>
  Writes to the payload of a block in use keep the heap, and \<open>dlcalloc\<close>: the block it returns
  is cleared.
\<close>

subsection \<open>Writing to a block\<close>

text \<open>The cells \<open>p + x\<close>, \<open>x\<close> below the end of the payload, of the chunk \<open>p\<close> may differ.\<close>

definition payload_write :: "u64 \<Rightarrow> u64 \<Rightarrow> 'w heap \<Rightarrow> 'w heap \<Rightarrow> bool" where
  "payload_write p z s s' \<longleftrightarrow> same_scalars s s' \<and> smallmap s' = smallmap s \<and> treemap s' = treemap s \<and>
     (\<forall>a. load s' a = load s a \<or> (\<exists>x. 16 \<le> x \<and> x < z + 8 \<and> a = p + x))"

text \<open>A payload cell is no tag that the layout needs, and no cell of another block.\<close>

lemma payload_other_cell:
  assumes lay: "heap_layout m U G s" and p: "U p = Some z" "16 \<le> x" "x < z + 8" and b: "block U G s b w" "y < w"
    and n: "b \<noteq> p \<or> y < 16" "8 \<le> y \<or> \<not> pinuse s b"
  shows "p + x \<noteq> b + y"
proof
  assume e: "p + x = b + y"
  obtain b' w' y' where c: "block U G s b' w'" "y' < w'" "p + x = b' + y'" "b' = p \<and> 16 \<le> y' \<or> y' < 8 \<and> pinuse s b'"
    using payload_cell [OF lay p] by blast
  have bb: "b' = b"
  proof (rule ccontr)
    assume "b' \<noteq> b"
    then have "b' + y' \<noteq> b + y" using no_overlap_cell [OF layoutD(5) [OF lay c(1) b(1)] c(2) b(2)] by blast
    then show False using c(3) e by simp
  qed
  then have "y' = y" using c(3) e by simp
  then show False using c(4) n bb by (auto simp: word_le_nat_alt word_less_nat_alt)
qed

lemma payload_write_layout:
  assumes lay: "heap_layout m U G s" and p: "U p = Some z" and pw: "payload_write p z s s'"
  shows "heap_layout m U G s'"
proof (rule layout_frame_foot [OF lay])
  note sc = same_scalarsD [of s s']
  show "topc s' = topc s" "topsize s' = topsize s" "least_addr s' = least_addr s"
    using pw sc by (simp_all add: payload_write_def)
  fix q assume "q \<in> chunk_starts U G s"
  then obtain w where b: "block U G s q w" by (auto simp: chunk_starts_def block_def)
  have w: "16 < w" by (rule block_size [OF lay b])
  have l: "load s' (q + y) = load s (q + y)" if "y < w" "y < 16" "8 \<le> y \<or> \<not> pinuse s q" for y
    using payload_other_cell [OF lay p _ _ b that(1)] that(2,3) pw unfolding payload_write_def by metis
  have "head s' q = head s q" using l [of 8] w by (simp add: head_def word_less_nat_alt)
  moreover have "prev_foot s' q = prev_foot s q" if "\<not> pinuse s q"
    using l [of 0] w that by (simp add: prev_foot_def word_less_nat_alt)
  ultimately show "chunksize s' q = chunksize s q \<and> pinuse s' q = pinuse s q \<and> cinuse s' q = cinuse s q \<and>
      (\<not> pinuse s q \<longrightarrow> prev_foot s' q = prev_foot s q)"
    by (simp add: tag_fields)
qed

lemma payload_write_table:
  fixes s s' :: "'w heap"
  assumes lay: "heap_layout m U G s" and T: "free_table m (table_of F) s" and F: "F \<subseteq>\<^sub>m G" and p: "U p = Some z"
    and pw: "payload_write p z s s'"
  shows "free_table m (table_of F) s'"
proof (rule free_table_frame [OF T])
  show "smallmap s' = smallmap s" "treemap s' = treemap s" "least_addr s' = least_addr s"
    using pw same_scalarsD(3) [of s s'] by (simp_all add: payload_write_def)
  show "load s' (q + x) = load s (q + x)" if q: "q \<in> table_of F w" "8 \<le> x" "x < w" for q w x
  proof -
    have g: "G q = Some w" using q(1) F by (auto simp: table_of_def map_le_def dom_def)
    then have b: "block U G s q w" by (simp add: block_def)
    have "q \<noteq> p" using layout_kinds(2) [OF lay g] p by auto
    then have "p + y \<noteq> q + x" if "16 \<le> y" "y < z + 8" for y
      using payload_other_cell [OF lay p that b q(3)] q(2) by blast
    then show ?thesis using pw unfolding payload_write_def by metis
  qed
  show "load s' a = load s a" if a: "\<not> (a - m < 72 \<or> 936 \<le> a - m)" for a
  proof -
    have "a \<noteq> p + x" if x: "16 \<le> x" "x < z + 8" for x
      using payload_cell [OF lay p x] block_clear [OF lay] a by metis
    then show ?thesis using pw unfolding payload_write_def by metis
  qed
qed

lemma payload_write_other:
  assumes lay: "heap_layout m U G s" and p: "U p = Some z" and pw: "payload_write p z s s'"
  shows "payload_kept (U(p := None)) s s'"
  unfolding payload_kept_def
proof (intro allI impI)
  fix q w x assume q: "(U(p := None)) q = Some w" "16 \<le> x" "x < w + 8"
  then have q': "U q = Some w" "q \<noteq> p" by (auto split: if_splits)
  have "p + y \<noteq> q + x" if y: "16 \<le> y" "y < z + 8" for y
  proof
    assume e: "p + y = q + x"
    obtain b w1 u where b: "block U G s b w1" "u < w1" "p + y = b + u" "b = p \<and> 16 \<le> u \<or> b = p + z \<and> u < 8"
      using payload_cell [OF lay p y] by blast
    obtain c w2 v where c: "block U G s c w2" "v < w2" "q + x = c + v" "c = q \<and> 16 \<le> v \<or> c = q + w \<and> v < 8"
      using payload_cell [OF lay q'(1) q(2,3)] by blast
    have bc: "b = c"
    proof (rule ccontr)
      assume "b \<noteq> c"
      then have "b + u \<noteq> c + v" using no_overlap_cell [OF layoutD(5) [OF lay b(1) c(1)] b(2) c(2)] by blast
      then show False using b(3) c(3) e by simp
    qed
    then have "u = v" using b(3) c(3) e by simp
    moreover have "p + z \<noteq> q + w" using block_ends [OF lay, of p z q w] p q' by (simp add: block_def)
    ultimately show False using b(4) c(4) bc q'(2) by (auto simp: word_le_nat_alt word_less_nat_alt)
  qed
  then show "load s' (q + x) = load s (q + x)" using pw unfolding payload_write_def by metis
qed

lemma heap_payload_write:
  assumes h: "heap_ok m U F s" and p: "U p = Some z" and pw: "payload_write p z s s'"
  shows "heap_ok m U F s'"
proof -
  note H = heap_okD [OF h]
  have d: "dv s' = dv s" "dvsize s' = dvsize s" using pw same_scalarsD(4,5) [of s s'] by (simp_all add: payload_write_def)
  show ?thesis
    by (rule heap_okI [OF payload_write_table [OF H(2,1,3) p pw] payload_write_layout [OF H(2) p pw] with_dv_cong [OF d, symmetric]])
      (use H(4,5) d in auto)
qed

subsection \<open>dlcalloc\<close>

lemma memset_payload:
  assumes "unat n + 8 \<le> unat z" "good_size z"
  shows "payload_write p z s (memset_zero (chunk2mem p) n s)"
proof -
  let ?s = "memset_zero (chunk2mem p) n s"
  have z: "unat z < 2 ^ 40" "unat (z + 8) = unat z + 8"
    using good_sizeD(3) [OF assms(2)] by (simp_all add: word_less_nat_alt unat_word_ariths)
  have "load ?s a = load s a \<or> (\<exists>x. 16 \<le> x \<and> x < z + 8 \<and> a = p + x)" for a
  proof (cases "unat (a - chunk2mem p) < unat n")
    case True
    define x where "x = a - p"
    have x: "a = p + x" "unat (x - 16) < unat n" using True by (simp_all add: x_def chunk2mem_def algebra_simps)
    have "unat (x - 16 + 16) = unat (x - 16) + 16"
      using x(2) assms(1) z(1) by (subst unat_word_ariths(1)) simp
    then have "16 \<le> x \<and> x < z + 8" using x(2) assms(1) z(2) by (simp add: word_le_nat_alt word_less_nat_alt)
    then show ?thesis using x(1) by blast
  qed (simp add: memset_zero_def load_def Let_def)
  then show ?thesis by (simp add: payload_write_def memset_zero_def same_scalars_def)
qed

lemma memset_cleared:
  assumes "8 * i < unat n"
  shows "load (memset_zero a n s) (a + of_nat (8 * i)) AND mask (8 * min 8 (unat n - 8 * i)) = 0"
proof -
  have "8 * i < 2 ^ 64" using assms unat_less_exp [of n] by simp
  then have u: "unat (of_nat (8 * i) :: u64) = 8 * i" by (simp only: unsigned_of_nat) (simp add: take_bit_nat_eq_self)
  let ?k = "8 * min 8 (unat n - 8 * i)"
  have "load (memset_zero a n s) (a + of_nat (8 * i)) = blend_cell (min 8 (unat n - 8 * i)) 0 (mem s (a + of_nat (8 * i)))"
    using assms u by (simp add: memset_zero_def load_def Let_def del: of_nat_mult)
  then show ?thesis by (simp add: blend_cell_def and.assoc)
qed

text \<open>
  Property C5. \<open>dlcalloc\<close> of a product that top can serve returns a block as \<open>dlmalloc\<close> does, and
  all the requested bytes are zero, those of a last partial cell included; the other blocks keep
  their contents.
\<close>

theorem dlcalloc_clears:
  assumes "heap_ok m U F s" "unat n * unat e < unat MAX_REQUEST" "request2size (calloc_request n e) < topsize s"
  shows "\<exists>p z F' s'. dlcalloc m E n e s = Some (chunk2mem p, s') \<and> U p = None \<and> unat n * unat e + 8 \<le> unat z \<and>
    heap_ok m (U(p \<mapsto> z)) F' s' \<and> payload_kept U s s' \<and>
    (\<forall>i. 8 * i < unat n * unat e \<longrightarrow>
      load s' (chunk2mem p + of_nat (8 * i)) AND mask (8 * min 8 (unat n * unat e - 8 * i)) = 0)"
proof -
  let ?r = "calloc_request n e"
  have r: "unat ?r = unat n * unat e" using assms(2) by (simp add: calloc_request_value max_consts)
  then have req: "?r < MAX_REQUEST" using assms(2) by (simp add: word_less_nat_alt)
  obtain p z F' s1 where p: "dlmalloc m E ?r s = Some (chunk2mem p, s1)" "U p = None" "request2size ?r \<le> z"
    "heap_ok m (U(p \<mapsto> z)) F' s1" "payload_kept U s s1"
    using dlmalloc_heap [OF assms(1) req assms(3)] unfolding allocated_def by blast
  have Up: "(U(p \<mapsto> z)) p = Some z" by simp
  note C = heap_chunk [OF p(4) Up]
  have z: "unat ?r + 8 \<le> unat z"
    using request2size_least [OF req] p(3) by (simp add: word_le_nat_alt)
  let ?s = "memset_zero (chunk2mem p) ?r s1"
  note pw = memset_payload [OF z C(1), of p s1]
  have e: "(U(p \<mapsto> z))(p := None) = U" using p(2) by (auto simp: fun_eq_iff)
  have "payload_kept U s1 ?s" using payload_write_other [OF heap_okD(2) [OF p(4)] Up pw] unfolding e .
  then have k: "payload_kept U s ?s" using payload_kept_trans [OF p(5)] by blast
  have "tree_chunk m s1 p" using layoutD(1) [OF heap_okD(2) [OF p(4)] Up] by (simp add: sized_chunk_def)
  then have "p \<le> - 64" by (simp add: tree_chunk_def)
  then have "unat (p + 16) = unat p + 16" by (simp add: unat_word_ariths word_le_nat_alt)
  then have "chunk2mem p \<noteq> 0" by (auto simp: chunk2mem_def)
  then have "dlcalloc m E n e s = Some (chunk2mem p, ?s)"
    using p(1) inuse_kinds(2) [OF C(3)] by (simp add: dlcalloc_def Let_def calloc_must_clear_def chunk2mem_def mem2chunk_def)
  then show ?thesis
    using p(2) z heap_payload_write [OF p(4) Up pw] k memset_cleared [of _ ?r "chunk2mem p" s1] unfolding r by blast
qed

theorem dlcalloc_clears_witness:
  "\<exists>p s. dlcalloc 0x1000 no_env 3 7 (top_heap 0x10000 4096) = Some (chunk2mem p, s) \<and> load s (chunk2mem p + 8) AND mask 64 = 0"
proof -
  have h: "unat (3 :: u64) * unat (7 :: u64) < unat MAX_REQUEST" "request2size (calloc_request 3 7) < topsize (top_heap 0x10000 4096)"
    by (simp_all add: request2size_def calloc_request_def max_consts top_heap_def)
  obtain p s where p: "dlcalloc 0x1000 no_env 3 7 (top_heap 0x10000 4096) = Some (chunk2mem p, s)"
    "\<forall>i. 8 * i < unat (3 :: u64) * unat (7 :: u64) \<longrightarrow>
      load s (chunk2mem p + of_nat (8 * i)) AND mask (8 * min 8 (unat (3 :: u64) * unat (7 :: u64) - 8 * i)) = 0"
    using dlcalloc_clears [OF top_heap_ok h, of no_env] by blast
  show ?thesis using p(1) p(2) [rule_format, of 1] by (intro exI conjI) simp_all
qed

end
