(* ===== verification/CreateServer.thy ===== *)
theory CreateServer
  imports Prelude
begin

text \<open>
  The transformation of a program into a server, \<open>create-server.cpp\<close>: the template functions
  \<open>spawn_impl\<close> and \<open>_server_spawn_worker\<close> of \<open>server.c\<close> get the parameters of the target, the
  stubs in them become calls of the target and of a rewrite, and calls of the target become
  calls of the worker's spawn function.

  A module is a list of functions, these are lists of blocks of instructions, and the values that
  instructions refer to are functions, globals, arguments, instructions and constants, as in
  LLVM. An assertion of LLVM that fails (the signature of a call, the types of a cast or of a
  replaced value, an erased value that is in use) and a null pointer that is used are \<open>None\<close>. The order
  of the uses of a value, which LLVM leaves open, is the parameter \<open>uses\<close>.
\<close>

subsection \<open>Modules\<close>

datatype ir_type = VoidTy | IntegerTy nat | PointerTo ir_type | FunctionTy ir_type "ir_type list" bool |
  ArrayTy nat ir_type | NamedTy string

datatype ir_value = FunctionV nat | GlobalV nat | ArgumentV nat nat | InstV nat | ConstantV ir_type string |
  ElementPtr ir_type ir_value "nat list" | InlineAsm ir_type string string

datatype ir_op = CallInst ir_value "ir_value list" | BitCastInst ir_value | StoreInst ir_value ir_value |
  ReturnInst "ir_value option" | OtherInst string "ir_value list"

record ir_instr =
  iref :: nat
  iname :: string
  itype :: ir_type
  iop :: ir_op

record ir_func =
  fname :: string
  ftype :: ir_type
  vtype :: ir_type
  linkage :: string
  attributes :: "string list"
  params :: "(string \<times> ir_type) list"
  blocks :: "ir_instr list list"

record ir_global =
  gname :: string
  gtype :: ir_type
  gconst :: bool
  glinkage :: string
  ginit :: "ir_value option"

record ir_module =
  funcs :: "(nat \<times> ir_func) list"
  globs :: "(nat \<times> ir_global) list"
  triple :: string
  fresh :: nat

type_synonym use_lists = "ir_module \<Rightarrow> ir_value \<Rightarrow> nat list"

fun getReturnType :: "ir_type \<Rightarrow> ir_type" where
  "getReturnType (FunctionTy r ps va) = r"
| "getReturnType t = VoidTy"

fun getParams :: "ir_type \<Rightarrow> ir_type list" where
  "getParams (FunctionTy r ps va) = ps"
| "getParams t = []"

fun operands :: "ir_op \<Rightarrow> ir_value list" where
  "operands (CallInst c as) = as @ [c]"
| "operands (BitCastInst v) = [v]"
| "operands (StoreInst v p) = [v, p]"
| "operands (ReturnInst v) = (case v of None \<Rightarrow> [] | Some v \<Rightarrow> [v])"
| "operands (OtherInst n vs) = vs"

definition instrs :: "ir_module \<Rightarrow> ir_instr list" where
  "instrs M = concat (concat (map (\<lambda>(i, F). blocks F) (funcs M)))"

definition find_instr :: "ir_module \<Rightarrow> nat \<Rightarrow> ir_instr option" where
  "find_instr M i = find (\<lambda>I. iref I = i) (instrs M)"

text \<open>The users of a value, one entry for each use.\<close>

definition users :: "ir_module \<Rightarrow> ir_value \<Rightarrow> nat list" where
  "users M v = concat (map (\<lambda>I. map (\<lambda>_. iref I) (filter (\<lambda>x. x = v) (operands (iop I)))) (instrs M))"

definition getFunction :: "ir_module \<Rightarrow> string \<Rightarrow> nat option" where
  "getFunction M n = map_option fst (find (\<lambda>(i, F). fname F = n) (funcs M))"

fun type_of :: "ir_module \<Rightarrow> ir_value \<Rightarrow> ir_type" where
  "type_of M (FunctionV f) = (case map_of (funcs M) f of Some F \<Rightarrow> vtype F | None \<Rightarrow> VoidTy)"
| "type_of M (GlobalV g) = (case map_of (globs M) g of Some G \<Rightarrow> PointerTo (gtype G) | None \<Rightarrow> VoidTy)"
| "type_of M (ArgumentV f i) =
     (case map_of (funcs M) f of Some F \<Rightarrow> if i < length (params F) then snd (params F ! i) else VoidTy | None \<Rightarrow> VoidTy)"
| "type_of M (InstV i) = (case find_instr M i of Some I \<Rightarrow> itype I | None \<Rightarrow> VoidTy)"
| "type_of M (ConstantV t c) = t"
| "type_of M (ElementPtr t p idx) = (case t of ArrayTy n e \<Rightarrow> PointerTo e | _ \<Rightarrow> VoidTy)"
| "type_of M (InlineAsm t code constraints) = PointerTo t"

subsection \<open>Changing a module\<close>

definition map_blocks :: "(ir_instr list \<Rightarrow> ir_instr list) \<Rightarrow> ir_module \<Rightarrow> ir_module" where
  "map_blocks g M = M\<lparr>funcs := map (\<lambda>(i, F). (i, F\<lparr>blocks := map g (blocks F)\<rparr>)) (funcs M)\<rparr>"

definition upd_func :: "nat \<Rightarrow> (ir_func \<Rightarrow> ir_func) \<Rightarrow> ir_module \<Rightarrow> ir_module" where
  "upd_func f g M = M\<lparr>funcs := map (\<lambda>(i, F). (i, if i = f then g F else F)) (funcs M)\<rparr>"

text \<open>A new instruction in front of the instruction \<open>i\<close>, or at the end of its block.\<close>

definition insert_before_inst :: "nat \<Rightarrow> string \<Rightarrow> ir_type \<Rightarrow> ir_op \<Rightarrow> ir_module \<Rightarrow> ir_value \<times> ir_module" where
  "insert_before_inst i n t op M =
     (let I = \<lparr>iref = fresh M, iname = n, itype = t, iop = op\<rparr> in
      (InstV (fresh M),
       map_blocks (\<lambda>b. concat (map (\<lambda>J. if iref J = i then [I, J] else [J]) b)) (M\<lparr>fresh := fresh M + 1\<rparr>)))"

definition append_to_block :: "nat \<Rightarrow> ir_type \<Rightarrow> ir_op \<Rightarrow> ir_module \<Rightarrow> ir_module" where
  "append_to_block i t op M =
     (let I = \<lparr>iref = fresh M, iname = [], itype = t, iop = op\<rparr> in
      map_blocks (\<lambda>b. if i \<in> set (map iref b) then b @ [I] else b) (M\<lparr>fresh := fresh M + 1\<rparr>))"

definition eraseFromParent :: "nat \<Rightarrow> ir_module \<Rightarrow> ir_module option" where
  "eraseFromParent i M =
     (if users M (InstV i) = [] then Some (map_blocks (filter (\<lambda>I. iref I \<noteq> i)) M) else None)"

fun subst_op :: "ir_value \<Rightarrow> ir_value \<Rightarrow> ir_op \<Rightarrow> ir_op" where
  "subst_op v w (CallInst c as) = CallInst (if c = v then w else c) (map (\<lambda>x. if x = v then w else x) as)"
| "subst_op v w (BitCastInst x) = BitCastInst (if x = v then w else x)"
| "subst_op v w (StoreInst x p) = StoreInst (if x = v then w else x) (if p = v then w else p)"
| "subst_op v w (ReturnInst x) = ReturnInst (map_option (\<lambda>x. if x = v then w else x) x)"
| "subst_op v w (OtherInst n xs) = OtherInst n (map (\<lambda>x. if x = v then w else x) xs)"

definition replaceAllUsesWith :: "ir_value \<Rightarrow> ir_value \<Rightarrow> ir_module \<Rightarrow> ir_module option" where
  "replaceAllUsesWith v w M =
     (if type_of M v = type_of M w then Some (map_blocks (map (\<lambda>I. I\<lparr>iop := subst_op v w (iop I)\<rparr>)) M) else None)"

text \<open>The constructors of instructions check the types of their operands.\<close>

fun is_pointer :: "ir_type \<Rightarrow> bool" where
  "is_pointer (PointerTo t) = True"
| "is_pointer t = False"

definition new_bitcast :: "ir_value \<Rightarrow> ir_type \<Rightarrow> nat \<Rightarrow> ir_module \<Rightarrow> (ir_value \<times> ir_module) option" where
  "new_bitcast v t i M =
     (if is_pointer (type_of M v) \<and> is_pointer t then Some (insert_before_inst i [] t (BitCastInst v) M) else None)"

fun callable :: "ir_type \<Rightarrow> ir_type list \<Rightarrow> bool" where
  "callable (PointerTo (FunctionTy r ps va)) ts =
     (if va then length ps \<le> length ts \<and> take (length ps) ts = ps else ts = ps)"
| "callable t ts = False"

fun called_result :: "ir_type \<Rightarrow> ir_type" where
  "called_result (PointerTo t) = getReturnType t"
| "called_result t = VoidTy"

definition new_call :: "ir_value \<Rightarrow> ir_value list \<Rightarrow> string \<Rightarrow> nat \<Rightarrow> ir_module \<Rightarrow> (ir_value \<times> ir_module) option" where
  "new_call c as n i M =
     (if callable (type_of M c) (map (type_of M) as)
      then Some (insert_before_inst i n (called_result (type_of M c)) (CallInst c as) M) else None)"

definition new_store :: "ir_value \<Rightarrow> ir_value \<Rightarrow> nat \<Rightarrow> ir_module \<Rightarrow> ir_module option" where
  "new_store v p i M =
     (if type_of M p = PointerTo (type_of M v) then Some (snd (insert_before_inst i [] VoidTy (StoreInst v p) M)) else None)"

definition call_of :: "ir_module \<Rightarrow> nat \<Rightarrow> (ir_value \<times> ir_value list) option" where
  "call_of M i =
     (case find_instr M i of
        Some I \<Rightarrow> (case iop I of CallInst c as \<Rightarrow> Some (c, as) | _ \<Rightarrow> None)
      | None \<Rightarrow> None)"

definition first_use :: "use_lists \<Rightarrow> ir_module \<Rightarrow> ir_value \<Rightarrow> nat option" where
  "first_use uses M v = (case uses M v of [] \<Rightarrow> None | u # us \<Rightarrow> Some u)"

subsection \<open>Stubs\<close>

text \<open>
  The value \<open>New\<close> takes the place of the call \<open>Old\<close>. If the target returns nothing, the
  \<open>ret\<close> of the call's value becomes a \<open>ret\<close> of nothing.
\<close>

definition replace_result :: "use_lists \<Rightarrow> ir_type \<Rightarrow> nat \<Rightarrow> ir_value \<Rightarrow> ir_module \<Rightarrow> ir_module option" where
  "replace_result uses TargetTy Old New M =
     (if getReturnType TargetTy \<noteq> VoidTy then replaceAllUsesWith (InstV Old) New M
      else case first_use uses M (InstV Old) of
        None \<Rightarrow> Some M
      | Some Ret \<Rightarrow>
          do {
            I \<leftarrow> find_instr M Ret;
            (case iop I of
              ReturnInst x \<Rightarrow> eraseFromParent Ret (append_to_block Ret VoidTy (ReturnInst None) M)
            | _ \<Rightarrow> None)
          })"

text \<open>The iterator \<open>FnArgs\<close> is the argument \<open>k\<close> of the function \<open>f\<close>.\<close>

definition replaceStubCall :: "use_lists \<Rightarrow> nat \<Rightarrow> ir_type \<Rightarrow> nat \<times> nat \<Rightarrow> ir_module \<Rightarrow> ir_module option" where
  "replaceStubCall uses Stub TargetTy FnArgs M =
     do {
       (c, as) \<leftarrow> call_of M Stub;
       a \<leftarrow> (case as of [] \<Rightarrow> None | a # _ \<Rightarrow> Some a);
       (Callee, M) \<leftarrow> new_bitcast a (PointerTo TargetTy) Stub M;
       let Args = map (\<lambda>i. ArgumentV (fst FnArgs) (snd FnArgs + i)) [0..<length (getParams TargetTy)];
       (Replaced, M) \<leftarrow> new_call Callee Args [] Stub M;
       M \<leftarrow> replace_result uses TargetTy Stub Replaced M;
       eraseFromParent Stub M
     }"

subsection \<open>The top of the stack\<close>

definition emitX86_64GetTopOfStack :: "nat \<Rightarrow> ir_module \<Rightarrow> ir_module option" where
  "emitX86_64GetTopOfStack Main M =
     do {
       F \<leftarrow> map_of (funcs M) Main;
       let FnTy = FunctionTy (PointerTo (IntegerTy 8)) [] False;
       let Asm = InlineAsm FnTy ''movq %rbp, $0'' ''=r,~{dirflag},~{fpsr},~{flags}'';
       Head \<leftarrow> (case blocks F of (I # Is) # bs \<Rightarrow> Some (iref I) | _ \<Rightarrow> None);
       (RBP, M) \<leftarrow> new_call Asm [] ''x86_64.rbp'' Head M;
       TopOfStack \<leftarrow> map_option fst (find (\<lambda>(i, G). gname G = ''_server_stack_top'') (globs M));
       new_store RBP (GlobalV TopOfStack) Head M
     }"

text \<open>\<open>getArch\<close> says whether a target triple is one of an x86-64.\<close>

definition emitGetTopOfStack :: "(string \<Rightarrow> bool) \<Rightarrow> ir_module \<Rightarrow> ir_module option" where
  "emitGetTopOfStack getArch M =
     do {
       Main \<leftarrow> getFunction M ''main'';
       (if getArch (triple M) then emitX86_64GetTopOfStack Main M else None)
     }"

subsection \<open>Spawn functions\<close>

text \<open>The arguments from \<open>i\<close> on of the old function are transferred to the new one.\<close>

primrec transfer_args :: "nat \<Rightarrow> nat \<Rightarrow> nat list \<Rightarrow> ir_module \<Rightarrow> ir_module option" where
  "transfer_args Old New [] M = Some M"
| "transfer_args Old New (i # is) M =
     do {
       F \<leftarrow> map_of (funcs M) Old;
       let n = fst (params F ! i);
       let M = upd_func Old (\<lambda>F. F\<lparr>params := (params F)[i := (n, type_of M (ArgumentV New i))]\<rparr>) M;
       M \<leftarrow> replaceAllUsesWith (ArgumentV Old i) (ArgumentV New i) M;
       let M = upd_func New (\<lambda>F. F\<lparr>params := (params F)[i := (n, snd (params F ! i))]\<rparr>) M;
       let M = upd_func Old (\<lambda>F. F\<lparr>params := (params F)[i := ([], snd (params F ! i))]\<rparr>) M;
       transfer_args Old New is M
     }"

text \<open>A version of \<open>SpawnFn\<close> with the parameters of the target behind its own, and the target's result.\<close>

definition extend_spawn :: "nat \<Rightarrow> nat \<Rightarrow> ir_module \<Rightarrow> (nat \<times> ir_module) option" where
  "extend_spawn SpawnFn FnToRun M =
     do {
       F \<leftarrow> map_of (funcs M) SpawnFn;
       T \<leftarrow> map_of (funcs M) FnToRun;
       let Params = getParams (ftype F) @ getParams (ftype T);
       let NewTy = FunctionTy (getReturnType (ftype T)) Params False;
       let NewSpawnFn = fresh M;
       let NewF = \<lparr>fname = fname F, ftype = NewTy, vtype = PointerTo NewTy, linkage = linkage F,
         attributes = attributes F, params = map (\<lambda>t. ([], t)) Params, blocks = blocks F\<rparr>;
       let M = upd_func SpawnFn (\<lambda>F. F\<lparr>fname := [], blocks := []\<rparr>) M;
       let M = M\<lparr>funcs := funcs M @ [(NewSpawnFn, NewF)], fresh := fresh M + 1\<rparr>;
       M \<leftarrow> transfer_args SpawnFn NewSpawnFn [0..<length (params F)] M;
       Some (NewSpawnFn, M)
     }"

definition fixSpawnWrapper :: "use_lists \<Rightarrow> nat \<Rightarrow> nat \<Rightarrow> ir_module \<Rightarrow> (nat \<times> ir_module) option" where
  "fixSpawnWrapper uses SpawnFn FnToRun M =
     do {
       T \<leftarrow> map_of (funcs M) FnToRun;
       (NewSpawnFn, M) \<leftarrow> extend_spawn SpawnFn FnToRun M;
       NewF \<leftarrow> map_of (funcs M) NewSpawnFn;
       let SpawnArgs = map (ArgumentV NewSpawnFn) [0..<length (getParams (ftype NewF))];
       SpawnImpl \<leftarrow> getFunction M ''spawn_impl'';
       OrigCall \<leftarrow> first_use uses M (FunctionV SpawnImpl);
       _ \<leftarrow> call_of M OrigCall;
       (NewCall, M) \<leftarrow> new_call (FunctionV SpawnImpl) SpawnArgs [] OrigCall M;
       M \<leftarrow> replace_result uses (ftype T) OrigCall NewCall M;
       M \<leftarrow> eraseFromParent OrigCall M;
       Some (NewSpawnFn, M)
     }"

definition fixSpawnImpl :: "use_lists \<Rightarrow> nat \<Rightarrow> nat \<Rightarrow> ir_module \<Rightarrow> (nat \<times> ir_module) option" where
  "fixSpawnImpl uses SpawnFn FnToRun M =
     do {
       F \<leftarrow> map_of (funcs M) SpawnFn;
       T \<leftarrow> map_of (funcs M) FnToRun;
       (NewSpawnFn, M) \<leftarrow> extend_spawn SpawnFn FnToRun M;
       let FnArgs = (NewSpawnFn, length (getParams (ftype F)));
       RewriteStub \<leftarrow> getFunction M ''_stub_rewrite_call'';
       RewriteCall \<leftarrow> first_use uses M (FunctionV RewriteStub);
       M \<leftarrow> replaceStubCall uses RewriteCall (ftype T) FnArgs M;
       TargetStub \<leftarrow> getFunction M ''_stub_target_call'';
       TargetCall \<leftarrow> first_use uses M (FunctionV TargetStub);
       M \<leftarrow> replaceStubCall uses TargetCall (ftype T) FnArgs M;
       Some (NewSpawnFn, M)
     }"

subsection \<open>The calls of the target\<close>

text \<open>
  The loop over the uses of the target. Its body puts the use by the new cast in front of the
  list, behind the iterator, and erases the call that holds the current use, so advancing from it
  reads the memory of a use that has been deleted. \<open>intact u\<close> says whether the link to the next
  use can still be read in what was the memory of the call \<open>u\<close>; if not, the behaviour is undefined
  (\<open>None\<close>).
\<close>

primrec replace_calls ::
  "(nat \<Rightarrow> bool) \<Rightarrow> nat \<Rightarrow> nat \<Rightarrow> ir_type \<Rightarrow> ir_value \<Rightarrow> nat list \<Rightarrow> ir_module \<Rightarrow> ir_module option" where
  "replace_calls intact Target SpawnFn GenericFnTy TargetName [] M = Some M"
| "replace_calls intact Target SpawnFn GenericFnTy TargetName (u # us) M =
     (case call_of M u of
        None \<Rightarrow> replace_calls intact Target SpawnFn GenericFnTy TargetName us M
      | Some (c, as) \<Rightarrow>
          do {
            (TargetCasted, M) \<leftarrow> new_bitcast (FunctionV Target) GenericFnTy u M;
            (Replaced, M) \<leftarrow> new_call (FunctionV SpawnFn) ([TargetCasted, TargetName] @ as) [] u M;
            M \<leftarrow> replaceAllUsesWith (InstV u) Replaced M;
            M \<leftarrow> eraseFromParent u M;
            if intact u then replace_calls intact Target SpawnFn GenericFnTy TargetName us M else None
          })"

definition erase_function :: "nat \<Rightarrow> ir_module \<Rightarrow> ir_module option" where
  "erase_function f M =
     (if users M (FunctionV f) = [] then Some (M\<lparr>funcs := filter (\<lambda>(i, F). i \<noteq> f) (funcs M)\<rparr>) else None)"

text \<open>The global string with the target's name.\<close>

definition name_global :: "string \<Rightarrow> ir_module \<Rightarrow> ir_value \<times> ir_module" where
  "name_global n M =
     (let StrTy = ArrayTy (length n + 1) (IntegerTy 8);
          GV = \<lparr>gname = ''server.fn-name'', gtype = StrTy, gconst = True, glinkage = ''private'',
            ginit = Some (ConstantV StrTy n)\<rparr>
      in (ElementPtr StrTy (GlobalV (fresh M)) [0, 0],
          M\<lparr>globs := globs M @ [(fresh M, GV)], fresh := fresh M + 1\<rparr>))"

definition createServer :: "(nat \<Rightarrow> bool) \<Rightarrow> use_lists \<Rightarrow> string \<Rightarrow> ir_module \<Rightarrow> ir_module option" where
  "createServer intact uses FunctionToRun M =
     do {
       Target \<leftarrow> getFunction M FunctionToRun;
       OrigSpawnImpl \<leftarrow> getFunction M ''spawn_impl'';
       (SpawnImpl, M) \<leftarrow> fixSpawnImpl uses OrigSpawnImpl Target M;
       let M = upd_func OrigSpawnImpl (\<lambda>F. F\<lparr>vtype := type_of M (FunctionV SpawnImpl)\<rparr>) M;
       M \<leftarrow> replaceAllUsesWith (FunctionV OrigSpawnImpl) (FunctionV SpawnImpl) M;
       M \<leftarrow> erase_function OrigSpawnImpl M;
       Wrapper \<leftarrow> getFunction M ''_server_spawn_worker'';
       (SpawnFn, M) \<leftarrow> fixSpawnWrapper uses Wrapper Target M;
       let (TargetName, M) = name_global FunctionToRun M;
       S \<leftarrow> map_of (funcs M) SpawnFn;
       GenericFnTy \<leftarrow> (case getParams (ftype S) of [] \<Rightarrow> None | t # _ \<Rightarrow> Some t);
       replace_calls intact Target SpawnFn GenericFnTy TargetName (uses M (FunctionV Target)) M
     }"

text \<open>What \<open>main\<close> does with the module it reads.\<close>

definition create_server_main ::
  "(nat \<Rightarrow> bool) \<Rightarrow> use_lists \<Rightarrow> (string \<Rightarrow> bool) \<Rightarrow> string \<Rightarrow> ir_module \<Rightarrow> ir_module option" where
  "create_server_main intact uses getArch FunctionToRun M =
     do { M \<leftarrow> emitGetTopOfStack getArch M; createServer intact uses FunctionToRun M }"

end
