(* ===== verification/ServerTypes.thy ===== *)
theory ServerTypes
  imports CreateServer "HOL-Library.Multiset"
begin

text \<open>
  The types of the server that \<open>createServer\<close> makes: every change of the module keeps the
  instructions well typed, the template functions become functions of the target's type, and
  every direct call of the target becomes a call of the spawn function.
\<close>

subsection \<open>Blocks and instructions\<close>

definition code_blocks :: "ir_module \<Rightarrow> ir_instr list list" where
  "code_blocks M = concat (map (\<lambda>(i, F). blocks F) (funcs M))"

definition uses_in :: "ir_value \<Rightarrow> ir_instr \<Rightarrow> nat list" where
  "uses_in v I = map (\<lambda>_. iref I) (filter (\<lambda>x. x = v) (operands (iop I)))"

text \<open>The functions without their code and the names of their parameters.\<close>

definition signature_of :: "ir_func \<Rightarrow> ir_func" where
  "signature_of F = F\<lparr>blocks := [], params := map (\<lambda>(n, t). ([], t)) (params F)\<rparr>"

definition signatures :: "ir_module \<Rightarrow> (nat \<times> ir_func) list" where
  "signatures M = map (\<lambda>(i, F). (i, signature_of F)) (funcs M)"

lemma signature_fields [simp]:
  "fname (signature_of F) = fname F" "ftype (signature_of F) = ftype F" "vtype (signature_of F) = vtype F"
  "length (params (signature_of F)) = length (params F)" "map snd (params (signature_of F)) = map snd (params F)"
  "i < length (params F) \<Longrightarrow> snd (params (signature_of F) ! i) = snd (params F ! i)"
  "signature_of (F\<lparr>blocks := bs\<rparr>) = signature_of F"
  by (simp_all add: signature_of_def comp_def case_prod_beta)

lemma instrs_blocks: "instrs M = concat (code_blocks M)"
  by (simp add: instrs_def code_blocks_def)

lemma users_instrs: "users M v = concat (map (uses_in v) (instrs M))"
  by (simp add: users_def uses_in_def [abs_def])

lemma code_blocks_map [simp]: "code_blocks (map_blocks g M) = map g (code_blocks M)"
  by (simp add: code_blocks_def map_blocks_def map_concat comp_def case_prod_beta)

lemma map_blocks_fields [simp]:
  "globs (map_blocks g M) = globs M" "triple (map_blocks g M) = triple M" "fresh (map_blocks g M) = fresh M"
  by (simp_all add: map_blocks_def)

lemma signatures_map [simp]: "signatures (map_blocks g M) = signatures M"
  by (simp add: signatures_def map_blocks_def comp_def case_prod_beta)

lemma module_fresh [simp]:
  "code_blocks (M\<lparr>fresh := n\<rparr>) = code_blocks M" "signatures (M\<lparr>fresh := n\<rparr>) = signatures M"
  "code_blocks (M\<lparr>globs := gs\<rparr>) = code_blocks M" "signatures (M\<lparr>globs := gs\<rparr>) = signatures M"
  by (simp_all add: code_blocks_def signatures_def)

lemma concat_map_concat: "concat (map (\<lambda>b. concat (map h b)) bs) = concat (map h (concat bs))"
  by (induction bs) auto

lemma map_of_signatures: "map_of (signatures M) f = map_option signature_of (map_of (funcs M) f)"
  unfolding signatures_def by (simp add: map_of_map)

lemma getFunction_signatures: "getFunction M n = map_option fst (find (\<lambda>(i, F). fname F = n) (signatures M))"
proof -
  have "map_option fst (find (\<lambda>(i, F). fname F = n) fs) =
    map_option fst (find (\<lambda>(i, F). fname F = n) (map (\<lambda>(i, F). (i, signature_of F)) fs))" for fs
    by (induction fs) auto
  then show ?thesis by (simp add: getFunction_def signatures_def)
qed

text \<open>The type of a value, from the signatures, the globals and the instructions.\<close>

fun type_in :: "(nat \<times> ir_func) list \<Rightarrow> (nat \<times> ir_global) list \<Rightarrow> (nat \<Rightarrow> ir_type option) \<Rightarrow> ir_value \<Rightarrow> ir_type" where
  "type_in fs gs is (FunctionV f) = (case map_of fs f of Some F \<Rightarrow> vtype F | None \<Rightarrow> VoidTy)"
| "type_in fs gs is (GlobalV g) = (case map_of gs g of Some G \<Rightarrow> PointerTo (gtype G) | None \<Rightarrow> VoidTy)"
| "type_in fs gs is (ArgumentV f i) =
     (case map_of fs f of Some F \<Rightarrow> if i < length (params F) then snd (params F ! i) else VoidTy | None \<Rightarrow> VoidTy)"
| "type_in fs gs is (InstV i) = (case is i of Some t \<Rightarrow> t | None \<Rightarrow> VoidTy)"
| "type_in fs gs is (ConstantV t c) = t"
| "type_in fs gs is (ElementPtr t p idx) = (case t of ArrayTy n e \<Rightarrow> PointerTo e | _ \<Rightarrow> VoidTy)"
| "type_in fs gs is (InlineAsm t code constraints) = PointerTo t"

definition inst_types :: "ir_module \<Rightarrow> nat \<Rightarrow> ir_type option" where
  "inst_types M i = map_option itype (find_instr M i)"

lemma type_of_in: "type_of M v = type_in (signatures M) (globs M) (inst_types M) v"
  by (cases v) (auto simp: map_of_signatures inst_types_def split: option.splits)

declare type_of.simps(1,3,4) [simp del]

subsection \<open>Well-formed modules\<close>

text \<open>The instructions with the result type of their function.\<close>

definition located :: "ir_module \<Rightarrow> (ir_type \<times> ir_instr) list" where
  "located M = concat (map (\<lambda>(i, F). map (Pair (getReturnType (ftype F))) (concat (blocks F))) (funcs M))"

fun below :: "nat \<Rightarrow> ir_value \<Rightarrow> bool" where
  "below n (FunctionV f) \<longleftrightarrow> f < n"
| "below n (GlobalV g) \<longleftrightarrow> g < n"
| "below n (ArgumentV f i) \<longleftrightarrow> f < n"
| "below n (InstV i) \<longleftrightarrow> i < n"
| "below n (ConstantV t c) \<longleftrightarrow> True"
| "below n (ElementPtr t p idx) \<longleftrightarrow> below n p"
| "below n (InlineAsm t code constraints) \<longleftrightarrow> True"

definition ir_wf :: "ir_module \<Rightarrow> bool" where
  "ir_wf M \<longleftrightarrow> distinct (map iref (instrs M)) \<and>
     (\<forall>I \<in> set (instrs M). iref I < fresh M \<and> (\<forall>v \<in> set (operands (iop I)). below (fresh M) v)) \<and>
     distinct (map fst (signatures M)) \<and> distinct (filter (\<lambda>n. n \<noteq> []) (map (fname \<circ> snd) (signatures M))) \<and>
     (\<forall>x \<in> set (signatures M). fst x < fresh M) \<and> (\<forall>x \<in> set (globs M). fst x < fresh M)"

text \<open>An instruction is well typed, by the types of its operands and its function's result.\<close>

fun op_ok :: "(ir_value \<Rightarrow> ir_type) \<Rightarrow> ir_type \<Rightarrow> ir_type \<Rightarrow> ir_op \<Rightarrow> bool" where
  "op_ok ty R t (CallInst c as) \<longleftrightarrow> callable (ty c) (map ty as) \<and> t = called_result (ty c)"
| "op_ok ty R t (BitCastInst v) \<longleftrightarrow> is_pointer (ty v) \<and> is_pointer t"
| "op_ok ty R t (StoreInst v p) \<longleftrightarrow> ty p = PointerTo (ty v)"
| "op_ok ty R t (ReturnInst None) \<longleftrightarrow> R = VoidTy"
| "op_ok ty R t (ReturnInst (Some v)) \<longleftrightarrow> ty v = R \<and> R \<noteq> VoidTy"
| "op_ok ty R t (OtherInst n vs) \<longleftrightarrow> True"

definition typed_but :: "nat set \<Rightarrow> ir_module \<Rightarrow> bool" where
  "typed_but X M \<longleftrightarrow> (\<forall>(R, I) \<in> set (located M). iref I \<notin> X \<longrightarrow> op_ok (type_of M) R (itype I) (iop I))"

text \<open>A well-formed module whose instructions outside \<open>X\<close> are well typed.\<close>

definition ir_ok :: "nat set \<Rightarrow> ir_module \<Rightarrow> bool" where
  "ir_ok X M \<longleftrightarrow> ir_wf M \<and> typed_but X M"

lemma concat_blocks: "concat (map (\<lambda>x. concat (f x)) xs) = concat (concat (map f xs))"
  by (induction xs) auto

lemma located_instrs: "map snd (located M) = instrs M"
  by (simp add: located_def instrs_def map_concat comp_def case_prod_unfold concat_blocks)

lemma located_in: "(R, I) \<in> set (located M) \<Longrightarrow> I \<in> set (instrs M)"
  by (force simp flip: located_instrs)

lemma in_located: "I \<in> set (instrs M) \<Longrightarrow> \<exists>R. (R, I) \<in> set (located M)"
  by (force simp flip: located_instrs)

lemma located_map: "located (map_blocks (\<lambda>b. concat (map h b)) M) = concat (map (\<lambda>(R, I). map (Pair R) (h I)) (located M))"
proof -
  have b: "map (Pair R) (concat (map (\<lambda>b. concat (map h b)) bs)) = concat (map (\<lambda>(R, I). map (Pair R) (h I)) (map (Pair R) (concat bs)))"
    for R bs by (induction bs) (simp_all add: map_concat comp_def)
  have "concat (map (\<lambda>(i, F). map (Pair (getReturnType (ftype F))) (concat (map (\<lambda>b. concat (map h b)) (blocks F)))) fs) =
    concat (map (\<lambda>(R, I). map (Pair R) (h I)) (concat (map (\<lambda>(i, F). map (Pair (getReturnType (ftype F))) (concat (blocks F))) fs)))" for fs
    by (induction fs) (auto simp: b)
  from this [of "funcs M"] show ?thesis by (simp add: located_def map_blocks_def comp_def case_prod_unfold)
qed

lemma find_instr_iff:
  assumes "ir_wf M"
  shows "find_instr M i = Some I \<longleftrightarrow> I \<in> set (instrs M) \<and> iref I = i"
proof -
  have "find (\<lambda>I. iref I = i) Is = Some I \<longleftrightarrow> I \<in> set Is \<and> iref I = i" if "distinct (map iref Is)" for Is
    using that by (induction Is) (auto simp: image_iff)
  then show ?thesis using assms by (simp add: ir_wf_def find_instr_def)
qed

lemma find_instr_None: "find_instr M i = None \<longleftrightarrow> i \<notin> iref ` set (instrs M)"
  unfolding find_instr_def by (auto simp: find_None_iff)

lemma op_ok_cong: "\<forall>v \<in> set (operands op). ty v = ty' v \<Longrightarrow> op_ok ty R t op = op_ok ty' R t op"
proof (cases op)
  case (CallInst c as)
  assume "\<forall>v \<in> set (operands op). ty v = ty' v"
  then have "map ty as = map ty' as" "ty c = ty' c" using CallInst by auto
  then show ?thesis using CallInst by (simp only: op_ok.simps)
next
  case (ReturnInst x)
  then show "\<forall>v \<in> set (operands op). ty v = ty' v \<Longrightarrow> ?thesis" by (cases x) auto
qed auto

lemma op_ok_subst: "ty v = ty w \<Longrightarrow> op_ok ty R t (subst_op v w op) = op_ok ty R t op"
proof (cases op)
  case (CallInst c as)
  assume "ty v = ty w"
  then have "ty (if x = v then w else x) = ty x" for x by simp
  then have "map ty (map (\<lambda>x. if x = v then w else x) as) = map ty as" "ty (if c = v then w else c) = ty c" by auto
  then show ?thesis using CallInst by (simp only: subst_op.simps op_ok.simps)
next
  case (ReturnInst x)
  then show "ty v = ty w \<Longrightarrow> ?thesis" by (cases x) auto
qed auto

subsection \<open>Inserting an instruction\<close>

abbreviation new_inst :: "ir_module \<Rightarrow> string \<Rightarrow> ir_type \<Rightarrow> ir_op \<Rightarrow> ir_instr" where
  "new_inst M n t op \<equiv> \<lparr>iref = fresh M, iname = n, itype = t, iop = op\<rparr>"

lemma insert_instrs:
  assumes "insert_before_inst i n t op M = (v, M')"
  shows "v = InstV (fresh M)" "fresh M' = Suc (fresh M)" "signatures M' = signatures M" "globs M' = globs M"
    "instrs M' = concat (map (\<lambda>J. if iref J = i then [new_inst M n t op, J] else [J]) (instrs M))"
    "located M' = concat (map (\<lambda>(R, J). map (Pair R) (if iref J = i then [new_inst M n t op, J] else [J])) (located M))"
proof -
  have M': "v = InstV (fresh M)"
    "M' = map_blocks (\<lambda>b. concat (map (\<lambda>J. if iref J = i then [new_inst M n t op, J] else [J]) b)) (M\<lparr>fresh := Suc (fresh M)\<rparr>)"
    using assms by (simp_all add: insert_before_inst_def Let_def)
  have l: "located (M\<lparr>fresh := k\<rparr>) = located M" for k by (simp add: located_def)
  show "v = InstV (fresh M)" "fresh M' = Suc (fresh M)" "signatures M' = signatures M" "globs M' = globs M"
    using M' by simp_all
  show "instrs M' = concat (map (\<lambda>J. if iref J = i then [new_inst M n t op, J] else [J]) (instrs M))"
    unfolding M'(2) instrs_blocks by (simp add: concat_map_concat)
  show "located M' = concat (map (\<lambda>(R, J). map (Pair R) (if iref J = i then [new_inst M n t op, J] else [J])) (located M))"
    unfolding M'(2) located_map l ..
qed

lemma set_inserted: "set (concat (map (\<lambda>J. if P J then [I, J] else [J]) Js)) = set Js \<union> (if \<exists>J \<in> set Js. P J then {I} else {})"
  by (induction Js) auto

lemma distinct_inserted:
  "distinct (map iref Js) \<Longrightarrow> iref I \<notin> iref ` set Js \<Longrightarrow>
    distinct (map iref (concat (map (\<lambda>J. if iref J = i then [I, J] else [J]) Js)))"
proof (induction Js)
  case (Cons J Js)
  have "iref ` set (concat (map (\<lambda>J. if iref J = i then [I, J] else [J]) Js)) \<subseteq> insert (iref I) (iref ` set Js)"
    by (auto simp: set_inserted)
  moreover have "i \<notin> iref ` set Js \<Longrightarrow> concat (map (\<lambda>J. if iref J = i then [I, J] else [J]) Js) = Js" for i
    by (induction Js) auto
  ultimately show ?case using Cons by (cases "iref J = i") auto
qed simp

lemma below_mono: "below n v \<Longrightarrow> n \<le> k \<Longrightarrow> below k v"
  by (induction v) auto

lemma ir_wfD:
  assumes "ir_wf M"
  shows "distinct (map iref (instrs M))" "I \<in> set (instrs M) \<Longrightarrow> iref I < fresh M"
    "I \<in> set (instrs M) \<Longrightarrow> v \<in> set (operands (iop I)) \<Longrightarrow> below (fresh M) v"
    "distinct (map fst (signatures M))" "x \<in> set (signatures M) \<Longrightarrow> fst x < fresh M" "y \<in> set (globs M) \<Longrightarrow> fst y < fresh M"
    "distinct (filter (\<lambda>n. n \<noteq> []) (map (fname \<circ> snd) (signatures M)))"
  using assms by (auto simp: ir_wf_def)

lemma insert_wf:
  assumes wf: "ir_wf M" and i: "find_instr M i = Some J" and ops: "\<forall>v \<in> set (operands op). below (fresh M) v"
    and ins: "insert_before_inst i n t op M = (v, M')"
  shows "ir_wf M'" "set (instrs M') = insert (new_inst M n t op) (set (instrs M))"
    "find_instr M' j = (if j = fresh M then Some (new_inst M n t op) else find_instr M j)"
    "type_of M' w = (if w = InstV (fresh M) then t else type_of M w)"
proof -
  note I = insert_instrs [OF ins] and W = ir_wfD [OF wf]
  have J: "J \<in> set (instrs M)" "iref J = i" using i find_instr_iff [OF wf] by auto
  show set: "set (instrs M') = insert (new_inst M n t op) (set (instrs M))"
    unfolding I(5) set_inserted using J by auto
  have "distinct (map iref (instrs M'))"
    unfolding I(5) by (rule distinct_inserted [OF W(1)]) (auto dest: W(2))
  moreover have "iref K < fresh M' \<and> (\<forall>v \<in> set (operands (iop K)). below (fresh M') v)" if "K \<in> set (instrs M')" for K
    using that ops W(2,3) I(2) below_mono [of "fresh M" _ "Suc (fresh M)"] unfolding set by (fastforce intro: less_SucI)
  ultimately show wf': "ir_wf M'"
    unfolding ir_wf_def using W(4-7) I(2-4) by (auto intro: less_SucI)
  show f: "find_instr M' j = (if j = fresh M then Some (new_inst M n t op) else find_instr M j)" for j
  proof (cases "j = fresh M")
    case False
    then have "find_instr M' j = Some K \<longleftrightarrow> find_instr M j = Some K" for K
      using set by (auto simp: find_instr_iff [OF wf] find_instr_iff [OF wf'])
    then show ?thesis using False by (metis option.exhaust)
  qed (use set in \<open>simp add: find_instr_iff [OF wf']\<close>)
  show "type_of M' w = (if w = InstV (fresh M) then t else type_of M w)"
    unfolding type_of_in by (cases w) (auto simp: I(3,4) inst_types_def f)
qed

lemma insert_users:
  assumes "insert_before_inst i n t op M = (v, M')" "w \<notin> set (operands op)"
  shows "users M' w = users M w"
proof -
  have u: "uses_in w (new_inst M n t op) = []" using assms(2) by (auto simp: uses_in_def filter_empty_conv)
  have "concat (map (uses_in w) (concat (map (\<lambda>J. if iref J = i then [new_inst M n t op, J] else [J]) Js))) =
    concat (map (uses_in w) Js)" for Js by (induction Js) (simp_all add: u)
  then show ?thesis unfolding users_instrs insert_instrs(5) [OF assms(1)] .
qed

lemma insert_ok:
  assumes ok: "ir_ok X M" and i: "find_instr M i = Some J" and ops: "\<forall>v \<in> set (operands op). below (fresh M) v"
    and ty: "\<forall>R. op_ok (type_of M) R t op" and ins: "insert_before_inst i n t op M = (v, M')"
  shows "ir_ok X M'"
proof -
  have wf: "ir_wf M" and T: "typed_but X M" using ok by (auto simp: ir_ok_def)
  note W = insert_wf [OF wf i ops ins]
  have new: "set (located M') \<subseteq> set (located M) \<union> UNIV \<times> {new_inst M n t op}"
    unfolding insert_instrs(6) [OF ins] by auto
  have same: "\<forall>v \<in> set vs. type_of M' v = type_of M v" if "\<forall>v \<in> set vs. below (fresh M) v" for vs
    using that W(4) by auto
  have "op_ok (type_of M') R (itype I) (iop I)" if I: "(R, I) \<in> set (located M')" "iref I \<notin> X" for R I
  proof (cases "I = new_inst M n t op")
    case True
    then show ?thesis using ty op_ok_cong [OF same [OF ops]] by simp
  next
    case False
    then have l: "(R, I) \<in> set (located M)" using I new by auto
    then have "\<forall>v \<in> set (operands (iop I)). below (fresh M) v" using ir_wfD(3) [OF wf] located_in by blast
    then show ?thesis using op_ok_cong [OF same] l I(2) T by (auto simp: typed_but_def)
  qed
  then show ?thesis using W(1) by (auto simp: ir_ok_def typed_but_def)
qed

subsection \<open>Erasing an instruction\<close>

lemma erase_instrs:
  assumes "eraseFromParent i M = Some M'"
  shows "users M (InstV i) = []" "fresh M' = fresh M" "signatures M' = signatures M" "globs M' = globs M"
    "instrs M' = filter (\<lambda>I. iref I \<noteq> i) (instrs M)" "located M' = filter (\<lambda>(R, I). iref I \<noteq> i) (located M)"
proof -
  have M': "users M (InstV i) = []" "M' = map_blocks (filter (\<lambda>I. iref I \<noteq> i)) M"
    using assms by (simp_all add: eraseFromParent_def split: if_splits)
  have f: "filter (\<lambda>I. iref I \<noteq> i) = (\<lambda>b. concat (map (\<lambda>I. if iref I \<noteq> i then [I] else []) b))"
    by (rule ext, induct_tac b) auto
  show "users M (InstV i) = []" "fresh M' = fresh M" "signatures M' = signatures M" "globs M' = globs M"
    using M' by simp_all
  show "instrs M' = filter (\<lambda>I. iref I \<noteq> i) (instrs M)"
    unfolding M'(2) instrs_blocks by (simp add: filter_concat)
  have "concat (map (\<lambda>(R, I). map (Pair R) (if iref I \<noteq> i then [I] else [])) xs) = filter (\<lambda>(R, I). iref I \<noteq> i) xs"
    for xs :: "(ir_type \<times> ir_instr) list" by (induction xs) auto
  then show "located M' = filter (\<lambda>(R, I). iref I \<noteq> i) (located M)"
    unfolding M'(2) f located_map by simp
qed

lemma erase_wf:
  assumes wf: "ir_wf M" and er: "eraseFromParent i M = Some M'"
  shows "ir_wf M'" "find_instr M' j = (if j = i then None else find_instr M j)"
    "type_of M' w = (if w = InstV i then VoidTy else type_of M w)" "users M' w = filter (\<lambda>j. j \<noteq> i) (users M w)"
proof -
  note E = erase_instrs [OF er] and W = ir_wfD [OF wf]
  have "distinct (map iref (instrs M'))" unfolding E(5) using W(1) by (simp add: distinct_map_filter)
  then show wf': "ir_wf M'" using wf E(2-5) unfolding ir_wf_def by auto
  show f: "find_instr M' j = (if j = i then None else find_instr M j)" for j
  proof (cases "j = i")
    case False
    then have "find_instr M' j = Some K \<longleftrightarrow> find_instr M j = Some K" for K
      using E(5) by (auto simp: find_instr_iff [OF wf] find_instr_iff [OF wf'])
    then show ?thesis using False by (metis option.exhaust)
  qed (auto simp: find_instr_None E(5))
  show "type_of M' w = (if w = InstV i then VoidTy else type_of M w)"
    unfolding type_of_in by (cases w) (auto simp: E(3,4) inst_types_def f)
  have "concat (map (uses_in w) (filter (\<lambda>I. iref I \<noteq> i) Is)) = filter (\<lambda>j. j \<noteq> i) (concat (map (uses_in w) Is))" for Is
    by (induction Is) (auto simp: uses_in_def filter_empty_conv intro!: filter_True [symmetric])
  then show "users M' w = filter (\<lambda>j. j \<noteq> i) (users M w)" unfolding users_instrs E(5) .
qed

text \<open>The users of a value are the instructions with the value among their operands.\<close>

lemma users_iff: "j \<in> set (users M v) \<longleftrightarrow> (\<exists>I \<in> set (instrs M). iref I = j \<and> v \<in> set (operands (iop I)))"
  by (auto simp: users_instrs uses_in_def)

lemma users_find:
  assumes "ir_wf M"
  shows "j \<in> set (users M v) \<longleftrightarrow> (\<exists>I. find_instr M j = Some I \<and> v \<in> set (operands (iop I)))"
  using find_instr_iff [OF assms] users_iff by auto

lemma erase_ok:
  assumes ok: "ir_ok X M" and er: "eraseFromParent i M = Some M'"
  shows "ir_ok (X - {i}) M'"
proof -
  have wf: "ir_wf M" and T: "typed_but X M" using ok by (auto simp: ir_ok_def)
  note E = erase_instrs [OF er] and W = erase_wf [OF wf er]
  have "op_ok (type_of M') R (itype I) (iop I)" if I: "(R, I) \<in> set (located M')" "iref I \<notin> X - {i}" for R I
  proof -
    have l: "(R, I) \<in> set (located M)" "iref I \<noteq> i" using I(1) E(6) by auto
    have "iref I \<notin> set (users M (InstV i))" using E(1) by simp
    then have "InstV i \<notin> set (operands (iop I))" unfolding users_iff using located_in [OF l(1)] by blast
    then have "\<forall>v \<in> set (operands (iop I)). type_of M' v = type_of M v" using W(3) by auto
    then show ?thesis using op_ok_cong T l I(2) by (fastforce simp: typed_but_def)
  qed
  then show ?thesis using W(1) by (auto simp: ir_ok_def typed_but_def)
qed

subsection \<open>Replacing a value\<close>

abbreviation subst_inst :: "ir_value \<Rightarrow> ir_value \<Rightarrow> ir_instr \<Rightarrow> ir_instr" where
  "subst_inst v w I \<equiv> I\<lparr>iop := subst_op v w (iop I)\<rparr>"

lemma operands_subst: "operands (subst_op v w op) = map (\<lambda>x. if x = v then w else x) (operands op)"
  by (cases op) (auto split: option.splits)

lemma replace_instrs:
  assumes "replaceAllUsesWith v w M = Some M'"
  shows "type_of M v = type_of M w" "fresh M' = fresh M" "signatures M' = signatures M" "globs M' = globs M"
    "instrs M' = map (subst_inst v w) (instrs M)" "located M' = map (\<lambda>(R, I). (R, subst_inst v w I)) (located M)"
proof -
  have M': "type_of M v = type_of M w" "M' = map_blocks (map (subst_inst v w)) M"
    using assms by (simp_all add: replaceAllUsesWith_def split: if_splits)
  have f: "map (subst_inst v w) = (\<lambda>b. concat (map (\<lambda>I. [subst_inst v w I]) b))"
    by (rule ext, induct_tac b) auto
  show "type_of M v = type_of M w" "fresh M' = fresh M" "signatures M' = signatures M" "globs M' = globs M"
    using M' by simp_all
  show "instrs M' = map (subst_inst v w) (instrs M)"
    unfolding M'(2) instrs_blocks by (simp add: map_concat)
  have "concat (map (\<lambda>(R, I). map (Pair R) [subst_inst v w I]) xs) = map (\<lambda>(R, I). (R, subst_inst v w I)) xs"
    for xs :: "(ir_type \<times> ir_instr) list" by (induction xs) auto
  then show "located M' = map (\<lambda>(R, I). (R, subst_inst v w I)) (located M)"
    unfolding M'(2) f located_map by simp
qed

lemma replace_wf:
  assumes wf: "ir_wf M" and b: "below (fresh M) w" and re: "replaceAllUsesWith v w M = Some M'"
  shows "ir_wf M'" "find_instr M' j = map_option (subst_inst v w) (find_instr M j)" "type_of M' x = type_of M x"
    "x \<noteq> v \<Longrightarrow> x \<noteq> w \<Longrightarrow> users M' x = users M x" "v \<noteq> w \<Longrightarrow> users M' v = []"
    "users M w = [] \<Longrightarrow> users M' w = users M v"
proof -
  note R = replace_instrs [OF re] and W = ir_wfD [OF wf]
  have ids: "map iref (instrs M') = map iref (instrs M)" by (simp add: R(5))
  have "iref K < fresh M' \<and> (\<forall>v \<in> set (operands (iop K)). below (fresh M') v)" if "K \<in> set (instrs M')" for K
    using that W(2,3) R(2) b by (auto simp: R(5) operands_subst)
  then show wf': "ir_wf M'" unfolding ir_wf_def ids using W(1,4-7) R(2-4) by auto
  have "find (\<lambda>I. iref I = j) (map (subst_inst v w) Is) = map_option (subst_inst v w) (find (\<lambda>I. iref I = j) Is)" for j Is
    by (induction Is) auto
  then show f: "find_instr M' j = map_option (subst_inst v w) (find_instr M j)" for j
    unfolding find_instr_def R(5) by simp
  show "type_of M' x = type_of M x"
    unfolding type_of_in by (cases x) (auto simp: R(3,4) inst_types_def f option.map_comp comp_def)
  have u: "uses_in x (subst_inst v w I) = map (\<lambda>_. iref I) (filter (\<lambda>y. (if y = v then w else y) = x) (operands (iop I)))" for x I
    by (simp add: uses_in_def operands_subst filter_map comp_def)
  show "users M' x = users M x" if "x \<noteq> v" "x \<noteq> w"
  proof -
    have "uses_in x (subst_inst v w I) = uses_in x I" for I
      unfolding u using that by (auto simp: uses_in_def intro!: arg_cong [of _ _ "map (\<lambda>_. iref I)"] filter_cong)
    then show ?thesis by (simp add: users_instrs R(5) comp_def)
  qed
  show "users M' v = []" if "v \<noteq> w"
  proof -
    have "uses_in v (subst_inst v w I) = []" for I unfolding u using that by (auto simp: filter_empty_conv)
    then show ?thesis by (simp add: users_instrs R(5) comp_def)
  qed
  show "users M' w = users M v" if "users M w = []"
  proof -
    have "uses_in w (subst_inst v w I) = uses_in v I" if I: "I \<in> set (instrs M)" for I
    proof -
      have "w \<notin> set (operands (iop I))" using \<open>users M w = []\<close> users_iff [of "iref I" M w] I by auto
      then show ?thesis unfolding u by (auto simp: uses_in_def intro!: arg_cong [of _ _ "map (\<lambda>_. iref I)"] filter_cong)
    qed
    then show ?thesis by (simp add: users_instrs R(5) comp_def cong: map_cong)
  qed
qed

lemma replace_ok:
  assumes ok: "ir_ok X M" and b: "below (fresh M) w" and re: "replaceAllUsesWith v w M = Some M'"
  shows "ir_ok X M'"
proof -
  have wf: "ir_wf M" and T: "typed_but X M" using ok by (auto simp: ir_ok_def)
  note R = replace_instrs [OF re] and W = replace_wf [OF wf b re]
  have "type_of M' = type_of M" using W(3) by blast
  then have "typed_but X M'" using T op_ok_subst [of "type_of M" v w] R(1) by (auto simp: typed_but_def R(6))
  then show ?thesis using W(1) by (simp add: ir_ok_def)
qed

subsection \<open>Functions and their code\<close>

abbreviation sig :: "ir_module \<Rightarrow> nat \<Rightarrow> ir_func option" where
  "sig M \<equiv> map_of (signatures M)"

definition code_of :: "ir_module \<Rightarrow> nat \<Rightarrow> ir_instr list" where
  "code_of M f = (case map_of (funcs M) f of Some F \<Rightarrow> concat (blocks F) | None \<Rightarrow> [])"

lemma sig_Some: "sig M f = Some S \<longleftrightarrow> (\<exists>F. map_of (funcs M) f = Some F \<and> S = signature_of F)"
  by (auto simp: map_of_signatures)

lemma fst_signatures: "map fst (signatures M) = map fst (funcs M)"
  by (simp add: signatures_def comp_def case_prod_unfold)

lemma funcs_iff:
  assumes "ir_wf M"
  shows "(f, F) \<in> set (funcs M) \<longleftrightarrow> map_of (funcs M) f = Some F"
  using ir_wfD(4) [OF assms] unfolding fst_signatures by (auto dest: map_of_SomeD)

lemma located_iff:
  assumes "ir_wf M"
  shows "(R, I) \<in> set (located M) \<longleftrightarrow> (\<exists>f S. sig M f = Some S \<and> I \<in> set (code_of M f) \<and> R = getReturnType (ftype S))"
proof -
  have "(R, I) \<in> set (located M) \<longleftrightarrow> (\<exists>f F. (f, F) \<in> set (funcs M) \<and> I \<in> set (concat (blocks F)) \<and> R = getReturnType (ftype F))"
    by (fastforce simp: located_def)
  then show ?thesis unfolding funcs_iff [OF assms] by (force simp: sig_Some code_of_def)
qed

lemma code_in_instrs: "I \<in> set (code_of M f) \<Longrightarrow> I \<in> set (instrs M)"
proof -
  assume "I \<in> set (code_of M f)"
  then obtain F where F: "map_of (funcs M) f = Some F" "I \<in> set (concat (blocks F))"
    by (cases "map_of (funcs M) f") (auto simp: code_of_def)
  then show ?thesis using map_of_SomeD [OF F(1)] unfolding instrs_def by fastforce
qed

lemma getFunction_iff:
  assumes wf: "ir_wf M" and n: "n \<noteq> []"
  shows "getFunction M n = Some f \<longleftrightarrow> (\<exists>S. sig M f = Some S \<and> fname S = n)"
proof -
  have "map_option fst (find (\<lambda>(i, F). fname F = n) fs) = Some f \<longleftrightarrow> (\<exists>S. map_of fs f = Some S \<and> fname S = n)"
    if "distinct (map fst fs)" "distinct (filter (\<lambda>n. n \<noteq> []) (map (fname \<circ> snd) fs))" for fs :: "(nat \<times> ir_func) list"
    using that
  proof (induction fs)
    case (Cons x fs)
    have u: "\<not> (fname (snd x) = n \<and> (\<exists>S. map_of fs f = Some S \<and> fname S = n))"
    proof
      assume a: "fname (snd x) = n \<and> (\<exists>S. map_of fs f = Some S \<and> fname S = n)"
      then obtain S where "(f, S) \<in> set fs" "fname S = n" by (auto dest: map_of_SomeD)
      then have "n \<in> fname ` snd ` set fs" by force
      then show False using Cons.prems(2) n a by (auto simp: image_comp)
    qed
    have d: "fst x = f \<Longrightarrow> map_of fs f = None" using Cons.prems(1) by (auto simp: map_of_eq_None_iff)
    have "distinct (map fst fs)" "distinct (filter (\<lambda>n. n \<noteq> []) (map (fname \<circ> snd) fs))"
      using Cons.prems by (simp_all add: comp_def split: if_splits)
    note IH = Cons.IH [OF this]
    obtain g G where x: "x = (g, G)" by (cases x)
    show ?case
    proof (cases "fname G = n")
      case True
      then show ?thesis using u d x by auto
    next
      case False
      then show ?thesis using IH d x by auto
    qed
  qed simp
  then show ?thesis unfolding getFunction_signatures using ir_wfD(4,7) [OF wf] by blast
qed

lemma code_of_map: "code_of (map_blocks (\<lambda>b. concat (map h b)) M) f = concat (map h (code_of M f))"
proof -
  have "map_of (map (\<lambda>(i, F). (i, F\<lparr>blocks := map g (blocks F)\<rparr>)) fs) f = map_option (\<lambda>F. F\<lparr>blocks := map g (blocks F)\<rparr>) (map_of fs f)"
    for g and fs :: "(nat \<times> ir_func) list" by (simp add: map_of_map)
  then show ?thesis
    unfolding code_of_def map_blocks_def by (auto simp: concat_map_concat split: option.splits)
qed

lemma code_of_fresh [simp]: "code_of (M\<lparr>fresh := n\<rparr>) f = code_of M f" "code_of (M\<lparr>globs := gs\<rparr>) f = code_of M f"
  by (simp_all add: code_of_def)

lemma insert_code:
  assumes "insert_before_inst i n t op M = (v, M')"
  shows "code_of M' f = concat (map (\<lambda>J. if iref J = i then [new_inst M n t op, J] else [J]) (code_of M f))"
  using assms by (auto simp: insert_before_inst_def Let_def code_of_map)

lemma erase_code:
  assumes "eraseFromParent i M = Some M'"
  shows "code_of M' f = filter (\<lambda>I. iref I \<noteq> i) (code_of M f)"
proof -
  have f: "filter (\<lambda>I. iref I \<noteq> i) = (\<lambda>b. concat (map (\<lambda>I. if iref I \<noteq> i then [I] else []) b))"
    by (rule ext, induct_tac b) auto
  have "M' = map_blocks (filter (\<lambda>I. iref I \<noteq> i)) M"
    using assms by (simp add: eraseFromParent_def split: if_splits)
  then show ?thesis unfolding f by (simp add: code_of_map)
qed

lemma replace_code:
  assumes "replaceAllUsesWith v w M = Some M'"
  shows "code_of M' f = map (subst_inst v w) (code_of M f)"
proof -
  have "M' = map_blocks (map (subst_inst v w)) M"
    using assms by (simp add: replaceAllUsesWith_def split: if_splits)
  then show ?thesis using code_of_map [of "\<lambda>I. [subst_inst v w I]" M f] by (simp add: concat_map_singleton)
qed

text \<open>The returns of a function.\<close>

definition returns :: "ir_module \<Rightarrow> nat \<Rightarrow> nat set" where
  "returns M f = {iref I | I. I \<in> set (code_of M f) \<and> (\<exists>x. iop I = ReturnInst x)}"

lemma returns_insert:
  assumes "insert_before_inst i n t op M = (v, M')" "\<nexists>x. op = ReturnInst x"
  shows "returns M' f = returns M f"
  using assms(2) unfolding returns_def insert_code [OF assms(1)] set_inserted by (auto simp: set_inserted)

lemma returns_erase: "eraseFromParent i M = Some M' \<Longrightarrow> returns M' f = returns M f - {i}"
  by (auto simp: returns_def erase_code)

lemma returns_replace: "replaceAllUsesWith v w M = Some M' \<Longrightarrow> returns M' f = returns M f"
proof -
  assume r: "replaceAllUsesWith v w M = Some M'"
  have "(\<exists>x. subst_op v w op = ReturnInst x) \<longleftrightarrow> (\<exists>x. op = ReturnInst x)" for op by (cases op) auto
  then have "I \<in> set (code_of M f) \<and> (\<exists>x. iop (subst_inst v w I) = ReturnInst x) \<longleftrightarrow>
      I \<in> set (code_of M f) \<and> (\<exists>x. iop I = ReturnInst x)" for I by simp
  moreover have "iref (subst_inst v w I) = iref I" for I by simp
  ultimately show ?thesis unfolding returns_def replace_code [OF r] set_map by (smt (verit) Collect_cong image_iff)
qed

subsection \<open>Appending an instruction\<close>

lemma append_instrs:
  assumes "append_to_block i t op M = M'"
  shows "fresh M' = Suc (fresh M)" "signatures M' = signatures M" "globs M' = globs M"
    "instrs M' = concat (map (\<lambda>b. if i \<in> iref ` set b then b @ [new_inst M [] t op] else b) (code_blocks M))"
    "I \<in> set (code_of M' f) \<longleftrightarrow> I \<in> set (code_of M f) \<or> I = new_inst M [] t op \<and> i \<in> iref ` set (code_of M f)"
proof -
  let ?g = "\<lambda>b. if i \<in> iref ` set b then b @ [new_inst M [] t op] else b"
  have M': "M' = map_blocks ?g (M\<lparr>fresh := Suc (fresh M)\<rparr>)"
    using assms by (simp add: append_to_block_def Let_def)
  show "fresh M' = Suc (fresh M)" "signatures M' = signatures M" "globs M' = globs M"
    using M' by simp_all
  show "instrs M' = concat (map ?g (code_blocks M))"
    unfolding M' instrs_blocks by simp
  have "map_of (map (\<lambda>(i, F). (i, F\<lparr>blocks := map ?g (blocks F)\<rparr>)) fs) f = map_option (\<lambda>F. F\<lparr>blocks := map ?g (blocks F)\<rparr>) (map_of fs f)"
    for fs :: "(nat \<times> ir_func) list" by (simp add: map_of_map)
  then have "code_of M' f = (case map_of (funcs M) f of Some F \<Rightarrow> concat (map ?g (blocks F)) | None \<Rightarrow> [])"
    unfolding M' code_of_def map_blocks_def by (simp split: option.splits)
  moreover have "I \<in> set (concat (map ?g bs)) \<longleftrightarrow> I \<in> set (concat bs) \<or> I = new_inst M [] t op \<and> i \<in> iref ` set (concat bs)" for bs
    by (induction bs) auto
  ultimately show "I \<in> set (code_of M' f) \<longleftrightarrow> I \<in> set (code_of M f) \<or> I = new_inst M [] t op \<and> i \<in> iref ` set (code_of M f)"
    by (cases "map_of (funcs M) f") (simp_all add: code_of_def)
qed

lemma set_appended:
  "set (concat (map (\<lambda>b. if i \<in> iref ` set b then b @ [I] else b) bs)) =
    set (concat bs) \<union> (if i \<in> iref ` set (concat bs) then {I} else {})"
  by (induction bs) auto

lemma not_appended:
  "i \<notin> iref ` set (concat bs) \<Longrightarrow> concat (map (\<lambda>b. if i \<in> iref ` set b then b @ [I] else b) bs) = concat bs"
  by (induction bs) auto

lemma distinct_appended:
  assumes "distinct (map iref (concat bs))" "iref I \<notin> iref ` set (concat bs)"
  shows "distinct (map iref (concat (map (\<lambda>b. if i \<in> iref ` set b then b @ [I] else b) bs)))"
  using assms
proof (induction bs)
  case (Cons b bs)
  let ?g = "\<lambda>b. if i \<in> iref ` set b then b @ [I] else b"
  have d: "distinct (map iref b)" "distinct (map iref (concat bs))" "iref ` set b \<inter> iref ` set (concat bs) = {}"
    "iref I \<notin> iref ` set b" "iref I \<notin> iref ` set (concat bs)"
    using Cons.prems by auto
  show ?case
  proof (cases "i \<in> iref ` set b")
    case True
    then have "i \<notin> iref ` set (concat bs)" using d(3) by blast
    then have e: "concat (map ?g bs) = concat bs" by (rule not_appended)
    have "concat (map ?g (b # bs)) = b @ I # concat bs" using True unfolding list.map concat.simps e by simp
    moreover have "distinct (map iref (b @ I # cs))" if "cs = concat bs" for cs using d unfolding that [symmetric] by auto
    ultimately show ?thesis by simp
  next
    case False
    have "iref ` set b \<inter> iref ` set (concat (map ?g bs)) = {}" using d(3,4) unfolding set_appended by auto
    moreover have "concat (map ?g (b # bs)) = b @ concat (map ?g bs)" using False by (simp only: list.map concat.simps if_False)
    ultimately show ?thesis using d(1) Cons.IH [OF d(2,5)] by (simp only: map_append distinct_append set_map)
  qed
qed simp

lemma append_wf:
  assumes wf: "ir_wf M" and i: "find_instr M i = Some J" and ops: "\<forall>v \<in> set (operands op). below (fresh M) v"
    and ap: "append_to_block i t op M = M'"
  shows "ir_wf M'" "find_instr M' j = (if j = fresh M then Some (new_inst M [] t op) else find_instr M j)"
    "type_of M' w = (if w = InstV (fresh M) then t else type_of M w)"
    "w \<notin> set (operands op) \<Longrightarrow> users M' w = users M w"
proof -
  note I = append_instrs [OF ap] and W = ir_wfD [OF wf]
  let ?g = "\<lambda>b. if i \<in> iref ` set b then b @ [new_inst M [] t op] else b"
  have J: "J \<in> set (instrs M)" "iref J = i" using i find_instr_iff [OF wf] by auto
  have set: "set (instrs M') = insert (new_inst M [] t op) (set (instrs M))"
  proof -
    have "i \<in> iref ` set (instrs M)" using J by blast
    then show ?thesis unfolding I(4) set_appended instrs_blocks [of M, symmetric] by simp
  qed
  have "distinct (map iref (instrs M'))"
    unfolding I(4) by (rule distinct_appended) (use W(1) in \<open>auto simp flip: instrs_blocks dest: W(2)\<close>)
  moreover have "iref K < fresh M' \<and> (\<forall>v \<in> set (operands (iop K)). below (fresh M') v)" if "K \<in> set (instrs M')" for K
    using that ops W(2,3) I(1) below_mono [of "fresh M" _ "Suc (fresh M)"] unfolding set by (fastforce intro: less_SucI)
  ultimately show wf': "ir_wf M'"
    unfolding ir_wf_def using W(4-7) I(1-3) by (auto intro: less_SucI)
  show f: "find_instr M' j = (if j = fresh M then Some (new_inst M [] t op) else find_instr M j)" for j
  proof (cases "j = fresh M")
    case False
    then have "find_instr M' j = Some K \<longleftrightarrow> find_instr M j = Some K" for K
      using set by (auto simp: find_instr_iff [OF wf] find_instr_iff [OF wf'])
    then show ?thesis using False by (metis option.exhaust)
  qed (use set in \<open>simp add: find_instr_iff [OF wf']\<close>)
  show "type_of M' w = (if w = InstV (fresh M) then t else type_of M w)"
    unfolding type_of_in by (cases w) (auto simp: I(2,3) inst_types_def f)
  show "users M' w = users M w" if "w \<notin> set (operands op)"
  proof -
    have u: "uses_in w (new_inst M [] t op) = []" using that by (auto simp: uses_in_def filter_empty_conv)
    have "concat (map (uses_in w) (concat (map ?g bs))) = concat (map (uses_in w) (concat bs))" for bs
      by (induction bs) (simp_all add: u)
    then show ?thesis unfolding users_instrs I(4) instrs_blocks [of M, symmetric] by (simp add: instrs_blocks [of M])
  qed
qed

lemma append_ok:
  assumes ok: "ir_ok X M" and f: "sig M f = Some S" "J \<in> set (code_of M f)" "iref J = i"
    and ops: "\<forall>v \<in> set (operands op). below (fresh M) v"
    and ty: "op_ok (type_of M) (getReturnType (ftype S)) t op" and ap: "append_to_block i t op M = M'"
  shows "ir_ok X M'"
proof -
  have wf: "ir_wf M" and T: "typed_but X M" using ok by (auto simp: ir_ok_def)
  have i: "find_instr M i = Some J" using f code_in_instrs find_instr_iff [OF wf] by blast
  note I = append_instrs [OF ap] and W = append_wf [OF wf i ops ap]
  have same: "\<forall>v \<in> set vs. type_of M' v = type_of M v" if "\<forall>v \<in> set vs. below (fresh M) v" for vs
    using that W(3) by auto
  have "op_ok (type_of M') R (itype K) (iop K)" if K: "(R, K) \<in> set (located M')" "iref K \<notin> X" for R K
  proof -
    obtain g G where g: "sig M g = Some G" "K \<in> set (code_of M' g)" "R = getReturnType (ftype G)"
      using K(1) unfolding located_iff [OF W(1)] I(2) by blast
    consider "K \<in> set (code_of M g)" | "K = new_inst M [] t op" "i \<in> iref ` set (code_of M g)"
      using g(2) unfolding I(5) by blast
    then show ?thesis
    proof cases
      case 1
      then have l: "(R, K) \<in> set (located M)" using g located_iff [OF wf] by blast
      then have "\<forall>v \<in> set (operands (iop K)). below (fresh M) v" using ir_wfD(3) [OF wf] located_in by blast
      then show ?thesis using op_ok_cong [OF same] l K(2) T by (auto simp: typed_but_def)
    next
      case 2
      then obtain J' where J': "J' \<in> set (code_of M g)" "iref J' = i" by auto
      then have "(R, J') \<in> set (located M)" "(getReturnType (ftype S), J) \<in> set (located M)"
        using g(1,3) f(1,2) located_iff [OF wf] by blast+
      moreover have "inj_on (\<lambda>x. iref (snd x)) (set (located M))"
        using ir_wfD(1) [OF wf] unfolding located_instrs [symmetric] by (simp add: distinct_map comp_def)
      ultimately have "R = getReturnType (ftype S)"
        using J'(2) f(3) inj_onD [of "\<lambda>x. iref (snd x)" _ "(R, J')" "(getReturnType (ftype S), J)"] by simp
      then show ?thesis using 2 ty op_ok_cong [OF same [OF ops]] by simp
    qed
  qed
  then show ?thesis using W(1) by (auto simp: ir_ok_def typed_but_def)
qed

subsection \<open>What a change keeps\<close>

fun op_kind :: "ir_op \<Rightarrow> nat" where
  "op_kind (CallInst c as) = 0"
| "op_kind (BitCastInst v) = 1"
| "op_kind (StoreInst v p) = 2"
| "op_kind (ReturnInst v) = 3"
| "op_kind (OtherInst n vs) = 4"

text \<open>
  The values in \<open>V\<close> keep their uses, and the instructions outside \<open>D\<close> their kind and their
  operands in \<open>V\<close>.
\<close>

definition keeps :: "ir_value set \<Rightarrow> nat set \<Rightarrow> ir_module \<Rightarrow> ir_module \<Rightarrow> bool" where
  "keeps V D M M' \<longleftrightarrow> fresh M \<le> fresh M' \<and> (\<forall>v \<in> V. mset (users M' v) = mset (users M v)) \<and>
     (\<forall>j I. j \<notin> D \<and> find_instr M j = Some I \<longrightarrow>
       (\<exists>I'. find_instr M' j = Some I' \<and> itype I' = itype I \<and> op_kind (iop I') = op_kind (iop I) \<and>
         list_all2 (\<lambda>x y. x \<in> V \<longrightarrow> y = x) (operands (iop I)) (operands (iop I'))))"

lemma keeps_refl: "keeps V D M M"
  by (auto simp: keeps_def list.rel_refl)

lemma keeps_trans:
  assumes "keeps V D M M1" "keeps V D' M1 M2"
  shows "keeps V (D \<union> D') M M2"
proof -
  have "\<exists>I2. find_instr M2 j = Some I2 \<and> itype I2 = itype I \<and> op_kind (iop I2) = op_kind (iop I) \<and>
      list_all2 (\<lambda>x y. x \<in> V \<longrightarrow> y = x) (operands (iop I)) (operands (iop I2))"
    if j: "j \<notin> D \<union> D'" "find_instr M j = Some I" for j I
  proof -
    obtain I1 where I1: "find_instr M1 j = Some I1" "itype I1 = itype I" "op_kind (iop I1) = op_kind (iop I)"
      "list_all2 (\<lambda>x y. x \<in> V \<longrightarrow> y = x) (operands (iop I)) (operands (iop I1))"
      using assms(1) j unfolding keeps_def by blast
    obtain I2 where I2: "find_instr M2 j = Some I2" "itype I2 = itype I1" "op_kind (iop I2) = op_kind (iop I1)"
      "list_all2 (\<lambda>x y. x \<in> V \<longrightarrow> y = x) (operands (iop I1)) (operands (iop I2))"
      using assms(2) j(1) I1(1) unfolding keeps_def by blast
    have "list_all2 (\<lambda>x y. x \<in> V \<longrightarrow> y = x) (operands (iop I)) (operands (iop I2))"
      by (rule list_all2_trans [OF _ I1(4) I2(4)]) auto
    then show ?thesis using I1(2,3) I2(1-3) by simp
  qed
  then show ?thesis using assms unfolding keeps_def by (metis (no_types, lifting) le_trans)
qed

lemma keeps_mono: "keeps V D M M' \<Longrightarrow> V' \<subseteq> V \<Longrightarrow> D \<subseteq> D' \<Longrightarrow> keeps V' D' M M'"
  unfolding keeps_def by (fastforce elim: list_all2_mono)

lemma keeps_same:
  assumes "fresh M \<le> fresh M'" "\<forall>v \<in> V. users M' v = users M v" "\<forall>j. j \<notin> D \<and> find_instr M j \<noteq> None \<longrightarrow> find_instr M' j = find_instr M j"
  shows "keeps V D M M'"
  using assms unfolding keeps_def by (auto simp: list.rel_refl)

lemma find_fresh: "ir_wf M \<Longrightarrow> find_instr M (fresh M) = None"
  by (auto simp: find_instr_None dest: ir_wfD(2))

lemma keeps_insert:
  assumes "ir_wf M" "find_instr M i = Some J" "\<forall>v \<in> set (operands op). below (fresh M) v"
    and ins: "insert_before_inst i n t op M = (v, M')" and V: "set (operands op) \<inter> V = {}"
  shows "keeps V {} M M'"
proof (rule keeps_same)
  show "\<forall>v \<in> V. users M' v = users M v" using insert_users [OF ins] V by blast
  show "\<forall>j. j \<notin> {} \<and> find_instr M j \<noteq> None \<longrightarrow> find_instr M' j = find_instr M j"
    using insert_wf(3) [OF assms(1-4)] find_fresh [OF assms(1)] by auto
qed (use insert_instrs(2) [OF ins] in simp)

lemma keeps_append:
  assumes "ir_wf M" "find_instr M i = Some J" "\<forall>v \<in> set (operands op). below (fresh M) v"
    and ap: "append_to_block i t op M = M'" and V: "set (operands op) \<inter> V = {}"
  shows "keeps V {} M M'"
proof (rule keeps_same)
  show "\<forall>v \<in> V. users M' v = users M v" using append_wf(4) [OF assms(1-4)] V by blast
  show "\<forall>j. j \<notin> {} \<and> find_instr M j \<noteq> None \<longrightarrow> find_instr M' j = find_instr M j"
    using append_wf(2) [OF assms(1-4)] find_fresh [OF assms(1)] by auto
qed (use append_instrs(1) [OF ap] in simp)

lemma keeps_erase:
  assumes "ir_wf M" and er: "eraseFromParent i M = Some M'" and V: "\<forall>v \<in> V. i \<notin> set (users M v)"
  shows "keeps V {i} M M'"
proof (rule keeps_same)
  show "\<forall>v \<in> V. users M' v = users M v" using V by (auto simp: erase_wf(4) [OF assms(1,2)] filter_id_conv)
  show "\<forall>j. j \<notin> {i} \<and> find_instr M j \<noteq> None \<longrightarrow> find_instr M' j = find_instr M j"
    using erase_wf(2) [OF assms(1,2)] by auto
qed (use erase_instrs(2) [OF er] in simp)

lemma keeps_replace:
  assumes "ir_wf M" "below (fresh M) w" and re: "replaceAllUsesWith v w M = Some M'" and V: "v \<notin> V" "w \<notin> V"
  shows "keeps V {} M M'"
proof -
  note W = replace_wf [OF assms(1-3)]
  have k: "op_kind (subst_op v w op) = op_kind op" for op by (cases op) auto
  have "\<exists>I'. find_instr M' j = Some I' \<and> itype I' = itype I \<and> op_kind (iop I') = op_kind (iop I) \<and>
      list_all2 (\<lambda>x y. x \<in> V \<longrightarrow> y = x) (operands (iop I)) (operands (iop I'))"
    if "find_instr M j = Some I" for j I
    using that V W(2) [of j] by (auto simp: k operands_subst list_all2_map2 intro: list.rel_refl)
  moreover have "users M' x = users M x" if "x \<in> V" for x using W(4) [of x] V that by auto
  ultimately show ?thesis using replace_instrs(2) [OF re] by (simp add: keeps_def)
qed

subsection \<open>Stubs\<close>

text \<open>The order of uses is left open.\<close>

definition use_order :: "use_lists \<Rightarrow> bool" where
  "use_order uses \<longleftrightarrow> (\<forall>M v. mset (uses M v) = mset (users M v))"

lemma mset_single: "mset xs = {#x#} \<longleftrightarrow> xs = [x]"
  by (cases xs) auto

lemma first_use_one:
  assumes "use_order uses" "users M v = [u]"
  shows "first_use uses M v = Some u"
proof -
  have "mset (uses M v) = {#u#}" using assms by (simp add: use_order_def)
  then show ?thesis by (simp add: first_use_def mset_single)
qed

lemma keeps_users_one:
  assumes "keeps V D M M'" "v \<in> V" "users M v = [u]"
  shows "users M' v = [u]"
proof -
  have "mset (users M' v) = {#u#}" using assms by (simp add: keeps_def)
  then show ?thesis by (simp add: mset_single)
qed

lemma keeps_users_none: "keeps V D M M' \<Longrightarrow> v \<in> V \<Longrightarrow> users M v = [] \<Longrightarrow> users M' v = []"
  unfolding keeps_def by (metis mset_zero_iff)

lemma code_of_unique:
  assumes wf: "ir_wf M" and "I \<in> set (code_of M f)" "J \<in> set (code_of M g)" "iref I = iref J"
  shows "f = g"
proof -
  define L where "L = concat (map (\<lambda>(i, F). map (Pair i) (concat (blocks F))) (funcs M))"
  have "map snd L = instrs M"
    by (simp add: L_def instrs_def map_concat comp_def case_prod_unfold concat_blocks)
  then have "inj_on (\<lambda>x. iref (snd x)) (set L)"
    using ir_wfD(1) [OF wf] by (simp add: distinct_map comp_def flip: \<open>map snd L = instrs M\<close>)
  moreover have "(h, K) \<in> set L" if K: "K \<in> set (code_of M h)" for h K
  proof -
    obtain F where "map_of (funcs M) h = Some F" "K \<in> set (concat (blocks F))"
      using K by (cases "map_of (funcs M) h") (auto simp: code_of_def)
    then show ?thesis using map_of_SomeD unfolding L_def by fastforce
  qed
  ultimately show ?thesis using assms(2-4) inj_onD [of "\<lambda>x. iref (snd x)" "set L" "(f, I)" "(g, J)"] by simp
qed

text \<open>
  How the value of the call \<open>c\<close> in the function \<open>f\<close> is used, for a target that returns \<open>r\<close>; \<open>E\<close> are
  the returns that are replaced.
\<close>

definition result_case :: "ir_module \<Rightarrow> ir_type \<Rightarrow> nat \<Rightarrow> nat \<Rightarrow> nat set \<Rightarrow> bool" where
  "result_case M r c f E \<longleftrightarrow>
     r = IntegerTy 32 \<and> E = {} \<or>
     r = VoidTy \<and> users M (InstV c) = [] \<and> E = {} \<or>
     r = VoidTy \<and> (\<exists>x S. E = {x} \<and> users M (InstV c) = [x] \<and> users M (InstV x) = [] \<and>
       (\<exists>I \<in> set (code_of M f). iref I = x \<and> iop I = ReturnInst (Some (InstV c))) \<and>
       sig M f = Some S \<and> getReturnType (ftype S) = VoidTy)"

lemma replace_result_ok:
  assumes ok: "ir_ok X M" and uo: "use_order uses" and c: "find_instr M c = Some C" "itype C = IntegerTy 32"
    and new: "type_of M New = r" "below (fresh M) New" "New \<noteq> InstV c"
    and rc: "result_case M r c f E" and V: "InstV c \<notin> V" "New \<notin> V" and r: "getReturnType Ty = r"
  shows "\<exists>M'. replace_result uses Ty c New M = Some M' \<and> ir_ok (X - E) M' \<and> users M' (InstV c) = [] \<and>
    signatures M' = signatures M \<and> globs M' = globs M \<and> keeps V E M M' \<and> find_instr M' c \<noteq> None \<and>
    (\<forall>g. g \<noteq> f \<longrightarrow> returns M' g \<subseteq> returns M g) \<and> (\<forall>g. returns M g - E \<subseteq> returns M' g) \<and>
    (\<forall>g. code_of M g = [] \<longrightarrow> code_of M' g = [])"
proof -
  have wf: "ir_wf M" using ok by (simp add: ir_ok_def)
  consider (int) "r = IntegerTy 32" "E = {}" | (unused) "r = VoidTy" "users M (InstV c) = []" "E = {}"
    | (ret) x S I where "r = VoidTy" "E = {x}" "users M (InstV c) = [x]" "users M (InstV x) = []" "I \<in> set (code_of M f)" "iref I = x"
      "iop I = ReturnInst (Some (InstV c))" "sig M f = Some S" "getReturnType (ftype S) = VoidTy"
    using rc unfolding result_case_def by blast
  then show ?thesis
  proof cases
    case int
    have "type_of M (InstV c) = type_of M New" using c new(1) int by (simp add: type_of.simps(4))
    then obtain M' where M': "replaceAllUsesWith (InstV c) New M = Some M'" by (simp add: replaceAllUsesWith_def)
    note W = replace_wf [OF wf new(2) M']
    show ?thesis
      using M' int r replace_code [OF M'] replace_ok [OF ok new(2) M'] W(2) [of c] W(5) new(3) replace_instrs(3,4) [OF M'] c(1) V
        keeps_replace [OF wf new(2) M', of V] returns_replace [OF M']
      by (simp add: replace_result_def)
  next
    case unused
    have "uses M (InstV c) = []" using uo unused(2) unfolding use_order_def by (metis mset_zero_iff)
    then show ?thesis
      using unused r ok c(1) keeps_refl by (simp add: replace_result_def first_use_def)
  next
    case ret
    define M1 where "M1 = append_to_block x VoidTy (ReturnInst None) M"
    have x: "find_instr M x = Some I" using ret(5,6) code_in_instrs find_instr_iff [OF wf] by blast
    have ap: "append_to_block x VoidTy (ReturnInst None) M = M1" by (simp add: M1_def)
    have ok1: "ir_ok X M1" by (rule append_ok [OF ok ret(8,5,6) _ _ ap]) (simp_all add: ret(9))
    then have wf1: "ir_wf M1" by (simp add: ir_ok_def)
    note A = append_wf [OF wf x _ ap, simplified]
    have "users M1 (InstV x) = []" using A(4) ret(4) by simp
    then obtain M' where M': "eraseFromParent x M1 = Some M'" by (simp add: eraseFromParent_def)
    note W = erase_wf [OF wf1 M']
    have cx: "c \<noteq> x"
    proof
      assume "c = x"
      then show False using ret(3,4) by simp
    qed
    have k: "keeps V E M M'"
    proof -
      have "\<forall>v \<in> V. x \<notin> set (users M1 v)"
      proof
        fix v assume "v \<in> V"
        then have "v \<notin> set (operands (iop I))" using V(1) ret(7) by auto
        then show "x \<notin> set (users M1 v)" using users_find [OF wf, of x v] x A(4) [of v] by simp
      qed
      moreover have "keeps V {} M M1" by (rule keeps_append [OF wf x _ ap]) simp_all
      ultimately show ?thesis using keeps_trans keeps_erase [OF wf1 M'] ret(2) by fastforce
    qed
    have "returns M' g \<subseteq> returns M g" if g: "g \<noteq> f" for g
    proof
      fix j assume "j \<in> returns M' g"
      then obtain K y where K: "K \<in> set (code_of M1 g)" "iref K = j" "iop K = ReturnInst y"
        unfolding returns_erase [OF M'] by (auto simp: returns_def)
      have "x \<notin> iref ` set (code_of M g)" using code_of_unique [OF wf ret(5)] ret(6) g by auto
      then have "K \<in> set (code_of M g)" using K(1) append_instrs(5) [OF ap] by blast
      then show "j \<in> returns M g" using K(2,3) by (auto simp: returns_def)
    qed
    moreover have "code_of M' g = []" if "code_of M g = []" for g
    proof -
      have "I \<notin> set (code_of M1 g)" for I using append_instrs(5) [OF ap, of I g] that by simp
      then have "code_of M1 g = []" by (metis list.set_intros(1) neq_Nil_conv)
      then show ?thesis using erase_code [OF M'] by simp
    qed
    moreover have "returns M g - E \<subseteq> returns M' g" for g
    proof -
      have "returns M g \<subseteq> returns M1 g" unfolding returns_def using append_instrs(5) [OF ap] by blast
      then show ?thesis using returns_erase [OF M'] ret(2) by blast
    qed
    moreover have "replace_result uses Ty c New M = Some M'"
      using ret(1,7) r first_use_one [OF uo ret(3)] x M' by (simp add: replace_result_def M1_def)
    ultimately show ?thesis
      using erase_ok [OF ok1 M'] ret(2,3) W(2,4) cx A(2,4) c(1) k erase_instrs(3,4) [OF M'] append_instrs(2,3) [OF ap] find_fresh [OF wf]
      by (intro exI [of _ M']) auto
  qed
qed

lemma result_case_insert:
  assumes ins: "insert_before_inst i n t op M = (v, M')" and rc: "result_case M r c f E"
    and ops: "r = VoidTy \<longrightarrow> InstV c \<notin> set (operands op)" "\<forall>x \<in> E. InstV x \<notin> set (operands op)"
  shows "result_case M' r c f E"
proof -
  have "I \<in> set (code_of M' f)" if "I \<in> set (code_of M f)" for I
    using that unfolding insert_code [OF ins] set_inserted by simp
  then show ?thesis
    using rc ops insert_users [OF ins] insert_instrs(3) [OF ins] unfolding result_case_def by auto
qed

lemma type_of_argument:
  assumes "sig M f = Some G" "i < length (params G)"
  shows "type_of M (ArgumentV f i) = map snd (params G) ! i"
  using assms by (simp add: type_of_in)

lemma type_of_function: "sig M f = Some F \<Longrightarrow> type_of M (FunctionV f) = vtype F"
  by (simp add: type_of_in)

lemma sig_below: "ir_wf M \<Longrightarrow> sig M f = Some F \<Longrightarrow> f < fresh M"
  using ir_wfD(5) [of M "(f, F)"] by (auto dest: map_of_SomeD)

lemma replaceStubCall_ok:
  assumes ok: "ir_ok X M" and uo: "use_order uses" and c: "find_instr M c = Some C" "iop C = CallInst (FunctionV s) as" "c \<notin> X"
    and s: "sig M s = Some F" "vtype F = PointerTo (FunctionTy (IntegerTy 32) [p] False)" "is_pointer p"
    and f: "sig M f = Some G" "map snd (params G) = qs @ ps" and rc: "result_case M r c f E"
    and V: "\<forall>v \<in> V. c \<notin> set (users M v)" "InstV c \<notin> V" "\<forall>v \<in> V. below (fresh M) v" "\<forall>k. ArgumentV f k \<notin> V"
  shows "\<exists>M'. replaceStubCall uses c (FunctionTy r ps False) (f, length qs) M = Some M' \<and> ir_ok (X - E) M' \<and>
    signatures M' = signatures M \<and> globs M' = globs M \<and> keeps V (insert c E) M M' \<and>
    (\<forall>g. g \<noteq> f \<longrightarrow> returns M' g \<subseteq> returns M g) \<and> (\<forall>g. returns M g - E \<subseteq> returns M' g) \<and>
    (\<forall>g. code_of M g = [] \<longrightarrow> code_of M' g = [])"
proof -
  let ?Ty = "FunctionTy r ps False"
  let ?n = "fresh M"
  let ?args = "map (\<lambda>i. ArgumentV f (length qs + i)) [0..<length ps]"
  have wf: "ir_wf M" and T: "typed_but X M" using ok by (auto simp: ir_ok_def)
  have C: "C \<in> set (instrs M)" "iref C = c" using c(1) find_instr_iff [OF wf] by auto
  then obtain R where "(R, C) \<in> set (located M)" using in_located by blast
  then have "op_ok (type_of M) R (itype C) (CallInst (FunctionV s) as)" using T c(2,3) C(2) unfolding typed_but_def by fastforce
  then have t: "map (type_of M) as = [p]" "itype C = IntegerTy 32" 
    unfolding op_ok.simps type_of_function [OF s(1)] s(2) by simp_all
  then obtain a where a: "as = [a]" "type_of M a = p" by (cases as) auto
  have ops: "\<forall>v \<in> set (operands (iop C)). below ?n v" using ir_wfD(3) [OF wf C(1)] by blast
  have ac: "c \<in> set (users M a)" using users_find [OF wf] c(1,2) a(1) by simp
  have Ec: "InstV c \<notin> set (operands (BitCastInst a))" if "r = VoidTy"
  proof
    assume "InstV c \<in> set (operands (BitCastInst a))"
    then have "c \<in> set (users M (InstV c))" using ac by simp
    then obtain x I where "users M (InstV c) = [x]" "x = c" "I \<in> set (code_of M f)" "iref I = x" "iop I = ReturnInst (Some (InstV c))"
      using rc \<open>r = VoidTy\<close> unfolding result_case_def by auto
    moreover from this(2-4) have "find_instr M c = Some I" using code_in_instrs find_instr_iff [OF wf] by blast
    ultimately show False using c(1,2) by simp
  qed
  have Ex: "\<forall>x \<in> E. InstV x \<notin> set (operands (BitCastInst a))" using rc ac unfolding result_case_def by auto
  obtain v1 M1 where i1: "insert_before_inst c [] (PointerTo ?Ty) (BitCastInst a) M = (v1, M1)" by fastforce
  have b1: "new_bitcast a (PointerTo ?Ty) c M = Some (v1, M1)" using s(3) a(2) i1 by (simp add: new_bitcast_def)
  have o1: "\<forall>v \<in> set (operands (BitCastInst a)). below ?n v" using ops c(2) a(1) by simp
  have ok1: "ir_ok X M1" by (rule insert_ok [OF ok c(1) o1 _ i1]) (simp add: a(2) s(3))
  note I1 = insert_instrs [OF i1] and W1 = insert_wf [OF wf c(1) o1 i1]
  have cn: "c < ?n" using ir_wfD(2) [OF wf C(1)] C(2) by simp
  have c1: "find_instr M1 c = Some C" using W1(3) cn c(1) by simp
  have len: "length (params G) = length qs + length ps" using arg_cong [OF f(2), of length] by simp
  have args: "map (type_of M1) ?args = ps"
  proof (rule nth_equalityI)
    fix i assume "i < length (map (type_of M1) ?args)"
    then show "map (type_of M1) ?args ! i = ps ! i"
      using W1(4) type_of_argument [OF f(1), of "length qs + i"] len f(2) by (simp add: nth_append)
  qed simp
  obtain v2 M2 where i2: "insert_before_inst c [] r (CallInst v1 ?args) M1 = (v2, M2)" by fastforce
  have ty1: "type_of M1 v1 = PointerTo ?Ty" using W1(4) I1(1) by simp
  have b2: "new_call v1 ?args [] c M1 = Some (v2, M2)" using ty1 args i2 unfolding new_call_def by (simp del: map_map)
  have o2: "\<forall>v \<in> set (operands (CallInst v1 ?args)). below (fresh M1) v" using I1(1,2) sig_below [OF wf f(1)] by auto
  have ok2: "ir_ok X M2" by (rule insert_ok [OF ok1 c1 o2 _ i2]) (use ty1 args in \<open>simp del: map_map\<close>)
  note I2 = insert_instrs [OF i2] and W2 = insert_wf [OF W1(1) c1 o2 i2]
  have c2: "find_instr M2 c = Some C" using W2(3) cn c1 I1(2) by simp
  have rc2: "result_case M2 r c f E"
  proof (rule result_case_insert [OF i2 result_case_insert [OF i1 rc]])
    show "r = VoidTy \<longrightarrow> InstV c \<notin> set (operands (CallInst v1 ?args))" using I1(1) cn by auto
    have "x < ?n" if "x \<in> E" for x
    proof -
      obtain I where "I \<in> set (code_of M f)" "iref I = x" using rc \<open>x \<in> E\<close> unfolding result_case_def by auto
      then show ?thesis using ir_wfD(2) [OF wf code_in_instrs] by blast
    qed
    then show "\<forall>x \<in> E. InstV x \<notin> set (operands (CallInst v1 ?args))" using I1(1) by auto
  qed (use Ec Ex in auto)
  have cE: "c \<notin> E"
  proof
    assume "c \<in> E"
    then obtain I where "I \<in> set (code_of M f)" "iref I = c" "iop I = ReturnInst (Some (InstV c))"
      using rc unfolding result_case_def by auto
    moreover from this(1,2) have "find_instr M c = Some I" using code_in_instrs find_instr_iff [OF wf] by blast
    ultimately show False using c(1,2) by simp
  qed
  have k2: "keeps V {} M M2"
  proof -
    have "keeps V {} M M1" by (rule keeps_insert [OF wf c(1) o1 i1]) (use V(1) ac in auto)
    moreover have "keeps V {} M1 M2" by (rule keeps_insert [OF W1(1) c1 o2 i2]) (use V(3,4) I1(1) in auto)
    ultimately show ?thesis using keeps_trans by fastforce
  qed
  have uf: "ir_wf M2" using ok2 by (simp add: ir_ok_def)
  have n2: "type_of M2 v2 = r" "below (fresh M2) v2" "v2 \<noteq> InstV c" "v2 \<notin> V"
    using W2(4) I2(1,2) I1(2) cn V(3) by auto
  obtain M3 where M3: "replace_result uses ?Ty c v2 M2 = Some M3" "ir_ok (X - E) M3" "users M3 (InstV c) = []"
    "signatures M3 = signatures M2" "globs M3 = globs M2" "keeps V E M2 M3" "find_instr M3 c \<noteq> None"
    "\<forall>g. g \<noteq> f \<longrightarrow> returns M3 g \<subseteq> returns M2 g" "\<forall>g. returns M2 g - E \<subseteq> returns M3 g"
    "\<forall>g. code_of M2 g = [] \<longrightarrow> code_of M3 g = []"
    using replace_result_ok [OF ok2 uo c2 t(2) n2(1-3) rc2 V(2) n2(4), of ?Ty] by auto
  obtain M4 where M4: "eraseFromParent c M3 = Some M4" using M3(3) by (simp add: eraseFromParent_def)
  have wf3: "ir_wf M3" using M3(2) by (simp add: ir_ok_def)
  have "keeps V (insert c E) M M4"
  proof -
    have k3: "keeps V E M M3" using keeps_trans [OF k2 M3(6)] by simp
    then have "\<forall>v \<in> V. mset (users M3 v) = mset (users M v)" by (simp add: keeps_def)
    then have "\<forall>v \<in> V. c \<notin> set (users M3 v)" using V(1) by (metis set_mset_mset)
    from keeps_trans [OF k3 keeps_erase [OF wf3 M4 this]] show ?thesis by simp
  qed
  moreover have "ir_ok (X - E) M4" using erase_ok [OF M3(2) M4] c(3) by simp
  moreover have "\<forall>g. g \<noteq> f \<longrightarrow> returns M4 g \<subseteq> returns M g"
    using M3(8) returns_erase [OF M4] returns_insert [OF i1] returns_insert [OF i2] by auto
  moreover have "\<forall>g. code_of M g = [] \<longrightarrow> code_of M4 g = []"
    using M3(10) by (simp add: insert_code [OF i1] insert_code [OF i2] erase_code [OF M4])
  moreover have "\<forall>g. returns M g - E \<subseteq> returns M4 g"
  proof -
    have "c \<notin> returns M3 g" for g
    proof
      assume "c \<in> returns M3 g"
      then obtain K y where K: "K \<in> set (code_of M3 g)" "iref K = c" "iop K = ReturnInst y" by (auto simp: returns_def)
      then have "find_instr M3 c = Some K" using code_in_instrs find_instr_iff [OF wf3] by blast
      moreover have "\<exists>C'. find_instr M3 c = Some C' \<and> op_kind (iop C') = op_kind (iop C)"
        using M3(6) c2 c(2) cE unfolding keeps_def by blast
      ultimately show False using K(3) c(2) by auto
    qed
    then show ?thesis
      using M3(9) returns_erase [OF M4] returns_insert [OF i1] returns_insert [OF i2] by auto
  qed
  moreover have "replaceStubCall uses c ?Ty (f, length qs) M = Some M4"
    using c(1,2) a(1) b1 b2 M3(1) M4 by (simp add: replaceStubCall_def call_of_def)
  ultimately show ?thesis
    using erase_instrs(3,4) [OF M4] M3(4,5) I2(3,4) I1(3,4) by auto
qed

subsection \<open>Extending a spawn function\<close>

text \<open>Modules that differ only in the names of parameters.\<close>

definition same_code :: "ir_module \<Rightarrow> ir_module \<Rightarrow> bool" where
  "same_code M M' \<longleftrightarrow> signatures M' = signatures M \<and> globs M' = globs M \<and> fresh M' = fresh M \<and>
     instrs M' = instrs M \<and> located M' = located M \<and> (\<forall>f. code_of M' f = code_of M f)"

lemma same_codeD:
  assumes "same_code M M'"
  shows "signatures M' = signatures M" "globs M' = globs M" "fresh M' = fresh M" "users M' = users M" "find_instr M' = find_instr M"
    "type_of M' = type_of M" "ir_ok X M' = ir_ok X M" "keeps V D M M'" "returns M' = returns M"
proof -
  note S = assms [unfolded same_code_def]
  show "signatures M' = signatures M" "globs M' = globs M" "fresh M' = fresh M" using S by blast+
  show u: "users M' = users M" "find_instr M' = find_instr M"
    using S by (simp_all add: fun_eq_iff users_instrs find_instr_def)
  show t: "type_of M' = type_of M" using S u by (simp add: fun_eq_iff type_of_in inst_types_def [abs_def])
  show "ir_ok X M' = ir_ok X M" using S t by (simp add: ir_ok_def ir_wf_def typed_but_def)
  show "keeps V D M M'" using S u keeps_refl by (simp add: keeps_def)
  show "returns M' = returns M" using S by (simp add: fun_eq_iff returns_def)
qed

lemma map_of_map_key: "map_of (map (\<lambda>(i, x). (i, h i x)) xs) k = map_option (h k) (map_of xs k)"
  by (induction xs) auto

lemma upd_func_same:
  assumes wf: "ir_wf M" and F: "map_of (funcs M) f = Some F" and g: "signature_of (g F) = signature_of F" "blocks (g F) = blocks F"
  shows "same_code M (upd_func f g M)"
proof -
  have e: "signature_of (if i = f then g G else G) = signature_of G" "blocks (if i = f then g G else G) = blocks G"
    if "(i, G) \<in> set (funcs M)" for i G
    using that funcs_iff [OF wf] F g by auto
  then have t: "ftype (if i = f then g G else G) = ftype G" if "(i, G) \<in> set (funcs M)" for i G
    using that signature_fields(2) by metis
  have "instrs (upd_func f g M) = instrs M"
    unfolding instrs_def upd_func_def using e(2) by (auto simp: comp_def case_prod_unfold intro!: arg_cong [of _ _ concat] map_cong)
  moreover have "located (upd_func f g M) = located M"
    unfolding located_def upd_func_def using e(2) t by (auto simp: comp_def case_prod_unfold intro!: arg_cong [of _ _ concat] map_cong)
  moreover have "signatures (upd_func f g M) = signatures M"
    unfolding signatures_def upd_func_def using e(1) by (auto simp: comp_def case_prod_unfold intro!: map_cong)
  moreover have "code_of (upd_func f g M) h = code_of M h" for h
    unfolding code_of_def upd_func_def using F g(2)
    by (cases "map_of (funcs M) h") (auto simp: map_of_map_key [of "\<lambda>i F. if i = f then g F else F"])
  ultimately show ?thesis by (simp add: same_code_def upd_func_def)
qed

lemma signature_of_param:
  assumes "i < length (params F) \<longrightarrow> t = snd (params F ! i)"
  shows "signature_of (F\<lparr>params := (params F)[i := (n, t)]\<rparr>) = signature_of F"
proof (cases "i < length (params F)")
  case True
  have "map (\<lambda>(n, t). ([] :: string, t)) ((params F)[i := (n, t)]) = (map (\<lambda>(n, t). ([], t)) (params F))[i := ([], t)]"
    by (simp add: map_update)
  also have "\<dots> = map (\<lambda>(n, t). ([], t)) (params F)"
    using True assms by (simp add: list_update_same_conv case_prod_unfold)
  finally show ?thesis by (simp add: signature_of_def)
qed (simp add: signature_of_def list_update_beyond)

lemma transfer_args_ok:
  assumes "ir_ok X M" "sig M Old = Some F" "sig M New = Some G" "length (params F) \<le> length (params G)"
    "\<forall>i \<in> set is. i < length (params F) \<and> snd (params F ! i) = snd (params G ! i)"
    "\<forall>k \<in> set is. ArgumentV Old k \<notin> V \<and> ArgumentV New k \<notin> V" "distinct is" "Old \<noteq> New"
  shows "\<exists>M'. transfer_args Old New is M = Some M' \<and> ir_ok X M' \<and> signatures M' = signatures M \<and> globs M' = globs M \<and>
    keeps V {} M M' \<and> (\<forall>f. returns M' f = returns M f) \<and> (\<forall>f. code_of M f = [] \<longrightarrow> code_of M' f = []) \<and>
    (\<forall>i \<in> set is. users M' (ArgumentV Old i) = [])"
  using assms
proof (induction "is" arbitrary: M V)
  case Nil
  then show ?case by (auto simp: keeps_refl)
next
  case (Cons i "is")
  have wf: "ir_wf M" using Cons.prems(1) by (simp add: ir_ok_def)
  obtain F0 where F0: "map_of (funcs M) Old = Some F0" "F = signature_of F0" using Cons.prems(2) by (auto simp: sig_Some)
  let ?n = "fst (params F0 ! i)"
  have i: "i < length (params F0)" "i < length (params F)" "i < length (params G)" "snd (params F ! i) = snd (params G ! i)"
    using Cons.prems(4,5) F0(2) by auto
  have t: "type_of M (ArgumentV New i) = snd (params F0 ! i)" "type_of M (ArgumentV Old i) = snd (params F0 ! i)"
    using type_of_argument [OF Cons.prems(2) i(2)] type_of_argument [OF Cons.prems(3) i(3)] i F0(2) by simp_all
  define M1 where "M1 = upd_func Old (\<lambda>F. F\<lparr>params := (params F)[i := (?n, type_of M (ArgumentV New i))]\<rparr>) M"
  have s1: "same_code M M1"
    unfolding M1_def by (rule upd_func_same [OF wf F0(1)]) (simp_all add: signature_of_param t)
  note S1 = same_codeD [OF s1]
  have ok1: "ir_ok X M1" using S1(7) Cons.prems(1) by simp
  then have wf1: "ir_wf M1" by (simp add: ir_ok_def)
  have "type_of M1 (ArgumentV Old i) = type_of M1 (ArgumentV New i)" using S1(6) t by simp
  then obtain M2 where M2: "replaceAllUsesWith (ArgumentV Old i) (ArgumentV New i) M1 = Some M2"
    by (simp add: replaceAllUsesWith_def)
  have b: "below (fresh M1) (ArgumentV New i)" using sig_below [OF wf Cons.prems(3)] S1(3) by simp
  note R2 = replace_instrs [OF M2]
  have ok2: "ir_ok X M2" "ir_wf M2" using replace_ok [OF ok1 b M2] by (simp_all add: ir_ok_def)
  have k2: "keeps V {} M1 M2" by (rule keeps_replace [OF wf1 b M2]) (use Cons.prems(6) in auto)
  define M3 where "M3 = upd_func New (\<lambda>F. F\<lparr>params := (params F)[i := (?n, snd (params F ! i))]\<rparr>) M2"
  obtain G2 where G2: "map_of (funcs M2) New = Some G2"
    using Cons.prems(3) R2(3) S1(1) sig_Some [of M2 New G] by auto
  have s3: "same_code M2 M3"
    unfolding M3_def by (rule upd_func_same [OF ok2(2) G2]) (simp_all add: signature_of_param)
  note S3 = same_codeD [OF s3]
  define M4 where "M4 = upd_func Old (\<lambda>F. F\<lparr>params := (params F)[i := ([], snd (params F ! i))]\<rparr>) M3"
  have "ir_ok X M3" using S3(7) ok2(1) by simp
  then have wf3: "ir_wf M3" by (simp add: ir_ok_def)
  obtain F3 where F3: "map_of (funcs M3) Old = Some F3"
    using Cons.prems(2) R2(3) S1(1) S3(1) sig_Some [of M3 Old F] by auto
  have s4: "same_code M3 M4"
    unfolding M4_def by (rule upd_func_same [OF wf3 F3]) (simp_all add: signature_of_param)
  note S4 = same_codeD [OF s4]
  have sg: "signatures M4 = signatures M" using S4(1) S3(1) R2(3) S1(1) by simp
  have ok4: "ir_ok X M4" using S4(7) S3(7) ok2(1) by simp
  have "keeps V ({} \<union> {} \<union> {} \<union> {}) M M4"
    by (rule keeps_trans [OF keeps_trans [OF keeps_trans [OF S1(8) k2] S3(8)] S4(8)])
  then have k4: "keeps V {} M M4" by simp
  have r4: "returns M4 f = returns M f" for f using S4(9) S3(9) returns_replace [OF M2] S1(9) by simp
  have v: "\<forall>k \<in> set is. ArgumentV Old k \<notin> insert (ArgumentV Old i) V \<and> ArgumentV New k \<notin> insert (ArgumentV Old i) V"
    using Cons.prems(6,7,8) by auto
  have s4s: "sig M4 Old = Some F" "sig M4 New = Some G" using Cons.prems(2,3) sg by simp_all
  obtain M' where M': "transfer_args Old New is M4 = Some M'" "ir_ok X M'" "signatures M' = signatures M4" "globs M' = globs M4"
    "keeps (insert (ArgumentV Old i) V) {} M4 M'" "\<forall>f. returns M' f = returns M4 f" "\<forall>f. code_of M4 f = [] \<longrightarrow> code_of M' f = []"
    "\<forall>i \<in> set is. users M' (ArgumentV Old i) = []"
    using Cons.IH [OF ok4 s4s Cons.prems(4) _ v _ Cons.prems(8)] Cons.prems(5,7) by auto
  have "users M4 = users M2" using S4(4) S3(4) by simp
  moreover have "users M2 (ArgumentV Old i) = []" using replace_wf(5) [OF wf1 b M2] Cons.prems(8) by simp
  ultimately have u: "users M' (ArgumentV Old i) = []" using keeps_users_none [OF M'(5)] by simp
  have m: "keeps V {} M4 M'" by (rule keeps_mono [OF M'(5)]) auto
  have k: "keeps V {} M M'" using keeps_trans [OF k4 m] by simp
  have c4: "code_of M4 f = []" if "code_of M f = []" for f
    using that s1 s3 s4 replace_code [OF M2, of f] by (simp add: same_code_def)
  moreover have "transfer_args Old New (i # is) M = Some M'"
    using F0(1) M2 M'(1) by (simp add: Let_def M4_def M3_def M1_def)
  ultimately show ?case
    using M'(2-4,6-8) u k c4 sg r4 S4(2) S3(2) R2(4) S1(2) by auto
qed

text \<open>The code of the function \<open>S\<close> moves to a new function.\<close>

definition move_code :: "nat \<Rightarrow> ir_func \<Rightarrow> ir_module \<Rightarrow> ir_module" where
  "move_code S NewF M =
     (let M' = upd_func S (\<lambda>F. F\<lparr>fname := [], blocks := []\<rparr>) M in
      M'\<lparr>funcs := funcs M' @ [(fresh M, NewF)], fresh := fresh M' + 1\<rparr>)"

lemma move_code_funcs:
  "funcs (move_code S NewF M) = map (\<lambda>(i, F). (i, if i = S then F\<lparr>fname := [], blocks := []\<rparr> else F)) (funcs M) @ [(fresh M, NewF)]"
  "globs (move_code S NewF M) = globs M" "fresh (move_code S NewF M) = Suc (fresh M)"
  by (simp_all add: move_code_def upd_func_def Let_def)

lemma fresh_func:
  assumes "ir_wf M"
  shows "map_of (funcs M) (fresh M) = None"
proof (rule ccontr)
  assume "map_of (funcs M) (fresh M) \<noteq> None"
  then obtain F where "sig M (fresh M) = Some F" by (auto simp: map_of_signatures)
  then show False using sig_below [OF assms] by blast
qed

lemma move_code_sig:
  assumes wf: "ir_wf M"
  shows "sig (move_code S NewF M) f = (if f = fresh M then Some (signature_of NewF)
    else if f = S then map_option (\<lambda>F. F\<lparr>fname := []\<rparr>) (sig M S) else sig M f)"
proof -
  have n: "map_of (funcs M) (fresh M) = None" by (rule fresh_func [OF wf])
  have "signature_of (F\<lparr>fname := [], blocks := []\<rparr>) = (signature_of F)\<lparr>fname := []\<rparr>" for F
    by (cases F) (simp add: signature_of_def)
  then show ?thesis
    using n unfolding map_of_signatures move_code_funcs map_of_append
    by (cases "map_of (funcs M) f") (auto simp: map_add_def map_of_map_key [of "\<lambda>i F. if i = S then F\<lparr>fname := [], blocks := []\<rparr> else F"])
qed

lemma move_code_code:
  assumes wf: "ir_wf M" and S: "map_of (funcs M) S = Some F" "blocks NewF = blocks F"
  shows "code_of (move_code S NewF M) f = (if f = fresh M then code_of M S else if f = S then [] else code_of M f)"
    "mset (instrs (move_code S NewF M)) = mset (instrs M)"
proof -
  have n: "map_of (funcs M) (fresh M) = None" by (rule fresh_func [OF wf])
  then show "code_of (move_code S NewF M) f = (if f = fresh M then code_of M S else if f = S then [] else code_of M f)"
    using S unfolding code_of_def move_code_funcs map_of_append
    by (cases "map_of (funcs M) f") (auto simp: map_add_def map_of_map_key [of "\<lambda>i F. if i = S then F\<lparr>fname := [], blocks := []\<rparr> else F"])
  let ?code = "\<lambda>fs. mset (concat (concat (map (\<lambda>(i, F). blocks F) fs)))"
  have "?code (map (\<lambda>(i, F). (i, if i = S then F\<lparr>fname := [], blocks := []\<rparr> else F)) fs) + mset (concat (blocks F)) = ?code fs"
    if "distinct (map fst fs)" "map_of fs S = Some F" for fs
    using that
  proof (induction fs)
    case (Cons x fs)
    have "S \<notin> fst ` set fs \<Longrightarrow> map (\<lambda>(i, F). (i, if i = S then F\<lparr>fname := [], blocks := []\<rparr> else F)) fs = fs"
      by (induction fs) auto
    then show ?case using Cons by (cases x) (auto simp del: map_map split: if_splits)
  qed simp
  then show "mset (instrs (move_code S NewF M)) = mset (instrs M)"
    using ir_wfD(4) [OF wf] S unfolding instrs_def move_code_funcs fst_signatures by simp
qed

lemma op_ok_result: "\<nexists>x. op = ReturnInst x \<Longrightarrow> op_ok ty R t op = op_ok ty R' t op"
  by (cases op) auto

lemma mset_concat_map: "mset xs = mset ys \<Longrightarrow> mset (concat (map f xs)) = mset (concat (map f ys))"
proof -
  have "mset (concat (map f xs)) = (\<Sum>x \<in># mset xs. mset (f x))" for xs by (induction xs) auto
  then show "mset xs = mset ys \<Longrightarrow> ?thesis" by simp
qed

lemma names_moved:
  assumes "distinct (map fst fs)" "map_of fs S = Some F" "fname F \<noteq> []"
  shows "mset (filter (\<lambda>n. n \<noteq> []) (map (fname \<circ> snd)
      (map (\<lambda>(i, F). (i, if i = S then F\<lparr>fname := [], blocks := []\<rparr> else F)) fs))) + {#fname F#} =
    mset (filter (\<lambda>n. n \<noteq> []) (map (fname \<circ> snd) fs))"
  using assms
proof (induction fs)
  case (Cons x fs)
  have "S \<notin> fst ` set fs \<Longrightarrow> map (\<lambda>(i, F). (i, if i = S then F\<lparr>fname := [], blocks := []\<rparr> else F)) fs = fs"
    by (induction fs) auto
  then show ?case using Cons by (cases x) (auto simp del: map_map mset_map mset_filter split: if_splits)
qed simp

lemma move_code_wf:
  assumes wf: "ir_wf M" and S: "map_of (funcs M) S = Some F" "fname F \<noteq> []" and N: "blocks NewF = blocks F" "fname NewF = fname F"
  shows "ir_wf (move_code S NewF M)"
proof -
  let ?M = "move_code S NewF M"
  note W = ir_wfD [OF wf] and C = move_code_code [OF wf S(1) N(1)]
  have set: "set (instrs ?M) = set (instrs M)" using C(2) by (metis set_mset_mset)
  have "distinct (map iref (instrs ?M))" using W(1) C(2) by (metis mset_map mset_eq_imp_distinct_iff)
  moreover have "\<forall>I \<in> set (instrs ?M). iref I < fresh ?M \<and> (\<forall>v \<in> set (operands (iop I)). below (fresh ?M) v)"
    unfolding set move_code_funcs using W(2,3) by (meson below_mono le_SucI le_refl less_SucI)
  moreover have "map fst (signatures ?M) = map fst (signatures M) @ [fresh M]"
    unfolding fst_signatures move_code_funcs by (simp add: comp_def case_prod_unfold)
  then have fst': "distinct (map fst (signatures ?M))" "fst ` set (signatures ?M) = insert (fresh M) (fst ` set (signatures M))"
    using W(4) fresh_func [OF wf] by (auto simp: map_of_eq_None_iff simp flip: set_map fst_signatures)
  moreover have "\<forall>x \<in> set (signatures ?M). fst x < fresh ?M"
  proof
    fix x assume "x \<in> set (signatures ?M)"
    then have "fst x = fresh M \<or> fst x \<in> fst ` set (signatures M)" using fst'(2) by blast
    then show "fst x < fresh ?M" using W(5) unfolding move_code_funcs by (auto intro: less_SucI)
  qed
  moreover have names: "map (fname \<circ> snd) (signatures M) = map (fname \<circ> snd) (funcs M)" for M
    by (simp add: signatures_def comp_def case_prod_unfold)
  have "mset (filter (\<lambda>n. n \<noteq> []) (map (fname \<circ> snd) (signatures ?M))) = mset (filter (\<lambda>n. n \<noteq> []) (map (fname \<circ> snd) (signatures M)))"
    unfolding names move_code_funcs using names_moved [of "funcs M", OF _ S] W(4) N(2) S(2) by (simp add: fst_signatures del: map_map)
  then have "distinct (filter (\<lambda>n. n \<noteq> []) (map (fname \<circ> snd) (signatures ?M)))"
    using W(7) by (metis mset_eq_imp_distinct_iff)
  ultimately show ?thesis
    unfolding ir_wf_def using W(6) by (simp add: move_code_funcs(2,3) less_SucI)
qed

lemma move_code_ok:
  assumes ok: "ir_ok X M" and S: "map_of (funcs M) S = Some F" "fname F \<noteq> []" and N: "blocks NewF = blocks F" "fname NewF = fname F"
    and ret: "getReturnType (ftype NewF) = getReturnType (ftype F) \<or> returns M S \<subseteq> X"
  shows "ir_ok X (move_code S NewF M)" "keeps V {} M (move_code S NewF M)"
proof -
  let ?M = "move_code S NewF M"
  have wf: "ir_wf M" and T: "typed_but X M" using ok by (auto simp: ir_ok_def)
  have wf': "ir_wf ?M" by (rule move_code_wf [OF wf S N])
  note C = move_code_code [OF wf S(1) N(1)] and sg = move_code_sig [OF wf, of S NewF]
  have set: "set (instrs ?M) = set (instrs M)" using C(2) by (metis set_mset_mset)
  have find: "find_instr ?M j = find_instr M j" for j
  proof -
    have "find_instr ?M j = Some K \<longleftrightarrow> find_instr M j = Some K" for K
      using set by (simp add: find_instr_iff [OF wf] find_instr_iff [OF wf'])
    then show ?thesis by (metis option.exhaust)
  qed
  have ty: "type_of ?M v = type_of M v" if "below (fresh M) v" for v
    using that S(1) unfolding type_of_in
    by (cases v) (auto simp: sg find inst_types_def move_code_funcs(2) split: option.splits)
  have "op_ok (type_of ?M) R (itype I) (iop I)" if I: "(R, I) \<in> set (located ?M)" "iref I \<notin> X" for R I
  proof -
    obtain f G where f: "sig ?M f = Some G" "I \<in> set (code_of ?M f)" "R = getReturnType (ftype G)"
      using I(1) located_iff [OF wf'] by blast
    obtain R' where R': "(R', I) \<in> set (located M)" "R' = R \<or> (\<nexists>x. iop I = ReturnInst x)"
    proof (cases "f = fresh M")
      case True
      then have c: "I \<in> set (code_of M S)" using f(2) C(1) by simp
      have "(getReturnType (ftype F), I) \<in> set (located M)"
        unfolding located_iff [OF wf] using c S(1) by (auto simp: map_of_signatures intro!: exI [of _ S])
      moreover have "R = getReturnType (ftype NewF)" using f(1,3) True by (auto simp: sg)
      moreover have "\<nexists>x. iop I = ReturnInst x" if "returns M S \<subseteq> X"
        using that c I(2) by (auto simp: returns_def)
      ultimately show ?thesis using ret that by metis
    next
      case False
      then have n: "f \<noteq> S" using f(2) C(1) [of f] by (auto split: if_splits)
      then have "(R, I) \<in> set (located M)"
        unfolding located_iff [OF wf] using f False C(1) [of f] by (auto simp: sg split: if_splits)
      then show ?thesis using that by blast
    qed
    have "\<forall>v \<in> set (operands (iop I)). below (fresh M) v" using ir_wfD(3) [OF wf] located_in [OF R'(1)] by blast
    then have "op_ok (type_of ?M) R (itype I) (iop I) = op_ok (type_of M) R (itype I) (iop I)"
      using ty by (intro op_ok_cong) blast
    moreover have "op_ok (type_of M) R' (itype I) (iop I)" using T R'(1) I(2) by (auto simp: typed_but_def)
    ultimately show ?thesis using R'(2) op_ok_result [of "iop I" "type_of M" R' "itype I" R] by auto
  qed
  then show "ir_ok X ?M" using wf' by (auto simp: ir_ok_def typed_but_def)
  have "mset (users ?M v) = mset (users M v)" for v
    unfolding users_instrs by (rule mset_concat_map [OF C(2)])
  then show "keeps V {} M ?M"
    using keeps_refl [of V "{}" M] unfolding keeps_def find move_code_funcs(3) by (meson le_SucI)
qed

end
