(* ===== verification/ServerCalls.thy ===== *)
theory ServerCalls
  imports ServerTypes
begin

text \<open>
  The steps of \<open>createServer\<close> and the whole: the new spawn functions, the calls of the target,
  and the server's module, which is well typed.
\<close>

subsection \<open>The new spawn functions\<close>

text \<open>A template function of \<open>server.c\<close>, before the target is known.\<close>

definition template :: "ir_func \<Rightarrow> ir_type list \<Rightarrow> bool" where
  "template F qs \<longleftrightarrow> fname F \<noteq> [] \<and> ftype F = FunctionTy (IntegerTy 32) qs False \<and>
     vtype F = PointerTo (ftype F) \<and> map snd (params F) = qs"

text \<open>Its version for a target that takes \<open>ps\<close> and returns \<open>r\<close>.\<close>

definition spawn_version :: "ir_func \<Rightarrow> ir_func \<Rightarrow> ir_type list \<Rightarrow> ir_type \<Rightarrow> ir_type list \<Rightarrow> bool" where
  "spawn_version N F qs r ps \<longleftrightarrow> fname N = fname F \<and> ftype N = FunctionTy r (qs @ ps) False \<and>
     vtype N = PointerTo (ftype N) \<and> map snd (params N) = qs @ ps"

lemma extend_spawn_ok:
  assumes ok: "ir_ok X M" and S: "sig M S = Some F" "template F qs" and T: "sig M T = Some G" "ftype G = FunctionTy r ps False"
    and ret: "r = IntegerTy 32 \<or> returns M S \<subseteq> X" and V: "\<forall>k. ArgumentV S k \<notin> V \<and> ArgumentV (fresh M) k \<notin> V"
  shows "\<exists>N M'. extend_spawn S T M = Some (fresh M, M') \<and> ir_ok X M' \<and> spawn_version N F qs r ps \<and>
    (\<forall>f. sig M' f = (if f = fresh M then Some N else if f = S then Some (F\<lparr>fname := []\<rparr>) else sig M f)) \<and>
    globs M' = globs M \<and> keeps V {} M M' \<and>
    (\<forall>f. returns M' f = (if f = fresh M then returns M S else if f = S then {} else returns M f)) \<and> code_of M' S = [] \<and>
    (\<forall>k < length qs. users M' (ArgumentV S k) = [])"
proof -
  have wf: "ir_wf M" using ok by (simp add: ir_ok_def)
  obtain F0 G0 where F0: "map_of (funcs M) S = Some F0" "F = signature_of F0" and G0: "map_of (funcs M) T = Some G0" "G = signature_of G0"
    using S(1) T(1) by (auto simp: sig_Some)
  let ?Ty = "FunctionTy r (qs @ ps) False"
  define NewF where "NewF = \<lparr>fname = fname F0, ftype = ?Ty, vtype = PointerTo ?Ty, linkage = linkage F0,
    attributes = attributes F0, params = map (\<lambda>t. ([], t)) (qs @ ps), blocks = blocks F0\<rparr>"
  have N: "blocks NewF = blocks F0" "fname NewF = fname F0" by (simp_all add: NewF_def)
  have F: "fname F0 \<noteq> []" "ftype F0 = FunctionTy (IntegerTy 32) qs False" "map snd (params F0) = qs"
    using S(2) F0(2) by (simp_all add: template_def)
  have ret': "getReturnType (ftype NewF) = getReturnType (ftype F0) \<or> returns M S \<subseteq> X"
    using ret F(2) by (auto simp: NewF_def)
  let ?M = "move_code S NewF M"
  note mv = move_code_ok [OF ok F0(1) F(1) N ret'] and sg = move_code_sig [OF wf, of S NewF]
  have rt: "returns ?M f = (if f = fresh M then returns M S else if f = S then {} else returns M f)" for f
    unfolding returns_def move_code_code(1) [OF wf F0(1) N(1)] by auto
  have ver: "spawn_version (signature_of NewF) F qs r ps"
    using F0(2) by (simp add: spawn_version_def NewF_def comp_def)
  have s: "sig ?M S = Some (F\<lparr>fname := []\<rparr>)" "sig ?M (fresh M) = Some (signature_of NewF)"
    using sg [of S] sg [of "fresh M"] sig_below [OF wf S(1)] S(1) by auto
  have lens: "length (params F) = length qs" "length (params (signature_of NewF)) = length qs + length ps"
    using arg_cong [OF F(3), of length] F0(2) by (simp_all add: NewF_def)
  have same: "snd (params F ! i) = snd (params (signature_of NewF) ! i)" if "i < length qs" for i
  proof -
    have "map snd (params F) ! i = map snd (params (signature_of NewF)) ! i"
      using that S(2) ver by (simp add: template_def spawn_version_def nth_append)
    then show ?thesis using that lens by simp
  qed
  have p: "\<forall>i \<in> set [0..<length (params F0)]. i < length (params (F\<lparr>fname := []\<rparr>)) \<and>
      snd (params (F\<lparr>fname := []\<rparr>) ! i) = snd (params (signature_of NewF) ! i)"
    using same lens F0(2) by simp
  have v: "\<forall>k \<in> set [0..<length (params F0)]. ArgumentV S k \<notin> V \<and> ArgumentV (fresh M) k \<notin> V" using V by blast
  have le: "length (params (F\<lparr>fname := []\<rparr>)) \<le> length (params (signature_of NewF))" using lens by simp
  obtain M' where M': "transfer_args S (fresh M) [0..<length (params F0)] ?M = Some M'" "ir_ok X M'"
    "signatures M' = signatures ?M" "globs M' = globs ?M" "keeps V {} ?M M'" "\<forall>f. returns M' f = returns ?M f"
    "\<forall>f. code_of ?M f = [] \<longrightarrow> code_of M' f = []"
    "\<forall>i \<in> set [0..<length (params F0)]. users M' (ArgumentV S i) = []"
    using transfer_args_ok [OF mv(1) s le p v distinct_upt] sig_below [OF wf S(1)] by blast
  have "extend_spawn S T M = Some (fresh M, M')"
    using F0(1) G0 F(2) T(2) M'(1) by (simp add: extend_spawn_def Let_def move_code_def NewF_def upd_func_def)
  moreover have "sig M' f = (if f = fresh M then Some (signature_of NewF) else if f = S then Some (F\<lparr>fname := []\<rparr>) else sig M f)" for f
    unfolding M'(3) using sg [of f] S(1) by simp
  moreover have "keeps V {} M M'" using keeps_trans [OF mv(2) M'(5)] by simp
  moreover have "code_of M' S = []"
    using M'(7) move_code_code(1) [OF wf F0(1) N(1)] sig_below [OF wf S(1)] by auto
  moreover have "\<forall>k < length qs. users M' (ArgumentV S k) = []" using M'(8) lens(1) F0(2) by simp
  ultimately show ?thesis using M'(2,4,6) ver rt move_code_funcs(2) by fastforce
qed

text \<open>The call \<open>c\<close> is the only use of the function \<open>s\<close>.\<close>

definition only_call :: "ir_module \<Rightarrow> nat \<Rightarrow> nat \<Rightarrow> bool" where
  "only_call M s c \<longleftrightarrow> users M (FunctionV s) = [c] \<and> (\<exists>as. call_of M c = Some (FunctionV s, as))"

definition is_stub :: "ir_func \<Rightarrow> bool" where
  "is_stub F \<longleftrightarrow> (\<exists>p. vtype F = PointerTo (FunctionTy (IntegerTy 32) [p] False) \<and> is_pointer p)"

text \<open>How the value of the call \<open>c\<close> in \<open>f\<close> is used before the result type of \<open>f\<close> changes to \<open>r\<close>.\<close>

definition result_use :: "ir_module \<Rightarrow> ir_type \<Rightarrow> nat \<Rightarrow> nat \<Rightarrow> nat set \<Rightarrow> bool" where
  "result_use M r c f E \<longleftrightarrow>
     r = IntegerTy 32 \<and> E = {} \<or>
     r = VoidTy \<and> users M (InstV c) = [] \<and> E = {} \<or>
     r = VoidTy \<and> (\<exists>x I. E = {x} \<and> users M (InstV c) = [x] \<and> users M (InstV x) = [] \<and> x \<in> returns M f \<and>
       find_instr M x = Some I \<and> iop I = ReturnInst (Some (InstV c)))"

text \<open>The values whose uses matter then.\<close>

definition result_vals :: "ir_type \<Rightarrow> nat \<Rightarrow> nat set \<Rightarrow> ir_value set" where
  "result_vals r c E = (if r = VoidTy then insert (InstV c) (InstV ` E) else {})"

lemma call_of_iff: "call_of M c = Some (v, as) \<longleftrightarrow> (\<exists>C. find_instr M c = Some C \<and> iop C = CallInst v as)"
  by (auto simp: call_of_def split: option.splits ir_op.splits)

lemma keeps_call:
  assumes k: "keeps V D M M'" and c: "c \<notin> D" "call_of M c = Some (v, as)" and v: "v \<in> V"
  shows "\<exists>as'. call_of M' c = Some (v, as')"
proof -
  obtain C where C: "find_instr M c = Some C" "iop C = CallInst v as" using c(2) call_of_iff by blast
  obtain C' where C': "find_instr M' c = Some C'" "op_kind (iop C') = op_kind (iop C)"
    "list_all2 (\<lambda>x y. x \<in> V \<longrightarrow> y = x) (operands (iop C)) (operands (iop C'))"
    using k C(1) c(1) unfolding keeps_def by blast
  obtain w as' where w: "iop C' = CallInst w as'" using C'(2) C(2) by (cases "iop C'") auto
  have "list_all2 (\<lambda>x y. x \<in> V \<longrightarrow> y = x) (as @ [v]) (as' @ [w])" using C'(3) C(2) w by simp
  then have "w = v" using v by (simp add: list_all2_append1 list_all2_Cons1)
  then show ?thesis using C'(1) w call_of_iff by blast
qed

lemma keeps_type: "keeps V D M M' \<Longrightarrow> find_instr M j = Some I \<Longrightarrow> j \<notin> D \<Longrightarrow> \<exists>I'. find_instr M' j = Some I' \<and> itype I' = itype I"
  unfolding keeps_def by blast

lemma keeps_only_call:
  assumes "keeps V D M M'" "c \<notin> D" "FunctionV s \<in> V" "only_call M s c"
  shows "only_call M' s c"
  using assms keeps_users_one keeps_call unfolding only_call_def by blast

lemma keeps_result_case:
  assumes k: "keeps V D M M'" "result_vals r c E \<subseteq> V" "E \<inter> D = {}" and u: "result_use M r c f E"
    and f: "E \<subseteq> returns M' f'" "sig M' f' = Some S" "r = VoidTy \<longrightarrow> getReturnType (ftype S) = VoidTy" and wf: "ir_wf M'"
  shows "result_case M' r c f' E"
proof -
  consider (int) "r = IntegerTy 32" "E = {}" | (unused) "r = VoidTy" "users M (InstV c) = []" "E = {}"
    | (ret) x I where "r = VoidTy" "E = {x}" "users M (InstV c) = [x]" "users M (InstV x) = []" "find_instr M x = Some I"
      "iop I = ReturnInst (Some (InstV c))"
    using u unfolding result_use_def by blast
  then show ?thesis
  proof cases
    case unused
    then have "users M' (InstV c) = []" using keeps_users_none [OF k(1)] k(2) by (auto simp: result_vals_def)
    then show ?thesis using unused by (simp add: result_case_def)
  next
    case ret
    have V: "InstV c \<in> V" "InstV x \<in> V" using k(2) ret(1,2) by (auto simp: result_vals_def)
    obtain I' where I': "find_instr M' x = Some I'" "op_kind (iop I') = op_kind (iop I)"
      "list_all2 (\<lambda>x y. x \<in> V \<longrightarrow> y = x) (operands (iop I)) (operands (iop I'))"
      using k(1,3) ret(2,5) unfolding keeps_def by blast
    then have o: "iop I' = ReturnInst (Some (InstV c))"
      using ret(6) V(1) by (cases "iop I'") (auto simp: list_all2_Cons1 split: option.splits)
    obtain J where "J \<in> set (code_of M' f')" "iref J = x" using f(1) ret(2) by (auto simp: returns_def)
    then have "I' \<in> set (code_of M' f')" "iref I' = x"
      using I'(1) code_in_instrs find_instr_iff [OF wf] by (metis option.inject)+
    then show ?thesis
      using ret(1,2) keeps_users_one [OF k(1) V(1) ret(3)] keeps_users_none [OF k(1) V(2) ret(4)] o f(2,3)
      unfolding result_case_def by blast
  qed (simp add: result_case_def)
qed

lemma stub_call_ok:
  assumes ok: "ir_ok X M" and uo: "use_order uses" and s: "sig M s = Some F" "is_stub F" "only_call M s c" "c \<notin> X"
    and f: "sig M f = Some G" "map snd (params G) = qs @ ps" and rc: "result_case M r c f E"
    and V: "\<forall>v \<in> V. c \<notin> set (users M v)" "InstV c \<notin> V" "\<forall>v \<in> V. below (fresh M) v" "\<forall>k. ArgumentV f k \<notin> V"
  shows "\<exists>M'. replaceStubCall uses c (FunctionTy r ps False) (f, length qs) M = Some M' \<and> ir_ok (X - E) M' \<and>
    signatures M' = signatures M \<and> globs M' = globs M \<and> keeps V (insert c E) M M' \<and>
    (\<forall>g. g \<noteq> f \<longrightarrow> returns M' g \<subseteq> returns M g) \<and> (\<forall>g. returns M g - E \<subseteq> returns M' g) \<and>
    (\<forall>g. code_of M g = [] \<longrightarrow> code_of M' g = [])"
proof -
  obtain as C where C: "find_instr M c = Some C" "iop C = CallInst (FunctionV s) as"
    using s(3) unfolding only_call_def call_of_iff by blast
  obtain p where p: "vtype F = PointerTo (FunctionTy (IntegerTy 32) [p] False)" "is_pointer p"
    using s(2) unfolding is_stub_def by blast
  show ?thesis by (rule replaceStubCall_ok [OF ok uo C s(4,1) p f rc V])
qed

lemma fixSpawnImpl_ok:
  assumes ok: "ir_ok X M" and uo: "use_order uses" and S: "sig M S = Some F" "template F qs" "fname F = ''spawn_impl''"
    and T: "sig M T = Some G" "ftype G = FunctionTy r ps False" and r: "r = IntegerTy 32 \<or> r = VoidTy \<and> returns M S \<subseteq> X"
    and rs: "getFunction M ''_stub_rewrite_call'' = Some rs" "sig M rs = Some RF" "is_stub RF" "only_call M rs rc"
    and ts: "getFunction M ''_stub_target_call'' = Some ts" "sig M ts = Some TF" "is_stub TF" "only_call M ts tc"
    and use: "users M (InstV rc) = []" "result_use M r tc S E"
    and X: "rc \<notin> X" "tc \<notin> X" and V: "\<forall>v \<in> V. below (Suc (fresh M)) v \<and> rc \<notin> set (users M v) \<and> tc \<notin> set (users M v)"
      "InstV rc \<notin> V" "InstV tc \<notin> V" "\<forall>k. ArgumentV S k \<notin> V \<and> ArgumentV (fresh M) k \<notin> V"
  shows "\<exists>N M'. fixSpawnImpl uses S T M = Some (fresh M, M') \<and> ir_ok (X - E) M' \<and> spawn_version N F qs r ps \<and>
    (\<forall>f. sig M' f = (if f = fresh M then Some N else if f = S then Some (F\<lparr>fname := []\<rparr>) else sig M f)) \<and>
    globs M' = globs M \<and> keeps V (insert rc (insert tc E)) M M' \<and>
    (\<forall>f. f \<noteq> fresh M \<and> f \<noteq> S \<longrightarrow> returns M' f \<subseteq> returns M f \<and> returns M f - E \<subseteq> returns M' f) \<and> code_of M' S = [] \<and>
    (\<forall>k < length qs. users M' (ArgumentV S k) = [])"
proof -
  have wf: "ir_wf M" using ok by (simp add: ir_ok_def)
  let ?N = "fresh M"
  let ?A = "{ArgumentV S k |k. k < length qs}"
  let ?W2 = "V \<union> {FunctionV ts} \<union> result_vals r tc E"
  let ?V1 = "?W2 \<union> {FunctionV rs, InstV rc}"
  let ?V2 = "?W2 \<union> ?A"
  have names: "fname RF = ''_stub_rewrite_call''" "fname TF = ''_stub_target_call''"
    using rs(1,2) ts(1,2) getFunction_iff [OF wf] by auto
  then have ne: "rs \<noteq> S" "ts \<noteq> S" "rs \<noteq> ts" using S(1,3) rs(2) ts(2) by auto
  have calls: "rc \<noteq> tc" using rs(4) ts(4) ne(3) unfolding only_call_def by auto
  have rcC: "\<exists>C as. find_instr M rc = Some C \<and> iop C = CallInst (FunctionV rs) as"
    and tcC: "\<exists>C as. find_instr M tc = Some C \<and> iop C = CallInst (FunctionV ts) as"
    using rs(4) ts(4) unfolding only_call_def call_of_iff by blast+
  have E: "rc \<notin> E" "tc \<notin> E" "\<forall>x \<in> E. users M (InstV x) = [] \<and> x < fresh M"
  proof -
    show "rc \<notin> E" "tc \<notin> E" using use(2) rcC tcC unfolding result_use_def by auto
    show "\<forall>x \<in> E. users M (InstV x) = [] \<and> x < fresh M"
      using use(2) ir_wfD(2) [OF wf] find_instr_iff [OF wf] unfolding result_use_def by auto
  qed
  have low: "rc < fresh M" "tc < fresh M" using rcC tcC ir_wfD(2) [OF wf] find_instr_iff [OF wf] by auto
  have tcu: "r = VoidTy \<Longrightarrow> set (users M (InstV tc)) \<subseteq> E" using use(2) unfolding result_use_def by auto
  have rv: "v \<in> result_vals r tc E \<Longrightarrow> below (fresh M) v \<and> set (users M v) \<subseteq> E \<and> v \<noteq> InstV rc" for v
    using E low calls tcu unfolding result_vals_def by (auto split: if_splits)
  have rva: "ArgumentV f k \<notin> result_vals r tc E" for f k by (auto simp: result_vals_def)
  have V1: "\<forall>k. ArgumentV S k \<notin> ?V1 \<and> ArgumentV ?N k \<notin> ?V1"
    using V(4) rva by auto
  have r': "r = IntegerTy 32 \<or> returns M S \<subseteq> X" using r by blast
  obtain N M1 where M1: "extend_spawn S T M = Some (?N, M1)" "ir_ok X M1" "spawn_version N F qs r ps"
    "\<forall>f. sig M1 f = (if f = ?N then Some N else if f = S then Some (F\<lparr>fname := []\<rparr>) else sig M f)"
    "globs M1 = globs M" "keeps ?V1 {} M M1" "\<forall>f. returns M1 f = (if f = ?N then returns M S else if f = S then {} else returns M f)"
    "code_of M1 S = []" "\<forall>k < length qs. users M1 (ArgumentV S k) = []"
    using extend_spawn_ok [OF ok S(1,2) T r' V1] by blast
  have wf1: "ir_wf M1" using M1(2) by (simp add: ir_ok_def)
  have sN: "sig M1 ?N = Some N" "map snd (params N) = qs @ ps" "getReturnType (ftype N) = r"
    using M1(3,4) by (simp_all add: spawn_version_def)
  have fr: "fresh M \<le> fresh M1" "\<forall>v \<in> ?V1. mset (users M1 v) = mset (users M v)" "?N < fresh M1"
    using M1(6) sig_below [OF wf1 sN(1)] by (simp_all add: keeps_def)
  have sr: "sig M1 rs = Some RF" "sig M1 ts = Some TF"
    using M1(4) ne rs(2) ts(2) sig_below [OF wf rs(2)] sig_below [OF wf ts(2)] by auto
  have g1: "getFunction M1 ''_stub_rewrite_call'' = Some rs" using getFunction_iff [OF wf1] sr(1) names(1) by simp
  have oc1: "only_call M1 rs rc" "only_call M1 ts tc"
    using keeps_only_call [OF M1(6)] rs(4) ts(4) by auto
  have rc1: "result_case M1 r rc ?N {}"
    using r use(1) keeps_users_none [OF M1(6)] by (auto simp: result_case_def)
  have V2: "\<forall>v \<in> ?V2. rc \<notin> set (users M1 v)" "InstV rc \<notin> ?V2" "\<forall>v \<in> ?V2. below (fresh M1) v" "\<forall>k. ArgumentV ?N k \<notin> ?V2"
  proof -
    show "\<forall>v \<in> ?V2. rc \<notin> set (users M1 v)"
    proof
      fix v assume v: "v \<in> ?V2"
      show "rc \<notin> set (users M1 v)"
      proof (cases "v \<in> ?A")
        case True
        then show ?thesis using M1(9) by auto
      next
        case False
        then have w: "v \<in> ?W2" using v by blast
        then have "set (users M1 v) = set (users M v)" using fr(2) by (metis UnI1 set_mset_mset)
        moreover have "rc \<notin> set (users M v)" using w V(1) ts(4) calls rv E(1) by (auto simp: only_call_def)
        ultimately show ?thesis by simp
      qed
    qed
    show "InstV rc \<notin> ?V2" using V(2) rv by blast
    have "below (Suc (fresh M)) v" if "v \<in> ?V2" for v
      using that V(1) rv below_mono [of "fresh M" _ "Suc (fresh M)"] sig_below [OF wf S(1)] sig_below [OF wf ts(2)] by auto
    then show "\<forall>v \<in> ?V2. below (fresh M1) v" using fr(3) below_mono by (meson Suc_leI)
    show "\<forall>k. ArgumentV ?N k \<notin> ?V2" using V(4) rva sig_below [OF wf S(1)] by fastforce
  qed
  obtain M2 where M2: "replaceStubCall uses rc (FunctionTy r ps False) (?N, length qs) M1 = Some M2" "ir_ok X M2"
    "signatures M2 = signatures M1" "globs M2 = globs M1" "keeps ?V2 {rc} M1 M2"
    "\<forall>g. g \<noteq> ?N \<longrightarrow> returns M2 g \<subseteq> returns M1 g" "\<forall>g. returns M1 g \<subseteq> returns M2 g"
    "\<forall>g. code_of M1 g = [] \<longrightarrow> code_of M2 g = []"
    using stub_call_ok [OF M1(2) uo sr(1) rs(3) oc1(1) X(1) sN(1,2) rc1 V2] by auto
  have wf2: "ir_wf M2" using M2(2) by (simp add: ir_ok_def)
  have "keeps ?W2 {} M M1" by (rule keeps_mono [OF M1(6)]) auto
  moreover have "keeps ?W2 {rc} M1 M2" by (rule keeps_mono [OF M2(5)]) auto
  ultimately have k12: "keeps ?W2 {rc} M M2" using keeps_trans by fastforce
  have A2: "users M2 (ArgumentV S k) = []" if "k < length qs" for k
    using keeps_users_none [OF M2(5)] M1(9) that by auto
  have S2: "sig M2 = sig M1" using M2(3) by simp
  have g2: "getFunction M2 ''_stub_target_call'' = Some ts" using getFunction_iff [OF wf2] S2 sr(2) names(2) by simp
  have oc2: "only_call M2 ts tc" using keeps_only_call [OF k12] ts(4) calls by auto
  have rt2: "result_case M2 r tc ?N E"
  proof (rule keeps_result_case [OF k12 _ _ use(2)])
    have "E \<subseteq> returns M S" using use(2) unfolding result_use_def by auto
    also have "\<dots> = returns M1 ?N" using M1(7) by simp
    also have "\<dots> \<subseteq> returns M2 ?N" using M2(7) by blast
    finally show "E \<subseteq> returns M2 ?N" .
    show "r = VoidTy \<longrightarrow> getReturnType (ftype N) = VoidTy" using sN(3) by simp
  qed (use E(1) S2 sN(1) wf2 in auto)
  let ?V3 = "V \<union> ?A"
  have V3: "\<forall>v \<in> ?V3. tc \<notin> set (users M2 v)" "InstV tc \<notin> ?V3" "\<forall>v \<in> ?V3. below (fresh M2) v" "\<forall>k. ArgumentV ?N k \<notin> ?V3"
  proof -
    have "mset (users M2 v) = mset (users M v)" if "v \<in> V" for v using k12 that by (simp add: keeps_def)
    then have "\<forall>v \<in> V. tc \<notin> set (users M2 v)" using V(1) by (metis set_mset_mset)
    then show "\<forall>v \<in> ?V3. tc \<notin> set (users M2 v)" using A2 by auto
    show "InstV tc \<notin> ?V3" using V(3) by auto
    have "below (Suc (fresh M)) v" if "v \<in> ?V3" for v using that V(1) sig_below [OF wf S(1)] by auto
    moreover have "Suc (fresh M) \<le> fresh M2" using fr(3) M2(5) by (simp add: keeps_def)
    ultimately show "\<forall>v \<in> ?V3. below (fresh M2) v" using below_mono by blast
    show "\<forall>k. ArgumentV ?N k \<notin> ?V3" using V(4) sig_below [OF wf S(1)] by fastforce
  qed
  have sN2: "sig M2 ?N = Some N" "sig M2 ts = Some TF" using S2 sN(1) sr(2) by simp_all
  obtain M3 where M3: "replaceStubCall uses tc (FunctionTy r ps False) (?N, length qs) M2 = Some M3" "ir_ok (X - E) M3"
    "signatures M3 = signatures M2" "globs M3 = globs M2" "keeps ?V3 (insert tc E) M2 M3"
    "\<forall>g. g \<noteq> ?N \<longrightarrow> returns M3 g \<subseteq> returns M2 g" "\<forall>g. returns M2 g - E \<subseteq> returns M3 g" "\<forall>g. code_of M2 g = [] \<longrightarrow> code_of M3 g = []"
    using stub_call_ok [OF M2(2) uo sN2(2) ts(3) oc2 X(2) sN2(1) sN(2) rt2 V3] by auto
  have "keeps V {rc} M M2" "keeps V (insert tc E) M2 M3" by (rule keeps_mono [OF k12] keeps_mono [OF M3(5)]; auto)+
  then have "keeps V ({rc} \<union> insert tc E) M M3" by (rule keeps_trans)
  then have "keeps V (insert rc (insert tc E)) M M3" by (simp add: insert_commute)
  moreover have "fixSpawnImpl uses S T M = Some (?N, M3)"
  proof -
    obtain F0 G0 where F0: "map_of (funcs M) S = Some F0" "F = signature_of F0" "map_of (funcs M) T = Some G0" "G = signature_of G0"
      using S(1) T(1) by (auto simp: sig_Some)
    have "ftype F0 = FunctionTy (IntegerTy 32) qs False" "ftype G0 = FunctionTy r ps False"
      using S(2) T(2) F0(2,4) by (simp_all add: template_def)
    moreover have "first_use uses M1 (FunctionV rs) = Some rc" "first_use uses M2 (FunctionV ts) = Some tc"
      using first_use_one [OF uo] oc1(1) oc2 by (auto simp: only_call_def)
    ultimately show ?thesis
      using F0(1,3) M1(1) g1 M2(1) g2 M3(1) by (simp add: fixSpawnImpl_def Let_def)
  qed
  moreover have "\<forall>f. sig M3 f = (if f = ?N then Some N else if f = S then Some (F\<lparr>fname := []\<rparr>) else sig M f)"
    using M3(3) S2 M1(4) by simp
  moreover have "returns M3 f \<subseteq> returns M f \<and> returns M f - E \<subseteq> returns M3 f" if "f \<noteq> ?N" "f \<noteq> S" for f
  proof -
    have e: "returns M1 f = returns M f" using M1(7) that by simp
    have "returns M3 f \<subseteq> returns M1 f" "returns M1 f - E \<subseteq> returns M3 f" using M3(6,7) M2(6,7) that(1) by blast+
    then show ?thesis unfolding e ..
  qed
  moreover have "\<forall>k < length qs. users M3 (ArgumentV S k) = []" using keeps_users_none [OF M3(5)] A2 by auto
  ultimately show ?thesis using M3(2,4,8) M2(4,8) M1(3,5,8) by auto
qed

subsection \<open>Replacing the old spawn function\<close>

lemma mutate_type_ok:
  assumes ok: "ir_ok X M" and u: "set (users M (FunctionV S)) \<subseteq> X" and M': "M' = upd_func S (\<lambda>F. F\<lparr>vtype := t\<rparr>) M"
  shows "ir_ok X M'"
    and "sig M' f = (if f = S then map_option (\<lambda>F. F\<lparr>vtype := t\<rparr>) (sig M f) else sig M f)"
    and "users M' = users M" "find_instr M' = find_instr M" "code_of M' f = code_of M f" "globs M' = globs M" "fresh M' = fresh M"
    and "v \<noteq> FunctionV S \<Longrightarrow> type_of M' v = type_of M v"
proof -
  have wf: "ir_wf M" and T: "typed_but X M" using ok by (auto simp: ir_ok_def)
  let ?g = "\<lambda>i F. if i = S then F\<lparr>vtype := t\<rparr> else F"
  have fs: "funcs M' = map (\<lambda>(i, F). (i, ?g i F)) (funcs M)" by (simp add: M' upd_func_def)
  have sgv: "signature_of (F\<lparr>vtype := t\<rparr>) = (signature_of F)\<lparr>vtype := t\<rparr>" for F by (simp add: signature_of_def)
  have ids: "map fst (signatures M') = map fst (signatures M)"
    "map (fname \<circ> snd) (signatures M') = map (fname \<circ> snd) (signatures M)"
    by (auto simp: signatures_def fs comp_def case_prod_unfold)
  have same: "instrs M' = instrs M" "located M' = located M"
    unfolding instrs_def located_def fs
    by (auto simp: comp_def case_prod_unfold intro!: arg_cong [of _ _ concat] map_cong)
  show sg: "sig M' f = (if f = S then map_option (\<lambda>F. F\<lparr>vtype := t\<rparr>) (sig M f) else sig M f)" for f
    unfolding map_of_signatures fs map_of_map_key by (cases "map_of (funcs M) f") (auto simp: sgv)
  show us: "users M' = users M" "find_instr M' = find_instr M"
    by (simp_all add: fun_eq_iff users_instrs find_instr_def same)
  show "code_of M' f = code_of M f"
    unfolding code_of_def fs map_of_map_key by (cases "map_of (funcs M) f") auto
  show gf: "globs M' = globs M" "fresh M' = fresh M" by (simp_all add: M' upd_func_def)
  show ty: "type_of M' v = type_of M v" if "v \<noteq> FunctionV S" for v
    unfolding type_of_in using that by (cases v) (auto simp: sg gf inst_types_def us split: option.splits)
  have "x \<in> set (signatures M') \<Longrightarrow> fst x \<in> set (map fst (signatures M'))" for x by simp
  then have "\<forall>x \<in> set (signatures M'). fst x < fresh M'"
    using ir_wfD(5) [OF wf] unfolding gf ids(1) by fastforce
  then have "ir_wf M'" using wf ids same gf unfolding ir_wf_def by simp
  moreover have "typed_but X M'"
  proof -
    have "op_ok (type_of M') R (itype I) (iop I)" if I: "(R, I) \<in> set (located M)" "iref I \<notin> X" for R I
    proof -
      have "FunctionV S \<notin> set (operands (iop I))"
        using u I(2) located_in [OF I(1)] users_iff [of "iref I" M "FunctionV S"] by blast
      then have "\<forall>v \<in> set (operands (iop I)). type_of M' v = type_of M v" by (intro ballI ty) auto
      moreover have "op_ok (type_of M) R (itype I) (iop I)" using T I by (auto simp: typed_but_def)
      ultimately show ?thesis using op_ok_cong by blast
    qed
    then show ?thesis by (auto simp: typed_but_def same)
  qed
  ultimately show "ir_ok X M'" by (simp add: ir_ok_def)
qed

lemma erase_function_ok:
  assumes ok: "ir_ok X M" and S: "sig M S = Some F" "code_of M S = []" and u: "users M (FunctionV S) = []"
    "\<forall>k < length (params F). users M (ArgumentV S k) = []"
  shows "\<exists>M'. erase_function S M = Some M' \<and> ir_ok X M' \<and> (\<forall>f. sig M' f = (if f = S then None else sig M f)) \<and>
    users M' = users M \<and> find_instr M' = find_instr M \<and> (\<forall>f. code_of M' f = code_of M f) \<and> globs M' = globs M \<and> fresh M' = fresh M"
proof -
  have wf: "ir_wf M" and T: "typed_but X M" using ok by (auto simp: ir_ok_def)
  define M' where "M' = M\<lparr>funcs := filter (\<lambda>(i, F). i \<noteq> S) (funcs M)\<rparr>"
  have er: "erase_function S M = Some M'" using u(1) by (simp add: erase_function_def M'_def)
  have mo: "map_of (filter (\<lambda>(i, F). i \<noteq> S) fs) f = (if f = S then None else map_of fs f)" for f and fs :: "(nat \<times> ir_func) list"
    by (induction fs) auto
  have sg: "sig M' f = (if f = S then None else sig M f)" for f
    by (simp add: map_of_signatures M'_def mo)
  have gf: "globs M' = globs M" "fresh M' = fresh M" by (simp_all add: M'_def)
  have code: "code_of M' f = code_of M f" for f
    using S(2) by (auto simp: code_of_def M'_def mo split: option.splits)
  have "concat (concat (map (\<lambda>(i, F). blocks F) (filter (\<lambda>(i, F). i \<noteq> S) fs))) = concat (concat (map (\<lambda>(i, F). blocks F) fs))"
    if "\<forall>(i, F) \<in> set fs. i = S \<longrightarrow> concat (blocks F) = []" for fs :: "(nat \<times> ir_func) list"
    using that by (induction fs) auto
  moreover have "\<forall>(i, F) \<in> set (funcs M). i = S \<longrightarrow> concat (blocks F) = []"
    using S(2) funcs_iff [OF wf] by (auto simp: code_of_def)
  ultimately have same: "instrs M' = instrs M" unfolding instrs_def M'_def by simp
  have us: "users M' = users M" "find_instr M' = find_instr M"
    by (simp_all add: fun_eq_iff users_instrs find_instr_def same)
  have sigs: "signatures M' = filter (\<lambda>x. fst x \<noteq> S) (signatures M)"
    by (simp add: signatures_def M'_def filter_map comp_def case_prod_unfold)
  have wf': "ir_wf M'"
  proof -
    have "distinct (map fst (filter (\<lambda>x. fst x \<noteq> S) xs))" if "distinct (map fst xs)" for xs :: "(nat \<times> ir_func) list"
      using that by (rule distinct_map_filter)
    moreover have "distinct (filter (\<lambda>n. n \<noteq> []) (map (fname \<circ> snd) (filter P xs)))"
      if "distinct (filter (\<lambda>n. n \<noteq> []) (map (fname \<circ> snd) xs))" for P and xs :: "(nat \<times> ir_func) list"
      using that by (induction xs) (auto split: if_splits)
    ultimately show ?thesis
      using wf unfolding ir_wf_def sigs same gf by simp
  qed
  have ty: "type_of M' v = type_of M v" if "v \<noteq> FunctionV S" "\<forall>k < length (params F). v \<noteq> ArgumentV S k" for v
    unfolding type_of_in using that S(1) by (cases v) (auto simp: sg gf inst_types_def us split: option.splits)
  have "op_ok (type_of M') R (itype I) (iop I)" if I: "(R, I) \<in> set (located M')" "iref I \<notin> X" for R I
  proof -
    have l: "(R, I) \<in> set (located M)"
      using I(1) unfolding located_iff [OF wf'] located_iff [OF wf] sg code by (auto split: if_splits)
    have n: "users M v \<noteq> []" if "v \<in> set (operands (iop I))" for v
      using that located_in [OF l] users_iff [of "iref I" M v] by auto
    have "\<forall>v \<in> set (operands (iop I)). type_of M' v = type_of M v"
    proof
      fix v assume "v \<in> set (operands (iop I))"
      from n [OF this] show "type_of M' v = type_of M v" using u by (intro ty) auto
    qed
    moreover have "op_ok (type_of M) R (itype I) (iop I)" using T l I(2) by (auto simp: typed_but_def)
    ultimately show ?thesis using op_ok_cong by blast
  qed
  then have "ir_ok X M'" using wf' by (auto simp: ir_ok_def typed_but_def)
  then show ?thesis using er sg us code gf by blast
qed

subsection \<open>The wrapper\<close>

lemma fixSpawnWrapper_ok:
  assumes ok: "ir_ok X M" and uo: "use_order uses" and W: "sig M W = Some F" "template F qs" "fname F \<noteq> ''spawn_impl''"
    and T: "sig M T = Some G" "ftype G = FunctionTy r ps False" and r: "r = IntegerTy 32 \<or> r = VoidTy \<and> returns M W \<subseteq> X"
    and I: "sig M I = Some SF" "fname SF = ''spawn_impl''" "vtype SF = PointerTo (FunctionTy r (qs @ ps) False)" "only_call M I sc"
    and C: "find_instr M sc = Some C" "itype C = IntegerTy 32" and use: "result_use M r sc W E"
    and V: "\<forall>v \<in> V. below (fresh M) v \<and> sc \<notin> set (users M v)" "InstV sc \<notin> V" "FunctionV I \<notin> V" "\<forall>k. ArgumentV W k \<notin> V"
  shows "\<exists>N M'. fixSpawnWrapper uses W T M = Some (fresh M, M') \<and> ir_ok (X - E - {sc}) M' \<and> spawn_version N F qs r ps \<and>
    (\<forall>f. sig M' f = (if f = fresh M then Some N else if f = W then Some (F\<lparr>fname := []\<rparr>) else sig M f)) \<and>
    globs M' = globs M \<and> keeps V (insert sc E) M M'"
proof -
  have wf: "ir_wf M" using ok by (simp add: ir_ok_def)
  let ?N = "fresh M"
  let ?V1 = "V \<union> {FunctionV I} \<union> result_vals r sc E"
  have IW: "I \<noteq> W" using I(1,2) W(1,3) by auto
  have E: "sc \<notin> E" "\<forall>x \<in> E. users M (InstV x) = [] \<and> x < fresh M"
  proof -
    obtain as where "iop C = CallInst (FunctionV I) as" using I(4) C(1) unfolding only_call_def call_of_iff by auto
    then show "sc \<notin> E" using use C(1) unfolding result_use_def by auto
    show "\<forall>x \<in> E. users M (InstV x) = [] \<and> x < fresh M"
      using use ir_wfD(2) [OF wf] find_instr_iff [OF wf] unfolding result_use_def by auto
  qed
  have low: "sc < fresh M" "I < fresh M" using C(1) ir_wfD(2) [OF wf] find_instr_iff [OF wf] sig_below [OF wf I(1)] by auto
  have rv: "v \<in> result_vals r sc E \<Longrightarrow> below (fresh M) v" for v
    using E low unfolding result_vals_def by (auto split: if_splits)
  have rva: "ArgumentV f k \<notin> result_vals r sc E" for f k by (auto simp: result_vals_def)
  have V1: "\<forall>k. ArgumentV W k \<notin> ?V1 \<and> ArgumentV ?N k \<notin> ?V1"
    using V(1,4) rva by fastforce
  have r': "r = IntegerTy 32 \<or> returns M W \<subseteq> X" using r by blast
  obtain N M1 where M1: "extend_spawn W T M = Some (?N, M1)" "ir_ok X M1" "spawn_version N F qs r ps"
    "\<forall>f. sig M1 f = (if f = ?N then Some N else if f = W then Some (F\<lparr>fname := []\<rparr>) else sig M f)"
    "globs M1 = globs M" "keeps ?V1 {} M M1" "\<forall>f. returns M1 f = (if f = ?N then returns M W else if f = W then {} else returns M f)"
    using extend_spawn_ok [OF ok W(1,2) T r' V1] by blast
  have wf1: "ir_wf M1" using M1(2) by (simp add: ir_ok_def)
  have sN: "sig M1 ?N = Some N" "map snd (params N) = qs @ ps" "getReturnType (ftype N) = r" "getParams (ftype N) = qs @ ps"
    using M1(3,4) by (simp_all add: spawn_version_def)
  have sI: "sig M1 I = Some SF" using M1(4) IW I(1) low by auto
  have g1: "getFunction M1 ''spawn_impl'' = Some I" using getFunction_iff [OF wf1] sI I(2) by simp
  have oc1: "only_call M1 I sc" using keeps_only_call [OF M1(6)] I(4) by auto
  obtain C1 where C1: "find_instr M1 sc = Some C1" "itype C1 = IntegerTy 32" using keeps_type [OF M1(6) C(1)] C(2) by auto
  have f1: "fresh M \<le> fresh M1" using M1(6) by (simp add: keeps_def)
  have rc1: "result_case M1 r sc ?N E"
  proof (rule keeps_result_case [OF M1(6) _ _ use])
    have "E \<subseteq> returns M W" using use unfolding result_use_def by auto
    then show "E \<subseteq> returns M1 ?N" using M1(7) by simp
    show "r = VoidTy \<longrightarrow> getReturnType (ftype N) = VoidTy" using sN(3) by simp
  qed (use sN(1) wf1 in auto)
  let ?args = "map (ArgumentV ?N) [0..<length (qs @ ps)]"
  have len: "length (params N) = length (qs @ ps)" using arg_cong [OF sN(2), of length] by simp
  have args: "map (type_of M1) ?args = qs @ ps"
  proof (rule nth_equalityI)
    fix i assume "i < length (map (type_of M1) ?args)"
    then show "map (type_of M1) ?args ! i = (qs @ ps) ! i"
      using type_of_argument [OF sN(1), of i] len sN(2) by (simp del: map_map)
  qed simp
  have ty: "type_of M1 (FunctionV I) = PointerTo (FunctionTy r (qs @ ps) False)" using type_of_function [OF sI] I(3) by simp
  obtain v2 M2 where i2: "insert_before_inst sc [] r (CallInst (FunctionV I) ?args) M1 = (v2, M2)" by fastforce
  have b2: "new_call (FunctionV I) ?args [] sc M1 = Some (v2, M2)" using ty args i2 unfolding new_call_def by (simp del: map_map)
  have N1: "?N < fresh M1" by (rule sig_below [OF wf1 sN(1)])
  have o2: "\<forall>v \<in> set (operands (CallInst (FunctionV I) ?args)). below (fresh M1) v" using N1 low f1 by auto
  have ok2: "ir_ok X M2" by (rule insert_ok [OF M1(2) C1(1) o2 _ i2]) (use ty args in \<open>simp del: map_map\<close>)
  note I2 = insert_instrs [OF i2] and W2 = insert_wf [OF wf1 C1(1) o2 i2]
  have c2: "find_instr M2 sc = Some C1" using W2(3) low f1 C1(1) by simp
  have rc2: "result_case M2 r sc ?N E" by (rule result_case_insert [OF i2 rc1]) auto
  have k2: "keeps V {} M M2"
  proof -
    have "keeps V {} M M1" by (rule keeps_mono [OF M1(6)]) auto
    moreover have "keeps V {} M1 M2" by (rule keeps_insert [OF wf1 C1(1) o2 i2]) (use V(1,3) in fastforce)
    ultimately show ?thesis using keeps_trans by fastforce
  qed
  have n2: "type_of M2 v2 = r" "below (fresh M2) v2" "v2 \<noteq> InstV sc" "v2 \<notin> V"
    using W2(4) I2(1,2) low f1 V(1) by auto
  obtain M3 where M3: "replace_result uses (ftype G) sc v2 M2 = Some M3" "ir_ok (X - E) M3" "users M3 (InstV sc) = []"
    "signatures M3 = signatures M2" "globs M3 = globs M2" "keeps V E M2 M3" "find_instr M3 sc \<noteq> None"
    using replace_result_ok [OF ok2 uo c2 C1(2) n2(1-3) rc2 V(2) n2(4), of "ftype G"] T(2) by auto
  obtain M4 where M4: "eraseFromParent sc M3 = Some M4" using M3(3) by (simp add: eraseFromParent_def)
  have wf3: "ir_wf M3" using M3(2) by (simp add: ir_ok_def)
  have "keeps V (insert sc E) M M4"
  proof -
    have k3: "keeps V E M M3" using keeps_trans [OF k2 M3(6)] by simp
    then have "\<forall>v \<in> V. mset (users M3 v) = mset (users M v)" by (simp add: keeps_def)
    then have "\<forall>v \<in> V. sc \<notin> set (users M3 v)" using V(1) by (metis set_mset_mset)
    from keeps_trans [OF k3 keeps_erase [OF wf3 M4 this]] show ?thesis by simp
  qed
  moreover have "fixSpawnWrapper uses W T M = Some (?N, M4)"
  proof -
    obtain G0 N0 where G0: "map_of (funcs M) T = Some G0" "G = signature_of G0" "map_of (funcs M1) ?N = Some N0" "N = signature_of N0"
      using T(1) sN(1) by (auto simp: sig_Some)
    have "ftype G0 = ftype G" "getParams (ftype N0) = qs @ ps" using G0(2,4) sN(4) by simp_all
    moreover have "first_use uses M1 (FunctionV I) = Some sc" "call_of M1 sc \<noteq> None"
      using first_use_one [OF uo] oc1 by (auto simp: only_call_def)
    ultimately show ?thesis
      using G0(1,3) M1(1) g1 b2 M3(1) M4 by (auto simp: fixSpawnWrapper_def Let_def)
  qed
  moreover have "\<forall>f. sig M4 f = (if f = ?N then Some N else if f = W then Some (F\<lparr>fname := []\<rparr>) else sig M f)"
    using erase_instrs(3) [OF M4] M3(4) I2(3) M1(4) by simp
  moreover have "globs M4 = globs M" using erase_instrs(4) [OF M4] M3(5) I2(4) M1(5) by simp
  ultimately show ?thesis using erase_ok [OF M3(2) M4] M1(3) by auto
qed

subsection \<open>The calls of the target\<close>

abbreviation char_ptr :: ir_type where "char_ptr \<equiv> PointerTo (IntegerTy 8)"

lemma replace_one_call:
  assumes ok: "ir_ok {} M" and T: "sig M T = Some G" "vtype G = PointerTo (FunctionTy r ps False)"
    and Sp: "sig M Sp = Some N" "vtype N = PointerTo (FunctionTy r ([g, char_ptr] @ ps) False)" "is_pointer g" "Sp \<noteq> T"
    and name: "name = ElementPtr (ArrayTy n (IntegerTy 8)) (GlobalV gv) idx" "gv < fresh M"
    and u: "call_of M u = Some (FunctionV T, as)"
  shows "\<exists>v1 M1 v2 M2 M3 M4. new_bitcast (FunctionV T) g u M = Some (v1, M1) \<and>
    new_call (FunctionV Sp) ([v1, name] @ as) [] u M1 = Some (v2, M2) \<and>
    replaceAllUsesWith (InstV u) v2 M2 = Some M3 \<and> eraseFromParent u M3 = Some M4 \<and>
    ir_ok {} M4 \<and> signatures M4 = signatures M \<and> globs M4 = globs M \<and> fresh M \<le> fresh M4 \<and>
    (\<forall>w as. w \<noteq> u \<longrightarrow> call_of M w = Some (FunctionV T, as) \<longrightarrow> (\<exists>as. call_of M4 w = Some (FunctionV T, as))) \<and>
    (\<forall>w as. call_of M4 w = Some (FunctionV T, as) \<longrightarrow> w \<noteq> u \<and> (\<exists>as. call_of M w = Some (FunctionV T, as))) \<and>
    (\<forall>w \<noteq> u. find_instr M w \<noteq> None \<longrightarrow> call_of M w = None \<longrightarrow> find_instr M4 w \<noteq> None \<and> call_of M4 w = None)"
proof -
  let ?n = "fresh M"
  have wf: "ir_wf M" and ty: "typed_but {} M" using ok by (auto simp: ir_ok_def)
  obtain C where C: "find_instr M u = Some C" "iop C = CallInst (FunctionV T) as" using u call_of_iff by blast
  then have Ci: "C \<in> set (instrs M)" "iref C = u" using find_instr_iff [OF wf] by auto
  then obtain R where "(R, C) \<in> set (located M)" using in_located by blast
  then have "op_ok (type_of M) R (itype C) (CallInst (FunctionV T) as)" using ty C(2) unfolding typed_but_def by fastforce
  then have t: "map (type_of M) as = ps" "itype C = r"
    unfolding op_ok.simps type_of_function [OF T(1)] T(2) by simp_all
  have ops: "\<forall>v \<in> set (operands (iop C)). below ?n v" using ir_wfD(3) [OF wf Ci(1)] by blast
  have un: "u < ?n" using ir_wfD(2) [OF wf Ci(1)] Ci(2) by simp
  obtain v1 M1 where i1: "insert_before_inst u [] g (BitCastInst (FunctionV T)) M = (v1, M1)" by fastforce
  have tT: "type_of M (FunctionV T) = PointerTo (FunctionTy r ps False)" using type_of_function [OF T(1)] T(2) by simp
  have b1: "new_bitcast (FunctionV T) g u M = Some (v1, M1)" using tT Sp(3) i1 by (simp add: new_bitcast_def)
  have o1: "\<forall>v \<in> set (operands (BitCastInst (FunctionV T))). below ?n v" using sig_below [OF wf T(1)] by simp
  have ok1: "ir_ok {} M1" by (rule insert_ok [OF ok C(1) o1 _ i1]) (simp add: tT Sp(3))
  note I1 = insert_instrs [OF i1] and W1 = insert_wf [OF wf C(1) o1 i1]
  have c1: "find_instr M1 u = Some C" using W1(3) un C(1) by simp
  have tas: "map (type_of M1) as = ps"
  proof -
    have "type_of M1 a = type_of M a" if "a \<in> set as" for a using that ops C(2) W1(4) by auto
    then show ?thesis using t(1) by (metis map_eq_conv)
  qed
  have tcall: "map (type_of M1) ([v1, name] @ as) = [g, char_ptr] @ ps"
    using tas W1(4) [of v1] I1(1) name(1) by simp
  have tS: "type_of M1 (FunctionV Sp) = PointerTo (FunctionTy r ([g, char_ptr] @ ps) False)"
    using type_of_function [of M1 Sp] Sp(1,2) I1(3) by simp
  obtain v2 M2 where i2: "insert_before_inst u [] r (CallInst (FunctionV Sp) ([v1, name] @ as)) M1 = (v2, M2)" by fastforce
  have b2: "new_call (FunctionV Sp) ([v1, name] @ as) [] u M1 = Some (v2, M2)"
    unfolding new_call_def tS tcall using i2 by simp
  have o2: "\<forall>v \<in> set (operands (CallInst (FunctionV Sp) ([v1, name] @ as))). below (fresh M1) v"
    using I1(1,2) name ops C(2) sig_below [OF wf Sp(1)] by (auto intro: below_mono)
  have op2: "op_ok (type_of M1) R' r (CallInst (FunctionV Sp) ([v1, name] @ as))" for R'
    unfolding op_ok.simps tS tcall by simp
  have ok2: "ir_ok {} M2" by (rule insert_ok [OF ok1 c1 o2 _ i2]) (use op2 in blast)
  note I2 = insert_instrs [OF i2] and W2 = insert_wf [OF W1(1) c1 o2 i2]
  have c2: "find_instr M2 u = Some C" using W2(3) un c1 I1(2) by simp
  have f2: "find_instr M2 w = find_instr M w" if "w \<noteq> ?n" "w \<noteq> Suc ?n" for w
    using W2(3) W1(3) I1(2) that by simp
  have v2: "v2 = InstV (Suc ?n)" "type_of M2 v2 = r" using I2(1) I1(2) W2(4) [of v2] by simp_all
  have "type_of M2 (InstV u) = type_of M2 v2" using c2 t(2) v2(2) by (simp add: type_of.simps(4))
  then obtain M3 where M3: "replaceAllUsesWith (InstV u) v2 M2 = Some M3" by (simp add: replaceAllUsesWith_def)
  have b3: "below (fresh M2) v2" using v2(1) I2(2) I1(2) by simp
  have wf2: "ir_wf M2" using ok2 by (simp add: ir_ok_def)
  note W3 = replace_wf [OF wf2 b3 M3] and R3 = replace_instrs [OF M3]
  have ok3: "ir_ok {} M3" by (rule replace_ok [OF ok2 b3 M3])
  have "users M3 (InstV u) = []" using W3(5) v2(1) un by simp
  then obtain M4 where M4: "eraseFromParent u M3 = Some M4" by (simp add: eraseFromParent_def)
  note W4 = erase_wf [OF W3(1) M4] and E4 = erase_instrs [OF M4]
  have f4: "find_instr M4 w = (if w = u then None else map_option (subst_inst (InstV u) v2) (find_instr M2 w))" for w
    using W4(2) W3(2) by simp
  have old: "find_instr M w \<noteq> None \<Longrightarrow> w < ?n" for w
    using ir_wfD(2) [OF wf] find_instr_iff [OF wf] by auto
  have one: "w \<noteq> u \<and> (\<exists>as. call_of M w = Some (FunctionV T, as))" if w: "call_of M4 w = Some (FunctionV T, as4)" for w as4
  proof -
    obtain D where D: "w \<noteq> u" "find_instr M2 w = Some D" "subst_op (InstV u) v2 (iop D) = CallInst (FunctionV T) as4"
      using w unfolding call_of_iff f4 by (auto split: if_splits)
    obtain c as2 where c: "iop D = CallInst c as2" "c = FunctionV T"
      using D(3) v2(1) by (cases "iop D") (auto split: if_splits)
    have "w \<noteq> ?n" "w \<noteq> Suc ?n" using D(2) c Sp(4) W2(3) W1(3) I1(2) by (auto split: if_splits)
    then have "find_instr M w = Some D" using D(2) f2 by simp
    then show ?thesis using D(1) c call_of_iff by blast
  qed
  have kept: "find_instr M4 w = map_option (subst_inst (InstV u) v2) (find_instr M w)" if "w \<noteq> u" "find_instr M w \<noteq> None" for w
    using f4 f2 old [OF that(2)] that(1) by simp
  have two: "find_instr M4 w \<noteq> None \<and> call_of M4 w = None" if "w \<noteq> u" "find_instr M w \<noteq> None" "call_of M w = None" for w
    using kept [OF that(1,2)] that(2,3) by (auto simp: call_of_def split: ir_op.splits)
  have "\<exists>as. call_of M4 w = Some (FunctionV T, as)" if "w \<noteq> u" "call_of M w = Some (FunctionV T, as')" for w as'
    using kept [OF that(1)] that(2) unfolding call_of_iff by auto
  moreover have "ir_ok {} M4" using erase_ok [OF ok3 M4] by simp
  moreover have "signatures M4 = signatures M" "globs M4 = globs M" "fresh M \<le> fresh M4"
    using E4(2-4) R3(2-4) I2(2-4) I1(2-4) by simp_all
  ultimately show ?thesis using b1 b2 M3 M4 one two by blast
qed

end
