(* ===== verification/ServerModule.thy ===== *)
theory ServerModule
  imports ServerCalls
begin

text \<open>
  \<open>createServer\<close> on a program that was linked with \<open>server.c\<close>: the server's module is well typed,
  and what happens to programs that use the target in other ways.
\<close>

subsection \<open>All calls of the target\<close>

lemma replace_calls_ok:
  assumes "ir_ok {} M" "sig M T = Some G" "vtype G = PointerTo (FunctionTy r ps False)"
    "sig M Sp = Some N" "vtype N = PointerTo (FunctionTy r ([g, char_ptr] @ ps) False)" "is_pointer g" "Sp \<noteq> T"
    "name = ElementPtr (ArrayTy n (IntegerTy 8)) (GlobalV gv) idx" "gv < fresh M"
    "distinct us" "\<forall>u \<in> set us. find_instr M u \<noteq> None \<and> (call_of M u = None \<or> (\<exists>as. call_of M u = Some (FunctionV T, as)))"
    "\<forall>u \<in> set us. call_of M u \<noteq> None \<longrightarrow> intact u"
  shows "\<exists>M'. replace_calls intact T Sp g name us M = Some M' \<and> ir_ok {} M' \<and> signatures M' = signatures M \<and>
    (\<forall>w as. call_of M' w = Some (FunctionV T, as) \<longrightarrow> w \<notin> set us \<and> (\<exists>as. call_of M w = Some (FunctionV T, as)))"
  using assms
proof (induction us arbitrary: M)
  case (Cons u us)
  show ?case
  proof (cases "call_of M u")
    case None
    obtain M' where "replace_calls intact T Sp g name us M = Some M'" "ir_ok {} M'" "signatures M' = signatures M"
      "\<forall>w as. call_of M' w = Some (FunctionV T, as) \<longrightarrow> w \<notin> set us \<and> (\<exists>as. call_of M w = Some (FunctionV T, as))"
      using Cons.IH [OF Cons.prems(1-9)] Cons.prems(10-12) by auto
    then show ?thesis using None by fastforce
  next
    case (Some ca)
    then obtain as where u: "call_of M u = Some (FunctionV T, as)" using Cons.prems(11) by auto
    obtain v1 M1 v2 M2 M3 M4 where st: "new_bitcast (FunctionV T) g u M = Some (v1, M1)"
      "new_call (FunctionV Sp) ([v1, name] @ as) [] u M1 = Some (v2, M2)"
      "replaceAllUsesWith (InstV u) v2 M2 = Some M3" "eraseFromParent u M3 = Some M4"
      "ir_ok {} M4" "signatures M4 = signatures M" "globs M4 = globs M" "fresh M \<le> fresh M4"
      "\<forall>w as. w \<noteq> u \<longrightarrow> call_of M w = Some (FunctionV T, as) \<longrightarrow> (\<exists>as. call_of M4 w = Some (FunctionV T, as))"
      "\<forall>w as. call_of M4 w = Some (FunctionV T, as) \<longrightarrow> w \<noteq> u \<and> (\<exists>as. call_of M w = Some (FunctionV T, as))"
      "\<forall>w \<noteq> u. find_instr M w \<noteq> None \<longrightarrow> call_of M w = None \<longrightarrow> find_instr M4 w \<noteq> None \<and> call_of M4 w = None"
      using replace_one_call [OF Cons.prems(1-9) u] by blast
    have rest: "\<forall>w \<in> set us. find_instr M4 w \<noteq> None \<and> (call_of M4 w = None \<or> (\<exists>as. call_of M4 w = Some (FunctionV T, as)))"
    proof
      fix w assume w: "w \<in> set us"
      then have ne: "w \<noteq> u" using Cons.prems(10) by auto
      show "find_instr M4 w \<noteq> None \<and> (call_of M4 w = None \<or> (\<exists>as. call_of M4 w = Some (FunctionV T, as)))"
      proof (cases "call_of M w")
        case None
        then show ?thesis using st(11) ne Cons.prems(11) w by simp
      next
        case (Some a)
        then obtain as where "call_of M4 w = Some (FunctionV T, as)" using st(9) ne Cons.prems(11) w by fastforce
        then show ?thesis using call_of_iff by blast
      qed
    qed
    have safe: "\<forall>w \<in> set us. call_of M4 w \<noteq> None \<longrightarrow> intact w"
    proof (intro ballI impI)
      fix w assume w: "w \<in> set us" "call_of M4 w \<noteq> None"
      then have "w \<noteq> u" "find_instr M w \<noteq> None" using Cons.prems(10,11) by auto
      then have "call_of M w \<noteq> None" using st(11) w(2) by metis
      then show "intact w" using Cons.prems(12) w(1) by simp
    qed
    have "intact u" using Cons.prems(12) u by simp
    moreover have sg: "sig M4 T = Some G" "sig M4 Sp = Some N" "gv < fresh M4" using Cons.prems(2,4,9) st(6,8) by simp_all
    obtain M' where "replace_calls intact T Sp g name us M4 = Some M'" "ir_ok {} M'" "signatures M' = signatures M4"
      "\<forall>w as. call_of M' w = Some (FunctionV T, as) \<longrightarrow> w \<notin> set us \<and> (\<exists>as. call_of M4 w = Some (FunctionV T, as))"
      using Cons.IH [OF st(5) sg(1) Cons.prems(3) sg(2) Cons.prems(5-8) sg(3) _ rest safe] Cons.prems(10) by auto
    ultimately show ?thesis using u st(1-4,6,10) by fastforce
  qed
qed auto

text \<open>A function type is larger than the types of its parameters.\<close>

lemma own_parameter: "PointerTo (FunctionTy r ps b) \<in> set ps \<Longrightarrow> False"
proof -
  assume "PointerTo (FunctionTy r ps b) \<in> set ps"
  then have "size (PointerTo (FunctionTy r ps b)) \<le> size_list size ps" by (rule size_list_estimation') simp
  then show False by simp
qed

text \<open>Inserted instructions do not change the type of a value that was there.\<close>

lemma new_call_types:
  assumes wf: "ir_wf M" and i: "find_instr M i = Some J" and b: "\<forall>v \<in> set (c # as). below (fresh M) v"
    and n: "new_call c as m i M = Some (v, M')"
  shows "ir_wf M'" "find_instr M' i = Some J" "type_of M' v = called_result (type_of M c)" "fresh M' = Suc (fresh M)"
    "w \<noteq> v \<Longrightarrow> type_of M' w = type_of M w"
proof -
  have ins: "insert_before_inst i m (called_result (type_of M c)) (CallInst c as) M = (v, M')"
    using n by (simp add: new_call_def split: if_splits)
  have o: "\<forall>v \<in> set (operands (CallInst c as)). below (fresh M) v" using b by auto
  note W = insert_wf [OF wf i o ins] and I = insert_instrs [OF ins]
  show "ir_wf M'" "find_instr M' i = Some J" "type_of M' v = called_result (type_of M c)" "fresh M' = Suc (fresh M)"
    using W(1,3) W(4) [of v] I(1,2) i find_fresh [OF wf] by auto
  show "w \<noteq> v \<Longrightarrow> type_of M' w = type_of M w" using W(4) I(1) by simp
qed

lemma new_bitcast_types:
  assumes wf: "ir_wf M" and i: "find_instr M i = Some J" and b: "below (fresh M) x"
    and n: "new_bitcast x t i M = Some (v, M')"
  shows "ir_wf M'" "find_instr M' i = Some J" "type_of M' v = t" "fresh M' = Suc (fresh M)" "v = InstV (fresh M)"
    "w \<noteq> v \<Longrightarrow> type_of M' w = type_of M w"
proof -
  have ins: "insert_before_inst i [] t (BitCastInst x) M = (v, M')"
    using n by (simp add: new_bitcast_def split: if_splits)
  have o: "\<forall>v \<in> set (operands (BitCastInst x)). below (fresh M) v" using b by auto
  note W = insert_wf [OF wf i o ins] and I = insert_instrs [OF ins]
  show "ir_wf M'" "find_instr M' i = Some J" "type_of M' v = t" "fresh M' = Suc (fresh M)" "v = InstV (fresh M)"
    using W(1,3) W(4) [of v] I(1,2) i find_fresh [OF wf] by auto
  show "w \<noteq> v \<Longrightarrow> type_of M' w = type_of M w" using W(4) I(1) by simp
qed

text \<open>Where the loop fails: at a call that gets the target, and after a call whose memory does not last.\<close>

lemma replaced_call:
  assumes wf: "ir_wf M" and w: "call_of M w = Some (c, as)" and b: "below (fresh M) (FunctionV T)" "below (fresh M) (FunctionV Sp)" "below (fresh M) name"
    and st: "new_bitcast (FunctionV T) g w M = Some (v1, M1)" "new_call (FunctionV Sp) ([v1, name] @ as) [] w M1 = Some (v2, M2)"
      "replaceAllUsesWith (InstV w) v2 M2 = Some M3" "eraseFromParent w M3 = Some M4"
  shows "ir_wf M4" "signatures M4 = signatures M" "fresh M \<le> fresh M4"
    "j \<noteq> w \<Longrightarrow> find_instr M j = Some I \<Longrightarrow> find_instr M4 j = Some (subst_inst (InstV w) v2 I)"
proof -
  obtain C where C: "find_instr M w = Some C" "iop C = CallInst c as" using w call_of_iff by blast
  then have Ci: "C \<in> set (instrs M)" using find_instr_iff [OF wf] by auto
  obtain i1: "insert_before_inst w [] g (BitCastInst (FunctionV T)) M = (v1, M1)"
    using st(1) by (auto simp: new_bitcast_def split: if_splits)
  have o1: "\<forall>v \<in> set (operands (BitCastInst (FunctionV T))). below (fresh M) v" using b(1) by simp
  note I1 = insert_instrs [OF i1] and W1 = insert_wf [OF wf C(1) o1 i1]
  have "w < fresh M" using ir_wfD(2) [OF wf Ci] find_instr_iff [OF wf] C(1) by auto
  then have c1: "find_instr M1 w = Some C" using W1(3) C(1) by simp
  obtain i2: "insert_before_inst w [] (called_result (type_of M1 (FunctionV Sp))) (CallInst (FunctionV Sp) ([v1, name] @ as)) M1 = (v2, M2)"
    using st(2) by (auto simp: new_call_def split: if_splits)
  have "\<forall>v \<in> set as. below (fresh M) v" using ir_wfD(3) [OF wf Ci] C(2) by simp
  then have o2: "\<forall>v \<in> set (operands (CallInst (FunctionV Sp) ([v1, name] @ as))). below (fresh M1) v"
    using I1(1,2) b(2,3) by (auto intro: below_mono)
  note I2 = insert_instrs [OF i2] and W2 = insert_wf [OF W1(1) c1 o2 i2]
  have b2: "below (fresh M2) v2" using I2(1,2) by simp
  note W3 = replace_wf [OF W2(1) b2 st(3)] and R3 = replace_instrs [OF st(3)]
  note W4 = erase_wf [OF W3(1) st(4)] and E4 = erase_instrs [OF st(4)]
  show "ir_wf M4" "signatures M4 = signatures M" "fresh M \<le> fresh M4"
    using W4(1) E4(2,3) R3(2,3) I2(2,3) I1(2,3) by simp_all
  show "find_instr M4 j = Some (subst_inst (InstV w) v2 I)" if "j \<noteq> w" "find_instr M j = Some I"
  proof -
    have "j < fresh M" using ir_wfD(2) [OF wf] find_instr_iff [OF wf] that(2) by auto
    then show ?thesis using that W4(2) W3(2) W2(3) W1(3) I1(2) by simp
  qed
qed

lemma replace_calls_fails:
  assumes "ir_wf M" "sig M T = Some G" "vtype G = PointerTo (FunctionTy r ps False)"
    "sig M Sp = Some N" "vtype N = PointerTo (FunctionTy r ([g, char_ptr] @ ps) False)" "below (fresh M) name"
    "u \<in> set us" "call_of M u = Some (c, as)" "FunctionV T \<in> set as \<or> \<not> intact u"
  shows "replace_calls intact T Sp g name us M = None"
  using assms
proof (induction us arbitrary: M c as)
  case (Cons w us)
  show ?case
  proof (cases "call_of M w")
    case None
    then have "u \<in> set us" using Cons.prems(7,8) by auto
    from Cons.IH [OF Cons.prems(1-6) this Cons.prems(8,9)] show ?thesis using None by simp
  next
    case (Some d)
    then obtain c1 as1 where w: "call_of M w = Some (c1, as1)" by (cases d) auto
    show ?thesis
    proof (rule ccontr)
      assume "replace_calls intact T Sp g name (w # us) M \<noteq> None"
      then obtain v1 M1 v2 M2 M3 M4 where st: "new_bitcast (FunctionV T) g w M = Some (v1, M1)"
        "new_call (FunctionV Sp) ([v1, name] @ as1) [] w M1 = Some (v2, M2)"
        "replaceAllUsesWith (InstV w) v2 M2 = Some M3" "eraseFromParent w M3 = Some M4"
        and rest: "intact w" "replace_calls intact T Sp g name us M4 \<noteq> None"
        using w by (auto simp: bind_Some_iff split: if_splits)
      have b: "below (fresh M) (FunctionV T)" "below (fresh M) (FunctionV Sp)"
        using sig_below [OF Cons.prems(1,2)] sig_below [OF Cons.prems(1,4)] by simp_all
      note K = replaced_call [OF Cons.prems(1) w b Cons.prems(6) st]
      have sg: "sig M4 T = Some G" "sig M4 Sp = Some N" using K(2) Cons.prems(2,4) by simp_all
      have nm: "below (fresh M4) name" by (rule below_mono [OF Cons.prems(6) K(3)])
      have "w \<noteq> u"
      proof
        assume "w = u"
        then have "FunctionV T \<in> set as1" using Cons.prems(8,9) w rest(1) by auto
        moreover have "map (type_of M1) as1 = ps"
        proof -
          have "signatures M1 = signatures M"
            using st(1) insert_instrs(3) by (auto simp: new_bitcast_def split: if_splits)
          then have "type_of M1 (FunctionV Sp) = PointerTo (FunctionTy r ([g, char_ptr] @ ps) False)"
            using type_of_function [of M1 Sp N] Cons.prems(4,5) by simp
          then have "map (type_of M1) ([v1, name] @ as1) = [g, char_ptr] @ ps"
            using st(2) by (auto simp: new_call_def split: if_splits)
          then show ?thesis by simp
        qed
        moreover have "type_of M1 (FunctionV T) = PointerTo (FunctionTy r ps False)"
        proof -
          have "signatures M1 = signatures M"
            using st(1) insert_instrs(3) by (auto simp: new_bitcast_def split: if_splits)
          then show ?thesis using type_of_function [of M1 T G] Cons.prems(2,3) by simp
        qed
        ultimately have "PointerTo (FunctionTy r ps False) \<in> set ps" by force
        then show False by (rule own_parameter)
      qed
      then have u: "u \<in> set us" using Cons.prems(7) by simp
      obtain C where C: "find_instr M u = Some C" "iop C = CallInst c as" using Cons.prems(8) call_of_iff by blast
      obtain c2 as2 where c2: "call_of M4 u = Some (c2, as2)" "FunctionV T \<in> set as \<Longrightarrow> FunctionV T \<in> set as2"
      proof
        let ?s = "\<lambda>x. if x = InstV w then v2 else x"
        show "call_of M4 u = Some (?s c, map ?s as)"
          using K(4) [OF \<open>w \<noteq> u\<close> [symmetric] C(1)] C(2) by (simp add: call_of_iff)
        show "FunctionV T \<in> set as \<Longrightarrow> FunctionV T \<in> set (map ?s as)" by force
      qed
      have "replace_calls intact T Sp g name us M4 = None"
        by (rule Cons.IH [OF K(1) sg(1) Cons.prems(3) sg(2) Cons.prems(5) nm u c2(1)]) (use Cons.prems(9) c2(2) in blast)
      then show False using rest(2) by simp
    qed
  qed
qed simp

subsection \<open>Linked programs\<close>

text \<open>
  A well-typed program that was linked with the template functions: \<open>spawn_impl\<close> calls the two
  stubs, \<open>_server_spawn_worker\<close> calls \<open>spawn_impl\<close>, and these are the only uses of the three
  functions. The target \<open>n\<close> takes \<open>ps\<close> and returns \<open>r\<close>, an \<open>i32\<close> or nothing; in the second case the
  stubs' values are only returned.  The target is called, and not passed to a call.
\<close>

definition template_call :: "ir_module \<Rightarrow> ir_type \<Rightarrow> nat \<Rightarrow> nat \<Rightarrow> nat set \<Rightarrow> bool" where
  "template_call M r c f E \<longleftrightarrow> result_use M r c f E \<and> (r = VoidTy \<longrightarrow> returns M f = E)"

definition linked :: "string \<Rightarrow> ir_module \<Rightarrow> ir_type \<Rightarrow> ir_type list \<Rightarrow> ir_type \<Rightarrow> bool" where
  "linked n M r ps g \<longleftrightarrow> ir_ok {} M \<and> is_pointer g \<and> (r = IntegerTy 32 \<or> r = VoidTy) \<and>
     n \<notin> {[], ''spawn_impl'', ''_server_spawn_worker'', ''_stub_rewrite_call'', ''_stub_target_call''} \<and>
     (\<exists>T G. getFunction M n = Some T \<and> sig M T = Some G \<and> ftype G = FunctionTy r ps False \<and> vtype G = PointerTo (ftype G) \<and>
       distinct (users M (FunctionV T)) \<and>
       (\<forall>u \<in> set (users M (FunctionV T)). call_of M u = None \<or> (\<exists>as. call_of M u = Some (FunctionV T, as)))) \<and>
     (\<exists>S F W FW rs RF ts TF rc tc sc E E'.
       getFunction M ''spawn_impl'' = Some S \<and> sig M S = Some F \<and> template F [g, char_ptr] \<and>
       getFunction M ''_server_spawn_worker'' = Some W \<and> sig M W = Some FW \<and> template FW [g, char_ptr] \<and>
       getFunction M ''_stub_rewrite_call'' = Some rs \<and> sig M rs = Some RF \<and> is_stub RF \<and> only_call M rs rc \<and> users M (InstV rc) = [] \<and>
       getFunction M ''_stub_target_call'' = Some ts \<and> sig M ts = Some TF \<and> is_stub TF \<and> only_call M ts tc \<and> template_call M r tc S E \<and>
       only_call M S sc \<and> template_call M r sc W E')"

text \<open>The same without the condition on the calls: the three calls of the template do not get the target.\<close>

definition with_templates :: "string \<Rightarrow> ir_module \<Rightarrow> ir_type \<Rightarrow> ir_type list \<Rightarrow> ir_type \<Rightarrow> bool" where
  "with_templates n M r ps g \<longleftrightarrow> ir_ok {} M \<and> is_pointer g \<and> (r = IntegerTy 32 \<or> r = VoidTy) \<and>
     n \<notin> {[], ''spawn_impl'', ''_server_spawn_worker'', ''_stub_rewrite_call'', ''_stub_target_call''} \<and>
     (\<exists>T G S F W FW rs RF ts TF rc tc sc E E'.
       getFunction M n = Some T \<and> sig M T = Some G \<and> ftype G = FunctionTy r ps False \<and> vtype G = PointerTo (FunctionTy r ps False) \<and>
       set (users M (FunctionV T)) \<inter> {rc, tc, sc} = {} \<and> distinct [T, S, W, rs, ts] \<and> fname G = n \<and>
       getFunction M ''spawn_impl'' = Some S \<and> sig M S = Some F \<and> template F [g, char_ptr] \<and> fname F = ''spawn_impl'' \<and>
       getFunction M ''_server_spawn_worker'' = Some W \<and> sig M W = Some FW \<and> template FW [g, char_ptr] \<and> fname FW = ''_server_spawn_worker'' \<and>
       getFunction M ''_stub_rewrite_call'' = Some rs \<and> sig M rs = Some RF \<and> is_stub RF \<and> only_call M rs rc \<and> users M (InstV rc) = [] \<and>
       getFunction M ''_stub_target_call'' = Some ts \<and> sig M ts = Some TF \<and> is_stub TF \<and> only_call M ts tc \<and> template_call M r tc S E \<and>
       only_call M S sc \<and> template_call M r sc W E')"

lemma typed_but_mono: "typed_but X M \<Longrightarrow> X \<subseteq> Y \<Longrightarrow> typed_but Y M"
  by (auto simp: typed_but_def)

lemma keeps_result_use:
  assumes k: "keeps V D M M'" "result_vals r c E \<subseteq> V" "E \<inter> D = {}" and u: "result_use M r c f E" and f: "E \<subseteq> returns M' f"
  shows "result_use M' r c f E"
proof -
  consider (int) "r = IntegerTy 32" "E = {}" | (unused) "r = VoidTy" "users M (InstV c) = []" "E = {}"
    | (ret) x I where "r = VoidTy" "E = {x}" "users M (InstV c) = [x]" "users M (InstV x) = []" "find_instr M x = Some I"
      "iop I = ReturnInst (Some (InstV c))"
    using u unfolding result_use_def by blast
  then show ?thesis
  proof cases
    case unused
    then have "users M' (InstV c) = []" using keeps_users_none [OF k(1)] k(2) by (auto simp: result_vals_def)
    then show ?thesis using unused by (simp add: result_use_def)
  next
    case ret
    have V: "InstV c \<in> V" "InstV x \<in> V" using k(2) ret(1,2) by (auto simp: result_vals_def)
    obtain I' where I': "find_instr M' x = Some I'" "op_kind (iop I') = op_kind (iop I)"
      "list_all2 (\<lambda>x y. x \<in> V \<longrightarrow> y = x) (operands (iop I)) (operands (iop I'))"
      using k(1,3) ret(2,5) unfolding keeps_def by blast
    then have o: "iop I' = ReturnInst (Some (InstV c))"
      using ret(6) V(1) by (cases "iop I'") (auto simp: list_all2_Cons1 split: option.splits)
    then show ?thesis
      using ret(1,2) keeps_users_one [OF k(1) V(1) ret(3)] keeps_users_none [OF k(1) V(2) ret(4)] f I'(1)
      unfolding result_use_def by blast
  qed (simp add: result_use_def)
qed

text \<open>The old function is replaced by its new version and erased.\<close>

lemma adopt_ok:
  assumes ok: "ir_ok X M" and S: "sig M S = Some F" "code_of M S = []" "set (users M (FunctionV S)) \<subseteq> X"
      "\<forall>k < length (params F). users M (ArgumentV S k) = []"
    and N: "sig M N = Some NF" "N \<noteq> S" "users M (FunctionV N) = []" and V: "FunctionV S \<notin> V" "FunctionV N \<notin> V"
    and M1: "M1 = upd_func S (\<lambda>F. F\<lparr>vtype := type_of M (FunctionV N)\<rparr>) M"
  shows "\<exists>M2 M3. replaceAllUsesWith (FunctionV S) (FunctionV N) M1 = Some M2 \<and> erase_function S M2 = Some M3 \<and> ir_ok X M3 \<and>
    (\<forall>f. sig M3 f = (if f = S then None else sig M f)) \<and> globs M3 = globs M \<and> fresh M3 = fresh M \<and> keeps V {} M M3 \<and>
    users M3 (FunctionV N) = users M (FunctionV S) \<and> (\<forall>f. returns M3 f = returns M f) \<and>
    (\<forall>j. find_instr M3 j = map_option (subst_inst (FunctionV S) (FunctionV N)) (find_instr M j))"
proof -
  let ?t = "type_of M (FunctionV N)"
  note m = mutate_type_ok [OF ok S(3) M1]
  have wf: "ir_wf M" "ir_wf M1" using ok m(1) by (simp_all add: ir_ok_def)
  have t: "type_of M1 (FunctionV S) = ?t" "type_of M1 (FunctionV N) = ?t"
    using m(2) [of S] m(8) [of "FunctionV N"] S(1) N(2) by (simp_all add: type_of_function)
  then obtain M2 where M2: "replaceAllUsesWith (FunctionV S) (FunctionV N) M1 = Some M2" by (simp add: replaceAllUsesWith_def)
  have b: "below (fresh M1) (FunctionV N)" using sig_below [OF wf(1) N(1)] m(7) by simp
  note R = replace_instrs [OF M2] and W = replace_wf [OF wf(2) b M2]
  have ok2: "ir_ok X M2" by (rule replace_ok [OF m(1) b M2])
  have s2: "sig M2 S = Some (F\<lparr>vtype := ?t\<rparr>)" using R(3) m(2) [of S] S(1) by simp
  have c2: "code_of M2 S = []" using replace_code [OF M2] m(5) [of S] S(2) by simp
  have "users M2 (ArgumentV S k) = []" if "k < length (params F)" for k using W(4) m(3) S(4) that by simp
  then have u2: "users M2 (FunctionV S) = []" "\<forall>k < length (params (F\<lparr>vtype := ?t\<rparr>)). users M2 (ArgumentV S k) = []"
    using W(5) N(2) by simp_all
  obtain M3 where M3: "erase_function S M2 = Some M3" "ir_ok X M3" "\<forall>f. sig M3 f = (if f = S then None else sig M2 f)"
    "users M3 = users M2" "find_instr M3 = find_instr M2" "\<forall>f. code_of M3 f = code_of M2 f" "globs M3 = globs M2" "fresh M3 = fresh M2"
    using erase_function_ok [OF ok2 s2 c2 u2] by blast
  have k: "keeps V {} M M3"
  proof -
    have k: "keeps V {} M M1" "keeps V {} M1 M2" "keeps V {} M2 M3"
      using keeps_same m M3(4,5,8) keeps_replace [OF wf(2) b M2 V] by simp_all
    show ?thesis using keeps_trans [OF keeps_trans [OF k(1,2)] k(3)] by simp
  qed
  have "returns M3 f = returns M f" for f
    using M3(6) returns_replace [OF M2, of f] m(5) [of f] by (simp add: returns_def)
  moreover have "users M3 (FunctionV N) = users M (FunctionV S)" using M3(4) W(6) m(3) N(3) by simp
  moreover have "find_instr M3 j = map_option (subst_inst (FunctionV S) (FunctionV N)) (find_instr M j)" for j
    using M3(5) W(2) m(4) by simp
  moreover have "sig M3 f = (if f = S then None else sig M f)" for f using M3(3) R(3) m(2) [of f] by simp
  ultimately show ?thesis using M2 M3(1,2,7,8) R(2,4) m(6,7) k by auto
qed

text \<open>The first half: \<open>spawn_impl\<close>.\<close>

lemma spawn_impl_stage:
  assumes ok: "ir_ok {} M" and uo: "use_order uses" and r: "r = IntegerTy 32 \<or> r = VoidTy"
    and T: "sig M T = Some G" "ftype G = FunctionTy r ps False" "rc \<notin> set (users M (FunctionV T))" "tc \<notin> set (users M (FunctionV T))"
    and S: "sig M S = Some F" "template F qs" "fname F = ''spawn_impl''" "S \<noteq> T"
    and rs: "getFunction M ''_stub_rewrite_call'' = Some rs" "sig M rs = Some RF" "is_stub RF" "only_call M rs rc" "rs \<noteq> T" "rs \<noteq> S"
    and ts: "getFunction M ''_stub_target_call'' = Some ts" "sig M ts = Some TF" "is_stub TF" "only_call M ts tc" "ts \<noteq> T" "ts \<noteq> S"
    and use: "users M (InstV rc) = []" "template_call M r tc S E"
    and W: "only_call M S sc" "template_call M r sc W E'" "W \<noteq> S" "sig M W = Some FW"
  shows "\<exists>N M1 M2 M3. fixSpawnImpl uses S T M = Some (fresh M, M1) \<and>
    replaceAllUsesWith (FunctionV S) (FunctionV (fresh M)) (upd_func S (\<lambda>F. F\<lparr>vtype := type_of M1 (FunctionV (fresh M))\<rparr>) M1) = Some M2 \<and>
    erase_function S M2 = Some M3 \<and> ir_ok (insert sc E') M3 \<and> spawn_version N F qs r ps \<and>
    (\<forall>f. sig M3 f = (if f = S then None else if f = fresh M then Some N else sig M f)) \<and> globs M3 = globs M \<and>
    keeps {FunctionV T} (insert rc (insert tc E)) M M3 \<and> only_call M3 (fresh M) sc \<and>
    (\<exists>C. find_instr M3 sc = Some C \<and> itype C = IntegerTy 32) \<and> template_call M3 r sc W E'"
proof -
  have wf: "ir_wf M" and ty: "typed_but {} M" using ok by (auto simp: ir_ok_def)
  have calls: "\<exists>C as. find_instr M rc = Some C \<and> iop C = CallInst (FunctionV rs) as"
    "\<exists>C as. find_instr M tc = Some C \<and> iop C = CallInst (FunctionV ts) as"
    "\<exists>C as. find_instr M sc = Some C \<and> iop C = CallInst (FunctionV S) as"
    using rs(4) ts(4) W(1) unfolding only_call_def call_of_iff by blast+
  have ret: "x \<in> E \<Longrightarrow> \<exists>I. find_instr M x = Some I \<and> iop I = ReturnInst (Some (InstV tc))"
    "y \<in> E' \<Longrightarrow> \<exists>I. find_instr M y = Some I \<and> iop I = ReturnInst (Some (InstV sc))" for x y
    using use(2) W(2) unfolding template_call_def result_use_def by auto
  have ne: "rc \<noteq> sc" "tc \<noteq> sc" "rc \<notin> E" "tc \<notin> E" "sc \<notin> E" "rc \<notin> E'" "tc \<notin> E'" "sc \<notin> E'" "E \<inter> E' = {}"
    using calls ret rs(6) ts(6) by fastforce+
  have low: "sc < fresh M" "\<forall>y \<in> E'. y < fresh M"
    using calls(3) ret(2) ir_wfD(2) [OF wf] find_instr_iff [OF wf] by fastforce+
  let ?X = "insert sc (E \<union> E')"
  let ?V = "{FunctionV T, FunctionV S, FunctionV (fresh M)} \<union> result_vals r sc E'"
  have okX: "ir_ok ?X M" using wf typed_but_mono [OF ty] by (simp add: ir_ok_def)
  have u0: "users M (FunctionV (fresh M)) = []"
    using ir_wfD(3) [OF wf] users_iff [of _ M "FunctionV (fresh M)"] by (metis below.simps(1) ex_in_conv less_irrefl set_empty)
  have uT: "rc \<notin> set (users M (FunctionV T))" "tc \<notin> set (users M (FunctionV T))"
    by (rule T(3), rule T(4))
  have uR: "v \<in> result_vals r sc E' \<Longrightarrow> set (users M v) \<subseteq> E' \<and> below (fresh M) v \<and> v \<noteq> InstV rc \<and> v \<noteq> InstV tc" for v
    using W(2) low ne unfolding result_vals_def template_call_def result_use_def by (auto split: if_splits)
  have V: "\<forall>v \<in> ?V. below (Suc (fresh M)) v \<and> rc \<notin> set (users M v) \<and> tc \<notin> set (users M v)"
  proof
    fix v assume v: "v \<in> ?V"
    show "below (Suc (fresh M)) v \<and> rc \<notin> set (users M v) \<and> tc \<notin> set (users M v)"
    proof (cases "v \<in> result_vals r sc E'")
      case True
      then show ?thesis using uR ne(6,7) below_mono [of "fresh M" v "Suc (fresh M)"] by auto
    next
      case False
      then have "v \<in> {FunctionV T, FunctionV S, FunctionV (fresh M)}" using v by blast
      then show ?thesis
        using u0 uT W(1) ne(1,2) sig_below [OF wf T(1)] sig_below [OF wf S(1)] by (auto simp: only_call_def)
    qed
  qed
  have V': "InstV rc \<notin> ?V" "InstV tc \<notin> ?V" "\<forall>k. ArgumentV S k \<notin> ?V \<and> ArgumentV (fresh M) k \<notin> ?V"
  proof -
    have "ArgumentV f k \<notin> result_vals r sc E'" for f k by (auto simp: result_vals_def)
    then show "\<forall>k. ArgumentV S k \<notin> ?V \<and> ArgumentV (fresh M) k \<notin> ?V" by simp
    show "InstV rc \<notin> ?V" "InstV tc \<notin> ?V" using uR by blast+
  qed
  have r': "r = IntegerTy 32 \<or> r = VoidTy \<and> returns M S \<subseteq> ?X" using r use(2) by (auto simp: template_call_def)
  have rX: "rc \<notin> ?X" "tc \<notin> ?X" using ne by auto
  have ruse: "result_use M r tc S E" using use(2) by (simp add: template_call_def)
  obtain N M1 where M1: "fixSpawnImpl uses S T M = Some (fresh M, M1)" "ir_ok (?X - E) M1" "spawn_version N F qs r ps"
    "\<forall>f. sig M1 f = (if f = fresh M then Some N else if f = S then Some (F\<lparr>fname := []\<rparr>) else sig M f)"
    "globs M1 = globs M" "keeps ?V (insert rc (insert tc E)) M M1"
    "\<forall>f. f \<noteq> fresh M \<and> f \<noteq> S \<longrightarrow> returns M1 f \<subseteq> returns M f \<and> returns M f - E \<subseteq> returns M1 f" "code_of M1 S = []"
    "\<forall>k < length qs. users M1 (ArgumentV S k) = []"
    using fixSpawnImpl_ok [OF okX uo S(1-3) T(1,2) r' rs(1-4) ts(1-4) use(1) ruse rX V V'] by blast
  let ?V1 = "{FunctionV T} \<union> result_vals r sc E'"
  have k1: "users M1 v = []" if "v \<in> ?V" "users M v = []" for v using keeps_users_none [OF M1(6)] that by blast
  have sc1: "only_call M1 S sc" by (rule keeps_only_call [OF M1(6) _ _ W(1)]) (use ne in auto)
  have S1: "sig M1 S = Some (F\<lparr>fname := []\<rparr>)" "sig M1 (fresh M) = Some N" "fresh M \<noteq> S"
    using M1(4) sig_below [OF wf S(1)] by auto
  have uS: "set (users M1 (FunctionV S)) \<subseteq> ?X - E" using sc1 ne(5) by (simp add: only_call_def)
  have lq: "length (params (F\<lparr>fname := []\<rparr>)) = length qs"
    using S(2) by (simp add: template_def) (metis length_map)
  have aS: "\<forall>k < length (params (F\<lparr>fname := []\<rparr>)). users M1 (ArgumentV S k) = []" unfolding lq using M1(9) .
  have fV: "FunctionV S \<notin> ?V1" "FunctionV (fresh M) \<notin> ?V1"
    using S(4) sig_below [OF wf T(1)] by (auto simp: result_vals_def)
  obtain M2 M3 where M3: "replaceAllUsesWith (FunctionV S) (FunctionV (fresh M))
      (upd_func S (\<lambda>F. F\<lparr>vtype := type_of M1 (FunctionV (fresh M))\<rparr>) M1) = Some M2"
    "erase_function S M2 = Some M3" "ir_ok (?X - E) M3" "\<forall>f. sig M3 f = (if f = S then None else sig M1 f)" "globs M3 = globs M1"
    "keeps ?V1 {} M1 M3" "users M3 (FunctionV (fresh M)) = users M1 (FunctionV S)" "\<forall>f. returns M3 f = returns M1 f"
    "\<forall>j. find_instr M3 j = map_option (subst_inst (FunctionV S) (FunctionV (fresh M))) (find_instr M1 j)"
    using adopt_ok [OF M1(2) S1(1) M1(8) uS aS S1(2,3) k1 fV refl] u0 by blast
  have k3: "keeps ?V1 (insert rc (insert tc E)) M M3"
    using keeps_trans [OF keeps_mono [OF M1(6)] M3(6), of "insert rc (insert tc E)"] by auto
  have oc3: "only_call M3 (fresh M) sc"
    using sc1 M3(7,9) unfolding only_call_def call_of_iff by fastforce
  have X3: "?X - E = insert sc E'" using ne by blast
  have C3: "\<exists>C. find_instr M3 sc = Some C \<and> itype C = IntegerTy 32"
  proof -
    obtain C as where C: "find_instr M sc = Some C" "iop C = CallInst (FunctionV S) as" using calls(3) by blast
    then obtain R where R: "(R, C) \<in> set (located M)" using find_instr_iff [OF wf] in_located by blast
    have "op_ok (type_of M) R (itype C) (CallInst (FunctionV S) as)" using ty R C(2) unfolding typed_but_def by fastforce
    then have "itype C = IntegerTy 32"
      unfolding op_ok.simps type_of_function [OF S(1)] using S(2) by (simp add: template_def)
    then show ?thesis using keeps_type [OF k3 C(1)] ne by auto
  qed
  have "W \<noteq> fresh M" using sig_below [OF wf W(4)] by blast
  then have ret3: "returns M3 W \<subseteq> returns M W" "returns M W - E \<subseteq> returns M3 W" using M3(8) M1(7) W(3) by auto
  have sub: "E' \<subseteq> returns M W" using W(2) by (auto simp: template_call_def result_use_def)
  then have sub3: "E' \<subseteq> returns M3 W" using ret3(2) ne(9) by blast
  have t3: "template_call M3 r sc W E'"
  proof -
    have "result_use M3 r sc W E'"
      by (rule keeps_result_use [OF k3 _ _ _ sub3]) (use W(2) ne in \<open>auto simp: template_call_def\<close>)
    moreover have "r = VoidTy \<longrightarrow> returns M3 W = E'" using W(2) ret3(1) sub3 by (auto simp: template_call_def)
    ultimately show ?thesis by (simp add: template_call_def)
  qed
  have "keeps {FunctionV T} (insert rc (insert tc E)) M M3" by (rule keeps_mono [OF k3]) auto
  moreover have "\<forall>f. sig M3 f = (if f = S then None else if f = fresh M then Some N else sig M f)"
    using M3(4) M1(4) S1(3) by simp
  ultimately show ?thesis
    using M1(1,3,5) M3(1,2,3,5) oc3 C3 t3 unfolding X3 by auto
qed

text \<open>The second half: the wrapper, the name and the calls of the target.\<close>

lemma name_global_ok:
  assumes ok: "ir_ok X M" and g: "name_global n M = (name, M')"
  shows "ir_ok X M'" "name = ElementPtr (ArrayTy (length n + 1) (IntegerTy 8)) (GlobalV (fresh M)) [0, 0]"
    "fresh M' = Suc (fresh M)" "signatures M' = signatures M" "users M' = users M" "find_instr M' = find_instr M"
proof -
  have wf: "ir_wf M" and T: "typed_but X M" using ok by (auto simp: ir_ok_def)
  obtain G where M': "M' = M\<lparr>globs := globs M @ [(fresh M, G)], fresh := Suc (fresh M)\<rparr>"
    using g by (auto simp: name_global_def Let_def)
  show "name = ElementPtr (ArrayTy (length n + 1) (IntegerTy 8)) (GlobalV (fresh M)) [0, 0]"
    using g by (simp add: name_global_def Let_def)
  have gl: "globs M' = globs M @ [(fresh M, G)]" by (simp add: M')
  show f: "fresh M' = Suc (fresh M)" and sg: "signatures M' = signatures M"
    by (simp_all add: M' signatures_def)
  have same: "instrs M' = instrs M" "located M' = located M" by (simp_all add: M' instrs_def located_def)
  show us: "users M' = users M" "find_instr M' = find_instr M" by (simp_all add: fun_eq_iff users_instrs find_instr_def same)
  note W = ir_wfD [OF wf]
  have "\<forall>I \<in> set (instrs M). iref I < Suc (fresh M) \<and> (\<forall>v \<in> set (operands (iop I)). below (Suc (fresh M)) v)"
    using W(2,3) below_mono by (meson le_SucI le_refl less_SucI)
  then have "ir_wf M'" unfolding ir_wf_def same sg f using W(1,4-7) by (auto simp: M' intro: less_SucI)
  moreover have "op_ok (type_of M') R (itype I) (iop I)" if I: "(R, I) \<in> set (located M)" "iref I \<notin> X" for R I
  proof -
    have "type_of M' v = type_of M v" if "below (fresh M) v" for v
      unfolding type_of_in using that by (cases v) (auto simp: sg inst_types_def us gl map_add_def split: option.splits)
    then have "op_ok (type_of M') R (itype I) (iop I) = op_ok (type_of M) R (itype I) (iop I)"
      using W(3) [OF located_in [OF I(1)]] by (intro op_ok_cong) blast
    then show ?thesis using T I by (auto simp: typed_but_def)
  qed
  ultimately show "ir_ok X M'" by (auto simp: ir_ok_def typed_but_def same)
qed

lemma keeps_not_call:
  assumes "keeps V D M M'" "find_instr M j = Some I" "j \<notin> D" "call_of M j = None"
  shows "find_instr M' j \<noteq> None \<and> call_of M' j = None"
proof -
  obtain I' where I': "find_instr M' j = Some I'" "op_kind (iop I') = op_kind (iop I)"
    using assms(1-3) unfolding keeps_def by blast
  have "op_kind (iop I) \<noteq> 0" using assms(2,4) by (cases "iop I") (auto simp: call_of_def)
  then show ?thesis using I' by (cases "iop I'") (auto simp: call_of_def)
qed

lemma calls_stage:
  assumes ok: "ir_ok {} M" and uo: "use_order uses" and T: "sig M T = Some G" "vtype G = PointerTo (FunctionTy r ps False)"
      "distinct (users M (FunctionV T))" "\<forall>u \<in> set (users M (FunctionV T)). call_of M u = None \<or> (\<exists>as. call_of M u = Some (FunctionV T, as))"
    and Sp: "sig M Sp = Some N" "vtype N = PointerTo (FunctionTy r ([g, char_ptr] @ ps) False)" "is_pointer g" "Sp \<noteq> T"
    and M1: "name_global n M = (name, M1)"
  shows "\<exists>M'. replace_calls (\<lambda>_. True) T Sp g name (uses M1 (FunctionV T)) M1 = Some M' \<and> ir_ok {} M' \<and> signatures M' = signatures M \<and>
    (\<forall>w as. call_of M' w \<noteq> Some (FunctionV T, as))"
proof -
  note N = name_global_ok [OF ok M1]
  have wf: "ir_wf M" using ok by (simp add: ir_ok_def)
  have c: "call_of M1 = call_of M" using N(6) by (simp add: fun_eq_iff call_of_def)
  have u: "mset (uses M1 (FunctionV T)) = mset (users M (FunctionV T))" using uo N(5) by (simp add: use_order_def)
  then have us: "distinct (uses M1 (FunctionV T))" "set (uses M1 (FunctionV T)) = set (users M (FunctionV T))"
    using T(3) by (metis mset_eq_imp_distinct_iff) (metis u set_mset_mset)
  have a: "\<forall>u \<in> set (uses M1 (FunctionV T)). find_instr M1 u \<noteq> None \<and> (call_of M1 u = None \<or> (\<exists>as. call_of M1 u = Some (FunctionV T, as)))"
    using T(4) users_find [OF wf] unfolding us(2) c N(6) by auto
  have s: "sig M1 T = Some G" "sig M1 Sp = Some N" "fresh M < fresh M1" using T(1) Sp(1) N(3,4) by simp_all
  obtain M' where M': "replace_calls (\<lambda>_. True) T Sp g name (uses M1 (FunctionV T)) M1 = Some M'" "ir_ok {} M'" "signatures M' = signatures M1"
    "\<forall>w as. call_of M' w = Some (FunctionV T, as) \<longrightarrow> w \<notin> set (uses M1 (FunctionV T)) \<and> (\<exists>as. call_of M1 w = Some (FunctionV T, as))"
    using replace_calls_ok [where intact = "\<lambda>_. True", OF N(1) s(1) T(2) s(2) Sp(2-4) N(2) s(3) us(1) a] by blast
  have "w \<in> set (users M (FunctionV T))" if "call_of M w = Some (FunctionV T, as)" for w as
    using that users_find [OF wf, of w] unfolding call_of_iff by auto
  then show ?thesis using M' us(2) N(4) c by metis
qed

lemma linkedD:
  assumes "linked n M r ps g"
  shows "ir_ok {} M" "is_pointer g" "r = IntegerTy 32 \<or> r = VoidTy"
    "n \<notin> {[], ''spawn_impl'', ''_server_spawn_worker'', ''_stub_rewrite_call'', ''_stub_target_call''}" "n \<noteq> []"
proof -
  note l = assms [unfolded linked_def]
  show "ir_ok {} M" "is_pointer g" using l by simp_all
  show "r = IntegerTy 32 \<or> r = VoidTy" by (rule conjunct1 [OF conjunct2 [OF conjunct2 [OF l]]])
  show n: "n \<notin> {[], ''spawn_impl'', ''_server_spawn_worker'', ''_stub_rewrite_call'', ''_stub_target_call''}"
    by (rule conjunct1 [OF conjunct2 [OF conjunct2 [OF conjunct2 [OF l]]]])
  then show "n \<noteq> []" by simp
qed

lemma linkedE:
  assumes "linked n M r ps g"
  obtains T G S F W FW rs RF ts TF rc tc sc E E' where
    "getFunction M n = Some T" "sig M T = Some G" "ftype G = FunctionTy r ps False" "vtype G = PointerTo (FunctionTy r ps False)"
    "distinct (users M (FunctionV T))" "\<forall>u \<in> set (users M (FunctionV T)). call_of M u = None \<or> (\<exists>as. call_of M u = Some (FunctionV T, as))"
    "getFunction M ''spawn_impl'' = Some S" "sig M S = Some F" "template F [g, char_ptr]" "fname F = ''spawn_impl''"
    "getFunction M ''_server_spawn_worker'' = Some W" "sig M W = Some FW" "template FW [g, char_ptr]" "fname FW = ''_server_spawn_worker''"
    "getFunction M ''_stub_rewrite_call'' = Some rs" "sig M rs = Some RF" "is_stub RF" "only_call M rs rc" "users M (InstV rc) = []"
    "getFunction M ''_stub_target_call'' = Some ts" "sig M ts = Some TF" "is_stub TF" "only_call M ts tc" "template_call M r tc S E"
    "only_call M S sc" "template_call M r sc W E'" "distinct [T, S, W, rs, ts]" "fname G = n"
proof -
  have wf: "ir_wf M" using assms by (simp add: linked_def ir_ok_def)
  have n: "n \<notin> {[], ''spawn_impl'', ''_server_spawn_worker'', ''_stub_rewrite_call'', ''_stub_target_call''}"
    using assms unfolding linked_def by (elim conjE)
  obtain T G where T: "getFunction M n = Some T" "sig M T = Some G" "ftype G = FunctionTy r ps False" "vtype G = PointerTo (ftype G)"
    "distinct (users M (FunctionV T))" "\<forall>u \<in> set (users M (FunctionV T)). call_of M u = None \<or> (\<exists>as. call_of M u = Some (FunctionV T, as))"
    using assms unfolding linked_def by (elim conjE exE) (rule that; assumption)
  obtain S F W FW rs RF ts TF rc tc sc E E' where L: "getFunction M ''spawn_impl'' = Some S" "sig M S = Some F" "template F [g, char_ptr]"
    "getFunction M ''_server_spawn_worker'' = Some W" "sig M W = Some FW" "template FW [g, char_ptr]"
    "getFunction M ''_stub_rewrite_call'' = Some rs" "sig M rs = Some RF" "is_stub RF" "only_call M rs rc" "users M (InstV rc) = []"
    "getFunction M ''_stub_target_call'' = Some ts" "sig M ts = Some TF" "is_stub TF" "only_call M ts tc" "template_call M r tc S E"
    "only_call M S sc" "template_call M r sc W E'"
    using assms unfolding linked_def by (elim conjE exE) (rule that; assumption)
  have name: "fname F = m" if "getFunction M m = Some f" "sig M f = Some F" "m \<noteq> []" for m f F
    using getFunction_iff [OF wf that(3), of f] that(1,2) by auto
  have names: "fname G = n" "fname F = ''spawn_impl''" "fname FW = ''_server_spawn_worker''" "fname RF = ''_stub_rewrite_call''"
    "fname TF = ''_stub_target_call''"
    using name [OF T(1,2)] name [OF L(1,2)] name [OF L(4,5)] name [OF L(7,8)] name [OF L(12,13)] n by simp_all
  have d: "distinct [T, S, W, rs, ts]"
    using names T(2) L(2,5,8,13) n by auto
  have T4: "vtype G = PointerTo (FunctionTy r ps False)" using T(3,4) by simp
  show thesis
    by (rule that [OF T(1-3) T4 T(5,6) L(1-3) names(2) L(4-6) names(3) L(7-18) d names(1)])
qed

lemma linked_with:
  assumes l: "linked n M r ps g"
  shows "with_templates n M r ps g"
proof -
  obtain T G S F W FW rs RF ts TF rc tc sc E E' where
    T: "getFunction M n = Some T" "sig M T = Some G" "ftype G = FunctionTy r ps False" "vtype G = PointerTo (FunctionTy r ps False)"
      "distinct (users M (FunctionV T))" "\<forall>u \<in> set (users M (FunctionV T)). call_of M u = None \<or> (\<exists>as. call_of M u = Some (FunctionV T, as))"
    and S: "getFunction M ''spawn_impl'' = Some S" "sig M S = Some F" "template F [g, char_ptr]" "fname F = ''spawn_impl''"
    and W: "getFunction M ''_server_spawn_worker'' = Some W" "sig M W = Some FW" "template FW [g, char_ptr]" "fname FW = ''_server_spawn_worker''"
    and rs: "getFunction M ''_stub_rewrite_call'' = Some rs" "sig M rs = Some RF" "is_stub RF" "only_call M rs rc" "users M (InstV rc) = []"
    and ts: "getFunction M ''_stub_target_call'' = Some ts" "sig M ts = Some TF" "is_stub TF" "only_call M ts tc" "template_call M r tc S E"
    and sc: "only_call M S sc" "template_call M r sc W E'" and d: "distinct [T, S, W, rs, ts]" and Gn: "fname G = n"
    by (rule linkedE [OF l])
  have "T \<noteq> S" "T \<noteq> rs" "T \<noteq> ts" using d by auto
  then have u: "set (users M (FunctionV T)) \<inter> {rc, tc, sc} = {}"
    using T(6) rs(4) ts(4) sc(1) unfolding only_call_def by fastforce
  show ?thesis
    unfolding with_templates_def
    by (intro conjI exI) (rule linkedD(1-4) [OF l] T(1-4) u d Gn S W rs ts sc)+
qed

text \<open>\<open>createServer\<close> up to the loop over the uses of the target.\<close>

lemma createServer_stage:
  assumes uo: "use_order uses" and l: "with_templates n M r ps g"
  shows "\<exists>T G Sp N D name M4 M5. createServer intact uses n M = replace_calls intact T Sp g name (uses M5 (FunctionV T)) M5 \<and>
    ir_ok {} M4 \<and> name_global n M4 = (name, M5) \<and> getFunction M n = Some T \<and> sig M4 T = Some G \<and>
    vtype G = PointerTo (FunctionTy r ps False) \<and> fname G = n \<and> keeps {FunctionV T} D M M4 \<and> D \<inter> set (users M (FunctionV T)) = {} \<and>
    sig M4 Sp = Some N \<and> Sp \<noteq> T \<and> vtype N = PointerTo (FunctionTy r ([g, char_ptr] @ ps) False) \<and>
    ftype N = FunctionTy r ([g, char_ptr] @ ps) False \<and> fname N = ''_server_spawn_worker''"
proof -
  note l0 = l [unfolded with_templates_def]
  obtain T G S F W FW rs RF ts TF rc tc sc E E' where
    T: "getFunction M n = Some T" "sig M T = Some G" "ftype G = FunctionTy r ps False" "vtype G = PointerTo (FunctionTy r ps False)"
      "set (users M (FunctionV T)) \<inter> {rc, tc, sc} = {}"
    and d: "distinct [T, S, W, rs, ts]" and Gn: "fname G = n"
    and S: "getFunction M ''spawn_impl'' = Some S" "sig M S = Some F" "template F [g, char_ptr]" "fname F = ''spawn_impl''"
    and W: "getFunction M ''_server_spawn_worker'' = Some W" "sig M W = Some FW" "template FW [g, char_ptr]" "fname FW = ''_server_spawn_worker''"
    and rs: "getFunction M ''_stub_rewrite_call'' = Some rs" "sig M rs = Some RF" "is_stub RF" "only_call M rs rc" "users M (InstV rc) = []"
    and ts: "getFunction M ''_stub_target_call'' = Some ts" "sig M ts = Some TF" "is_stub TF" "only_call M ts tc" "template_call M r tc S E"
    and sc: "only_call M S sc" "template_call M r sc W E'"
    using l0 by (elim conjE exE) (rule that; assumption)
  have l': "ir_ok {} M" "is_pointer g" "r = IntegerTy 32 \<or> r = VoidTy"
    by (rule conjunct1 [OF l0], rule conjunct1 [OF conjunct2 [OF l0]], rule conjunct1 [OF conjunct2 [OF conjunct2 [OF l0]]])
  have uc: "rc \<notin> set (users M (FunctionV T))" "tc \<notin> set (users M (FunctionV T))" "sc \<notin> set (users M (FunctionV T))"
    using T(5) by blast+
  have wf: "ir_wf M" using l'(1) by (simp add: ir_ok_def)
  let ?N = "fresh M"
  have dd: "S \<noteq> T" "rs \<noteq> T" "rs \<noteq> S" "ts \<noteq> T" "ts \<noteq> S" "W \<noteq> S" "T \<noteq> W" "T < ?N" "W < ?N"
    using d sig_below [OF wf T(2)] sig_below [OF wf W(2)] by auto
  obtain N M1 M2 M3 where A: "fixSpawnImpl uses S T M = Some (?N, M1)"
    "replaceAllUsesWith (FunctionV S) (FunctionV ?N) (upd_func S (\<lambda>F. F\<lparr>vtype := type_of M1 (FunctionV ?N)\<rparr>) M1) = Some M2"
    "erase_function S M2 = Some M3" "ir_ok (insert sc E') M3" "spawn_version N F [g, char_ptr] r ps"
    "\<forall>f. sig M3 f = (if f = S then None else if f = ?N then Some N else sig M f)" "globs M3 = globs M"
    "keeps {FunctionV T} (insert rc (insert tc E)) M M3" "only_call M3 ?N sc"
    "\<exists>C. find_instr M3 sc = Some C \<and> itype C = IntegerTy 32" "template_call M3 r sc W E'"
    using spawn_impl_stage [OF l'(1) uo l'(3) T(2,3) uc(1,2) S(2,3,4) dd(1) rs(1-4) dd(2,3) ts(1-4) dd(4,5) rs(5) ts(5) sc dd(6) W(2)] by blast
  have wf3: "ir_wf M3" using A(4) by (simp add: ir_ok_def)
  have s3: "sig M3 W = Some FW" "sig M3 T = Some G" "sig M3 ?N = Some N" using A(6) dd W(2) T(2) sig_below [OF wf S(2)] by auto
  obtain C where C: "find_instr M3 sc = Some C" "itype C = IntegerTy 32" using A(10) by blast
  have use: "result_use M3 r sc W E'" "r = VoidTy \<longrightarrow> returns M3 W = E'" using A(11) by (simp_all add: template_call_def)
  have v: "fname N = ''spawn_impl''" "vtype N = PointerTo (FunctionTy r ([g, char_ptr] @ ps) False)"
    using A(5) S(4) by (simp_all add: spawn_version_def)
  have low: "T < fresh M3" by (rule sig_below [OF wf3 s3(2)])
  have uT: "w \<notin> insert rc (insert tc (insert sc (E \<union> E')))" if "w \<in> set (users M (FunctionV T))" for w
  proof -
    have "\<exists>I. find_instr M x = Some I \<and> FunctionV T \<notin> set (operands (iop I))" if "x \<in> E \<union> E'" for x
      using ts(5) sc(2) that unfolding template_call_def result_use_def by fastforce
    then have "w \<notin> E \<union> E'" using that users_find [OF wf] by fastforce
    moreover have "w \<noteq> rc" "w \<noteq> tc" "w \<noteq> sc" using uc that by blast+
    ultimately show ?thesis by blast
  qed
  have u3: "mset (users M3 (FunctionV T)) = mset (users M (FunctionV T))" using A(8) by (simp add: keeps_def)
  then have u3': "set (users M3 (FunctionV T)) = set (users M (FunctionV T))" by (metis set_mset_mset)
  have V: "\<forall>v \<in> {FunctionV T}. below (fresh M3) v \<and> sc \<notin> set (users M3 v)" "InstV sc \<notin> {FunctionV T}" "FunctionV ?N \<notin> {FunctionV T}"
    "\<forall>k. ArgumentV W k \<notin> {FunctionV T}"
    using low u3' uT dd(8) by auto
  have r3: "r = IntegerTy 32 \<or> r = VoidTy \<and> returns M3 W \<subseteq> insert sc E'" using l'(3) use(2) by auto
  have nW: "fname FW \<noteq> ''spawn_impl''" using W(4) by simp
  obtain N2 M4 where B: "fixSpawnWrapper uses W T M3 = Some (fresh M3, M4)" "ir_ok (insert sc E' - E' - {sc}) M4"
    "spawn_version N2 FW [g, char_ptr] r ps"
    "\<forall>f. sig M4 f = (if f = fresh M3 then Some N2 else if f = W then Some (FW\<lparr>fname := []\<rparr>) else sig M3 f)"
    "globs M4 = globs M3" "keeps {FunctionV T} (insert sc E') M3 M4"
    using fixSpawnWrapper_ok [OF A(4) uo s3(1) W(3) nW s3(2) T(3) r3 s3(3) v A(9) C use(1) V] by blast
  have ok4: "ir_ok {} M4"
  proof -
    have e: "insert sc E' - E' - {sc} = {}" by blast
    show ?thesis using B(2) unfolding e .
  qed
  then have wf4: "ir_wf M4" by (simp add: ir_ok_def)
  let ?D = "insert rc (insert tc E) \<union> insert sc E'"
  have k: "keeps {FunctionV T} ?D M M4" by (rule keeps_trans [OF A(8) B(6)])
  have T4: "sig M4 T = Some G" using B(4) s3(2) low dd(7) by auto
  have v2: "vtype N2 = PointerTo (FunctionTy r ([g, char_ptr] @ ps) False)" "ftype N2 = FunctionTy r ([g, char_ptr] @ ps) False"
    "fname N2 = ''_server_spawn_worker''" using B(3) W(4) by (simp_all add: spawn_version_def)
  have Sp: "sig M4 (fresh M3) = Some N2" "fresh M3 \<noteq> T" using B(4) low by auto
  obtain name M5 where M5: "name_global n M4 = (name, M5)" by fastforce
  have "sig M5 (fresh M3) = Some N2" using name_global_ok(4) [OF ok4 M5] Sp(1) by simp
  then obtain S0 where S0: "map_of (funcs M5) (fresh M3) = Some S0" "ftype S0 = ftype N2" by (auto simp: sig_Some)
  have gW: "getFunction M3 ''_server_spawn_worker'' = Some W" using getFunction_iff [OF wf3] s3(1) W(4) by simp
  have "createServer intact uses n M = replace_calls intact T (fresh M3) g name (uses M5 (FunctionV T)) M5"
    using T(1) S(1) A(1-3) gW B(1) M5 S0 v2(2) by (simp add: createServer_def Let_def)
  moreover have "?D \<inter> set (users M (FunctionV T)) = {}" using uT by blast
  ultimately show ?thesis using ok4 M5 T(1,4) T4 Gn k Sp v2 by blast
qed

lemma createServer_ok:
  assumes uo: "use_order uses" and l: "linked n M r ps g"
  shows "\<exists>M' T Sp N. createServer (\<lambda>_. True) uses n M = Some M' \<and> ir_ok {} M' \<and> getFunction M n = Some T \<and> getFunction M' n = Some T \<and>
    (\<forall>w as. call_of M' w \<noteq> Some (FunctionV T, as)) \<and>
    getFunction M' ''_server_spawn_worker'' = Some Sp \<and> sig M' Sp = Some N \<and> ftype N = FunctionTy r ([g, char_ptr] @ ps) False"
proof -
  obtain T G Sp N D name M4 M5 where
    run: "createServer (\<lambda>_. True) uses n M = replace_calls (\<lambda>_. True) T Sp g name (uses M5 (FunctionV T)) M5"
    and M4: "ir_ok {} M4" "name_global n M4 = (name, M5)" and T: "getFunction M n = Some T" "sig M4 T = Some G"
      "vtype G = PointerTo (FunctionTy r ps False)" "fname G = n"
    and k: "keeps {FunctionV T} D M M4" "D \<inter> set (users M (FunctionV T)) = {}"
    and Sp: "sig M4 Sp = Some N" "Sp \<noteq> T" "vtype N = PointerTo (FunctionTy r ([g, char_ptr] @ ps) False)"
      "ftype N = FunctionTy r ([g, char_ptr] @ ps) False" "fname N = ''_server_spawn_worker''"
    using createServer_stage [OF uo linked_with [OF l]] by blast
  have L: "\<exists>T. getFunction M n = Some T \<and> distinct (users M (FunctionV T)) \<and>
      (\<forall>u \<in> set (users M (FunctionV T)). call_of M u = None \<or> (\<exists>as. call_of M u = Some (FunctionV T, as)))"
    by (rule linkedE [OF l]) blast
  then have c: "distinct (users M (FunctionV T))" "\<forall>u \<in> set (users M (FunctionV T)). call_of M u = None \<or> (\<exists>as. call_of M u = Some (FunctionV T, as))" using T(1) by auto
  note l' = linkedD [OF l]
  have wf: "ir_wf M" using l'(1) by (simp add: ir_ok_def)
  have u4: "mset (users M4 (FunctionV T)) = mset (users M (FunctionV T))" using k by (simp add: keeps_def)
  have "\<forall>u \<in> set (users M4 (FunctionV T)). call_of M4 u = None \<or> (\<exists>as. call_of M4 u = Some (FunctionV T, as))"
  proof
    fix u assume "u \<in> set (users M4 (FunctionV T))"
    then have u: "u \<in> set (users M (FunctionV T))" using u4 by (metis set_mset_mset)
    then have D: "u \<notin> D" using k(2) by auto
    obtain I where I: "find_instr M u = Some I" using u users_find [OF wf] by blast
    show "call_of M4 u = None \<or> (\<exists>as. call_of M4 u = Some (FunctionV T, as))"
    proof (cases "call_of M u")
      case None
      then show ?thesis using keeps_not_call [OF k(1) I D] by simp
    next
      case (Some a)
      with bspec [OF c(2) u] obtain as where "call_of M u = Some (FunctionV T, as)" by auto
      from keeps_call [OF k(1) D this] show ?thesis by simp
    qed
  qed
  moreover have "distinct (users M4 (FunctionV T))" using u4 c(1) by (metis mset_eq_imp_distinct_iff)
  ultimately obtain M6 where M6: "replace_calls (\<lambda>_. True) T Sp g name (uses M5 (FunctionV T)) M5 = Some M6" "ir_ok {} M6"
    "signatures M6 = signatures M4" "\<forall>w as. call_of M6 w \<noteq> Some (FunctionV T, as)"
    using calls_stage [OF M4(1) uo T(2,3) _ _ Sp(1,3) l'(2) Sp(2) M4(2)] by blast
  have wf6: "ir_wf M6" using M6(2) by (simp add: ir_ok_def)
  have "getFunction M6 n = Some T" using getFunction_iff [OF wf6 l'(5)] M6(3) T(2,4) by simp
  moreover have "getFunction M6 ''_server_spawn_worker'' = Some Sp" "sig M6 Sp = Some N"
    using getFunction_iff [OF wf6] M6(3) Sp(1,5) by simp_all
  ultimately show ?thesis using run M6 T(1) Sp(4) by auto
qed

text \<open>A call that gets the target, or one whose memory does not last, makes \<open>createServer\<close> fail.\<close>

lemma createServer_fails:
  assumes uo: "use_order uses" and l: "with_templates n M r ps g" and T: "getFunction M n = Some T"
    and u: "u \<in> set (users M (FunctionV T))" "call_of M u = Some (c, as)" "FunctionV T \<in> set as \<or> \<not> intact u"
  shows "createServer intact uses n M = None"
proof -
  obtain G Sp N D name M4 M5 where
    run: "createServer intact uses n M = replace_calls intact T Sp g name (uses M5 (FunctionV T)) M5"
    and M4: "ir_ok {} M4" "name_global n M4 = (name, M5)" and G: "sig M4 T = Some G" "vtype G = PointerTo (FunctionTy r ps False)"
    and k: "keeps {FunctionV T} D M M4" "D \<inter> set (users M (FunctionV T)) = {}"
    and Sp: "sig M4 Sp = Some N" "vtype N = PointerTo (FunctionTy r ([g, char_ptr] @ ps) False)"
    using createServer_stage [OF uo l, of intact] T by auto
  note N = name_global_ok [OF M4]
  have wf5: "ir_wf M5" using N(1) by (simp add: ir_ok_def)
  have sg: "sig M5 T = Some G" "sig M5 Sp = Some N" using G(1) Sp(1) N(4) by simp_all
  have "mset (uses M5 (FunctionV T)) = mset (users M (FunctionV T))" using uo N(5) k(1) by (simp add: use_order_def keeps_def)
  then have u5: "u \<in> set (uses M5 (FunctionV T))" using u(1) by (metis set_mset_mset)
  obtain C where C: "find_instr M u = Some C" "iop C = CallInst c as" using u(2) call_of_iff by blast
  have "u \<notin> D" using k(2) u(1) by blast
  then obtain C' where C': "find_instr M4 u = Some C'" "op_kind (iop C') = op_kind (iop C)"
    "list_all2 (\<lambda>x y. x \<in> {FunctionV T} \<longrightarrow> y = x) (operands (iop C)) (operands (iop C'))"
    using k(1) C(1) unfolding keeps_def by blast
  obtain c' as' where c': "iop C' = CallInst c' as'" using C'(2) C(2) by (cases "iop C'") auto
  have all: "list_all2 (\<lambda>x y. x \<in> {FunctionV T} \<longrightarrow> y = x) (as @ [c]) (as' @ [c'])" using C'(3) C(2) c' by simp
  have "length as = length as'" using list_all2_lengthD [OF all] by simp
  then have "list_all2 (\<lambda>x y. x \<in> {FunctionV T} \<longrightarrow> y = x) as as'" using all by (simp only: list_all2_append)
  then have "FunctionV T \<in> set as \<Longrightarrow> FunctionV T \<in> set as'" by (induction rule: list_all2_induct) auto
  then have p: "FunctionV T \<in> set as' \<or> \<not> intact u" using u(3) by blast
  have c5: "call_of M5 u = Some (c', as')" using C'(1) c' N(6) by (simp add: call_of_iff)
  have b: "below (fresh M5) name" using N(2,3) by simp
  show ?thesis
    unfolding run by (rule replace_calls_fails [where intact = intact, OF wf5 sg(1) G(2) sg(2) Sp(2) b u5 c5 p])
qed

subsection \<open>The top of the stack\<close>

text \<open>An instruction that uses no function, no return and no call of a function keeps a linked program.\<close>

lemma linked_insert:
  assumes l: "linked n M r ps g" and i: "find_instr M i = Some J" and ops: "\<forall>v \<in> set (operands op). below (fresh M) v"
    and ty: "\<forall>R. op_ok (type_of M) R t op" and ins: "insert_before_inst i nm t op M = (v, M')" and op: "\<nexists>x. op = ReturnInst x"
    and other: "\<forall>f. FunctionV f \<notin> set (operands op)"
      "\<forall>j I. InstV j \<in> set (operands op) \<and> find_instr M j = Some I \<longrightarrow> op_kind (iop I) \<noteq> 3 \<and> (\<forall>f as. iop I \<noteq> CallInst (FunctionV f) as)"
  shows "linked n M' r ps g"
proof -
  obtain T G S F W FW rs RF ts TF rc tc sc E E' where
    T: "getFunction M n = Some T" "sig M T = Some G" "ftype G = FunctionTy r ps False" "vtype G = PointerTo (FunctionTy r ps False)"
      "distinct (users M (FunctionV T))" "\<forall>u \<in> set (users M (FunctionV T)). call_of M u = None \<or> (\<exists>as. call_of M u = Some (FunctionV T, as))"
    and S: "getFunction M ''spawn_impl'' = Some S" "sig M S = Some F" "template F [g, char_ptr]" "fname F = ''spawn_impl''"
    and W: "getFunction M ''_server_spawn_worker'' = Some W" "sig M W = Some FW" "template FW [g, char_ptr]" "fname FW = ''_server_spawn_worker''"
    and rs: "getFunction M ''_stub_rewrite_call'' = Some rs" "sig M rs = Some RF" "is_stub RF" "only_call M rs rc" "users M (InstV rc) = []"
    and ts: "getFunction M ''_stub_target_call'' = Some ts" "sig M ts = Some TF" "is_stub TF" "only_call M ts tc" "template_call M r tc S E"
    and sc: "only_call M S sc" "template_call M r sc W E'" and d: "distinct [T, S, W, rs, ts]" and Gn: "fname G = n"
    by (rule linkedE [OF l])
  have ok: "ir_ok {} M" using l by (simp add: linked_def)
  then have wf: "ir_wf M" by (simp add: ir_ok_def)
  note I = insert_wf [OF wf i ops ins]
  have ok': "ir_ok {} M'" by (rule insert_ok [OF ok i ops ty ins])
  have sg: "signatures M' = signatures M" by (rule insert_instrs(3) [OF ins])
  then have gf: "getFunction M' m = getFunction M m" for m by (simp add: getFunction_signatures)
  have uf: "users M' (FunctionV f) = users M (FunctionV f)" for f using insert_users [OF ins] other(1) by blast
  have fi: "find_instr M' j = find_instr M j" if "find_instr M j \<noteq> None" for j using I(3) find_fresh [OF wf] that by auto
  have ca: "call_of M' j = call_of M j" if "find_instr M j \<noteq> None" for j using fi [OF that] by (simp add: call_of_def)
  have ui: "users M' (InstV j) = users M (InstV j)" if "find_instr M j = Some K" "op_kind (iop K) = 3 \<or> (\<exists>f as. iop K = CallInst (FunctionV f) as)" for j K
    using insert_users [OF ins, of "InstV j"] other(2) that by blast
  have oc: "only_call M' f c" if "only_call M f c" for f c
  proof -
    have "find_instr M c \<noteq> None" using that unfolding only_call_def call_of_iff by auto
    then show ?thesis using that uf ca unfolding only_call_def by simp
  qed
  have uc: "users M' (InstV c) = users M (InstV c)" if "only_call M f c" for f c
    using that ui unfolding only_call_def call_of_iff by blast
  have tem: "template_call M' r c f E" if t: "template_call M r c f E" and c: "only_call M h c" for c f E h
  proof -
    have "users M' (InstV x) = users M (InstV x)" if "find_instr M x = Some K" "iop K = ReturnInst y" for x K y
      using ui that by simp
    then show ?thesis
      using t uc [OF c] returns_insert [OF ins op, of f] fi unfolding template_call_def result_use_def by fastforce
  qed
  have "u \<in> set (users M (FunctionV T)) \<Longrightarrow> find_instr M u \<noteq> None" for u using users_find [OF wf] by auto
  then have T6: "\<forall>u \<in> set (users M (FunctionV T)). call_of M' u = None \<or> (\<exists>as. call_of M' u = Some (FunctionV T, as))"
    using T(6) ca by metis
  note l' = linkedD [OF l]
  have T4: "vtype G = PointerTo (ftype G)" using T(3,4) by simp
  show ?thesis
    unfolding linked_def gf sg uf
    by (intro conjI exI)
      (rule ok' l'(2-4) T(1-3) T4 T(5) T6 S(1-3) W(1-3) rs(1-3) ts(1-3) oc [OF rs(4)] oc [OF ts(4)] oc [OF sc(1)] tem [OF ts(5,4)] tem [OF sc(2,1)]
        trans [OF uc [OF rs(4)] rs(5)])+
qed

text \<open>A program with a \<open>main\<close> that does something, and the variable for the top of the stack.\<close>

definition has_main :: "ir_module \<Rightarrow> bool" where
  "has_main M \<longleftrightarrow> (\<exists>Main F I Is bs g G. getFunction M ''main'' = Some Main \<and> map_of (funcs M) Main = Some F \<and> blocks F = (I # Is) # bs \<and>
     find (\<lambda>(i, G). gname G = ''_server_stack_top'') (globs M) = Some (g, G) \<and> map_of (globs M) g = Some G \<and> gtype G = char_ptr)"

lemma emitGetTopOfStack_ok:
  assumes l: "linked n M r ps g" and m: "has_main M" and arch: "getArch (triple M)"
  shows "\<exists>M'. emitGetTopOfStack getArch M = Some M' \<and> linked n M' r ps g"
proof -
  obtain Main F I Is bs gid G where m: "getFunction M ''main'' = Some Main" "map_of (funcs M) Main = Some F" "blocks F = (I # Is) # bs"
    "find (\<lambda>(i, G). gname G = ''_server_stack_top'') (globs M) = Some (gid, G)" "map_of (globs M) gid = Some G" "gtype G = char_ptr"
    using m unfolding has_main_def by blast
  let ?asm = "InlineAsm (FunctionTy char_ptr [] False) ''movq %rbp, $0'' ''=r,~{dirflag},~{fpsr},~{flags}''"
  have wf: "ir_wf M" using linkedD(1) [OF l] by (simp add: ir_ok_def)
  have "I \<in> set (code_of M Main)" using m(2,3) by (simp add: code_of_def)
  then have i: "find_instr M (iref I) = Some I" using code_in_instrs find_instr_iff [OF wf] by blast
  obtain v1 M1 where i1: "insert_before_inst (iref I) ''x86_64.rbp'' char_ptr (CallInst ?asm []) M = (v1, M1)" by fastforce
  have b1: "new_call ?asm [] ''x86_64.rbp'' (iref I) M = Some (v1, M1)" using i1 by (simp add: new_call_def)
  have l1: "linked n M1 r ps g" by (rule linked_insert [OF l i _ _ i1]) simp_all
  then have wf1: "ir_wf M1" using linkedD(1) by (simp add: ir_ok_def)
  have o1: "\<forall>v \<in> set (operands (CallInst ?asm [])). below (fresh M) v" by simp
  note I1 = insert_instrs [OF i1] and W1 = insert_wf [OF wf i o1 i1]
  have c1: "find_instr M1 (iref I) = Some I" using W1(3) find_fresh [OF wf] i by auto
  have g1: "type_of M1 (GlobalV gid) = PointerTo char_ptr" using I1(4) m(5,6) by simp
  have t1: "type_of M1 v1 = char_ptr" using W1(4) I1(1) by simp
  obtain v2 M2 where i2: "insert_before_inst (iref I) [] VoidTy (StoreInst v1 (GlobalV gid)) M1 = (v2, M2)" by fastforce
  have b2: "new_store v1 (GlobalV gid) (iref I) M1 = Some M2" unfolding new_store_def g1 t1 i2 by simp
  have gid: "gid < fresh M1" using ir_wfD(6) [OF wf map_of_SomeD [OF m(5)]] I1(2) by simp
  have "linked n M2 r ps g"
  proof (rule linked_insert [OF l1 c1 _ _ i2])
    show "\<forall>R. op_ok (type_of M1) R VoidTy (StoreInst v1 (GlobalV gid))" using g1 t1 by (simp del: type_of.simps)
    have "find_instr M1 (fresh M) = Some (new_inst M ''x86_64.rbp'' char_ptr (CallInst ?asm []))" using W1(3) by simp
    then show "\<forall>j K. InstV j \<in> set (operands (StoreInst v1 (GlobalV gid))) \<and> find_instr M1 j = Some K \<longrightarrow>
        op_kind (iop K) \<noteq> 3 \<and> (\<forall>f as. iop K \<noteq> CallInst (FunctionV f) as)"
      using I1(1) by auto
  qed (use I1(1,2) gid in auto)
  moreover have "emitGetTopOfStack getArch M = Some M2"
    using m b1 b2 arch I1(4) by (simp add: emitGetTopOfStack_def emitX86_64GetTopOfStack_def Let_def)
  ultimately show ?thesis by blast
qed

subsection \<open>An example\<close>

text \<open>A program with a target of the result type \<open>r\<close>, linked with the templates.\<close>

definition decl :: "string \<Rightarrow> ir_type \<Rightarrow> ir_type list \<Rightarrow> ir_instr list list \<Rightarrow> ir_func" where
  "decl n r ps bs = \<lparr>fname = n, ftype = FunctionTy r ps False, vtype = PointerTo (FunctionTy r ps False), linkage = ''external'',
     attributes = [], params = map (Pair []) ps, blocks = bs\<rparr>"

definition inst :: "nat \<Rightarrow> ir_type \<Rightarrow> ir_op \<Rightarrow> ir_instr" where
  "inst i t op = \<lparr>iref = i, iname = [], itype = t, iop = op\<rparr>"

definition generic_fn :: ir_type where "generic_fn = PointerTo (FunctionTy (IntegerTy 32) [] False)"

definition example_program :: "ir_type \<Rightarrow> ir_module" where
  "example_program r =
     (let i32 = IntegerTy 32; result = (\<lambda>i. ReturnInst (if r = VoidTy then None else Some (InstV i))) in
      \<lparr>funcs = [
        (0, decl ''f'' r [i32] [[inst 10 VoidTy (ReturnInst (if r = VoidTy then None else Some (ConstantV r ''1'')))]]),
        (1, decl ''spawn_impl'' i32 [generic_fn, char_ptr]
          [[inst 11 i32 (CallInst (FunctionV 3) [ArgumentV 1 0]), inst 12 i32 (CallInst (FunctionV 4) [ArgumentV 1 0]),
            inst 13 VoidTy (ReturnInst (Some (InstV 12)))]]),
        (2, decl ''_server_spawn_worker'' i32 [generic_fn, char_ptr]
          [[inst 14 i32 (CallInst (FunctionV 1) [ArgumentV 2 0, ArgumentV 2 1]), inst 15 VoidTy (ReturnInst (Some (InstV 14)))]]),
        (3, decl ''_stub_rewrite_call'' i32 [generic_fn] []),
        (4, decl ''_stub_target_call'' i32 [generic_fn] []),
        (5, decl ''main'' r [] [[inst 16 r (CallInst (FunctionV 0) [ConstantV i32 ''7'']), inst 17 VoidTy (result 16)]])],
       globs = [(6, \<lparr>gname = ''_server_stack_top'', gtype = char_ptr, gconst = False, glinkage = ''external'', ginit = None\<rparr>)],
       triple = ''x86_64'', fresh = 20\<rparr>)"


text \<open>The same with a \<open>main\<close> that passes the target \<open>f\<close> to a function \<open>apply\<close>.\<close>

definition passing_program :: ir_module where
  "passing_program =
     (let M = example_program (IntegerTy 32); i32 = IntegerTy 32 in
      M\<lparr>funcs := take 5 (funcs M) @
        [(5, decl ''main'' i32 [] [[inst 16 i32 (CallInst (FunctionV 7) [FunctionV 0]), inst 17 VoidTy (ReturnInst (Some (InstV 16)))]]),
         (7, decl ''apply'' i32 [PointerTo (FunctionTy i32 [i32] False)] [])]\<rparr>)"

lemma use_order_users: "use_order users"
  by (simp add: use_order_def)

lemma example_linked: "linked ''f'' (example_program (IntegerTy 32)) (IntegerTy 32) [IntegerTy 32] generic_fn"
proof -
  let ?M = "example_program (IntegerTy 32)"
  have ok: "ir_ok {} ?M" "is_pointer generic_fn" by code_simp+
  have T: "getFunction ?M ''f'' = Some 0" "\<exists>G. sig ?M 0 = Some G \<and> ftype G = FunctionTy (IntegerTy 32) [IntegerTy 32] False \<and> vtype G = PointerTo (ftype G)"
    "users ?M (FunctionV 0) = [16]" "call_of ?M 16 = Some (FunctionV 0, [ConstantV (IntegerTy 32) ''7''])"
    by (simp_all add: example_program_def decl_def inst_def Let_def getFunction_def signatures_def users_def instrs_def call_of_def find_instr_def)
  have S: "getFunction ?M ''spawn_impl'' = Some 1" "\<exists>F. sig ?M 1 = Some F \<and> template F [generic_fn, char_ptr]"
    "getFunction ?M ''_server_spawn_worker'' = Some 2" "\<exists>F. sig ?M 2 = Some F \<and> template F [generic_fn, char_ptr]"
    "getFunction ?M ''_stub_rewrite_call'' = Some 3" "\<exists>F. sig ?M 3 = Some F \<and> is_stub F"
    "getFunction ?M ''_stub_target_call'' = Some 4" "\<exists>F. sig ?M 4 = Some F \<and> is_stub F"
    by (simp_all add: example_program_def decl_def Let_def getFunction_def signatures_def template_def is_stub_def generic_fn_def)
  have C: "only_call ?M 3 11" "only_call ?M 4 12" "only_call ?M 1 14" "users ?M (InstV 11) = []"
    by (simp_all add: only_call_def example_program_def decl_def inst_def Let_def users_def instrs_def call_of_def find_instr_def)
  have U: "template_call ?M (IntegerTy 32) c f {}" for c f by (simp add: template_call_def result_use_def)
  obtain G F FW RF TF where
    F: "sig ?M 0 = Some G" "ftype G = FunctionTy (IntegerTy 32) [IntegerTy 32] False" "vtype G = PointerTo (ftype G)"
      "sig ?M 1 = Some F" "template F [generic_fn, char_ptr]" "sig ?M 2 = Some FW" "template FW [generic_fn, char_ptr]"
      "sig ?M 3 = Some RF" "is_stub RF" "sig ?M 4 = Some TF" "is_stub TF"
    using T(2) S(2,4,6,8) by blast
  have D: "distinct (users ?M (FunctionV 0))"
    "\<forall>u \<in> set (users ?M (FunctionV 0)). call_of ?M u = None \<or> (\<exists>as. call_of ?M u = Some (FunctionV 0, as))"
    using T(3,4) by simp_all
  have n: "IntegerTy 32 = IntegerTy 32 \<or> IntegerTy 32 = VoidTy"
    "''f'' \<notin> {[], ''spawn_impl'', ''_server_spawn_worker'', ''_stub_rewrite_call'', ''_stub_target_call''}"
    by simp_all
  show ?thesis
    unfolding linked_def by (intro conjI exI) (rule ok n T(1) D F S(1,3,5,7) C U)+
qed

lemma example_main: "has_main (example_program (IntegerTy 32))" "triple (example_program (IntegerTy 32)) = ''x86_64''"
  by (simp_all add: has_main_def example_program_def decl_def getFunction_def Let_def)

subsection \<open>Properties\<close>

lemma passing_templates: "with_templates ''f'' passing_program (IntegerTy 32) [IntegerTy 32] generic_fn"
proof -
  let ?M = passing_program
  note defs = passing_program_def example_program_def decl_def inst_def Let_def
  have ok: "ir_ok {} ?M" "is_pointer generic_fn" by code_simp+
  have n: "IntegerTy 32 = IntegerTy 32 \<or> IntegerTy 32 = VoidTy"
    "''f'' \<notin> {[], ''spawn_impl'', ''_server_spawn_worker'', ''_stub_rewrite_call'', ''_stub_target_call''}"
    by simp_all
  have T: "getFunction ?M ''f'' = Some 0" "\<exists>G. sig ?M 0 = Some G \<and> ftype G = FunctionTy (IntegerTy 32) [IntegerTy 32] False \<and>
      vtype G = PointerTo (FunctionTy (IntegerTy 32) [IntegerTy 32] False) \<and> fname G = ''f''"
    "set (users ?M (FunctionV 0)) \<inter> {11, 12, 14} = {}" "distinct [0, 1, 2, 3, 4 :: nat]"
    by (simp_all add: defs getFunction_def signatures_def users_def instrs_def)
  have S: "getFunction ?M ''spawn_impl'' = Some 1" "\<exists>F. sig ?M 1 = Some F \<and> template F [generic_fn, char_ptr] \<and> fname F = ''spawn_impl''"
    "getFunction ?M ''_server_spawn_worker'' = Some 2"
    "\<exists>F. sig ?M 2 = Some F \<and> template F [generic_fn, char_ptr] \<and> fname F = ''_server_spawn_worker''"
    "getFunction ?M ''_stub_rewrite_call'' = Some 3" "\<exists>F. sig ?M 3 = Some F \<and> is_stub F"
    "getFunction ?M ''_stub_target_call'' = Some 4" "\<exists>F. sig ?M 4 = Some F \<and> is_stub F"
    by (simp_all add: defs getFunction_def signatures_def template_def is_stub_def generic_fn_def)
  have C: "only_call ?M 3 11" "only_call ?M 4 12" "only_call ?M 1 14" "users ?M (InstV 11) = []"
    by (simp_all add: only_call_def defs users_def instrs_def call_of_def find_instr_def)
  have U: "template_call ?M (IntegerTy 32) c f {}" for c f by (simp add: template_call_def result_use_def)
  obtain G F FW RF TF where
    F: "sig ?M 0 = Some G" "ftype G = FunctionTy (IntegerTy 32) [IntegerTy 32] False"
      "vtype G = PointerTo (FunctionTy (IntegerTy 32) [IntegerTy 32] False)" "fname G = ''f''"
      "sig ?M 1 = Some F" "template F [generic_fn, char_ptr]" "fname F = ''spawn_impl''"
      "sig ?M 2 = Some FW" "template FW [generic_fn, char_ptr]" "fname FW = ''_server_spawn_worker''"
      "sig ?M 3 = Some RF" "is_stub RF" "sig ?M 4 = Some TF" "is_stub TF"
    using T(2) S(2,4,6,8) by blast
  show ?thesis
    unfolding with_templates_def by (intro conjI exI) (rule ok n T(1,3,4) F S(1,3,5,7) C U)+
qed

text \<open>
  Property C7. On a well-typed program that was linked with \<open>server.c\<close> and calls its target, an
  \<open>i32\<close> or \<open>void\<close> function, \<open>create-server\<close> succeeds, whatever the order of uses, if the link to the
  next use can be read in the memory of every call that its last loop has erased
  (\<open>intact\<close> is \<open>\<lambda>_. True\<close>): every instruction of the server is
  well typed, no call of the target is left, and \<open>_server_spawn_worker\<close> takes the target's
  parameters behind its own and returns its result.
\<close>

theorem create_server_typed:
  assumes "use_order uses" "linked n M r ps g" "has_main M" "getArch (triple M)"
  shows "\<exists>M' T Sp N. create_server_main (\<lambda>_. True) uses getArch n M = Some M' \<and> ir_ok {} M' \<and>
    getFunction M' n = Some T \<and> (\<forall>w as. call_of M' w \<noteq> Some (FunctionV T, as)) \<and>
    getFunction M' ''_server_spawn_worker'' = Some Sp \<and> sig M' Sp = Some N \<and> ftype N = FunctionTy r ([g, char_ptr] @ ps) False"
proof -
  obtain M1 where "emitGetTopOfStack getArch M = Some M1" "linked n M1 r ps g"
    using emitGetTopOfStack_ok [where getArch = getArch, OF assms(2-4)] by blast
  then show ?thesis using createServer_ok [OF assms(1)] by (fastforce simp: create_server_main_def)
qed

theorem create_server_typed_witness:
  "\<exists>M'. create_server_main (\<lambda>_. True) users (\<lambda>t. t = ''x86_64'') ''f'' (example_program (IntegerTy 32)) = Some M' \<and> ir_ok {} M'"
  using create_server_typed [OF use_order_users example_linked example_main(1), of "\<lambda>t. t = ''x86_64''"] example_main(2) by blast

text \<open>
  Property C33. A stub's call can not be replaced for a target that returns something other than an
  \<open>i32\<close> or nothing: the call of the target has another type than the stub's, which returns an
  \<open>i32\<close>, so LLVM's assertion in \<open>replaceAllUsesWith\<close> fails.
\<close>

theorem other_result_fails:
  assumes "ir_wf M" "find_instr M c = Some C" "itype C = IntegerTy 32" "fst args < fresh M"
    "r \<noteq> IntegerTy 32" "r \<noteq> VoidTy"
  shows "replaceStubCall uses c (FunctionTy r ps False) args M = None"
proof (rule ccontr)
  assume "replaceStubCall uses c (FunctionTy r ps False) args M \<noteq> None"
  then have "\<exists>f as. call_of M c = Some (f, as) \<and> as \<noteq> []"
    by (cases "call_of M c") (auto simp: replaceStubCall_def)
  then obtain f a as where c: "call_of M c = Some (f, a # as)" by (metis neq_Nil_conv)
  then obtain v1 M1 v2 M2 M3 where st: "new_bitcast a (PointerTo (FunctionTy r ps False)) c M = Some (v1, M1)"
    "new_call v1 (map (\<lambda>i. ArgumentV (fst args) (snd args + i)) [0..<length ps]) [] c M1 = Some (v2, M2)"
    "replaceAllUsesWith (InstV c) v2 M2 = Some M3"
    using \<open>replaceStubCall uses c (FunctionTy r ps False) args M \<noteq> None\<close> assms(6)
    by (auto simp: replaceStubCall_def replace_result_def Let_def bind_Some_iff)
  have C: "C \<in> set (instrs M)" "iref C = c" using assms(2) find_instr_iff [OF assms(1)] by auto
  then have low: "below (fresh M) a" "c < fresh M"
    using ir_wfD(2,3) [OF assms(1) C(1)] c assms(2) unfolding call_of_iff by auto
  note B = new_bitcast_types [OF assms(1,2) low(1) st(1)]
  have "\<forall>v \<in> set (v1 # map (\<lambda>i. ArgumentV (fst args) (snd args + i)) [0..<length ps]). below (fresh M1) v"
    using B(4,5) assms(4) by auto
  note N = new_call_types [OF B(1,2) this st(2)]
  have "type_of M2 (InstV c) = IntegerTy 32" using N(2) assms(3) by (simp add: type_of.simps(4))
  moreover have "type_of M2 v2 = r" using N(3) B(3) by simp
  ultimately show False using st(3) assms(5) by (auto simp: replaceAllUsesWith_def split: if_splits)
qed

theorem other_result_fails_witness:
  "replaceStubCall users 12 (FunctionTy (IntegerTy 64) [IntegerTy 32] False) (1, 2) (example_program (IntegerTy 64)) = None"
proof -
  have wf: "ir_wf (example_program (IntegerTy 64))" by code_simp
  have f: "find_instr (example_program (IntegerTy 64)) 12 = Some (inst 12 (IntegerTy 32) (CallInst (FunctionV 4) [ArgumentV 1 0]))"
    "fresh (example_program (IntegerTy 64)) = 20"
    by (simp_all add: example_program_def decl_def inst_def Let_def find_instr_def instrs_def)
  show ?thesis by (rule other_result_fails [OF wf f(1)]) (simp_all add: inst_def f(2))
qed

text \<open>
  Property C34. \<open>createServer\<close> takes every call instruction that uses the target for a call of it. On
  a program linked with \<open>server.c\<close> that somewhere passes the target as an argument of a call, it
  fails: this call is replaced like the others, and as a function is never of the type of one of
  its own parameters, its arguments are not the target's and LLVM's assertion on the signature
  of a call fails.
\<close>

theorem passed_target_fails:
  assumes "use_order uses" "with_templates n M r ps g" "getFunction M n = Some T"
    "call_of M u = Some (c, as)" "FunctionV T \<in> set as"
  shows "createServer intact uses n M = None"
proof -
  have wf: "ir_wf M" using assms(2) by (simp add: with_templates_def ir_ok_def)
  have "u \<in> set (users M (FunctionV T))"
    using assms(4,5) users_find [OF wf, of u] unfolding call_of_iff by auto
  then show ?thesis using createServer_fails [OF assms(1-3) _ assms(4)] assms(5) by blast
qed

theorem passed_target_fails_witness:
  "createServer (\<lambda>_. True) users ''f'' passing_program = None"
proof -
  have "getFunction passing_program ''f'' = Some 0" "call_of passing_program 16 = Some (FunctionV 7, [FunctionV 0])"
    by (simp_all add: passing_program_def example_program_def decl_def inst_def Let_def getFunction_def call_of_def find_instr_def instrs_def)
  from passed_target_fails [OF use_order_users passing_templates this] show ?thesis by simp
qed



end
