(* ===== verification/Compiler.thy ===== *)
theory Compiler
  imports Instrument
begin

text \<open>
  Compiling machine functions, \<open>mf_compiler.cpp\<close>: the initializer that copies a function's code,
  writing the object file, and the module that dumps the target's registers. The passes of
  LLVM are a parameter that gets the initializer; files are a map from paths to contents.
\<close>

type_synonym 'f files = "string \<Rightarrow> 'f option"

record 'i mfunction =
  mf_function :: string
  mf_blocks :: "'i list list"

text \<open>
  \<open>can_open\<close> says which files can be opened, \<open>has_emitters\<close> whether the target has a code emitter
  and an assembler back end, and \<open>emit\<close> what the passes write for a module, given the initializer
  of its machine functions.
\<close>

record 'f tools =
  can_open :: "string \<Rightarrow> bool"
  has_emitters :: bool
  emit :: "nat \<Rightarrow> (code mfunction \<Rightarrow> code mfunction) \<Rightarrow> 'f"

subsection \<open>The initializer\<close>

definition copy_function :: "'i mfunction \<Rightarrow> 'i mfunction \<Rightarrow> 'i mfunction" where
  "copy_function TheMF MF =
     (if mf_function MF = mf_function TheMF then MF\<lparr>mf_blocks := mf_blocks MF @ mf_blocks TheMF\<rparr> else MF)"

text \<open>The loop that takes the first block of one function and puts it in front of the other's.\<close>

primrec move_blocks :: "'i list list \<Rightarrow> 'i list list \<Rightarrow> 'i list list" where
  "move_blocks [] blocks = blocks"
| "move_blocks (MBB # rest) blocks = move_blocks rest (MBB # blocks)"

definition move_function :: "'i mfunction \<Rightarrow> 'i mfunction \<Rightarrow> 'i mfunction \<times> 'i mfunction" where
  "move_function TheMF MF =
     (if mf_function MF = mf_function TheMF
      then (TheMF\<lparr>mf_blocks := []\<rparr>, MF\<lparr>mf_blocks := move_blocks (mf_blocks TheMF) (mf_blocks MF)\<rparr>)
      else (TheMF, MF))"

text \<open>The flag \<open>Reuse\<close> is not used.\<close>

definition initializeMachineFunction :: "'i mfunction \<Rightarrow> bool \<Rightarrow> 'i mfunction \<Rightarrow> 'i mfunction" where
  "initializeMachineFunction TheMF Reuse MF = copy_function TheMF MF"

subsection \<open>Object files\<close>

text \<open>
  Whether there is a printer; its output file is a local that removes the file again when it goes
  out of scope.
\<close>

definition getAsmPrinter :: "'f tools \<Rightarrow> string \<Rightarrow> 'f files \<Rightarrow> bool \<times> 'f files" where
  "getAsmPrinter T OutFilename fs =
     (if \<not> can_open T OutFilename then (False, fs) else (has_emitters T, fs(OutFilename := None)))"

definition compileToObjectFile ::
  "'f tools \<Rightarrow> nat \<Rightarrow> code mfunction \<Rightarrow> string \<Rightarrow> bool \<Rightarrow> 'f files \<Rightarrow> bool \<times> 'f files" where
  "compileToObjectFile T M MF OutFilename ReuseFunction fs =
     (let (Printer, fs) = getAsmPrinter T OutFilename fs in
      if \<not> Printer then (False, fs)
      else if \<not> can_open T OutFilename then (False, fs)
      else (True, fs(OutFilename \<mapsto> emit T M (initializeMachineFunction MF ReuseFunction))))"

definition emitDumpRegistersModule ::
  "'f tools \<Rightarrow> (reg \<Rightarrow> reg_class) \<Rightarrow> x86 \<Rightarrow> nat \<Rightarrow> reg list \<Rightarrow> string \<Rightarrow> instrumenter \<Rightarrow> 'f files \<Rightarrow>
    ((bool \<times> 'f files) \<times> instrumenter) option" where
  "emitDumpRegistersModule T TRI X M DumpRegs OutFilename Is fs =
     do {
       (MBB, Is) \<leftarrow> dumpRegisters TRI X M DumpRegs ''_ug_target_reg_data'' [] Is;
       let MBB = instrumentToReturnNormally X MBB;
       Some (compileToObjectFile T M \<lparr>mf_function = ''dump_registers'', mf_blocks = [MBB]\<rparr> OutFilename True fs, Is)
     }"

subsection \<open>Lemmas\<close>

text \<open>Unlike copying, moving the blocks would reverse their order.\<close>

lemma move_reverses: "move_blocks bs cs = rev bs @ cs"
  by (induction bs arbitrary: cs) simp_all

lemma compile_writes:
  assumes "can_open T file" "has_emitters T"
  shows "compileToObjectFile T M MF file b fs = (True, fs(file \<mapsto> emit T M (copy_function MF)))"
proof -
  have "initializeMachineFunction MF b = copy_function MF"
    by (simp add: initializeMachineFunction_def fun_eq_iff)
  then show ?thesis using assms by (simp add: compileToObjectFile_def getAsmPrinter_def Let_def)
qed

lemma compile_fails:
  assumes "\<not> can_open T file \<or> \<not> has_emitters T"
  shows "\<not> fst (compileToObjectFile T M MF file b fs)"
    "snd (compileToObjectFile T M MF file b fs) file \<in> {fs file, None}"
  using assms by (auto simp: compileToObjectFile_def getAsmPrinter_def Let_def)

lemma instrument_code:
  assumes "instrument TRI X (W # Ws) jb M RetType MBB Is = Some (code, Is')" "getReturnRegs X RetType = Some Out"
  obtains D where "dumpRegisters TRI X M Out ''_ug_rewrite_reg_data''
      (protectRTFrame X (sint (FrameBegin W)) (sint (FrameSize W)) MBB) Is = Some (D, Is')"
    "code = instrumentToReturn X jb (unprotectRTFrame X (sint (FrameBegin W)) (sint (FrameSize W)) D)"
  using assms by (auto simp: instrument_def Let_def bind_Some_iff)

lemma instrument_dumps:
  assumes "instrument TRI X Ws jb M RetType MBB Is = Some (code, Is')" "getReturnRegs X RetType = Some Out"
    "dumps_as TRI Out ''_ug_rewrite_reg_data'' M Is"
  shows "dumps_as TRI Out ''_ug_rewrite_reg_data'' M Is' \<and> RegData Is' M \<noteq> None"
proof -
  obtain W Vs where W: "Ws = W # Vs" using assms(1) by (cases Ws) (auto simp: instrument_def)
  obtain D where "dumpRegisters TRI X M Out ''_ug_rewrite_reg_data''
      (protectRTFrame X (sint (FrameBegin W)) (sint (FrameSize W)) MBB) Is = Some (D, Is')"
    by (rule instrument_code [OF assms(1) [unfolded W] assms(2)])
  from dumpRegisters_code(1,2) [OF this assms(3)] show ?thesis by blast
qed

lemma placed_offsets:
  assumes "placed TRI rs c info table e"
  shows "map offset table = map (\<lambda>p. ucast (fst p)) info"
proof (rule nth_equalityI)
  have len: "length info = length rs" "length table = length rs" using placed_bounds [OF assms] by auto
  then show "length (map offset table) = length (map (\<lambda>p. ucast (fst p)) info)" by simp
  show "map offset table ! i = map (\<lambda>p. ucast (fst p)) info ! i" if "i < length (map offset table)" for i
    using placed_nth [OF assms, of i] that len by simp
qed

lemma table_offsets:
  assumes "sane_classes TRI" "space_for TRI rs < 2 ^ 32" "place_regs TRI rs 0 = Some (info, table, e)"
  shows "length info = length rs" "length table = length rs" "map offset table = map ucast (map fst info)" "layout_ok table"
    "regs_in_buffer table (reg_buffer_size table)"
proof -
  note pl = placed_layout [OF assms]
  show "length info = length rs" "length table = length rs" using placed_bounds [OF pl] by auto
  show "map offset table = map ucast (map fst info)" using placed_offsets [OF pl] by (simp add: comp_def)
  note placed_table [OF pl sane_classesD(4,5) [OF assms(1)]]
  then show "layout_ok table" "regs_in_buffer table (reg_buffer_size table)" by simp_all
qed

text \<open>What is compiled for \<open>dump_registers\<close>.\<close>

lemma target_code:
  assumes "emitDumpRegistersModule T TRI X D Out file It0 fs = Some (r, It)" "RegData It0 D = None"
  obtains dumped where "dumpRegisters TRI X D Out ''_ug_target_reg_data'' [] It0 = Some (dumped, It)"
    "r = compileToObjectFile T D \<lparr>mf_function = ''dump_registers'', mf_blocks = [dumped @ [MI (Retq X) []]]\<rparr> file True fs"
    "dumps_as TRI Out ''_ug_target_reg_data'' D It" "RegData It D \<noteq> None"
proof -
  obtain dumped where d: "dumpRegisters TRI X D Out ''_ug_target_reg_data'' [] It0 = Some (dumped, It)"
    "r = compileToObjectFile T D \<lparr>mf_function = ''dump_registers'', mf_blocks = [dumped @ [MI (Retq X) []]]\<rparr> file True fs"
    using assms(1) by (auto simp: emitDumpRegistersModule_def instrumentToReturnNormally_def bind_Some_iff Let_def)
  have "dumps_as TRI Out ''_ug_target_reg_data'' D It0" using assms(2) by (simp add: dumps_as_def)
  from dumpRegisters_code(1,2) [OF d(1) this] show thesis by (rule that [OF d])
qed

subsection \<open>Properties\<close>

text \<open>
  Property C23. The registers of the target and those of a rewrite are dumped alike. The function that
  \<open>emitDumpRegistersModule\<close> compiles loads the address of the target's buffer, stores the output
  registers and those of their classes, each at its offset, and returns; \<open>instrument\<close> puts, between
  the code of the rewrite behind the protected frame and the end, the load of the address of the
  rewrite's buffer and the same stores. The server's table has these offsets.
\<close>

theorem dumps_agree:
  assumes "sane_classes TRI" "space_for TRI (Out @ equivalent_regs TRI Out) < 2 ^ 32" "getReturnRegs X RetType = Some Out"
    and target: "emitDumpRegistersModule T TRI X D Out file It0 fs = Some (r, It)" "RegData It0 D = None"
    and rewrite: "instrument TRI X (W # Ws) jb M RetType MBB Ir0 = Some (code, Ir)"
      "dumps_as TRI Out ''_ug_rewrite_reg_data'' M Ir0"
  shows "dumps_as TRI Out ''_ug_rewrite_reg_data'' M Ir \<and> Regs Ir = Regs It \<and> RegInfo Ir = RegInfo It \<and>
    (\<exists>G offs. RegData It D = Some G \<and> length offs = length (Out @ equivalent_regs TRI Out) \<and>
      map offset (ug_reg_info G) = map ucast offs \<and> ug_num_output_regs G = length Out \<and>
      r = compileToObjectFile T D \<lparr>mf_function = ''dump_registers'', mf_blocks =
        [GlobalPICAddr (FreeReg X) ''_ug_target_reg_data'' #
          map (\<lambda>(q, off). StoreReg q (FreeReg X) off) (zip (Out @ equivalent_regs TRI Out) offs) @ [MI (Retq X) []]]\<rparr> file True fs \<and>
      code = protectRTFrame X (sint (FrameBegin W)) (sint (FrameSize W)) MBB @
        GlobalPICAddr (FreeReg X) ''_ug_rewrite_reg_data'' #
          map (\<lambda>(q, off). StoreReg q (FreeReg X) off) (zip (Out @ equivalent_regs TRI Out) offs) @
        unprotectRTFrame X (sint (FrameBegin W)) (sint (FrameSize W)) [] @ instrumentToReturn X jb [] \<and>
      layout_ok (ug_reg_info G) \<and> regs_in_buffer (ug_reg_info G) (reg_buffer_size (ug_reg_info G)))"
proof -
  obtain dumped where it: "dumpRegisters TRI X D Out ''_ug_target_reg_data'' [] It0 = Some (dumped, It)"
    "r = compileToObjectFile T D \<lparr>mf_function = ''dump_registers'', mf_blocks = [dumped @ [MI (Retq X) []]]\<rparr> file True fs"
    "dumps_as TRI Out ''_ug_target_reg_data'' D It" "RegData It D \<noteq> None"
    by (rule target_code [OF target])
  obtain B where ir: "dumpRegisters TRI X M Out ''_ug_rewrite_reg_data''
      (protectRTFrame X (sint (FrameBegin W)) (sint (FrameSize W)) MBB) Ir0 = Some (B, Ir)"
    "code = instrumentToReturn X jb (unprotectRTFrame X (sint (FrameBegin W)) (sint (FrameSize W)) B)"
    by (rule instrument_code [OF rewrite(1) assms(3)])
  note ri = dumpRegisters_code [OF ir(1) rewrite(2)]
  obtain info table e G where L: "place_regs TRI (Out @ equivalent_regs TRI Out) 0 = Some (info, table, e)"
    "Regs It = Out @ equivalent_regs TRI Out" "RegInfo It = info" "RegData It D = Some G" "ug_reg_info G = table"
    "ug_num_output_regs G = length Out"
    using dumps_asE [OF it(3,4)] by metis
  have R: "Regs Ir = Out @ equivalent_regs TRI Out" "RegInfo Ir = info"
    using dumps_asE [OF ri(1,2)] L(1) by (metis option.inject prod.inject)+
  note tab = table_offsets [OF assms(1,2) L(1)]
  have "dumps_as TRI Out ''_ug_target_reg_data'' D It0" using target(2) by (simp add: dumps_as_def)
  from dumpRegisters_code(3) [OF it(1) this] have
    t: "dumped = GlobalPICAddr (FreeReg X) ''_ug_target_reg_data'' # reg_stores X (Out @ equivalent_regs TRI Out) (map fst info)"
    using L(2,3) tab(1) by simp
  have w: "B = protectRTFrame X (sint (FrameBegin W)) (sint (FrameSize W)) MBB @
      GlobalPICAddr (FreeReg X) ''_ug_rewrite_reg_data'' # reg_stores X (Out @ equivalent_regs TRI Out) (map fst info)"
    using ri(3) R tab(1) by simp
  show ?thesis
    using ri(1) L(2-6) R tab it(2) ir(2)
    by (intro conjI exI [of _ G] exI [of _ "map fst info"])
      (simp_all add: t w reg_stores_def unprotectRTFrame_code instrumentToReturn_def)
qed

lemma some_emitted:
  "\<exists>r It. emitDumpRegistersModule \<lparr>can_open = (\<lambda>_. True), has_emitters = True, emit = (\<lambda>M init. init \<lparr>mf_function = ''dump_registers'',
      mf_blocks = []\<rparr>)\<rparr> one_class some_x86 1 [5] ''dump_regs.o'' new_instrumenter Map.empty = Some (r, It)"
  by (simp add: emitDumpRegistersModule_def dumpRegisters_def calculateRegBufferLayout_def new_instrumenter_def
      one_class_sane(2) align_def one_class_def some_x86_def Let_def)

theorem dumps_agree_witness:
  "\<exists>It Ir code fs' o1 o2. emitDumpRegistersModule \<lparr>can_open = (\<lambda>_. True), has_emitters = True, emit = (\<lambda>M init. init \<lparr>mf_function =
      ''dump_registers'', mf_blocks = []\<rparr>)\<rparr> one_class some_x86 1 [5] ''dump_regs.o'' new_instrumenter Map.empty = Some ((True, fs'), It) \<and>
    instrument one_class some_x86 [\<lparr>FrameBegin = 0x7000, FrameSize = 0x1000, Socket = 3\<rparr>] 0x9000 0
      PointerTy (map Rewrite [\<lparr>opcode = 0, operands = []\<rparr>]) new_instrumenter = Some (code, Ir) \<and>
    fs' ''dump_regs.o'' = Some \<lparr>mf_function = ''dump_registers'', mf_blocks =
      [[GlobalPICAddr 1 ''_ug_target_reg_data'', StoreReg 5 1 o1, StoreReg 1 1 o2, MI 3 []]]\<rparr> \<and>
    {StoreReg 5 1 o1, StoreReg 1 1 o2} \<subseteq> set code"
proof -
  let ?T = "\<lparr>can_open = (\<lambda>_. True), has_emitters = True, emit = (\<lambda>M init. init \<lparr>mf_function = ''dump_registers'', mf_blocks = []\<rparr>)\<rparr>"
  obtain code Ir where i: "instrument one_class some_x86 [\<lparr>FrameBegin = 0x7000, FrameSize = 0x1000, Socket = 3\<rparr>] 0x9000 0
    PointerTy (map Rewrite [\<lparr>opcode = 0, operands = []\<rparr>]) new_instrumenter = Some (code, Ir)"
    using some_instrumented by auto
  obtain r It where t: "emitDumpRegistersModule ?T one_class some_x86 1 [5] ''dump_regs.o'' new_instrumenter Map.empty
    = Some (r, It)" using some_emitted by blast
  have sp: "space_for one_class ([5] @ equivalent_regs one_class [5]) < 2 ^ 32" using one_class_sane by simp
  have rr: "getReturnRegs some_x86 PointerTy = Some [5]" by (simp add: getReturnRegs_def some_x86_def)
  have new: "RegData new_instrumenter 1 = None" "dumps_as one_class [5] ''_ug_rewrite_reg_data'' 0 new_instrumenter"
    by (simp_all add: new_instrumenter_def dumps_as_def)
  obtain offs where o: "length offs = length ([5] @ equivalent_regs one_class [5])"
    "r = compileToObjectFile ?T 1 \<lparr>mf_function = ''dump_registers'', mf_blocks =
        [GlobalPICAddr (FreeReg some_x86) ''_ug_target_reg_data'' #
          map (\<lambda>(q, off). StoreReg q (FreeReg some_x86) off) (zip ([5] @ equivalent_regs one_class [5]) offs) @
          [MI (Retq some_x86) []]]\<rparr> ''dump_regs.o'' True Map.empty"
    "set (map (\<lambda>(q, off). StoreReg q (FreeReg some_x86) off) (zip ([5] @ equivalent_regs one_class [5]) offs)) \<subseteq> set code"
    using dumps_agree [OF one_class_sane(1) sp rr t new(1) i new(2)] by fastforce
  obtain o1 o2 where offs: "offs = [o1, o2]"
    using o(1) one_class_sane(2) by (auto simp: length_Suc_conv)
  let ?fs = "[''dump_regs.o'' \<mapsto> \<lparr>mf_function = ''dump_registers'', mf_blocks =
      [[GlobalPICAddr 1 ''_ug_target_reg_data'', StoreReg 5 1 o1, StoreReg 1 1 o2, MI 3 []]]\<rparr>]"
  have "r = (True, ?fs)"
    unfolding o(2) by (subst compile_writes) (simp_all add: copy_function_def offs one_class_sane(2) some_x86_def)
  moreover have "{StoreReg 5 1 o1, StoreReg 1 1 o2} \<subseteq> set code"
    using o(3) by (simp add: offs one_class_sane(2) some_x86_def)
  ultimately show ?thesis using t i
    by (intro exI [of _ It] exI [of _ Ir] exI [of _ code] exI [of _ ?fs] exI [of _ o1] exI [of _ o2]) simp
qed

text \<open>
  Property C24. The function \<open>dump_registers\<close> of the server: the code that is compiled for it leaves the
  stack as it was and calls nothing, stores every register of the table, byte by byte, at the table's
  offset in the target's buffer, and ends with a return. The parts of the scratch register (\<open>R11\<close>,
  \<open>R11D\<close>) are the exception: their place gets bytes of the buffer's address. The registers
  are general registers and no high bytes, which excludes results of fewer than 32 bits.
\<close>

theorem target_dump:
  assumes "sane_classes TRI" "space_for TRI (Out @ equivalent_regs TRI Out) < 2 ^ 32"
    "storable E TRI (Out @ equivalent_regs TRI Out)"
    "emitDumpRegistersModule T TRI X D Out file It0 fs = Some (r, It)" "RegData It0 D = None"
  shows "\<exists>code G m'. r = compileToObjectFile T D \<lparr>mf_function = ''dump_registers'', mf_blocks = [code @ [MI (Retq X) []]]\<rparr>
      file True fs \<and> RegData It D = Some G \<and> Regs It = Out @ equivalent_regs TRI Out \<and>
    length (ug_reg_info G) = length (Regs It) \<and>
    (\<forall>m. exec_code E X code m = Some (m' m) \<and> stack (m' m) = stack m \<and> calls (m' m) = calls m \<and>
      (\<forall>i < length (Regs It). \<forall>k < reg_bytes E (Regs It ! i).
        ram (m' m) (glob E ''_ug_target_reg_data'' + offset (ug_reg_info G ! i) + of_nat k) =
        (if full_reg E (Regs It ! i) = full_reg E (FreeReg X) then ucast (drop_bit (8 * k) (glob E ''_ug_target_reg_data''))
         else reg_byte E (full m) (Regs It ! i) k)))"
proof -
  obtain code where d: "dumpRegisters TRI X D Out ''_ug_target_reg_data'' [] It0 = Some (code, It)"
    and r: "r = compileToObjectFile T D \<lparr>mf_function = ''dump_registers'', mf_blocks = [code @ [MI (Retq X) []]]\<rparr> file True fs"
    and da: "dumps_as TRI Out ''_ug_target_reg_data'' D It" "RegData It D \<noteq> None"
    by (rule target_code [OF assms(4,5)])
  have d0: "dumps_as TRI Out ''_ug_target_reg_data'' D It0" using assms(5) by (simp add: dumps_as_def)
  obtain m' where m': "\<forall>m m1. exec_code E X [] m = Some m1 \<longrightarrow> exec_code E X code m = Some (m' m1) \<and>
      stack (m' m1) = stack m1 \<and> calls (m' m1) = calls m1 \<and>
      (\<forall>i < length (Regs It). \<forall>k < reg_bytes E (Regs It ! i).
        ram (m' m1) (glob E ''_ug_target_reg_data'' + ucast (fst (RegInfo It ! i)) + of_nat k) =
        (if full_reg E (Regs It ! i) = full_reg E (FreeReg X) then ucast (drop_bit (8 * k) (glob E ''_ug_target_reg_data''))
         else reg_byte E (full m1) (Regs It ! i) k))"
    using dumpRegisters_exec [OF assms(1-3) d0 d] by blast
  obtain info table e G where L: "place_regs TRI (Out @ equivalent_regs TRI Out) 0 = Some (info, table, e)"
    "Regs It = Out @ equivalent_regs TRI Out" "RegInfo It = info" "RegData It D = Some G" "ug_reg_info G = table"
    using dumps_asE [OF da] by metis
  note tab = table_offsets [OF assms(1,2) L(1)]
  have off: "offset (ug_reg_info G ! i) = ucast (fst (RegInfo It ! i))" if "i < length (Regs It)" for i
  proof -
    have "map offset table ! i = map ucast (map fst info) ! i" by (simp only: tab(3))
    then show ?thesis using that L tab(1,2) by simp
  qed
  show ?thesis
    using m' off by (intro exI [of _ code] exI [of _ G] exI [of _ m']) (use r L tab(2) in simp)
qed

theorem target_dump_witness:
  "\<exists>code off. (\<exists>r It. emitDumpRegistersModule \<lparr>can_open = (\<lambda>_. True), has_emitters = True, emit = (\<lambda>M init. init \<lparr>mf_function =
      ''dump_registers'', mf_blocks = []\<rparr>)\<rparr> one_class some_x86 1 [5] ''dump_regs.o'' new_instrumenter Map.empty = Some (r, It)) \<and>
    (\<exists>m. exec_code some_execution some_x86 code some_machine = Some m \<and> ram m (0x5000 + off) = 5 \<and> calls m = [])"
proof -
  have sp: "space_for one_class ([5] @ equivalent_regs one_class [5]) < 2 ^ 32" "RegData new_instrumenter 1 = None"
    using one_class_sane by (simp_all add: new_instrumenter_def)
  obtain r It where t: "emitDumpRegistersModule \<lparr>can_open = (\<lambda>_. True), has_emitters = True, emit = (\<lambda>M init. init \<lparr>mf_function =
      ''dump_registers'', mf_blocks = []\<rparr>)\<rparr> one_class some_x86 1 [5] ''dump_regs.o'' new_instrumenter Map.empty = Some (r, It)"
    using some_emitted by blast
  from target_dump [OF one_class_sane(1) sp(1) some_machine_ok(2) t sp(2)] obtain code G m' where
    rs: "RegData It 1 = Some G" "Regs It = [5] @ equivalent_regs one_class [5]"
    and all: "\<forall>m. exec_code some_execution some_x86 code m = Some (m' m) \<and> stack (m' m) = stack m \<and> calls (m' m) = calls m \<and>
      (\<forall>i < length (Regs It). \<forall>k < reg_bytes some_execution (Regs It ! i).
        ram (m' m) (glob some_execution ''_ug_target_reg_data'' + offset (ug_reg_info G ! i) + of_nat k) =
        (if full_reg some_execution (Regs It ! i) = full_reg some_execution (FreeReg some_x86)
         then ucast (drop_bit (8 * k) (glob some_execution ''_ug_target_reg_data''))
         else reg_byte some_execution (full m) (Regs It ! i) k))"
    by (elim exE conjE) (rule that)
  note run = conjunct1 [OF spec [OF all, of some_machine]]
    conjunct1 [OF conjunct2 [OF conjunct2 [OF spec [OF all, of some_machine]]]]
  note v = conjunct2 [OF conjunct2 [OF conjunct2 [OF spec [OF all, of some_machine]]]]
  have "0 < length (Regs It)" "0 < reg_bytes some_execution (Regs It ! 0)" using rs by (simp_all add: some_execution_def)
  with v have "ram (m' some_machine) (glob some_execution ''_ug_target_reg_data'' + offset (ug_reg_info G ! 0) + of_nat 0) =
        (if full_reg some_execution (Regs It ! 0) = full_reg some_execution (FreeReg some_x86)
         then ucast (drop_bit (8 * 0) (glob some_execution ''_ug_target_reg_data''))
         else reg_byte some_execution (full some_machine) (Regs It ! 0) 0)" by blast
  then have "ram (m' some_machine) (0x5000 + offset (ug_reg_info G ! 0)) = 5"
    using rs by (simp add: some_execution_def some_x86_def some_machine_def reg_byte_def)
  then show ?thesis using run t by (intro exI conjI) (auto simp: some_machine_def)
qed

end
