(* ===== verification/Spawn.thy ===== *)
theory Spawn
  imports Client
begin

text \<open>
  The server's side of a call of the target in \<open>server.c\<close>: what \<open>_server_init\<close> leaves for the
  client, which calls of \<open>spawn_impl\<close> spawn a worker, and how the parent and the worker of
  one call run side by side, synchronised by the semaphore in the shared mapping. The results
  of system calls, the target and the rewrites are parameters.
\<close>

subsection \<open>The files for the client\<close>

definition decimal :: "int \<Rightarrow> string" where
  "decimal v = (if v < 0 then CHR ''-'' # dec (nat (- v)) else dec (nat v))"

text \<open>\<open>_server_init\<close>: the end of the heap, the worker file and the file with the address of \<open>jb\<close>.\<close>

record server_files =
  server_heap_bottom :: u64
  worker_data :: string
  jmp_buf_data :: string

definition server_init :: "u64 \<Rightarrow> u64 \<Rightarrow> server_files" where
  "server_init sbrk0 jb =
     \<lparr>server_heap_bottom = sbrk0, worker_data = [], jmp_buf_data = decimal (sint jb) @ [CHR 0x0A]\<rparr>"

text \<open>
  The client's \<open>JmpbufFile >> JmpbufAddr\<close>: digits after white space and a sign, which negates
  modulo \<open>2^64\<close>; 0 without digits, the largest value if they are out of range.
\<close>

definition read_jmpbuf :: "string \<Rightarrow> u64" where
  "read_jmpbuf str =
     (let str = dropWhile is_space str;
          (neg, str) = (case str of
              c # cs \<Rightarrow> if c = CHR ''-'' then (True, cs) else if c = CHR ''+'' then (False, cs) else (False, str)
            | [] \<Rightarrow> (False, str));
          v = digits_value (takeWhile is_digit str)
      in if 2 ^ 64 \<le> v then - 1 else if neg then - of_nat v else of_nat v)"

subsection \<open>Which calls spawn a worker\<close>

definition MAX_WORKER :: int where "MAX_WORKER = 32"

record server =
  invo :: int
  is_parent :: bool
  files :: server_files

text \<open>What a call depends on: \<open>mkdtemp\<close> on its template, the result of \<open>fork\<close>, the frame.\<close>

record spawn_env =
  mkdtemp :: "string \<Rightarrow> string"
  fork_pid :: int
  frame_address :: u64
  stack_boundary :: u64
  page_size :: u64

datatype role = WorkerProcess | ParentProcess

text \<open>
  \<open>spawn_impl\<close> up to the two bodies, and the line that the parent writes. \<open>invo\<close> is an \<open>int\<close>;
  \<open>None\<close> is its overflow.
\<close>

definition spawn_role :: "spawn_env \<Rightarrow> server \<Rightarrow> (role \<times> server) option" where
  "spawn_role e S =
     (if invo S = 2 ^ 31 - 1 then None
      else
        let frame_begin = frame_start (stack_boundary e) (page_size e);
            frame_size = frame_address e - frame_begin;
            S = S\<lparr>invo := invo S + 1\<rparr>;
            can_spawn = (is_parent S \<and> invo S \<le> MAX_WORKER);
            sock_path = ''/tmp/tuning-XXXXXX'';
            sock_path = (if can_spawn then mkdtemp e sock_path @ ''/socket'' else sock_path)
        in if can_spawn \<and> fork_pid e = 0 then Some (WorkerProcess, S\<lparr>is_parent := False\<rparr>)
           else Some (ParentProcess,
             if can_spawn
             then S\<lparr>files := (files S)\<lparr>worker_data :=
               worker_data (files S) @ dump_worker_data sock_path frame_begin frame_size\<rparr>\<rparr>
             else S))"

text \<open>The calls of one process, one after the other.\<close>

fun spawn_calls :: "spawn_env list \<Rightarrow> server \<Rightarrow> server option" where
  "spawn_calls [] S = Some S"
| "spawn_calls (e # es) S = do { (_, S) \<leftarrow> spawn_role e S; spawn_calls es S }"

subsection \<open>The two processes of a call\<close>

definition register_signal_handler :: "(string \<Rightarrow> int) \<Rightarrow> int option" where
  "register_signal_handler sigaction =
     (if list_ex (\<lambda>sig. sigaction sig \<noteq> 0) [''SIGSEGV'', ''SIGBUS'', ''SIGILL'', ''SIGFPE''] then Some 1
      else None)"

text \<open>
  The parameters of a call: its layout, the address of the register buffer, the register
  table, the target and \<open>dump_registers\<close> as functions on memory, the results of the
  worker's system calls, and the loader of rewrites.
\<close>

record 'l spawn_call =
  lay :: layout
  ug_reg_data :: u64
  reg_table :: "reg_info list"
  num_output :: nat
  fn_name :: string
  target_call :: "bytes \<Rightarrow> bytes"
  dump_regs :: "bytes \<Rightarrow> bytes"
  sigaction_rc :: "string \<Rightarrow> int"
  socket_fd :: int
  bind_rc :: int
  listen_rc :: int
  accept_fd :: int
  rw_loader :: "'l loader"

definition open_socket :: "'l spawn_call \<Rightarrow> int option" where
  "open_socket C =
     (if socket_fd C = - 1 \<or> bind_rc C = - 1 \<or> listen_rc C = - 1 \<or> accept_fd C = - 1 then None
      else Some (accept_fd C))"

datatype parent_pc = Forked | Listed | Ran | Dumped | CopiedStack | CopiedHeap | CopiedRegs | Returned
text \<open>\<open>Lost\<close>: the worker does not come back from a request.\<close>

datatype worker_pc = Started | Handling | Waited | Serving | Lost | Exited int

text \<open>
  Both processes have private memory; the addresses of the mapping are shared. \<open>requests\<close> are
  what the reads of the worker returned, \<open>answers\<close> what was written back.
\<close>

record processes =
  ppc :: parent_pc
  wpc :: worker_pc
  parent_mem :: bytes
  worker_mem :: bytes
  shared_mem :: bytes
  sem :: nat
  requests :: "string list"
  answers :: "response list"

definition parent_view :: "'l spawn_call \<Rightarrow> processes \<Rightarrow> bytes" where
  "parent_view C s = view (lay C) (parent_mem s) (shared_mem s)"

definition worker_view :: "'l spawn_call \<Rightarrow> processes \<Rightarrow> bytes" where
  "worker_view C s = view (lay C) (worker_mem s) (shared_mem s)"

text \<open>The parent has changed the memory it sees to \<open>M\<close>.\<close>

definition parent_writes :: "'l spawn_call \<Rightarrow> bytes \<Rightarrow> processes \<Rightarrow> processes" where
  "parent_writes C M s = s\<lparr>parent_mem := view (lay C) M (parent_mem s), shared_mem := view (lay C) (shared_mem s) M\<rparr>"

text \<open>The worker and its children have changed the memory they see to \<open>M\<close>.\<close>

definition worker_writes :: "'l spawn_call \<Rightarrow> bytes \<Rightarrow> processes \<Rightarrow> processes" where
  "worker_writes C M s = s\<lparr>worker_mem := view (lay C) M (worker_mem s), shared_mem := view (lay C) (shared_mem s) M\<rparr>"

definition forked :: "bytes \<Rightarrow> processes" where
  "forked M = \<lparr>ppc = Forked, wpc = Started, parent_mem = M, worker_mem = M, shared_mem = (\<lambda>_. 0), sem = 0,
     requests = [], answers = []\<rparr>"

inductive spawn_step :: "'l spawn_call \<Rightarrow> processes \<Rightarrow> processes \<Rightarrow> bool" for C where
  list_worker: "ppc s = Forked \<Longrightarrow> spawn_step C s (s\<lparr>ppc := Listed\<rparr>)"
| run_target: "ppc s = Listed \<Longrightarrow>
    spawn_step C s (parent_writes C (target_call C (parent_view C s)) (s\<lparr>ppc := Ran\<rparr>))"
| dump_registers: "ppc s = Ran \<Longrightarrow>
    spawn_step C s (parent_writes C (dump_regs C (parent_view C s)) (s\<lparr>ppc := Dumped\<rparr>))"
| copy_stack: "ppc s = Dumped \<Longrightarrow>
    spawn_step C s (parent_writes C
      (copy_bytes (target_stack (lay C)) (stack_bottom (lay C)) (stack_size (lay C)) (parent_view C s))
      (s\<lparr>ppc := CopiedStack\<rparr>))"
| copy_heap: "ppc s = CopiedStack \<Longrightarrow>
    spawn_step C s (parent_writes C
      (if heap_size (lay C) \<noteq> 0
       then copy_bytes (target_heap (lay C)) (heap_bottom (lay C)) (heap_size (lay C)) (parent_view C s)
       else parent_view C s)
      (s\<lparr>ppc := CopiedHeap\<rparr>))"
| copy_regs: "ppc s = CopiedHeap \<Longrightarrow>
    spawn_step C s (parent_writes C
      (if length (reg_table C) > 0
       then copy_bytes (target_reg_data (lay C)) (ug_reg_data C) (reg_buf_size (lay C)) (parent_view C s)
       else parent_view C s)
      (s\<lparr>ppc := CopiedRegs\<rparr>))"
| post: "ppc s = CopiedRegs \<Longrightarrow> spawn_step C s (s\<lparr>ppc := Returned, sem := sem s + 1\<rparr>)"
| handlers: "wpc s = Started \<Longrightarrow> register_signal_handler (sigaction_rc C) = None \<Longrightarrow>
    spawn_step C s (s\<lparr>wpc := Handling\<rparr>)"
| no_handlers: "wpc s = Started \<Longrightarrow> register_signal_handler (sigaction_rc C) = Some st \<Longrightarrow>
    spawn_step C s (s\<lparr>wpc := Exited st\<rparr>)"
| wait: "wpc s = Handling \<Longrightarrow> 0 < sem s \<Longrightarrow> spawn_step C s (s\<lparr>wpc := Waited, sem := sem s - 1\<rparr>)"
| connected: "wpc s = Waited \<Longrightarrow> open_socket C = Some fd \<Longrightarrow> spawn_step C s (s\<lparr>wpc := Serving\<rparr>)"
| no_socket: "wpc s = Waited \<Longrightarrow> open_socket C = None \<Longrightarrow> spawn_step C s (s\<lparr>wpc := Exited 255\<rparr>)"
| serve: "wpc s = Serving \<Longrightarrow> 1 < length m \<Longrightarrow> length m \<le> LIBPATH_MAX_LEN \<Longrightarrow> c_string m = Some path \<Longrightarrow>
    serve_request (rw_loader C) (fn_name C) (lay C) (reg_table C) (num_output C) path (worker_view C s) = Some (rs, M') \<Longrightarrow>
    spawn_step C s (worker_writes C M' (s\<lparr>requests := requests s @ [m], answers := answers s @ rs\<rparr>))"
| overrun: "wpc s = Serving \<Longrightarrow> 1 < length m \<Longrightarrow> length m \<le> LIBPATH_MAX_LEN \<Longrightarrow> c_string m = None \<Longrightarrow>
    spawn_step C s (s\<lparr>wpc := Lost, requests := requests s @ [m]\<rparr>)"
| block: "wpc s = Serving \<Longrightarrow> 1 < length m \<Longrightarrow> length m \<le> LIBPATH_MAX_LEN \<Longrightarrow> c_string m = Some path \<Longrightarrow>
    serve_request (rw_loader C) (fn_name C) (lay C) (reg_table C) (num_output C) path (worker_view C s) = None \<Longrightarrow>
    spawn_step C s (s\<lparr>wpc := Lost, requests := requests s @ [m]\<rparr>)"
| leave: "wpc s = Serving \<Longrightarrow> length m \<le> 1 \<Longrightarrow>
    spawn_step C s (s\<lparr>wpc := Exited 0, requests := requests s @ [m]\<rparr>)"

inductive spawn_reach :: "'l spawn_call \<Rightarrow> bytes \<Rightarrow> processes \<Rightarrow> bool" for C M where
  start: "spawn_reach C M (forked M)"
| step: "spawn_reach C M s \<Longrightarrow> spawn_step C s s' \<Longrightarrow> spawn_reach C M s'"

inductive_cases spawn_stepE: "spawn_step C s s'"

subsection \<open>The invariant of the two processes\<close>

lemma view_parent_writes:
  "view L (view L M p) (view L h M) = M"
  by (simp add: view_def fun_eq_iff)

lemma parent_writes_simps [simp]:
  "parent_view C (parent_writes C M s) = M" "worker_mem (parent_writes C M s) = worker_mem s"
  "ppc (parent_writes C M s) = ppc s" "wpc (parent_writes C M s) = wpc s" "sem (parent_writes C M s) = sem s"
  "requests (parent_writes C M s) = requests s" "answers (parent_writes C M s) = answers s"
  by (simp_all add: parent_view_def parent_writes_def view_parent_writes)

lemma worker_writes_simps [simp]:
  "worker_view C (worker_writes C M s) = M" "ppc (worker_writes C M s) = ppc s" "wpc (worker_writes C M s) = wpc s"
  "sem (worker_writes C M s) = sem s" "requests (worker_writes C M s) = requests s" "answers (worker_writes C M s) = answers s"
  by (simp_all add: worker_view_def worker_writes_def view_parent_writes)

lemma views_same [simp]:
  "parent_view C (s\<lparr>ppc := a\<rparr>) = parent_view C s" "parent_view C (s\<lparr>wpc := b\<rparr>) = parent_view C s"
  "parent_view C (s\<lparr>ppc := a, sem := n\<rparr>) = parent_view C s" "parent_view C (s\<lparr>wpc := b, sem := n\<rparr>) = parent_view C s"
  "parent_view C (s\<lparr>requests := r, answers := t\<rparr>) = parent_view C s"
  "parent_view C (s\<lparr>wpc := b, requests := r\<rparr>) = parent_view C s"
  "worker_view C (s\<lparr>wpc := b\<rparr>) = worker_view C s" "worker_view C (s\<lparr>ppc := a, sem := n\<rparr>) = worker_view C s"
  "worker_view C (s\<lparr>wpc := b, sem := n\<rparr>) = worker_view C s" "worker_view C (s\<lparr>ppc := a\<rparr>) = worker_view C s"
  "worker_view C (s\<lparr>requests := r, answers := t\<rparr>) = worker_view C s"
  "worker_view C (s\<lparr>wpc := b, requests := r\<rparr>) = worker_view C s"
  by (simp_all add: parent_view_def worker_view_def)

text \<open>The memory of the parent after the target has run and its registers were dumped.\<close>

definition target_output :: "'l spawn_call \<Rightarrow> bytes \<Rightarrow> bytes" where
  "target_output C M = dump_regs C (target_call C (view (lay C) M (\<lambda>_. 0)))"

definition stack_copied :: "'l spawn_call \<Rightarrow> bytes \<Rightarrow> bytes" where
  "stack_copied C M = copy_bytes (target_stack (lay C)) (stack_bottom (lay C)) (stack_size (lay C)) M"

definition heap_copied :: "'l spawn_call \<Rightarrow> bytes \<Rightarrow> bytes" where
  "heap_copied C M =
     (if heap_size (lay C) \<noteq> 0 then copy_bytes (target_heap (lay C)) (heap_bottom (lay C)) (heap_size (lay C)) M else M)"

definition regs_copied :: "'l spawn_call \<Rightarrow> bytes \<Rightarrow> bytes" where
  "regs_copied C M =
     (if length (reg_table C) > 0 then copy_bytes (target_reg_data (lay C)) (ug_reg_data C) (reg_buf_size (lay C)) M else M)"

lemma snapshot_steps:
  "snapshot (lay C) (ug_reg_data C) (length (reg_table C)) M = regs_copied C (heap_copied C (stack_copied C M))"
  by (simp add: snapshot_def stack_copied_def heap_copied_def regs_copied_def Let_def)

fun parent_memory :: "'l spawn_call \<Rightarrow> bytes \<Rightarrow> parent_pc \<Rightarrow> bytes" where
  "parent_memory C M Forked = view (lay C) M (\<lambda>_. 0)"
| "parent_memory C M Listed = view (lay C) M (\<lambda>_. 0)"
| "parent_memory C M Ran = target_call C (view (lay C) M (\<lambda>_. 0))"
| "parent_memory C M Dumped = target_output C M"
| "parent_memory C M CopiedStack = stack_copied C (target_output C M)"
| "parent_memory C M CopiedHeap = heap_copied C (stack_copied C (target_output C M))"
| "parent_memory C M CopiedRegs = regs_copied C (heap_copied C (stack_copied C (target_output C M)))"
| "parent_memory C M Returned = regs_copied C (heap_copied C (stack_copied C (target_output C M)))"

text \<open>From the wait on the worker sees the snapshot behind the memory it was forked with.\<close>

definition served_memory :: "'l spawn_call \<Rightarrow> bytes \<Rightarrow> bytes" where
  "served_memory C M = view (lay C) M (snapshot (lay C) (ug_reg_data C) (length (reg_table C)) (target_output C M))"

definition standing :: "'l spawn_call \<Rightarrow> processes \<Rightarrow> serving" where
  "standing C s = (case wpc s of Serving \<Rightarrow> Waiting (worker_view C s) | Lost \<Rightarrow> Blocked | _ \<Rightarrow> Left)"

abbreviation served :: "'l spawn_call \<Rightarrow> bytes \<Rightarrow> string list \<Rightarrow> response list \<times> serving" where
  "served C M ms \<equiv> worker_loop (rw_loader C) (fn_name C) (lay C) (reg_table C) (num_output C) ms (served_memory C M)"

definition spawn_inv :: "'l spawn_call \<Rightarrow> bytes \<Rightarrow> processes \<Rightarrow> bool" where
  "spawn_inv C M s \<longleftrightarrow>
     (0 < sem s \<or> wpc s \<in> {Waited, Serving} \<or> requests s \<noteq> [] \<longrightarrow> ppc s = Returned) \<and>
     (ppc s = Returned \<and> wpc s \<in> {Started, Handling} \<longrightarrow> sem s = 1) \<and>
     (wpc s \<in> {Started, Handling, Waited} \<longrightarrow> requests s = []) \<and>
     (requests s = [] \<longrightarrow> parent_view C s = parent_memory C M (ppc s) \<and> worker_mem s = M \<and> answers s = []) \<and>
     (requests s \<noteq> [] \<longrightarrow> served C M (requests s) = (answers s, standing C s))"

lemma first_view:
  assumes inv: "spawn_inv C M s" and s: "requests s = []" "ppc s = Returned"
  shows "worker_view C s = served_memory C M"
proof -
  have p: "parent_view C s = snapshot (lay C) (ug_reg_data C) (length (reg_table C)) (target_output C M)"
    using inv s by (simp add: spawn_inv_def snapshot_steps)
  have w: "worker_mem s = M" using inv s(1) by (simp add: spawn_inv_def)
  have "worker_view C s = view (lay C) (worker_mem s) (parent_view C s)"
    by (simp add: worker_view_def parent_view_def view_def fun_eq_iff)
  then show ?thesis by (simp only: p w served_memory_def)
qed

lemma served_so_far:
  assumes "spawn_inv C M s" "wpc s = Serving"
  shows "served C M (requests s) = (answers s, Waiting (worker_view C s))"
proof (cases "requests s = []")
  case True
  have "ppc s = Returned" using assms by (simp add: spawn_inv_def)
  from first_view [OF assms(1) True this] show ?thesis using assms(1) True by (simp add: spawn_inv_def)
next
  case False
  then show ?thesis using assms by (simp add: spawn_inv_def standing_def)
qed

lemma spawn_inv_step:
  assumes "spawn_step C s s'" and inv: "spawn_inv C M s"
  shows "spawn_inv C M s'"
  using assms(1)
proof cases
  case (serve m path rs M')
  have "served C M (requests s @ [m]) = (answers s @ rs, Waiting M')"
    using serve by (simp add: worker_loop_append served_so_far [OF inv] serve_on_def)
  then show ?thesis using serve(1,2) inv by (simp add: spawn_inv_def standing_def)
next
  case (overrun m)
  have "served C M (requests s @ [m]) = (answers s, Blocked)"
    using overrun by (simp add: worker_loop_append served_so_far [OF inv] serve_on_def)
  then show ?thesis using overrun(1,2) inv by (simp add: spawn_inv_def standing_def)
next
  case (block m path)
  have "served C M (requests s @ [m]) = (answers s, Blocked)"
    using block by (simp add: worker_loop_append served_so_far [OF inv] serve_on_def)
  then show ?thesis using block(1,2) inv by (simp add: spawn_inv_def standing_def)
next
  case (leave m)
  have "served C M (requests s @ [m]) = (answers s, Left)"
    using leave by (simp add: worker_loop_append served_so_far [OF inv] serve_on_def)
  then show ?thesis using leave(1,2) inv by (simp add: spawn_inv_def standing_def)
qed (use inv in \<open>auto simp: spawn_inv_def standing_def target_output_def stack_copied_def heap_copied_def regs_copied_def\<close>)

lemma spawn_reach_inv: "spawn_reach C M s \<Longrightarrow> spawn_inv C M s"
proof (induction rule: spawn_reach.induct)
  case start
  then show ?case by (simp add: spawn_inv_def forked_def parent_view_def)
qed (rule spawn_inv_step)

text \<open>If no rewrite writes to the mapping, it stays the snapshot.\<close>

lemma served_mapping:
  assumes "spawn_reach C M s" "wpc s = Serving" "keeps_mapping (rw_loader C) (lay C)" "in_mapping (lay C) x"
  shows "worker_view C s x = snapshot (lay C) (ug_reg_data C) (length (reg_table C)) (target_output C M) x"
  using loop_keeps_mapping [OF assms(3) served_so_far [OF spawn_reach_inv [OF assms(1)] assms(2)] assms(4)] assms(4)
  by (simp add: served_memory_def view_def)

subsection \<open>The worker gets to serve\<close>

lemma reach_steps: "(spawn_step C)\<^sup>*\<^sup>* s s' \<Longrightarrow> spawn_reach C M s \<Longrightarrow> spawn_reach C M s'"
  by (induction rule: rtranclp_induct) (auto intro: spawn_reach.step)

lemma parent_step:
  assumes "ppc s \<noteq> Returned"
  obtains s' where "spawn_step C s s'" "wpc s' = wpc s" "requests s' = requests s" "answers s' = answers s" "ppc s = Forked \<Longrightarrow> ppc s' = Listed"
    "ppc s = Listed \<Longrightarrow> ppc s' = Ran" "ppc s = Ran \<Longrightarrow> ppc s' = Dumped" "ppc s = Dumped \<Longrightarrow> ppc s' = CopiedStack"
    "ppc s = CopiedStack \<Longrightarrow> ppc s' = CopiedHeap" "ppc s = CopiedHeap \<Longrightarrow> ppc s' = CopiedRegs"
    "ppc s = CopiedRegs \<Longrightarrow> ppc s' = Returned"
proof (cases "ppc s")
  case Forked
  show thesis by (rule that [OF list_worker [OF Forked]]) (simp_all add: Forked)
next
  case Listed
  show thesis by (rule that [OF run_target [OF Listed]]) (simp_all add: Listed)
next
  case Ran
  show thesis by (rule that [OF dump_registers [OF Ran]]) (simp_all add: Ran)
next
  case Dumped
  show thesis by (rule that [OF copy_stack [OF Dumped]]) (simp_all add: Dumped)
next
  case CopiedStack
  show thesis by (rule that [OF copy_heap [OF CopiedStack]]) (simp_all add: CopiedStack)
next
  case CopiedHeap
  show thesis by (rule that [OF copy_regs [OF CopiedHeap]]) (simp_all add: CopiedHeap)
next
  case CopiedRegs
  show thesis by (rule that [OF post [OF CopiedRegs]]) (simp_all add: CopiedRegs)
qed (use assms in simp)

fun steps_left :: "parent_pc \<Rightarrow> nat" where
  "steps_left Forked = 7" | "steps_left Listed = 6" | "steps_left Ran = 5" | "steps_left Dumped = 4"
| "steps_left CopiedStack = 3" | "steps_left CopiedHeap = 2" | "steps_left CopiedRegs = 1" | "steps_left Returned = 0"

lemma parent_returns: "\<exists>s'. (spawn_step C)\<^sup>*\<^sup>* s s' \<and> ppc s' = Returned \<and> wpc s' = wpc s \<and>
    requests s' = requests s \<and> answers s' = answers s"
proof (induction "steps_left (ppc s)" arbitrary: s rule: less_induct)
  case less
  show ?case
  proof (cases "ppc s = Returned")
    case False
    obtain s1 where s1: "spawn_step C s s1" "wpc s1 = wpc s" "requests s1 = requests s" "answers s1 = answers s" "steps_left (ppc s1) < steps_left (ppc s)"
      by (rule parent_step [OF False, of C]) (cases "ppc s"; use False in simp)
    from less [OF s1(5)] obtain s' where "(spawn_step C)\<^sup>*\<^sup>* s1 s'" "ppc s' = Returned" "wpc s' = wpc s1"
      "requests s' = requests s1" "answers s' = answers s1" by blast
    then show ?thesis using s1(1-4) by (metis converse_rtranclp_into_rtranclp)
  qed (blast intro: rtranclp.rtrancl_refl)
qed

lemma serving_reachable:
  assumes r: "spawn_reach C M s" and ok: "register_signal_handler (sigaction_rc C) = None" "open_socket C \<noteq> None"
    and s: "\<forall>st. wpc s \<noteq> Exited st" "wpc s \<noteq> Lost"
  shows "\<exists>s'. (spawn_step C)\<^sup>*\<^sup>* s s' \<and> wpc s' = Serving \<and> requests s' = requests s \<and> answers s' = answers s"
proof -
  obtain fd where fd: "open_socket C = Some fd" using ok(2) by blast
  have serve: "\<exists>s'. (spawn_step C)\<^sup>*\<^sup>* t s' \<and> wpc s' = Serving \<and> requests s' = requests t \<and> answers s' = answers t"
    if "wpc t = Waited" for t
    using spawn_step.connected [OF that fd] by (intro exI [of _ "t\<lparr>wpc := Serving\<rparr>"]) auto
  have wt: "\<exists>s'. (spawn_step C)\<^sup>*\<^sup>* t s' \<and> wpc s' = Serving \<and> requests s' = requests t \<and> answers s' = answers t"
    if t: "spawn_reach C M t" "wpc t = Handling" for t
  proof -
    obtain t1 where t1: "(spawn_step C)\<^sup>*\<^sup>* t t1" "ppc t1 = Returned" "wpc t1 = Handling"
      "requests t1 = requests t" "answers t1 = answers t"
      using parent_returns [of C t] t(2) by auto
    have "sem t1 = 1" using spawn_reach_inv [OF reach_steps [OF t1(1) t(1)]] t1(2,3) by (simp add: spawn_inv_def)
    then have w: "spawn_step C t1 (t1\<lparr>wpc := Waited, sem := sem t1 - 1\<rparr>)" by (intro wait t1(3)) simp
    obtain s' where "(spawn_step C)\<^sup>*\<^sup>* (t1\<lparr>wpc := Waited, sem := sem t1 - 1\<rparr>) s'" "wpc s' = Serving"
      "requests s' = requests t1" "answers s' = answers t1"
      using serve [of "t1\<lparr>wpc := Waited, sem := sem t1 - 1\<rparr>"] by auto
    then show ?thesis
      using t1(4,5) rtranclp_trans [OF t1(1) converse_rtranclp_into_rtranclp [of "spawn_step C", OF w]] by metis
  qed
  show ?thesis
  proof (cases "wpc s")
    case Started
    have h: "spawn_step C s (s\<lparr>wpc := Handling\<rparr>)" by (rule handlers [OF Started ok(1)])
    then show ?thesis using wt [OF spawn_reach.step [OF r h]] by (auto intro: converse_rtranclp_into_rtranclp)
  qed (use wt [OF r] serve s in auto)
qed

subsection \<open>Calls as the code lays them out\<close>

text \<open>The layout of a call is that of \<open>spawn_impl\<close>, for regions below \<open>2^61\<close> bytes.\<close>

definition laid_out :: "'l spawn_call \<Rightarrow> u64 \<Rightarrow> bool" where
  "laid_out C mapping \<longleftrightarrow>
     (\<exists>fp heap_top top bottom. lay C = spawn_layout fp heap_top top bottom mapping (reg_table C)) \<and>
     stack_size (lay C) < 2 ^ 61 \<and> heap_size (lay C) < 2 ^ 61 \<and> reg_buf_size (lay C) < 2 ^ 61 \<and>
     layout_ok (reg_table C) \<and> regs_in_buffer (reg_table C) (reg_buf_size (lay C)) \<and>
     num_output C \<le> length (reg_table C) \<and> num_output C < 2 ^ 31"

lemma laid_out_facts:
  assumes "laid_out C mapping"
  shows "copies_fit (lay C)" "target_stack (lay C) = mapping + SEM_SIZE"
    "shared_size (lay C) = heap_size (lay C) + stack_size (lay C) + SEM_SIZE + reg_buf_size (lay C)"
    "reg_table C \<noteq> [] \<or> reg_buf_size (lay C) = 0"
  using assms by (auto simp: laid_out_def copies_fit_def spawn_layout_def Let_def reg_buffer_size_def)

lemma region_offset:
  assumes "(x :: u64) - (a + b) < n" "unat b + unat n < 2 ^ 64"
  shows "unat (x - a) = unat b + unat (x - (a + b))"
proof -
  define d where "d = x - (a + b)"
  have "x - a = b + d" by (simp add: d_def)
  moreover have "unat d < unat n" using assms(1) by (simp add: word_less_nat_alt d_def)
  ultimately have "unat (x - a) = unat b + unat d" using assms(2) by (simp add: unat_plus_if')
  then show ?thesis by (simp only: d_def)
qed

lemma copies_in_mapping:
  assumes l: "laid_out C mapping" and x: "\<not> outside_copies (lay C) x"
  shows "in_mapping (lay C) x"
proof -
  let ?L = "lay C"
  note f = laid_out_facts [OF l]
  have sz: "unat (stack_size ?L) < 2 ^ 61" "unat (heap_size ?L) < 2 ^ 61" "unat (reg_buf_size ?L) < 2 ^ 61"
    using f(1) by (simp_all add: copies_fit_def word_less_nat_alt)
  have at: "target_heap ?L = mapping + (SEM_SIZE + stack_size ?L)"
    "target_reg_data ?L = mapping + (SEM_SIZE + stack_size ?L + heap_size ?L)"
    using f(1,2) by (simp_all add: copies_fit_def)
  have S: "unat SEM_SIZE = 32" by (simp add: SEM_SIZE_def)
  have u: "unat (SEM_SIZE + stack_size ?L) = 32 + unat (stack_size ?L)"
    "unat (SEM_SIZE + stack_size ?L + heap_size ?L) = 32 + unat (stack_size ?L) + unat (heap_size ?L)"
    "unat (shared_size ?L) = unat (heap_size ?L) + unat (stack_size ?L) + 32 + unat (reg_buf_size ?L)"
    using sz S by (simp_all add: f(3) unat_plus_if')
  have "unat (x - mapping) < unat (shared_size ?L)"
  proof -
    consider "x - (mapping + SEM_SIZE) < stack_size ?L" | "x - (mapping + (SEM_SIZE + stack_size ?L)) < heap_size ?L"
      | "x - (mapping + (SEM_SIZE + stack_size ?L + heap_size ?L)) < reg_buf_size ?L"
      using x unfolding outside_copies_def at f(2) by blast
    then show "unat (x - mapping) < unat (shared_size ?L)"
    proof cases
      case 1
      then show ?thesis using region_offset [OF 1] sz S u by (simp add: word_less_nat_alt)
    next
      case 2
      then show ?thesis using region_offset [OF 2] sz S u by (simp add: word_less_nat_alt)
    next
      case 3
      then show ?thesis using region_offset [OF 3] sz S u by (simp add: word_less_nat_alt)
    qed
  qed
  then show ?thesis by (simp add: in_mapping_def f(2) word_less_nat_alt)
qed

subsection \<open>What the client reads\<close>

lemma digits_end:
  "digits_value (takeWhile is_digit (dec n @ [CHR 0x0A])) = n"
proof -
  have "\<forall>c \<in> set (dec n). is_digit c" "digits_value (dec n) = n" using dec_props [of n] by auto
  then show ?thesis by (simp add: takeWhile_append2 is_digit_def)
qed

lemma dec_first: obtains c cs where "dec n = c # cs" "c \<noteq> CHR ''-''" "c \<noteq> CHR ''+''" "\<not> is_space c"
proof (cases "dec n")
  case Nil
  then show thesis using dec_props [of n] by simp
next
  case (Cons c cs)
  then have "is_digit c" using dec_props [of n] by simp
  then show thesis using that [OF Cons] digit_not_sep by blast
qed

lemma jmpbuf_read: "read_jmpbuf (decimal (sint jb) @ [CHR 0x0A]) = (jb :: u64)"
proof (cases "sint jb < 0")
  case True
  let ?n = "nat (- sint jb)"
  have "- (2 ^ 63) \<le> sint jb" using sint_range_size [of jb] by (simp add: word_size)
  then have n: "\<not> 2 ^ 64 \<le> ?n" by simp
  have "read_jmpbuf (decimal (sint jb) @ [CHR 0x0A]) = - of_nat ?n"
    using True n digits_end [of ?n] by (simp add: read_jmpbuf_def decimal_def is_space_def)
  also have "\<dots> = of_int (sint jb)" using True by (simp add: of_nat_nat)
  finally show ?thesis by simp
next
  case False
  let ?n = "nat (sint jb)"
  obtain c cs where c: "dec ?n = c # cs" "c \<noteq> CHR ''-''" "c \<noteq> CHR ''+''" "\<not> is_space c" by (rule dec_first)
  have "sint jb < 2 ^ 63" using sint_range_size [of jb] by (simp add: word_size)
  then have n: "\<not> 2 ^ 64 \<le> ?n" using False by simp
  have "read_jmpbuf (decimal (sint jb) @ [CHR 0x0A]) = of_nat ?n"
    using False n digits_end [of ?n] by (simp add: read_jmpbuf_def decimal_def c)
  also have "\<dots> = of_int (sint jb)" using False by (simp add: of_nat_nat)
  finally show ?thesis by simp
qed

text \<open>The line of a call in the worker file, and the calls of the parent.\<close>

definition call_entry :: "spawn_env \<Rightarrow> string \<times> u64 \<times> u64" where
  "call_entry e = (mkdtemp e ''/tmp/tuning-XXXXXX'' @ ''/socket'', frame_start (stack_boundary e) (page_size e),
     frame_address e - frame_start (stack_boundary e) (page_size e))"

lemma parent_calls:
  assumes "\<forall>e \<in> set es. fork_pid e \<noteq> 0" "0 \<le> invo S" "invo S + int (length es) < 2 ^ 31" "is_parent S"
  shows "\<exists>S'. spawn_calls es S = Some S' \<and> jmp_buf_data (files S') = jmp_buf_data (files S) \<and>
    worker_data (files S') = worker_data (files S) @ worker_file (map call_entry (take (nat (MAX_WORKER - invo S)) es))"
  using assms
proof (induction es arbitrary: S)
  case Nil
  then show ?case by (simp add: worker_file_def)
next
  case (Cons e es)
  let ?can = "invo S + 1 \<le> MAX_WORKER"
  let ?S = "if ?can
    then S\<lparr>invo := invo S + 1, files := (files S)\<lparr>worker_data := worker_data (files S) @ worker_file [call_entry e]\<rparr>\<rparr>
    else S\<lparr>invo := invo S + 1\<rparr>"
  have role: "spawn_role e S = Some (ParentProcess, ?S)"
    using Cons.prems by (simp add: spawn_role_def Let_def worker_file_def call_entry_def)
  have "\<exists>S'. spawn_calls es ?S = Some S' \<and> jmp_buf_data (files S') = jmp_buf_data (files ?S) \<and>
    worker_data (files S') = worker_data (files ?S) @ worker_file (map call_entry (take (nat (MAX_WORKER - invo ?S)) es))"
    using Cons.prems by (intro Cons.IH) auto
  then obtain S' where S': "spawn_calls es ?S = Some S'" "jmp_buf_data (files S') = jmp_buf_data (files ?S)"
    "worker_data (files S') = worker_data (files ?S) @ worker_file (map call_entry (take (nat (MAX_WORKER - invo ?S)) es))"
    by blast
  have "nat (MAX_WORKER - invo S) = (if ?can then Suc (nat (MAX_WORKER - (invo S + 1))) else 0)"
    "\<not> ?can \<Longrightarrow> nat (MAX_WORKER - (invo S + 1)) = 0" by auto
  then have "worker_data (files S') =
      worker_data (files S) @ worker_file (map call_entry (take (nat (MAX_WORKER - invo S)) (e # es)))"
    using S'(3) by (simp add: worker_file_def split: if_splits)
  then show ?case using S'(1,2) by (simp add: role)
qed

lemma parse_lines_none:
  assumes "\<forall>e \<in> set es. entry_ok e" "\<exists>e \<in> set es. connect (fst e) = None"
  shows "parse_lines connect old (map worker_line es) = None"
  using assms
proof (induction es arbitrary: old)
  case (Cons e es)
  obtain p b n where e: "e = (p, b, n)" by (cases e)
  show ?case
  proof (cases "connect p")
    case None
    have "CHR '','' \<notin> set p" using Cons.prems(1) by (simp add: e entry_ok_def path_ok_def)
    then have "fst (getline CHR '','' [] (Some (worker_line (p, b, n)))) = p"
      by (simp add: worker_line_def getline_hit)
    then have "parse_worker connect old (worker_line (p, b, n)) = None"
      using None by (simp add: parse_worker_def Let_def case_prod_beta split: Option.bind_splits)
    then show ?thesis by (simp add: e)
  next
    case (Some k)
    then obtain Str where "parse_worker connect old (worker_line (p, b, n))
        = Some (\<lparr>FrameBegin = b, FrameSize = n, Socket = k\<rparr>, Str)"
      using parse_line [of p b n connect k old] Cons.prems by (auto simp: e)
    then show ?thesis using Cons Some by (simp add: e)
  qed
qed simp

subsection \<open>Properties\<close>

definition started :: "u64 \<Rightarrow> u64 \<Rightarrow> server" where
  "started sbrk0 jb = \<lparr>invo = 0, is_parent = True, files = server_init sbrk0 jb\<rparr>"

lemma started_calls:
  assumes "\<forall>e \<in> set es. fork_pid e \<noteq> 0 \<and> entry_ok (call_entry e)" "length es < 2 ^ 31"
  obtains S where "spawn_calls es (started b jb) = Some S" "read_jmpbuf (jmp_buf_data (files S)) = jb"
    "worker_data (files S) = worker_file (map call_entry (take 32 es))"
  using parent_calls [of es "started b jb"] assms
  by (auto simp: started_def server_init_def MAX_WORKER_def jmpbuf_read)

text \<open>
  Property C26. The server's calls of the target from its start: whatever their number, what the
  client reads are the address of \<open>jb\<close> and exactly the first 32 calls' workers, in order, each
  with its own frame and the socket of its path, if the forks succeeded.
\<close>

theorem spawned_workers_listed:
  assumes "\<forall>e \<in> set es. fork_pid e \<noteq> 0 \<and> entry_ok (call_entry e)" "length es < 2 ^ 31"
    "\<forall>e \<in> set (take 32 es). connect (fst (call_entry e)) \<noteq> None"
  shows "\<exists>S. spawn_calls es (started b jb) = Some S \<and> read_jmpbuf (jmp_buf_data (files S)) = jb \<and>
    read_workers connect (worker_data (files S)) = Some (map (\<lambda>e. case call_entry e of (p, fb, fs) \<Rightarrow>
      \<lparr>FrameBegin = fb, FrameSize = fs, Socket = the (connect p)\<rparr>) (take 32 es))"
proof -
  obtain S where S: "spawn_calls es (started b jb) = Some S" "read_jmpbuf (jmp_buf_data (files S)) = jb"
    "worker_data (files S) = worker_file (map call_entry (take 32 es))"
    by (rule started_calls [OF assms(1,2)])
  have "\<forall>e \<in> set (map call_entry (take 32 es)). entry_ok e \<and> connect (fst e) \<noteq> None"
    using assms(1,3) set_take_subset [of 32 es] by auto
  from worker_file_roundtrip [OF this] show ?thesis
    using S by (intro exI [of _ S]) (simp add: comp_def)
qed

definition example_env :: "nat \<Rightarrow> int \<Rightarrow> spawn_env" where
  "example_env k pid = \<lparr>mkdtemp = (\<lambda>t. ''/tmp/tuning-'' @ dec k), fork_pid = pid, frame_address = 0x7000,
     stack_boundary = 0x5010, page_size = 0x1000\<rparr>"

lemma example_entry:
  "call_entry (example_env k pid) = (''/tmp/tuning-'' @ dec k @ ''/socket'', 0x6000, 0x1000)"
  "entry_ok (call_entry (example_env k pid))"
  using dec_no_sep [of k]
  by (simp_all add: call_entry_def example_env_def frame_start_def entry_ok_def path_ok_def)

theorem spawned_workers_listed_witness:
  "\<exists>S. spawn_calls [example_env 1 100, example_env 2 101] (started 0 0x9000) = Some S \<and>
    read_jmpbuf (jmp_buf_data (files S)) = 0x9000 \<and>
    read_workers (\<lambda>p. Some 3) (worker_data (files S)) =
      Some [\<lparr>FrameBegin = 0x6000, FrameSize = 0x1000, Socket = 3\<rparr>,
            \<lparr>FrameBegin = 0x6000, FrameSize = 0x1000, Socket = 3\<rparr>]"
proof -
  have "fork_pid (example_env k pid) = pid" for k pid by (simp add: example_env_def)
  then show ?thesis
    using spawned_workers_listed [of "[example_env 1 100, example_env 2 101]" "\<lambda>p. Some 3" 0 "0x9000"]
      example_entry by (simp del: spawn_calls.simps)
qed

text \<open>
  Property C35. A failed \<open>fork\<close> is not noticed: the parent lists a worker that does not exist, so
  when connecting to it fails, the client gives up, also on the workers that exist.
\<close>

theorem failed_fork_stops_client:
  assumes "\<forall>e \<in> set es. fork_pid e \<noteq> 0 \<and> entry_ok (call_entry e)" "length es < 2 ^ 31"
    "\<forall>e \<in> set es. connect (fst (call_entry e)) \<noteq> None \<longleftrightarrow> 0 < fork_pid e"
    "\<exists>e \<in> set (take 32 es). fork_pid e = - 1"
  shows "\<exists>S. spawn_calls es (started b jb) = Some S \<and> read_workers connect (worker_data (files S)) = None"
proof -
  obtain S where S: "spawn_calls es (started b jb) = Some S"
    "worker_data (files S) = worker_file (map call_entry (take 32 es))"
    by (rule started_calls [OF assms(1,2)])
  obtain e where e: "e \<in> set (take 32 es)" "fork_pid e = - 1" using assms(4) by blast
  then have "e \<in> set es" using set_take_subset by fast
  then have "connect (fst (call_entry e)) = None" using assms(3) e(2) by (metis less_minus_one_simps(1) less_asym)
  then have n: "\<exists>x \<in> set (map call_entry (take 32 es)). connect (fst x) = None" using e(1) by auto
  have ok: "\<forall>x \<in> set (map call_entry (take 32 es)). entry_ok x"
    using assms(1) set_take_subset [of 32 es] by auto
  from file_lines_dumps [OF ok] parse_lines_none [OF ok n] show ?thesis
    using S by (intro exI [of _ S]) (simp add: read_workers_def)
qed

theorem failed_fork_stops_client_witness:
  "\<exists>S. spawn_calls [example_env 1 100, example_env 22 (- 1)] (started 0 0) = Some S \<and>
    read_workers (\<lambda>p. if length p = 20 then Some 3 else None) (worker_data (files S)) = None"
proof -
  have "fork_pid (example_env k pid) = pid" for k pid by (simp add: example_env_def)
  moreover have "length (dec 1) = 1" "length (dec 22) = 2" by (simp_all add: dec.simps)
  ultimately show ?thesis
    using failed_fork_stops_client [of "[example_env 1 100, example_env 22 (- 1)]"
        "\<lambda>p. if length p = 20 then Some 3 else None" 0 0] example_entry by simp
qed

text \<open>
  Property C15. However the parent and the worker of a call interleave, what the worker answers is
  what the worker's loop answers to the same reads when it starts from the memory it was forked with
  before the target ran, next to the complete snapshot of the target's output: the semaphore keeps it
  from serving earlier. A worker that serves has the memory that the loop has then: the writes of the
  rewrites to the mapping and the crash reports of the worker are in it, and nothing else.
\<close>

theorem spawned_worker_answers:
  assumes "spawn_reach C M s"
  shows "answers s = fst (worker_loop (rw_loader C) (fn_name C) (lay C) (reg_table C) (num_output C) (requests s)
      (view (lay C) M (snapshot (lay C) (ug_reg_data C) (length (reg_table C)) (target_output C M)))) \<and>
    (wpc s = Serving \<longrightarrow>
      snd (worker_loop (rw_loader C) (fn_name C) (lay C) (reg_table C) (num_output C) (requests s)
        (view (lay C) M (snapshot (lay C) (ug_reg_data C) (length (reg_table C)) (target_output C M)))) =
      Waiting (worker_view C s))"
proof (cases "requests s = []")
  case True
  then show ?thesis
    using spawn_reach_inv [OF assms] served_so_far [OF spawn_reach_inv [OF assms]]
    by (auto simp: spawn_inv_def served_memory_def)
next
  case False
  then show ?thesis
    using spawn_reach_inv [OF assms] by (simp add: spawn_inv_def served_memory_def standing_def)
qed

definition example_call :: "unit spawn_call" where
  "example_call = \<lparr>lay = spawn_layout 0x100 0x201 0x101 0x200 0x1000 [\<lparr>offset = 0, rsize = 1, regclass = 2\<rparr>],
     ug_reg_data = 0x400, reg_table = [\<lparr>offset = 0, rsize = 1, regclass = 2\<rparr>], num_output = 1, fn_name = ''max'',
     target_call = (\<lambda>M. M(0x100 := 5)), dump_regs = (\<lambda>M. M(0x400 := 6)), sigaction_rc = (\<lambda>_. 0), socket_fd = 3,
     bind_rc = 0, listen_rc = 0, accept_fd = 4,
     rw_loader = \<lparr>dlopen = (\<lambda>p. if p = ''a'' then Some () else None), dlsym = (\<lambda>_ n. if n = ''max'' then 8 else 0x300),
       run_rewrite = (\<lambda>_ _ M. Finished (M(0x100 := 5, 0x300 := 6))), report_mem = (\<lambda>M. M(0x200 := 9))\<rparr>\<rparr>"

lemma example_serving: "\<exists>s. spawn_reach example_call M s \<and> wpc s = Serving \<and> requests s = []"
proof -
  have "register_signal_handler (sigaction_rc example_call) = None" "open_socket example_call \<noteq> None"
    by (simp_all add: register_signal_handler_def open_socket_def example_call_def)
  from serving_reachable [OF spawn_reach.start this, of M] obtain s where
    "(spawn_step example_call)\<^sup>*\<^sup>* (forked M) s" "wpc s = Serving" "requests s = []" by (auto simp: forked_def)
  then show ?thesis using reach_steps spawn_reach.start by blast
qed

lemma example_laid_out: "laid_out example_call 0x1000"
  unfolding laid_out_def
proof (intro conjI exI)
  show "lay example_call = spawn_layout 0x100 0x201 0x101 0x200 0x1000 (reg_table example_call)"
    by (simp add: example_call_def)
qed (simp_all add: example_call_def spawn_layout_def layout_ok_def regs_in_buffer_def reg_buffer_size_def)

theorem spawned_worker_answers_witness:
  "\<exists>s. spawn_reach example_call (\<lambda>_. 7) s \<and> requests s = [runTest ''b''] \<and> answers s = [make_error CANT_LOAD_LIB]"
proof -
  obtain s where s: "spawn_reach example_call (\<lambda>_. 7) s" "wpc s = Serving" "requests s = []"
    using example_serving by blast
  let ?V = "worker_view example_call s"
  have "serve_request (rw_loader example_call) (fn_name example_call) (lay example_call) (reg_table example_call)
      (num_output example_call) ''b'' ?V = Some ([make_error CANT_LOAD_LIB], view (lay example_call) ?V ?V)"
    by (simp add: serve_request_def child_process_def example_call_def)
  from serve [OF s(2) _ _ _ this, of "runTest ''b''"] obtain t where
    t: "spawn_step example_call s t" "requests t = [runTest ''b'']" "answers t = answers s @ [make_error CANT_LOAD_LIB]"
    using s(3) by (auto simp: runTest_def c_string_def LIBPATH_MAX_LEN_def)
  have "spawn_reach example_call (\<lambda>_. 7) t" by (rule spawn_reach.step [OF s(1) t(1)])
  moreover have "answers s = []" using spawned_worker_answers [OF s(1)] s(3) by simp
  ultimately show ?thesis using t(2,3) by auto
qed

text \<open>
  Property C17. A worker whose system calls succeed is never stuck: from every state from which it has
  not exited and in which no request has kept it, it can get to serve, and then answers the next
  message that fits into its buffer with exactly one response, the verdict on the rewrite, whenever
  there is one (that is, unless the rewrite never ends or exits with status 0).
\<close>

theorem worker_gets_to_serve:
  assumes "spawn_reach C M s" "register_signal_handler (sigaction_rc C) = None" "open_socket C \<noteq> None"
    "\<forall>st. wpc s \<noteq> Exited st" "wpc s \<noteq> Lost"
  shows "\<exists>t. (spawn_step C)\<^sup>*\<^sup>* s t \<and> wpc t = Serving \<and> requests t = requests s \<and> answers t = answers s \<and>
    (\<forall>m path r. 1 < length m \<and> length m \<le> LIBPATH_MAX_LEN \<and> c_string m = Some path \<and>
      child_verdict (child_process (rw_loader C) (fn_name C) (lay C) (reg_table C) (num_output C) path (worker_view C t)) = Some r \<longrightarrow>
      (\<exists>s'. spawn_step C t s' \<and> wpc s' = Serving \<and> requests s' = requests s @ [m] \<and> answers s' = answers s @ [r]))"
proof -
  obtain t where t: "(spawn_step C)\<^sup>*\<^sup>* s t" "wpc t = Serving" "requests t = requests s" "answers t = answers s"
    using serving_reachable [OF assms] by blast
  have "\<exists>s'. spawn_step C t s' \<and> wpc s' = Serving \<and> requests s' = requests s @ [m] \<and> answers s' = answers s @ [r]"
    if m: "1 < length m" "length m \<le> LIBPATH_MAX_LEN" "c_string m = Some path"
      and v: "child_verdict (child_process (rw_loader C) (fn_name C) (lay C) (reg_table C) (num_output C) path (worker_view C t)) = Some r"
    for m path r
  proof -
    obtain M' where "serve_request (rw_loader C) (fn_name C) (lay C) (reg_table C) (num_output C) path (worker_view C t) = Some ([r], M')"
      using serve_request_verdict [OF v] by blast
    from serve [OF t(2) m this] show ?thesis using t(2-4) by fastforce
  qed
  then show ?thesis using t by blast
qed

theorem worker_gets_to_serve_witness:
  "\<exists>s'. (spawn_step example_call)\<^sup>*\<^sup>* (forked (\<lambda>_. 7)) s' \<and> requests s' = [runTest ''b''] \<and> answers s' = [make_error CANT_LOAD_LIB]"
proof -
  have "register_signal_handler (sigaction_rc example_call) = None" "open_socket example_call \<noteq> None"
    by (simp_all add: register_signal_handler_def open_socket_def example_call_def)
  from worker_gets_to_serve [OF spawn_reach.start this, of "\<lambda>_. 7"] obtain t where
    t: "(spawn_step example_call)\<^sup>*\<^sup>* (forked (\<lambda>_. 7)) t"
    and step: "\<And>m path r. 1 < length m \<Longrightarrow> length m \<le> LIBPATH_MAX_LEN \<Longrightarrow> c_string m = Some path \<Longrightarrow>
      child_verdict (child_process (rw_loader example_call) (fn_name example_call) (lay example_call) (reg_table example_call)
        (num_output example_call) path (worker_view example_call t)) = Some r \<Longrightarrow>
      \<exists>s'. spawn_step example_call t s' \<and> requests s' = [m] \<and> answers s' = [r]"
    by (fastforce simp: forked_def)
  have "child_verdict (child_process (rw_loader example_call) (fn_name example_call) (lay example_call) (reg_table example_call)
      (num_output example_call) ''b'' (worker_view example_call t)) = Some (make_error CANT_LOAD_LIB)"
    by (simp add: child_verdict_def child_process_def example_call_def)
  from step [OF _ _ _ this, of "runTest ''b''"] obtain s' where
    "spawn_step example_call t s'" "requests s' = [runTest ''b'']" "answers s' = [make_error CANT_LOAD_LIB]"
    by (auto simp: runTest_def c_string_def LIBPATH_MAX_LEN_def)
  then show ?thesis using rtranclp.rtrancl_into_rtrancl [OF t] by blast
qed

text \<open>
  Property C16. What a worker compares a rewrite with is the target's own run. Where rewrites do not
  write to the mapping, the regions are below \<open>2^61\<close> bytes and the heap and the register buffer lie
  outside of the mapping's copies: a rewrite that ran to its end, after any requests, in the worker's
  memory is answered with all distances 0 exactly when it left the stack above the frame, the heap and
  the output registers as the target did.
\<close>

theorem worker_compares_with_target:
  assumes l: "laid_out C mapping" and r: "spawn_reach C M s" "wpc s = Serving"
    and out: "\<forall>i < unat (heap_size (lay C)). outside_copies (lay C) (heap_bottom (lay C) + of_nat i)"
      "\<forall>i < unat (reg_buf_size (lay C)). outside_copies (lay C) (ug_reg_data C + of_nat i)"
    and keep: "keeps_mapping (rw_loader C) (lay C)"
    and load: "dlopen (rw_loader C) path = Some lib" "dlsym (rw_loader C) lib (fn_name C) = rw" "rw \<noteq> 0"
      "dlsym (rw_loader C) lib ''_ug_rewrite_reg_data'' = rr" "rr \<noteq> 0"
      "run_rewrite (rw_loader C) lib rw (worker_view C s) = Finished M'"
  shows "child_process (rw_loader C) (fn_name C) (lay C) (reg_table C) (num_output C) path (worker_view C s) =
      Replied (make_report 0 0 0 0) M' \<longleftrightarrow>
    (\<forall>i < unat (stack_size (lay C)). M' (stack_bottom (lay C) + of_nat i) = target_output C M (stack_bottom (lay C) + of_nat i)) \<and>
    (\<forall>i < unat (heap_size (lay C)). M' (heap_bottom (lay C) + of_nat i) = target_output C M (heap_bottom (lay C) + of_nat i)) \<and>
    (\<forall>q < num_output C. \<forall>k < unat (rsize (reg_table C ! q)). M' (rr + offset (reg_table C ! q) + of_nat k) =
      target_output C M (ug_reg_data C + offset (reg_table C ! q) + of_nat k))"
proof -
  have "M' x = worker_view C s x" if "in_mapping (lay C) x" for x
    using keep load(6) that unfolding keeps_mapping_def by blast
  then have child: "\<forall>x. \<not> outside_copies (lay C) x \<longrightarrow>
    M' x = snapshot (lay C) (ug_reg_data C) (length (reg_table C)) (target_output C M) x"
    using served_mapping [OF r keep] copies_in_mapping [OF l] by simp
  have "layout_ok (reg_table C)" "regs_in_buffer (reg_table C) (reg_buf_size (lay C))"
    "num_output C \<le> length (reg_table C)" "num_output C < 2 ^ 31"
    using l by (simp_all add: laid_out_def)
  note z = report_zero [OF laid_out_facts(1) [OF l] this laid_out_facts(4) [OF l] out child, of rr]
  have "child_process (rw_loader C) (fn_name C) (lay C) (reg_table C) (num_output C) path (worker_view C s) =
    (case measure_rewrite (lay C) (reg_table C) (num_output C) M' rr of Some r \<Rightarrow> Replied r M' | None \<Rightarrow> Dead SIGABRT M')"
    using load by (simp add: child_process_def)
  then show ?thesis unfolding z [symmetric] by (simp split: option.splits)
qed

theorem worker_compares_with_target_witness:
  "\<exists>s M'. spawn_reach example_call (\<lambda>_. 7) s \<and> child_process (rw_loader example_call) ''max''
    (lay example_call) (reg_table example_call) 1 ''a'' (worker_view example_call s) = Replied (make_report 0 0 0 0) M'"
proof -
  obtain s where s: "spawn_reach example_call (\<lambda>_. 7) s" "wpc s = Serving" "requests s = []" using example_serving by blast
  let ?V = "worker_view example_call s"
  have f: "stack_bottom (lay example_call) = 0x100" "stack_size (lay example_call) = 1"
    "heap_bottom (lay example_call) = 0x200" "heap_size (lay example_call) = 1" "reg_buf_size (lay example_call) = 1"
    "reg_table example_call = [\<lparr>offset = 0, rsize = 1, regclass = 2\<rparr>]" "num_output example_call = 1"
    "ug_reg_data example_call = 0x400" "fn_name example_call = ''max''"
    by (simp_all add: example_call_def spawn_layout_def reg_buffer_size_def)
  have m: "\<not> in_mapping (lay example_call) 0x100" "\<not> in_mapping (lay example_call) 0x200" "\<not> in_mapping (lay example_call) 0x300"
    "outside_copies (lay example_call) 0x200" "outside_copies (lay example_call) 0x400"
    by (simp_all add: in_mapping_def outside_copies_def example_call_def spawn_layout_def reg_buffer_size_def SEM_SIZE_def)
  have e: "dlopen (rw_loader example_call) ''a'' = Some ()" "dlsym (rw_loader example_call) () ''max'' = 8"
    "dlsym (rw_loader example_call) () ''_ug_rewrite_reg_data'' = 0x300"
    "run_rewrite (rw_loader example_call) () 8 ?V = Finished (?V(0x100 := 5, 0x300 := 6))"
    by (simp_all add: example_call_def)
  have k: "keeps_mapping (rw_loader example_call) (lay example_call)"
    using m(1,3) by (auto simp: keeps_mapping_def example_call_def)
  have t: "target_output example_call (\<lambda>_. 7) 0x200 = 7" "target_output example_call (\<lambda>_. 7) 0x100 = 5"
    "target_output example_call (\<lambda>_. 7) 0x400 = 6"
    using m(2) by (simp_all add: target_output_def example_call_def view_def)
  have "?V = served_memory example_call (\<lambda>_. 7)"
    using served_so_far [OF spawn_reach_inv [OF s(1)] s(2)] s(3) by simp
  then have "?V 0x200 = 7" using m(2) by (simp add: served_memory_def view_def)
  then have "child_process (rw_loader example_call) ''max'' (lay example_call) (reg_table example_call) 1 ''a'' ?V
      = Replied (make_report 0 0 0 0) (?V(0x100 := 5, 0x300 := 6))"
    using worker_compares_with_target [OF example_laid_out s(1,2) _ _ k e(1), of 8 "0x300" "?V(0x100 := 5, 0x300 := 6)"] m e t
    by (simp add: f)
  then show ?thesis using s(1) by blast
qed

end
