(* ===== verification/TestRewrite.thy ===== *)
theory TestRewrite
  imports Search Compiler Spawn
begin

text \<open>
  The replay client as a whole, \<open>replay_cli.cpp\<close>: opening it on the server's files, testing a
  rewrite (instrument a copy, compile and link it, send it to all workers, collect the responses,
  remove the files), closing it. Then the search with these tests. The shell, \<open>tmpnam\<close>, \<open>connect\<close>
  and what the passes of LLVM write are parameters.
\<close>

subsection \<open>The client\<close>

record 'f client =
  Workers :: "worker list"
  JmpbufAddr :: u64
  Instr :: instrumenter
  socks :: net
  fs :: "'f files"
  tmp_names :: nat

text \<open>The \<open>k\<close>-th name that \<open>tmpnam\<close> gives, and what a shell command does to the files.\<close>

record 'f host =
  toolchain :: "'f tools"
  tmpnam :: "nat \<Rightarrow> string"
  shell :: "string \<Rightarrow> 'f files \<Rightarrow> 'f files"

definition SUN_PATH_MAX :: nat where "SUN_PATH_MAX = 108"

text \<open>
  The socket that is connected to a path, from the results of \<open>socket\<close> and \<open>connect\<close>; \<open>None\<close> is
  \<open>exit(1)\<close>, or a path that overflows \<open>sun_path\<close>.
\<close>

definition connectToAddr :: "(string \<Rightarrow> int) \<Rightarrow> (string \<Rightarrow> int) \<Rightarrow> string \<Rightarrow> nat option" where
  "connectToAddr new_socket connect_rc sockpath =
     (if new_socket sockpath < 0 then None
      else if SUN_PATH_MAX < length sockpath + 1 then None
      else if connect_rc sockpath < 0 then None
      else Some (nat (new_socket sockpath)))"

text \<open>
  The constructor; \<open>None\<close> for a file is one that can not be opened, which leaves the address
  uninitialised (\<open>garbage\<close>). A worker that is connected waits for a message; \<open>mems\<close> is its memory.
\<close>

definition ReplayClient ::
  "(string \<Rightarrow> nat option) \<Rightarrow> string option \<Rightarrow> string option \<Rightarrow> u64 \<Rightarrow>
    (nat \<Rightarrow> bytes) \<Rightarrow> 'f files \<Rightarrow> nat \<Rightarrow> 'f client option" where
  "ReplayClient connect WorkerFile JmpbufFile garbage mems files0 names0 =
     do {
       Ws \<leftarrow> (case WorkerFile of None \<Rightarrow> Some [] | Some str \<Rightarrow> read_workers connect str);
       Some \<lparr>Workers = Ws, JmpbufAddr = (case JmpbufFile of None \<Rightarrow> garbage | Some str \<Rightarrow> read_jmpbuf str),
         Instr = new_instrumenter, socks = \<lparr>workers_at = (\<lambda>k. Waiting (mems k)), unread = (\<lambda>_. [])\<rparr>, fs = files0, tmp_names = names0\<rparr>
     }"

definition close_client :: "('f files \<Rightarrow> behaviour) \<Rightarrow> 'f client \<Rightarrow> 'f client" where
  "close_client beh C = C\<lparr>socks := killAllWorkers (beh (fs C)) (Workers C) (socks C)\<rparr>"

text \<open>The results of compiling and of the shell command are ignored.\<close>

definition compile :: "'f host \<Rightarrow> nat \<Rightarrow> code mfunction \<Rightarrow> 'f client \<Rightarrow> string \<times> 'f client" where
  "compile H M MF C =
     (let RewriteObj = tmpnam H (tmp_names C);
          (_, F) = compileToObjectFile (toolchain H) M MF RewriteObj False (fs C);
          RewriteLib = tmpnam H (tmp_names C + 1);
          F = shell H (''cc -shared '' @ RewriteObj @ '' -o '' @ RewriteLib) F;
          F = F(RewriteObj := None)
      in (RewriteLib, C\<lparr>fs := F, tmp_names := tmp_names C + 2\<rparr>))"

text \<open>
  \<open>testRewrite\<close> on the blocks of a rewrite. \<open>beh F\<close> is how the workers behave when they find the
  files \<open>F\<close>.
\<close>

definition testRewrite ::
  "'f host \<Rightarrow> ('f files \<Rightarrow> behaviour) \<Rightarrow> (reg \<Rightarrow> reg_class) \<Rightarrow> x86 \<Rightarrow> nat \<Rightarrow> ret_type \<Rightarrow>
    string \<Rightarrow> minstr list list \<Rightarrow> 'f client \<Rightarrow> (response list \<times> 'f client) option" where
  "testRewrite H beh TRI X M RetType fn RewriteBlocks C =
     do {
       let MF = \<lparr>mf_function = fn, mf_blocks = map (map Rewrite) RewriteBlocks\<rparr>;
       MBB \<leftarrow> (case mf_blocks MF of [MBB] \<Rightarrow> Some MBB | _ \<Rightarrow> None);
       (MBB, Is) \<leftarrow> instrument TRI X (Workers C) (sint (JmpbufAddr C)) M RetType MBB (Instr C);
       let (Libpath, C) = compile H M (MF\<lparr>mf_blocks := [MBB]\<rparr>) (C\<lparr>Instr := Is\<rparr>);
       (Result, N) \<leftarrow> runAllTests (beh (fs C)) (Workers C) Libpath (socks C);
       Some (Result, C\<lparr>socks := N, fs := (fs C)(Libpath := None)\<rparr>)
     }"

subsection \<open>The environment\<close>

text \<open>
  What the client relies on: \<open>tmpnam\<close> gives short names of files that can be written, and
  \<open>cc -shared\<close> makes a library of an object file.
\<close>

definition host_ok :: "'f host \<Rightarrow> ('f \<Rightarrow> 'f) \<Rightarrow> bool" where
  "host_ok H link \<longleftrightarrow>
     has_emitters (toolchain H) \<and>
     (\<forall>k. tmpnam H k \<noteq> tmpnam H (k + 1) \<and> tmpnam H k \<noteq> [] \<and> CHR 0x00 \<notin> set (tmpnam H k) \<and> length (tmpnam H k) < LIBPATH_MAX_LEN \<and>
       can_open (toolchain H) (tmpnam H k)) \<and>
     (\<forall>k F obj. F (tmpnam H k) = Some obj \<longrightarrow>
       shell H (''cc -shared '' @ tmpnam H k @ '' -o '' @ tmpnam H (k + 1)) F = F(tmpnam H (k + 1) \<mapsto> link obj))"

text \<open>The workers run the loop of the server, each with its own layout and loader of libraries.\<close>

record ('f, 'l) worker_proc =
  w_loader :: "'f files \<Rightarrow> 'l loader"
  w_layout :: layout
  w_regs :: "reg_info list"
  w_output :: nat

definition serve_by :: "string \<Rightarrow> (nat \<Rightarrow> ('f, 'l) worker_proc) \<Rightarrow> 'f files \<Rightarrow> behaviour" where
  "serve_by fn P F k = serve_on (w_loader (P k) F) fn (w_layout (P k)) (w_regs (P k)) (w_output (P k))"

definition run_child :: "string \<Rightarrow> ('f, 'l) worker_proc \<Rightarrow> 'f files \<Rightarrow> string \<Rightarrow> bytes \<Rightarrow> child_end" where
  "run_child fn p F path M = child_process (w_loader p F) fn (w_layout p) (w_regs p) (w_output p) path M"

text \<open>
  Every rewrite ends, whatever the files are, and what is \<open>known\<close> of the memory of the worker at a
  socket is still so after a request.
\<close>

definition answering :: "string \<Rightarrow> (nat \<Rightarrow> ('f, 'l) worker_proc) \<Rightarrow> (nat \<Rightarrow> bytes \<Rightarrow> bool) \<Rightarrow> bool" where
  "answering fn P known \<longleftrightarrow>
     (\<forall>F k. ends (w_loader (P k) F) \<and>
       (\<forall>path M rs M'. known k M \<longrightarrow>
         serve_request (w_loader (P k) F) fn (w_layout (P k)) (w_regs (P k)) (w_output (P k)) path M = Some (rs, M') \<longrightarrow>
         known k M'))"

text \<open>Between tests: every worker waits, no response is unread, and all tests dumped the same registers.\<close>

definition client_ok :: "(reg \<Rightarrow> reg_class) \<Rightarrow> nat \<Rightarrow> reg list \<Rightarrow> (nat \<Rightarrow> bytes \<Rightarrow> bool) \<Rightarrow> 'f client \<Rightarrow> bool" where
  "client_ok TRI M Out known C \<longleftrightarrow>
     Workers C \<noteq> [] \<and> distinct (map Socket (Workers C)) \<and> dumps_as TRI Out ''_ug_rewrite_reg_data'' M (Instr C) \<and>
     (\<forall>W \<in> set (Workers C). unread (socks C) (Socket W) = [] \<and>
       (\<exists>Mem. workers_at (socks C) (Socket W) = Waiting Mem \<and> known (Socket W) Mem))"

lemma compile_result:
  assumes "host_ok H link"
  shows "compile H M MF C = (tmpnam H (tmp_names C + 1),
    C\<lparr>fs := (fs C)(tmpnam H (tmp_names C) := None,
        tmpnam H (tmp_names C + 1) \<mapsto> link (emit (toolchain H) M (copy_function MF))),
      tmp_names := tmp_names C + 2\<rparr>)"
proof -
  let ?o = "tmpnam H (tmp_names C)" and ?l = "tmpnam H (tmp_names C + 1)"
  have ne: "?o \<noteq> ?l" using assms by (simp add: host_ok_def)
  have "can_open (toolchain H) ?o" "has_emitters (toolchain H)" using assms by (simp_all add: host_ok_def)
  note c = compile_writes [OF this]
  let ?fs = "(fs C)(?o \<mapsto> emit (toolchain H) M (copy_function MF))"
  have "shell H (''cc -shared '' @ ?o @ '' -o '' @ ?l) ?fs = ?fs(?l \<mapsto> link (emit (toolchain H) M (copy_function MF)))"
    using assms unfolding host_ok_def by simp
  then show ?thesis
    unfolding compile_def Let_def c prod.case using ne by (simp add: fun_upd_twist)
qed

text \<open>The target's tables and the function's type, as the instrumentation needs them.\<close>

definition target_ok :: "(reg \<Rightarrow> reg_class) \<Rightarrow> x86 \<Rightarrow> ret_type \<Rightarrow> reg list \<Rightarrow> bool" where
  "target_ok TRI X RetType Out \<longleftrightarrow>
     FreeReg X \<noteq> 0 \<and> sane_classes TRI \<and> space_for TRI (Out @ equivalent_regs TRI Out) < 2 ^ 32 \<and>
     getReturnRegs X RetType = Some Out"

lemma instrument_succeeds:
  assumes "target_ok TRI X RetType Out" "Ws \<noteq> []"
  shows "\<exists>code Is'. instrument TRI X Ws jb M RetType MBB Is = Some (code, Is')"
proof -
  obtain W Vs where W: "Ws = W # Vs" using assms(2) by (cases Ws) auto
  have r: "getReturnRegs X RetType = Some Out" "FreeReg X \<noteq> 0" using assms(1) by (simp_all add: target_ok_def)
  obtain info table e where "calculateRegBufferLayout TRI M Out ''_ug_rewrite_reg_data'' Is =
      Some \<lparr>Regs = Out @ equivalent_regs TRI Out, RegInfo = info, RegData = (RegData Is)(M \<mapsto>
        \<lparr>buffer_name = ''_ug_rewrite_reg_data'', buffer_size = e, ug_reg_info = table, ug_num_output_regs = length Out,
         ug_num_regs = length (Out @ equivalent_regs TRI Out)\<rparr>)\<rparr>"
    using calculate_layout [of TRI Out M "''_ug_rewrite_reg_data''" Is] assms(1) unfolding target_ok_def by metis
  then have "\<exists>code Is'. dumpRegisters TRI X M Out ''_ug_rewrite_reg_data'' B Is = Some (code, Is')" for B
    using r(2) by (cases "RegData Is M") (simp_all add: dumpRegisters_def)
  then obtain D Is' where "dumpRegisters TRI X M Out ''_ug_rewrite_reg_data''
      (protectRTFrame X (sint (FrameBegin W)) (sint (FrameSize W)) MBB) Is = Some (D, Is')" by blast
  then show ?thesis using r(1) by (simp add: instrument_def W Let_def)
qed

text \<open>One test: what is compiled, what the workers find, and the state in which the client is left.\<close>

lemma test_rewrite_ok:
  assumes H: "host_ok H link" and T: "target_ok TRI X RetType Out" and A: "answering fn P known"
    and C: "client_ok TRI M Out known C"
  defines "obj \<equiv> tmpnam H (tmp_names C)" and "lib \<equiv> tmpnam H (tmp_names C + 1)"
  shows "\<exists>code Is' N r. instrument TRI X (Workers C) (sint (JmpbufAddr C)) M RetType (map Rewrite f) (Instr C) = Some (code, Is') \<and>
    testRewrite H (serve_by fn P) TRI X M RetType fn [f] C = Some (map r (Workers C),
        C\<lparr>Instr := Is', socks := N, fs := (fs C)(obj := None, lib := None), tmp_names := tmp_names C + 2\<rparr>) \<and>
    client_ok TRI M Out known (C\<lparr>Instr := Is', socks := N, fs := (fs C)(obj := None, lib := None), tmp_names := tmp_names C + 2\<rparr>) \<and>
    (\<forall>W \<in> set (Workers C). \<exists>Mem. known (Socket W) Mem \<and> child_verdict (run_child fn (P (Socket W)) ((fs C)(obj := None,
      lib \<mapsto> link (emit (toolchain H) M (copy_function \<lparr>mf_function = fn, mf_blocks = [code]\<rparr>)))) lib Mem) = Some (r W))"
proof -
  let ?Ws = "Workers C"
  have ws: "?Ws \<noteq> []" "distinct (map Socket ?Ws)" "dumps_as TRI Out ''_ug_rewrite_reg_data'' M (Instr C)"
    and w: "\<forall>W \<in> set ?Ws. \<exists>Mem. workers_at (socks C) (Socket W) = Waiting Mem \<and> unread (socks C) (Socket W) = [] \<and> known (Socket W) Mem"
    using C by (auto simp: client_ok_def)
  obtain mem where mem: "\<forall>W \<in> set ?Ws. workers_at (socks C) (Socket W) = Waiting (mem W) \<and> unread (socks C) (Socket W) = [] \<and>
      known (Socket W) (mem W)"
    using bchoice [OF w] by blast
  obtain code Is' where i: "instrument TRI X ?Ws (sint (JmpbufAddr C)) M RetType (map Rewrite f) (Instr C) = Some (code, Is')"
    using instrument_succeeds [OF T ws(1)] by blast
  have is_ok: "dumps_as TRI Out ''_ug_rewrite_reg_data'' M Is'"
    using instrument_dumps [OF i _ ws(3)] T by (simp add: target_ok_def)
  define F where "F = (fs C)(obj := None, lib \<mapsto> link (emit (toolchain H) M (copy_function \<lparr>mf_function = fn, mf_blocks = [code]\<rparr>)))"
  let ?E = "\<lambda>W. w_loader (P (Socket W)) F" and ?L = "\<lambda>W. w_layout (P (Socket W))"
  let ?info = "\<lambda>W. w_regs (P (Socket W))" and ?n = "\<lambda>W. w_output (P (Socket W))"
  have lib: "good_path lib" using H by (simp add: host_ok_def good_path_def lib_def)
  have "\<forall>W \<in> set ?Ws. serve_by fn P F (Socket W) = serve_on (?E W) fn (?L W) (?info W) (?n W)"
    "\<forall>W \<in> set ?Ws. ends (?E W)"
    "\<forall>W \<in> set ?Ws. workers_at (socks C) (Socket W) = Waiting (mem W) \<and> unread (socks C) (Socket W) = []"
    using A mem by (simp_all add: serve_by_def fun_eq_iff answering_def)
  from run_all_tests [OF ws(2) lib this] obtain r N where
    N: "runAllTests (serve_by fn P F) ?Ws lib (socks C) = Some (map r ?Ws, N)"
    and r: "\<forall>W \<in> set ?Ws. child_verdict (run_child fn (P (Socket W)) F lib (mem W)) = Some (r W) \<and>
      unread N (Socket W) = [] \<and> (\<exists>M'. workers_at N (Socket W) = Waiting M' \<and>
        serve_request (?E W) fn (?L W) (?info W) (?n W) lib (mem W) = Some ([r W], M'))"
    unfolding run_child_def by blast
  have t: "testRewrite H (serve_by fn P) TRI X M RetType fn [f] C = Some (map r ?Ws,
        C\<lparr>Instr := Is', socks := N, fs := (fs C)(obj := None, lib := None), tmp_names := tmp_names C + 2\<rparr>)"
    using N i by (simp add: testRewrite_def compile_result [OF H] F_def obj_def lib_def)
  have kn: "known (Socket W) M'" if W: "W \<in> set ?Ws"
    and s: "serve_request (?E W) fn (?L W) (?info W) (?n W) lib (mem W) = Some (rs, M')" for W rs M'
  proof -
    have "known (Socket W) (mem W)" using mem W by blast
    then show ?thesis using A s unfolding answering_def by blast
  qed
  have "client_ok TRI M Out known (C\<lparr>Instr := Is', socks := N, fs := (fs C)(obj := None, lib := None), tmp_names := tmp_names C + 2\<rparr>)"
    using ws is_ok r kn by (simp add: client_ok_def) blast
  moreover have "\<forall>W \<in> set ?Ws. \<exists>Mem. known (Socket W) Mem \<and> child_verdict (run_child fn (P (Socket W)) F lib Mem) = Some (r W)"
    using mem r by blast
  ultimately show ?thesis using i t unfolding F_def by blast
qed

text \<open>A sequence of tests.\<close>

primrec test_all :: "'w tester \<Rightarrow> minstr list list \<Rightarrow> 'w \<Rightarrow> (response list list \<times> 'w) option" where
  "test_all test [] w = Some ([], w)"
| "test_all test (f # fns) w =
     do { (rs, w) \<leftarrow> test f w; (rss, w) \<leftarrow> test_all test fns w; Some (rs # rss, w) }"

text \<open>A tester that always returns, with a number of responses that does not change.\<close>

locale live_tester = tester +
  fixes width :: "'a \<Rightarrow> nat"
  assumes returns: "ok w \<Longrightarrow> \<exists>rs w'. test f w = Some (rs, w') \<and> length rs = width w \<and> width w' = width w"
begin

lemma all_return:
  "ok w \<Longrightarrow> \<exists>rss w'. test_all test fns w = Some (rss, w') \<and> ok w' \<and> width w' = width w \<and>
    length rss = length fns \<and> (\<forall>rs \<in> set rss. length rs = width w)"
proof (induction fns arbitrary: w)
  case (Cons f fns)
  obtain rs w1 where t: "test f w = Some (rs, w1)" "length rs = width w" "width w1 = width w"
    using returns [OF Cons.prems] by blast
  obtain rss w2 where "test_all test fns w1 = Some (rss, w2)" "ok w2" "width w2 = width w1"
    "length rss = length fns" "\<forall>rs \<in> set rss. length rs = width w1"
    using Cons.IH [OF keeps [OF Cons.prems t(1)]] by blast
  then show ?case using t by (intro exI [of _ "rs # rss"] exI [of _ w2]) simp
qed simp

end

text \<open>The replay client is such a tester for the search, and keeps its workers.\<close>

definition replay_ok ::
  "'f host \<Rightarrow> string \<Rightarrow> (nat \<Rightarrow> ('f, 'l) worker_proc) \<Rightarrow> (nat \<Rightarrow> bytes \<Rightarrow> bool) \<Rightarrow> (reg \<Rightarrow> reg_class) \<Rightarrow> x86 \<Rightarrow> nat \<Rightarrow> ret_type \<Rightarrow> ('f \<Rightarrow> 'f) \<Rightarrow> reg list \<Rightarrow>
    worker list \<Rightarrow> u64 \<Rightarrow> 'f client \<Rightarrow> bool" where
  "replay_ok H fn P known TRI X M RetType link Out Ws jb C \<longleftrightarrow>
     host_ok H link \<and> target_ok TRI X RetType Out \<and> answering fn P known \<and> client_ok TRI M Out known C \<and> Workers C = Ws \<and>
     JmpbufAddr C = jb"

interpretation replay: live_tester "\<lambda>f. testRewrite H (serve_by fn P) TRI X M RetType fn [f]"
  "replay_ok H fn P known TRI X M RetType link Out Ws jb" "\<lambda>C. length (Workers C)"
  for H fn P known TRI X M RetType link Out Ws jb
proof unfold_locales
  fix C f
  assume "replay_ok H fn P known TRI X M RetType link Out Ws jb C"
  note ok = this [unfolded replay_ok_def]
  obtain Is' N r fs' n where t: "testRewrite H (serve_by fn P) TRI X M RetType fn [f] C = Some (map r (Workers C),
      C\<lparr>Instr := Is', socks := N, fs := fs', tmp_names := n\<rparr>)"
    "client_ok TRI M Out known (C\<lparr>Instr := Is', socks := N, fs := fs', tmp_names := n\<rparr>)"
    using test_rewrite_ok [of H link TRI X RetType Out fn P known M C f] ok by blast
  show "replay_ok H fn P known TRI X M RetType link Out Ws jb C'"
    if "testRewrite H (serve_by fn P) TRI X M RetType fn [f] C = Some (rs, C')" for rs C'
    using t ok that unfolding replay_ok_def by auto
  show "\<exists>rs C'. testRewrite H (serve_by fn P) TRI X M RetType fn [f] C = Some (rs, C') \<and>
      length rs = length (Workers C) \<and> length (Workers C') = length (Workers C)"
    using t(1) by auto
qed

subsection \<open>What a cost of 0 means\<close>

text \<open>A worker whose regions are small enough for the distances to be exact.\<close>

definition proc_ok :: "('f, 'l) worker_proc \<Rightarrow> bool" where
  "proc_ok p \<longleftrightarrow> stack_size (w_layout p) < 2 ^ 61 \<and> heap_size (w_layout p) < 2 ^ 61 \<and> layout_ok (w_regs p) \<and>
     w_output p \<le> length (w_regs p) \<and> w_output p < 2 ^ 31"

definition cost_bound :: "('f, 'l) worker_proc \<Rightarrow> nat" where
  "cost_bound p = 1000000 + 8 * unat (stack_size (w_layout p)) + 8 * unat (heap_size (w_layout p)) + 512 * w_output p"

lemma sum_reg_dist_le:
  assumes "layout_ok info" "\<forall>i \<in> set is. i < length info" "unat r + 512 * length is < 2 ^ 64"
    "sum_reg_dist info n MA MB a b is r = Some d"
  shows "unat d \<le> unat r + 512 * length is"
  using assms(2-4)
proof (induction "is" arbitrary: r)
  case (Cons i "is")
  obtain e where e: "output_reg_dist info n MA MB a b i = Some e" "e \<le> 512"
    using output_reg_dist_ok [OF assms(1), of i n MA MB a b] Cons.prems(1) by auto
  have "unat e \<le> 512" using e(2) by (simp add: word_le_nat_alt)
  moreover from this have "unat (r + e) = unat r + unat e" using Cons.prems(2) by (simp add: unat_plus_if')
  ultimately show ?case using Cons.IH [of "r + e"] Cons.prems e(1) by simp
qed simp

lemma child_cost:
  assumes p: "proc_ok p" and v: "child_verdict (run_child fn p F path Mem) = Some r" and s: "success r \<noteq> 0"
  shows "response_cost r \<le> cost_bound p"
    "response_cost r = 0 \<Longrightarrow> \<exists>M'. run_child fn p F path Mem = Replied (make_report 0 0 0 0) M'"
proof -
  have "response_cost r \<le> cost_bound p \<and>
    (response_cost r = 0 \<longrightarrow> (\<exists>M'. run_child fn p F path Mem = Replied (make_report 0 0 0 0) M'))"
  proof (cases "\<exists>M'. run_child fn p F path Mem = Replied r M'")
    case False
    then have "r = make_report 0 0 0 1" using v by (auto simp: child_verdict_def split: child_end.splits if_splits)
    then show ?thesis by (simp add: response_cost_def make_report_def cost_bound_def)
  next
    case True
    then obtain M' where R: "run_child fn p F path Mem = Replied r M'" ..
    have "\<exists>M rr. measure_rewrite (w_layout p) (w_regs p) (w_output p) M rr = Some r"
      using R s by (auto simp: run_child_def child_process_def Let_def make_error_def
          split: option.splits if_splits outcome.splits)
    then obtain M rr rd where rd: "register_distance (w_regs p) (w_output p) M M rr (target_reg_data (w_layout p)) = Some rd"
      and r: "r = make_report rd (get_mem_dist M M (stack_bottom (w_layout p)) (target_stack (w_layout p)) (stack_size (w_layout p)))
        (get_mem_dist M M (heap_bottom (w_layout p)) (target_heap (w_layout p)) (heap_size (w_layout p))) 0"
      by (auto simp: measure_rewrite_def Let_def bind_Some_iff)
    have "unat rd \<le> unat (0 :: u64) + 512 * length [0..<w_output p]"
      using rd p unfolding register_distance_def proc_ok_def by (intro sum_reg_dist_le) auto
    then have rd_le: "unat rd \<le> 512 * w_output p" by simp
    have md: "unat (get_mem_dist M M a b n) \<le> 8 * unat n" if "n < 2 ^ 61" for a b n
      using unat_mem_dist [OF that] bits_apart_le by simp
    have "stack_size (w_layout p) < 2 ^ 61" "heap_size (w_layout p) < 2 ^ 61" using p by (simp_all add: proc_ok_def)
    note sizes = md [OF this(1)] md [OF this(2)]
    define sd where "sd = get_mem_dist M M (stack_bottom (w_layout p)) (target_stack (w_layout p)) (stack_size (w_layout p))"
    define hd' where "hd' = get_mem_dist M M (heap_bottom (w_layout p)) (target_heap (w_layout p)) (heap_size (w_layout p))"
    have "unat sd \<le> 8 * unat (stack_size (w_layout p))" "unat hd' \<le> 8 * unat (heap_size (w_layout p))"
      unfolding sd_def hd'_def by (rule sizes)+
    moreover have "response_cost r = unat rd + unat sd + unat hd'"
      by (simp add: r response_cost_def make_report_def sd_def hd'_def)
    ultimately have "response_cost r \<le> cost_bound p" using rd_le by (simp add: cost_bound_def)
    moreover have "r = make_report 0 0 0 0" if "response_cost r = 0"
      using that by (simp add: response_cost_def r make_report_def unat_eq_zero)
    ultimately show ?thesis using R by auto
  qed
  then show "response_cost r \<le> cost_bound p"
    "response_cost r = 0 \<Longrightarrow> \<exists>M'. run_child fn p F path Mem = Replied (make_report 0 0 0 0) M'" by blast+
qed

text \<open>A test of cost 0 was passed by every worker, if the costs can not wrap around.\<close>

lemma zero_cost:
  assumes "\<forall>W \<in> set Ws. proc_ok (p W)" "sum_list (map (\<lambda>W. cost_bound (p W)) Ws) < 2 ^ 32"
    "calculateCost (map r Ws) = Some 0"
    "\<forall>W \<in> set Ws. child_verdict (run_child fn (p W) F path (mem W)) = Some (r W)"
  shows "\<forall>W \<in> set Ws. \<exists>M'. run_child fn (p W) F path (mem W) = Replied (make_report 0 0 0 0) M'"
proof -
  have s: "\<forall>W \<in> set Ws. success (r W) \<noteq> 0"
    and z: "(of_nat (sum_list (map (\<lambda>W. response_cost (r W)) Ws)) :: u32) = 0"
    using assms(3) by (auto simp: calculateCost_def add_costs_exact list_all_iff comp_def split: if_splits)
  have "sum_list (map (\<lambda>W. response_cost (r W)) Ws) \<le> sum_list (map (\<lambda>W. cost_bound (p W)) Ws)"
    using assms(1,4) s by (intro sum_list_mono child_cost(1)) auto
  then have "sum_list (map (\<lambda>W. response_cost (r W)) Ws) < 2 ^ 32" using assms(2) by simp
  moreover have "2 ^ 32 dvd sum_list (map (\<lambda>W. response_cost (r W)) Ws)"
    using z by (simp add: word_of_nat_eq_0_iff)
  ultimately have "sum_list (map (\<lambda>W. response_cost (r W)) Ws) = 0" using dvd_imp_le by fastforce
  then have "\<forall>W \<in> set Ws. response_cost (r W) = 0" by (simp add: sum_list_eq_0_iff)
  then show ?thesis using child_cost(2) assms(1,4) s by blast
qed

subsection \<open>Properties\<close>

text \<open>
  Property C14. From the server to the client: a client opened on the files that the server left after
  its calls of the target knows the address of the jump buffer and the workers of the first 32
  calls, and any sequence of tests returns, each with exactly one response from every worker, if every
  rewrite ends (by itself, by a crash, or by an exit with a status other than 0).
\<close>

theorem client_session:
  assumes "host_ok H link" "target_ok TRI X RetType Out" "es \<noteq> []" "length es < 2 ^ 31"
    "\<forall>e \<in> set es. fork_pid e \<noteq> 0 \<and> entry_ok (call_entry e)"
    "\<forall>e \<in> set (take 32 es). connect (fst (call_entry e)) \<noteq> None"
    "distinct (map (\<lambda>e. the (connect (fst (call_entry e)))) (take 32 es))"
    "\<forall>F k. ends (w_loader (P k) F)"
  shows "\<exists>S C. spawn_calls es (started b jb) = Some S \<and>
    ReplayClient connect (Some (worker_data (files S))) (Some (jmp_buf_data (files S))) g mems F n = Some C \<and>
    JmpbufAddr C = jb \<and> length (Workers C) = min 32 (length es) \<and>
    (\<forall>fns. \<exists>rss C'. test_all (\<lambda>f. testRewrite H (serve_by fn P) TRI X M RetType fn [f]) fns C = Some (rss, C') \<and>
      length rss = length fns \<and> (\<forall>rs \<in> set rss. length rs = min 32 (length es)))"
proof -
  obtain S where S: "spawn_calls es (started b jb) = Some S" "read_jmpbuf (jmp_buf_data (files S)) = jb"
    "worker_data (files S) = worker_file (map call_entry (take 32 es))"
    by (rule started_calls [OF assms(5,4)])
  define Ws where "Ws = map (\<lambda>(p, b, n). \<lparr>FrameBegin = b, FrameSize = n, Socket = the (connect p)\<rparr>) (map call_entry (take 32 es))"
  have "\<forall>e \<in> set (map call_entry (take 32 es)). entry_ok e \<and> connect (fst e) \<noteq> None"
    using assms(5,6) set_take_subset [of 32 es] by auto
  then have rd: "read_workers connect (worker_data (files S)) = Some Ws"
    unfolding S(3) Ws_def by (rule worker_file_roundtrip)
  define C where "C = \<lparr>Workers = Ws, JmpbufAddr = jb, Instr = new_instrumenter,
    socks = \<lparr>workers_at = (\<lambda>k. Waiting (mems k)), unread = (\<lambda>_. [])\<rparr>, fs = F, tmp_names = n\<rparr>"
  have C: "ReplayClient connect (Some (worker_data (files S))) (Some (jmp_buf_data (files S))) g mems F n = Some C"
    by (simp add: ReplayClient_def rd S(2) C_def)
  have len: "length Ws = min 32 (length es)" by (simp add: Ws_def)
  have "map Socket Ws = map (\<lambda>e. the (connect (fst (call_entry e)))) (take 32 es)"
    by (simp add: Ws_def case_prod_beta)
  then have "client_ok TRI M Out (\<lambda>_ _. True) C"
    using assms(3,7) len by (auto simp: C_def client_ok_def dumps_as_def new_instrumenter_def)
  moreover have "answering fn P (\<lambda>_ _. True)" using assms(8) by (simp add: answering_def)
  ultimately have "replay_ok H fn P (\<lambda>_ _. True) TRI X M RetType link Out Ws jb C"
    using assms(1,2) by (simp add: replay_ok_def C_def)
  note replay.all_return [OF this]
  then show ?thesis using S(1) C len by (intro exI [of _ S] exI [of _ C]) (auto simp: C_def, blast)
qed

definition example_host :: "code mfunction host" where
  "example_host = \<lparr>toolchain = \<lparr>can_open = (\<lambda>_. True), has_emitters = True,
       emit = (\<lambda>M init. init \<lparr>mf_function = ''max'', mf_blocks = []\<rparr>)\<rparr>,
     tmpnam = (\<lambda>k. if even k then ''/tmp/a'' else ''/tmp/b''),
     shell = (\<lambda>cmd F. if cmd = ''cc -shared /tmp/a -o /tmp/b'' then F(''/tmp/b'' := F ''/tmp/a'')
       else F(''/tmp/a'' := F ''/tmp/b''))\<rparr>"

lemma example_host_ok: "host_ok example_host (\<lambda>obj. obj)"
  unfolding host_ok_def
proof (intro conjI allI impI)
  show "shell example_host (''cc -shared '' @ tmpnam example_host k @ '' -o '' @ tmpnam example_host (k + 1)) F =
      F(tmpnam example_host (k + 1) \<mapsto> obj)" if "F (tmpnam example_host k) = Some obj" for k F obj
    using that by (cases "even k") (simp_all add: example_host_def)
qed (simp_all add: example_host_def LIBPATH_MAX_LEN_def)

lemma example_target_ok: "target_ok one_class some_x86 PointerTy [5]"
  using one_class_sane by (simp add: target_ok_def getReturnRegs_def some_x86_def)

text \<open>A worker without stack, heap and registers that loads the library from the files.\<close>

definition example_proc :: "nat \<Rightarrow> (code mfunction, code mfunction) worker_proc" where
  "example_proc k = \<lparr>w_loader = (\<lambda>F. \<lparr>dlopen = F, dlsym = (\<lambda>_ _. 8), run_rewrite = (\<lambda>_ _ M. Finished M), report_mem = (\<lambda>M. M)\<rparr>),
     w_layout = example_layout\<lparr>stack_size := 0, heap_size := 0\<rparr>, w_regs = [], w_output = 0\<rparr>"

lemma example_ends: "\<forall>F k. ends (w_loader (example_proc k) F)"
  "\<forall>F k. keeps_mapping (w_loader (example_proc k) F) (w_layout (example_proc k))"
  by (auto simp: ends_def keeps_mapping_def example_proc_def)

theorem client_session_witness:
  "\<exists>S C rss C'. spawn_calls [example_env 1 100] (started 0 0x9000) = Some S \<and>
    ReplayClient (\<lambda>p. Some 3) (Some (worker_data (files S))) (Some (jmp_buf_data (files S))) 0 (\<lambda>_ _. 7) Map.empty 0 = Some C \<and>
    test_all (\<lambda>f. testRewrite example_host (serve_by ''max'' example_proc) one_class some_x86 0 PointerTy ''max'' [f])
      [[], []] C = Some (rss, C') \<and> map length rss = [1, 1]"
proof -
  have e: "[example_env 1 100] \<noteq> []" "length [example_env 1 100] < 2 ^ 31"
    "\<forall>e \<in> set [example_env 1 100]. fork_pid e \<noteq> 0 \<and> entry_ok (call_entry e)"
    "\<forall>e \<in> set (take 32 [example_env 1 100]). (\<lambda>p. Some 3) (fst (call_entry e)) \<noteq> None"
    "distinct (map (\<lambda>e. the ((\<lambda>p. Some 3) (fst (call_entry e)))) (take 32 [example_env 1 100]))"
    using example_entry(2) by (simp_all add: example_env_def)
  obtain S C where S: "spawn_calls [example_env 1 100] (started 0 0x9000) = Some S"
    "ReplayClient (\<lambda>p. Some 3) (Some (worker_data (files S))) (Some (jmp_buf_data (files S))) 0 (\<lambda>_ _. 7) Map.empty 0 = Some C"
    and all: "\<forall>fns. \<exists>rss C'. test_all (\<lambda>f. testRewrite example_host (serve_by ''max'' example_proc) one_class some_x86 0
        PointerTy ''max'' [f]) fns C = Some (rss, C') \<and> length rss = length fns \<and>
      (\<forall>rs \<in> set rss. length rs = min 32 (length [example_env 1 100]))"
    using client_session [OF example_host_ok example_target_ok e example_ends(1)] by blast
  obtain rss C' where t: "test_all (\<lambda>f. testRewrite example_host (serve_by ''max'' example_proc) one_class some_x86 0
        PointerTy ''max'' [f]) [[], []] C = Some (rss, C')" "length rss = 2" "\<forall>rs \<in> set rss. length rs = 1"
    using all [rule_format, of "[[], []]"] by auto
  have "map length rss = [1, 1]" using t(2,3) by (auto simp: numeral_2_eq_2 length_Suc_conv)
  then show ?thesis using S t(1) by (intro exI conjI)
qed

text \<open>The memories that a worker can get to from its first one when only crash reports change it.\<close>

inductive worker_memory :: "(nat \<Rightarrow> ('f, 'l) worker_proc) \<Rightarrow> (nat \<Rightarrow> bytes) \<Rightarrow> nat \<Rightarrow> bytes \<Rightarrow> bool" for P Init k where
  first: "worker_memory P Init k (Init k)"
| report: "worker_memory P Init k M \<Longrightarrow> worker_memory P Init k (view (w_layout (P k)) (report_mem (w_loader (P k) F) M) M)"

lemma keeps_answering:
  assumes "\<forall>F k. ends (w_loader (P k) F)" "\<forall>F k. keeps_mapping (w_loader (P k) F) (w_layout (P k))"
  shows "answering fn P (worker_memory P Init)"
proof -
  have "worker_memory P Init k M'" if "worker_memory P Init k M"
    "serve_request (w_loader (P k) F) fn (w_layout (P k)) (w_regs (P k)) (w_output (P k)) path M = Some (rs, M')"
    for F k M rs M' path
    using serve_keeps_memory [OF _ that(2)] assms(2) that(1) by (auto intro: report)
  then show ?thesis using assms(1) unfolding answering_def by blast
qed

text \<open>
  Property C13. What the search synthesizes, where every rewrite ends and none writes to the mapping with
  the snapshot, and the regions are so small that the sum of the costs of all workers stays below
  \<open>2^32\<close>: when \<open>synthesize\<close> returns, with tests by the replay client, the rewrite that it leaves was
  instrumented, compiled (the passes get its code as the code of the function, which has none of its
  own) and linked into a library, and every worker, in the memory it had at the start, changed by nothing
  but its crash reports on earlier tests, loaded this library, ran the rewrite to its end and found no
  difference from the snapshot in stack, heap and output registers.
\<close>

theorem synthesized_matches:
  assumes "wf_transf s" "host_ok H link" "target_ok TRI X RetType Out" "client_ok TRI M Out (worker_memory P Init) C"
    "\<forall>F k. ends (w_loader (P k) F)" "\<forall>F k. keeps_mapping (w_loader (P k) F) (w_layout (P k))"
    "synthesize T cs rnd (\<lambda>f. testRewrite H (serve_by fn P) TRI X M RetType fn [f]) s C = Some (s', C')"
    "\<forall>k. proc_ok (P k)" "sum_list (map (\<lambda>W. cost_bound (P (Socket W))) (Workers C)) < 2 ^ 32"
  shows "\<exists>F lib code Is Is'. instrument TRI X (Workers C) (sint (JmpbufAddr C)) M RetType (map Rewrite (contents s')) Is = Some (code, Is') \<and>
    F lib = Some (link (emit (toolchain H) M (copy_function \<lparr>mf_function = fn, mf_blocks = [code]\<rparr>))) \<and>
    copy_function \<lparr>mf_function = fn, mf_blocks = [code]\<rparr> \<lparr>mf_function = fn, mf_blocks = []\<rparr> =
      \<lparr>mf_function = fn, mf_blocks = [code]\<rparr> \<and>
    (\<forall>W \<in> set (Workers C). \<exists>Mem M'. worker_memory P Init (Socket W) Mem \<and>
      run_child fn (P (Socket W)) F lib Mem = Replied (make_report 0 0 0 0) M')"
proof -
  let ?Ws = "Workers C" and ?known = "worker_memory P Init"
  have "replay_ok H fn P ?known TRI X M RetType link Out ?Ws (JmpbufAddr C) C"
    using assms(2-4) keeps_answering [OF assms(5,6)] by (simp add: replay_ok_def)
  then obtain C0 rs where C0: "replay_ok H fn P ?known TRI X M RetType link Out ?Ws (JmpbufAddr C) C0"
    "testRewrite H (serve_by fn P) TRI X M RetType fn [contents s'] C0 = Some (rs, C')" "calculateCost rs = Some 0"
    using replay.synthesized(3) [OF assms(7,1)] by blast
  then have ok: "host_ok H link" "target_ok TRI X RetType Out" "answering fn P ?known" "client_ok TRI M Out ?known C0"
    "Workers C0 = ?Ws" "JmpbufAddr C0 = JmpbufAddr C"
    by (simp_all add: replay_ok_def)
  define lib where "lib = tmpnam H (tmp_names C0 + 1)"
  define F where "F code = (fs C0)(tmpnam H (tmp_names C0) := None,
    lib \<mapsto> link (emit (toolchain H) M (copy_function \<lparr>mf_function = fn, mf_blocks = [code]\<rparr>)))" for code
  obtain code Is' r where i: "instrument TRI X ?Ws (sint (JmpbufAddr C)) M RetType (map Rewrite (contents s')) (Instr C0) = Some (code, Is')"
    and t: "rs = map r ?Ws"
    and v: "\<forall>W \<in> set ?Ws. \<exists>Mem. ?known (Socket W) Mem \<and> child_verdict (run_child fn (P (Socket W)) (F code) lib Mem) = Some (r W)"
    using test_rewrite_ok [OF ok(1-4), of "contents s'"] C0(2) unfolding ok(5,6) lib_def F_def by auto
  obtain mem where mem: "\<forall>W \<in> set ?Ws. ?known (Socket W) (mem W) \<and>
      child_verdict (run_child fn (P (Socket W)) (F code) lib (mem W)) = Some (r W)"
    using bchoice [OF v] by blast
  have "\<forall>W \<in> set ?Ws. \<exists>M'. run_child fn (P (Socket W)) (F code) lib (mem W) = Replied (make_report 0 0 0 0) M'"
    by (rule zero_cost [OF _ assms(9) C0(3) [unfolded t]]) (use assms(8) mem in auto)
  then have "\<forall>W \<in> set ?Ws. \<exists>Mem M'. worker_memory P Init (Socket W) Mem \<and>
      run_child fn (P (Socket W)) (F code) lib Mem = Replied (make_report 0 0 0 0) M'"
    using mem by blast
  moreover have "F code lib = Some (link (emit (toolchain H) M (copy_function \<lparr>mf_function = fn, mf_blocks = [code]\<rparr>)))"
    by (simp add: F_def)
  moreover have "copy_function \<lparr>mf_function = fn, mf_blocks = [code]\<rparr> \<lparr>mf_function = fn, mf_blocks = []\<rparr> =
      \<lparr>mf_function = fn, mf_blocks = [code]\<rparr>"
    by (simp add: copy_function_def)
  ultimately show ?thesis using i by blast
qed

definition example_client :: "code mfunction client" where
  "example_client = \<lparr>Workers = [\<lparr>FrameBegin = 0x6000, FrameSize = 0x1000, Socket = 3\<rparr>], JmpbufAddr = 0x9000,
     Instr = new_instrumenter, socks = \<lparr>workers_at = (\<lambda>_. Waiting (\<lambda>_. 7)), unread = (\<lambda>_. [])\<rparr>, fs = Map.empty, tmp_names = 0\<rparr>"

lemma example_client_ok: "client_ok one_class 0 [5] (worker_memory example_proc (\<lambda>_ _. 7)) example_client"
  using worker_memory.first [of example_proc "\<lambda>_ _. 7" 3]
  by (simp add: client_ok_def example_client_def dumps_as_def new_instrumenter_def)

lemma example_child:
  assumes "F lib = Some obj"
  shows "run_child ''max'' (example_proc k) F lib Mem = Replied (make_report 0 0 0 0) Mem"
  using assms by (simp add: run_child_def example_proc_def child_process_def measure_rewrite_def get_mem_dist_def
      register_distance_def example_layout_def)

lemma example_test:
  "\<exists>C'. testRewrite example_host (serve_by ''max'' example_proc) one_class some_x86 0 PointerTy ''max'' [f] example_client
    = Some ([make_report 0 0 0 0], C')"
  using test_rewrite_ok [OF example_host_ok example_target_ok keeps_answering [OF example_ends] example_client_ok, where fn = "''max''" and f = f]
  by (auto simp: example_client_def example_child child_verdict_def)

theorem synthesized_matches_witness:
  "\<exists>F lib code M M'. F lib = Some (copy_function \<lparr>mf_function = ''max'', mf_blocks = [code]\<rparr> \<lparr>mf_function = ''max'', mf_blocks = []\<rparr>) \<and>
    run_child ''max'' (example_proc 3) F lib M = Replied (make_report 0 0 0 0) M'"
proof -
  let ?test = "\<lambda>f. testRewrite example_host (serve_by ''max'' example_proc) one_class some_x86 0 PointerTy ''max'' [f]"
  let ?f = "[\<lparr>opcode = 6, operands = [Imm 3]\<rparr>]"
  obtain C' where C': "?test ?f example_client = Some ([make_report 0 0 0 0], C')" using example_test by blast
  have z: "calculateCost [make_report 0 0 0 0] = Some 0" by (simp add: calculateCost_def make_report_def)
  obtain s' where "synthesize_step no_target [] from_list ?test 10000 (two_instrs [2147483647, 0, 0]) example_client =
      Some (0, s', C')"
    by (simp add: synthesize_step_def search_run_simps C' z accept_rewrite_def Signal_penalty_def Accept_def delete_object_def)
  then have run: "synthesize no_target [] from_list ?test (two_instrs [2147483647, 0, 0]) example_client = Some (s', C')"
    by (simp add: synthesize_def synthesize_loop.simps)
  have p: "proc_ok (example_proc k)" "cost_bound (example_proc k) = 1000000" for k
    by (simp_all add: proc_ok_def cost_bound_def example_proc_def layout_ok_def example_layout_def)
  have ws: "Workers example_client = [\<lparr>FrameBegin = 0x6000, FrameSize = 0x1000, Socket = 3\<rparr>]" by (simp add: example_client_def)
  then obtain F lib code Mem M' where "F lib = Some (emit (toolchain example_host) 0
      (copy_function \<lparr>mf_function = ''max'', mf_blocks = [code]\<rparr>))"
    "run_child ''max'' (example_proc 3) F lib Mem = Replied (make_report 0 0 0 0) M'"
    using synthesized_matches [OF two_instrs_wf example_host_ok example_target_ok example_client_ok example_ends run] p by auto
  then show ?thesis by (intro exI [of _ F] exI [of _ lib] exI [of _ code] exI [of _ Mem] exI [of _ M']) (simp add: example_host_def)
qed

end
