(* ===== verification/Spec2Isabelle.thy ===== *)
theory Spec2Isabelle
  imports Checks Search Instrument HeapTrace HeapCalloc ServerModule TestRewrite
begin

text \<open>
  Verification of \<^emph>\<open>ubiquitous-goggles\<close>, a stochastic superoptimizer for x86-64 functions.

  \<^bold>\<open>The program.\<close> \<open>create-server.cpp\<close> builds a server from a program with a target function.
  When the target is called, the server (\<open>server.c\<close>) snapshots the stack, the heap and the
  output registers and spawns a worker process that waits for rewrites. The optimizer
  (\<open>search.cpp\<close>) changes the target's machine code at random (\<open>transform.cpp\<close>), instruments
  the result so that it dumps its registers and returns to the server
  (\<open>mf_instrument.cpp\<close>), and sends it to all workers (\<open>replay_cli.cpp\<close>); each runs it in a
  child process and reports how far its stack, heap and registers are from the target's.
  The heap that is compared belongs to the bundled allocator (\<open>malloc.c\<close>, dlmalloc 2.8.6),
  compiled with \<open>HAVE_MMAP\<close> 0 and without footers, debugging, locks and mspaces.

  \<^bold>\<open>Theories and what they model.\<close>
  \<^item> \<open>Prelude\<close>: machine words, masks, rounding to powers of two, the option monad.
  \<^item> \<open>malloc.c\<close>: \<open>SizeT\<close> (constants, alignment, \<open>request2size\<close>), \<open>BinIndex\<close> and \<open>BinMaps\<close>
    (bin indices and bit maps, gcc and portable variants), \<open>MState\<close> (\<open>malloc_params\<close>,
    \<open>malloc_state\<close>, fields in memory), \<open>Chunks\<close> (heads, feet, flags, segments), \<open>Params\<close>
    (\<open>init_mparams\<close>, \<open>change_mparam\<close>, \<open>init_top\<close>, \<open>init_bins\<close>), \<open>SmallBins\<close>, \<open>TreeBins\<close>,
    \<open>SysMem\<close> (\<open>sys_alloc\<close>, \<open>sys_trim\<close>, \<open>dispose_chunk\<close>), \<open>Alloc\<close> (\<open>dlmalloc\<close>), \<open>Free\<close>
    (\<open>dlfree\<close>, \<open>dlcalloc\<close>), \<open>Realloc\<close>, \<open>Bulk\<close> (\<open>ialloc\<close>, \<open>bulk_free\<close>, \<open>inspect_all\<close>), \<open>Api\<close>
    (the other exported functions), \<open>Stats\<close>, \<open>Checks\<close> (the \<open>DEBUG\<close> checks).
  \<^item> Correctness of the allocator: \<open>TreeStore\<close> and \<open>TreeUnlink\<close> (insertion into and removal from
    the tries of \<open>TreeBins\<close>), \<open>Bins\<close> (small and tree bins as one table from sizes to sets of free
    chunks), \<open>BestFit\<close> (the searches of \<open>Alloc\<close>), \<open>Layout\<close> (the chunks of the space, their boundary
    tags and top), \<open>HeapInv\<close> (the invariant \<open>heap_ok\<close> of the whole heap and the steps that keep it),
    \<open>HeapAlloc\<close> (\<open>dlmalloc\<close>), \<open>HeapFree\<close> (\<open>dlfree\<close>), \<open>HeapTrace\<close> (sequences of calls),
    \<open>HeapCalloc\<close> (\<open>dlcalloc\<close>, writes of the program to its blocks).
  \<^item> \<open>server.c\<close>: \<open>Distance\<close> (byte, memory and register distance), \<open>Worker\<close> (the frame's
    layout, snapshots, the child process, the worker's loop), \<open>Spawn\<close> (\<open>_server_init\<close>, which calls
    spawn a worker, and the step relation of the parent and the worker of one call).
  \<^item> \<open>replay_cli.cpp\<close>: \<open>Client\<close> (the worker file, requests and responses), \<open>TestRewrite\<close> (opening
    the client, \<open>compile\<close>, \<open>testRewrite\<close>). \<open>mf_compiler.cpp\<close>: \<open>Compiler\<close>. \<open>transform.cpp\<close>: \<open>Transform\<close>. \<open>search.cpp\<close>: \<open>Search\<close>.
    \<open>mf_instrument.cpp\<close>: \<open>Instrument\<close>.
  \<^item> \<open>create-server.cpp\<close>: \<open>CreateServer\<close> (modules, the stubs, \<open>fixSpawnImpl\<close>, \<open>fixSpawnWrapper\<close>,
    \<open>createServer\<close>); its correctness: \<open>ServerTypes\<close> (the typing rules of modules and how each change
    of a module treats them), \<open>ServerCalls\<close> (the spawn functions and the calls of the target),
    \<open>ServerModule\<close> (the whole program, from the module linked with \<open>server.c\<close> to the server).

  A C structure is a record, memory a map from addresses to 8-byte cells, a \<open>size_t\<close> or
  pointer a 64-bit word; every function carries the name of the code's. A call that does not
  return (abort, exit, failed assertion, endless loop over corrupted links) is \<open>None\<close>; loops
  without a structural bound are \<open>partial_function (option)\<close>, so that termination is a theorem.
  No fuel is used.

  \<^bold>\<open>What is shown.\<close>
  \<^item> Requests and bins: \<open>request2size\<close> is the least fitting size; the index functions file each
    size in the bin of its range; the map tricks find the next non-empty bin.
  \<^item> Small bins, tree bins and all bins together refine a table from size classes to sets of
    chunks; they are the instances of the locale \<open>chunk_store\<close>, in which removal after insertion
    and bulk insertion are proved once. The search in the tries ends and finds the best fit.
  \<^item> The heap: \<open>heap_ok m U F s\<close> says that the chunks \<open>U\<close> in use, the free chunks \<open>F\<close>, the
    designated victim and top tile the space without overlap and without two free neighbours,
    that heads and feet say so, and that the bins hold exactly \<open>F\<close>. \<open>dlmalloc\<close>, \<open>dlfree\<close> and
    \<open>dlcalloc\<close> keep it on every path and keep the contents of the blocks in use; so any sequence
    of calls does. The space is one segment below \<open>2 ^ 40\<close> bytes; requests are such that top could
    serve them (no call of \<open>sys_alloc\<close>); and frees are such that no trim or periodic release is
    due (\<open>quiet\<close>).
  \<^item> Other allocation: overflow in \<open>calloc\<close> and \<open>memalign\<close>; alignment of \<open>memalign\<close>; the invariant
    of \<open>mparams\<close>. The bins are shown to refine their table for sizes below \<open>2 ^ 40\<close> bytes
    (\<open>good_size\<close>), where the gcc variant of the tree index is right.
  \<^item> Server and client: distances are exact and metric. A worker's memory changes from request to
    request: by its rewrites where they write to the shared mapping, and by the crash reports that it
    allocates in the heap it compares. A rewrite may end, die or never end. A worker answers every test
    whose path fits into its buffer exactly once, if the rewrite ends (\<open>ends\<close>). Reachable states of
    \<open>spawn_step\<close>: however parent and worker interleave, the worker serves only next to the complete
    snapshot; so if no rewrite writes to the mapping (\<open>keeps_mapping\<close>), what it compares a rewrite with is
    the target's own run; and it can get to serve unless it has exited or a request keeps it. The client
    reads from the server's files the workers of the first 32 calls, and any sequence of tests returns.
    The interface between search and client is the locale \<open>tester\<close>, extended to \<open>live_tester\<close>; the client
    is an instance, so what \<open>synthesize\<close> leaves was passed by every worker, as long as the sum of the
    costs can not wrap around.
  \<^item> Transformations and search: \<open>Undo\<close> restores the rewrite; what \<open>synthesize\<close> returns passed
    its tests; what \<open>optimize\<close> records, and that it can record a function that fails.
  \<^item> Instrumentation: the register buffer's layout is disjoint and accepted by the server; the
    inserted code preserves the arguments, dumps the registers and returns to the server. The
    machine has full registers of 64 bits, of which the named ones are parts; so the parts of the
    scratch register, which is loaded before it is stored, are dumped as bits of the buffer's
    address, and that is what the theorems say. The emitted code of the target's and a rewrite's
    dump is given: the same registers are stored at the same offsets, those of the server's table.
    A high byte such as AH can not be stored next to the scratch register; there the code is stuck
    (\<open>storable\<close> excludes it).
  \<^item> Making the server: from a module that is typed and linked with the templates (\<open>linked\<close>)
    \<open>create-server\<close> makes a typed module in which nothing calls the target any more, provided that its
    last loop, which erases the call that holds the use it stands on, still reads the link to the next
    use there (the parameter \<open>intact\<close>); without that it has no result. The two situations in which
    LLVM's assertions stop it.

  \<^bold>\<open>Idealisations.\<close> A \<open>double\<close> of the search is a real number. Messages on a socket do not run
  together, as the client sends one only when the one before was answered; a worker reads each in pieces
  of at most \<open>LIBPATH_MAX_LEN\<close> bytes; a response arrives whole. What a crash report does to the bytes
  of the worker's heap (\<open>report_mem\<close>) is a parameter, as the allocator's model is on cells, not bytes. The mappings of other calls, which a later
  worker inherits, are not part of the states of a call. User memory is touched in 8-byte cells. \<open>sbrk\<close>, the page size, the clock,
  \<open>rand\<close>, the shell, the results of system calls, the passes of LLVM, its target's tables and
  the effect of running a rewrite are parameters. A module of LLVM is data: functions, blocks, instructions and typed values; a failed assertion of LLVM
  is \<open>None\<close>, and the order of the uses of a value is a parameter.

  \<^bold>\<open>Not modelled.\<close> The mspaces, locks, fork handlers, \<open>WIN32\<close> and \<open>mmap\<close> emulation of
  \<open>malloc.c\<close>, which this build does not compile; the driver program \<open>ug.cpp\<close>,
  which parses its command line, sets up LLVM's target and runs shell commands and the modelled
  parts one after the other; sockets, signals and process creation themselves.
\<close>

end
